(* ===== verification/Prelude.thy ===== *)
theory Prelude
  imports Complex_Main "HOL-Library.AList" "HOL-Library.Multiset" "HOL-Library.Signed_Division"
begin

text \<open>
  Shared vocabulary of the development: the reading of the JavaScript values the SDK computes
  with, the result type of operations that may throw, and the two interfaces that several
  components have in common.

  \<^item> A \<open>bigint\<close> is an \<open>int\<close>; its \<open>/\<close> and \<open>%\<close> truncate towards zero, which is \<open>sdiv\<close> and
    \<open>smod\<close> of \<open>HOL-Library.Signed_Division\<close>.
  \<^item> A \<open>number\<close> that holds a count, a weight, a timestamp or a duration is an \<open>int\<close>: the code
    keeps those integral and far below \<open>2 ^ 53\<close>. A \<open>number\<close> that is a fraction is a \<open>rat\<close>, and
    where the rounding of a floating-point operation could matter the operation itself is an
    argument of the definition, so that the theorems hold for every rounding.
  \<^item> A \<open>Map\<close> is an association list kept in insertion order: \<open>set\<close> is \<open>AList.update\<close> (an
    existing key keeps its place, a new one goes to the end), \<open>delete\<close> is \<open>AList.delete\<close>,
    \<open>get\<close> is \<open>map_of\<close>, \<open>keys\<close> is \<open>map fst\<close>.
  \<^item> A call that may throw returns \<open>'e + 'a\<close>, with \<open>Inl\<close> for the thrown error. An operation
    that changes state before it may throw returns the state beside that result.
  \<^item> \<open>Date.now()\<close> is an argument \<open>now\<close> of the operation that reads the clock.
\<close>

named_theorems sdk_ops \<open>definitions of the operations of the component at hand\<close>
named_theorems sdk_inv \<open>preservation of invariants\<close>

section \<open>Results\<close>

definition rbind :: "'e + 'a \<Rightarrow> ('a \<Rightarrow> 'e + 'b) \<Rightarrow> 'e + 'b" where
  "rbind r f = (case r of Inl e \<Rightarrow> Inl e | Inr x \<Rightarrow> f x)"

lemma rbind_simps [simp]: "rbind (Inl e) f = Inl e" "rbind (Inr x) f = f x"
  by (simp_all add: rbind_def)

lemma rbind_Inr_iff: "rbind r f = Inr y \<longleftrightarrow> (\<exists>x. r = Inr x \<and> f x = Inr y)"
  by (cases r) auto

section \<open>Arithmetic\<close>

lemma sdiv_nonneg: "0 \<le> a \<Longrightarrow> 0 \<le> b \<Longrightarrow> a sdiv b = a div (b::int)"
  by (cases "a = 0"; cases "b = 0") (auto simp: signed_divide_int_def)

lemma smod_nonneg: "0 \<le> a \<Longrightarrow> 0 \<le> b \<Longrightarrow> a smod b = a mod (b::int)"
  by (cases "a = 0") (auto simp: signed_modulo_int_def)

text \<open>\<open>Math.round\<close>: the nearest integer, halves towards positive infinity.\<close>

definition js_round :: "rat \<Rightarrow> int" where
  "js_round x = \<lfloor>x + 1 / 2\<rfloor>"

lemma js_round_of_int [simp]: "js_round (of_int n) = n"
  unfolding js_round_def by (rule floor_unique) simp_all

lemma js_round_nonneg: "0 \<le> x \<Longrightarrow> 0 \<le> js_round x"
  unfolding js_round_def by simp

text \<open>\<open>Math.trunc\<close> on a finite number.\<close>

definition js_trunc :: "rat \<Rightarrow> int" where
  "js_trunc x = (if x < 0 then \<lceil>x\<rceil> else \<lfloor>x\<rfloor>)"

text \<open>
  What rounding to a double satisfies in the range the SDK computes in: it is monotone and
  does nothing to an integer of at most 53 bits.
\<close>

definition fl_ok :: "(rat \<Rightarrow> rat) \<Rightarrow> bool" where
  "fl_ok fl \<longleftrightarrow> mono fl \<and> (\<forall>n::int. \<bar>n\<bar> \<le> 2 ^ 53 \<longrightarrow> fl (of_int n) = of_int n)"

lemma fl_mono: "fl_ok fl \<Longrightarrow> x \<le> y \<Longrightarrow> fl x \<le> fl y"
  by (simp add: fl_ok_def mono_def)

lemma fl_int: "fl_ok fl \<Longrightarrow> \<bar>n\<bar> \<le> 2 ^ 53 \<Longrightarrow> fl (of_int n) = of_int n"
  by (simp add: fl_ok_def)

lemma fl_0: "fl_ok fl \<Longrightarrow> fl 0 = 0" and fl_1: "fl_ok fl \<Longrightarrow> fl 1 = 1"
  using fl_int [of fl 0] fl_int [of fl 1] by simp_all

lemma fl_nonneg: "fl_ok fl \<Longrightarrow> 0 \<le> x \<Longrightarrow> 0 \<le> fl x"
  using fl_mono [of fl 0 x] by (simp add: fl_0)

section \<open>Insertion-ordered maps\<close>

lemma distinct_fst_update: "distinct (map fst m) \<Longrightarrow> distinct (map fst (AList.update k v m))"
  by (rule distinct_update)

lemma distinct_fst_delete: "distinct (map fst m) \<Longrightarrow> distinct (map fst (AList.delete k m))"
  by (simp add: AList.delete_eq distinct_map_filter)

lemma map_of_update [simp]: "map_of (AList.update k v m) = (map_of m)(k \<mapsto> v)"
  by (rule update_conv')

lemma map_of_delete [simp]: "map_of (AList.delete k m) = (map_of m)(k := None)"
  by (rule delete_conv')

lemma fst_set_update [simp]: "fst ` set (AList.update k v m) = insert k (fst ` set m)"
  by (simp add: dom_update)

lemma length_update_new: "k \<notin> fst ` set m \<Longrightarrow> length (AList.update k v m) = Suc (length m)"
  by (induction m) auto

lemma length_update_old: "k \<in> fst ` set m \<Longrightarrow> length (AList.update k v m) = length m"
  by (induction m) auto

lemma set_update_sub: "set (AList.update k v m) \<subseteq> insert (k, v) (set m)"
  by (induction m) auto

lemma nth_update_if: "xs[i := x] ! j = (if i = j \<and> j < length xs then x else xs ! j)"
  by (cases "i < length xs") (auto simp: nth_list_update list_update_beyond)

lemma map_update_same: "f x = f (xs ! k) \<Longrightarrow> map f (xs[k := x]) = map f xs"
  by (rule nth_equalityI) (auto simp: nth_update_if)

lemma multiset_move: "A + H = B + P \<Longrightarrow> P + c + f = H \<Longrightarrow> A + c + f = (B :: 'a multiset)"
proof -
  assume "A + H = B + P" "P + c + f = H"
  then have "(A + c + f) + P = B + P" by (simp add: ac_simps)
  then show ?thesis by (rule add_right_imp_eq)
qed

lemma mset_concat_update:
  "k < length xs \<Longrightarrow>
   mset (concat (map f (xs[k := y]))) + mset (f (xs ! k)) = mset (concat (map f xs)) + mset (f y)"
proof (induction xs arbitrary: k)
  case (Cons x xs)
  show ?case
  proof (cases k)
    case 0
    then show ?thesis by (simp add: ac_simps)
  next
    case (Suc n)
    with Cons.IH [of n] Cons.prems show ?thesis by (simp add: add.assoc)
  qed
qed simp

text \<open>A \<open>Set\<close> is a list without duplicates, in insertion order; \<open>delete\<close> is \<open>removeAll\<close>.\<close>

definition set_add :: "'a \<Rightarrow> 'a list \<Rightarrow> 'a list" where
  "set_add x xs = (if x \<in> set xs then xs else xs @ [x])"

lemma set_set_add [simp]: "set (set_add x xs) = insert x (set xs)"
  by (auto simp: set_add_def)

lemma distinct_set_add [simp]: "distinct (set_add x xs) \<longleftrightarrow> distinct xs"
  by (auto simp: set_add_def)

text \<open>A look-up by a computed name in a plain object also finds what every object inherits.\<close>

definition inherited_names :: "string list" where
  "inherited_names =
     [''constructor'', ''__defineGetter__'', ''__defineSetter__'', ''hasOwnProperty'', ''__lookupGetter__'',
      ''__lookupSetter__'', ''isPrototypeOf'', ''propertyIsEnumerable'', ''toString'', ''valueOf'', ''__proto__'',
      ''toLocaleString'']"

section \<open>Folding and sorting as the code does\<close>

text \<open>\<open>xs.reduce((acc, x) => acc + f(x), 0)\<close>.\<close>

lemma sum_list_update_int:
  "i < length xs \<Longrightarrow> sum_list (xs[i := v]) = sum_list xs + v - (xs ! i :: int)"
  by (induction xs arbitrary: i) (auto split: nat.splits)

lemma foldl_sum: "foldl (\<lambda>acc x. acc + f x) (a::'b::comm_monoid_add) xs = a + sum_list (map f xs)"
  by (induction xs arbitrary: a) (simp_all add: ac_simps)

text \<open>
  \<open>xs.sort(cmp)\<close>: the sort of the language is stable, so for a comparator that is a total
  preorder its result is the one stable sorted permutation, which insertion computes.
\<close>

fun js_insert :: "('a \<Rightarrow> 'a \<Rightarrow> rat) \<Rightarrow> 'a \<Rightarrow> 'a list \<Rightarrow> 'a list" where
  "js_insert cmp x [] = [x]"
| "js_insert cmp x (y # ys) = (if cmp x y \<le> 0 then x # y # ys else y # js_insert cmp x ys)"

definition js_sort :: "('a \<Rightarrow> 'a \<Rightarrow> rat) \<Rightarrow> 'a list \<Rightarrow> 'a list" where
  "js_sort cmp xs = foldr (js_insert cmp) xs []"

lemma js_sort_simps [simp]: "js_sort cmp [] = []" "js_sort cmp (x # xs) = js_insert cmp x (js_sort cmp xs)"
  by (simp_all add: js_sort_def)

lemma mset_js_insert [simp]: "mset (js_insert cmp x ys) = add_mset x (mset ys)"
  by (induction ys) auto

lemma mset_js_sort [simp]: "mset (js_sort cmp xs) = mset xs"
  by (induction xs) simp_all

lemma set_js_sort [simp]: "set (js_sort cmp xs) = set xs"
  by (metis mset_js_sort set_mset_mset)

lemma length_js_sort [simp]: "length (js_sort cmp xs) = length xs"
  by (metis mset_js_sort size_mset)

lemma distinct_map_js_sort: "distinct (map f (js_sort cmp xs)) \<longleftrightarrow> distinct (map f xs)"
  by (metis distinct_count_atmost_1 mset_js_sort mset_map mset_eq_imp_distinct_iff)

lemma sum_list_map_js_sort: "sum_list (map f (js_sort cmp xs)) = (sum_list (map f xs) :: 'b::comm_monoid_add)"
  by (metis mset_js_sort mset_map sum_mset_sum_list)

text \<open>What a comparison function must promise for the sort to order its input.\<close>

locale comparator =
  fixes cmp :: "'a \<Rightarrow> 'a \<Rightarrow> rat"
  assumes cmp_total: "cmp x y \<le> 0 \<or> cmp y x \<le> 0"
    and cmp_trans: "cmp x y \<le> 0 \<Longrightarrow> cmp y z \<le> 0 \<Longrightarrow> cmp x z \<le> 0"
begin

lemma sorted_js_insert:
  "sorted_wrt (\<lambda>a b. cmp a b \<le> 0) ys \<Longrightarrow> sorted_wrt (\<lambda>a b. cmp a b \<le> 0) (js_insert cmp x ys)"
proof (induction ys)
  case (Cons y ys)
  have sub: "set (js_insert cmp x ys) = insert x (set ys)"
    by (metis mset_js_insert set_mset_add_mset_insert set_mset_mset)
  show ?case
  proof (cases "cmp x y \<le> 0")
    case True
    with Cons.prems show ?thesis by (auto intro: cmp_trans)
  next
    case False
    then have "cmp y x \<le> 0" using cmp_total by blast
    with False Cons show ?thesis by (simp add: sub)
  qed
qed simp

lemma sorted_js_sort: "sorted_wrt (\<lambda>a b. cmp a b \<le> 0) (js_sort cmp xs)"
  by (induction xs) (simp_all add: sorted_js_insert)

lemma js_sort_nth:
  "i < j \<Longrightarrow> j < length xs \<Longrightarrow> cmp (js_sort cmp xs ! i) (js_sort cmp xs ! j) \<le> 0"
  using sorted_js_sort by (rule sorted_wrt_nth_less) simp_all

end

section \<open>Strings\<close>

text \<open>\<open>BigInt.prototype.toString\<close> and its inverse on decimal digits.\<close>

definition digit_char :: "nat \<Rightarrow> char" where
  "digit_char d = char_of (48 + d)"

definition is_digit :: "char \<Rightarrow> bool" where
  "is_digit c \<longleftrightarrow> 48 \<le> (of_char c :: nat) \<and> of_char c \<le> (57 :: nat)"

fun show_nat :: "nat \<Rightarrow> string" where
  "show_nat n = (if n < 10 then [digit_char n] else show_nat (n div 10) @ [digit_char (n mod 10)])"

declare show_nat.simps [simp del]

definition show_int :: "int \<Rightarrow> string" where
  "show_int i = (if i < 0 then CHR ''-'' # show_nat (nat (- i)) else show_nat (nat i))"

definition parse_digits :: "string \<Rightarrow> nat" where
  "parse_digits s = foldl (\<lambda>acc c. acc * 10 + (of_char c - 48)) 0 s"

text \<open>\<open>hay.includes(needle)\<close>\<close>

fun str_includes :: "string \<Rightarrow> string \<Rightarrow> bool" where
  "str_includes needle [] = (needle = [])"
| "str_includes needle (c # cs) =
     (take (length needle) (c # cs) = needle \<or> str_includes needle cs)"

text \<open>\<open>s.endsWith(suffix)\<close>\<close>

definition str_ends :: "string \<Rightarrow> string \<Rightarrow> bool" where
  "str_ends suf s \<longleftrightarrow> length suf \<le> length s \<and> drop (length s - length suf) s = suf"

lemma str_ends_append [simp]: "str_ends suf (pre @ suf)"
  by (simp add: str_ends_def)

text \<open>Two strings joined by a separator can be told apart when the last part does not contain it.\<close>

lemma join_inj:
  assumes "r @ c # a = r' @ c # a'" "c \<notin> set a" "c \<notin> set a'" shows "r = r' \<and> a = a'"
proof -
  have split: "takeWhile (\<lambda>x. x \<noteq> c) (rev (p @ c # q)) = rev q" if "c \<notin> set q" for p q
    using that by (auto simp: takeWhile_append)
  have "rev a = rev a'" using split [OF assms(2), of r] split [OF assms(3), of r'] assms(1) by simp
  with assms(1) show ?thesis by simp
qed

lemma of_digit_char [simp]: "d < 10 \<Longrightarrow> (of_char (digit_char d) :: nat) = 48 + d"
  by (simp add: digit_char_def)

lemma is_digit_digit_char [simp]: "d < 10 \<Longrightarrow> is_digit (digit_char d)"
  by (simp add: is_digit_def)

lemma show_nat_digits: "\<forall>c \<in> set (show_nat n). is_digit c"
proof (induction n rule: show_nat.induct)
  case (1 n)
  then show ?case by (subst show_nat.simps) auto
qed

lemma show_nat_ne: "show_nat n \<noteq> []"
  by (subst show_nat.simps) simp

lemma parse_show_nat [simp]: "parse_digits (show_nat n) = n"
proof (induction n rule: show_nat.induct)
  case (1 n)
  show ?case
  proof (cases "n < 10")
    case True
    then show ?thesis by (subst show_nat.simps) (simp add: parse_digits_def)
  next
    case False
    with 1 show ?thesis by (subst show_nat.simps) (simp add: parse_digits_def)
  qed
qed

lemma show_nat_inj: "show_nat m = show_nat n \<longleftrightarrow> m = n"
  by (metis parse_show_nat)

lemma show_int_chars: "c \<in> set (show_int i) \<Longrightarrow> is_digit c \<or> c = CHR ''-''"
  using show_nat_digits by (auto simp: show_int_def split: if_splits)

lemma dash_not_digit: "\<not> is_digit (CHR ''-'')"
  by (simp add: is_digit_def)

lemma show_int_inj: "show_int i = show_int j \<longleftrightarrow> i = j"
proof
  assume eq: "show_int i = show_int j"
  have hd_dash: "hd (show_int k) = CHR ''-'' \<longleftrightarrow> k < 0" for k
    using show_nat_digits [of "nat k"] show_nat_ne [of "nat k"] dash_not_digit
    by (auto simp: show_int_def) (metis hd_in_set)
  from eq hd_dash have "i < 0 \<longleftrightarrow> j < 0" by metis
  with eq show "i = j" by (auto simp: show_int_def show_nat_inj split: if_splits)
qed simp

lemma str_includes_chars: "str_includes needle hay \<Longrightarrow> set needle \<subseteq> set hay"
  by (induction hay) (auto dest: in_set_takeD, metis in_set_takeD list.set_intros set_ConsD)

lemma str_includes_append: "str_includes needle (pre @ needle @ post)"
  by (induction pre) (cases needle; cases post; simp)+

text \<open>\<open>toUpperCase\<close> on the ASCII letters, which are all that addresses and asset codes hold.\<close>

definition upper_char :: "char \<Rightarrow> char" where
  "upper_char c = (let n = of_char c :: nat in if 97 \<le> n \<and> n \<le> 122 then char_of (n - 32) else c)"

text \<open>\<open>split\<close> at a character.\<close>

fun split_at :: "char \<Rightarrow> string \<Rightarrow> string list" where
  "split_at sep [] = [[]]"
| "split_at sep (c # cs) =
     (if c = sep then [] # split_at sep cs
      else case split_at sep cs of [] \<Rightarrow> [[c]] | w # ws \<Rightarrow> (c # w) # ws)"

text \<open>\<open>s.padStart(n, "0")\<close>, and the digits of a padded number.\<close>

definition pad_start :: "nat \<Rightarrow> string \<Rightarrow> string" where
  "pad_start n s = replicate (n - length s) CHR ''0'' @ s"

lemma parse_digits_zeros: "parse_digits (replicate n CHR ''0'' @ s) = parse_digits s"
  by (induction n) (simp_all add: parse_digits_def)

lemma parse_pad_start [simp]: "parse_digits (pad_start n s) = parse_digits s"
  by (simp add: pad_start_def parse_digits_zeros)

lemma show_nat_length: "n < 10 ^ d \<Longrightarrow> 0 < d \<Longrightarrow> length (show_nat n) \<le> d"
proof (induction d arbitrary: n)
  case (Suc d)
  show ?case
  proof (cases "n < 10")
    case True
    then show ?thesis by (subst show_nat.simps) simp
  next
    case False
    with Suc.prems(1) have "n div 10 < 10 ^ d" "0 < d" by (auto simp: less_mult_imp_div_less intro: Suc_leI ccontr)
    with Suc.IH False show ?thesis by (subst show_nat.simps) simp
  qed
qed simp

lemma pad_start_digits: "\<forall>c \<in> set s. is_digit c \<Longrightarrow> \<forall>c \<in> set (pad_start n s). is_digit c"
  by (auto simp: pad_start_def is_digit_def)

lemma length_pad_start: "length s \<le> n \<Longrightarrow> length (pad_start n s) = n"
  by (simp add: pad_start_def)

text \<open>\<open>String.prototype.trim\<close> on the characters of one byte.\<close>

definition is_space :: "char \<Rightarrow> bool" where
  "is_space c \<longleftrightarrow> (let n = of_char c :: nat in 9 \<le> n \<and> n \<le> 13 \<or> n = 32 \<or> n = 160)"

definition trim :: "string \<Rightarrow> string" where
  "trim s = rev (dropWhile is_space (rev (dropWhile is_space s)))"

lemma trim_id: "\<forall>c \<in> set s. \<not> is_space c \<Longrightarrow> trim s = s"
proof -
  assume ns: "\<forall>c \<in> set s. \<not> is_space c"
  have drop: "dropWhile is_space xs = xs" if "set xs \<subseteq> set s" for xs
    using that ns by (cases xs) auto
  show ?thesis using drop [of s] drop [of "rev s"] by (simp add: trim_def)
qed

text \<open>
  \<open>BigInt(s)\<close> on a string: an optional sign and decimal digits, or nothing at all for zero. \<open>None\<close>
  is the \<open>SyntaxError\<close>; the literals with a base prefix (\<open>0x\<close>) count as errors here.
\<close>

definition big_int_of :: "string \<Rightarrow> int option" where
  "big_int_of s =
     (let t = trim s
      in if t = [] then Some 0
         else if list_all is_digit t then Some (int (parse_digits t))
         else if hd t = CHR ''-'' \<and> tl t \<noteq> [] \<and> list_all is_digit (tl t) then Some (- int (parse_digits (tl t)))
         else if hd t = CHR ''+'' \<and> tl t \<noteq> [] \<and> list_all is_digit (tl t) then Some (int (parse_digits (tl t)))
         else None)"

lemma digit_not_space: "is_digit c \<Longrightarrow> \<not> is_space c"
  by (auto simp: is_digit_def is_space_def Let_def)

lemma big_int_digits:
  assumes "\<forall>c \<in> set s. is_digit c" shows "big_int_of s = Some (int (parse_digits s))"
proof -
  have "trim s = s" using assms digit_not_space by (intro trim_id) blast
  moreover have "parse_digits [] = 0" by (simp add: parse_digits_def)
  ultimately show ?thesis using assms by (auto simp: big_int_of_def list_all_iff)
qed

lemma big_int_show [simp]: "big_int_of (show_int n) = Some n"
proof (cases "n < 0")
  case True
  let ?t = "show_nat (nat (- n))"
  have "\<not> is_space (CHR ''-'')" by (simp add: is_space_def)
  moreover have "\<forall>c \<in> set ?t. \<not> is_space c" using show_nat_digits digit_not_space by blast
  ultimately have "trim (CHR ''-'' # ?t) = CHR ''-'' # ?t" by (intro trim_id) simp
  with True show ?thesis
    using show_nat_digits [of "nat (- n)"] show_nat_ne [of "nat (- n)"] dash_not_digit
    by (simp add: big_int_of_def show_int_def list_all_iff)
next
  case False
  then show ?thesis using big_int_digits [OF show_nat_digits, of "nat n"] by (simp add: show_int_def)
qed

section \<open>State machines with a history\<close>

text \<open>
  Most components keep a state that is only changed by their own operations. What an invariant
  of each operation gives for any sequence of calls is proved once, here. An operation that
  throws is a step too: it leaves the state the code leaves behind.
\<close>

locale machine =
  fixes step :: "'s \<Rightarrow> 'e \<Rightarrow> 's" and inv :: "'s \<Rightarrow> bool"
  assumes step_inv: "inv s \<Longrightarrow> inv (step s e)"
begin

lemma run_inv: "inv s \<Longrightarrow> inv (foldl step s es)"
  by (induction es arbitrary: s) (simp_all add: step_inv)

end

text \<open>A machine in which some property, once true, stays true: a latch.\<close>

locale latched_machine = machine +
  fixes latched :: "'s \<Rightarrow> bool"
  assumes step_latched: "inv s \<Longrightarrow> latched s \<Longrightarrow> latched (step s e)"
begin

lemma run_latched: "inv s \<Longrightarrow> latched s \<Longrightarrow> latched (foldl step s es)"
  by (induction es arbitrary: s) (simp_all add: step_latched step_inv)

end

end
