(* ===== verification/Access_Control.thy ===== *)
theory Access_Control
  imports Prelude
begin

text \<open>
  Authorisation: \<open>src/accessControl.ts\<close>. The grants of the in-memory store, the ACL manager that
  caches a store's answers, credential checks and consent, and the approval workflow for custody
  withdrawals.

  The calls are asynchronous. Where the code awaits, the definition is cut in two: what runs
  before the answer arrives and what runs after it. A call that is not interleaved with others
  is the composition of its two halves; the last section lets them interleave.
\<close>

section \<open>The access control list\<close>

subsection \<open>\<open>InMemoryAclStore\<close>\<close>

type_synonym acl_grants = "(string \<times> string list) list"

definition mem_grant :: "string \<Rightarrow> string \<Rightarrow> acl_grants \<Rightarrow> acl_grants" where
  "mem_grant r a g =
     (let g1 = (case map_of g r of None \<Rightarrow> AList.update r [] g | Some _ \<Rightarrow> g)
      in AList.update r (set_add a (the (map_of g1 r))) g1)"

definition mem_revoke :: "string \<Rightarrow> string \<Rightarrow> acl_grants \<Rightarrow> acl_grants" where
  "mem_revoke r a g =
     (case map_of g r of None \<Rightarrow> g | Some s \<Rightarrow> AList.update r (removeAll a s) g)"

definition mem_check :: "acl_grants \<Rightarrow> string \<Rightarrow> string \<Rightarrow> bool" where
  "mem_check g r a = (case map_of g r of None \<Rightarrow> False | Some s \<Rightarrow> a \<in> set s)"

subsection \<open>\<open>AclManager\<close>, over any store\<close>

record acl_entry =
  ae_value :: bool
  ae_expiresAt :: int

record 's acl_manager =
  am_store :: 's
  am_cache :: "(string \<times> acl_entry) list"

definition cacheKey :: "string \<Rightarrow> string \<Rightarrow> string" where
  "cacheKey r a = r @ '':'' @ a"

definition invalidateCache :: "string \<Rightarrow> 's acl_manager \<Rightarrow> 's acl_manager" where
  "invalidateCache who m =
     m\<lparr>am_cache := filter (\<lambda>(k, e). \<not> str_ends ('':'' @ who) k) (am_cache m)\<rparr>"

definition acl_grant :: "(string \<Rightarrow> string \<Rightarrow> 's \<Rightarrow> 's) \<Rightarrow> string \<Rightarrow> string \<Rightarrow> 's acl_manager \<Rightarrow> 's acl_manager" where
  "acl_grant gr r a m = invalidateCache a (m\<lparr>am_store := gr r a (am_store m)\<rparr>)"

definition acl_revoke :: "(string \<Rightarrow> string \<Rightarrow> 's \<Rightarrow> 's) \<Rightarrow> string \<Rightarrow> string \<Rightarrow> 's acl_manager \<Rightarrow> 's acl_manager" where
  "acl_revoke rv r a m = invalidateCache a (m\<lparr>am_store := rv r a (am_store m)\<rparr>)"

text \<open>\<open>check\<close> before and after \<open>await this.store.check(...)\<close>.\<close>

definition acl_cached :: "int \<Rightarrow> string \<Rightarrow> string \<Rightarrow> 's acl_manager \<Rightarrow> bool option" where
  "acl_cached now r a m =
     (case map_of (am_cache m) (cacheKey r a) of
        Some e \<Rightarrow> if ae_expiresAt e > now then Some (ae_value e) else None
      | None \<Rightarrow> None)"

definition acl_fill :: "int \<Rightarrow> int \<Rightarrow> string \<Rightarrow> string \<Rightarrow> bool \<Rightarrow> 's acl_manager \<Rightarrow> 's acl_manager" where
  "acl_fill ttl now r a allowed m =
     m\<lparr>am_cache := AList.update (cacheKey r a) \<lparr>ae_value = allowed, ae_expiresAt = now + ttl\<rparr> (am_cache m)\<rparr>"

definition acl_check ::
    "('s \<Rightarrow> string \<Rightarrow> string \<Rightarrow> bool) \<Rightarrow> int \<Rightarrow> int \<Rightarrow> int \<Rightarrow> string \<Rightarrow> string \<Rightarrow> 's acl_manager
      \<Rightarrow> bool \<times> 's acl_manager" where
  "acl_check chk ttl now later r a m =
     (case acl_cached now r a m of
        Some v \<Rightarrow> (v, m)
      | None \<Rightarrow> (let allowed = chk (am_store m) r a in (allowed, acl_fill ttl later r a allowed m)))"

datatype acl_call = AGrant string string | ARevoke string string | ACheck int int string string

fun acl_step ::
    "(string \<Rightarrow> string \<Rightarrow> 's \<Rightarrow> 's) \<Rightarrow> (string \<Rightarrow> string \<Rightarrow> 's \<Rightarrow> 's) \<Rightarrow> ('s \<Rightarrow> string \<Rightarrow> string \<Rightarrow> bool) \<Rightarrow> int
      \<Rightarrow> 's acl_manager \<Rightarrow> acl_call \<Rightarrow> 's acl_manager" where
  "acl_step gr rv chk ttl m (AGrant r a) = acl_grant gr r a m"
| "acl_step gr rv chk ttl m (ARevoke r a) = acl_revoke rv r a m"
| "acl_step gr rv chk ttl m (ACheck now later r a) = snd (acl_check chk ttl now later r a m)"

text \<open>What the calls so far say about an address: the last grant or revocation decides.\<close>

fun granted_after :: "bool \<Rightarrow> acl_call list \<Rightarrow> string \<Rightarrow> string \<Rightarrow> bool" where
  "granted_after start [] r a = start"
| "granted_after start (AGrant r' a' # cs) r a = granted_after (start \<or> r' = r \<and> a' = a) cs r a"
| "granted_after start (ARevoke r' a' # cs) r a = granted_after (start \<and> \<not> (r' = r \<and> a' = a)) cs r a"
| "granted_after start (ACheck _ _ _ _ # cs) r a = granted_after start cs r a"

fun call_address :: "acl_call \<Rightarrow> string" where
  "call_address (AGrant r a) = a"
| "call_address (ARevoke r a) = a"
| "call_address (ACheck now later r a) = a"

subsection \<open>What the manager may expect of a store\<close>

locale acl_store =
  fixes gr :: "string \<Rightarrow> string \<Rightarrow> 's \<Rightarrow> 's" and rv :: "string \<Rightarrow> string \<Rightarrow> 's \<Rightarrow> 's"
    and chk :: "'s \<Rightarrow> string \<Rightarrow> string \<Rightarrow> bool"
  assumes chk_grant: "chk (gr r a s) r' a' \<longleftrightarrow> chk s r' a' \<or> r = r' \<and> a = a'"
    and chk_revoke: "chk (rv r a s) r' a' \<longleftrightarrow> chk s r' a' \<and> \<not> (r = r' \<and> a = a')"
begin

text \<open>Every cached answer is the store's answer, for addresses that do not contain the separator.\<close>

definition coherent :: "'s acl_manager \<Rightarrow> bool" where
  "coherent m \<longleftrightarrow> (\<forall>(k, e) \<in> set (am_cache m).
     \<exists>r a. k = cacheKey r a \<and> CHR '':'' \<notin> set a \<and> ae_value e = chk (am_store m) r a)"

lemma coherentD:
  assumes "coherent m" "(k, e) \<in> set (am_cache m)"
  shows "\<exists>r a. k = cacheKey r a \<and> CHR '':'' \<notin> set a \<and> ae_value e = chk (am_store m) r a"
  using bspec [OF assms(1) [unfolded coherent_def] assms(2)] by simp

lemma coherent_invalidate:
  assumes "coherent m" and other: "\<And>r' a'. a' \<noteq> a \<Longrightarrow> chk s r' a' = chk (am_store m) r' a'"
  shows "coherent (invalidateCache a (m\<lparr>am_store := s\<rparr>))"
  unfolding coherent_def
proof (clarify)
  fix k e assume "(k, e) \<in> set (am_cache (invalidateCache a (m\<lparr>am_store := s\<rparr>)))"
  then have mem: "(k, e) \<in> set (am_cache m)" and ends: "\<not> str_ends ('':'' @ a) k" by (auto simp: invalidateCache_def)
  from coherentD [OF assms(1) mem] obtain r' a' where
    k: "k = cacheKey r' a'" "CHR '':'' \<notin> set a'" "ae_value e = chk (am_store m) r' a'" by (elim exE conjE)
  with ends str_ends_append [of "'':'' @ a" r'] have "a' \<noteq> a" by (auto simp: cacheKey_def)
  then have "chk s r' a' = chk (am_store m) r' a'" by (rule other)
  with k show "\<exists>r a'. k = cacheKey r a' \<and> CHR '':'' \<notin> set a' \<and>
      ae_value e = chk (am_store (invalidateCache a (m\<lparr>am_store := s\<rparr>))) r a'"
    by (intro exI [of _ r'] exI [of _ a']) (simp add: invalidateCache_def)
qed

lemma coherent_cached:
  assumes "coherent m" "CHR '':'' \<notin> set a" "acl_cached now r a m = Some v" shows "v = chk (am_store m) r a"
proof -
  from assms(3) obtain e where e: "(cacheKey r a, e) \<in> set (am_cache m)" "v = ae_value e"
    by (auto simp: acl_cached_def split: option.splits if_splits dest: map_of_SomeD)
  from coherentD [OF assms(1) e(1)] e(2) obtain r' a' where
    k: "cacheKey r a = cacheKey r' a'" "CHR '':'' \<notin> set a'" "v = chk (am_store m) r' a'" by (elim exE conjE) simp
  from k(1) have "r @ CHR '':'' # a = r' @ CHR '':'' # a'" by (simp add: cacheKey_def)
  from join_inj [OF this assms(2) k(2)] k(3) show ?thesis by simp
qed

lemma coherent_fill:
  assumes "coherent m" "CHR '':'' \<notin> set a"
  shows "coherent (acl_fill ttl now r a (chk (am_store m) r a) m)"
  using assms set_update_sub [of "cacheKey r a" _ "am_cache m"] unfolding coherent_def acl_fill_def by fastforce

lemma check_coherent:
  "coherent m \<Longrightarrow> CHR '':'' \<notin> set a \<Longrightarrow> coherent (snd (acl_check chk ttl now later r a m))"
  by (auto simp: acl_check_def Let_def coherent_fill split: option.splits)

lemma check_answer:
  "coherent m \<Longrightarrow> CHR '':'' \<notin> set a \<Longrightarrow> fst (acl_check chk ttl now later r a m) = chk (am_store m) r a"
  by (auto simp: acl_check_def Let_def coherent_cached split: option.splits)

lemma step_coherent:
  assumes "coherent m" "CHR '':'' \<notin> set (call_address c)" shows "coherent (acl_step gr rv chk ttl m c)"
  using assms
  by (cases c) (auto simp: acl_grant_def acl_revoke_def chk_grant chk_revoke check_coherent intro!: coherent_invalidate)

lemma step_store: "chk (am_store (acl_step gr rv chk ttl m c)) r a =
    granted_after (chk (am_store m) r a) [c] r a"
  by (cases c) (auto simp: acl_grant_def acl_revoke_def invalidateCache_def chk_grant chk_revoke acl_check_def
      acl_fill_def Let_def split: option.splits)

lemma granted_after_Cons: "granted_after b (c # cs) r a = granted_after (granted_after b [c] r a) cs r a"
  by (cases c) simp_all

lemma run_check:
  "coherent m \<Longrightarrow> \<forall>c \<in> set cs. CHR '':'' \<notin> set (call_address c) \<Longrightarrow> CHR '':'' \<notin> set a \<Longrightarrow>
   fst (acl_check chk ttl now later r a (foldl (acl_step gr rv chk ttl) m cs)) =
     granted_after (chk (am_store m) r a) cs r a"
proof (induction cs arbitrary: m)
  case (Cons c cs)
  then show ?case using step_coherent [of m c ttl] step_store [of ttl m c r a] granted_after_Cons [of _ c cs] by simp
qed (simp add: check_answer)

end

lemma mem_check_grant: "mem_check (mem_grant r a s) r' a' \<longleftrightarrow> mem_check s r' a' \<or> r = r' \<and> a = a'"
  by (auto simp: mem_check_def mem_grant_def Let_def split: option.splits)

lemma mem_check_revoke: "mem_check (mem_revoke r a s) r' a' \<longleftrightarrow> mem_check s r' a' \<and> \<not> (r = r' \<and> a = a')"
  by (auto simp: mem_check_def mem_revoke_def split: option.splits)

interpretation mem_acl: acl_store mem_grant mem_revoke mem_check
  by unfold_locales (rule mem_check_grant mem_check_revoke)+

definition acl_manager_new :: "acl_grants acl_manager" where
  "acl_manager_new = \<lparr>am_store = [], am_cache = []\<rparr>"

section \<open>Credentials and consent: \<open>SovereignIdentityManager\<close>\<close>

record credential =
  vc_id :: string
  vc_issuer :: string
  vc_subject :: string
  vc_type :: "string list"
  vc_expirationDate :: "int option"

datatype consent_purpose = Kyc | Aml | Analytics

record consent_record =
  cr_subject :: string
  cr_purpose :: consent_purpose
  cr_granted :: bool
  cr_updatedAt :: int

datatype verify_reason =
  MissingFields | UntrustedIssuer string | SubjectMismatch | CredentialExpired | MissingType string | ProofFailed

record identity_analytics =
  ia_verifications :: nat
  ia_successes :: nat
  ia_failures :: nat
  ia_consentsGranted :: nat
  ia_consentsRevoked :: nat

text \<open>
  The consents are keyed by \<open>subject:purpose\<close>. No purpose contains a colon, so the pair is as good
  a key (\<open>join_inj\<close>). The verifier is the caller's, an argument.
\<close>

record identity_manager =
  im_consents :: "((string \<times> consent_purpose) \<times> consent_record) list"
  im_analytics :: identity_analytics

definition identity_new :: identity_manager where
  "identity_new = \<lparr>im_consents = [], im_analytics = \<lparr>ia_verifications = 0, ia_successes = 0, ia_failures = 0,
     ia_consentsGranted = 0, ia_consentsRevoked = 0\<rparr>\<rparr>"

definition verify_reasons ::
    "string list \<Rightarrow> string list \<Rightarrow> (credential \<Rightarrow> bool) option \<Rightarrow> int \<Rightarrow> credential \<Rightarrow> string option \<Rightarrow> verify_reason list" where
  "verify_reasons trusted required verifier now c expectedSubject =
     (if vc_id c = [] \<or> vc_issuer c = [] \<or> vc_subject c = [] then [MissingFields] else []) @
     (if trusted \<noteq> [] \<and> vc_issuer c \<notin> set trusted then [UntrustedIssuer (vc_issuer c)] else []) @
     (case expectedSubject of None \<Rightarrow> []
      | Some s \<Rightarrow> if s \<noteq> [] \<and> vc_subject c \<noteq> s then [SubjectMismatch] else []) @
     (case vc_expirationDate c of None \<Rightarrow> []
      | Some t \<Rightarrow> if t \<le> now then [CredentialExpired] else []) @
     map MissingType (filter (\<lambda>t. t \<notin> set (vc_type c)) required) @
     (case verifier of None \<Rightarrow> [] | Some f \<Rightarrow> if \<not> f c then [ProofFailed] else [])"

definition verify ::
    "string list \<Rightarrow> string list \<Rightarrow> (credential \<Rightarrow> bool) option \<Rightarrow> int \<Rightarrow> credential \<Rightarrow> string option
      \<Rightarrow> identity_manager \<Rightarrow> identity_manager \<times> bool \<times> verify_reason list" where
  "verify trusted required verifier now c expectedSubject m =
     (let an = (im_analytics m)\<lparr>ia_verifications := ia_verifications (im_analytics m) + 1\<rparr>;
          reasons = verify_reasons trusted required verifier now c expectedSubject;
          valid = (reasons = []);
          an' = (if valid then an\<lparr>ia_successes := ia_successes an + 1\<rparr> else an\<lparr>ia_failures := ia_failures an + 1\<rparr>)
      in (m\<lparr>im_analytics := an'\<rparr>, valid, reasons))"

definition set_consent :: "bool \<Rightarrow> int \<Rightarrow> string \<Rightarrow> consent_purpose \<Rightarrow> identity_manager \<Rightarrow> identity_manager" where
  "set_consent granted now subject purpose m =
     m\<lparr>im_consents := AList.update (subject, purpose)
        \<lparr>cr_subject = subject, cr_purpose = purpose, cr_granted = granted, cr_updatedAt = now\<rparr> (im_consents m)\<rparr>"

definition grantConsent :: "int \<Rightarrow> string \<Rightarrow> consent_purpose \<Rightarrow> identity_manager \<Rightarrow> identity_manager" where
  "grantConsent now subject purpose m =
     (set_consent True now subject purpose m)\<lparr>im_analytics :=
        (im_analytics m)\<lparr>ia_consentsGranted := ia_consentsGranted (im_analytics m) + 1\<rparr>\<rparr>"

definition revokeConsent :: "int \<Rightarrow> string \<Rightarrow> consent_purpose \<Rightarrow> identity_manager \<Rightarrow> identity_manager" where
  "revokeConsent now subject purpose m =
     (set_consent False now subject purpose m)\<lparr>im_analytics :=
        (im_analytics m)\<lparr>ia_consentsRevoked := ia_consentsRevoked (im_analytics m) + 1\<rparr>\<rparr>"

definition hasConsent :: "string \<Rightarrow> consent_purpose \<Rightarrow> identity_manager \<Rightarrow> bool" where
  "hasConsent subject purpose m =
     (case map_of (im_consents m) (subject, purpose) of None \<Rightarrow> False | Some r \<Rightarrow> cr_granted r)"

lemma hasConsent_grant: "hasConsent s p (grantConsent now s' p' m) \<longleftrightarrow> hasConsent s p m \<or> s = s' \<and> p = p'"
  by (auto simp: hasConsent_def grantConsent_def set_consent_def split: option.splits)

lemma hasConsent_revoke: "hasConsent s p (revokeConsent now s' p' m) \<longleftrightarrow> hasConsent s p m \<and> \<not> (s = s' \<and> p = p')"
  by (auto simp: hasConsent_def revokeConsent_def set_consent_def split: option.splits)

lemma verify_valid_iff:
  "fst (snd (verify trusted required verifier now c es m)) \<longleftrightarrow>
    vc_id c \<noteq> [] \<and> vc_issuer c \<noteq> [] \<and> vc_subject c \<noteq> [] \<and> (trusted = [] \<or> vc_issuer c \<in> set trusted) \<and>
    (es = None \<or> es = Some [] \<or> es = Some (vc_subject c)) \<and>
    (\<forall>t. vc_expirationDate c = Some t \<longrightarrow> now < t) \<and> set required \<subseteq> set (vc_type c) \<and>
    (\<forall>f. verifier = Some f \<longrightarrow> f c)"
  by (auto simp: verify_def verify_reasons_def Let_def filter_empty_conv split: option.splits if_splits)

section \<open>Custody withdrawals: \<open>WithdrawalApprovalWorkflow\<close>\<close>

datatype wd_status = WdPending | WdApproved | WdRejected | WdExecuted

record wd_request =
  wr_id :: string
  wr_resourceId :: string
  wr_requester :: string
  wr_amount :: string
  wr_status :: wd_status
  wr_approvals :: "string list"
  wr_rejections :: "string list"
  wr_createdAt :: int
  wr_updatedAt :: int

datatype wd_event = WdEvent wd_status string string int \<comment> \<open>what happened, to which request, who, when\<close>

record wd_workflow =
  ww_required :: int
  ww_requests :: "(string \<times> wd_request) list"
  ww_log :: "wd_event list"

datatype wd_error =
    RequiredTooSmall int
  | AlreadyExists string
  | NotFound string
  | CannotApprove wd_status
  | OwnRequest
  | AlreadyApproved string
  | LacksAccess string
  | CannotReject wd_status
  | AlreadyRejected string
  | CannotExecute wd_status

definition workflow_new :: "int option \<Rightarrow> wd_error + wd_workflow" where
  "workflow_new requiredApprovals =
     (let req = (case requiredApprovals of None \<Rightarrow> 1 | Some n \<Rightarrow> n)
      in if req < 1 then Inl (RequiredTooSmall req)
         else Inr \<lparr>ww_required = req, ww_requests = [], ww_log = []\<rparr>)"

definition wd_put :: "wd_request \<Rightarrow> wd_event \<Rightarrow> wd_workflow \<Rightarrow> wd_workflow" where
  "wd_put r e w = w\<lparr>ww_requests := AList.update (wr_id r) r (ww_requests w), ww_log := ww_log w @ [e]\<rparr>"

definition wd_submit :: "int \<Rightarrow> string \<Rightarrow> string \<Rightarrow> string \<Rightarrow> string \<Rightarrow> wd_workflow \<Rightarrow> wd_error + wd_workflow" where
  "wd_submit now rid resource requester amount w =
     (if map_of (ww_requests w) rid \<noteq> None then Inl (AlreadyExists rid)
      else Inr (wd_put \<lparr>wr_id = rid, wr_resourceId = resource, wr_requester = requester, wr_amount = amount,
                  wr_status = WdPending, wr_approvals = [], wr_rejections = [], wr_createdAt = now, wr_updatedAt = now\<rparr>
               (WdEvent WdPending rid requester now) w))"

definition getRequest :: "string \<Rightarrow> wd_workflow \<Rightarrow> wd_error + wd_request" where
  "getRequest rid w = (case map_of (ww_requests w) rid of None \<Rightarrow> Inl (NotFound rid) | Some r \<Rightarrow> Inr r)"

text \<open>\<open>approve\<close> up to the \<open>await\<close> of the access check, and from there.\<close>

definition approve_guard :: "string \<Rightarrow> string \<Rightarrow> wd_workflow \<Rightarrow> wd_error + wd_request" where
  "approve_guard rid approver w =
     rbind (getRequest rid w) (\<lambda>r.
       if wr_status r \<noteq> WdPending then Inl (CannotApprove (wr_status r))
       else if approver = wr_requester r then Inl OwnRequest
       else if approver \<in> set (wr_approvals r) then Inl (AlreadyApproved approver)
       else Inr r)"

text \<open>
  The access check of a request: no check without an ACL, otherwise the answer of the ACL for the
  request's resource. The code awaits the answer, so with an ACL everything below runs in a later turn.
\<close>

definition has_access :: "(string \<Rightarrow> string \<Rightarrow> bool) option \<Rightarrow> wd_request \<Rightarrow> string \<Rightarrow> bool" where
  "has_access answer r who = (case answer of None \<Rightarrow> True | Some f \<Rightarrow> f (wr_resourceId r) who)"

definition approve_finish ::
    "(string \<Rightarrow> string \<Rightarrow> bool) option \<Rightarrow> int \<Rightarrow> string \<Rightarrow> string \<Rightarrow> wd_workflow \<Rightarrow> wd_error + wd_workflow" where
  "approve_finish answer now rid approver w =
     rbind (getRequest rid w) (\<lambda>r.
       if \<not> has_access answer r approver then Inl (LacksAccess approver)
       else
         let r1 = r\<lparr>wr_approvals := wr_approvals r @ [approver], wr_updatedAt := now\<rparr>;
             r2 = (if int (length (wr_approvals r1)) \<ge> ww_required w then r1\<lparr>wr_status := WdApproved\<rparr> else r1)
         in Inr (wd_put r2 (WdEvent WdApproved rid approver now) w))"

definition reject_guard :: "string \<Rightarrow> string \<Rightarrow> wd_workflow \<Rightarrow> wd_error + wd_request" where
  "reject_guard rid rejector w =
     rbind (getRequest rid w) (\<lambda>r.
       if wr_status r \<noteq> WdPending then Inl (CannotReject (wr_status r))
       else if rejector \<in> set (wr_rejections r) then Inl (AlreadyRejected rejector)
       else Inr r)"

definition reject_finish ::
    "(string \<Rightarrow> string \<Rightarrow> bool) option \<Rightarrow> int \<Rightarrow> string \<Rightarrow> string \<Rightarrow> wd_workflow \<Rightarrow> wd_error + wd_workflow" where
  "reject_finish answer now rid rejector w =
     rbind (getRequest rid w) (\<lambda>r.
       if \<not> has_access answer r rejector then Inl (LacksAccess rejector)
       else
         Inr (wd_put (r\<lparr>wr_rejections := wr_rejections r @ [rejector], wr_status := WdRejected, wr_updatedAt := now\<rparr>)
                (WdEvent WdRejected rid rejector now) w))"

definition wd_execute :: "int \<Rightarrow> string \<Rightarrow> string \<Rightarrow> wd_workflow \<Rightarrow> wd_error + wd_workflow" where
  "wd_execute now rid executor w =
     rbind (getRequest rid w) (\<lambda>r.
       if wr_status r \<noteq> WdApproved then Inl (CannotExecute (wr_status r))
       else Inr (wd_put (r\<lparr>wr_status := WdExecuted, wr_updatedAt := now\<rparr>) (WdEvent WdExecuted rid executor now) w))"

definition wd_get :: "string \<Rightarrow> wd_workflow \<Rightarrow> wd_request option" where
  "wd_get rid w = map_of (ww_requests w) rid"

subsection \<open>Turns of overlapping calls\<close>

text \<open>
  The configuration holds the workflow and the calls that wait for an access check. A turn is a call
  that starts, or the ACL's answer to a waiting call: the answer is whatever the ACL says at that
  moment, so grants and revocations between turns are covered. A check that throws has the effect of
  a refusal. Without an ACL nothing is awaited and \<open>approve\<close> and \<open>reject\<close> run in one turn.
\<close>

datatype wd_waiting = ApproveWaits string string | RejectWaits string string

datatype wd_turn =
    TSubmit string string string string
  | TApprove string string
  | TApproveAnswer string string "string \<Rightarrow> string \<Rightarrow> bool"
  | TReject string string
  | TRejectAnswer string string "string \<Rightarrow> string \<Rightarrow> bool"
  | TExecute string string

definition kept :: "wd_workflow \<Rightarrow> wd_error + wd_workflow \<Rightarrow> wd_workflow" where
  "kept w r = (case r of Inl _ \<Rightarrow> w | Inr w' \<Rightarrow> w')"

fun wd_step :: "bool \<Rightarrow> wd_workflow \<times> wd_waiting list \<Rightarrow> int \<times> wd_turn \<Rightarrow> wd_workflow \<times> wd_waiting list" where
  "wd_step acl (w, ps) (now, TSubmit i res who amt) = (kept w (wd_submit now i res who amt w), ps)"
| "wd_step acl (w, ps) (now, TApprove i who) =
     (case approve_guard i who w of
        Inl _ \<Rightarrow> (w, ps)
      | Inr r \<Rightarrow> if acl then (w, ApproveWaits i who # ps) else (kept w (approve_finish None now i who w), ps))"
| "wd_step acl (w, ps) (now, TApproveAnswer i who f) =
     (if ApproveWaits i who \<in> set ps
      then (kept w (approve_finish (Some f) now i who w), remove1 (ApproveWaits i who) ps) else (w, ps))"
| "wd_step acl (w, ps) (now, TReject i who) =
     (case reject_guard i who w of
        Inl _ \<Rightarrow> (w, ps)
      | Inr r \<Rightarrow> if acl then (w, RejectWaits i who # ps) else (kept w (reject_finish None now i who w), ps))"
| "wd_step acl (w, ps) (now, TRejectAnswer i who f) =
     (if RejectWaits i who \<in> set ps
      then (kept w (reject_finish (Some f) now i who w), remove1 (RejectWaits i who) ps) else (w, ps))"
| "wd_step acl (w, ps) (now, TExecute i who) = (kept w (wd_execute now i who w), ps)"

text \<open>No address starts an approval of a withdrawal while another approval of its own for it waits.\<close>

fun approvals_apart :: "bool \<Rightarrow> wd_workflow \<times> wd_waiting list \<Rightarrow> (int \<times> wd_turn) list \<Rightarrow> bool" where
  "approvals_apart acl c [] = True"
| "approvals_apart acl c (t # ts) \<longleftrightarrow>
     (case snd t of TApprove i who \<Rightarrow> ApproveWaits i who \<notin> set (snd c) | _ \<Rightarrow> True) \<and>
     approvals_apart acl (wd_step acl c t) ts"

section \<open>Lemmas on the workflow\<close>

definition all_req :: "(wd_request \<Rightarrow> bool) \<Rightarrow> wd_workflow \<Rightarrow> bool" where
  "all_req P w \<longleftrightarrow> (\<forall>i r. map_of (ww_requests w) i = Some r \<longrightarrow> wr_id r = i \<and> P r)"

lemma all_req_put: "all_req P w \<Longrightarrow> P r \<Longrightarrow> all_req P (wd_put r e w)"
  by (simp add: all_req_def wd_put_def)

lemma all_req_get: "getRequest i w = Inr r \<Longrightarrow> all_req P w \<Longrightarrow> wr_id r = i \<and> P r"
  by (auto simp: getRequest_def all_req_def split: option.splits)

lemma all_req_mono: "all_req P w \<Longrightarrow> (\<And>r. P r \<Longrightarrow> Q r) \<Longrightarrow> all_req Q w"
  by (auto simp: all_req_def)

lemma required_put [simp]: "ww_required (wd_put r e w) = ww_required w"
  by (simp add: wd_put_def)

lemma getRequest_put [simp]: "getRequest i (wd_put r e w) = (if i = wr_id r then Inr r else getRequest i w)"
  by (simp add: getRequest_def wd_put_def)

lemma kept_simps [simp]: "kept w (Inl e) = w" "kept w (Inr w') = w'"
  by (simp_all add: kept_def)

text \<open>
  A call that has an effect replaces one request by another (or adds one): the five ways, as facts
  about the request before and after.
\<close>

definition put_over :: "wd_request \<Rightarrow> wd_request \<Rightarrow> wd_workflow \<Rightarrow> wd_workflow \<Rightarrow> bool" where
  "put_over r r' w w' \<longleftrightarrow> getRequest (wr_id r) w = Inr r \<and> (\<exists>e. w' = wd_put r' e w) \<and>
     wr_id r' = wr_id r \<and> wr_requester r' = wr_requester r \<and> wr_resourceId r' = wr_resourceId r"

lemma put_overI:
  "getRequest i w = Inr r \<Longrightarrow> wr_id r = i \<Longrightarrow> wr_id r' = i \<Longrightarrow> wr_requester r' = wr_requester r \<Longrightarrow>
   wr_resourceId r' = wr_resourceId r \<Longrightarrow> put_over r r' w (wd_put r' e w)"
  by (auto simp: put_over_def)

lemma approve_finish_put:
  assumes "all_req P w"
  shows "kept w (approve_finish answer now i who w) = w \<or>
    (\<exists>r r'. put_over r r' w (kept w (approve_finish answer now i who w)) \<and> wr_id r = i \<and> P r \<and>
       has_access answer r who \<and> wr_approvals r' = wr_approvals r @ [who] \<and>
       wr_status r' = (if ww_required w \<le> int (length (wr_approvals r')) then WdApproved else wr_status r))"
proof (cases "\<exists>r. getRequest i w = Inr r \<and> has_access answer r who")
  case True
  then obtain r where r: "getRequest i w = Inr r" "has_access answer r who" by blast
  let ?r1 = "r\<lparr>wr_approvals := wr_approvals r @ [who], wr_updatedAt := now\<rparr>"
  let ?r2 = "if ww_required w \<le> int (length (wr_approvals ?r1)) then ?r1\<lparr>wr_status := WdApproved\<rparr> else ?r1"
  have p: "wr_id r = i \<and> P r" using all_req_get [OF r(1) assms] .
  have "put_over r ?r2 w (kept w (approve_finish answer now i who w))"
    using r p by (auto simp: approve_finish_def Let_def intro!: put_overI [OF r(1)])
  with r p show ?thesis by (intro disjI2 exI [of _ r] exI [of _ ?r2]) auto
qed (auto simp: approve_finish_def split: sum.splits; cases "getRequest i w"; auto)

lemma reject_finish_put:
  assumes "all_req P w"
  shows "kept w (reject_finish answer now i who w) = w \<or>
    (\<exists>r r'. put_over r r' w (kept w (reject_finish answer now i who w)) \<and> wr_id r = i \<and> P r \<and>
       has_access answer r who \<and> wr_approvals r' = wr_approvals r \<and> wr_status r' = WdRejected)"
proof (cases "\<exists>r. getRequest i w = Inr r \<and> has_access answer r who")
  case True
  then obtain r where r: "getRequest i w = Inr r" "has_access answer r who" by blast
  let ?r = "r\<lparr>wr_rejections := wr_rejections r @ [who], wr_status := WdRejected, wr_updatedAt := now\<rparr>"
  have p: "wr_id r = i \<and> P r" using all_req_get [OF r(1) assms] .
  have "put_over r ?r w (kept w (reject_finish answer now i who w))"
    using r p by (auto simp: reject_finish_def intro!: put_overI [OF r(1)])
  with r p show ?thesis by (intro disjI2 exI [of _ r] exI [of _ ?r]) auto
qed (auto simp: reject_finish_def split: sum.splits; cases "getRequest i w"; auto)

lemma execute_put:
  assumes "all_req P w"
  shows "kept w (wd_execute now i who w) = w \<or>
    (\<exists>r r'. put_over r r' w (kept w (wd_execute now i who w)) \<and> wr_id r = i \<and> P r \<and>
       wr_status r = WdApproved \<and> wr_approvals r' = wr_approvals r \<and> wr_status r' = WdExecuted)"
proof (cases "\<exists>r. getRequest i w = Inr r \<and> wr_status r = WdApproved")
  case True
  then obtain r where r: "getRequest i w = Inr r" "wr_status r = WdApproved" by blast
  let ?r = "r\<lparr>wr_status := WdExecuted, wr_updatedAt := now\<rparr>"
  have p: "wr_id r = i \<and> P r" using all_req_get [OF r(1) assms] .
  have "put_over r ?r w (kept w (wd_execute now i who w))"
    using r p by (auto simp: wd_execute_def intro!: put_overI [OF r(1)])
  with r p show ?thesis by (intro disjI2 exI [of _ r] exI [of _ ?r]) auto
qed (auto simp: wd_execute_def split: sum.splits; cases "getRequest i w"; auto)

lemma submit_put:
  shows "kept w (wd_submit now i res who amt w) = w \<or>
    (\<exists>r e. kept w (wd_submit now i res who amt w) = wd_put r e w \<and> wr_id r = i \<and> wr_approvals r = [] \<and>
       wr_status r = WdPending \<and> getRequest i w = Inl (NotFound i))"
  by (auto simp: wd_submit_def getRequest_def)

text \<open>What holds of every request: enough approvals, none the requester's, each answered by the ACL.\<close>

definition answered :: "(int \<times> wd_turn) list \<Rightarrow> wd_request \<Rightarrow> string \<Rightarrow> bool" where
  "answered turns r a \<longleftrightarrow> (\<exists>now f. (now, TApproveAnswer (wr_id r) a f) \<in> set turns \<and> f (wr_resourceId r) a)"

definition request_ok :: "bool \<Rightarrow> int \<Rightarrow> (int \<times> wd_turn) list \<Rightarrow> wd_request \<Rightarrow> bool" where
  "request_ok acl req turns r \<longleftrightarrow>
     (wr_status r \<in> {WdApproved, WdExecuted} \<longrightarrow> req \<le> int (length (wr_approvals r))) \<and>
     (\<forall>a \<in> set (wr_approvals r). a \<noteq> wr_requester r \<and> (acl \<longrightarrow> answered turns r a))"

definition turns_inv :: "bool \<Rightarrow> int \<Rightarrow> (int \<times> wd_turn) list \<Rightarrow> wd_workflow \<times> wd_waiting list \<Rightarrow> bool" where
  "turns_inv acl req turns c \<longleftrightarrow> ww_required (fst c) = req \<and> all_req (request_ok acl req turns) (fst c) \<and>
     (\<forall>i a. ApproveWaits i a \<in> set (snd c) \<longrightarrow> (\<exists>r. getRequest i (fst c) = Inr r \<and> a \<noteq> wr_requester r))"

lemma answered_snoc: "answered turns r a \<Longrightarrow> answered (turns @ [t]) r a"
  by (auto simp: answered_def)

lemma request_ok_snoc: "request_ok acl req turns r \<Longrightarrow> request_ok acl req (turns @ [t]) r"
  by (auto simp: request_ok_def intro: answered_snoc)

lemma turns_inv_snoc: "turns_inv acl req turns c \<Longrightarrow> turns_inv acl req (turns @ [t]) c"
  by (auto simp: turns_inv_def intro: all_req_mono request_ok_snoc)

lemma turns_inv_put:
  assumes "turns_inv acl req turns (w, ps)" "put_over r r' w w'" "request_ok acl req turns r'" "set ps' \<subseteq> set ps"
  shows "turns_inv acl req turns (w', ps')"
  using assms by (auto simp: turns_inv_def put_over_def intro!: all_req_put) (metis Inr_inject subset_iff)+

lemma turns_inv_fewer: "turns_inv acl req turns (w, ps) \<Longrightarrow> set ps' \<subseteq> set ps \<Longrightarrow> turns_inv acl req turns (w, ps')"
  by (auto simp: turns_inv_def)

lemma turns_inv_approve:
  assumes "turns_inv acl req turns (w, ps)" "set ps' \<subseteq> set ps"
    and "\<And>r. getRequest i w = Inr r \<Longrightarrow> who \<noteq> wr_requester r"
    and "\<And>r. wr_id r = i \<Longrightarrow> has_access answer r who \<Longrightarrow> acl \<longrightarrow> answered turns r who"
  shows "turns_inv acl req turns (kept w (approve_finish answer now i who w), ps')"
proof -
  have "all_req (request_ok acl req turns) w" "ww_required w = req" using assms(1) by (simp_all add: turns_inv_def)
  from approve_finish_put [OF this(1), of answer now i who] show ?thesis
  proof (elim disjE exE conjE)
    assume "kept w (approve_finish answer now i who w) = w"
    then show ?thesis using turns_inv_fewer [OF assms(1,2)] by simp
  next
    fix r r' let ?w' = "kept w (approve_finish answer now i who w)"
    assume p: "put_over r r' w ?w'" and r: "wr_id r = i" "request_ok acl req turns r" "has_access answer r who"
      and r': "wr_approvals r' = wr_approvals r @ [who]"
        "wr_status r' = (if ww_required w \<le> int (length (wr_approvals r')) then WdApproved else wr_status r)"
    have "getRequest i w = Inr r" using p r(1) by (simp add: put_over_def)
    then have "who \<noteq> wr_requester r" "acl \<longrightarrow> answered turns r who" using assms(3,4) r by auto
    then have "request_ok acl req turns r'"
      using r(2) r' p \<open>ww_required w = req\<close> by (auto simp: request_ok_def put_over_def answered_def)
    with turns_inv_put [OF assms(1) p _ assms(2)] show ?thesis by blast
  qed
qed

lemma turns_inv_reject:
  assumes "turns_inv acl req turns (w, ps)" "set ps' \<subseteq> set ps"
  shows "turns_inv acl req turns (kept w (reject_finish answer now i who w), ps')"
proof -
  have "all_req (request_ok acl req turns) w" using assms(1) by (simp add: turns_inv_def)
  from reject_finish_put [OF this, of answer now i who] show ?thesis
    using turns_inv_fewer [OF assms] turns_inv_put [OF assms(1) _ _ assms(2)]
    by (elim disjE exE conjE) (force simp: request_ok_def put_over_def answered_def)+
qed

lemma turns_inv_execute:
  assumes "turns_inv acl req turns (w, ps)"
  shows "turns_inv acl req turns (kept w (wd_execute now i who w), ps)"
proof -
  have "all_req (request_ok acl req turns) w" using assms(1) by (simp add: turns_inv_def)
  from execute_put [OF this, of now i who] show ?thesis
    using assms turns_inv_put [OF assms _ _ subset_refl]
    by (elim disjE exE conjE) (force simp: request_ok_def put_over_def answered_def)+
qed

lemma turns_inv_submit:
  assumes "turns_inv acl req turns (w, ps)"
  shows "turns_inv acl req turns (kept w (wd_submit now i res who amt w), ps)"
  using submit_put [of w now i res who amt]
proof (elim disjE exE conjE)
  fix r e assume "kept w (wd_submit now i res who amt w) = wd_put r e w" "wr_id r = i" "wr_approvals r = []"
    "wr_status r = WdPending" "getRequest i w = Inl (NotFound i)"
  with assms show ?thesis by (fastforce simp: turns_inv_def request_ok_def intro!: all_req_put)
qed (use assms in simp)

lemma approve_guardD: "approve_guard i who w = Inr r \<Longrightarrow>
    getRequest i w = Inr r \<and> who \<noteq> wr_requester r \<and> who \<notin> set (wr_approvals r) \<and> wr_status r = WdPending"
  by (auto simp: approve_guard_def rbind_Inr_iff split: if_splits)

lemma turns_inv_step: "turns_inv acl req turns c \<Longrightarrow> turns_inv acl req (turns @ [t]) (wd_step acl c t)"
proof (cases "(acl, c, t)" rule: wd_step.cases)
  case (2 acl' w ps now i who)
  assume "turns_inv acl req turns c"
  with 2 have h: "turns_inv acl req (turns @ [t]) (w, ps)" using turns_inv_snoc by simp
  show ?thesis
  proof (cases "approve_guard i who w")
    case (Inr r)
    note g = approve_guardD [OF Inr]
    show ?thesis
    proof (cases acl)
      case True
      with h g Inr 2 show ?thesis by (auto simp: turns_inv_def)
    next
      case False
      with turns_inv_approve [OF h subset_refl, of i who None now] g Inr 2 show ?thesis by auto
    qed
  qed (use h 2 in simp)
next
  case (3 acl' w ps now i who f)
  assume "turns_inv acl req turns c"
  with 3 have h: "turns_inv acl req (turns @ [t]) (w, ps)" using turns_inv_snoc by simp
  show ?thesis
  proof (cases "ApproveWaits i who \<in> set ps")
    case True
    have "\<And>r. getRequest i w = Inr r \<Longrightarrow> who \<noteq> wr_requester r" using h True by (fastforce simp: turns_inv_def)
    moreover have "\<And>r. wr_id r = i \<Longrightarrow> has_access (Some f) r who \<Longrightarrow> answered (turns @ [t]) r who"
      using 3 by (auto simp: answered_def has_access_def)
    ultimately have "turns_inv acl req (turns @ [t])
        (kept w (approve_finish (Some f) now i who w), remove1 (ApproveWaits i who) ps)"
      by (intro turns_inv_approve [OF h set_remove1_subset]) simp_all
    with True 3 show ?thesis by simp
  qed (use h 3 in simp)
next
  case (4 acl' w ps now i who)
  assume "turns_inv acl req turns c"
  with 4 have h: "turns_inv acl req (turns @ [t]) (w, ps)" using turns_inv_snoc by simp
  then have "turns_inv acl req (turns @ [t]) (w, RejectWaits i who # ps)" by (auto simp: turns_inv_def)
  with h 4 show ?thesis by (auto intro: turns_inv_reject split: sum.splits)
next
  case (5 acl' w ps now i who f)
  assume "turns_inv acl req turns c"
  with 5 have "turns_inv acl req (turns @ [t]) (w, ps)" using turns_inv_snoc by simp
  with 5 show ?thesis by (auto intro!: turns_inv_reject [OF _ set_remove1_subset])
qed (auto dest: turns_inv_snoc [of _ _ _ _ t] intro: turns_inv_submit turns_inv_execute)

lemma turns_run_inv: "turns_inv acl req [] c \<Longrightarrow> turns_inv acl req turns (foldl (wd_step acl) c turns)"
  by (induction turns rule: rev_induct) (simp_all add: turns_inv_step)

text \<open>While approvals of one address do not overlap, no address is counted twice.\<close>

definition apart_inv :: "wd_workflow \<times> wd_waiting list \<Rightarrow> bool" where
  "apart_inv c \<longleftrightarrow> all_req (\<lambda>r. distinct (wr_approvals r)) (fst c) \<and>
     (\<forall>i a. count (mset (snd c)) (ApproveWaits i a) \<le> 1) \<and>
     (\<forall>i a. ApproveWaits i a \<in> set (snd c) \<longrightarrow> (\<exists>r. getRequest i (fst c) = Inr r \<and> a \<notin> set (wr_approvals r)))"

lemma apart_inv_other:
  assumes "apart_inv (w, ps)" "put_over r r' w w'" "wr_approvals r' = wr_approvals r" shows "apart_inv (w', ps)"
proof -
  have "distinct (wr_approvals r)"
    using assms(1,2) all_req_get [of "wr_id r" w r] by (auto simp: apart_inv_def put_over_def)
  with assms show ?thesis
    by (auto simp: apart_inv_def put_over_def intro!: all_req_put) (metis Inr_inject)+
qed

lemma apart_inv_less: "apart_inv (w, ps) \<Longrightarrow> apart_inv (w, remove1 p ps)"
  by (auto simp: apart_inv_def intro: le_trans dest: notin_set_remove1 set_remove1_subset [THEN subsetD])

lemma apart_inv_approve:
  assumes "apart_inv (w, ps)" "ApproveWaits i who \<notin> set ps"
    and "\<And>r. getRequest i w = Inr r \<Longrightarrow> who \<notin> set (wr_approvals r)"
  shows "apart_inv (kept w (approve_finish answer now i who w), ps)"
proof -
  have all: "all_req (\<lambda>r. distinct (wr_approvals r)) w" using assms(1) by (simp add: apart_inv_def)
  from approve_finish_put [OF all, of answer now i who] show ?thesis
  proof (elim disjE exE conjE)
    fix r r' let ?w' = "kept w (approve_finish answer now i who w)"
    assume p: "put_over r r' w ?w'" and r: "wr_id r = i" "distinct (wr_approvals r)"
      and r': "wr_approvals r' = wr_approvals r @ [who]"
    have get: "getRequest i w = Inr r" using p r(1) by (simp add: put_over_def)
    with r r' assms(3) have "distinct (wr_approvals r')" by simp
    then show ?thesis using p r r' get assms(1,2) all
      by (auto simp: apart_inv_def put_over_def intro!: all_req_put) (metis Inr_inject)+
  qed (use assms(1) in simp)
qed

lemma apart_inv_step:
  assumes "apart_inv c" and "case snd t of TApprove i who \<Rightarrow> ApproveWaits i who \<notin> set (snd c) | _ \<Rightarrow> True"
  shows "apart_inv (wd_step acl c t)"
proof -
  have all: "all_req (\<lambda>r. distinct (wr_approvals r)) (fst c)" using assms(1) by (simp add: apart_inv_def)
  have rej: "apart_inv (kept (fst c) (reject_finish answer now i who (fst c)), ps)" if "apart_inv (fst c, ps)" for answer now i who ps
    using reject_finish_put [OF all, of answer now i who] that apart_inv_other [OF that] by (elim disjE exE conjE) simp_all
  have wait: "apart_inv (w, RejectWaits i who # ps)" if "apart_inv (w, ps)" for w i who ps
    using that by (auto simp: apart_inv_def)
  show ?thesis
  proof (cases "(acl, c, t)" rule: wd_step.cases)
    case (1 acl' w ps now i res who amt)
    with submit_put [of w now i res who amt] assms(1) show ?thesis
      by (elim disjE exE conjE) (fastforce simp: apart_inv_def intro!: all_req_put)+
  next
    case (2 acl' w ps now i who)
    then have w: "ApproveWaits i who \<notin> set ps" "apart_inv (w, ps)" using assms by simp_all
    show ?thesis
    proof (cases "approve_guard i who w")
      case (Inr r)
      note g = approve_guardD [OF Inr]
      show ?thesis
      proof (cases acl)
        case True
        with w g Inr 2 show ?thesis by (auto simp: apart_inv_def count_eq_zero_iff [symmetric])
      next
        case False
        with apart_inv_approve [OF w(2,1), of None now] g Inr 2 show ?thesis by auto
      qed
    qed (use w 2 in simp)
  next
    case (3 acl' w ps now i who f)
    then have w: "apart_inv (w, ps)" using assms by simp
    show ?thesis
    proof (cases "ApproveWaits i who \<in> set ps")
      case True
      let ?ps = "remove1 (ApproveWaits i who) ps"
      have "count (mset ps) (ApproveWaits i who) \<le> 1" using w by (simp add: apart_inv_def)
      then have "ApproveWaits i who \<notin># mset ?ps" by (simp add: not_in_iff)
      then have "ApproveWaits i who \<notin> set ?ps" unfolding set_mset_mset .
      moreover have "\<And>r. getRequest i w = Inr r \<Longrightarrow> who \<notin> set (wr_approvals r)" using w True by (fastforce simp: apart_inv_def)
      ultimately show ?thesis using apart_inv_approve [OF apart_inv_less [OF w]] 3 True by simp
    qed (use w 3 in simp)
  next
    case (6 acl' w ps now i who)
    then have w: "apart_inv (w, ps)" and all': "all_req (\<lambda>r. distinct (wr_approvals r)) w" using assms(1) all by simp_all
    from execute_put [OF all', of now i who] have "apart_inv (kept w (wd_execute now i who w), ps)"
      using w apart_inv_other [OF w] by (elim disjE exE conjE) simp_all
    with 6 show ?thesis by simp
  qed (use assms(1) rej wait apart_inv_less in \<open>auto split: sum.splits\<close>)
qed

lemma apart_run_inv: "apart_inv c \<Longrightarrow> approvals_apart acl c turns \<Longrightarrow> apart_inv (foldl (wd_step acl) c turns)"
  by (induction turns arbitrary: c) (simp_all add: apart_inv_step)

lemma workflow_new_inv:
  assumes "workflow_new q = Inr w"
  shows "turns_inv acl (ww_required w) [] (w, [])" "apart_inv (w, [])"
  using assms by (auto simp: workflow_new_def turns_inv_def apart_inv_def all_req_def Let_def split: if_splits)

text \<open>A rejected or executed request for which no call waits stays as it is.\<close>

definition ids_ok :: "wd_workflow \<times> wd_waiting list \<Rightarrow> bool" where
  "ids_ok c \<longleftrightarrow> all_req (\<lambda>r. True) (fst c)"

fun waits_for :: "wd_waiting \<Rightarrow> string" where
  "waits_for (ApproveWaits i a) = i"
| "waits_for (RejectWaits i a) = i"

definition settled :: "string \<Rightarrow> wd_request \<Rightarrow> wd_workflow \<times> wd_waiting list \<Rightarrow> bool" where
  "settled i r c \<longleftrightarrow> getRequest i (fst c) = Inr r \<and> wr_status r \<in> {WdRejected, WdExecuted} \<and> i \<notin> waits_for ` set (snd c)"

lemma settled_put: "settled i r (w, ps) \<Longrightarrow> put_over r1 r' w w' \<Longrightarrow> wr_id r1 \<noteq> i \<Longrightarrow> settled i r (w', ps)"
  by (auto simp: settled_def put_over_def)

lemma ids_ok_put: "ids_ok (w, ps) \<Longrightarrow> put_over r1 r' w w' \<Longrightarrow> ids_ok (w', ps')"
  by (auto simp: ids_ok_def put_over_def intro: all_req_put)

lemma waits_other:
  "i \<notin> waits_for ` set ps \<Longrightarrow> ApproveWaits j who \<in> set ps \<or> RejectWaits j who \<in> set ps \<Longrightarrow> j \<noteq> i"
  by force

lemma approve_finish_settled:
  assumes "ids_ok (w, ps)"
  shows "ids_ok (kept w (approve_finish answer now j who w), ps)"
    and "settled i r (w, ps) \<Longrightarrow> j \<noteq> i \<Longrightarrow> settled i r (kept w (approve_finish answer now j who w), ps)"
  using approve_finish_put [of "\<lambda>r. True" w answer now j who] assms ids_ok_put [OF assms] settled_put [of i r w ps]
  by (auto simp: ids_ok_def)

lemma reject_finish_settled:
  assumes "ids_ok (w, ps)"
  shows "ids_ok (kept w (reject_finish answer now j who w), ps)"
    and "settled i r (w, ps) \<Longrightarrow> j \<noteq> i \<Longrightarrow> settled i r (kept w (reject_finish answer now j who w), ps)"
  using reject_finish_put [of "\<lambda>r. True" w answer now j who] assms ids_ok_put [OF assms] settled_put [of i r w ps]
  by (auto simp: ids_ok_def)

lemma execute_settled:
  assumes "ids_ok (w, ps)"
  shows "ids_ok (kept w (wd_execute now j who w), ps)"
    and "settled i r (w, ps) \<Longrightarrow> settled i r (kept w (wd_execute now j who w), ps)"
proof -
  note put = execute_put [of "\<lambda>r. True" w now j who]
  show "ids_ok (kept w (wd_execute now j who w), ps)" using put assms ids_ok_put [OF assms] by (auto simp: ids_ok_def)
  show "settled i r (kept w (wd_execute now j who w), ps)" if s: "settled i r (w, ps)"
  proof (cases "kept w (wd_execute now j who w) = w")
    case False
    with put assms obtain r1 r' where p: "put_over r1 r' w (kept w (wd_execute now j who w))" "wr_status r1 = WdApproved"
      by (auto simp: ids_ok_def)
    then have "wr_id r1 \<noteq> i" using s by (auto simp: settled_def put_over_def)
    with settled_put [OF s p(1)] show ?thesis .
  qed (use s in simp)
qed

lemma submit_settled:
  assumes "ids_ok (w, ps)"
  shows "ids_ok (kept w (wd_submit now j res who amt w), ps)"
    and "settled i r (w, ps) \<Longrightarrow> settled i r (kept w (wd_submit now j res who amt w), ps)"
  using submit_put [of w now j res who amt] assms
  by (auto simp: ids_ok_def settled_def intro: all_req_put)

lemma settled_fewer: "settled i r (w, ps) \<Longrightarrow> settled i r (w, remove1 p ps)"
  using set_remove1_subset [of p ps] by (auto simp: settled_def)

lemma settled_guard:
  assumes "settled i r (w, ps)"
  shows "approve_guard j who w = Inr r1 \<Longrightarrow> j \<noteq> i" and "reject_guard j who w = Inr r1 \<Longrightarrow> j \<noteq> i"
  using assms by (auto simp: settled_def approve_guard_def reject_guard_def split: if_splits)

lemma settled_wait:
  "settled i r (w, ps) \<Longrightarrow> waits_for p \<noteq> i \<Longrightarrow> settled i r (w, p # ps)"
  by (auto simp: settled_def)

lemma ids_ok_any: "ids_ok (w, ps) \<Longrightarrow> ids_ok (w, ps')"
  by (simp add: ids_ok_def)

lemma wd_step_ids: "ids_ok c \<Longrightarrow> ids_ok (wd_step acl c t)"
  by (cases "(acl, c, t)" rule: wd_step.cases)
    (auto split: sum.splits intro: submit_settled(1) execute_settled(1) approve_finish_settled(1) reject_finish_settled(1)
      ids_ok_any)

lemma wd_step_settled: "ids_ok c \<Longrightarrow> settled i r c \<Longrightarrow> settled i r (wd_step acl c t)"
proof (cases "(acl, c, t)" rule: wd_step.cases)
  case (3 acl' w ps now j who f)
  assume "ids_ok c" "settled i r c"
  with 3 have s: "ids_ok (w, remove1 (ApproveWaits j who) ps)" "settled i r (w, ps)" by (simp_all add: ids_ok_def)
  have "ApproveWaits j who \<in> set ps \<Longrightarrow> j \<noteq> i" using s(2) waits_other [of i ps j who] by (auto simp: settled_def)
  with approve_finish_settled(2) [OF s(1) settled_fewer [OF s(2)], of j "Some f" now who] s 3 show ?thesis by simp
next
  case (5 acl' w ps now j who f)
  assume "ids_ok c" "settled i r c"
  with 5 have s: "ids_ok (w, remove1 (RejectWaits j who) ps)" "settled i r (w, ps)" by (simp_all add: ids_ok_def)
  have "RejectWaits j who \<in> set ps \<Longrightarrow> j \<noteq> i" using s(2) waits_other [of i ps j who] by (auto simp: settled_def)
  with reject_finish_settled(2) [OF s(1) settled_fewer [OF s(2)], of j "Some f" now who] s 5 show ?thesis by simp
qed (auto split: sum.splits intro: submit_settled(2) execute_settled(2) approve_finish_settled(2) reject_finish_settled(2)
      intro!: settled_wait dest: settled_guard)

interpretation withdrawals: latched_machine "wd_step acl" ids_ok "settled i r"
  by unfold_locales (simp_all add: wd_step_ids wd_step_settled)

section \<open>Properties\<close>

text \<open>
  C37: As long as addresses do not contain a colon and calls do not overlap, the cache of the ACL
  manager is transparent: whatever was granted, revoked and asked before, \<open>check\<close> answers whether
  the last grant or revocation of that address for that resource was a grant.
\<close>

theorem acl_check_exact:
  assumes "\<forall>c \<in> set calls. CHR '':'' \<notin> set (call_address c)" "CHR '':'' \<notin> set a"
  shows "fst (acl_check mem_check ttl now later r a
      (foldl (acl_step mem_grant mem_revoke mem_check ttl) acl_manager_new calls)) = granted_after False calls r a"
proof -
  have "mem_acl.coherent acl_manager_new" by (simp add: mem_acl.coherent_def acl_manager_new_def)
  from mem_acl.run_check [OF this assms, of ttl now later r] show ?thesis
    by (simp add: acl_manager_new_def mem_check_def)
qed

theorem acl_check_exact_witness:
  "\<not> fst (acl_check mem_check 60000 8 8 ''inv'' ''GA''
      (foldl (acl_step mem_grant mem_revoke mem_check 60000) acl_manager_new
        [AGrant ''inv'' ''GA'', ACheck 5 6 ''inv'' ''GA'', ARevoke ''inv'' ''GA'']))"
  using acl_check_exact [of "[AGrant ''inv'' ''GA'', ACheck 5 6 ''inv'' ''GA'', ARevoke ''inv'' ''GA'']" "''GA''" 60000 8 8 "''inv''"]
  by simp

text \<open>
  Overlapping calls break this: an access check that asked the store before a revocation and
  gets its answer after it caches the old answer, and the revoked address passes for the rest of
  the cache's lifetime.
\<close>

theorem acl_revocation_race:
  "let m1 = acl_grant mem_grant ''inv'' ''GA'' acl_manager_new;
       allowed = mem_check (am_store m1) ''inv'' ''GA'';
       m2 = acl_revoke mem_revoke ''inv'' ''GA'' m1;
       m3 = acl_fill 60000 10 ''inv'' ''GA'' allowed m2
   in acl_cached 5 ''inv'' ''GA'' m1 = None \<and> \<not> mem_check (am_store m3) ''inv'' ''GA'' \<and>
      fst (acl_check mem_check 60000 50000 50000 ''inv'' ''GA'' m3)"
  by (simp add: Let_def acl_grant_def acl_revoke_def invalidateCache_def acl_manager_new_def mem_grant_def
      mem_revoke_def mem_check_def set_add_def acl_fill_def acl_check_def acl_cached_def cacheKey_def)

text \<open>
  C8: Under every interleaving of calls and of answers of the access check, also of an ACL that
  changes meanwhile: a withdrawal that is approved or executed has at least the required number of
  entries in its list of approvals, none of them the requester's, and with an ACL each was let
  through by an answer of the ACL for the withdrawal's resource. When no address starts an approval
  of a withdrawal while its own earlier one still waits for the access check, the entries are
  distinct, so the required number of different addresses approved.
\<close>

theorem withdrawal_quorum:
  assumes "workflow_new q = Inr w0" and "(w, ps) = foldl (wd_step acl) (w0, []) turns" and "wd_get i w = Some r"
    and "wr_status r \<in> {WdApproved, WdExecuted}"
  shows "ww_required w0 \<le> int (length (wr_approvals r)) \<and>
    (approvals_apart acl (w0, []) turns \<longrightarrow> ww_required w0 \<le> int (card (set (wr_approvals r)))) \<and>
    wr_requester r \<notin> set (wr_approvals r) \<and>
    (acl \<longrightarrow> (\<forall>a \<in> set (wr_approvals r).
       \<exists>now f. (now, TApproveAnswer i a f) \<in> set turns \<and> f (wr_resourceId r) a))"
proof -
  have get: "getRequest i w = Inr r" using assms(3) by (simp add: getRequest_def wd_get_def)
  have "turns_inv acl (ww_required w0) turns (w, ps)"
    unfolding assms(2) by (rule turns_run_inv) (rule workflow_new_inv [OF assms(1)])
  then have ok: "wr_id r = i \<and> request_ok acl (ww_required w0) turns r"
    by (auto simp: turns_inv_def dest: all_req_get [OF get])
  have "distinct (wr_approvals r)" if "approvals_apart acl (w0, []) turns"
  proof -
    have "apart_inv (w, ps)" unfolding assms(2) by (rule apart_run_inv [OF workflow_new_inv(2) [OF assms(1)] that])
    then show ?thesis by (auto simp: apart_inv_def dest: all_req_get [OF get])
  qed
  then show ?thesis using ok assms(4) by (auto simp: request_ok_def answered_def distinct_card)
qed

definition not_GC :: "string \<Rightarrow> string \<Rightarrow> bool" where
  "not_GC res a \<longleftrightarrow> a \<noteq> ''GC''"

definition sample_turns :: "(int \<times> wd_turn) list" where
  "sample_turns = [(1, TSubmit ''w'' ''vault'' ''GR'' ''10''), (2, TApprove ''w'' ''GR''), (3, TApprove ''w'' ''GA''),
     (4, TApprove ''w'' ''GB''), (5, TApproveAnswer ''w'' ''GA'' not_GC), (6, TApprove ''w'' ''GA''),
     (7, TExecute ''w'' ''GR''), (8, TApproveAnswer ''w'' ''GB'' not_GC), (9, TExecute ''w'' ''GR'')]"

definition two_approvals :: wd_workflow where
  "two_approvals = \<lparr>ww_required = 2, ww_requests = [], ww_log = []\<rparr>"

definition sample_withdrawal :: wd_request where
  "sample_withdrawal = \<lparr>wr_id = ''w'', wr_resourceId = ''vault'', wr_requester = ''GR'', wr_amount = ''10'',
     wr_status = WdExecuted, wr_approvals = [''GA'', ''GB''], wr_rejections = [], wr_createdAt = 1, wr_updatedAt = 9\<rparr>"

lemma sample_turns_run:
  "map_prod (wd_get ''w'') id (foldl (wd_step True) (two_approvals, []) sample_turns) = (Some sample_withdrawal, [])"
  "approvals_apart True (two_approvals, []) sample_turns"
  by code_simp+

theorem withdrawal_quorum_witness:
  "\<exists>w ps. (w, ps) = foldl (wd_step True) (two_approvals, []) sample_turns \<and> wd_get ''w'' w = Some sample_withdrawal \<and>
     2 \<le> int (card (set (wr_approvals sample_withdrawal)))"
proof -
  obtain w ps where run: "(w, ps) = foldl (wd_step True) (two_approvals, []) sample_turns" by (metis surj_pair)
  with sample_turns_run(1) have get: "wd_get ''w'' w = Some sample_withdrawal" by (metis fst_conv fst_map_prod)
  have new: "workflow_new (Some 2) = Inr two_approvals" by code_simp
  have "wr_status sample_withdrawal \<in> {WdApproved, WdExecuted}" by (simp add: sample_withdrawal_def)
  from withdrawal_quorum [OF new run get this] sample_turns_run(2) run get show ?thesis by (auto simp: two_approvals_def)
qed

text \<open>
  A rejected or executed withdrawal is final once no call waits for its access check: no later turn
  changes any field of it, however calls overlap.
\<close>

theorem settled_withdrawal_final:
  assumes "workflow_new q = Inr w0" and "(w, ps) = foldl (wd_step acl) (w0, []) turns"
    and "wd_get i w = Some r" and "wr_status r \<in> {WdRejected, WdExecuted}" and "i \<notin> waits_for ` set ps"
  shows "wd_get i (fst (foldl (wd_step acl) (w0, []) (turns @ later))) = Some r"
proof -
  have "ids_ok (w0, [])" using assms(1) by (auto simp: workflow_new_def ids_ok_def all_req_def Let_def split: if_splits)
  then have "ids_ok (w, ps)" unfolding assms(2) by (rule withdrawals.run_inv)
  moreover have "settled i r (w, ps)" using assms(3-5) by (simp add: settled_def getRequest_def wd_get_def)
  ultimately have "settled i r (foldl (wd_step acl) (w, ps) later)" by (rule withdrawals.run_latched)
  then show ?thesis using assms(2) by (auto simp: settled_def getRequest_def wd_get_def split: option.splits)
qed

text \<open>
  Without these provisos the code's guards, which run before the wait, do not hold afterwards. Two
  overlapping approvals of one address reach a quorum of two.
\<close>

definition twice_approved :: "(int \<times> wd_turn) list" where
  "twice_approved = [(1, TSubmit ''w'' ''vault'' ''GR'' ''10''), (2, TApprove ''w'' ''GA''), (3, TApprove ''w'' ''GA''),
     (4, TApproveAnswer ''w'' ''GA'' not_GC), (5, TApproveAnswer ''w'' ''GA'' not_GC), (6, TExecute ''w'' ''GR'')]"

theorem single_approver_quorum:
  "ww_required two_approvals = 2 \<and>
   map_option (\<lambda>r. (wr_status r, wr_approvals r)) (wd_get ''w'' (fst (foldl (wd_step True) (two_approvals, []) twice_approved)))
     = Some (WdExecuted, [''GA'', ''GA''])"
  by code_simp

text \<open>
  An approval that waits while the withdrawal is approved and executed sets it back to approved, and it
  is executed a second time.
\<close>

definition executed_twice :: "(int \<times> wd_turn) list" where
  "executed_twice = [(1, TSubmit ''w'' ''vault'' ''GR'' ''10''), (2, TApprove ''w'' ''GA''), (3, TApprove ''w'' ''GB''),
     (4, TApprove ''w'' ''GD''), (5, TApproveAnswer ''w'' ''GA'' not_GC), (6, TApproveAnswer ''w'' ''GB'' not_GC),
     (7, TExecute ''w'' ''GR''), (8, TApproveAnswer ''w'' ''GD'' not_GC), (9, TExecute ''w'' ''GR'')]"

theorem withdrawal_executed_twice:
  "filter (\<lambda>e. case e of WdEvent k _ _ _ \<Rightarrow> k = WdExecuted)
     (ww_log (fst (foldl (wd_step True) (two_approvals, []) executed_twice))) =
     [WdEvent WdExecuted ''w'' ''GR'' 7, WdEvent WdExecuted ''w'' ''GR'' 9]"
  by code_simp

end
