(* ===== verification/Invoice_State.thy ===== *)
theory Invoice_State
  imports Prelude
begin

text \<open>
  The invoice lifecycle: \<open>src/state/InvoiceStateMachine.ts\<close> with its types, and its wrapper
  \<open>src/stateMachineValidator.ts\<close>. The invoice record holds the fields of \<open>src/types.ts\<close> that the
  modelled components read or write; the code copies the others unchanged.
  Emitted events are returned as a list, in the order of the calls of \<open>emit\<close>; the registered
  handlers are the caller's code.
\<close>

section \<open>Data\<close>

datatype invoice_status = Pending | Released | Refunded | Cancelled

record transition_record =
  tr_from :: invoice_status
  tr_to :: invoice_status
  tr_at :: int

record recipient =
  rc_address :: string
  rc_amount :: int

record payment =
  pay_payer :: string
  pay_amount :: int
  pay_ledger :: "int option"
  pay_timestamp :: "int option"
  pay_donateOnFailure :: "bool option"

record invoice =
  inv_id :: string
  inv_creator :: string
  inv_recipients :: "recipient list"
  inv_token :: string
  inv_deadline :: int
  inv_funded :: int
  inv_status :: invoice_status
  inv_payments :: "payment list"
  inv_prerequisites :: "string list option"
  inv_prerequisite_id :: "string option"
  inv_statusHistory :: "transition_record list option"

text \<open>\<open>Record<InvoiceStatus, InvoiceStatus[]>\<close>, and the partial overrides of the configuration.\<close>

type_synonym transition_graph = "invoice_status \<rightharpoonup> invoice_status list"

datatype transition_error =
  InvalidTransitionError invoice_status invoice_status "invoice_status list"

datatype ism_event =
    TransitionEv string invoice_status invoice_status invoice invoice
  | InvalidTransitionEv string invoice_status invoice_status "invoice_status list"

section \<open>The state machine\<close>

definition DEFAULT_TRANSITIONS :: transition_graph where
  "DEFAULT_TRANSITIONS =
     [Pending \<mapsto> [Released, Refunded, Cancelled], Released \<mapsto> [], Refunded \<mapsto> [], Cancelled \<mapsto> []]"

definition ALL_STATUSES :: "invoice_status list" where
  "ALL_STATUSES = [Pending, Released, Refunded, Cancelled]"

fun merge_overrides ::
    "transition_graph \<Rightarrow> transition_graph \<Rightarrow> invoice_status list \<Rightarrow> transition_graph" where
  "merge_overrides merged ov [] = merged"
| "merge_overrides merged ov (s # ss) =
     merge_overrides (merged(s \<mapsto> (case ov s of None \<Rightarrow> [] | Some xs \<Rightarrow> xs))) ov ss"

definition new_state_machine :: "transition_graph option \<Rightarrow> transition_graph" where
  "new_state_machine overrides =
     (case overrides of
        Some ov \<Rightarrow> merge_overrides Map.empty ov ALL_STATUSES
      | None \<Rightarrow> DEFAULT_TRANSITIONS)"

definition allowedFrom :: "transition_graph \<Rightarrow> invoice_status \<Rightarrow> invoice_status list" where
  "allowedFrom g from = (case g from of None \<Rightarrow> [] | Some xs \<Rightarrow> xs)"

definition validate ::
    "transition_graph \<Rightarrow> invoice_status \<Rightarrow> invoice_status \<Rightarrow> transition_error + bool" where
  "validate g from to =
     (let allowed = allowedFrom g from in
      if to \<notin> set allowed then Inl (InvalidTransitionError from to allowed) else Inr True)"

text \<open>
  \<open>transition\<close> at \<open>Date.now() = now\<close> (milliseconds): the events it emits and the new invoice or
  the error it rethrows. The argument invoice is not changed.
\<close>

definition transition ::
    "transition_graph \<Rightarrow> int \<Rightarrow> invoice \<Rightarrow> invoice_status \<Rightarrow> ism_event list \<times> (transition_error + invoice)" where
  "transition g now iv to =
     (let from = inv_status iv in
      case validate g from to of
        Inl (InvalidTransitionError f t allowed) \<Rightarrow>
          ([InvalidTransitionEv (inv_id iv) from to allowed], Inl (InvalidTransitionError f t allowed))
      | Inr _ \<Rightarrow>
          (let rec = \<lparr>tr_from = from, tr_to = to, tr_at = now div 1000\<rparr>;
               after = iv\<lparr>inv_status := to,
                 inv_statusHistory :=
                   Some ((case inv_statusHistory iv of None \<Rightarrow> [] | Some h \<Rightarrow> h) @ [rec])\<rparr>
           in ([TransitionEv (inv_id iv) from to iv after], Inr after)))"

section \<open>The validator wrapper\<close>

text \<open>
  \<open>StateMachineValidator.validate\<close> calls the machine first and notifies afterwards. The result is
  the event passed to every validation listener, the event passed to every failure listener
  (\<open>None\<close> when they are not called), and the returned value or thrown error.
\<close>

record validation_event =
  ve_from :: invoice_status
  ve_to :: invoice_status
  ve_valid :: bool

definition smv_validate ::
    "transition_graph \<Rightarrow> invoice_status \<Rightarrow> invoice_status
      \<Rightarrow> validation_event option \<times> validation_event option \<times> (transition_error + bool)" where
  "smv_validate g from to =
     (case validate g from to of
        Inl e \<Rightarrow> (None, None, Inl e)
      | Inr valid \<Rightarrow>
          (let event = \<lparr>ve_from = from, ve_to = to, ve_valid = valid\<rparr>
           in (Some event, (if \<not> valid then Some event else None), Inr valid)))"

datatype assert_error = MachineError transition_error | InvalidStateTransition invoice_status invoice_status

definition assertTransition ::
    "transition_graph \<Rightarrow> invoice_status \<Rightarrow> invoice_status \<Rightarrow> assert_error + unit" where
  "assertTransition g from to =
     (case snd (snd (smv_validate g from to)) of
        Inl e \<Rightarrow> Inl (MachineError e)
      | Inr valid \<Rightarrow> if \<not> valid then Inl (InvalidStateTransition from to) else Inr ())"

definition validateTransition ::
    "invoice_status \<Rightarrow> invoice_status \<Rightarrow> transition_error + bool" where
  "validateTransition from to = validate (new_state_machine None) from to"

section \<open>Lemmas\<close>

lemma allowedFrom_default [simp]:
  "allowedFrom (new_state_machine None) s = (if s = Pending then [Released, Refunded, Cancelled] else [])"
  by (cases s) (simp_all add: allowedFrom_def new_state_machine_def DEFAULT_TRANSITIONS_def)

lemma merge_overrides_apply:
  "merge_overrides m ov ss s =
     (if s \<in> set ss then Some (case ov s of None \<Rightarrow> [] | Some xs \<Rightarrow> xs) else m s)"
  by (induction ss arbitrary: m) auto

lemma allowedFrom_override:
  "allowedFrom (new_state_machine (Some ov)) s = (case ov s of None \<Rightarrow> [] | Some xs \<Rightarrow> xs)"
  by (cases s) (simp_all add: allowedFrom_def new_state_machine_def merge_overrides_apply ALL_STATUSES_def)

lemma validate_Inr_iff: "validate g a b = Inr v \<longleftrightarrow> v \<and> b \<in> set (allowedFrom g a)"
  by (auto simp: validate_def Let_def)

lemma validate_Inl_iff:
  "validate g a b = Inl e \<longleftrightarrow> b \<notin> set (allowedFrom g a) \<and> e = InvalidTransitionError a b (allowedFrom g a)"
  by (auto simp: validate_def Let_def)

lemma transition_legal:
  "to \<in> set (allowedFrom g (inv_status iv)) \<Longrightarrow>
     snd (transition g now iv to) =
       Inr (iv\<lparr>inv_status := to,
         inv_statusHistory := Some ((case inv_statusHistory iv of None \<Rightarrow> [] | Some h \<Rightarrow> h) @
           [\<lparr>tr_from = inv_status iv, tr_to = to, tr_at = now div 1000\<rparr>])\<rparr>)"
  by (simp add: transition_def validate_def Let_def)

lemma transition_illegal:
  "to \<notin> set (allowedFrom g (inv_status iv)) \<Longrightarrow>
     transition g now iv to =
       ([InvalidTransitionEv (inv_id iv) (inv_status iv) to (allowedFrom g (inv_status iv))],
        Inl (InvalidTransitionError (inv_status iv) to (allowedFrom g (inv_status iv))))"
  by (simp add: transition_def validate_def Let_def)

lemmas transition_cases = transition_legal transition_illegal

text \<open>A caller that keeps the invoice when a transition is refused.\<close>

definition attempt :: "transition_graph \<Rightarrow> invoice \<Rightarrow> int \<times> invoice_status \<Rightarrow> invoice" where
  "attempt g iv e = (case snd (transition g (fst e) iv (snd e)) of Inl _ \<Rightarrow> iv | Inr iv' \<Rightarrow> iv')"

text \<open>The history is a walk of the graph that ends in the present status.\<close>

fun walk :: "transition_graph \<Rightarrow> invoice_status \<Rightarrow> transition_record list \<Rightarrow> invoice_status \<Rightarrow> bool" where
  "walk g s [] t \<longleftrightarrow> s = t"
| "walk g s (r # rs) t \<longleftrightarrow> tr_from r = s \<and> tr_to r \<in> set (allowedFrom g s) \<and> walk g (tr_to r) rs t"

lemma walk_snoc:
  "walk g s (rs @ [r]) t \<longleftrightarrow>
     walk g s rs (tr_from r) \<and> tr_to r \<in> set (allowedFrom g (tr_from r)) \<and> t = tr_to r"
  by (induction rs arbitrary: s) auto

definition history :: "invoice \<Rightarrow> transition_record list" where
  "history iv = (case inv_statusHistory iv of None \<Rightarrow> [] | Some h \<Rightarrow> h)"

lemma attempt_walk:
  "walk g s0 (history iv) (inv_status iv) \<Longrightarrow>
     walk g s0 (history (attempt g iv e)) (inv_status (attempt g iv e))"
  by (cases "snd e \<in> set (allowedFrom g (inv_status iv))")
    (auto simp: attempt_def transition_cases history_def walk_snoc split: option.splits)

interpretation ism: machine "attempt g" "\<lambda>iv. walk g s0 (history iv) (inv_status iv)"
  by unfold_locales (rule attempt_walk)

lemma attempt_default_terminal:
  "inv_status iv \<noteq> Pending \<Longrightarrow> attempt (new_state_machine None) iv e = iv"
  by (simp add: attempt_def transition_illegal)

interpretation ism_default: latched_machine "attempt (new_state_machine None)" "\<lambda>_. True"
    "\<lambda>i. i = iv \<and> inv_status iv \<noteq> Pending"
  by unfold_locales (auto simp: attempt_default_terminal)

section \<open>Properties\<close>

text \<open>
  C15: Whatever transition graph is configured and whatever sequence of transitions is attempted,
  legal or not, the status history of an invoice stays a walk of that graph: it starts in the
  same status, every record follows an allowed edge out of the status the record before it
  reached, and the last one ends in the invoice's present status.
\<close>

theorem invoice_history_is_a_walk:
  assumes "walk g s0 (history iv) (inv_status iv)"
  shows "walk g s0 (history (foldl (attempt g) iv es)) (inv_status (foldl (attempt g) iv es))"
  using assms by (rule ism.run_inv)

definition sample_invoice :: invoice where
  "sample_invoice = \<lparr>inv_id = ''1'', inv_creator = ''GA'',
     inv_recipients = [\<lparr>rc_address = ''GB'', rc_amount = 60\<rparr>, \<lparr>rc_address = ''GC'', rc_amount = 40\<rparr>],
     inv_token = ''T'', inv_deadline = 100, inv_funded = 0, inv_status = Pending, inv_payments = [],
     inv_prerequisites = None, inv_prerequisite_id = None, inv_statusHistory = None\<rparr>"

theorem invoice_history_is_a_walk_witness:
  "walk (new_state_machine None) Pending
     (history (foldl (attempt (new_state_machine None)) sample_invoice [(5000, Released), (6000, Pending)])) Released"
proof -
  have "walk (new_state_machine None) Pending (history sample_invoice) (inv_status sample_invoice)"
    by (simp add: sample_invoice_def history_def)
  from invoice_history_is_a_walk [OF this, of "[(5000, Released), (6000, Pending)]"]
  show ?thesis
    by (simp add: attempt_def transition_def validate_def sample_invoice_def Let_def)
qed

text \<open>
  C36: With the default graph, once an invoice has left \<open>Pending\<close> no later sequence of attempted
  transitions changes it in any field: released, refunded and cancelled are final.
\<close>

theorem terminal_status_is_final:
  assumes "inv_status (foldl (attempt (new_state_machine None)) iv es) \<noteq> Pending"
  shows "foldl (attempt (new_state_machine None)) iv (es @ es') = foldl (attempt (new_state_machine None)) iv es"
  using assms ism_default.run_latched
    [where es = es' and s = "foldl (attempt (new_state_machine None)) iv es"
       and iv = "foldl (attempt (new_state_machine None)) iv es"]
  by simp

theorem terminal_status_is_final_witness:
  "foldl (attempt (new_state_machine None)) sample_invoice ([(5000, Refunded)] @ [(6000, Released)])
     = foldl (attempt (new_state_machine None)) sample_invoice [(5000, Refunded)]"
  by (rule terminal_status_is_final)
    (simp add: attempt_def transition_def validate_def sample_invoice_def Let_def)

text \<open>
  C35: \<open>StateMachineValidator.validate\<close> never notifies a failure listener, on any transition and
  with any graph: a refused transition leaves by the exception of the wrapped machine before any
  listener, of either kind, is called, and an accepted one is not a failure.
\<close>

theorem failure_listeners_never_called:
  "fst (snd (smv_validate g from to)) = None \<and>
   (fst (smv_validate g from to) = None) = (to \<notin> set (allowedFrom g from)) \<and>
   assertTransition g from to \<noteq> Inl (InvalidStateTransition from to)"
  by (auto simp: smv_validate_def assertTransition_def validate_def Let_def)

end
