(* ===== verification/Allocation.thy ===== *)
theory Allocation
  imports Invoice_State
begin

text \<open>
  Spreading one budget over many invoices: \<open>src/paymentAllocation.ts\<close>. The remaining amounts come
  from the caller's tables, or from a fetcher (an argument: it asks the network and may fail).
  \<open>fl\<close> rounds the floating-point operations on the custom weights. The percentage of an
  allocation is the exact quotient that the code's last division rounds to a double.
\<close>

section \<open>Data\<close>

datatype split_strategy = Equal | Proportional | Custom | OtherStrategy string

record payment_allocation =
  pa_invoiceId :: int
  pa_amount :: int
  pa_percentOfBudget :: rat

text \<open>A value of a record of amounts: \<open>bigint\<close> or \<open>number\<close>, with \<open>None\<close> for a non-finite number.\<close>

datatype js_amount = AmtBig int | AmtNum "rat option"

datatype amount_lookup = LMap "(int \<times> int) list" | LRecord "(string \<times> js_amount) list"

datatype alloc_error =
    UnknownStrategy string
  | NegativeBudget int
  | DuplicateInvoice int
  | WeightsMissing
  | WeightsLength nat nat
  | WeightInvalid "rat option"
  | WeightsSum rat
  | NoRemainingSource int
  | BigIntOfNonFinite
  | FetchFailed string

record aggregate_options =
  ao_weights :: "rat option list option"
  ao_remaining :: "amount_lookup option"
  ao_targets :: "amount_lookup option"
  ao_fetchRemaining :: "(int \<Rightarrow> alloc_error + int) option"
  ao_invoiceSource :: "(string \<Rightarrow> alloc_error + invoice) option"

section \<open>Operations\<close>

definition remainingForInvoice :: "invoice \<Rightarrow> int" where
  "remainingForInvoice iv =
     (let target = foldl (\<lambda>tot r. tot + rc_amount r) 0 (inv_recipients iv);
          remaining = target - inv_funded iv
      in if remaining > 0 then remaining else 0)"

definition createInvoiceRemainingFetcher ::
    "(string \<Rightarrow> alloc_error + invoice) \<Rightarrow> int \<Rightarrow> alloc_error + int" where
  "createInvoiceRemainingFetcher getInvoice invoiceId =
     rbind (getInvoice (show_int invoiceId)) (\<lambda>iv. Inr (remainingForInvoice iv))"

definition assertValidStrategy :: "split_strategy \<Rightarrow> alloc_error + unit" where
  "assertValidStrategy strategy =
     (case strategy of OtherStrategy s \<Rightarrow> Inl (UnknownStrategy s) | _ \<Rightarrow> Inr ())"

fun no_duplicates_from :: "int list \<Rightarrow> int list \<Rightarrow> alloc_error + unit" where
  "no_duplicates_from seen [] = Inr ()"
| "no_duplicates_from seen (k # ks) =
     (if k \<in> set seen then Inl (DuplicateInvoice k) else no_duplicates_from (seen @ [k]) ks)"

definition assertNoDuplicates :: "int list \<Rightarrow> alloc_error + unit" where
  "assertNoDuplicates ids = no_duplicates_from [] ids"

definition lookupAmount :: "amount_lookup option \<Rightarrow> int \<Rightarrow> alloc_error + int option" where
  "lookupAmount source invoiceId =
     (case source of
        None \<Rightarrow> Inr None
      | Some (LMap m) \<Rightarrow> Inr (map_of m invoiceId)
      | Some (LRecord r) \<Rightarrow>
          (case map_of r (show_int invoiceId) of
             None \<Rightarrow> Inr None
           | Some (AmtBig b) \<Rightarrow> Inr (Some b)
           | Some (AmtNum None) \<Rightarrow> Inl BigIntOfNonFinite
           | Some (AmtNum (Some q)) \<Rightarrow> Inr (Some (js_trunc q))))"

fun sum_weights :: "(rat \<Rightarrow> rat) \<Rightarrow> rat \<Rightarrow> rat option list \<Rightarrow> alloc_error + rat" where
  "sum_weights fl tot [] = Inr tot"
| "sum_weights fl tot (None # ws) = Inl (WeightInvalid None)"
| "sum_weights fl tot (Some w # ws) =
     (if w < 0 then Inl (WeightInvalid (Some w)) else sum_weights fl (fl (tot + w)) ws)"

definition resolveCustomWeights ::
    "(rat \<Rightarrow> rat) \<Rightarrow> rat option list option \<Rightarrow> nat \<Rightarrow> alloc_error + int list" where
  "resolveCustomWeights fl weights invoiceCount =
     (case weights of
        None \<Rightarrow> Inl WeightsMissing
      | Some ws \<Rightarrow>
          if length ws \<noteq> invoiceCount then Inl (WeightsLength invoiceCount (length ws))
          else rbind (sum_weights fl 0 ws) (\<lambda>tot.
            if \<bar>fl (tot - 100)\<bar> > fl (1 / 1000000) then Inl (WeightsSum tot)
            else Inr (map (\<lambda>w. js_round (fl (the w * 1000000))) ws)))"

fun remaining_amounts ::
    "aggregate_options \<Rightarrow> (int \<Rightarrow> alloc_error + int) option \<Rightarrow> int list \<Rightarrow> alloc_error + int list" where
  "remaining_amounts opts fetcher [] = Inr []"
| "remaining_amounts opts fetcher (k # ks) =
     rbind (lookupAmount (ao_remaining opts) k) (\<lambda>found.
     rbind (case found of
              Some r \<Rightarrow> Inr r
            | None \<Rightarrow> (case fetcher of Some f \<Rightarrow> f k | None \<Rightarrow> Inl (NoRemainingSource k))) (\<lambda>remaining.
     rbind (remaining_amounts opts fetcher ks) (\<lambda>rest.
       Inr ((if remaining > 0 then remaining else 0) # rest))))"

text \<open>\<open>deflt\<close> is the fetcher of \<open>registerInvoiceRemainingFetcher\<close>, the module's only variable.\<close>

definition resolveRemainingAmounts ::
    "(int \<Rightarrow> alloc_error + int) option \<Rightarrow> int list \<Rightarrow> aggregate_options \<Rightarrow> alloc_error + int list" where
  "resolveRemainingAmounts deflt ids opts =
     (let fetcher = (case ao_fetchRemaining opts of
                       Some f \<Rightarrow> Some f
                     | None \<Rightarrow> (case ao_invoiceSource opts of
                                  Some s \<Rightarrow> Some (createInvoiceRemainingFetcher s)
                                | None \<Rightarrow> deflt))
      in remaining_amounts opts fetcher ids)"

fun proportional_weights ::
    "amount_lookup option \<Rightarrow> (int \<times> int) list \<Rightarrow> alloc_error + int list" where
  "proportional_weights targets [] = Inr []"
| "proportional_weights targets ((amount, k) # rest) =
     rbind (lookupAmount targets k) (\<lambda>found.
     rbind (proportional_weights targets rest) (\<lambda>ws.
       Inr ((case found of
               None \<Rightarrow> amount
             | Some target \<Rightarrow> if target \<le> 0 then 0 else (amount * 1000000) sdiv target) # ws)))"

definition resolveWeights ::
    "(rat \<Rightarrow> rat) \<Rightarrow> split_strategy \<Rightarrow> int list \<Rightarrow> aggregate_options \<Rightarrow> int list \<Rightarrow> alloc_error + int list" where
  "resolveWeights fl strategy remaining opts ids =
     (case strategy of
        Equal \<Rightarrow> Inr (map (\<lambda>_. 1) remaining)
      | Custom \<Rightarrow> resolveCustomWeights fl (ao_weights opts) (length ids)
      | _ \<Rightarrow> proportional_weights (ao_targets opts) (zip remaining ids))"

subsection \<open>The water-filling allocator\<close>

text \<open>One round over the active entries: allocations, amount distributed, leftovers.\<close>

fun share_loop ::
    "bool \<Rightarrow> int \<Rightarrow> int list \<Rightarrow> int list \<Rightarrow> int \<Rightarrow> nat list \<Rightarrow> int list \<Rightarrow> int \<Rightarrow> (nat \<times> int) list
      \<Rightarrow> int list \<times> int \<times> (nat \<times> int) list" where
  "share_loop proRata divisor weights remaining pool [] allocs distributed leftovers =
     (allocs, distributed, leftovers)"
| "share_loop proRata divisor weights remaining pool (i # is) allocs distributed leftovers =
     (let numerator = (if proRata then pool * weights ! i else pool);
          share0 = numerator sdiv divisor;
          capacity = remaining ! i - allocs ! i;
          share = (if share0 > capacity then capacity else share0);
          leftovers' = leftovers @ [(i, numerator smod divisor)]
      in if share > 0
         then share_loop proRata divisor weights remaining pool is
                (allocs[i := allocs ! i + share]) (distributed + share) leftovers'
         else share_loop proRata divisor weights remaining pool is allocs distributed leftovers')"

definition leftover_cmp :: "nat \<times> int \<Rightarrow> nat \<times> int \<Rightarrow> rat" where
  "leftover_cmp a b =
     (if snd a = snd b then of_nat (fst a) - of_nat (fst b) else if snd a < snd b then 1 else - 1)"

fun dust_loop ::
    "bool \<Rightarrow> int list \<Rightarrow> int list \<Rightarrow> (nat \<times> int) list \<Rightarrow> int list \<Rightarrow> int \<Rightarrow> int list \<times> int" where
  "dust_loop proRata weights remaining [] allocs pool = (allocs, pool)"
| "dust_loop proRata weights remaining ((i, r) # rest) allocs pool =
     (if pool = 0 then (allocs, pool)
      else if allocs ! i \<ge> remaining ! i then dust_loop proRata weights remaining rest allocs pool
      else if proRata \<and> weights ! i = 0 then dust_loop proRata weights remaining rest allocs pool
      else dust_loop proRata weights remaining rest (allocs[i := allocs ! i + 1]) (pool - 1))"

text \<open>The body of the \<open>while\<close> loop on its variables \<open>pool\<close>, \<open>allocations\<close>, \<open>active\<close>.\<close>

definition alloc_pass ::
    "int list \<Rightarrow> int list \<Rightarrow> int \<Rightarrow> int list \<Rightarrow> nat list \<Rightarrow> int \<times> int list \<times> nat list" where
  "alloc_pass weights remaining pool allocs active =
     (let weightSum = foldl (\<lambda>tot i. tot + weights ! i) 0 active;
          proRata = (weightSum > 0);
          divisor = (if proRata then weightSum else int (length active));
          (allocs1, distributed, leftovers) =
             share_loop proRata divisor weights remaining pool active allocs 0 [];
          pool1 = pool - distributed;
          active1 = filter (\<lambda>i. allocs1 ! i < remaining ! i) active
      in if distributed > 0 \<or> pool1 = 0 \<or> active1 = [] then (pool1, allocs1, active1)
         else
           let (allocs2, pool2) =
                 dust_loop proRata weights remaining (js_sort leftover_cmp leftovers) allocs1 pool1
           in (pool2, allocs2, active1))"

text \<open>The \<open>while\<close> loop, with the passes left before \<open>MAX_ALLOCATION_PASSES\<close> as its fuel.\<close>

fun alloc_loop :: "int list \<Rightarrow> int list \<Rightarrow> nat \<Rightarrow> int \<Rightarrow> int list \<Rightarrow> nat list \<Rightarrow> int list" where
  "alloc_loop weights remaining 0 pool allocs active = allocs"
| "alloc_loop weights remaining (Suc n) pool allocs active =
     (if pool > 0 \<and> active \<noteq> [] then
        let (pool', allocs', active') = alloc_pass weights remaining pool allocs active
        in alloc_loop weights remaining n pool' allocs' active'
      else allocs)"

definition MAX_ALLOCATION_PASSES :: nat where
  "MAX_ALLOCATION_PASSES = 1024"

definition allocateWithCaps :: "int list \<Rightarrow> int list \<Rightarrow> int \<Rightarrow> int list" where
  "allocateWithCaps weights remaining pool =
     alloc_loop weights remaining MAX_ALLOCATION_PASSES pool
       (map (\<lambda>_. 0) remaining)
       (filter (\<lambda>i. remaining ! i > 0) [0..<length remaining])"

definition aggregatePayments ::
    "(rat \<Rightarrow> rat) \<Rightarrow> (int \<Rightarrow> alloc_error + int) option \<Rightarrow> int \<Rightarrow> int list \<Rightarrow> split_strategy
      \<Rightarrow> aggregate_options \<Rightarrow> alloc_error + payment_allocation list" where
  "aggregatePayments fl deflt budget ids strategy opts =
     rbind (assertValidStrategy strategy) (\<lambda>_.
     if budget < 0 then Inl (NegativeBudget budget)
     else if ids = [] then Inr []
     else rbind (assertNoDuplicates ids) (\<lambda>_.
     rbind (if strategy = Custom then resolveCustomWeights fl (ao_weights opts) (length ids) else Inr []) (\<lambda>_.
     rbind (resolveRemainingAmounts deflt ids opts) (\<lambda>remaining.
       let totalRemaining = foldl (\<lambda>tot amount. tot + amount) 0 remaining;
           distributable = (if budget < totalRemaining then budget else totalRemaining)
       in if distributable = 0
          then Inr (map (\<lambda>k. \<lparr>pa_invoiceId = k, pa_amount = 0, pa_percentOfBudget = 0\<rparr>) ids)
          else rbind (resolveWeights fl strategy remaining opts ids) (\<lambda>weights.
            let allocations = allocateWithCaps weights remaining distributable
            in Inr (map (\<lambda>(k, i). let amount = allocations ! i
                                  in \<lparr>pa_invoiceId = k, pa_amount = amount,
                                      pa_percentOfBudget = of_int ((amount * 10000) sdiv budget) / 100\<rparr>)
                     (zip ids [0..<length ids])))))))"

section \<open>Lemmas\<close>

text \<open>What one round gives to the entry \<open>i\<close>.\<close>

definition share_of :: "bool \<Rightarrow> int \<Rightarrow> int list \<Rightarrow> int list \<Rightarrow> int \<Rightarrow> int list \<Rightarrow> nat \<Rightarrow> int" where
  "share_of proRata divisor weights remaining pool allocs i =
     max 0 (min ((if proRata then pool * weights ! i else pool) sdiv divisor) (remaining ! i - allocs ! i))"

lemma sum_list_map_cong: "(\<And>x. x \<in> set xs \<Longrightarrow> f x = g x) \<Longrightarrow> sum_list (map f xs) = sum_list (map g xs)"
  by (metis map_cong)

text \<open>
  The round is the same as giving every active entry its share of the state at the start of the
  round, because every index is visited once.
\<close>

lemma share_loop_spec:
  assumes "distinct act" "\<forall>i \<in> set act. i < length allocs"
    and "share_loop proRata divisor weights remaining pool act allocs given lo = (allocs', given', lo')"
  shows "length allocs' = length allocs
    \<and> (\<forall>i < length allocs. allocs' ! i = allocs ! i +
          (if i \<in> set act then share_of proRata divisor weights remaining pool allocs i else 0))
    \<and> given' = given + sum_list (map (share_of proRata divisor weights remaining pool allocs) act)
    \<and> sum_list allocs' = sum_list allocs + (given' - given)
    \<and> lo' = lo @ map (\<lambda>i. (i, (if proRata then pool * weights ! i else pool) smod divisor)) act"
  using assms
proof (induction act arbitrary: allocs given lo)
  case (Cons i act)
  let ?sh = "share_of proRata divisor weights remaining pool allocs"
  let ?s = "min ((if proRata then pool * weights ! i else pool) sdiv divisor) (remaining ! i - allocs ! i)"
  define al where "al = (if ?s > 0 then allocs[i := allocs ! i + ?s] else allocs)"
  have step: "share_loop proRata divisor weights remaining pool act al (given + ?sh i)
      (lo @ [(i, (if proRata then pool * weights ! i else pool) smod divisor)]) = (allocs', given', lo')"
    using Cons.prems(3) by (auto simp: al_def Let_def share_of_def min_def max_def split: if_splits)
  have al: "length al = length allocs" "\<And>j. j < length allocs \<Longrightarrow> al ! j = allocs ! j + (if j = i then ?sh i else 0)"
    "sum_list al = sum_list allocs + ?sh i"
    using Cons.prems(2) by (auto simp: al_def share_of_def nth_list_update sum_list_update_int)
  have same: "share_of proRata divisor weights remaining pool al j = ?sh j" if "j \<in> set act" for j
    using that Cons.prems(1,2) al(2) [of j] by (auto simp: share_of_def)
  have "distinct act" "\<forall>j \<in> set act. j < length al" using Cons.prems(1,2) al(1) by auto
  note IH = Cons.IH [OF this step]
  have eq: "sum_list (map (share_of proRata divisor weights remaining pool al) act) = sum_list (map ?sh act)"
    by (rule sum_list_map_cong) (rule same)
  show ?case
    using IH same Cons.prems(1) Cons.prems(2) unfolding eq al(1) al(3)
    by (auto simp: al(2))
qed simp

lemma dust_loop_spec:
  assumes "0 \<le> pool" and "\<forall>(i, r) \<in> set lo. i < length allocs"
    and "length remaining = length allocs" and "\<forall>i < length allocs. 0 \<le> allocs ! i \<and> allocs ! i \<le> remaining ! i"
    and "dust_loop proRata weights remaining lo allocs pool = (allocs', pool')"
  shows "length allocs' = length allocs \<and> 0 \<le> pool' \<and> pool' + sum_list allocs' = pool + sum_list allocs
    \<and> (\<forall>i < length allocs. 0 \<le> allocs' ! i \<and> allocs' ! i \<le> remaining ! i)"
  using assms
proof (induction lo arbitrary: allocs pool)
  case (Cons e lo)
  obtain i r where e: "e = (i, r)" by (cases e)
  have i: "i < length allocs" using Cons.prems(2) e by simp
  show ?case
  proof (cases "pool = 0 \<or> allocs ! i \<ge> remaining ! i \<or> proRata \<and> weights ! i = 0")
    case True
    with Cons e show ?thesis by (auto split: if_splits)
  next
    case False
    let ?al = "allocs[i := allocs ! i + 1]"
    have "dust_loop proRata weights remaining lo ?al (pool - 1) = (allocs', pool')"
      using Cons.prems(5) False e by (auto split: if_splits)
    moreover have "0 \<le> pool - 1" "\<forall>(i, r) \<in> set lo. i < length ?al" "length remaining = length ?al"
      "\<forall>i < length ?al. 0 \<le> ?al ! i \<and> ?al ! i \<le> remaining ! i"
      using Cons.prems(1-4) False by (simp_all add: e nth_list_update)
    ultimately show ?thesis
      using Cons.IH [of "pool - 1" ?al] i by (simp add: sum_list_update_int)
  qed
qed auto

text \<open>The dust is gone when enough of the entries may still take a stroop.\<close>

lemma dust_loop_exhausts:
  assumes "distinct (map fst lo)" "\<forall>(i, r) \<in> set lo. i < length allocs \<and> allocs ! i < remaining ! i"
    and "0 \<le> pool" and "pool \<le> int (length (filter (\<lambda>(i, r). \<not> (proRata \<and> weights ! i = 0)) lo))"
  shows "snd (dust_loop proRata weights remaining lo allocs pool) = 0"
  using assms
proof (induction lo arbitrary: allocs pool)
  case (Cons e lo)
  obtain i r where e: "e = (i, r)" by (cases e)
  have ne: "j \<noteq> i" if "(j, q) \<in> set lo" for j q using that Cons.prems(1) e by (force simp: image_iff)
  have "\<forall>(j, q) \<in> set lo. j < length (allocs[i := allocs ! i + 1]) \<and> allocs[i := allocs ! i + 1] ! j < remaining ! j"
    using Cons.prems(2) ne by (force simp: nth_list_update)
  then show ?case
    using Cons.IH [of "allocs[i := allocs ! i + 1]" "pool - 1"] Cons.IH [of allocs pool] Cons.prems
    by (auto simp: e split: if_splits)
qed auto

subsection \<open>Progress of a pass\<close>

lemma sum_div_mod:
  "sum_list (map f xs) = v * sum_list (map (\<lambda>x. f x div v) xs) + sum_list (map (\<lambda>x. f x mod (v::int)) xs)"
  by (induction xs) (simp_all add: algebra_simps)

lemma sum_mod_less:
  assumes "0 < v" "xs \<noteq> []" shows "sum_list (map (\<lambda>x. f x mod (v::int)) xs) < v * int (length xs)"
  using assms(2)
proof (induction xs rule: list_nonempty_induct)
  case (cons x xs)
  then show ?case using pos_mod_bound [OF assms(1), of "f x"] by (simp add: algebra_simps)
qed (simp add: assms(1))

lemma sum_count_le:
  "\<forall>x \<in> set xs. f x \<le> v \<and> (\<not> P x \<longrightarrow> f x \<le> 0) \<Longrightarrow>
   sum_list (map f xs) \<le> (v::int) * int (length (filter P xs))"
  by (induction xs) (auto simp: algebra_simps)

lemma sum_list_map_zero: "sum_list (map f xs) \<le> 0 \<Longrightarrow> \<forall>x \<in> set xs. 0 \<le> (f x :: int) \<Longrightarrow> x \<in> set xs \<Longrightarrow> f x = 0"
proof (induction xs)
  case (Cons y ys)
  have "0 \<le> sum_list (map f ys)" using Cons.prems(2) by (intro sum_list_nonneg) auto
  with Cons show ?case by auto
qed simp

lemma sum_pro_rata: "sum_list (map (\<lambda>i. pool * w i) xs) = pool * (sum_list (map w xs) :: int)"
  by (induction xs) (simp_all add: algebra_simps)

lemma shorter_filter: "filter P xs \<noteq> xs \<Longrightarrow> length (filter P xs) < length xs"
  by (metis filter_True length_filter_less)

definition alloc_ok :: "int list \<Rightarrow> int list \<Rightarrow> int \<Rightarrow> int \<Rightarrow> int list \<Rightarrow> nat list \<Rightarrow> bool" where
  "alloc_ok weights remaining D pool allocs active \<longleftrightarrow>
     length allocs = length remaining \<and> (\<forall>i < length remaining. 0 \<le> weights ! i) \<and>
     (\<forall>i < length remaining. 0 \<le> allocs ! i \<and> allocs ! i \<le> remaining ! i) \<and>
     distinct active \<and> (0 < pool \<longrightarrow> set active = {i. i < length remaining \<and> allocs ! i < remaining ! i}) \<and>
     0 \<le> pool \<and> pool + sum_list allocs = D \<and> D \<le> sum_list remaining"

lemma alloc_okD:
  assumes "alloc_ok weights remaining D pool allocs active" "0 < pool"
  shows "length allocs = length remaining" "distinct active"
    "\<And>i. i < length remaining \<Longrightarrow> 0 \<le> allocs ! i \<and> allocs ! i \<le> remaining ! i"
    "\<And>i. i \<in> set active \<longleftrightarrow> i < length remaining \<and> allocs ! i < remaining ! i"
    "\<And>i. i < length remaining \<Longrightarrow> 0 \<le> weights ! i"
  using assms by (auto simp: alloc_ok_def)

lemma active_nonempty:
  assumes "alloc_ok weights remaining D pool allocs active" "0 < pool" shows "active \<noteq> []"
proof
  assume "active = []"
  then have "allocs = remaining"
    using alloc_okD [OF assms] by (intro nth_equalityI) (auto simp: order_le_less)
  with assms show False by (simp add: alloc_ok_def)
qed

text \<open>The divisor of a pass and the numerator of an entry, which sum to \<open>pool * divisor\<close>.\<close>

definition pass_pr :: "int list \<Rightarrow> nat list \<Rightarrow> bool" where
  "pass_pr weights active \<longleftrightarrow> 0 < sum_list (map ((!) weights) active)"

definition pass_div :: "int list \<Rightarrow> nat list \<Rightarrow> int" where
  "pass_div weights active =
     (if pass_pr weights active then sum_list (map ((!) weights) active) else int (length active))"

definition pass_num :: "int list \<Rightarrow> nat list \<Rightarrow> int \<Rightarrow> nat \<Rightarrow> int" where
  "pass_num weights active pool i = (if pass_pr weights active then pool * weights ! i else pool)"

definition pass_share :: "int list \<Rightarrow> int list \<Rightarrow> int \<Rightarrow> int list \<Rightarrow> nat list \<Rightarrow> nat \<Rightarrow> int" where
  "pass_share weights remaining pool allocs active =
     share_of (pass_pr weights active) (pass_div weights active) weights remaining pool allocs"

lemma pass_div_pos: "active \<noteq> [] \<Longrightarrow> 0 < pass_div weights active"
  by (simp add: pass_div_def pass_pr_def)

lemma pass_num_sum: "sum_list (map (pass_num weights active pool) active) = pool * pass_div weights active"
  by (simp add: pass_num_def [abs_def] pass_div_def sum_pro_rata sum_list_triv)

lemma pass_share:
  assumes "alloc_ok weights remaining D pool allocs active" "0 < pool" "i \<in> set active"
  shows "pass_share weights remaining pool allocs active i =
      min (pass_num weights active pool i div pass_div weights active) (remaining ! i - allocs ! i)"
    "0 \<le> pass_share weights remaining pool allocs active i" "0 \<le> pass_num weights active pool i"
proof -
  note ok = alloc_okD [OF assms(1,2)]
  have i: "i < length remaining" "allocs ! i < remaining ! i" using ok(4) assms(3) by auto
  show num: "0 \<le> pass_num weights active pool i" using ok(5) [OF i(1)] assms(2) by (simp add: pass_num_def)
  have v: "0 < pass_div weights active" using assms(3) by (intro pass_div_pos) auto
  show "pass_share weights remaining pool allocs active i =
      min (pass_num weights active pool i div pass_div weights active) (remaining ! i - allocs ! i)"
    using i num v unfolding pass_share_def share_of_def pass_num_def [symmetric]
    by (simp add: sdiv_nonneg pos_imp_zdiv_nonneg_iff)
  then show "0 \<le> pass_share weights remaining pool allocs active i"
    using i num v by (simp add: pos_imp_zdiv_nonneg_iff)
qed

text \<open>The sum of the shares, and how far it stays below the pool.\<close>

lemma pass_given:
  assumes "alloc_ok weights remaining D pool allocs active" "0 < pool"
  shows "0 \<le> sum_list (map (pass_share weights remaining pool allocs active) active)"
    "sum_list (map (pass_share weights remaining pool allocs active) active) \<le> pool"
    "(\<forall>i \<in> set active. pass_share weights remaining pool allocs active i < remaining ! i - allocs ! i) \<Longrightarrow>
      pool - sum_list (map (pass_share weights remaining pool allocs active) active) < int (length active)"
proof -
  let ?sh = "pass_share weights remaining pool allocs active" and ?num = "pass_num weights active pool"
  let ?v = "pass_div weights active"
  note sh = pass_share [OF assms] and ne = active_nonempty [OF assms]
  have v: "0 < ?v" by (rule pass_div_pos [OF ne])
  have md: "pool * ?v = ?v * sum_list (map (\<lambda>i. ?num i div ?v) active) + sum_list (map (\<lambda>i. ?num i mod ?v) active)"
    using pass_num_sum sum_div_mod [of ?num active ?v] by simp
  show "0 \<le> sum_list (map ?sh active)" by (intro sum_list_nonneg) (auto simp: sh(2))
  have "0 \<le> sum_list (map (\<lambda>i. ?num i mod ?v) active)" using v by (intro sum_list_nonneg) auto
  with md have "?v * sum_list (map (\<lambda>i. ?num i div ?v) active) \<le> ?v * pool" by (simp add: mult.commute)
  with v have "sum_list (map (\<lambda>i. ?num i div ?v) active) \<le> pool" by simp
  moreover have "sum_list (map ?sh active) \<le> sum_list (map (\<lambda>i. ?num i div ?v) active)"
    by (rule sum_list_mono) (simp add: sh(1))
  ultimately show "sum_list (map ?sh active) \<le> pool" by simp
  assume room: "\<forall>i \<in> set active. ?sh i < remaining ! i - allocs ! i"
  have "sum_list (map ?sh active) = sum_list (map (\<lambda>i. ?num i div ?v) active)"
  proof (rule sum_list_map_cong)
    fix i assume "i \<in> set active"
    with room have "?sh i < remaining ! i - allocs ! i" by blast
    then show "?sh i = ?num i div ?v" unfolding sh(1) [OF \<open>i \<in> set active\<close>] by linarith
  qed
  then have "(pool - sum_list (map ?sh active)) * ?v = sum_list (map (\<lambda>i. ?num i mod ?v) active)"
    using md by (simp add: algebra_simps)
  then have "(pool - sum_list (map ?sh active)) * ?v < int (length active) * ?v"
    using sum_mod_less [OF v ne] by (simp add: mult.commute)
  with v show "pool - sum_list (map ?sh active) < int (length active)" by simp
qed

lemma pass_shares:
  assumes "alloc_ok weights remaining D pool allocs active" "0 < pool"
    and "share_loop (pass_pr weights active) (pass_div weights active) weights remaining pool active allocs 0 [] = (al, d, lo)"
  shows "alloc_ok weights remaining D (pool - d) al (filter (\<lambda>i. al ! i < remaining ! i) active)"
    "d = sum_list (map (pass_share weights remaining pool allocs active) active)"
    "map fst lo = active"
    "\<And>i. i \<in> set active \<Longrightarrow> al ! i = allocs ! i + pass_share weights remaining pool allocs active i"
    "d = 0 \<Longrightarrow> al = allocs"
proof -
  let ?sh = "pass_share weights remaining pool allocs active"
  note ok = alloc_okD [OF assms(1,2)] and sh = pass_share [OF assms(1,2)] and given = pass_given [OF assms(1,2)]
  have "\<forall>i \<in> set active. i < length allocs" using ok(1,4) by auto
  from share_loop_spec [OF ok(2) this assms(3)] have al_len: "length al = length remaining"
    and al: "\<And>i. i < length remaining \<Longrightarrow> al ! i = allocs ! i + (if i \<in> set active then ?sh i else 0)"
    and d: "d = sum_list (map ?sh active)" and al_sum: "sum_list al = sum_list allocs + d"
    and lo: "map fst lo = active"
    by (simp_all add: ok(1) pass_share_def comp_def)
  have bnd: "0 \<le> al ! i \<and> al ! i \<le> remaining ! i" if "i < length remaining" for i
    using al [OF that] ok(3) [OF that] sh(1,2) [of i] by auto
  have act: "i \<in> set active" if "i < length remaining" "al ! i < remaining ! i" for i
    using that al [OF that(1)] ok(3,4) [of i] by (cases "i \<in> set active") auto
  have ac: "set (filter (\<lambda>i. al ! i < remaining ! i) active) = {i. i < length remaining \<and> al ! i < remaining ! i}"
    using act ok(4) by auto
  show "alloc_ok weights remaining D (pool - d) al (filter (\<lambda>i. al ! i < remaining ! i) active)"
    using assms(1) given(2) al_len al_sum bnd ok(2) unfolding alloc_ok_def ac d by auto
  show "d = sum_list (map ?sh active)" "map fst lo = active" by fact+
  show "\<And>i. i \<in> set active \<Longrightarrow> al ! i = allocs ! i + ?sh i" using al ok(4) by auto
  assume "d = 0"
  then have "?sh i = 0" if "i \<in> set active" for i
    using sum_list_map_zero [of ?sh active i] d sh(2) that by simp
  then show "al = allocs" using al al_len ok(1) by (intro nth_equalityI) auto
qed

text \<open>When every share is zero, more entries can take a stroop than there are stroops.\<close>

lemma dust_enough:
  assumes "alloc_ok weights remaining D pool allocs active" "0 < pool"
    and "sum_list (map (pass_share weights remaining pool allocs active) active) = 0"
  shows "pool \<le> int (length (filter (\<lambda>i. \<not> (pass_pr weights active \<and> weights ! i = 0)) active))"
proof -
  let ?num = "pass_num weights active pool" and ?v = "pass_div weights active"
  let ?P = "\<lambda>i. \<not> (pass_pr weights active \<and> weights ! i = 0)"
  note ok = alloc_okD [OF assms(1,2)] and sh = pass_share [OF assms(1,2)]
  have v: "0 < ?v" by (rule pass_div_pos [OF active_nonempty [OF assms(1,2)]])
  have "?num i \<le> ?v" if "i \<in> set active" for i
  proof -
    have "pass_share weights remaining pool allocs active i = 0"
      using sum_list_map_zero [OF eq_refl [OF assms(3)] _ that] sh(2) by blast
    moreover have "allocs ! i < remaining ! i" using that ok(4) by blast
    ultimately have "?num i div ?v = 0" using sh(1) [OF that] by (auto simp: min_def split: if_splits)
    then show ?thesis using v sh(3) [OF that] zdiv_eq_0_iff [of "?num i" ?v] by auto
  qed
  then have "sum_list (map ?num active) \<le> ?v * int (length (filter ?P active))"
    by (intro sum_count_le) (auto simp: pass_num_def)
  then have "?v * pool \<le> ?v * int (length (filter ?P active))" by (simp add: pass_num_sum mult.commute)
  with v show ?thesis by simp
qed

lemma pass_dust:
  assumes "alloc_ok weights remaining D pool allocs active" "0 < pool"
    and "sum_list (map (pass_share weights remaining pool allocs active) active) = 0"
    and "map fst lo = active"
    and "dust_loop (pass_pr weights active) weights remaining (js_sort leftover_cmp lo) allocs pool = (al, p)"
  shows "alloc_ok weights remaining D p al active" "p = 0"
proof -
  let ?ls = "js_sort leftover_cmp lo" and ?P = "\<lambda>i. \<not> (pass_pr weights active \<and> weights ! i = 0)"
  note ok = alloc_okD [OF assms(1,2)]
  have "length (filter (\<lambda>(i, r). ?P i) ?ls) = length (filter (\<lambda>(i, r). ?P i) lo)"
    by (metis mset_filter mset_js_sort size_mset)
  also have "\<dots> = length (filter ?P active)"
    by (simp add: assms(4) [symmetric] filter_map comp_def split_def)
  finally have cnt: "pool \<le> int (length (filter (\<lambda>(i, r). ?P i) ?ls))" using dust_enough [OF assms(1-3)] by simp
  have ls: "\<forall>(i, r) \<in> set ?ls. i < length allocs \<and> allocs ! i < remaining ! i"
    using ok(1,4) assms(4) by force
  have "distinct (map fst ?ls)" by (simp add: distinct_map_js_sort assms(4) ok(2))
  from dust_loop_exhausts [OF this ls _ cnt] assms(2,5) show p: "p = 0" by simp
  have "\<forall>(i, r) \<in> set ?ls. i < length allocs" using ls by auto
  from dust_loop_spec [OF _ this _ _ assms(5)] assms(1,2) ok(1,3)
  show "alloc_ok weights remaining D p al active" by (auto simp: alloc_ok_def p)
qed

text \<open>
  One pass keeps the invariant, spends something, and either fills an entry or leaves less to
  spend than there are active entries.
\<close>

lemma alloc_pass_ok:
  assumes ok: "alloc_ok weights remaining D pool allocs active" and pos: "0 < pool"
    and pass: "alloc_pass weights remaining pool allocs active = (pool', allocs', active')"
  shows "alloc_ok weights remaining D pool' allocs' active' \<and> pool' < pool \<and>
    length active' \<le> length active \<and> (length active' < length active \<or> pool' < int (length active))"
proof -
  let ?sh = "pass_share weights remaining pool allocs active"
  have ne: "active \<noteq> []" by (rule active_nonempty [OF ok pos])
  obtain al d lo where sl: "share_loop (pass_pr weights active) (pass_div weights active) weights remaining
      pool active allocs 0 [] = (al, d, lo)" by (rule prod_cases3)
  note ps = pass_shares [OF ok pos sl] and given = pass_given [OF ok pos]
  define ac where "ac = filter (\<lambda>i. al ! i < remaining ! i) active"
  have pass_eq: "alloc_pass weights remaining pool allocs active =
      (if d > 0 \<or> pool - d = 0 \<or> ac = [] then (pool - d, al, ac)
       else let (al2, p2) = dust_loop (pass_pr weights active) weights remaining (js_sort leftover_cmp lo) al (pool - d)
            in (p2, al2, ac))"
    using sl unfolding alloc_pass_def foldl_sum
    by (simp add: pass_pr_def [symmetric] pass_div_def [symmetric] ac_def Let_def cong: if_cong)
  show ?thesis
  proof (cases "d = 0")
    case True
    note al = ps(5) [OF True]
    have ac: "ac = active" unfolding ac_def al using alloc_okD(4) [OF ok pos] by (auto intro: filter_True)
    obtain al2 p2 where du: "dust_loop (pass_pr weights active) weights remaining (js_sort leftover_cmp lo) allocs pool = (al2, p2)"
      by (rule prod.exhaust)
    from pass_dust [OF ok pos _ ps(3) du] True ps(2) have "alloc_ok weights remaining D p2 al2 active" "p2 = 0" by auto
    with pass pass_eq True du pos ne show ?thesis by (auto simp: al ac)
  next
    case False
    with given(1) ps(2) have "0 < d" by simp
    with pass_eq pass have res: "pool' = pool - d" "allocs' = al" "active' = ac" by auto
    have "length ac < length active \<or> pool - d < int (length active)"
    proof (cases "ac = active")
      case True
      then have "\<forall>i \<in> set active. al ! i < remaining ! i" unfolding ac_def by (simp add: filter_id_conv)
      with ps(4) have "\<forall>i \<in> set active. ?sh i < remaining ! i - allocs ! i" by fastforce
      from given(3) [OF this] show ?thesis by (simp add: ps(2))
    qed (simp add: ac_def shorter_filter)
    with ps(1) \<open>0 < d\<close> res show ?thesis by (simp add: ac_def)
  qed
qed

subsection \<open>The loop\<close>

text \<open>For any number of passes nothing is overspent and no entry is overpaid.\<close>

lemma alloc_loop_bounds:
  assumes "alloc_ok weights remaining D pool allocs active"
  shows "length (alloc_loop weights remaining n pool allocs active) = length remaining \<and>
    sum_list (alloc_loop weights remaining n pool allocs active) \<le> D \<and>
    (\<forall>i < length remaining. 0 \<le> alloc_loop weights remaining n pool allocs active ! i \<and>
       alloc_loop weights remaining n pool allocs active ! i \<le> remaining ! i)"
  using assms
proof (induction n arbitrary: pool allocs active)
  case (Suc n)
  obtain p a ac where pass: "alloc_pass weights remaining pool allocs active = (p, a, ac)" by (rule prod_cases3)
  show ?case
  proof (cases "pool > 0 \<and> active \<noteq> []")
    case True
    with alloc_pass_ok [OF Suc.prems _ pass] have "alloc_ok weights remaining D p a ac" by blast
    from Suc.IH [OF this] True pass show ?thesis by simp
  next
    case False
    then have "alloc_loop weights remaining (Suc n) pool allocs active = allocs" by auto
    with Suc.prems show ?thesis by (auto simp: alloc_ok_def)
  qed
qed (auto simp: alloc_ok_def)

text \<open>Every pass spends something, so a pool of at most \<open>n\<close> stroops is spent in \<open>n\<close> passes.\<close>

lemma alloc_loop_small_pool:
  "alloc_ok weights remaining D pool allocs active \<Longrightarrow> pool \<le> int n \<Longrightarrow>
   sum_list (alloc_loop weights remaining n pool allocs active) = D"
proof (induction n arbitrary: pool allocs active)
  case (Suc n)
  obtain p a ac where pass: "alloc_pass weights remaining pool allocs active = (p, a, ac)" by (rule prod_cases3)
  show ?case
  proof (cases "pool > 0")
    case True
    with alloc_pass_ok [OF Suc.prems(1) _ pass] have "alloc_ok weights remaining D p a ac" "p < pool" by auto
    with Suc.IH [of p a ac] Suc.prems(2) True active_nonempty [OF Suc.prems(1)] pass show ?thesis by simp
  next
    case False
    then have "alloc_loop weights remaining (Suc n) pool allocs active = allocs" by simp
    with Suc.prems(1) False show ?thesis by (simp add: alloc_ok_def)
  qed
qed (simp add: alloc_ok_def)

text \<open>A pass that does not leave so small a pool fills an entry: twice the entries are enough passes.\<close>

lemma alloc_loop_exact:
  "alloc_ok weights remaining D pool allocs active \<Longrightarrow> length active \<le> m \<Longrightarrow> length active + m \<le> n \<Longrightarrow>
   sum_list (alloc_loop weights remaining n pool allocs active) = D"
proof (induction n arbitrary: pool allocs active)
  case (Suc n)
  obtain p a ac where pass: "alloc_pass weights remaining pool allocs active = (p, a, ac)" by (rule prod_cases3)
  show ?case
  proof (cases "pool > 0")
    case True
    have ne: "active \<noteq> []" by (rule active_nonempty [OF Suc.prems(1) True])
    from alloc_pass_ok [OF Suc.prems(1) True pass] have ok: "alloc_ok weights remaining D p a ac"
      and prog: "length ac \<le> length active" "length ac < length active \<or> p < int (length active)" by auto
    have "sum_list (alloc_loop weights remaining n p a ac) = D"
    proof (cases "p < int (length active)")
      case True
      with ok Suc.prems(2,3) ne show ?thesis by (intro alloc_loop_small_pool) (auto simp: Suc_le_eq [symmetric])
    next
      case False
      with prog Suc.prems(2,3) show ?thesis by (intro Suc.IH [OF ok]) auto
    qed
    with True ne pass show ?thesis by simp
  next
    case False
    then have "alloc_loop weights remaining (Suc n) pool allocs active = allocs" by simp
    with Suc.prems(1) False show ?thesis by (simp add: alloc_ok_def)
  qed
next
  case 0
  then have "active = []" by simp
  with active_nonempty [OF 0(1)] have "\<not> pool > 0" by blast
  with 0(1) show ?case by (simp add: alloc_ok_def)
qed

lemma alloc_ok_start:
  assumes "length weights = length remaining" "\<forall>w \<in> set weights. 0 \<le> w" "\<forall>r \<in> set remaining. 0 \<le> r"
    and "0 \<le> pool" "pool \<le> sum_list remaining"
  shows "alloc_ok weights remaining pool pool (map (\<lambda>_. 0) remaining)
    (filter (\<lambda>i. remaining ! i > 0) [0..<length remaining])"
  using assms by (auto simp: alloc_ok_def sum_list_0)

subsection \<open>Equal weights\<close>

text \<open>
  With equal weights the water level is the same everywhere: active entries stand at \<open>L\<close>, the
  others are full and at most that high.
\<close>

definition at_level :: "int list \<Rightarrow> int \<Rightarrow> int list \<Rightarrow> nat list \<Rightarrow> bool" where
  "at_level remaining L allocs active \<longleftrightarrow>
     (\<forall>i < length remaining. if i \<in> set active then allocs ! i = L else allocs ! i = remaining ! i \<and> remaining ! i \<le> L)"

text \<open>What the loop leaves behind: full entries, and others within one stroop of the level.\<close>

definition levelled :: "int list \<Rightarrow> int list \<Rightarrow> bool" where
  "levelled remaining allocs \<longleftrightarrow>
     (\<exists>L. \<forall>i < length remaining. allocs ! i \<le> L + 1 \<and> (allocs ! i < remaining ! i \<longrightarrow> L \<le> allocs ! i))"

lemma dust_loop_one:
  assumes "distinct (map fst lo)" "\<forall>(i, r) \<in> set lo. i < length allocs"
    and "dust_loop proRata weights remaining lo allocs pool = (allocs', pool')"
  shows "allocs' ! j = allocs ! j \<or> allocs' ! j = allocs ! j + 1 \<and> j \<in> fst ` set lo"
  using assms
proof (induction lo arbitrary: allocs pool)
  case (Cons e lo)
  obtain i r where e: "e = (i, r)" by (cases e)
  show ?case
  proof (cases "pool = 0 \<or> allocs ! i \<ge> remaining ! i \<or> proRata \<and> weights ! i = 0")
    case True
    have "allocs' = allocs \<or> dust_loop proRata weights remaining lo allocs pool = (allocs', pool')"
      using True Cons.prems(3) by (auto simp: e split: if_splits)
    with Cons.IH [of allocs pool] Cons.prems(1,2) show ?thesis by auto
  next
    case False
    then have "dust_loop proRata weights remaining lo (allocs[i := allocs ! i + 1]) (pool - 1) = (allocs', pool')"
      using Cons.prems(3) by (auto simp: e split: if_splits)
    moreover have "distinct (map fst lo)" "\<forall>(j, r) \<in> set lo. j < length (allocs[i := allocs ! i + 1])" "i < length allocs"
      "i \<notin> fst ` set lo"
      using Cons.prems(1,2) by (auto simp: e)
    ultimately show ?thesis using Cons.IH [of "allocs[i := allocs ! i + 1]" "pool - 1"]
      by (cases "j = i") (auto simp: e)
  qed
qed simp

lemma equal_shares_level:
  assumes ok: "alloc_ok weights remaining D pool allocs active" and pos: "0 < pool"
    and one: "\<forall>i < length remaining. weights ! i = 1" and lev: "at_level remaining L allocs active"
    and sl: "share_loop (pass_pr weights active) (pass_div weights active) weights remaining
      pool active allocs 0 [] = (al, d, lo)"
  shows "\<exists>L'. at_level remaining L' al (filter (\<lambda>i. al ! i < remaining ! i) active)"
proof -
  note ps = pass_shares [OF ok pos sl] and act = alloc_okD(4) [OF ok pos] and sh = pass_share [OF ok pos]
  let ?q = "pool div pass_div weights active"
  have "0 < pass_div weights active" by (rule pass_div_pos [OF active_nonempty [OF ok pos]])
  then have q: "0 \<le> ?q" using pos by (simp add: pos_imp_zdiv_nonneg_iff)
  have "sum_list (map ((!) weights) active) = sum_list (map (\<lambda>_. 1) active)"
    using one act by (intro sum_list_map_cong) auto
  then have "pass_pr weights active" using active_nonempty [OF ok pos] by (simp add: pass_pr_def sum_list_triv)
  then have num: "pass_num weights active pool i = pool" if "i \<in> set active" for i
    using that one act by (simp add: pass_num_def)
  have new: "al ! i = min (L + ?q) (remaining ! i)" if "i \<in> set active" for i
  proof -
    have "allocs ! i = L" using lev that act by (auto simp: at_level_def)
    with ps(4) [OF that] sh(1) [OF that] num [OF that] show ?thesis by (simp add: min_def)
  qed
  have "at_level remaining (L + ?q) al (filter (\<lambda>i. al ! i < remaining ! i) active)"
    unfolding at_level_def
  proof (intro allI impI)
    fix i assume i: "i < length remaining"
    have old: "al ! i = remaining ! i \<and> remaining ! i \<le> L" if "i \<notin> set active"
    proof -
      have "al ! i = allocs ! i"
        using share_loop_spec [OF alloc_okD(2) [OF ok pos] _ sl] alloc_okD(1) [OF ok pos] act i that by auto
      with lev i that show ?thesis by (auto simp: at_level_def)
    qed
    show "if i \<in> set (filter (\<lambda>i. al ! i < remaining ! i) active) then al ! i = L + ?q
      else al ! i = remaining ! i \<and> remaining ! i \<le> L + ?q"
      using old new [of i] q by (cases "i \<in> set active") (auto simp: min_def split: if_splits)
  qed
  then show ?thesis by blast
qed

lemma at_level_levelled: "at_level remaining L allocs active \<Longrightarrow> levelled remaining allocs"
  unfolding at_level_def levelled_def by (intro exI [of _ L]) (auto split: if_splits)

lemma equal_pass:
  assumes ok: "alloc_ok weights remaining D pool allocs active" and pos: "0 < pool"
    and one: "\<forall>i < length remaining. weights ! i = 1" and lev: "at_level remaining L allocs active"
    and pass: "alloc_pass weights remaining pool allocs active = (p, a, ac)"
  shows "(\<exists>L'. at_level remaining L' a ac) \<or> p = 0 \<and> levelled remaining a"
proof -
  obtain al d lo where sl: "share_loop (pass_pr weights active) (pass_div weights active) weights remaining
      pool active allocs 0 [] = (al, d, lo)" by (rule prod_cases3)
  note ps = pass_shares [OF ok pos sl] and act = alloc_okD(4) [OF ok pos]
  obtain L' where L': "at_level remaining L' al (filter (\<lambda>i. al ! i < remaining ! i) active)"
    using equal_shares_level [OF ok pos one lev sl] by blast
  obtain a2 p2 where du: "dust_loop (pass_pr weights active) weights remaining (js_sort leftover_cmp lo) al (pool - d) = (a2, p2)"
    by (rule prod.exhaust)
  have "(p, a, ac) = (if d > 0 \<or> pool - d = 0 \<or> filter (\<lambda>i. al ! i < remaining ! i) active = []
      then (pool - d, al, filter (\<lambda>i. al ! i < remaining ! i) active)
      else (p2, a2, filter (\<lambda>i. al ! i < remaining ! i) active))"
    using pass sl du unfolding alloc_pass_def foldl_sum
    by (simp add: pass_pr_def [symmetric] pass_div_def [symmetric] Let_def cong: if_cong)
  then consider (share) "a = al" "ac = filter (\<lambda>i. al ! i < remaining ! i) active" | (dust) "\<not> d > 0" "a = a2" "p = p2"
    by (auto split: if_splits)
  then show ?thesis
  proof cases
    case dust
    with pass_given(1) [OF ok pos] ps(2) have "d = 0" by simp
    note al = ps(5) [OF this]
    from \<open>d = 0\<close> du have du': "dust_loop (pass_pr weights active) weights remaining (js_sort leftover_cmp lo) allocs pool = (a2, p2)"
      by (simp add: al)
    have "distinct (map fst (js_sort leftover_cmp lo))"
      by (simp add: distinct_map_js_sort ps(3) alloc_okD(2) [OF ok pos])
    moreover have fsts: "fst ` set (js_sort leftover_cmp lo) = set active"
      using ps(3) by (metis image_set set_js_sort)
    moreover have "\<forall>(i, r) \<in> set (js_sort leftover_cmp lo). i < length allocs"
      using fsts act alloc_okD(1) [OF ok pos] by (metis case_prodI2 fst_conv image_eqI)
    ultimately have one_more: "a2 ! j = allocs ! j \<or> a2 ! j = allocs ! j + 1 \<and> j \<in> set active" for j
      using dust_loop_one [OF _ _ du'] by auto
    have "levelled remaining a2"
      unfolding levelled_def using lev one_more by (intro exI [of _ L]) (force simp: at_level_def split: if_splits)
    with dust pass_dust(2) [OF ok pos _ ps(3) du'] ps(2) \<open>d = 0\<close> show ?thesis by simp
  qed (use L' in blast)
qed

lemma equal_loop:
  "alloc_ok weights remaining D pool allocs active \<Longrightarrow> \<forall>i < length remaining. weights ! i = 1 \<Longrightarrow>
   at_level remaining L allocs active \<Longrightarrow> levelled remaining (alloc_loop weights remaining n pool allocs active)"
proof (induction n arbitrary: pool allocs active L)
  case (Suc n)
  obtain p a ac where pass: "alloc_pass weights remaining pool allocs active = (p, a, ac)" by (rule prod_cases3)
  show ?case
  proof (cases "pool > 0 \<and> active \<noteq> []")
    case True
    then have pos: "pool > 0" by simp
    have ok: "alloc_ok weights remaining D p a ac" using alloc_pass_ok [OF Suc.prems(1) pos pass] by blast
    have "levelled remaining (alloc_loop weights remaining n p a ac)"
      using equal_pass [OF Suc.prems(1) pos Suc.prems(2,3) pass]
    proof
      assume "\<exists>L'. at_level remaining L' a ac"
      with Suc.IH [OF ok Suc.prems(2)] show ?thesis by blast
    next
      assume "p = 0 \<and> levelled remaining a"
      then show ?thesis by (cases n) auto
    qed
    with True pass show ?thesis by simp
  next
    case False
    then have "alloc_loop weights remaining (Suc n) pool allocs active = allocs" by auto
    with at_level_levelled [OF Suc.prems(3)] show ?thesis by simp
  qed
qed (simp add: at_level_levelled)

subsection \<open>Inputs\<close>

lemma remaining_amounts_ok:
  "remaining_amounts opts f ids = Inr rs \<Longrightarrow> length rs = length ids \<and> (\<forall>r \<in> set rs. 0 \<le> r)"
  by (induction ids arbitrary: rs) (auto simp: rbind_Inr_iff)

lemma resolveRemaining_ok:
  "resolveRemainingAmounts deflt ids opts = Inr rs \<Longrightarrow> length rs = length ids \<and> (\<forall>r \<in> set rs. 0 \<le> r)"
  by (auto simp: resolveRemainingAmounts_def Let_def dest: remaining_amounts_ok)

lemma sum_weights_finite: "sum_weights fl tot ws = Inr s \<Longrightarrow> \<forall>w \<in> set ws. \<exists>q. w = Some q \<and> 0 \<le> q"
  by (induction fl tot ws rule: sum_weights.induct) (auto split: if_splits)

lemma proportional_weights_ok:
  "proportional_weights t rs = Inr ws \<Longrightarrow> \<forall>(r, k) \<in> set rs. 0 \<le> r \<Longrightarrow> length ws = length rs \<and> (\<forall>w \<in> set ws. 0 \<le> w)"
  by (induction t rs arbitrary: ws rule: proportional_weights.induct)
    (auto simp: rbind_Inr_iff sdiv_nonneg pos_imp_zdiv_nonneg_iff split: option.splits)

lemma resolveWeights_ok:
  assumes "resolveWeights fl strategy rs opts ids = Inr ws" "fl_ok fl" "length rs = length ids" "\<forall>r \<in> set rs. 0 \<le> r"
  shows "length ws = length rs \<and> (\<forall>w \<in> set ws. 0 \<le> w)"
proof -
  have pw: ?thesis if "proportional_weights (ao_targets opts) (zip rs ids) = Inr ws"
    using proportional_weights_ok [OF that] assms(3,4) by (auto dest: set_zip_leftD)
  have custom: ?thesis if cw: "resolveCustomWeights fl (ao_weights opts) (length ids) = Inr ws"
  proof -
    from cw obtain qs s where qs: "length qs = length ids" "sum_weights fl 0 qs = Inr s"
      and ws: "ws = map (\<lambda>w. js_round (fl (the w * 1000000))) qs"
      by (auto simp: resolveCustomWeights_def rbind_Inr_iff split: option.splits if_splits)
    have "0 \<le> js_round (fl (the w * 1000000))" if "w \<in> set qs" for w
      using that sum_weights_finite [OF qs(2)] by (auto intro!: js_round_nonneg fl_nonneg [OF assms(2)])
    with qs(1) ws assms(3) show ?thesis by auto
  qed
  show ?thesis using assms(1) pw custom by (cases strategy) (auto simp: resolveWeights_def)
qed

text \<open>A call that returns did so with these amounts, one of the shapes that the properties need.\<close>

lemma aggregate_cases:
  assumes "aggregatePayments fl deflt budget ids strategy opts = Inr out" "fl_ok fl"
    and "resolveRemainingAmounts deflt ids opts = Inr rs"
  obtains ws where "0 \<le> budget" "map pa_invoiceId out = ids"
    "map pa_amount out = allocateWithCaps ws rs (min budget (sum_list rs))"
    "alloc_ok ws rs (min budget (sum_list rs)) (min budget (sum_list rs)) (map (\<lambda>_. 0) rs)
       (filter (\<lambda>i. rs ! i > 0) [0..<length rs])"
    "strategy = Equal \<longrightarrow> (\<forall>i < length rs. ws ! i = 1)"
    "map pa_percentOfBudget out = map (\<lambda>a. of_int ((a * 10000) sdiv budget) / 100) (map pa_amount out)"
proof -
  note rs = resolveRemaining_ok [OF assms(3)]
  have b: "0 \<le> budget" using assms(1) by (auto simp: aggregatePayments_def rbind_Inr_iff split: if_splits)
  have tot: "0 \<le> sum_list rs" using rs by (intro sum_list_nonneg) auto
  let ?D = "if budget < sum_list rs then budget else sum_list rs"
  have D: "?D = min budget (sum_list rs)" by simp
  have none: "allocateWithCaps (replicate (length rs) 1) rs 0 = map (\<lambda>_. 0) rs"
    by (simp add: allocateWithCaps_def MAX_ALLOCATION_PASSES_def alloc_loop.simps(2) [where n = 1023, simplified])
  consider (zero) "?D = 0" "out = map (\<lambda>k. \<lparr>pa_invoiceId = k, pa_amount = 0, pa_percentOfBudget = 0\<rparr>) ids"
    | (alloc) ws where "?D \<noteq> 0" "resolveWeights fl strategy rs opts ids = Inr ws"
        "out = map (\<lambda>(k, i). \<lparr>pa_invoiceId = k, pa_amount = allocateWithCaps ws rs ?D ! i,
                 pa_percentOfBudget = of_int ((allocateWithCaps ws rs ?D ! i * 10000) sdiv budget) / 100\<rparr>)
               (zip ids [0..<length ids])"
    using assms(1,3) rs by (auto simp: aggregatePayments_def rbind_Inr_iff foldl_sum Let_def split: if_splits)
  then show ?thesis
  proof cases
    case zero
    have ok: "alloc_ok (replicate (length rs) 1) rs 0 0 (map (\<lambda>_. 0) rs) (filter (\<lambda>i. rs ! i > 0) [0..<length rs])"
      using rs tot by (intro alloc_ok_start) auto
    have "min budget (sum_list rs) = 0" using zero(1) D by simp
    then show ?thesis
      using that [of "replicate (length rs) 1"] b zero(2) ok none rs by (simp add: comp_def map_replicate_const)
  next
    case (alloc ws)
    note ws = resolveWeights_ok [OF alloc(2) assms(2)]
    have ok: "alloc_ok ws rs ?D ?D (map (\<lambda>_. 0) rs) (filter (\<lambda>i. rs ! i > 0) [0..<length rs])"
      using rs ws tot b by (intro alloc_ok_start) auto
    then have "length (allocateWithCaps ws rs ?D) = length ids"
      using alloc_loop_bounds [OF ok] rs by (simp add: allocateWithCaps_def)
    then have "map pa_amount out = allocateWithCaps ws rs ?D" "map pa_invoiceId out = ids"
      unfolding alloc(3) by (auto intro!: nth_equalityI)
    moreover have "map pa_percentOfBudget out = map (\<lambda>a. of_int ((a * 10000) sdiv budget) / 100) (map pa_amount out)"
      unfolding alloc(3) by (auto simp: case_prod_beta)
    moreover have "strategy = Equal \<longrightarrow> (\<forall>i < length rs. ws ! i = 1)"
      using alloc(2) by (auto simp: resolveWeights_def)
    ultimately show ?thesis using that [of ws] b ok unfolding D by blast
  qed
qed

section \<open>Properties\<close>

definition amounts_of :: "payment_allocation list \<Rightarrow> int list" where
  "amounts_of out = map pa_amount out"

text \<open>
  For every strategy, every fetcher and every number of invoices, the allocations answer the
  invoices in order, none is negative or above what its invoice still needs, and together they do
  not exceed the budget.
\<close>

theorem allocations_never_overspend:
  assumes "aggregatePayments fl deflt budget ids strategy opts = Inr out" "fl_ok fl"
    and "resolveRemainingAmounts deflt ids opts = Inr remaining"
  shows "map pa_invoiceId out = ids \<and> sum_list (amounts_of out) \<le> budget \<and>
    list_all2 (\<lambda>a r. 0 \<le> a \<and> a \<le> r) (amounts_of out) remaining"
proof -
  obtain ws where w: "map pa_invoiceId out = ids" "amounts_of out = allocateWithCaps ws remaining (min budget (sum_list remaining))"
    and ok: "alloc_ok ws remaining (min budget (sum_list remaining)) (min budget (sum_list remaining)) (map (\<lambda>_. 0) remaining)
       (filter (\<lambda>i. remaining ! i > 0) [0..<length remaining])"
    by (rule aggregate_cases [OF assms]) (simp add: amounts_of_def)
  from alloc_loop_bounds [OF ok, of MAX_ALLOCATION_PASSES] show ?thesis
    by (auto simp: w allocateWithCaps_def list_all2_conv_all_nth)
qed

definition sample_options :: aggregate_options where
  "sample_options = \<lparr>ao_weights = Some [Some 99, Some 1, Some 0],
     ao_remaining = Some (LRecord [(''1'', AmtBig 40), (''2'', AmtNum (Some 100)), (''3'', AmtBig 7)]),
     ao_targets = None, ao_fetchRemaining = None, ao_invoiceSource = None\<rparr>"

lemma sample_remaining: "resolveRemainingAmounts None [1, 2, 3] sample_options = Inr [40, 100, 7]"
  by code_simp

lemma fl_ok_id: "fl_ok (\<lambda>x. x)"
  by (simp add: fl_ok_def mono_def)

theorem allocations_never_overspend_witness:
  "\<exists>out. aggregatePayments (\<lambda>x. x) None 100 [1, 2, 3] Custom sample_options = Inr out \<and> sum_list (amounts_of out) \<le> 100"
proof -
  have "\<not> (case aggregatePayments (\<lambda>x. x) None 100 [1, 2, 3] Custom sample_options of Inl _ \<Rightarrow> True | Inr _ \<Rightarrow> False)"
    by code_simp
  then obtain out where out: "aggregatePayments (\<lambda>x. x) None 100 [1, 2, 3] Custom sample_options = Inr out"
    by (auto split: sum.splits)
  from allocations_never_overspend [OF out fl_ok_id sample_remaining] out show ?thesis by blast
qed

text \<open>
  C1: For up to 512 invoices the guard against endless passes is never reached: the allocations
  sum to exactly the smaller of the budget and the total still needed.
\<close>

theorem allocations_sum_exactly:
  assumes "aggregatePayments fl deflt budget ids strategy opts = Inr out" "fl_ok fl"
    and "resolveRemainingAmounts deflt ids opts = Inr remaining" "length ids \<le> 512"
  shows "sum_list (amounts_of out) = min budget (sum_list remaining)"
proof -
  obtain ws where w: "amounts_of out = allocateWithCaps ws remaining (min budget (sum_list remaining))"
    and ok: "alloc_ok ws remaining (min budget (sum_list remaining)) (min budget (sum_list remaining)) (map (\<lambda>_. 0) remaining)
       (filter (\<lambda>i. remaining ! i > 0) [0..<length remaining])"
    by (rule aggregate_cases [OF assms(1-3)]) (simp add: amounts_of_def)
  have "length (filter (\<lambda>i. remaining ! i > 0) [0..<length remaining]) \<le> 512"
    using assms(4) resolveRemaining_ok [OF assms(3)] by (auto intro: le_trans [OF length_filter_le])
  from alloc_loop_exact [OF ok this] this show ?thesis
    by (simp add: w allocateWithCaps_def MAX_ALLOCATION_PASSES_def)
qed

theorem allocations_sum_exactly_witness:
  "\<exists>out. aggregatePayments (\<lambda>x. x) None 100 [1, 2, 3] Custom sample_options = Inr out \<and> sum_list (amounts_of out) = 100"
proof -
  have "\<not> (case aggregatePayments (\<lambda>x. x) None 100 [1, 2, 3] Custom sample_options of Inl _ \<Rightarrow> True | Inr _ \<Rightarrow> False)"
    by code_simp
  then obtain out where out: "aggregatePayments (\<lambda>x. x) None 100 [1, 2, 3] Custom sample_options = Inr out"
    by (auto split: sum.splits)
  from allocations_sum_exactly [OF out fl_ok_id sample_remaining] out show ?thesis by simp
qed

text \<open>
  The equal strategy is fair: no invoice gets more than one stroop above another one that
  still needs money.
\<close>

theorem equal_allocations_fair:
  assumes "aggregatePayments fl deflt budget ids Equal opts = Inr out" "fl_ok fl"
    and "resolveRemainingAmounts deflt ids opts = Inr remaining"
    and "i < length ids" "j < length ids" "amounts_of out ! j < remaining ! j"
  shows "amounts_of out ! i \<le> amounts_of out ! j + 1"
proof -
  obtain ws where w: "amounts_of out = allocateWithCaps ws remaining (min budget (sum_list remaining))"
    and ok: "alloc_ok ws remaining (min budget (sum_list remaining)) (min budget (sum_list remaining)) (map (\<lambda>_. 0) remaining)
       (filter (\<lambda>i. remaining ! i > 0) [0..<length remaining])" and one: "\<forall>i < length remaining. ws ! i = 1"
    by (rule aggregate_cases [OF assms(1-3)]) (simp add: amounts_of_def)
  have "at_level remaining 0 (map (\<lambda>_. 0) remaining) (filter (\<lambda>i. remaining ! i > 0) [0..<length remaining])"
    using resolveRemaining_ok [OF assms(3)] by (auto simp: at_level_def not_less) (metis nth_mem order_antisym)+
  from equal_loop [OF ok one this] have "levelled remaining (amounts_of out)" by (simp add: w allocateWithCaps_def)
  then obtain L where L: "\<forall>k < length remaining. amounts_of out ! k \<le> L + 1 \<and>
      (amounts_of out ! k < remaining ! k \<longrightarrow> L \<le> amounts_of out ! k)" by (auto simp: levelled_def)
  have "length remaining = length ids" using resolveRemaining_ok [OF assms(3)] by simp
  with L [rule_format, of i] L [rule_format, of j] assms(4-6) show ?thesis by simp
qed

theorem equal_allocations_fair_witness:
  "\<exists>out. aggregatePayments (\<lambda>x. x) None 60 [1, 2, 3] Equal sample_options = Inr out \<and>
     amounts_of out ! 0 \<le> amounts_of out ! 1 + 1 \<and> amounts_of out = [27, 26, 7]"
proof -
  have "case aggregatePayments (\<lambda>x. x) None 60 [1, 2, 3] Equal sample_options of Inl _ \<Rightarrow> False | Inr a \<Rightarrow> amounts_of a = [27, 26, 7]"
    by code_simp
  then obtain out where out: "aggregatePayments (\<lambda>x. x) None 60 [1, 2, 3] Equal sample_options = Inr out" "amounts_of out = [27, 26, 7]"
    by (auto split: sum.splits)
  from equal_allocations_fair [OF out(1) fl_ok_id sample_remaining, of 0 1] out show ?thesis by simp
qed

end
