(* ===== verification/Amm.thy ===== *)
theory Amm
  imports Prelude
begin

text \<open>
  Constant-product pools: \<open>src/ammCalculator.ts\<close>. Amounts travel as decimal strings of stroops and
  are converted with \<open>BigInt\<close>; prices are strings with a fixed number of decimals. \<open>fl\<close> rounds the
  one floating-point product, that of the limit on the input.
\<close>

section \<open>Data\<close>

record reserve =
  rs_asset :: string
  rs_amount :: string

datatype liquidity_reason = TooFewReserves | AssetNotInPool string | ZeroReserves | ZeroShares | InputTooLarge rat

datatype amm_error =
    InsufficientLiquidity liquidity_reason string string \<comment> \<open>available, requested\<close>
  | NotABigInt string
  | SlippageRange rat

record swap_estimate =
  se_outputAmount :: string
  se_priceImpactPercent :: string
  se_inputAsset :: string
  se_outputAsset :: string
  se_effectivePrice :: string
  se_spotPrice :: string

record pool_share =
  ps_shareOfAssetA :: string
  ps_shareOfAssetB :: string
  ps_assetA :: string
  ps_assetB :: string
  ps_totalShares :: string
  ps_sharesOwned :: string
  ps_ownershipPercent :: string

text \<open>A deposit or a withdrawal: the amounts of both assets and the shares minted or burned.\<close>

record liquidity_estimate =
  le_amountA :: string
  le_amountB :: string
  le_shares :: string
  le_assetA :: string
  le_assetB :: string

definition big_int :: "string \<Rightarrow> amm_error + int" where
  "big_int s = (case big_int_of s of None \<Rightarrow> Inl (NotABigInt s) | Some n \<Rightarrow> Inr n)"

section \<open>Decimal strings\<close>

definition formatScaled :: "int \<Rightarrow> nat \<Rightarrow> string" where
  "formatScaled value decimals =
     (let negative = value < 0;
          a = (if negative then - value else value);
          factor = 10 ^ decimals;
          whole = a sdiv factor;
          frac = a smod factor;
          fracStr = pad_start decimals (show_int frac);
          result = (if decimals > 0 then show_int whole @ ''.'' @ fracStr else show_int whole)
      in if negative then ''-'' @ result else result)"

text \<open>The first two parts of \<open>split(".")\<close>, with the default for the second.\<close>

definition split_dot :: "string \<Rightarrow> string \<times> string" where
  "split_dot s =
     (takeWhile (\<lambda>c. c \<noteq> CHR ''.'') s,
      takeWhile (\<lambda>c. c \<noteq> CHR ''.'') (drop 1 (dropWhile (\<lambda>c. c \<noteq> CHR ''.'') s)))"

definition pad_end_slice :: "nat \<Rightarrow> string \<Rightarrow> string" where
  "pad_end_slice n s = take n (s @ replicate (n - length s) CHR ''0'')"

definition parseScaled :: "string \<Rightarrow> nat \<Rightarrow> amm_error + int" where
  "parseScaled value decimals =
     (let negative = (value \<noteq> [] \<and> hd value = CHR ''-'');
          clean = (if negative then drop 1 value else value);
          (whole, frac) = split_dot clean;
          fracPadded = pad_end_slice decimals frac
      in rbind (big_int (if whole = [] then ''0'' else whole)) (\<lambda>w.
         rbind (big_int (if fracPadded = [] then ''0'' else fracPadded)) (\<lambda>f.
           let scaled = w * 10 ^ decimals + f in Inr (if negative then - scaled else scaled))))"

definition computeSpotPrice :: "int \<Rightarrow> int \<Rightarrow> string" where
  "computeSpotPrice reserveIn reserveOut =
     (if reserveIn \<le> 0 then ''0'' else formatScaled ((reserveOut * 10000000) sdiv reserveIn) 7)"

definition computeEffectivePrice :: "int \<Rightarrow> int \<Rightarrow> string" where
  "computeEffectivePrice outputAmount inputAmount =
     (if inputAmount \<le> 0 then ''0'' else formatScaled ((outputAmount * 10000000) sdiv inputAmount) 7)"

definition computePriceImpact :: "string \<Rightarrow> string \<Rightarrow> amm_error + string" where
  "computePriceImpact spotPrice effectivePrice =
     rbind (parseScaled spotPrice 7) (\<lambda>spot.
     rbind (parseScaled effectivePrice 7) (\<lambda>effective.
       if spot \<le> 0 then Inr ''0.00''
       else let diff = spot - effective
            in if diff \<le> 0 then Inr ''0.00''
               else Inr (formatScaled ((diff * 10000) sdiv spot) 2)))"

definition computeOwnershipPercent :: "int \<Rightarrow> int \<Rightarrow> string" where
  "computeOwnershipPercent owned totalShares =
     (if totalShares \<le> 0 then ''0.00'' else formatScaled ((owned * 10000) sdiv totalShares) 2)"

definition ratioExceedsLimit :: "(rat \<Rightarrow> rat) \<Rightarrow> int \<Rightarrow> int \<Rightarrow> rat \<Rightarrow> bool" where
  "ratioExceedsLimit fl amountIn reserveIn maxRatio =
     (if reserveIn \<le> 0 then True
      else amountIn * 1000000 > reserveIn * js_round (fl (maxRatio * 1000000)))"

section \<open>Swaps\<close>

definition estimateSwapOutput ::
    "(rat \<Rightarrow> rat) \<Rightarrow> reserve list \<Rightarrow> string \<Rightarrow> string \<Rightarrow> rat \<Rightarrow> amm_error + swap_estimate" where
  "estimateSwapOutput fl reserves inputAmount inputAsset maxRatio =
     (if length reserves < 2 then Inl (InsufficientLiquidity TooFewReserves ''0'' inputAmount)
      else case (find (\<lambda>r. rs_asset r = inputAsset) reserves, find (\<lambda>r. rs_asset r \<noteq> inputAsset) reserves) of
        (Some inputReserve, Some outputReserve) \<Rightarrow>
          rbind (big_int (rs_amount inputReserve)) (\<lambda>reserveIn.
          rbind (big_int (rs_amount outputReserve)) (\<lambda>reserveOut.
          rbind (big_int inputAmount) (\<lambda>amountIn.
            if reserveIn \<le> 0 \<or> reserveOut \<le> 0 then Inl (InsufficientLiquidity ZeroReserves ''0'' inputAmount)
            else if amountIn \<le> 0 then
              Inr \<lparr>se_outputAmount = ''0'', se_priceImpactPercent = ''0.00'', se_inputAsset = inputAsset,
                   se_outputAsset = rs_asset outputReserve, se_effectivePrice = ''0'',
                   se_spotPrice = computeSpotPrice reserveIn reserveOut\<rparr>
            else if ratioExceedsLimit fl amountIn reserveIn maxRatio then
              Inl (InsufficientLiquidity (InputTooLarge maxRatio) (rs_amount inputReserve) inputAmount)
            else
              let k = reserveIn * reserveOut;
                  newReserveIn = reserveIn + amountIn;
                  newReserveOut = k sdiv newReserveIn;
                  outputAmount = reserveOut - newReserveOut;
                  spotPrice = computeSpotPrice reserveIn reserveOut;
                  effectivePrice = computeEffectivePrice outputAmount amountIn
              in rbind (computePriceImpact spotPrice effectivePrice) (\<lambda>impact.
                Inr \<lparr>se_outputAmount = show_int outputAmount, se_priceImpactPercent = impact,
                     se_inputAsset = inputAsset, se_outputAsset = rs_asset outputReserve,
                     se_effectivePrice = effectivePrice, se_spotPrice = spotPrice\<rparr>))))
      | _ \<Rightarrow> Inl (InsufficientLiquidity (AssetNotInPool inputAsset) ''0'' inputAmount))"

definition DEFAULT_MAX_INPUT_RATIO :: rat where
  "DEFAULT_MAX_INPUT_RATIO = 3 / 10"

section \<open>Shares\<close>

definition calculatePoolShare :: "reserve list \<Rightarrow> string \<Rightarrow> string \<Rightarrow> amm_error + pool_share" where
  "calculatePoolShare reserves totalShares0 sharesOwned =
     (if length reserves < 2 then Inl (InsufficientLiquidity TooFewReserves ''0'' ''0'')
      else
        rbind (big_int totalShares0) (\<lambda>totalShares.
        rbind (big_int sharesOwned) (\<lambda>owned.
          if totalShares \<le> 0 then Inl (InsufficientLiquidity ZeroShares ''0'' ''0'')
          else
            let reserve0 = reserves ! 0; reserve1 = reserves ! 1
            in if owned \<le> 0 then
                 Inr \<lparr>ps_shareOfAssetA = ''0'', ps_shareOfAssetB = ''0'', ps_assetA = rs_asset reserve0,
                      ps_assetB = rs_asset reserve1, ps_totalShares = show_int totalShares,
                      ps_sharesOwned = ''0'', ps_ownershipPercent = ''0.00''\<rparr>
               else
                 rbind (big_int (rs_amount reserve0)) (\<lambda>reserveA.
                 rbind (big_int (rs_amount reserve1)) (\<lambda>reserveB.
                   Inr \<lparr>ps_shareOfAssetA = show_int ((reserveA * owned) sdiv totalShares),
                        ps_shareOfAssetB = show_int ((reserveB * owned) sdiv totalShares),
                        ps_assetA = rs_asset reserve0, ps_assetB = rs_asset reserve1,
                        ps_totalShares = show_int totalShares, ps_sharesOwned = show_int owned,
                        ps_ownershipPercent = computeOwnershipPercent owned totalShares\<rparr>)))))"

text \<open>
  \<open>calculateDeposit\<close> and \<open>calculateWithdraw\<close> have the same body up to the names of the fields.
\<close>

definition pro_rata_amounts :: "reserve list \<Rightarrow> string \<Rightarrow> string \<Rightarrow> amm_error + liquidity_estimate" where
  "pro_rata_amounts reserves totalShares0 shares0 =
     (if length reserves < 2 then Inl (InsufficientLiquidity TooFewReserves ''0'' shares0)
      else
        rbind (big_int totalShares0) (\<lambda>totalShares.
        rbind (big_int shares0) (\<lambda>shares.
          if totalShares \<le> 0 then Inl (InsufficientLiquidity ZeroShares ''0'' shares0)
          else
            let reserve0 = reserves ! 0; reserve1 = reserves ! 1
            in rbind (big_int (rs_amount reserve0)) (\<lambda>reserveA.
               rbind (big_int (rs_amount reserve1)) (\<lambda>reserveB.
                 if shares \<le> 0 then
                   Inr \<lparr>le_amountA = ''0'', le_amountB = ''0'', le_shares = ''0'',
                        le_assetA = rs_asset reserve0, le_assetB = rs_asset reserve1\<rparr>
                 else
                   Inr \<lparr>le_amountA = show_int ((reserveA * shares) sdiv totalShares),
                        le_amountB = show_int ((reserveB * shares) sdiv totalShares),
                        le_shares = show_int shares,
                        le_assetA = rs_asset reserve0, le_assetB = rs_asset reserve1\<rparr>)))))"

definition calculateDeposit :: "reserve list \<Rightarrow> string \<Rightarrow> string \<Rightarrow> amm_error + liquidity_estimate" where
  "calculateDeposit reserves totalShares sharesToMint = pro_rata_amounts reserves totalShares sharesToMint"

definition calculateWithdraw :: "reserve list \<Rightarrow> string \<Rightarrow> string \<Rightarrow> amm_error + liquidity_estimate" where
  "calculateWithdraw reserves totalShares sharesToBurn = pro_rata_amounts reserves totalShares sharesToBurn"

definition calculateMinimumOutput :: "string \<Rightarrow> rat \<Rightarrow> amm_error + string" where
  "calculateMinimumOutput expectedOutput slippageBps =
     (if slippageBps < 0 \<or> slippageBps > 10000 then Inl (SlippageRange slippageBps)
      else rbind (big_int expectedOutput) (\<lambda>expected.
        if expected \<le> 0 then Inr ''0''
        else Inr (show_int ((expected * (10000 - \<lfloor>slippageBps\<rfloor>)) sdiv 10000))))"

section \<open>Routing\<close>

record routing_pool =
  rp_id :: string
  rp_reserves :: "reserve list"

record route_hop =
  rh_poolId :: string
  rh_inputAsset :: string
  rh_outputAsset :: string
  rh_inputAmount :: string
  rh_outputAmount :: string
  rh_priceImpactPercent :: string

record swap_route =
  sr_hops :: "route_hop list"
  sr_inputAsset :: string
  sr_outputAsset :: string
  sr_inputAmount :: string
  sr_outputAmount :: string
  sr_totalPriceImpactPercent :: string

definition route_of :: "routing_pool \<Rightarrow> string \<Rightarrow> string \<Rightarrow> string \<Rightarrow> swap_estimate \<Rightarrow> swap_route" where
  "route_of pool inputAsset outputAsset inputAmount e =
     \<lparr>sr_hops = [\<lparr>rh_poolId = rp_id pool, rh_inputAsset = inputAsset, rh_outputAsset = outputAsset,
                 rh_inputAmount = inputAmount, rh_outputAmount = se_outputAmount e,
                 rh_priceImpactPercent = se_priceImpactPercent e\<rparr>],
      sr_inputAsset = inputAsset, sr_outputAsset = outputAsset, sr_inputAmount = inputAmount,
      sr_outputAmount = se_outputAmount e, sr_totalPriceImpactPercent = se_priceImpactPercent e\<rparr>"

text \<open>
  What a pool offers, \<open>None\<close> where the loop continues with the next pool. The two conversions of
  output amounts are of strings the module printed itself.
\<close>

definition pool_offer :: "(rat \<Rightarrow> rat) \<Rightarrow> string \<Rightarrow> string \<Rightarrow> string \<Rightarrow> routing_pool \<Rightarrow> (int \<times> swap_route) option" where
  "pool_offer fl inputAsset outputAsset inputAmount pool =
     (if \<not> (\<exists>r \<in> set (rp_reserves pool). rs_asset r = inputAsset) \<or>
         \<not> (\<exists>r \<in> set (rp_reserves pool). rs_asset r = outputAsset) then None
      else case estimateSwapOutput fl (rp_reserves pool) inputAmount inputAsset DEFAULT_MAX_INPUT_RATIO of
        Inl _ \<Rightarrow> None
      | Inr e \<Rightarrow>
          (case big_int_of (se_outputAmount e) of
             None \<Rightarrow> None
           | Some out \<Rightarrow> if out \<le> 0 then None else Some (out, route_of pool inputAsset outputAsset inputAmount e)))"

fun best_route ::
    "(rat \<Rightarrow> rat) \<Rightarrow> string \<Rightarrow> string \<Rightarrow> string \<Rightarrow> (int \<times> swap_route) option \<Rightarrow> routing_pool list \<Rightarrow> (int \<times> swap_route) option" where
  "best_route fl i outp amt best [] = best"
| "best_route fl i outp amt best (p # ps) =
     (case pool_offer fl i outp amt p of
        None \<Rightarrow> best_route fl i outp amt best ps
      | Some (v, r) \<Rightarrow>
          best_route fl i outp amt
            (case best of None \<Rightarrow> Some (v, r) | Some (bv, br) \<Rightarrow> if v > bv then Some (v, r) else Some (bv, br)) ps)"

definition findBestRoute ::
    "(rat \<Rightarrow> rat) \<Rightarrow> routing_pool list \<Rightarrow> string \<Rightarrow> string \<Rightarrow> string \<Rightarrow> swap_route option" where
  "findBestRoute fl pools inputAsset outputAsset inputAmount =
     (if inputAsset = outputAsset then None
      else map_option snd (best_route fl inputAsset outputAsset inputAmount None pools))"

section \<open>Monitoring\<close>

record pool_snapshot =
  sn_poolId :: string
  sn_reserves :: "(string \<times> string) list"
  sn_totalShares :: string
  sn_spotPrice :: string
  sn_drained :: bool

definition buildPoolHealthSnapshot :: "string \<Rightarrow> reserve list \<Rightarrow> string \<Rightarrow> amm_error + pool_snapshot" where
  "buildPoolHealthSnapshot poolId rs totalShares =
     (let reserves = foldl (\<lambda>m r. AList.update (rs_asset r) (rs_amount r) m) [] rs;
          snap = (\<lambda>price drained. \<lparr>sn_poolId = poolId, sn_reserves = reserves, sn_totalShares = totalShares,
                                   sn_spotPrice = price, sn_drained = drained\<rparr>)
      in if length rs < 2 then Inr (snap ''0'' True)
         else
           rbind (big_int (rs_amount (rs ! 0))) (\<lambda>reserveA.
           rbind (big_int (rs_amount (rs ! 1))) (\<lambda>reserveB.
             if reserveA \<le> 0 \<or> reserveB \<le> 0 then Inr (snap ''0'' True)
             else Inr (snap (computeSpotPrice reserveA reserveB) False))))"

section \<open>Lemmas\<close>

lemma big_int_Inr: "big_int s = Inr n \<longleftrightarrow> big_int_of s = Some n"
  by (simp add: big_int_def split: option.splits)

lemma split_dot_plain:
  assumes "CHR ''.'' \<notin> set w" shows "split_dot w = (w, [])"
proof -
  have all: "\<forall>c \<in> set w. c \<noteq> CHR ''.''" using assms by auto
  have "takeWhile (\<lambda>c. c \<noteq> CHR ''.'') w = w" unfolding takeWhile_eq_all_conv by (rule all)
  moreover have "dropWhile (\<lambda>c. c \<noteq> CHR ''.'') w = []" unfolding dropWhile_eq_Nil_conv by (rule all)
  ultimately show ?thesis by (simp only: split_dot_def drop_Nil takeWhile.simps)
qed

lemma split_dot_two:
  assumes "CHR ''.'' \<notin> set w" "CHR ''.'' \<notin> set f" shows "split_dot (w @ ''.'' @ f) = (w, f)"
proof -
  let ?P = "\<lambda>c. c \<noteq> CHR ''.''"
  have all: "?P c" if "c \<in> set w" for c using that assms(1) by auto
  have "takeWhile ?P (w @ ''.'' @ f) = w" using all by (subst takeWhile_append2) auto
  moreover have "dropWhile ?P (w @ ''.'' @ f) = ''.'' @ f" using all by (subst dropWhile_append2) auto
  moreover have "takeWhile ?P f = f" using assms(2) by (auto simp: takeWhile_eq_all_conv)
  ultimately show ?thesis by (simp add: split_dot_def)
qed

lemma digits_no_dot: "\<forall>c \<in> set s. is_digit c \<Longrightarrow> CHR ''.'' \<notin> set s"
  by (auto simp: is_digit_def)

lemma digits_head: "\<forall>c \<in> set s. is_digit c \<Longrightarrow> s \<noteq> [] \<Longrightarrow> hd s \<noteq> CHR ''-''"
  using dash_not_digit by (cases s) auto

text \<open>Reading back the digits before and after the point.\<close>

lemma parse_unsigned:
  assumes "d > 0" "f < 10 ^ d"
  shows "parseScaled (show_nat w @ ''.'' @ pad_start d (show_nat f)) d = Inr (int w * 10 ^ d + int f)"
proof -
  let ?f = "pad_start d (show_nat f)"
  have df: "\<forall>c \<in> set ?f. is_digit c" by (rule pad_start_digits [OF show_nat_digits])
  have len: "length ?f = d" by (rule length_pad_start [OF show_nat_length [OF assms(2,1)]])
  have "hd (show_nat w @ ''.'' @ ?f) \<noteq> CHR ''-''"
    using digits_head [OF show_nat_digits show_nat_ne, of w] show_nat_ne [of w] by (cases "show_nat w") auto
  moreover have "split_dot (show_nat w @ ''.'' @ ?f) = (show_nat w, ?f)"
    by (rule split_dot_two [OF digits_no_dot [OF show_nat_digits] digits_no_dot [OF df]])
  moreover have "pad_end_slice d ?f = ?f" using len by (simp add: pad_end_slice_def)
  moreover have "?f \<noteq> []" using len assms(1) by auto
  ultimately show ?thesis
    using show_nat_ne [of w] big_int_digits [OF df] big_int_digits [OF show_nat_digits, of w]
    by (simp add: parseScaled_def big_int_def)
qed

lemma parse_whole: "parseScaled (show_nat w) 0 = Inr (int w)"
proof -
  have "hd (show_nat w) \<noteq> CHR ''-''" by (rule digits_head [OF show_nat_digits show_nat_ne])
  moreover have "big_int_of ''0'' = Some 0" by code_simp
  ultimately show ?thesis
    using show_nat_ne [of w] big_int_digits [OF show_nat_digits, of w]
      split_dot_plain [OF digits_no_dot [OF show_nat_digits], of w]
    by (simp add: parseScaled_def big_int_def pad_end_slice_def)
qed

lemma format_nonneg:
  assumes "0 \<le> v"
  shows "formatScaled v d = (if d > 0 then show_nat (nat v div 10 ^ d) @ ''.'' @ pad_start d (show_nat (nat v mod 10 ^ d))
    else show_nat (nat v))"
proof -
  have "v sdiv 10 ^ d = int (nat v div 10 ^ d)" "v smod 10 ^ d = int (nat v mod 10 ^ d)"
    using assms by (simp_all add: sdiv_nonneg smod_nonneg zdiv_int zmod_int)
  then show ?thesis using assms by (simp add: formatScaled_def Let_def show_int_def)
qed

lemma parse_format_nonneg: "0 \<le> v \<Longrightarrow> parseScaled (formatScaled v d) d = Inr v"
proof (cases "d > 0")
  case True
  assume v: "0 \<le> v"
  have "int (nat v div 10 ^ d * 10 ^ d + nat v mod 10 ^ d) = int (nat v)" by (simp only: div_mult_mod_eq)
  then have "int (nat v div 10 ^ d) * 10 ^ d + int (nat v mod 10 ^ d) = v" using v by simp
  moreover have "nat v mod 10 ^ d < 10 ^ d" by simp
  ultimately show ?thesis
    using v True parse_unsigned [OF True, of "nat v mod 10 ^ d" "nat v div 10 ^ d"] by (simp only: format_nonneg if_True)
qed (simp add: format_nonneg parse_whole)

lemma format_neg: "v < 0 \<Longrightarrow> formatScaled v d = CHR ''-'' # formatScaled (- v) d"
  by (simp add: formatScaled_def Let_def)

lemma parse_neg: "parseScaled s d = Inr n \<Longrightarrow> (s = [] \<or> hd s \<noteq> CHR ''-'') \<Longrightarrow> parseScaled (CHR ''-'' # s) d = Inr (- n)"
  by (auto simp: parseScaled_def Let_def rbind_Inr_iff split: prod.splits if_splits)

lemma format_nonneg_head: "0 \<le> v \<Longrightarrow> hd (formatScaled v d) \<noteq> CHR ''-''"
proof -
  have h: "hd (show_nat n @ t) \<noteq> CHR ''-''" for n t
    using digits_head [OF show_nat_digits show_nat_ne, of n] show_nat_ne [of n] by (cases "show_nat n") auto
  show "0 \<le> v \<Longrightarrow> ?thesis" using h [of _ "[]"] h by (simp add: format_nonneg)
qed

text \<open>The output of a swap, over the numbers.\<close>

lemma ceiling_output:
  assumes "0 < x" "0 < y" "0 < (a::int)"
  shows "y - (x * y) sdiv (x + a) = (y * a) div (x + a) + (if (x + a) dvd y * a then 0 else 1)"
proof -
  have "(x * y) sdiv (x + a) = (x * y) div (x + a)" using assms by (intro sdiv_nonneg) auto
  also have "\<dots> = (- (y * a) + y * (x + a)) div (x + a)" by (simp add: algebra_simps)
  also have "\<dots> = y + (- (y * a)) div (x + a)" using assms by (subst div_mult_self1) auto
  finally show ?thesis using assms by (simp only: zdiv_zminus1_eq_if dvd_eq_mod_eq_0) simp
qed

lemma swap_shape:
  assumes "estimateSwapOutput fl reserves amt inA mr = Inr e"
  obtains ri ro x y a where "find (\<lambda>r. rs_asset r = inA) reserves = Some ri" "find (\<lambda>r. rs_asset r \<noteq> inA) reserves = Some ro"
    "big_int_of (rs_amount ri) = Some x" "big_int_of (rs_amount ro) = Some y" "big_int_of amt = Some a" "0 < x" "0 < y"
    "se_outputAsset e = rs_asset ro" "se_inputAsset e = inA"
    "se_outputAmount e = (if a \<le> 0 then ''0'' else show_int (y - (x * y) sdiv (x + a)))"
    "0 < a \<Longrightarrow> \<not> ratioExceedsLimit fl a x mr"
  using assms by (auto simp: estimateSwapOutput_def rbind_Inr_iff big_int_Inr Let_def split: if_splits option.splits)

lemma best_route_mono: "best_route fl i out amt (Some (v, r)) ps = Some (w, r') \<Longrightarrow> v \<le> w"
  by (induction ps arbitrary: v r) (fastforce split: option.splits if_splits)+

lemma best_route_ge:
  "best_route fl i out amt b ps = Some (w, r') \<Longrightarrow> p \<in> set ps \<Longrightarrow> pool_offer fl i out amt p = Some (v, r) \<Longrightarrow> v \<le> w"
proof (induction ps arbitrary: b)
  case (Cons q qs)
  show ?case
  proof (cases "p = q")
    case True
    show ?thesis
    proof (cases b)
      case None
      with Cons.prems True have "best_route fl i out amt (Some (v, r)) qs = Some (w, r')" by simp
      then show ?thesis by (rule best_route_mono)
    next
      case (Some c)
      obtain bv br where c: "c = (bv, br)" by (cases c)
      from Cons.prems True Some c have "best_route fl i out amt (if v > bv then Some (v, r) else Some (bv, br)) qs = Some (w, r')"
        by simp
      then show ?thesis by (cases "v > bv") (auto dest: best_route_mono)
    qed
  next
    case False
    with Cons.prems have "p \<in> set qs" by simp
    with Cons.IH Cons.prems(1,3) show ?thesis by (auto split: option.splits)
  qed
qed simp

lemma best_route_from:
  "best_route fl i out amt b ps = Some (w, r) \<Longrightarrow> b = Some (w, r) \<or> (\<exists>p \<in> set ps. pool_offer fl i out amt p = Some (w, r))"
proof (induction ps arbitrary: b)
  case (Cons q qs)
  show ?case
  proof (cases "pool_offer fl i out amt q")
    case None
    with Cons.prems have "best_route fl i out amt b qs = Some (w, r)" by simp
    from Cons.IH [OF this] show ?thesis by auto
  next
    case (Some c)
    obtain v s where c: "c = (v, s)" by (cases c)
    define b' where "b' = (case b of None \<Rightarrow> Some (v, s) | Some (bv, br) \<Rightarrow> if v > bv then Some (v, s) else Some (bv, br))"
    from Cons.prems Some c have "best_route fl i out amt b' qs = Some (w, r)" by (simp add: b'_def)
    from Cons.IH [OF this] have "b' = Some (w, r) \<or> (\<exists>p \<in> set qs. pool_offer fl i out amt p = Some (w, r))" .
    moreover have "b' = b \<or> b' = Some (v, s)" by (auto simp: b'_def split: option.splits)
    ultimately show ?thesis using Some c by auto
  qed
qed simp

lemma best_route_Some: "best_route fl i out amt (Some c) ps \<noteq> None"
proof (induction ps arbitrary: c)
  case (Cons q qs)
  then show ?case by (cases c) (simp split: option.splits)
qed simp

lemma best_route_None: "best_route fl i out amt None ps = None \<Longrightarrow> p \<in> set ps \<Longrightarrow> pool_offer fl i out amt p = None"
proof (induction ps)
  case (Cons q qs)
  then show ?case using best_route_Some [of fl i out amt _ qs] by (cases "pool_offer fl i out amt q") auto
qed simp

section \<open>Properties\<close>

text \<open>
  C34: An estimated swap pays the constant-product amount rounded up: with reserves \<open>x\<close> and \<open>y\<close> and
  an input \<open>a\<close> the output is the ceiling of \<open>y * a / (x + a)\<close>, so that the product of the reserves
  after the swap never grows, and the output never exceeds the reserve.
\<close>

theorem swap_output_rounds_up:
  assumes "estimateSwapOutput fl [\<lparr>rs_asset = inA, rs_amount = show_int x\<rparr>, \<lparr>rs_asset = outA, rs_amount = show_int y\<rparr>]
      (show_int a) inA mr = Inr e"
    and "0 < a" and "inA \<noteq> outA"
  shows "\<exists>v. se_outputAmount e = show_int v \<and> v = (y * a) div (x + a) + (if (x + a) dvd y * a then 0 else 1) \<and>
    0 < v \<and> v \<le> y \<and> (x + a) * (y - v) \<le> x * y \<and> x * y < (x + a) * (y - v + 1)"
proof -
  from assms(1) obtain ri ro x' y' a' where f: "find (\<lambda>r. rs_asset r = inA)
        [\<lparr>rs_asset = inA, rs_amount = show_int x\<rparr>, \<lparr>rs_asset = outA, rs_amount = show_int y\<rparr>] = Some ri"
      "find (\<lambda>r. rs_asset r \<noteq> inA)
        [\<lparr>rs_asset = inA, rs_amount = show_int x\<rparr>, \<lparr>rs_asset = outA, rs_amount = show_int y\<rparr>] = Some ro"
    and n: "big_int_of (rs_amount ri) = Some x'" "big_int_of (rs_amount ro) = Some y'" "big_int_of (show_int a) = Some a'"
    and pos: "0 < x'" "0 < y'"
    and out: "se_outputAmount e = (if a' \<le> 0 then ''0'' else show_int (y' - (x' * y') sdiv (x' + a')))"
    by (rule swap_shape)
  from f n assms(3) have xy: "x' = x" "y' = y" "a' = a" by auto
  define q where "q = (x * y) div (x + a)"
  have xa: "0 < x + a" using pos assms(2) xy by simp
  have sd: "(x * y) sdiv (x + a) = q" using pos assms(2) xy by (simp add: q_def sdiv_nonneg)
  have lo: "(x + a) * q \<le> x * y" and hi: "x * y < (x + a) * (q + 1)"
    using mult_div_mod_eq [of "x + a" "x * y"] pos_mod_bound [OF xa, of "x * y"] pos_mod_sign [OF xa, of "x * y"]
    by (simp_all add: q_def algebra_simps)
  have q0: "0 \<le> q" using pos xy xa by (simp add: q_def pos_imp_zdiv_nonneg_iff)
  have "(x + a) * q < (x + a) * y" using lo assms(2) pos xy by (smt (verit) mult_strict_right_mono)
  then have "q < y" using xa by simp
  moreover have "y - q = (y * a) div (x + a) + (if (x + a) dvd y * a then 0 else 1)"
    using ceiling_output [of x y a] pos xy assms(2) sd by simp
  ultimately show ?thesis using out xy assms(2) sd lo hi q0 by (intro exI [of _ "y - q"]) (simp add: algebra_simps)
qed

definition sample_reserves :: "int \<Rightarrow> int \<Rightarrow> reserve list" where
  "sample_reserves x y = [\<lparr>rs_asset = ''XLM'', rs_amount = show_int x\<rparr>, \<lparr>rs_asset = ''USDC'', rs_amount = show_int y\<rparr>]"

theorem swap_output_rounds_up_witness:
  "\<exists>e. estimateSwapOutput (\<lambda>x. x) (sample_reserves 1000 1000) (show_int 10) ''XLM'' (3 / 10) = Inr e \<and>
     se_outputAmount e = show_int 10 \<and> (1000 + 10) * (1000 - 10) < 1000 * (1000 :: int)"
proof -
  have "case estimateSwapOutput (\<lambda>x. x) (sample_reserves 1000 1000) (show_int 10) ''XLM'' (3 / 10) of Inl _ \<Rightarrow> False | Inr _ \<Rightarrow> True"
    by code_simp
  then obtain e where e: "estimateSwapOutput (\<lambda>x. x) (sample_reserves 1000 1000) (show_int 10) ''XLM'' (3 / 10) = Inr e"
    by (auto split: sum.splits)
  from swap_output_rounds_up [OF e [unfolded sample_reserves_def]] e show ?thesis by auto
qed

text \<open>
  The route that is found is one of the offers of the pools with both assets, and no pool offers
  more; when no route is found no pool offers anything.
\<close>

theorem best_route_optimal:
  assumes "i \<noteq> out" "p \<in> set pools" "pool_offer fl i out amt p = Some (v, r)"
  shows "\<exists>w s q. findBestRoute fl pools i out amt = Some s \<and> q \<in> set pools \<and> pool_offer fl i out amt q = Some (w, s) \<and> v \<le> w"
proof -
  have "best_route fl i out amt None pools \<noteq> None"
    using best_route_None [of fl i out amt pools p] assms(2,3) by (metis option.distinct(1))
  then obtain w s where b: "best_route fl i out amt None pools = Some (w, s)" by auto
  from best_route_from [OF b] obtain q where "q \<in> set pools" "pool_offer fl i out amt q = Some (w, s)" by auto
  with best_route_ge [OF b assms(2,3)] b assms(1) show ?thesis by (simp add: findBestRoute_def) blast
qed

definition sample_pools :: "routing_pool list" where
  "sample_pools = [\<lparr>rp_id = ''a'', rp_reserves = sample_reserves 1000 1000\<rparr>, \<lparr>rp_id = ''b'', rp_reserves = sample_reserves 1000 2000\<rparr>]"

lemma sample_estimate:
  "case estimateSwapOutput (\<lambda>x. x) (sample_reserves 1000 1000) (show_int 10) ''XLM'' (3 / 10) of Inl _ \<Rightarrow> False | Inr _ \<Rightarrow> True"
  by code_simp

lemma sample_offer: "\<exists>r. pool_offer (\<lambda>x. x) ''XLM'' ''USDC'' (show_int 10) (sample_pools ! 0) = Some (10, r)"
proof -
  obtain e where e: "estimateSwapOutput (\<lambda>x. x) (sample_reserves 1000 1000) (show_int 10) ''XLM'' (3 / 10) = Inr e"
    using sample_estimate by (auto split: sum.splits)
  have out: "se_outputAmount e = show_int 10"
    by (rule swap_shape [OF e]) (auto simp: sample_reserves_def sdiv_nonneg)
  have "\<exists>r \<in> set (sample_reserves 1000 1000). rs_asset r = ''XLM''" "\<exists>r \<in> set (sample_reserves 1000 1000). rs_asset r = ''USDC''"
    by (simp_all add: sample_reserves_def)
  with e out show ?thesis by (auto simp: pool_offer_def sample_pools_def DEFAULT_MAX_INPUT_RATIO_def)
qed

theorem best_route_optimal_witness:
  "\<exists>w s q r. findBestRoute (\<lambda>x. x) sample_pools ''XLM'' ''USDC'' (show_int 10) = Some s \<and>
     pool_offer (\<lambda>x. x) ''XLM'' ''USDC'' (show_int 10) (sample_pools ! 0) = Some r \<and> q \<in> set sample_pools \<and> fst r \<le> w \<and>
     pool_offer (\<lambda>x. x) ''XLM'' ''USDC'' (show_int 10) q = Some (w, s)"
proof -
  obtain v r where o: "pool_offer (\<lambda>x. x) ''XLM'' ''USDC'' (show_int 10) (sample_pools ! 0) = Some (v, r)" using sample_offer by blast
  have "sample_pools ! 0 \<in> set sample_pools" by (simp add: sample_pools_def)
  from best_route_optimal [OF _ this o] obtain w s q where r: "findBestRoute (\<lambda>x. x) sample_pools ''XLM'' ''USDC'' (show_int 10) = Some s"
    "q \<in> set sample_pools" "pool_offer (\<lambda>x. x) ''XLM'' ''USDC'' (show_int 10) q = Some (w, s)" "v \<le> w" by auto
  show ?thesis by (rule exI [of _ w], rule exI [of _ s], rule exI [of _ q], rule exI [of _ "(v, r)"]) (simp add: r o)
qed

text \<open>Decimal strings are read back as the scaled integers they were printed from, with any number of decimals and for negative values too.\<close>

theorem scaled_roundtrip: "parseScaled (formatScaled v d) d = Inr v"
proof (cases "0 \<le> v")
  case False
  then have "parseScaled (formatScaled (- v) d) d = Inr (- v)" "hd (formatScaled (- v) d) \<noteq> CHR ''-''"
    by (simp_all add: parse_format_nonneg format_nonneg_head)
  from parse_neg [OF this(1)] this(2) False show ?thesis by (simp add: format_neg)
qed (rule parse_format_nonneg)

end
