(* ===== verification/Amounts.thy ===== *)
theory Amounts
  imports Prelude "HOL-Library.Word"
begin

text \<open>
  Amounts in stroops, of which ten million make a unit: \<open>utils.ts\<close> (printing, parsing, penalties and the
  smaller helpers) and \<open>validators/amountValidator.ts\<close>. Strings hold characters of one byte. What
  \<open>Number.prototype.toString\<close> prints for a fraction is the argument \<open>num_text\<close>. Error texts are
  constructors.
\<close>

section \<open>Printing and parsing\<close>

definition STROOPS_PER_UNIT :: int where
  "STROOPS_PER_UNIT = 10000000"

definition formatAmount :: "int \<Rightarrow> string" where
  "formatAmount stroops =
     (let whole = stroops sdiv STROOPS_PER_UNIT; fpart = stroops smod STROOPS_PER_UNIT
      in show_int whole @ ''.'' @ pad_start 7 (show_int fpart))"

definition all_digits :: "string \<Rightarrow> bool" where
  "all_digits s \<longleftrightarrow> list_all is_digit s"

text \<open>\<open>s.padEnd(7, "0").slice(0, 7)\<close>\<close>

definition seven_digits :: "string \<Rightarrow> string" where
  "seven_digits fpart = take 7 (fpart @ replicate (7 - length fpart) CHR ''0'')"

datatype amount_syntax = ManyDots | BadWhole string | BadFraction string

definition parseAmount :: "string \<Rightarrow> amount_syntax + int" where
  "parseAmount s =
     (let isNegative = (s \<noteq> [] \<and> hd s = CHR ''-'');
          clean = (if isNegative then tl s else s);
          parts = split_at (CHR ''.'') clean;
          whole = hd parts;
          fpart = (case tl parts of [] \<Rightarrow> [] | f # fs \<Rightarrow> f);
          digits = (if whole \<noteq> [] \<and> hd whole = CHR ''+'' then tl whole else whole)
      in if length parts > 2 then Inl ManyDots
         else if \<not> all_digits digits then Inl (BadWhole whole)
         else if \<not> all_digits fpart then Inl (BadFraction fpart)
         else let n = int (parse_digits digits) * STROOPS_PER_UNIT + int (parse_digits (seven_digits fpart))
              in Inr (if isNegative then - n else n))"

section \<open>Validation of amounts\<close>

datatype js_number = Finite rat | NotFinite string

datatype js_amount = AUndefined | ANull | ABig int | ANum js_number | AStr string | AOther string

datatype amount_unit = StroopUnit | DecimalUnit | AutoUnit

datatype amount_error =
    AmountRequired
  | AmountNotFinite string
  | FractionalStroops rat
  | EmptyAmount
  | ScientificNotation string
  | BadStroops string
  | BadDecimal string
  | NoDigits string
  | TooPrecise nat nat
  | UnsupportedType string
  | NegativeAmount int
  | ZeroAmount
  | BelowMinimum int int
  | AboveMaximum int int

text \<open>The sign, and the groups of the pattern of \<open>parseDecimalStringToStroops\<close>: whole digits and, after a point, the fraction.\<close>

definition sign_of :: "string \<Rightarrow> int" where
  "sign_of s = (if s \<noteq> [] \<and> hd s = CHR ''-'' then - 1 else 1)"

definition unsigned :: "string \<Rightarrow> string" where
  "unsigned s = (if s \<noteq> [] \<and> (hd s = CHR ''-'' \<or> hd s = CHR ''+'') then tl s else s)"

definition match_decimal :: "string \<Rightarrow> (string \<times> string) option" where
  "match_decimal s =
     (let r = unsigned s; whole = takeWhile is_digit r; after = dropWhile is_digit r
      in case after of
        [] \<Rightarrow> Some (whole, [])
      | c # f \<Rightarrow> if c = CHR ''.'' \<and> all_digits f then Some (whole, f) else None)"

definition parseDecimalStringToStroops :: "string \<Rightarrow> nat \<Rightarrow> amount_error + int" where
  "parseDecimalStringToStroops s maxDecimals =
     (case match_decimal s of
        None \<Rightarrow> Inl (BadDecimal s)
      | Some (whole, fpart) \<Rightarrow>
          if whole = [] \<and> fpart = [] then Inl (NoDigits s)
          else if length fpart > maxDecimals then Inl (TooPrecise (length fpart) maxDecimals)
          else Inr (sign_of s * (int (parse_digits whole) * STROOPS_PER_UNIT + int (parse_digits (seven_digits fpart)))))"

definition parseToStroops :: "(rat \<Rightarrow> string) \<Rightarrow> js_amount \<Rightarrow> amount_unit \<Rightarrow> nat \<Rightarrow> amount_error + int" where
  "parseToStroops num_text amount unt maxDecimals =
     (case amount of
        AUndefined \<Rightarrow> Inl AmountRequired
      | ANull \<Rightarrow> Inl AmountRequired
      | ABig n \<Rightarrow> Inr (if unt = DecimalUnit then n * STROOPS_PER_UNIT else n)
      | ANum (NotFinite t) \<Rightarrow> Inl (AmountNotFinite t)
      | ANum (Finite x) \<Rightarrow>
          if unt = StroopUnit
          then (if x \<noteq> of_int \<lfloor>x\<rfloor> then Inl (FractionalStroops x) else Inr \<lfloor>x\<rfloor>)
          else parseDecimalStringToStroops (num_text x) maxDecimals
      | AStr s \<Rightarrow>
          let t = trim s
          in if t = [] then Inl EmptyAmount
             else if CHR ''e'' \<in> set t \<or> CHR ''E'' \<in> set t then Inl (ScientificNotation s)
             else if unt = StroopUnit \<or> (unt = AutoUnit \<and> CHR ''.'' \<notin> set t)
             then (if unsigned t \<noteq> [] \<and> all_digits (unsigned t) then Inr (sign_of t * int (parse_digits (unsigned t)))
                   else Inl (BadStroops s))
             else parseDecimalStringToStroops t maxDecimals
      | AOther t \<Rightarrow> Inl (UnsupportedType t))"

record amount_options =
  ao_min :: "js_amount option"
  ao_max :: "js_amount option"
  ao_allowZero :: "bool option"
  ao_allowNegative :: "bool option"
  ao_maxDecimals :: "nat option"
  ao_unit :: "amount_unit option"

definition no_options :: amount_options where
  "no_options = \<lparr>ao_min = None, ao_max = None, ao_allowZero = None, ao_allowNegative = None, ao_maxDecimals = None, ao_unit = None\<rparr>"

record amount_result =
  am_valid :: bool
  am_errors :: "amount_error list"
  am_stroops :: "int option"

text \<open>What \<open>BigInt\<close> throws on a bound that cannot be parsed.\<close>

datatype bound_exception = BoundSyntaxError | BoundRangeError | BoundTypeError

definition STELLAR_MAX_INT64 :: int where
  "STELLAR_MAX_INT64 = 9223372036854775807"

definition BigInt_of :: "js_amount \<Rightarrow> bound_exception + int" where
  "BigInt_of a =
     (case a of
        ABig n \<Rightarrow> Inr n
      | ANum (Finite x) \<Rightarrow> if x = of_int \<lfloor>x\<rfloor> then Inr \<lfloor>x\<rfloor> else Inl BoundRangeError
      | ANum (NotFinite t) \<Rightarrow> Inl BoundRangeError
      | AStr s \<Rightarrow> (case big_int_of s of Some n \<Rightarrow> Inr n | None \<Rightarrow> Inl BoundSyntaxError)
      | _ \<Rightarrow> Inl BoundTypeError)"

definition bound_of ::
  "(rat \<Rightarrow> string) \<Rightarrow> js_amount option \<Rightarrow> amount_unit \<Rightarrow> nat \<Rightarrow> int \<Rightarrow> bound_exception + int" where
  "bound_of num_text given unt maxDecimals dflt =
     (case given of
        None \<Rightarrow> Inr dflt
      | Some AUndefined \<Rightarrow> Inr dflt
      | Some a \<Rightarrow> (case parseToStroops num_text a unt maxDecimals of Inr n \<Rightarrow> Inr n | Inl e \<Rightarrow> BigInt_of a))"

definition opt_or :: "'a option \<Rightarrow> 'a \<Rightarrow> 'a" where
  "opt_or x d = (case x of None \<Rightarrow> d | Some y \<Rightarrow> y)"

definition validateAmount ::
  "(rat \<Rightarrow> string) \<Rightarrow> js_amount \<Rightarrow> amount_options \<Rightarrow> bound_exception + amount_result" where
  "validateAmount num_text amount opts =
     (let maxDecimals = opt_or (ao_maxDecimals opts) 7; unt = opt_or (ao_unit opts) AutoUnit
      in case parseToStroops num_text amount unt maxDecimals of
        Inl e \<Rightarrow> Inr \<lparr>am_valid = False, am_errors = [e], am_stroops = None\<rparr>
      | Inr stroops \<Rightarrow>
          let allowZero = opt_or (ao_allowZero opts) False;
              allowNegative = opt_or (ao_allowNegative opts) False;
              e1 = (if stroops < 0 \<and> \<not> allowNegative then [NegativeAmount stroops] else []);
              e2 = (if stroops = 0 \<and> \<not> allowZero then [ZeroAmount] else []);
              least = (if allowNegative then - STELLAR_MAX_INT64 else if allowZero then 0 else 1)
          in rbind (bound_of num_text (ao_min opts) unt maxDecimals least) (\<lambda>minBound.
             let e3 = (if stroops < minBound then [BelowMinimum stroops minBound] else [])
             in rbind (bound_of num_text (ao_max opts) unt maxDecimals STELLAR_MAX_INT64) (\<lambda>maxBound.
                let e4 = (if stroops > maxBound then [AboveMaximum stroops maxBound] else []);
                    errors = e1 @ e2 @ e3 @ e4
                in Inr \<lparr>am_valid = (errors = []), am_errors = errors,
                        am_stroops = (if errors = [] then Some stroops else None)\<rparr>)))"

definition isValidAmount :: "(rat \<Rightarrow> string) \<Rightarrow> js_amount \<Rightarrow> amount_options \<Rightarrow> bound_exception + bool" where
  "isValidAmount num_text amount opts = rbind (validateAmount num_text amount opts) (\<lambda>r. Inr (am_valid r))"

text \<open>\<open>validateAmountOrThrow\<close>: the errors it throws, or what the bounds threw.\<close>

definition validateAmountOrThrow ::
  "(rat \<Rightarrow> string) \<Rightarrow> js_amount \<Rightarrow> amount_options \<Rightarrow> (bound_exception + amount_error list) + int" where
  "validateAmountOrThrow num_text amount opts =
     (case validateAmount num_text amount opts of
        Inl e \<Rightarrow> Inl (Inl e)
      | Inr r \<Rightarrow> (case am_stroops r of
                   Some n \<Rightarrow> if am_valid r then Inr n else Inl (Inr (am_errors r))
                 | None \<Rightarrow> Inl (Inr (am_errors r))))"

text \<open>The options of an \<open>AmountValidator\<close> with those of a call laid over them.\<close>

definition over :: "'a option \<Rightarrow> 'a option \<Rightarrow> 'a option" where
  "over x d = (case x of None \<Rightarrow> d | Some y \<Rightarrow> Some y)"

definition merged_options :: "amount_options \<Rightarrow> amount_options \<Rightarrow> amount_options" where
  "merged_options defaults opts =
     \<lparr>ao_min = over (ao_min opts) (ao_min defaults), ao_max = over (ao_max opts) (ao_max defaults),
      ao_allowZero = over (ao_allowZero opts) (ao_allowZero defaults),
      ao_allowNegative = over (ao_allowNegative opts) (ao_allowNegative defaults),
      ao_maxDecimals = over (ao_maxDecimals opts) (ao_maxDecimals defaults), ao_unit = over (ao_unit opts) (ao_unit defaults)\<rparr>"

definition validator_validate ::
  "(rat \<Rightarrow> string) \<Rightarrow> amount_options \<Rightarrow> js_amount \<Rightarrow> amount_options \<Rightarrow> bound_exception + amount_result" where
  "validator_validate num_text defaults amount opts = validateAmount num_text amount (merged_options defaults opts)"

section \<open>Penalties and small helpers\<close>

record penalty_tier =
  pt_days_late :: int
  pt_penalty_bps :: int

record penalty_invoice =
  pi_penalty_deadline :: "int option"
  pi_penalty_tiers :: "penalty_tier list option"
  pi_amounts :: "int list"
  pi_allowed_callers :: "string list option"

definition tier_order :: "nat \<times> penalty_tier \<Rightarrow> nat \<times> penalty_tier \<Rightarrow> rat" where
  "tier_order a b = of_int (pt_days_late (snd b) - pt_days_late (snd a))"

text \<open>The result: basis points, amount, and the index of the tier.\<close>

definition calculatePenalty :: "penalty_invoice \<Rightarrow> int \<Rightarrow> int \<times> int \<times> nat option" where
  "calculatePenalty iv ts =
     (case pi_penalty_deadline iv of
        None \<Rightarrow> (0, 0, None)
      | Some d \<Rightarrow>
          if d = 0 \<or> ts \<le> d then (0, 0, None)
          else case pi_penalty_tiers iv of
            None \<Rightarrow> (0, 0, None)
          | Some tiers \<Rightarrow>
              let daysLate = \<lceil>of_int (ts - d) / 86400 :: rat\<rceil>;
                  sorted = js_sort tier_order (enumerate 0 tiers)
              in case List.find (\<lambda>(i, t). daysLate \<ge> pt_days_late t) sorted of
                None \<Rightarrow> (0, 0, None)
              | Some (i, t) \<Rightarrow>
                  (pt_penalty_bps t, (sum_list (pi_amounts iv) * pt_penalty_bps t) sdiv 10000, Some i))"

definition validateCallerAllowlist :: "penalty_invoice \<Rightarrow> string \<Rightarrow> bool" where
  "validateCallerAllowlist iv caller =
     (case pi_allowed_callers iv of None \<Rightarrow> True | Some cs \<Rightarrow> caller \<in> set cs)"

definition truncateAddress :: "string \<Rightarrow> nat \<Rightarrow> string" where
  "truncateAddress a chars =
     (if length a \<le> chars * 2 + 3 then a
      else take chars a @ ''...'' @ (if chars = 0 then a else drop (length a - chars) a))"

definition formatAddress :: "string \<Rightarrow> nat option \<Rightarrow> nat option \<Rightarrow> string + string" where
  "formatAddress a l t =
     (let leading = opt_or l 5; trailing = opt_or t 4
      in if length a < leading + trailing + 3 then Inl a
         else Inr (take leading a @ ''...'' @ (if trailing = 0 then a else drop (length a - trailing) a)))"

text \<open>\<open>toLowerCase\<close> on the characters of one byte.\<close>

definition latin_lower :: "char \<Rightarrow> char" where
  "latin_lower c = (let n = of_char c :: nat
     in if 65 \<le> n \<and> n \<le> 90 \<or> 192 \<le> n \<and> n \<le> 222 \<and> n \<noteq> 215 then char_of (n + 32) else c)"

definition addressesEqual :: "string \<Rightarrow> string \<Rightarrow> bool" where
  "addressesEqual a b \<longleftrightarrow> map latin_lower a = map latin_lower b"

definition deadlineFromDays :: "int \<Rightarrow> rat \<Rightarrow> rat" where
  "deadlineFromDays nowMs days = of_int (nowMs div 1000) + days * 86400"

definition isExpired :: "int \<Rightarrow> int \<Rightarrow> bool" where
  "isExpired nowMs deadline \<longleftrightarrow> nowMs div 1000 > deadline"

text \<open>
  \<open>groupBy\<close> collects into a plain object: a key that every object inherits is found there and has no
  \<open>push\<close>, which throws (\<open>None\<close>). The list holds the groups, not their order among the object's keys.
\<close>

definition groupBy :: "('a \<Rightarrow> string) \<Rightarrow> 'a list \<Rightarrow> (string \<times> 'a list) list option" where
  "groupBy key items =
     foldl (\<lambda>m x. case m of
         None \<Rightarrow> None
       | Some g \<Rightarrow> if key x \<in> set inherited_names then None
                   else Some (AList.update (key x) ((case map_of g (key x) of None \<Rightarrow> [] | Some xs \<Rightarrow> xs) @ [x]) g))
       (Some []) items"

section \<open>Lemmas\<close>

lemma split_at_none: "c \<notin> set s \<Longrightarrow> split_at c s = [s]"
  by (induction s) (auto split: list.splits)

lemma split_at_two: "c \<notin> set a \<Longrightarrow> c \<notin> set b \<Longrightarrow> split_at c (a @ c # b) = [a, b]"
  by (induction a) (auto simp: split_at_none)

lemma digit_not_special:
  "is_digit c \<Longrightarrow> c \<noteq> CHR ''.''" "is_digit c \<Longrightarrow> c \<noteq> CHR ''-''" "is_digit c \<Longrightarrow> c \<noteq> CHR ''+''"
  by (auto simp: is_digit_def)

lemma all_digits_iff: "all_digits s \<longleftrightarrow> (\<forall>c \<in> set s. is_digit c)"
  by (simp add: all_digits_def list_all_iff)

lemma no_dot: "all_digits s \<Longrightarrow> CHR ''.'' \<notin> set s"
  using digit_not_special(1) by (auto simp: all_digits_iff)

lemma digits_unsigned:
  assumes "all_digits s" shows "hd s \<noteq> CHR ''-'' \<or> s = []" and "hd s \<noteq> CHR ''+'' \<or> s = []"
proof -
  have "is_digit (hd s) \<or> s = []" using assms hd_in_set [of s] unfolding all_digits_iff by blast
  then show "hd s \<noteq> CHR ''-'' \<or> s = []" "hd s \<noteq> CHR ''+'' \<or> s = []" using digit_not_special by blast+
qed

text \<open>Plain text: digits, a point and digits.\<close>

lemma plain_head:
  assumes "all_digits w"
  shows "hd (w @ ''.'' @ f) \<noteq> CHR ''-''" and "hd (w @ ''.'' @ f) \<noteq> CHR ''+''"
  using digits_unsigned [OF assms] by (cases w; simp)+

lemma parse_amount_parts:
  assumes "hd s \<noteq> CHR ''-''" "split_at (CHR ''.'') s = [w, f]" "w = [] \<or> hd w \<noteq> CHR ''+''" "all_digits w" "all_digits f"
  shows "parseAmount s = Inr (int (parse_digits w) * STROOPS_PER_UNIT + int (parse_digits (seven_digits f)))"
proof -
  have neg: "(s \<noteq> [] \<and> hd s = CHR ''-'') = False" using assms(1) by simp
  have plus: "(w \<noteq> [] \<and> hd w = CHR ''+'') = False" using assms(3) by blast
  show ?thesis
    unfolding parseAmount_def Let_def neg if_False assms(2) list.sel list.case plus
    by (simp only: assms(4,5) not_True_eq_False if_False list.size) simp
qed

lemma parse_plain:
  assumes "all_digits w" "all_digits f"
  shows "parseAmount (w @ ''.'' @ f) = Inr (int (parse_digits w) * STROOPS_PER_UNIT + int (parse_digits (seven_digits f)))"
proof (rule parse_amount_parts [OF plain_head(1) [OF assms(1)] _ _ assms])
  show "split_at (CHR ''.'') (w @ ''.'' @ f) = [w, f]"
    using split_at_two [OF no_dot [OF assms(1)] no_dot [OF assms(2)]] by simp
  show "w = [] \<or> hd w \<noteq> CHR ''+''" using digits_unsigned(2) [OF assms(1)] by blast
qed

lemma match_plain:
  assumes "all_digits w" "all_digits f" shows "match_decimal (w @ ''.'' @ f) = Some (w, f)"
proof -
  let ?s = "w @ ''.'' @ f"
  have un: "unsigned ?s = ?s" unfolding unsigned_def using plain_head [OF assms(1), of f] by argo
  have nd: "\<not> is_digit (CHR ''.'')" by (simp add: is_digit_def)
  have tw: "takeWhile is_digit ?s = w" using assms(1) nd by (simp add: all_digits_iff takeWhile_append2)
  have dw: "dropWhile is_digit ?s = CHR ''.'' # f" using assms(1) nd by (simp add: all_digits_iff dropWhile_append2)
  show ?thesis unfolding match_decimal_def Let_def un tw dw using assms(2) by simp
qed

lemma parse_plain_decimal:
  assumes "all_digits w" "all_digits f" "w \<noteq> [] \<or> f \<noteq> []" "length f \<le> d"
  shows "parseDecimalStringToStroops (w @ ''.'' @ f) d =
    Inr (int (parse_digits w) * STROOPS_PER_UNIT + int (parse_digits (seven_digits f)))"
proof -
  have "sign_of (w @ ''.'' @ f) = 1" using plain_head(1) [OF assms(1), of f] by (simp add: sign_of_def)
  then show ?thesis
    using assms(3,4) unfolding parseDecimalStringToStroops_def match_plain [OF assms(1,2)] by simp
qed

lemma seven_digits_id: "length f = 7 \<Longrightarrow> seven_digits f = f"
  by (simp add: seven_digits_def)

text \<open>The printed parts of an amount.\<close>

lemma format_parts:
  assumes "0 \<le> n"
  shows "formatAmount n = show_nat (nat n div 10000000) @ ''.'' @ pad_start 7 (show_nat (nat n mod 10000000))"
    and "all_digits (show_nat m)" and "all_digits (pad_start 7 (show_nat (nat n mod 10000000)))"
    and "length (pad_start 7 (show_nat (nat n mod 10000000))) = 7"
proof -
  have "n sdiv 10000000 = int (nat n div 10000000)" "n smod 10000000 = int (nat n mod 10000000)"
    using assms by (simp_all add: sdiv_nonneg smod_nonneg zdiv_int zmod_int)
  then show "formatAmount n = show_nat (nat n div 10000000) @ ''.'' @ pad_start 7 (show_nat (nat n mod 10000000))"
    by (simp add: formatAmount_def STROOPS_PER_UNIT_def show_int_def Let_def)
  show "all_digits (show_nat m)" using show_nat_digits by (simp add: all_digits_iff)
  show "all_digits (pad_start 7 (show_nat (nat n mod 10000000)))"
    using pad_start_digits [OF show_nat_digits] by (simp add: all_digits_iff)
  show "length (pad_start 7 (show_nat (nat n mod 10000000))) = 7"
    by (intro length_pad_start show_nat_length) simp_all
qed

lemma stroops_of_parts: "0 \<le> n \<Longrightarrow> int (nat n div 10000000) * STROOPS_PER_UNIT + int (nat n mod 10000000) = n"
  by (simp add: STROOPS_PER_UNIT_def zdiv_int zmod_int)











lemma format_parse_decimal: "0 \<le> n \<Longrightarrow> parseDecimalStringToStroops (formatAmount n) 7 = Inr n"
  using stroops_of_parts [of n] show_nat_ne
  by (simp add: format_parts(1) parse_plain_decimal format_parts(2,3) seven_digits_id format_parts(4) del: append_Cons append_Nil)

lemma format_parse: "0 \<le> n \<Longrightarrow> parseAmount (formatAmount n) = Inr n"
  using stroops_of_parts [of n]
  by (simp add: format_parts(1) parse_plain format_parts(2,3) seven_digits_id format_parts(4) del: append_Cons append_Nil)


text \<open>Strings the unit \<open>"auto"\<close> reads as decimal.\<close>

lemma format_chars: "0 \<le> n \<Longrightarrow> c \<in> set (formatAmount n) \<Longrightarrow> is_digit c \<or> c = CHR ''.''"
  using format_parts(2,3) [of n] by (auto simp: format_parts(1) all_digits_iff)

lemma format_trim: "0 \<le> n \<Longrightarrow> trim (formatAmount n) = formatAmount n"
proof -
  assume n: "0 \<le> n"
  have "\<not> is_space (CHR ''.'')" by (simp add: is_space_def)
  with n have "\<forall>c \<in> set (formatAmount n). \<not> is_space c" using format_chars digit_not_space by metis
  then show ?thesis by (rule trim_id)
qed

lemma parse_to_stroops_format:
  assumes "0 \<le> n" "unt \<noteq> StroopUnit"
  shows "parseToStroops num_text (AStr (formatAmount n)) unt 7 = Inr n"
proof -
  have "c \<notin> set (formatAmount n)" if "\<not> is_digit c" "c \<noteq> CHR ''.''" for c
    using format_chars [OF assms(1)] that by blast
  from this [of "CHR ''e''"] this [of "CHR ''E''"]
  have e: "(CHR ''e'' \<in> set (formatAmount n) \<or> CHR ''E'' \<in> set (formatAmount n)) = False" by (simp add: is_digit_def)
  have ne: "(formatAmount n = []) = False" "(CHR ''.'' \<notin> set (formatAmount n)) = False"
    by (simp_all add: formatAmount_def Let_def)
  show ?thesis
    using assms(2)
    by (simp only: parseToStroops_def js_amount.case format_trim [OF assms(1)] Let_def e ne if_False
        format_parse_decimal [OF assms(1)] simp_thms)
qed

text \<open>
  C39: C: what is printed is read back: a non-negative number of stroops printed with \<open>formatAmount\<close> is parsed to
  itself by \<open>parseAmount\<close> and by the validator, in the decimal unit and in the automatic one.
\<close>

theorem amount_roundtrip:
  assumes "0 \<le> n"
  shows "parseAmount (formatAmount n) = Inr n \<and>
    parseToStroops num_text (AStr (formatAmount n)) DecimalUnit 7 = Inr n \<and>
    parseToStroops num_text (AStr (formatAmount n)) AutoUnit 7 = Inr n"
  using format_parse [OF assms] parse_to_stroops_format [OF assms] by simp

theorem amount_roundtrip_witness: "parseAmount (formatAmount 15500007) = Inr 15500007"
  using amount_roundtrip [of 15500007 "\<lambda>_. []"] by (simp only: zero_le_numeral simp_thms)

section \<open>What the validator accepts\<close>








section \<open>Late penalties\<close>

interpretation tier_sort: comparator tier_order
  by unfold_locales (auto simp: tier_order_def)

lemma sorted_find:
  assumes "sorted_wrt R xs" "List.find P xs = Some x" "y \<in> set xs" "P y" "\<And>z. R z z"
  shows "R x y \<and> x \<in> set xs \<and> P x"
  using assms(1-4) by (induction xs) (auto split: if_splits intro: assms(5))

lemma find_member: "List.find P xs = Some x \<Longrightarrow> x \<in> set xs \<and> P x"
  by (induction xs) (auto split: if_splits)

lemma enumerate_member: "t \<in> set xs \<Longrightarrow> \<exists>i. (i, t) \<in> set (enumerate 0 xs)"
proof -
  assume "t \<in> set xs"
  then obtain i where "i < length xs" "xs ! i = t" by (auto simp: in_set_conv_nth)
  then have "(i, t) \<in> set (enumerate 0 xs)" by (simp add: in_set_enumerate_eq)
  then show ?thesis ..
qed

definition days_late_at :: "penalty_invoice \<Rightarrow> int \<Rightarrow> int" where
  "days_late_at iv ts = \<lceil>of_int (ts - the (pi_penalty_deadline iv)) / 86400 :: rat\<rceil>"

lemma no_tier:
  assumes "calculatePenalty iv ts = (b, p, None)" "pi_penalty_deadline iv = Some d" "d \<noteq> 0" "d < ts"
    "pi_penalty_tiers iv = Some tiers" "t \<in> set tiers"
  shows "days_late_at iv ts < pt_days_late t"
proof -
  obtain i where i: "(i, t) \<in> set (enumerate 0 tiers)"
    using enumerate_member [OF assms(6)] by blast
  have "List.find (\<lambda>(i, t). days_late_at iv ts \<ge> pt_days_late t) (js_sort tier_order (enumerate 0 tiers)) = None"
    using assms(1-5) by (auto simp: calculatePenalty_def days_late_at_def Let_def split: option.splits)
  then show ?thesis using i by (fastforce simp: find_None_iff not_le)
qed

lemma highest_tier:
  assumes "calculatePenalty iv ts = (b, p, Some i)"
  shows "\<exists>d tiers. pi_penalty_deadline iv = Some d \<and> d < ts \<and> pi_penalty_tiers iv = Some tiers \<and> i < length tiers \<and>
    b = pt_penalty_bps (tiers ! i) \<and> p = (sum_list (pi_amounts iv) * b) sdiv 10000 \<and>
    pt_days_late (tiers ! i) \<le> days_late_at iv ts \<and>
    (\<forall>t \<in> set tiers. pt_days_late t \<le> days_late_at iv ts \<longrightarrow> pt_days_late t \<le> pt_days_late (tiers ! i))"
proof -
  obtain d tiers t where d: "pi_penalty_deadline iv = Some d" "d < ts" and tiers: "pi_penalty_tiers iv = Some tiers"
    and f: "List.find (\<lambda>(i, t). days_late_at iv ts \<ge> pt_days_late t) (js_sort tier_order (enumerate 0 tiers)) = Some (i, t)"
    and bp: "b = pt_penalty_bps t" "p = (sum_list (pi_amounts iv) * b) sdiv 10000"
    using assms by (auto simp: calculatePenalty_def days_late_at_def Let_def split: option.splits if_splits)
  have it: "(i, t) \<in> set (enumerate 0 tiers)" "pt_days_late t \<le> days_late_at iv ts"
    using find_member [OF f] by simp_all
  then have i: "i < length tiers" "tiers ! i = t" by (auto simp: in_set_enumerate_eq)
  have "pt_days_late u \<le> pt_days_late t" if u: "u \<in> set tiers" "pt_days_late u \<le> days_late_at iv ts" for u
  proof -
    obtain j where "(j, u) \<in> set (enumerate 0 tiers)"
      using enumerate_member [OF u(1)] by blast
    then have "tier_order (i, t) (j, u) \<le> 0"
      using sorted_find [OF tier_sort.sorted_js_sort f, of "(j, u)"] u(2) by (simp add: tier_order_def)
    then show ?thesis by (simp add: tier_order_def)
  qed
  with d tiers i it bp show ?thesis by blast
qed

text \<open>
  C: the penalty is that of the strictest tier that applies: an on-time payment owes nothing, a late one owes
  the rate of a tier whose day threshold was reached and no reached threshold is higher, and nothing is owed
  only when no tier was reached.
\<close>

theorem penalty_of_highest_tier:
  assumes "pi_penalty_deadline iv = Some d" "pi_penalty_tiers iv = Some tiers" "d \<noteq> 0"
  shows "(ts \<le> d \<longrightarrow> calculatePenalty iv ts = (0, 0, None)) \<and>
    (d < ts \<and> (\<forall>t \<in> set tiers. days_late_at iv ts < pt_days_late t) \<longrightarrow> calculatePenalty iv ts = (0, 0, None)) \<and>
    (d < ts \<and> (\<exists>t \<in> set tiers. pt_days_late t \<le> days_late_at iv ts) \<longrightarrow>
      (\<exists>i < length tiers. pt_days_late (tiers ! i) \<le> days_late_at iv ts \<and>
        (\<forall>t \<in> set tiers. pt_days_late t \<le> days_late_at iv ts \<longrightarrow> pt_days_late t \<le> pt_days_late (tiers ! i)) \<and>
        calculatePenalty iv ts =
          (pt_penalty_bps (tiers ! i), (sum_list (pi_amounts iv) * pt_penalty_bps (tiers ! i)) sdiv 10000, Some i)))"
proof (intro conjI impI)
  show "ts \<le> d \<Longrightarrow> calculatePenalty iv ts = (0, 0, None)" using assms by (simp add: calculatePenalty_def)
  obtain b p x where c: "calculatePenalty iv ts = (b, p, x)" by (cases "calculatePenalty iv ts") blast
  show "calculatePenalty iv ts = (0, 0, None)" if "d < ts \<and> (\<forall>t \<in> set tiers. days_late_at iv ts < pt_days_late t)"
  proof (cases x)
    case None
    then show ?thesis using c assms that by (auto simp: calculatePenalty_def Let_def split: option.splits if_splits)
  next
    case (Some i)
    then show ?thesis using highest_tier [of iv ts b p i] c assms that by (metis less_le_not_le nth_mem option.inject)
  qed
  show "\<exists>i < length tiers. pt_days_late (tiers ! i) \<le> days_late_at iv ts \<and>
        (\<forall>t \<in> set tiers. pt_days_late t \<le> days_late_at iv ts \<longrightarrow> pt_days_late t \<le> pt_days_late (tiers ! i)) \<and>
        calculatePenalty iv ts =
          (pt_penalty_bps (tiers ! i), (sum_list (pi_amounts iv) * pt_penalty_bps (tiers ! i)) sdiv 10000, Some i)"
    if late: "d < ts \<and> (\<exists>t \<in> set tiers. pt_days_late t \<le> days_late_at iv ts)"
  proof (cases x)
    case None
    then show ?thesis using no_tier [of iv ts b p d tiers] c assms late by (meson not_less)
  next
    case (Some i)
    then show ?thesis using highest_tier [of iv ts b p i] c assms by auto
  qed
qed

theorem penalty_of_highest_tier_witness:
  "\<exists>i < 2. calculatePenalty \<lparr>pi_penalty_deadline = Some 1000000,
     pi_penalty_tiers = Some [\<lparr>pt_days_late = 1, pt_penalty_bps = 100\<rparr>, \<lparr>pt_days_late = 7, pt_penalty_bps = 500\<rparr>],
     pi_amounts = [100000000], pi_allowed_callers = None\<rparr> (1000000 + 3 * 86400) = (100, 1000000, Some i)"
proof -
  define iv where "iv = \<lparr>pi_penalty_deadline = Some 1000000,
     pi_penalty_tiers = Some [\<lparr>pt_days_late = 1, pt_penalty_bps = 100\<rparr>, \<lparr>pt_days_late = 7, pt_penalty_bps = 500\<rparr>],
     pi_amounts = [100000000 :: int], pi_allowed_callers = None\<rparr>"
  have dl: "days_late_at iv (1000000 + 3 * 86400) = 3" by (simp add: days_late_at_def iv_def)
  have q: "(10000000000 :: int) sdiv 10000 = 1000000" by (simp add: sdiv_nonneg)
  show ?thesis
    using penalty_of_highest_tier [of iv 1000000 "the (pi_penalty_tiers iv)" "1000000 + 3 * 86400"] dl q
    unfolding iv_def by (auto simp: less_Suc_eq numeral_2_eq_2)
qed

section \<open>Behaviour worth knowing\<close>

lemma auto_integer_numbers_are_units:
  "parseToStroops (\<lambda>_. ''5'') (ANum (Finite 5)) AutoUnit 7 = Inr 50000000"
  "parseToStroops (\<lambda>_. ''5'') (AStr ''5'') AutoUnit 7 = Inr 5"
proof -
  have "unsigned ''5'' = ''5''" "sign_of ''5'' = 1" by (simp_all add: unsigned_def sign_of_def)
  moreover have "is_digit CHR ''5''" by (simp add: is_digit_def)
  moreover have "seven_digits [] = replicate 7 CHR ''0'' @ []" by (simp add: seven_digits_def)
  moreover have "parse_digits ''5'' = 5" "parse_digits (replicate 7 CHR ''0'' @ []) = 0"
    by (simp_all only: parse_digits_zeros) (simp_all add: parse_digits_def)
  ultimately show "parseToStroops (\<lambda>_. ''5'') (ANum (Finite 5)) AutoUnit 7 = Inr 50000000"
    by (simp add: parseToStroops_def parseDecimalStringToStroops_def match_decimal_def STROOPS_PER_UNIT_def)
  show "parseToStroops (\<lambda>_. ''5'') (AStr ''5'') AutoUnit 7 = Inr 5" by code_simp
qed

lemma bad_bound_is_thrown:
  "validateAmount num_text (ABig 5) (no_options\<lparr>ao_max := Some (AStr ''abc'')\<rparr>) = Inl BoundSyntaxError"
  by code_simp

lemma negative_print_is_not_parsed: "parseAmount (formatAmount (- 1)) = Inl (BadFraction ''00000-1'')"
  by code_simp

lemma extra_decimals_dropped: "parseDecimalStringToStroops ''0.00000019'' 8 = Inr 1"
  by code_simp

lemma inherited_group_throws: "groupBy (\<lambda>x. x) [''constructor''] = None"
  by code_simp

end
