(* ===== verification/Batch_Scheduler.thy ===== *)
theory Batch_Scheduler
  imports Prelude
begin

text \<open>
  \<open>paymentBatchScheduler.ts\<close>: batches of payments that a timer executes at their time, with cancelling
  and execution by hand. A batch is stored under its identifier. An execution is cut where it waits
  for the executor. Timers are those of the platform: \<open>setTimeout\<close> takes a delay of more than
  \<open>2 ^ 31 - 1\<close> milliseconds, or less than one, for one millisecond. Listeners run inside the calls and
  may throw: \<open>thrown\<close> gives the error that the listeners of an event end with, if any.
\<close>

section \<open>Data\<close>

record batch_payment =
  bp_id :: string
  bp_amount :: rat
  bp_currency :: string
  bp_recipient :: string

datatype batch_status = BScheduled | BExecuting | BExecuted | BCancelled | BFailed

record payment_batch =
  pb_id :: string
  pb_payments :: "batch_payment list"
  pb_scheduledAt :: int
  pb_status :: batch_status
  pb_createdAt :: int
  pb_executedAt :: "int option"
  pb_error :: "string option"

datatype schedule_error = EmptyBatch | BatchTooLarge nat nat | NotFinite | BatchExists string | ListenerThrew string

datatype batch_event =
    BatchScheduled string
  | BatchExecuted string
  | BatchCancelled string
  | BatchFailed string string

text \<open>
  \<open>bs_timers\<close> maps an identifier to the time its timer runs off; \<open>bs_started\<close> lists the calls of the
  executor with the time and the payments.
\<close>

record batch_scheduler =
  bs_batches :: "(string \<times> payment_batch) list"
  bs_timers :: "(string \<times> int) list"
  bs_maxBatchSize :: nat
  bs_sequence :: nat
  bs_started :: "(string \<times> int \<times> batch_payment list) list"
  bs_events :: "batch_event list"

definition scheduler_new :: "nat option \<Rightarrow> batch_scheduler" where
  "scheduler_new maxSize =
     \<lparr>bs_batches = [], bs_timers = [], bs_maxBatchSize = (case maxSize of None \<Rightarrow> 100 | Some n \<Rightarrow> n),
      bs_sequence = 0, bs_started = [], bs_events = []\<rparr>"

section \<open>Operations\<close>

definition platform_delay :: "int \<Rightarrow> int" where
  "platform_delay d = (if d > 2147483647 \<or> d < 1 then 1 else d)"

definition emit_batch :: "batch_event \<Rightarrow> batch_scheduler \<Rightarrow> batch_scheduler" where
  "emit_batch e s = s\<lparr>bs_events := bs_events s @ [e]\<rparr>"

definition armTimer :: "payment_batch \<Rightarrow> int \<Rightarrow> batch_scheduler \<Rightarrow> batch_scheduler" where
  "armTimer b now s =
     (let delay = max 0 (pb_scheduledAt b - now)
      in s\<lparr>bs_timers := AList.update (pb_id b) (now + platform_delay delay) (bs_timers s)\<rparr>)"

definition disarmTimer :: "string \<Rightarrow> batch_scheduler \<Rightarrow> batch_scheduler" where
  "disarmTimer i s = s\<lparr>bs_timers := AList.delete i (bs_timers s)\<rparr>"

definition put_batch :: "payment_batch \<Rightarrow> batch_scheduler \<Rightarrow> batch_scheduler" where
  "put_batch b s = s\<lparr>bs_batches := AList.update (pb_id b) b (bs_batches s)\<rparr>"

definition nextBatchId :: "int \<Rightarrow> nat \<Rightarrow> string" where
  "nextBatchId now n = ''batch_'' @ show_int now @ ''_'' @ show_nat n"

text \<open>\<open>schedule\<close>; a time of \<open>None\<close> is \<open>NaN\<close> or infinite. A listener's error comes after the batch is stored.\<close>

definition schedule_batch ::
  "(batch_event \<Rightarrow> string option) \<Rightarrow> batch_payment list \<Rightarrow> int option \<Rightarrow> string option \<Rightarrow> int \<Rightarrow> batch_scheduler
    \<Rightarrow> (schedule_error + payment_batch) \<times> batch_scheduler" where
  "schedule_batch thrown ps tm given now s =
     (if ps = [] then (Inl EmptyBatch, s)
      else if length ps > bs_maxBatchSize s then (Inl (BatchTooLarge (length ps) (bs_maxBatchSize s)), s)
      else case tm of
        None \<Rightarrow> (Inl NotFinite, s)
      | Some t \<Rightarrow>
          let s1 = (if given = None then s\<lparr>bs_sequence := bs_sequence s + 1\<rparr> else s);
              i = (case given of Some i \<Rightarrow> i | None \<Rightarrow> nextBatchId now (bs_sequence s1))
          in if map_of (bs_batches s1) i \<noteq> None then (Inl (BatchExists i), s1)
             else let b = \<lparr>pb_id = i, pb_payments = ps, pb_scheduledAt = t, pb_status = BScheduled,
                           pb_createdAt = now, pb_executedAt = None, pb_error = None\<rparr>;
                      s2 = emit_batch (BatchScheduled i) (armTimer b now (put_batch b s1))
                  in ((case thrown (BatchScheduled i) of None \<Rightarrow> Inr b | Some e \<Rightarrow> Inl (ListenerThrew e)), s2))"

definition cancel_batch ::
  "(batch_event \<Rightarrow> string option) \<Rightarrow> string \<Rightarrow> batch_scheduler \<Rightarrow> (schedule_error + bool) \<times> batch_scheduler" where
  "cancel_batch thrown i s =
     (case map_of (bs_batches s) i of
        None \<Rightarrow> (Inr False, s)
      | Some b \<Rightarrow>
          if pb_status b \<noteq> BScheduled then (Inr False, s)
          else ((case thrown (BatchCancelled i) of None \<Rightarrow> Inr True | Some e \<Rightarrow> Inl (ListenerThrew e)),
                emit_batch (BatchCancelled i) (put_batch (b\<lparr>pb_status := BCancelled\<rparr>) (disarmTimer i s))))"

definition dispose_timers :: "batch_scheduler \<Rightarrow> batch_scheduler" where
  "dispose_timers s = s\<lparr>bs_timers := []\<rparr>"

text \<open>\<open>listBatches\<close>, ordered by scheduled time, then creation time.\<close>

definition batch_cmp :: "payment_batch \<Rightarrow> payment_batch \<Rightarrow> rat" where
  "batch_cmp a b =
     (if pb_scheduledAt a \<noteq> pb_scheduledAt b then of_int (pb_scheduledAt a - pb_scheduledAt b)
      else of_int (pb_createdAt a - pb_createdAt b))"

definition listBatches :: "batch_scheduler \<Rightarrow> payment_batch list" where
  "listBatches s = js_sort batch_cmp (map snd (bs_batches s))"

text \<open>\<open>execute\<close> up to the executor, and after it.\<close>

definition execute_start :: "string \<Rightarrow> int \<Rightarrow> batch_scheduler \<Rightarrow> batch_scheduler" where
  "execute_start i now s =
     (case map_of (bs_batches s) i of
        None \<Rightarrow> s
      | Some b \<Rightarrow>
          if pb_status b \<noteq> BScheduled then s
          else (put_batch (b\<lparr>pb_status := BExecuting\<rparr>) (disarmTimer i s))
                 \<lparr>bs_started := bs_started s @ [(i, now, pb_payments b)]\<rparr>)"

definition execution_failed :: "payment_batch \<Rightarrow> string \<Rightarrow> batch_scheduler \<Rightarrow> batch_scheduler" where
  "execution_failed b e s =
     emit_batch (BatchFailed (pb_id b) e) (put_batch (b\<lparr>pb_status := BFailed, pb_error := Some e\<rparr>) s)"

definition execution_end ::
  "(batch_event \<Rightarrow> string option) \<Rightarrow> string \<Rightarrow> string option \<Rightarrow> int \<Rightarrow> batch_scheduler \<Rightarrow> batch_scheduler" where
  "execution_end thrown i failure now s =
     (case map_of (bs_batches s) i of
        None \<Rightarrow> s
      | Some b \<Rightarrow>
          if pb_status b \<noteq> BExecuting then s
          else case failure of
            Some e \<Rightarrow> execution_failed b e s
          | None \<Rightarrow>
              let b1 = b\<lparr>pb_status := BExecuted, pb_executedAt := Some now\<rparr>;
                  s1 = emit_batch (BatchExecuted i) (put_batch b1 s)
              in case thrown (BatchExecuted i) of None \<Rightarrow> s1 | Some e \<Rightarrow> execution_failed b1 e s1)"

text \<open>A timer runs off, not before its time.\<close>

definition timer_fires :: "string \<Rightarrow> int \<Rightarrow> batch_scheduler \<Rightarrow> batch_scheduler" where
  "timer_fires i now s =
     (case map_of (bs_timers s) i of
        None \<Rightarrow> s
      | Some due \<Rightarrow> if due \<le> now then execute_start i now (disarmTimer i s) else s)"

datatype batch_call =
    ScheduleCall "batch_payment list" "int option" "string option" int
  | CancelCall string
  | ExecuteCall string int
  | TimerFires string int
  | ExecutorEnds string "string option" int
  | DisposeCall

fun batch_step :: "(batch_event \<Rightarrow> string option) \<Rightarrow> batch_scheduler \<Rightarrow> batch_call \<Rightarrow> batch_scheduler" where
  "batch_step thrown s (ScheduleCall ps tm i now) = snd (schedule_batch thrown ps tm i now s)"
| "batch_step thrown s (CancelCall i) = snd (cancel_batch thrown i s)"
| "batch_step thrown s (ExecuteCall i now) = execute_start i now s"
| "batch_step thrown s (TimerFires i now) = timer_fires i now s"
| "batch_step thrown s (ExecutorEnds i r now) = execution_end thrown i r now s"
| "batch_step thrown s DisposeCall = dispose_timers s"

section \<open>Invariants\<close>

text \<open>A batch under its own name; the executor was called for it once, or never, as its status says.\<close>

definition was_started :: "payment_batch \<Rightarrow> bool" where
  "was_started b \<longleftrightarrow> pb_status b = BExecuting \<or> pb_status b = BExecuted \<or> pb_status b = BFailed"

definition batch_ok :: "(string \<times> int \<times> batch_payment list) list \<Rightarrow> string \<Rightarrow> payment_batch \<Rightarrow> bool" where
  "batch_ok started i b \<longleftrightarrow> pb_id b = i \<and> (was_started b \<longleftrightarrow> i \<in> fst ` set started)"

definition run_ok :: "(string \<times> payment_batch) list \<Rightarrow> string \<times> int \<times> batch_payment list \<Rightarrow> bool" where
  "run_ok bs r \<longleftrightarrow> (case map_of bs (fst r) of None \<Rightarrow> False | Some b \<Rightarrow> pb_payments b = snd (snd r))"

definition started_ok :: "batch_scheduler \<Rightarrow> bool" where
  "started_ok s \<longleftrightarrow>
     distinct (map fst (bs_started s))
     \<and> (\<forall>i b. map_of (bs_batches s) i = Some b \<longrightarrow> batch_ok (bs_started s) i b)
     \<and> (\<forall>r \<in> set (bs_started s). run_ok (bs_batches s) r)"

lemma started_okI:
  assumes "distinct (map fst (bs_started s))"
    and "\<And>i b. map_of (bs_batches s) i = Some b \<Longrightarrow> batch_ok (bs_started s) i b"
    and "\<And>r. r \<in> set (bs_started s) \<Longrightarrow> run_ok (bs_batches s) r"
  shows "started_ok s"
  using assms unfolding started_ok_def by simp

lemma started_okD:
  assumes "started_ok s"
  shows "distinct (map fst (bs_started s))"
    and "map_of (bs_batches s) i = Some b \<Longrightarrow> batch_ok (bs_started s) i b"
    and "r \<in> set (bs_started s) \<Longrightarrow> run_ok (bs_batches s) r"
  using assms unfolding started_ok_def by simp_all

text \<open>Replacing a batch by one with the same name and payments, without calling the executor.\<close>

lemma started_ok_put:
  assumes "started_ok s" "map_of (bs_batches s) i = Some b" "pb_id b' = i" "pb_payments b' = pb_payments b"
    and "was_started b' = was_started b"
    and "bs_batches s' = AList.update i b' (bs_batches s)" "bs_started s' = bs_started s"
  shows "started_ok s'"
proof (rule started_okI)
  note d = started_okD [OF assms(1)]
  show "distinct (map fst (bs_started s'))" using d(1) by (simp add: assms(7))
  show "batch_ok (bs_started s') j c" if "map_of (bs_batches s') j = Some c" for j c
    using that d(2) [OF assms(2)] d(2) [of j c] assms(3,5)
    by (cases "j = i") (simp_all add: assms(6,7) batch_ok_def)
  show "run_ok (bs_batches s') r" if "r \<in> set (bs_started s')" for r
    using d(3) [of r] that assms(2,4) by (cases "fst r = i") (simp_all add: assms(6,7) run_ok_def)
qed

lemma scheduled_not_started: "pb_status b = BScheduled \<or> pb_status b = BCancelled \<Longrightarrow> \<not> was_started b"
  by (auto simp: was_started_def)

lemma schedule_started_ok:
  assumes "started_ok s" shows "started_ok (snd (schedule_batch thrown ps tm i now s))"
proof -
  have "started_ok (emit_batch e (armTimer b now (put_batch b s')))"
    if "map_of (bs_batches s') (pb_id b) = None" "pb_status b = BScheduled" "bs_batches s' = bs_batches s" "bs_started s' = bs_started s"
    for e b s'
  proof (rule started_okI)
    let ?s = "emit_batch e (armTimer b now (put_batch b s'))"
    have st: "bs_batches ?s = AList.update (pb_id b) b (bs_batches s)" "bs_started ?s = bs_started s"
      using that by (simp_all add: emit_batch_def armTimer_def put_batch_def Let_def)
    note d = started_okD [OF assms]
    have new: "pb_id b \<notin> fst ` set (bs_started s)"
    proof
      assume "pb_id b \<in> fst ` set (bs_started s)"
      then obtain r where "r \<in> set (bs_started s)" "fst r = pb_id b" by (metis imageE)
      with d(3) [of r] that(1,3) show False by (simp add: run_ok_def)
    qed
    show "distinct (map fst (bs_started ?s))" using d(1) by (simp add: st)
    show "batch_ok (bs_started ?s) j c" if "map_of (bs_batches ?s) j = Some c" for j c
      using that d(2) [of j c] new scheduled_not_started [of b] \<open>pb_status b = BScheduled\<close>
      unfolding st by (cases "j = pb_id b") (simp_all add: batch_ok_def)
    show "run_ok (bs_batches ?s) r" if "r \<in> set (bs_started ?s)" for r
    proof -
      from that have r: "r \<in> set (bs_started s)" by (simp add: st)
      with new have "fst r \<noteq> pb_id b" by (metis imageI)
      with d(3) [OF r] show ?thesis by (simp add: st run_ok_def)
    qed
  qed
  moreover have "started_ok (s\<lparr>bs_sequence := n\<rparr>)" for n using assms by (simp add: started_ok_def)
  ultimately show ?thesis using assms by (auto simp: schedule_batch_def Let_def split: option.splits)
qed

lemma execute_start_started_ok:
  assumes "started_ok s" shows "started_ok (execute_start i now s)"
proof (cases "map_of (bs_batches s) i")
  case (Some b)
  note d = started_okD [OF assms]
  show ?thesis
  proof (cases "pb_status b = BScheduled")
    case True
    have id: "pb_id b = i" "i \<notin> fst ` set (bs_started s)"
      using d(2) [OF Some] scheduled_not_started [of b] True by (auto simp: batch_ok_def)
    let ?s = "execute_start i now s"
    have st: "bs_batches ?s = AList.update i (b\<lparr>pb_status := BExecuting\<rparr>) (bs_batches s)"
        "bs_started ?s = bs_started s @ [(i, now, pb_payments b)]"
      using True Some id by (simp_all add: execute_start_def put_batch_def disarmTimer_def)
    show ?thesis
    proof (rule started_okI)
      show "distinct (map fst (bs_started ?s))" using d(1) id by (simp add: st)
      show "batch_ok (bs_started ?s) j c" if "map_of (bs_batches ?s) j = Some c" for j c
        using that d(2) [of j c] id by (cases "j = i") (auto simp: st batch_ok_def was_started_def)
      show "run_ok (bs_batches ?s) r" if "r \<in> set (bs_started ?s)" for r
        using d(3) [of r] that id Some by (cases "fst r = i") (auto simp: st run_ok_def)
    qed
  qed (use assms Some in \<open>simp add: execute_start_def\<close>)
qed (use assms in \<open>simp add: execute_start_def\<close>)

lemma execution_end_started_ok:
  assumes "started_ok s" shows "started_ok (execution_end thrown i failure now s)"
proof (cases "map_of (bs_batches s) i")
  case (Some b)
  have id: "pb_id b = i" using started_okD(2) [OF assms Some] by (simp add: batch_ok_def)
  have failed: "started_ok (execution_failed c e s')"
    if "started_ok s'" "map_of (bs_batches s') i = Some c" "was_started c" "pb_id c = i" for c e s'
    by (rule started_ok_put [OF that(1,2), of "c\<lparr>pb_status := BFailed, pb_error := Some e\<rparr>"])
      (use that in \<open>simp_all add: execution_failed_def emit_batch_def put_batch_def was_started_def\<close>)
  show ?thesis
  proof (cases "pb_status b = BExecuting")
    case True
    let ?b = "b\<lparr>pb_status := BExecuted, pb_executedAt := Some now\<rparr>"
    let ?s = "emit_batch (BatchExecuted i) (put_batch ?b s)"
    have "started_ok ?s"
      by (rule started_ok_put [OF assms Some, of ?b]) (use id True in \<open>simp_all add: emit_batch_def put_batch_def was_started_def\<close>)
    moreover have "map_of (bs_batches ?s) i = Some ?b" by (simp add: emit_batch_def put_batch_def id)
    ultimately show ?thesis
      using True Some id failed [of ?s ?b] failed [OF assms Some]
      by (simp add: execution_end_def Let_def was_started_def split: option.splits)
  qed (use assms Some in \<open>simp add: execution_end_def\<close>)
qed (use assms in \<open>simp add: execution_end_def\<close>)

lemma cancel_started_ok:
  assumes "started_ok s" shows "started_ok (snd (cancel_batch thrown i s))"
proof (cases "map_of (bs_batches s) i")
  case (Some b)
  have id: "pb_id b = i" using started_okD(2) [OF assms Some] by (simp add: batch_ok_def)
  show ?thesis
  proof (cases "pb_status b = BScheduled")
    case True
    have "started_ok (emit_batch (BatchCancelled i) (put_batch (b\<lparr>pb_status := BCancelled\<rparr>) (disarmTimer i s)))"
      by (rule started_ok_put [OF assms Some, of "b\<lparr>pb_status := BCancelled\<rparr>"])
        (use True id in \<open>simp_all add: emit_batch_def put_batch_def disarmTimer_def was_started_def\<close>)
    with True Some show ?thesis by (simp add: cancel_batch_def)
  qed (use assms Some in \<open>simp add: cancel_batch_def\<close>)
qed (use assms in \<open>simp add: cancel_batch_def\<close>)

lemma batch_step_started_ok: "started_ok s \<Longrightarrow> started_ok (batch_step thrown s c)"
proof (cases c)
  case (TimerFires i now)
  assume "started_ok s"
  then have "started_ok (disarmTimer i s)" by (simp add: disarmTimer_def started_ok_def)
  with \<open>started_ok s\<close> show ?thesis
    by (auto simp: TimerFires timer_fires_def execute_start_started_ok split: option.splits)
next
  case DisposeCall
  assume "started_ok s"
  then show ?thesis by (simp add: DisposeCall dispose_timers_def started_ok_def)
qed (simp_all add: schedule_started_ok cancel_started_ok execute_start_started_ok execution_end_started_ok)

interpretation batches: machine "batch_step thrown" started_ok
  by unfold_locales (rule batch_step_started_ok)

text \<open>A batch that was cancelled stays cancelled.\<close>

definition cancelled_batch :: "string \<Rightarrow> batch_scheduler \<Rightarrow> bool" where
  "cancelled_batch i s \<longleftrightarrow> map_option pb_status (map_of (bs_batches s) i) = Some BCancelled"

lemma cancelled_simps [simp]:
  "cancelled_batch i (put_batch b s) \<longleftrightarrow> (if pb_id b = i then pb_status b = BCancelled else cancelled_batch i s)"
  "cancelled_batch i (emit_batch e s) = cancelled_batch i s"
  "cancelled_batch i (disarmTimer j s) = cancelled_batch i s"
  "cancelled_batch i (armTimer b now s) = cancelled_batch i s"
  "cancelled_batch i (s\<lparr>bs_started := st\<rparr>) = cancelled_batch i s"
  "cancelled_batch i (s\<lparr>bs_sequence := n\<rparr>) = cancelled_batch i s"
  by (simp_all add: cancelled_batch_def put_batch_def emit_batch_def disarmTimer_def armTimer_def Let_def)

lemma not_cancelled:
  "cancelled_batch i s \<Longrightarrow> map_of (bs_batches s) j = Some b \<Longrightarrow> pb_status b \<noteq> BCancelled \<Longrightarrow> j \<noteq> i"
  "cancelled_batch i s \<Longrightarrow> map_of (bs_batches s) j = None \<Longrightarrow> j \<noteq> i"
  by (auto simp: cancelled_batch_def)

lemma execute_start_keeps:
  assumes "started_ok s" "cancelled_batch i s" shows "cancelled_batch i (execute_start j now s)"
  using not_cancelled(1) [OF assms(2), of j] started_okD(2) [OF assms(1), of j] assms(2)
  by (simp add: execute_start_def batch_ok_def split: option.split)

lemma schedule_keeps:
  assumes "cancelled_batch i s" shows "cancelled_batch i (snd (schedule_batch thrown ps tm j now s))"
  using not_cancelled(2) [OF assms] assms
  by (auto simp: schedule_batch_def Let_def split: option.split)

lemma cancel_keeps:
  assumes "started_ok s" "cancelled_batch i s" shows "cancelled_batch i (snd (cancel_batch thrown j s))"
  using started_okD(2) [OF assms(1), of j] assms(2)
  by (simp add: cancel_batch_def batch_ok_def split: option.split)

lemma execution_end_keeps:
  assumes "started_ok s" "cancelled_batch i s" shows "cancelled_batch i (execution_end thrown j r now s)"
  using not_cancelled(1) [OF assms(2), of j] started_okD(2) [OF assms(1), of j] assms(2)
  by (simp add: execution_end_def execution_failed_def batch_ok_def Let_def split: option.split)

lemma batch_step_keeps_cancelled:
  assumes "started_ok s" "cancelled_batch i s" shows "cancelled_batch i (batch_step thrown s c)"
proof (cases c)
  case (TimerFires j now)
  have "started_ok (disarmTimer j s)" "cancelled_batch i (disarmTimer j s)"
    using assms by (simp_all add: disarmTimer_def [of j s] started_ok_def cancelled_batch_def)
  with assms(2) show ?thesis
    by (simp add: TimerFires timer_fires_def execute_start_keeps split: option.split)
qed (use assms in \<open>simp_all add: execute_start_keeps schedule_keeps cancel_keeps execution_end_keeps dispose_timers_def\<close>,
    simp add: cancelled_batch_def)

interpretation cancelled_batches: latched_machine "batch_step thrown" started_ok "cancelled_batch i"
  by unfold_locales (rule batch_step_keeps_cancelled)

lemma started_ok_new: "started_ok (scheduler_new maxSize)"
  by (simp add: started_ok_def scheduler_new_def)

section \<open>Time\<close>

text \<open>
  What holds of batches that nobody executes by hand: a timer is armed for every scheduled batch, none
  runs off before its batch's time, and no batch was started before.
\<close>

definition not_before :: "(string \<times> payment_batch) list \<Rightarrow> string \<Rightarrow> int \<Rightarrow> bool" where
  "not_before bs i t \<longleftrightarrow> (case map_of bs i of None \<Rightarrow> False | Some b \<Rightarrow> pb_scheduledAt b \<le> t)"

definition timed :: "batch_scheduler \<Rightarrow> bool" where
  "timed s \<longleftrightarrow> (\<forall>i t. map_of (bs_timers s) i = Some t \<longrightarrow> not_before (bs_batches s) i t)
     \<and> (\<forall>r \<in> set (bs_started s). not_before (bs_batches s) (fst r) (fst (snd r)))
     \<and> (\<forall>i b. map_of (bs_batches s) i = Some b \<longrightarrow> pb_id b = i \<and> (pb_status b = BScheduled \<longrightarrow> map_of (bs_timers s) i \<noteq> None))"

fun unhurried :: "batch_call \<Rightarrow> bool" where
  "unhurried (ExecuteCall i now) = False"
| "unhurried DisposeCall = False"
| "unhurried (ScheduleCall ps (Some t) i now) = (t - now \<le> 2147483647)"
| "unhurried c = True"

lemma timedI:
  assumes "\<And>i t. map_of (bs_timers s) i = Some t \<Longrightarrow> not_before (bs_batches s) i t"
    and "\<And>r. r \<in> set (bs_started s) \<Longrightarrow> not_before (bs_batches s) (fst r) (fst (snd r))"
    and "\<And>i b. map_of (bs_batches s) i = Some b \<Longrightarrow> pb_id b = i \<and> (pb_status b = BScheduled \<longrightarrow> map_of (bs_timers s) i \<noteq> None)"
  shows "timed s"
  using assms unfolding timed_def by simp

lemma timedD:
  assumes "timed s"
  shows "map_of (bs_timers s) i = Some t \<Longrightarrow> not_before (bs_batches s) i t"
    and "r \<in> set (bs_started s) \<Longrightarrow> not_before (bs_batches s) (fst r) (fst (snd r))"
    and "map_of (bs_batches s) i = Some b \<Longrightarrow> pb_id b = i \<and> (pb_status b = BScheduled \<longrightarrow> map_of (bs_timers s) i \<noteq> None)"
  using assms unfolding timed_def by simp_all

lemma not_before_put:
  "map_of bs i = Some b \<Longrightarrow> pb_scheduledAt b' = pb_scheduledAt b \<Longrightarrow> not_before (AList.update i b' bs) j t = not_before bs j t"
  by (simp add: not_before_def)

text \<open>A batch that is no longer scheduled takes the place of the old one; its timer may be gone.\<close>

lemma timed_put:
  assumes "timed s" "map_of (bs_batches s) i = Some b" "pb_id b' = i" "pb_scheduledAt b' = pb_scheduledAt b"
    and "pb_status b' \<noteq> BScheduled" "bs_batches s' = AList.update i b' (bs_batches s)"
    and "bs_timers s' = bs_timers s \<or> bs_timers s' = AList.delete i (bs_timers s)"
    and "\<And>r. r \<in> set (bs_started s') \<Longrightarrow> r \<in> set (bs_started s) \<or> not_before (bs_batches s) (fst r) (fst (snd r))"
  shows "timed s'"
proof (rule timedI)
  note d = timedD [OF assms(1)]
  note nb = not_before_put [OF assms(2,4)]
  show "not_before (bs_batches s') j t" if "map_of (bs_timers s') j = Some t" for j t
    using that assms(7) d(1) [of j t] by (auto simp: assms(6) nb split: if_splits)
  show "not_before (bs_batches s') (fst r) (fst (snd r))" if "r \<in> set (bs_started s')" for r
    using assms(8) [OF that] d(2) [of r] by (auto simp: assms(6) nb)
  show "pb_id c = j \<and> (pb_status c = BScheduled \<longrightarrow> map_of (bs_timers s') j \<noteq> None)" if "map_of (bs_batches s') j = Some c" for j c
    using that assms(3,5,7) d(3) [of j c] by (cases "j = i") (auto simp: assms(6))
qed

lemma platform_delay_reaches: "t - now \<le> 2147483647 \<Longrightarrow> t \<le> now + platform_delay (max 0 (t - now))"
  by (auto simp: platform_delay_def max_def)

lemma schedule_timed:
  assumes "timed s" "\<And>t. tm = Some t \<Longrightarrow> t - now \<le> 2147483647"
  shows "timed (snd (schedule_batch thrown ps tm i now s))"
proof -
  have "timed (emit_batch e (armTimer b now (put_batch b s')))"
    if new: "map_of (bs_batches s') (pb_id b) = None" and s': "bs_batches s' = bs_batches s" "bs_started s' = bs_started s"
      "bs_timers s' = bs_timers s" and tm: "pb_scheduledAt b - now \<le> 2147483647" for e b s'
  proof (rule timedI)
    let ?s = "emit_batch e (armTimer b now (put_batch b s'))"
    have st: "bs_batches ?s = AList.update (pb_id b) b (bs_batches s)" "bs_started ?s = bs_started s"
        "bs_timers ?s = AList.update (pb_id b) (now + platform_delay (max 0 (pb_scheduledAt b - now))) (bs_timers s)"
      using s' by (simp_all add: emit_batch_def armTimer_def put_batch_def Let_def)
    note d = timedD [OF assms(1)]
    have nb: "not_before (bs_batches ?s) j t" if "not_before (bs_batches s) j t" for j t
      using that new s'(1) by (auto simp: st not_before_def split: option.splits)
    show "not_before (bs_batches ?s) j t" if "map_of (bs_timers ?s) j = Some t" for j t
      using that d(1) [of j t] nb [of j t] platform_delay_reaches [OF tm]
      by (cases "j = pb_id b") (auto simp: st not_before_def)
    show "not_before (bs_batches ?s) (fst r) (fst (snd r))" if "r \<in> set (bs_started ?s)" for r
      using nb d(2) [of r] that by (simp add: st(2))
    show "pb_id c = j \<and> (pb_status c = BScheduled \<longrightarrow> map_of (bs_timers ?s) j \<noteq> None)" if "map_of (bs_batches ?s) j = Some c" for j c
      using that d(3) [of j c] unfolding st by (cases "j = pb_id b") simp_all
  qed
  moreover have "timed (s\<lparr>bs_sequence := n\<rparr>)" for n using assms(1) by (simp add: timed_def)
  ultimately show ?thesis using assms by (auto simp: schedule_batch_def Let_def split: option.splits)
qed

lemma timer_fires_timed:
  assumes "timed s" shows "timed (timer_fires i now s)"
proof (cases "map_of (bs_timers s) i")
  case (Some due)
  note d = timedD [OF assms]
  from d(1) [OF Some] obtain b where b: "map_of (bs_batches s) i = Some b" "pb_scheduledAt b \<le> due"
    by (auto simp: not_before_def split: option.splits)
  show ?thesis
  proof (cases "due \<le> now")
    case True
    show ?thesis
    proof (cases "pb_status b = BScheduled")
      case sched: True
      have "timed (execute_start i now (disarmTimer i s))"
        by (rule timed_put [OF assms b(1), of "b\<lparr>pb_status := BExecuting\<rparr>"])
          (use b d(3) [OF b(1)] sched True in \<open>auto simp: execute_start_def disarmTimer_def put_batch_def not_before_def delete_idem\<close>)
      with Some True show ?thesis by (simp add: timer_fires_def)
    next
      case False
      have "timed (disarmTimer i s)"
        using d b(1) False unfolding timed_def by (auto simp: disarmTimer_def)
      with Some True False b(1) show ?thesis by (simp add: timer_fires_def execute_start_def disarmTimer_def)
    qed
  qed (use Some assms in \<open>simp add: timer_fires_def\<close>)
qed (use assms in \<open>simp add: timer_fires_def\<close>)

lemma cancel_timed:
  assumes "timed s" shows "timed (snd (cancel_batch thrown i s))"
proof (cases "map_of (bs_batches s) i")
  case (Some b)
  show ?thesis
  proof (cases "pb_status b = BScheduled")
    case True
    have "timed (emit_batch (BatchCancelled i) (put_batch (b\<lparr>pb_status := BCancelled\<rparr>) (disarmTimer i s)))"
      by (rule timed_put [OF assms Some, of "b\<lparr>pb_status := BCancelled\<rparr>"])
        (use timedD(3) [OF assms Some] in \<open>simp_all add: emit_batch_def put_batch_def disarmTimer_def\<close>)
    with Some True show ?thesis by (simp add: cancel_batch_def)
  qed (use Some assms in \<open>simp add: cancel_batch_def\<close>)
qed (use assms in \<open>simp add: cancel_batch_def\<close>)

lemma execution_end_timed:
  assumes "timed s" shows "timed (execution_end thrown i failure now s)"
proof (cases "map_of (bs_batches s) i")
  case (Some b)
  have failed: "timed (execution_failed c e s')"
    if "timed s'" "map_of (bs_batches s') i = Some c" "pb_id c = i" for c e s'
    by (rule timed_put [OF that(1,2), of "c\<lparr>pb_status := BFailed, pb_error := Some e\<rparr>"])
      (use that in \<open>simp_all add: execution_failed_def emit_batch_def put_batch_def\<close>)
  have id: "pb_id b = i" using timedD(3) [OF assms Some] by simp
  let ?b = "b\<lparr>pb_status := BExecuted, pb_executedAt := Some now\<rparr>"
  let ?s = "emit_batch (BatchExecuted i) (put_batch ?b s)"
  have "timed ?s"
    by (rule timed_put [OF assms Some, of ?b]) (use id in \<open>simp_all add: emit_batch_def put_batch_def\<close>)
  moreover have "map_of (bs_batches ?s) i = Some ?b" by (simp add: emit_batch_def put_batch_def id)
  ultimately show ?thesis
    using assms Some id failed [of ?s ?b] failed [OF assms Some]
    by (simp add: execution_end_def Let_def split: option.splits)
qed (use assms in \<open>simp add: execution_end_def\<close>)

lemma batch_step_timed: "timed s \<Longrightarrow> unhurried c \<Longrightarrow> timed (batch_step thrown s c)"
  by (cases c rule: unhurried.cases) (auto simp: timer_fires_timed cancel_timed execution_end_timed intro!: schedule_timed)

interpretation timely_batches: machine "\<lambda>s c. if unhurried c then batch_step thrown s c else s" timed
  by unfold_locales (simp add: batch_step_timed)

lemma timed_new: "timed (scheduler_new maxSize)"
  by (simp add: timed_def scheduler_new_def)

section \<open>Properties\<close>

text \<open>
  C32: Whatever calls, timers and executions interleave, and whatever listeners throw: the executor is
  called at most once per batch, with the payments it was scheduled with; and from the moment a batch
  is cancelled, it never is.
\<close>
theorem batch_executed_once:
  assumes "s = foldl (batch_step thrown) (scheduler_new maxSize) calls"
  shows "distinct (map fst (bs_started s))
    \<and> (\<forall>(i, t, ps) \<in> set (bs_started s). \<exists>b. map_of (bs_batches s) i = Some b \<and> pb_payments b = ps)
    \<and> (cancelled_batch i s \<longrightarrow> i \<notin> fst ` set (bs_started (foldl (batch_step thrown) s later)))"
proof -
  have ok: "started_ok s" unfolding assms by (rule batches.run_inv) (rule started_ok_new)
  have "i \<notin> fst ` set (bs_started (foldl (batch_step thrown) s later))" if "cancelled_batch i s"
  proof -
    let ?t = "foldl (batch_step thrown) s later"
    from cancelled_batches.run_latched [OF ok that]
    obtain b where "map_of (bs_batches ?t) i = Some b" "pb_status b = BCancelled" by (auto simp: cancelled_batch_def)
    with started_okD(2) [OF batches.run_inv [OF ok, of thrown later], of i b] show ?thesis by (simp add: batch_ok_def was_started_def)
  qed
  moreover have "\<forall>(i, t, ps) \<in> set (bs_started s). \<exists>b. map_of (bs_batches s) i = Some b \<and> pb_payments b = ps"
    using started_okD(3) [OF ok] by (force simp: run_ok_def split: option.splits)
  ultimately show ?thesis using started_okD(1) [OF ok] by blast
qed

text \<open>
  C6: As long as nobody executes by hand or disposes, and batches are scheduled at most \<open>2 ^ 31 - 1\<close>
  milliseconds ahead, no batch is started before its time, and each one still scheduled has a timer.
\<close>
theorem batch_not_early:
  assumes "s = foldl (batch_step thrown) (scheduler_new maxSize) calls" "\<forall>c \<in> set calls. unhurried c"
  shows "(\<forall>(i, t, ps) \<in> set (bs_started s). \<exists>b. map_of (bs_batches s) i = Some b \<and> pb_scheduledAt b \<le> t)
    \<and> (\<forall>(i, b) \<in> set (bs_batches s). map_of (bs_batches s) i = Some b \<and> pb_status b = BScheduled \<longrightarrow> i \<in> fst ` set (bs_timers s))"
proof -
  have "foldl (batch_step thrown) s0 cs = foldl (\<lambda>s c. if unhurried c then batch_step thrown s c else s) s0 cs"
    if "\<forall>c \<in> set cs. unhurried c" for s0 cs
    using that by (induction cs arbitrary: s0) simp_all
  then have t: "timed s" using timely_batches.run_inv [OF timed_new] assms by simp
  have "\<exists>b. map_of (bs_batches s) i = Some b \<and> pb_scheduledAt b \<le> t" if "(i, t, ps) \<in> set (bs_started s)" for i t ps
    using timedD(2) [OF t that] by (auto simp: not_before_def split: option.splits)
  moreover have "i \<in> fst ` set (bs_timers s)" if "map_of (bs_batches s) i = Some b" "pb_status b = BScheduled" for i b
    using timedD(3) [OF t that(1)] that(2) by (force dest: map_of_SomeD)
  ultimately show ?thesis by auto
qed

section \<open>Examples\<close>

definition sample_payments :: "batch_payment list" where
  "sample_payments = [\<lparr>bp_id = ''p'', bp_amount = 5, bp_currency = ''XLM'', bp_recipient = ''GB''\<rparr>]"

lemma batch_executed_once_witness:
  "\<exists>s :: batch_scheduler. map fst (bs_started s) = [''a''] \<and> cancelled_batch ''b'' s
     \<and> ''b'' \<notin> fst ` set (bs_started (batch_step (\<lambda>_. None) s (ExecuteCall ''b'' 9)))"
proof -
  define s where "s = foldl (batch_step (\<lambda>_. None)) (scheduler_new None)
    [ScheduleCall sample_payments (Some 5) (Some ''a'') 0, ScheduleCall sample_payments (Some 6) (Some ''b'') 0,
     TimerFires ''a'' 5, TimerFires ''a'' 5, CancelCall ''b'']"
  have "map fst (bs_started s) = [''a'']" "cancelled_batch ''b'' s" unfolding s_def by code_simp+
  with batch_executed_once [OF s_def, of "''b''" "[ExecuteCall ''b'' 9]"] show ?thesis
    by (intro exI [of _ s]) simp
qed

lemma batch_not_early_witness:
  "\<exists>s :: batch_scheduler. bs_started s = [(''a'', 7, sample_payments)] \<and>
     (\<exists>b. map_of (bs_batches s) ''a'' = Some b \<and> pb_scheduledAt b \<le> 7)"
proof -
  let ?calls = "[ScheduleCall sample_payments (Some 5) (Some ''a'') 0, TimerFires ''a'' 4, TimerFires ''a'' 7]"
  define s where "s = foldl (batch_step (\<lambda>_. None)) (scheduler_new None) ?calls"
  have "bs_started s = [(''a'', 7, sample_payments)]" unfolding s_def by code_simp
  with batch_not_early [OF s_def] show ?thesis by auto
qed

text \<open>A batch scheduled further ahead than the platform's timers reach is executed at once.\<close>

lemma far_batch_runs_at_once:
  "map fst (bs_started (foldl (batch_step (\<lambda>_. None)) (scheduler_new None)
     [ScheduleCall sample_payments (Some 2592000000) (Some ''month'') 0, TimerFires ''month'' 1])) = [''month'']"
  by code_simp

text \<open>A listener of \<open>executed\<close> that throws turns an executed batch into a failed one.\<close>

lemma throwing_listener_fails_executed_batch:
  "map_option pb_status (map_of (bs_batches (foldl (batch_step (\<lambda>e. if e = BatchExecuted ''a'' then Some ''boom'' else None)) (scheduler_new None)
     [ScheduleCall sample_payments (Some 5) (Some ''a'') 0, TimerFires ''a'' 5, ExecutorEnds ''a'' None 6])) ''a'') = Some BFailed"
  by code_simp

end
