(* ===== verification/Cache.thy ===== *)
theory Cache
  imports Prelude
begin

text \<open>
  \<open>cache.ts\<close>: \<open>SimpleCache\<close>, the bounded cache with a lifetime per method that the client and the
  sequence cache use, \<open>Cache\<close>, the unbounded one, and \<open>NonceDeduplicator\<close>. The interface
  \<open>keyed_store\<close> says what a cache may forget and what it may not do: answer with anything but the
  last value written. Events are the calls of \<open>emit\<close>, in order; the codec of the same file is in
  \<open>Compressor\<close>. \<open>set\<close> stores values as they are: the private method that would compress them has no
  caller. Lifetimes come from a plain object, whose inherited members are found too.
\<close>

section \<open>Simple cache\<close>

datatype cache_event =
    Hit string | Miss string | SetEv string | Evict string | Invalidate string | Expire string

text \<open>An expiry of \<open>None\<close> is not a number: it compares with no time (see \<open>ttl_for\<close>).\<close>

record 'v method_entry =
  me_value :: 'v
  me_expiresAt :: "int option"

record 'v simple_cache =
  sc_store :: "(string \<times> 'v method_entry) list"
  sc_ttlConfig :: "(string \<times> int) list"
  sc_enabled :: bool
  sc_maxEntries :: int
  sc_hits :: int
  sc_misses :: int
  sc_evictions :: int

record simple_config =
  cfg_enabled :: "bool option"
  cfg_ttl :: "(string \<times> int) list option"
  cfg_ttlMs :: "int option"
  cfg_maxEntries :: "int option"

text \<open>The two forms of the constructor: a lifetime, or a configuration that may be absent.\<close>

definition simple_cache_of_ttl :: "int \<Rightarrow> 'v simple_cache" where
  "simple_cache_of_ttl ms =
     \<lparr>sc_store = [], sc_ttlConfig = [(''default'', ms)], sc_enabled = True, sc_maxEntries = 1000,
      sc_hits = 0, sc_misses = 0, sc_evictions = 0\<rparr>"

definition simple_cache_new :: "simple_config option \<Rightarrow> 'v simple_cache" where
  "simple_cache_new config =
     (let c = (case config of Some c \<Rightarrow> c | None \<Rightarrow> \<lparr>cfg_enabled = None, cfg_ttl = None, cfg_ttlMs = None, cfg_maxEntries = None\<rparr>);
          en = (case cfg_enabled c of Some e \<Rightarrow> e | None \<Rightarrow> cfg_ttl c \<noteq> None \<or> cfg_ttlMs c \<noteq> None);
          ttl = (case cfg_ttl c of Some t \<Rightarrow> t | None \<Rightarrow> [])
      in \<lparr>sc_store = [],
          sc_ttlConfig = (case cfg_ttlMs c of Some ms \<Rightarrow> AList.update ''default'' ms ttl | None \<Rightarrow> ttl),
          sc_enabled = en,
          sc_maxEntries = (case cfg_maxEntries c of Some m \<Rightarrow> m | None \<Rightarrow> if en then 1000 else 0),
          sc_hits = 0, sc_misses = 0, sc_evictions = 0\<rparr>)"

text \<open>\<open>Date.now() > expiresAt\<close> and \<open>now <= expiresAt\<close>, both false when the expiry is not a number.\<close>

definition past :: "int \<Rightarrow> int option \<Rightarrow> bool" where
  "past now expiresAt = (case expiresAt of None \<Rightarrow> False | Some t \<Rightarrow> now > t)"

definition not_past :: "int \<Rightarrow> int option \<Rightarrow> bool" where
  "not_past now expiresAt = (case expiresAt of None \<Rightarrow> False | Some t \<Rightarrow> now \<le> t)"

text \<open>A hit moves its entry to the end of the map: the order of the keys is the order of last use.\<close>

definition sc_get :: "string \<Rightarrow> int \<Rightarrow> 'v simple_cache \<Rightarrow> 'v option \<times> 'v simple_cache \<times> cache_event list" where
  "sc_get key now c =
     (if \<not> sc_enabled c then (None, c, [])
      else case map_of (sc_store c) key of
        None \<Rightarrow> (None, c\<lparr>sc_misses := sc_misses c + 1\<rparr>, [Miss key])
      | Some e \<Rightarrow>
          if past now (me_expiresAt e) then
            (None, c\<lparr>sc_store := AList.delete key (sc_store c), sc_misses := sc_misses c + 1\<rparr>, [Expire key, Miss key])
          else
            (Some (me_value e),
             c\<lparr>sc_store := AList.update key e (AList.delete key (sc_store c)), sc_hits := sc_hits c + 1\<rparr>, [Hit key]))"

text \<open>\<open>key.split(":")[0] || key\<close>\<close>

definition method_of :: "string \<Rightarrow> string" where
  "method_of key = (let m = takeWhile (\<lambda>ch. ch \<noteq> CHR '':'') key in if m = [] then key else m)"

text \<open>
  \<open>this.ttlConfig[method] ?? this.ttlConfig["default"] ?? 0\<close>. The configuration is a plain object: a
  method named like a member that every object inherits finds that member, which is not a number
  (\<open>None\<close>). It is not at most zero, and the sum with the time is not a number either.
\<close>

definition ttl_for :: "(string \<times> int) list \<Rightarrow> string \<Rightarrow> int option" where
  "ttl_for cfg key =
     (case map_of cfg (method_of key) of
        Some t \<Rightarrow> Some t
      | None \<Rightarrow>
          if method_of key \<in> set inherited_names then None
          else (case map_of cfg ''default'' of Some t \<Rightarrow> Some t | None \<Rightarrow> Some 0))"

definition lasting :: "int option \<Rightarrow> bool" where
  "lasting ttl = (case ttl of None \<Rightarrow> True | Some t \<Rightarrow> t > 0)"

definition expiry :: "int \<Rightarrow> int option \<Rightarrow> int option" where
  "expiry now ttl = map_option (\<lambda>t. now + t) ttl"

text \<open>The first key of the map makes room when the store is full and the key is new.\<close>

definition make_room :: "int \<Rightarrow> string \<Rightarrow> (string \<times> 'e) list \<Rightarrow> (string \<times> 'e) list \<times> string list" where
  "make_room m key s =
     (if m > 0 \<and> int (length s) \<ge> m \<and> map_of s key = None then
        (case s of [] \<Rightarrow> (s, []) | (oldest, _) # _ \<Rightarrow> (AList.delete oldest s, [oldest]))
      else (s, []))"

definition sc_set :: "string \<Rightarrow> 'v \<Rightarrow> int \<Rightarrow> 'v simple_cache \<Rightarrow> 'v simple_cache \<times> cache_event list" where
  "sc_set key v now c =
     (let ttl = ttl_for (sc_ttlConfig c) key
      in if \<not> sc_enabled c \<or> \<not> lasting ttl then (c, [])
         else case make_room (sc_maxEntries c) key (sc_store c) of
           (s, evicted) \<Rightarrow>
             (c\<lparr>sc_store := AList.update key \<lparr>me_value = v, me_expiresAt = expiry now ttl\<rparr> s,
                sc_evictions := sc_evictions c + int (length evicted)\<rparr>,
              map Evict evicted @ [SetEv key]))"

definition remove_keys :: "(string \<Rightarrow> bool) \<Rightarrow> 'v simple_cache \<Rightarrow> 'v simple_cache \<times> cache_event list" where
  "remove_keys P c =
     (c\<lparr>sc_store := filter (\<lambda>(k, e). \<not> P k) (sc_store c)\<rparr>, map (\<lambda>(k, e). Invalidate k) (filter (\<lambda>(k, e). P k) (sc_store c)))"

text \<open>
  \<open>invalidate\<close>: everything when the argument is absent or empty; one key when the arguments of a
  method are given, here as their JSON text; otherwise the key itself and every key it prefixes.
\<close>

definition sc_invalidate :: "string option \<Rightarrow> string option \<Rightarrow> 'v simple_cache \<Rightarrow> 'v simple_cache \<times> cache_event list" where
  "sc_invalidate methodOrKey args c =
     (case methodOrKey of
        None \<Rightarrow> remove_keys (\<lambda>k. True) c
      | Some m \<Rightarrow>
          if m = '''' then remove_keys (\<lambda>k. True) c
          else (case args of
                  Some a \<Rightarrow> remove_keys (\<lambda>k. k = m @ '':'' @ a) c
                | None \<Rightarrow>
                    (case remove_keys (\<lambda>k. k = m) c of
                       (c1, e1) \<Rightarrow> (case remove_keys (\<lambda>k. take (Suc (length m)) k = m @ '':'') c1 of (c2, e2) \<Rightarrow> (c2, e1 @ e2)))))"

definition sc_delete :: "string \<Rightarrow> 'v simple_cache \<Rightarrow> 'v simple_cache \<times> cache_event list" where
  "sc_delete key c = sc_invalidate (Some key) None c"

definition sc_clear :: "'v simple_cache \<Rightarrow> 'v simple_cache" where
  "sc_clear c = c\<lparr>sc_store := []\<rparr>"

record cache_stats =
  cs_hits :: int
  cs_misses :: int
  cs_size :: nat
  cs_keys :: "string list"
  cs_evictions :: int

definition sc_getStats :: "int \<Rightarrow> 'v simple_cache \<Rightarrow> cache_stats \<times> 'v simple_cache \<times> cache_event list" where
  "sc_getStats now c =
     (let live = filter (\<lambda>(k, e). \<not> past now (me_expiresAt e)) (sc_store c);
          dead = filter (\<lambda>(k, e). past now (me_expiresAt e)) (sc_store c)
      in (\<lparr>cs_hits = sc_hits c, cs_misses = sc_misses c, cs_size = length live, cs_keys = map fst live, cs_evictions = sc_evictions c\<rparr>,
          c\<lparr>sc_store := live\<rparr>, map (\<lambda>(k, e). Expire k) dead))"

definition sc_entries :: "int \<Rightarrow> 'v simple_cache \<Rightarrow> (string \<times> 'v) list" where
  "sc_entries now c = map (\<lambda>(k, e). (k, me_value e)) (filter (\<lambda>(k, e). not_past now (me_expiresAt e)) (sc_store c))"

definition sc_replaceAll :: "(string \<times> 'v) list \<Rightarrow> int \<Rightarrow> 'v simple_cache \<Rightarrow> 'v simple_cache" where
  "sc_replaceAll next now c = foldl (\<lambda>c (k, v). fst (sc_set k v now c)) (c\<lparr>sc_store := []\<rparr>) next"

section \<open>The unbounded cache\<close>

record 'v stamped_entry =
  se_value :: 'v
  se_writtenAt :: int

record 'v plain_cache =
  ca_store :: "(string \<times> 'v stamped_entry) list"
  ca_ttlMs :: "int option"

definition plain_cache_new :: "int option \<Rightarrow> 'v plain_cache" where
  "plain_cache_new ttl = \<lparr>ca_store = [], ca_ttlMs = ttl\<rparr>"

definition ca_isExpired :: "'v stamped_entry \<Rightarrow> int \<Rightarrow> 'v plain_cache \<Rightarrow> bool" where
  "ca_isExpired e now c = (case ca_ttlMs c of None \<Rightarrow> False | Some ttl \<Rightarrow> now - se_writtenAt e > ttl)"

definition ca_set :: "string \<Rightarrow> 'v \<Rightarrow> int \<Rightarrow> 'v plain_cache \<Rightarrow> 'v plain_cache \<times> cache_event list" where
  "ca_set key v now c = (c\<lparr>ca_store := AList.update key \<lparr>se_value = v, se_writtenAt = now\<rparr> (ca_store c)\<rparr>, [SetEv key])"

definition ca_get :: "string \<Rightarrow> int \<Rightarrow> 'v plain_cache \<Rightarrow> 'v option \<times> 'v plain_cache \<times> cache_event list" where
  "ca_get key now c =
     (case map_of (ca_store c) key of
        None \<Rightarrow> (None, c, [Miss key])
      | Some e \<Rightarrow>
          if ca_isExpired e now c then (None, c\<lparr>ca_store := AList.delete key (ca_store c)\<rparr>, [Expire key, Miss key])
          else (Some (se_value e), c, [Hit key]))"

definition ca_has :: "string \<Rightarrow> int \<Rightarrow> 'v plain_cache \<Rightarrow> bool \<times> 'v plain_cache \<times> cache_event list" where
  "ca_has key now c =
     (case map_of (ca_store c) key of
        None \<Rightarrow> (False, c, [])
      | Some e \<Rightarrow>
          if ca_isExpired e now c then (False, c\<lparr>ca_store := AList.delete key (ca_store c)\<rparr>, [Expire key]) else (True, c, []))"

definition ca_purgeExpired :: "int \<Rightarrow> 'v plain_cache \<Rightarrow> 'v plain_cache \<times> cache_event list" where
  "ca_purgeExpired now c =
     (if ca_ttlMs c = None then (c, [])
      else (c\<lparr>ca_store := filter (\<lambda>(k, e). \<not> ca_isExpired e now c) (ca_store c)\<rparr>,
            map (\<lambda>(k, e). Expire k) (filter (\<lambda>(k, e). ca_isExpired e now c) (ca_store c))))"

definition ca_delete :: "string \<Rightarrow> 'v plain_cache \<Rightarrow> 'v plain_cache \<times> cache_event list" where
  "ca_delete key c = (c\<lparr>ca_store := AList.delete key (ca_store c)\<rparr>, if map_of (ca_store c) key = None then [] else [Invalidate key])"

definition ca_clear :: "'v plain_cache \<Rightarrow> 'v plain_cache \<times> cache_event list" where
  "ca_clear c = (c\<lparr>ca_store := []\<rparr>, map (\<lambda>(k, e). Invalidate k) (ca_store c))"

section \<open>Nonce deduplication\<close>

record nonce_dedup =
  nd_enabled :: bool
  nd_ttlMs :: int
  nd_maxEntries :: int
  nd_seen :: "(string \<times> int) list"

datatype dedup_outcome = Accepted | Duplicate

definition nonce_dedup_new :: "bool option \<Rightarrow> int option \<Rightarrow> int option \<Rightarrow> nonce_dedup" where
  "nonce_dedup_new en ttl m =
     \<lparr>nd_enabled = (case en of Some b \<Rightarrow> b | None \<Rightarrow> False), nd_ttlMs = (case ttl of Some t \<Rightarrow> t | None \<Rightarrow> 300000),
      nd_maxEntries = (case m of Some n \<Rightarrow> n | None \<Rightarrow> 1000), nd_seen = []\<rparr>"

definition nd_purgeExpired :: "int \<Rightarrow> nonce_dedup \<Rightarrow> nonce_dedup" where
  "nd_purgeExpired now d = d\<lparr>nd_seen := filter (\<lambda>(n, expiresAt). \<not> now > expiresAt) (nd_seen d)\<rparr>"

definition nd_check :: "string \<Rightarrow> int \<Rightarrow> nonce_dedup \<Rightarrow> dedup_outcome \<times> nonce_dedup" where
  "nd_check nonce now d =
     (if \<not> nd_enabled d then (Accepted, d)
      else let d1 = nd_purgeExpired now d
           in if map_of (nd_seen d1) nonce \<noteq> None then (Duplicate, d1)
              else (Accepted, d1\<lparr>nd_seen := AList.update nonce (now + nd_ttlMs d1) (fst (make_room (nd_maxEntries d1) nonce (nd_seen d1)))\<rparr>))"

section \<open>What a cache may do\<close>

text \<open>
  A cache may lose an entry at any call. What it returns for a key is the last value written to
  that key, while that is alive and nothing has dropped it since, or nothing. \<open>seek\<close> is the answer at a
  time, \<open>forget\<close> the state after any other operation; \<open>drops\<close> says which keys an operation removes.
\<close>

locale keyed_store =
  fixes ok :: "'s \<Rightarrow> bool" and seek :: "'s \<Rightarrow> int \<Rightarrow> string \<Rightarrow> 'v option"
    and forget :: "int \<Rightarrow> 'op \<Rightarrow> 's \<Rightarrow> 's" and drops :: "'op \<Rightarrow> string \<Rightarrow> bool"
    and store :: "int \<Rightarrow> string \<Rightarrow> 'v \<Rightarrow> 's \<Rightarrow> 's" and alive :: "'s \<Rightarrow> string \<Rightarrow> int \<Rightarrow> int \<Rightarrow> bool"
  assumes ok_forget: "ok s \<Longrightarrow> ok (forget now x s)" and ok_store: "ok s \<Longrightarrow> ok (store now k v s)"
    and seek_store_same: "ok s \<Longrightarrow> seek (store now k v s) t k = Some u \<Longrightarrow> u = v \<and> alive s k now t"
    and seek_store_other: "ok s \<Longrightarrow> j \<noteq> k \<Longrightarrow> seek (store now k v s) t j = Some u \<Longrightarrow> seek s t j = Some u"
    and seek_forget: "ok s \<Longrightarrow> seek (forget now x s) t j = Some u \<Longrightarrow> seek s t j = Some u \<and> \<not> drops x j"
    and alive_forget: "alive (forget now x s) = alive s" and alive_store: "alive (store now k v s) = alive s"
begin

text \<open>A history of operations with their times, a write being a key and a value.\<close>

primrec act :: "int \<times> ('op + string \<times> 'v) \<Rightarrow> 's \<Rightarrow> 's" where
  "act (t, e) s = (case e of Inl x \<Rightarrow> forget t x s | Inr (k, v) \<Rightarrow> store t k v s)"

definition replay :: "(int \<times> ('op + string \<times> 'v)) list \<Rightarrow> 's \<Rightarrow> 's" where
  "replay h s = foldl (\<lambda>s e. act e s) s h"

definition touches :: "string \<Rightarrow> int \<times> ('op + string \<times> 'v) \<Rightarrow> bool" where
  "touches k e = (case snd e of Inl x \<Rightarrow> drops x k | Inr (j, v) \<Rightarrow> j = k)"

lemma act_ok: "ok s \<Longrightarrow> ok (act e s)"
  by (cases e) (simp add: ok_forget ok_store split: sum.split)

lemma replay_ok: "ok s \<Longrightarrow> ok (replay h s)"
  by (induction h rule: rev_induct) (simp_all add: replay_def act_ok)

lemma replay_alive: "alive (replay h s) = alive s"
  by (induction h rule: rev_induct) (auto simp: replay_def alive_forget alive_store split: sum.split)

lemma hit_is_last_write:
  assumes "ok s" "\<And>t. seek s t k = None" "seek (replay h s) t k = Some v"
  shows "\<exists>t' h1 h2. h = h1 @ (t', Inr (k, v)) # h2 \<and> alive s k t' t \<and> (\<forall>e \<in> set h2. \<not> touches k e)"
  using assms(3)
proof (induction h rule: rev_induct)
  case Nil with assms(2) show ?case by (simp add: replay_def)
next
  case (snoc e h)
  obtain t' w where e: "e = (t', w)" by (cases e)
  have ro: "ok (replay h s)" using assms(1) by (rule replay_ok)
  have r: "replay (h @ [e]) s = act e (replay h s)" by (simp add: replay_def)
  show ?case
  proof (cases "\<exists>u. w = Inr (k, u)")
    case True
    then obtain u where w: "w = Inr (k, u)" by blast
    with seek_store_same [OF ro, of t' k u t v] snoc.prems have "v = u" "alive (replay h s) k t' t" by (simp_all add: r [unfolded e w] e)
    with w show ?thesis by (intro exI [of _ t'] exI [of _ h] exI [of _ "[]"]) (simp add: e replay_alive)
  next
    case False
    have "seek (replay h s) t k = Some v \<and> \<not> touches k e"
    proof (cases w)
      case (Inl x)
      with snoc.prems have "seek (forget t' x (replay h s)) t k = Some v" by (simp add: r [unfolded e Inl] e)
      from seek_forget [OF ro this] Inl show ?thesis by (simp add: e touches_def)
    next
      case (Inr jv)
      obtain j u where jv: "jv = (j, u)" by (cases jv)
      with False Inr have "k \<noteq> j" by auto
      from snoc.prems have "seek (store t' j u (replay h s)) t k = Some v" by (simp add: r [unfolded e Inr jv] e Inr jv)
      from seek_store_other [OF ro \<open>k \<noteq> j\<close> this] \<open>k \<noteq> j\<close> show ?thesis by (simp add: e touches_def Inr jv)
    qed
    with snoc.IH obtain t1 h1 h2 where
      "h = h1 @ (t1, Inr (k, v)) # h2" "alive s k t1 t" "\<forall>e \<in> set h2. \<not> touches k e" "\<not> touches k e" by blast
    then show ?thesis by (intro exI [of _ t1] exI [of _ h1] exI [of _ "h2 @ [e]"]) auto
  qed
qed

end

section \<open>The caches keep to it\<close>

definition sc_ok :: "'v simple_cache \<Rightarrow> bool" where
  "sc_ok c \<longleftrightarrow> distinct (map fst (sc_store c)) \<and> fst ` set (sc_store c) \<subseteq> {k. lasting (ttl_for (sc_ttlConfig c) k)} \<and>
     (sc_maxEntries c > 0 \<longrightarrow> int (length (sc_store c)) \<le> sc_maxEntries c)"

lemma distinct_fst_filter: "distinct (map fst s) \<Longrightarrow> distinct (map fst (filter P s))"
  by (rule distinct_map_filter)

lemma length_AList_delete: "length (AList.delete k s) \<le> length s"
  by (simp add: AList.delete_eq)

lemma length_AList_delete_less: "k \<in> fst ` set s \<Longrightarrow> length (AList.delete k s) < length s"
  by (auto simp: AList.delete_eq intro!: length_filter_less)

lemma make_room_facts:
  assumes "make_room m key s = (s', ev)" "distinct (map fst s)"
  shows "distinct (map fst s')" "fst ` set s' \<subseteq> fst ` set s" "\<And>j. map_of s' j \<noteq> None \<Longrightarrow> map_of s' j = map_of s j"
    "m > 0 \<Longrightarrow> int (length s) \<le> m \<Longrightarrow> int (length (AList.update key e s')) \<le> m"
proof -
  consider "s' = s" "m > 0 \<longrightarrow> int (length s) \<ge> m \<longrightarrow> key \<in> fst ` set s \<or> s = []"
    | x r where "s = x # r" "s' = AList.delete (fst x) s" "key \<notin> fst ` set s"
    using assms(1) by (auto simp: make_room_def map_of_eq_None_iff split: if_splits list.splits)
  then have "distinct (map fst s') \<and> fst ` set s' \<subseteq> fst ` set s \<and> (\<forall>j. map_of s' j \<noteq> None \<longrightarrow> map_of s' j = map_of s j) \<and>
    (m > 0 \<longrightarrow> int (length s) \<le> m \<longrightarrow> int (length (AList.update key e s')) \<le> m)"
  proof cases
    case 1
    then show ?thesis using assms(2)
      by (cases "key \<in> fst ` set s") (auto simp: length_update_old length_update_new)
  next
    case (2 x r)
    then have "length s' < length s" using length_AList_delete_less [of "fst x" s] by simp
    moreover have "key \<notin> fst ` set s'" using 2 by (auto simp: AList.delete_eq)
    moreover have "distinct (map fst s')" using assms(2) 2(2) by (simp add: distinct_fst_delete)
    moreover have "fst ` set s' \<subseteq> fst ` set s" by (auto simp: 2(2) AList.delete_eq)
    moreover have "map_of s' = (map_of s)(fst x := None)" by (simp only: 2(2) map_of_delete)
    ultimately show ?thesis by (auto simp: length_update_new)
  qed
  then show "distinct (map fst s')" "fst ` set s' \<subseteq> fst ` set s" "\<And>j. map_of s' j \<noteq> None \<Longrightarrow> map_of s' j = map_of s j"
    "m > 0 \<Longrightarrow> int (length s) \<le> m \<Longrightarrow> int (length (AList.update key e s')) \<le> m" by blast+
qed

lemma sc_set_ok:
  assumes "sc_ok c"
  shows "sc_ok (fst (sc_set k v now c))"
proof -
  obtain s ev where m: "make_room (sc_maxEntries c) k (sc_store c) = (s, ev)" by (cases "make_room (sc_maxEntries c) k (sc_store c)")
  note f = make_room_facts [OF m]
  from assms have d: "distinct (map fst (sc_store c))" by (simp add: sc_ok_def)
  show ?thesis
  proof (cases "sc_enabled c \<and> lasting (ttl_for (sc_ttlConfig c) k)")
    case True
    with assms f(1,2) [OF d] f(4) [OF d, of "\<lparr>me_value = v, me_expiresAt = expiry now (ttl_for (sc_ttlConfig c) k)\<rparr>"] show ?thesis
      by (simp add: sc_set_def Let_def m sc_ok_def distinct_fst_update) (meson subset_trans)
  next
    case False
    with assms show ?thesis by (auto simp: sc_set_def Let_def)
  qed
qed

lemma sc_get_ok:
  assumes "sc_ok c"
  shows "sc_ok (fst (snd (sc_get k now c)))"
proof (cases "map_of (sc_store c) k")
  case None
  with assms show ?thesis by (simp add: sc_get_def sc_ok_def)
next
  case (Some e)
  then have k: "k \<in> fst ` set (sc_store c)" by (force dest: map_of_SomeD)
  have n: "k \<notin> fst ` set (AList.delete k (sc_store c))" by (auto simp: AList.delete_eq)
  have "length (AList.update k e (AList.delete k (sc_store c))) \<le> length (sc_store c)"
    using length_AList_delete_less [OF k] length_update_new [OF n, of e] by simp
  moreover have "fst ` set (AList.delete k (sc_store c)) \<subseteq> fst ` set (sc_store c)" by (auto simp: AList.delete_eq)
  moreover have "fst ` set (AList.update k e (AList.delete k (sc_store c))) \<subseteq> fst ` set (sc_store c)" using k by (auto simp: AList.delete_eq)
  moreover note sub = calculation
  have "distinct (map fst (sc_store c))" "fst ` set (sc_store c) \<subseteq> {k. lasting (ttl_for (sc_ttlConfig c) k)}"
    "sc_maxEntries c > 0 \<Longrightarrow> int (length (sc_store c)) \<le> sc_maxEntries c" using assms by (simp_all add: sc_ok_def)
  note a = this(1) subset_trans [OF sub(2) this(2)] subset_trans [OF sub(3) this(2)] this(3)
  consider "\<not> sc_enabled c" | "sc_enabled c" "past now (me_expiresAt e)" | "sc_enabled c" "\<not> past now (me_expiresAt e)" by blast
  then show ?thesis
  proof cases
    case 1 with assms show ?thesis by (simp add: sc_get_def)
  next
    case 2
    with Some a length_AList_delete [of k "sc_store c"] show ?thesis
      by (simp add: sc_get_def sc_ok_def distinct_fst_delete) linarith
  next
    case 3
    with Some a sub(1) show ?thesis
      by (simp add: sc_get_def sc_ok_def distinct_fst_update distinct_fst_delete) linarith
  qed
qed

lemma sc_new_ok: "sc_ok (simple_cache_new config)" "sc_ok (simple_cache_of_ttl ms)"
  by (simp_all add: simple_cache_new_def simple_cache_of_ttl_def sc_ok_def Let_def)

lemma sc_seek: "fst (sc_get k t c) =
   (if sc_enabled c then case map_of (sc_store c) k of None \<Rightarrow> None | Some e \<Rightarrow> if past t (me_expiresAt e) then None else Some (me_value e) else None)"
  by (simp add: sc_get_def split: option.split)

lemma past_expiry [simp]: "past t (expiry now (Some ttl)) \<longleftrightarrow> t > now + ttl" "\<not> past t (expiry now None)"
  by (simp_all add: past_def expiry_def)

lemma ttl_for_None_iff: "ttl_for cfg k = None \<longleftrightarrow> map_of cfg (method_of k) = None \<and> method_of k \<in> set inherited_names"
  by (simp add: ttl_for_def split: option.split)

datatype simple_op = GetOp string | InvalidateOp "string option" "string option" | DeleteOp string | ClearOp | StatsOp

primrec simple_forget :: "int \<Rightarrow> simple_op \<Rightarrow> 'v simple_cache \<Rightarrow> 'v simple_cache" where
  "simple_forget now (GetOp k) c = fst (snd (sc_get k now c))"
| "simple_forget now (InvalidateOp m a) c = fst (sc_invalidate m a c)"
| "simple_forget now (DeleteOp k) c = fst (sc_delete k c)"
| "simple_forget now ClearOp c = sc_clear c"
| "simple_forget now StatsOp c = fst (snd (sc_getStats now c))"

text \<open>The keys an operation is documented to remove.\<close>

primrec simple_drops :: "simple_op \<Rightarrow> string \<Rightarrow> bool" where
  "simple_drops (GetOp k) j = False"
| "simple_drops (InvalidateOp m a) j =
     (case m of None \<Rightarrow> True
      | Some p \<Rightarrow> p = [] \<or> (case a of Some x \<Rightarrow> j = p @ '':'' @ x | None \<Rightarrow> j = p \<or> take (Suc (length p)) j = p @ '':''))"
| "simple_drops (DeleteOp k) j = (j = k)"
| "simple_drops ClearOp j = True"
| "simple_drops StatsOp j = False"

lemma sc_filter_ok: "sc_ok c \<Longrightarrow> sc_ok (c\<lparr>sc_store := filter P (sc_store c)\<rparr>)"
  by (auto simp: sc_ok_def distinct_fst_filter intro: order_trans [OF of_nat_mono [OF length_filter_le]])

lemma sc_invalidate_filter:
  "\<exists>P. fst (sc_invalidate m a c) = c\<lparr>sc_store := filter (\<lambda>(k, e). \<not> P k) (sc_store c)\<rparr> \<and> (\<forall>j. simple_drops (InvalidateOp m a) j \<longrightarrow> P j)"
proof (cases m)
  case (Some p)
  let ?P = "\<lambda>k. k = p \<or> take (Suc (length p)) k = p @ '':''"
  show ?thesis
  proof (cases "p = []")
    case False
    show ?thesis
    proof (cases a)
      case None
      have "fst (sc_invalidate m a c) = c\<lparr>sc_store := filter (\<lambda>(k, e). \<not> ?P k) (sc_store c)\<rparr>"
        using Some False None by (simp add: sc_invalidate_def remove_keys_def split_def)
      with Some False None show ?thesis by (intro exI [of _ ?P]) simp
    next
      case (Some x)
      with \<open>m = Some p\<close> False show ?thesis
        by (intro exI [of _ "\<lambda>k. k = p @ '':'' @ x"]) (simp add: sc_invalidate_def remove_keys_def)
    qed
  qed (use Some in \<open>auto simp: sc_invalidate_def remove_keys_def intro!: exI [of _ "\<lambda>k. True"]\<close>)
qed (auto simp: sc_invalidate_def remove_keys_def intro!: exI [of _ "\<lambda>k. True"])

lemma sc_forget_cases:
  "(\<exists>P. simple_forget now x c = c\<lparr>sc_store := filter (\<lambda>(k, e). \<not> P k e) (sc_store c)\<rparr> \<and> (\<forall>j e. simple_drops x j \<longrightarrow> P j e)) \<or>
   (\<exists>k. x = GetOp k)"
proof (cases x)
  case (InvalidateOp m a)
  from sc_invalidate_filter [of m a c] obtain P where "fst (sc_invalidate m a c) = c\<lparr>sc_store := filter (\<lambda>(k, e). \<not> P k) (sc_store c)\<rparr>"
    "\<forall>j. simple_drops (InvalidateOp m a) j \<longrightarrow> P j" by blast
  with InvalidateOp show ?thesis by (intro disjI1 exI [of _ "\<lambda>k e. P k"]) simp
next
  case (DeleteOp k)
  from sc_invalidate_filter [of "Some k" None c] obtain P where "fst (sc_delete k c) = c\<lparr>sc_store := filter (\<lambda>(k, e). \<not> P k) (sc_store c)\<rparr>"
    "P k" by (auto simp: sc_delete_def)
  with DeleteOp show ?thesis by (intro disjI1 exI [of _ "\<lambda>k e. P k"]) simp
next
  case ClearOp
  then show ?thesis by (intro disjI1 exI [of _ "\<lambda>k e. True"]) (simp add: sc_clear_def)
next
  case StatsOp
  then show ?thesis by (intro disjI1 exI [of _ "\<lambda>k e. past now (me_expiresAt e)"]) (simp add: sc_getStats_def Let_def)
qed simp

lemma map_of_filter_Some:
  "distinct (map fst s) \<Longrightarrow> map_of (filter (\<lambda>(k, e). \<not> P k e) s) j = Some e \<longleftrightarrow> map_of s j = Some e \<and> \<not> P j e"
  by (simp add: map_of_eq_Some_iff distinct_fst_filter [unfolded split_def] split_beta distinct_map_filter)

lemma sc_seek_Some:
  "fst (sc_get k t c) = Some v \<longleftrightarrow> sc_enabled c \<and> (\<exists>e. map_of (sc_store c) k = Some e \<and> \<not> past t (me_expiresAt e) \<and> v = me_value e)"
  by (auto simp: sc_get_def split: option.split)

lemma sc_get_config: "sc_ttlConfig (fst (snd (sc_get k now c))) = sc_ttlConfig c" "sc_enabled (fst (snd (sc_get k now c))) = sc_enabled c"
  by (simp_all add: sc_get_def split: option.split)

lemma sc_set_config: "sc_ttlConfig (fst (sc_set k v now c)) = sc_ttlConfig c" "sc_enabled (fst (sc_set k v now c)) = sc_enabled c"
  by (simp_all add: sc_set_def Let_def split: prod.split)

lemma simple_forget_facts:
  assumes "sc_ok c"
  shows "sc_ok (simple_forget now x c)" "sc_ttlConfig (simple_forget now x c) = sc_ttlConfig c"
    "fst (sc_get j t (simple_forget now x c)) = Some u \<Longrightarrow> fst (sc_get j t c) = Some u \<and> \<not> simple_drops x j"
proof -
  from sc_forget_cases [of now x c]
  have "sc_ok (simple_forget now x c) \<and> sc_ttlConfig (simple_forget now x c) = sc_ttlConfig c \<and>
    (fst (sc_get j t (simple_forget now x c)) = Some u \<longrightarrow> fst (sc_get j t c) = Some u \<and> \<not> simple_drops x j)"
  proof
    assume "\<exists>P. simple_forget now x c = c\<lparr>sc_store := filter (\<lambda>(k, e). \<not> P k e) (sc_store c)\<rparr> \<and> (\<forall>j e. simple_drops x j \<longrightarrow> P j e)"
    then obtain P where P: "simple_forget now x c = c\<lparr>sc_store := filter (\<lambda>(k, e). \<not> P k e) (sc_store c)\<rparr>" "\<And>j e. simple_drops x j \<Longrightarrow> P j e"
      by blast
    have "distinct (map fst (sc_store c))" using assms by (simp add: sc_ok_def)
    with P(2) sc_filter_ok [OF assms] show ?thesis
      by (auto simp: P(1) sc_seek_Some map_of_filter_Some)
  next
    assume "\<exists>k. x = GetOp k"
    then obtain k where x: "x = GetOp k" by blast
    have "map_of (sc_store (fst (snd (sc_get k now c)))) j = Some e \<Longrightarrow> map_of (sc_store c) j = Some e" for e
      by (auto simp: sc_get_def split: option.splits if_splits)
    with sc_get_ok [OF assms, of k now] show ?thesis by (auto simp: x sc_get_config sc_seek_Some)
  qed
  then show "sc_ok (simple_forget now x c)" "sc_ttlConfig (simple_forget now x c) = sc_ttlConfig c"
    "fst (sc_get j t (simple_forget now x c)) = Some u \<Longrightarrow> fst (sc_get j t c) = Some u \<and> \<not> simple_drops x j" by blast+
qed

lemma simple_forget_config: "sc_ttlConfig (simple_forget now x c) = sc_ttlConfig c"
  using sc_forget_cases [of now x c] by (auto simp: sc_get_config)

lemma sc_set_seek:
  assumes "sc_ok c" "fst (sc_get j t (fst (sc_set k v now c))) = Some u"
  shows "if j = k then u = v \<and> \<not> past t (expiry now (ttl_for (sc_ttlConfig c) k)) else fst (sc_get j t c) = Some u"
proof (cases "sc_enabled c \<and> lasting (ttl_for (sc_ttlConfig c) k)")
  case True
  obtain s' ev where m: "make_room (sc_maxEntries c) k (sc_store c) = (s', ev)" by (cases "make_room (sc_maxEntries c) k (sc_store c)")
  have "map_of s' j \<noteq> None \<Longrightarrow> map_of s' j = map_of (sc_store c) j" using make_room_facts(3) [OF m] assms(1) by (simp add: sc_ok_def)
  with assms(2) True show ?thesis
    by (cases "map_of (sc_store c) j") (auto simp: sc_seek_Some sc_set_def Let_def m split: if_splits)
next
  case False
  then have s: "fst (sc_set k v now c) = c" by (auto simp: sc_set_def Let_def)
  have "j \<noteq> k"
  proof
    assume "j = k"
    with assms(2) s obtain e where e: "map_of (sc_store c) k = Some e" "sc_enabled c" by (auto simp: sc_seek_Some)
    then have "k \<in> fst ` set (sc_store c)" by (force dest: map_of_SomeD)
    with assms(1) False e(2) show False by (auto simp: sc_ok_def)
  qed
  with s assms(2) show ?thesis by simp
qed

interpretation simple_store: keyed_store sc_ok "\<lambda>s t k. fst (sc_get k t s)" simple_forget simple_drops
    "\<lambda>t k v s. fst (sc_set k v t s)" "\<lambda>s k written t. \<not> past t (expiry written (ttl_for (sc_ttlConfig s) k))"
  by unfold_locales
    (auto simp: simple_forget_facts(1) simple_forget_config sc_set_ok sc_set_config dest: sc_set_seek simple_forget_facts(3) split: if_splits)

section \<open>Histories of a cache\<close>

definition simple_act :: "'v simple_cache \<Rightarrow> int \<times> (simple_op + string \<times> 'v) \<Rightarrow> 'v simple_cache" where
  "simple_act c e = (case snd e of Inl x \<Rightarrow> simple_forget (fst e) x c | Inr (k, v) \<Rightarrow> fst (sc_set k v (fst e) c))"

definition simple_run :: "(int \<times> (simple_op + string \<times> 'v)) list \<Rightarrow> 'v simple_cache \<Rightarrow> 'v simple_cache" where
  "simple_run h c = foldl simple_act c h"

text \<open>The events after which a value of \<open>k\<close> must not be seen any more: a write to \<open>k\<close>, or an operation that removes it.\<close>

definition supersedes :: "string \<Rightarrow> int \<times> (simple_op + string \<times> 'v) \<Rightarrow> bool" where
  "supersedes k e = (case snd e of Inl x \<Rightarrow> simple_drops x k | Inr (j, v) \<Rightarrow> j = k)"

lemma simple_run_replay:
  fixes c :: "'v simple_cache"
  shows "simple_run h c = simple_store.replay h c"
proof -
  have "simple_act = (\<lambda>c e. simple_store.act e c :: 'v simple_cache)"
    by (intro ext) (auto simp: simple_act_def split: sum.split prod.split)
  then show ?thesis by (simp add: simple_run_def simple_store.replay_def)
qed

lemma simple_run_ok: "sc_ok (simple_run h (simple_cache_new config))"
  unfolding simple_run_replay by (rule simple_store.replay_ok) (rule sc_new_ok)

lemma simple_hit_is_last_write:
  fixes v :: 'v
  assumes "fst (sc_get k t (simple_run h (simple_cache_new config))) = Some v"
  shows "\<exists>t' h1 h2. h = h1 @ (t', Inr (k, v)) # h2 \<and> \<not> past t (expiry t' (ttl_for (sc_ttlConfig (simple_cache_new config :: 'v simple_cache)) k)) \<and>
    (\<forall>e \<in> set h2. \<not> supersedes k e)"
proof -
  have "fst (sc_get k t (simple_cache_new config :: 'v simple_cache)) = None" for t
    by (simp add: sc_get_def simple_cache_new_def Let_def)
  from simple_store.hit_is_last_write [OF sc_new_ok(1) this assms [unfolded simple_run_replay]]
  obtain t' h1 h2 where "h = h1 @ (t', Inr (k, v)) # h2" "\<not> past t (expiry t' (ttl_for (sc_ttlConfig (simple_cache_new config :: 'v simple_cache)) k))"
    "\<forall>e \<in> set h2. \<not> simple_store.touches k e" by blast
  moreover have "simple_store.touches k e = supersedes k e" for e :: "int \<times> (simple_op + string \<times> 'v)"
    by (simp add: simple_store.touches_def supersedes_def)
  ultimately show ?thesis by blast
qed

text \<open>
  C9: A cache that starts empty never answers with a stale or invented value. Whatever reads,
  writes, invalidations, clearings and statistics came before, a hit is the value of the last write
  to that key, and since then no operation has invalidated the key. The write is no longer ago than
  the lifetime configured for the key's method; only a method that is not configured and is named like
  a member that every object inherits (\<open>toString\<close>, \<open>constructor\<close>) has no lifetime at all.
\<close>

theorem cache_hit_is_last_write:
  fixes v :: 'v
  assumes "fst (sc_get k t (simple_run h (simple_cache_new config))) = Some v"
  shows "\<exists>t' h1 h2. h = h1 @ (t', Inr (k, v)) # h2 \<and> (\<forall>e \<in> set h2. \<not> supersedes k e) \<and>
    (let cfg = sc_ttlConfig (simple_cache_new config :: 'v simple_cache)
     in case ttl_for cfg k of
          Some ttl \<Rightarrow> t \<le> t' + ttl
        | None \<Rightarrow> map_of cfg (method_of k) = None \<and> method_of k \<in> set inherited_names)"
proof -
  let ?cfg = "sc_ttlConfig (simple_cache_new config :: 'v simple_cache)"
  from simple_hit_is_last_write [OF assms] obtain t' h1 h2 where
    *: "h = h1 @ (t', Inr (k, v)) # h2" "\<not> past t (expiry t' (ttl_for ?cfg k))" "\<forall>e \<in> set h2. \<not> supersedes k e" by blast
  have "case ttl_for ?cfg k of Some ttl \<Rightarrow> t \<le> t' + ttl
      | None \<Rightarrow> map_of ?cfg (method_of k) = None \<and> method_of k \<in> set inherited_names"
  proof (cases "ttl_for ?cfg k")
    case None
    then have "map_of ?cfg (method_of k) = None \<and> method_of k \<in> set inherited_names" unfolding ttl_for_None_iff .
    then show ?thesis unfolding None by simp
  next
    case (Some ttl)
    with *(2) show ?thesis by (simp add: past_expiry)
  qed
  with * show ?thesis unfolding Let_def by blast
qed

definition sample_config :: simple_config where
  "sample_config = \<lparr>cfg_enabled = None, cfg_ttl = Some [(''getInvoice'', 5000)], cfg_ttlMs = Some 100, cfg_maxEntries = Some 2\<rparr>"

definition sample_history :: "(int \<times> (simple_op + string \<times> nat)) list" where
  "sample_history = [(0, Inr (''getInvoice:1'', 7)), (1, Inr (''x'', 8)), (2, Inl (GetOp ''getInvoice:1'')), (3, Inr (''y'', 9)), (4, Inl (DeleteOp ''y''))]"

theorem cache_hit_is_last_write_witness:
  "\<exists>t' h1 h2. sample_history = h1 @ (t', Inr (''getInvoice:1'', 7)) # h2 \<and> 5000 \<le> t' + 5000"
proof -
  have "fst (sc_get ''getInvoice:1'' 5000 (simple_run sample_history (simple_cache_new (Some sample_config)))) = Some 7" by code_simp
  from cache_hit_is_last_write [OF this] obtain t' h1 h2 where "sample_history = h1 @ (t', Inr (''getInvoice:1'', 7)) # h2"
    "case ttl_for (sc_ttlConfig (simple_cache_new (Some sample_config) :: nat simple_cache)) ''getInvoice:1'' of
       Some ttl \<Rightarrow> 5000 \<le> t' + ttl | None \<Rightarrow> ''getInvoice'' \<in> set inherited_names"
    unfolding Let_def by (auto split: option.splits simp: method_of_def inherited_names_def)
  moreover have "ttl_for (sc_ttlConfig (simple_cache_new (Some sample_config) :: nat simple_cache)) ''getInvoice:1'' = Some 5000" by code_simp
  ultimately show ?thesis by auto
qed

text \<open>The exception is real: with a lifetime of 100 for every method, an entry of \<open>toString\<close> is still served after a year.\<close>

theorem inherited_method_never_expires:
  "let c = fst (sc_set ''toString:1'' (7 :: nat) 0 (simple_cache_of_ttl 100));
       d = fst (sc_set ''getInvoice:1'' (7 :: nat) 0 (simple_cache_of_ttl 100))
   in fst (sc_get ''toString:1'' 31536000000 c) = Some 7 \<and> fst (sc_get ''getInvoice:1'' 31536000000 d) = None"
  by code_simp

text \<open>The bound of the store, whatever the history.\<close>

lemma cache_size_bounded:
  assumes "m > 0" "cfg_maxEntries config = Some m"
  shows "int (length (sc_store (simple_run h (simple_cache_new (Some config) :: 'v simple_cache)))) \<le> m"
proof -
  have "sc_maxEntries (simple_forget now x c) = sc_maxEntries c" for c :: "'v simple_cache" and x now
    using sc_forget_cases [of now x c] by (auto simp: sc_get_def split: option.split)
  then have "sc_maxEntries (simple_act c e) = sc_maxEntries c" for c :: "'v simple_cache" and e
    by (auto simp: simple_act_def sc_set_def Let_def split: sum.split prod.split)
  then have "sc_maxEntries (simple_run h c) = sc_maxEntries c" for h and c :: "'v simple_cache"
    unfolding simple_run_def by (induction h arbitrary: c) auto
  then show ?thesis using simple_run_ok [of h "Some config"] assms by (simp add: sc_ok_def simple_cache_new_def Let_def)
qed

text \<open>A nonce is a duplicate exactly while it is remembered and its lifetime has not passed.\<close>

lemma nd_check_duplicate_iff:
  "distinct (map fst (nd_seen d)) \<Longrightarrow>
    fst (nd_check n now d) = Duplicate \<longleftrightarrow> nd_enabled d \<and> (\<exists>e. map_of (nd_seen d) n = Some e \<and> now \<le> e)"
  using map_of_filter_Some [of "nd_seen d" "\<lambda>k e. now > e" n]
  by (auto simp: nd_check_def nd_purgeExpired_def Let_def)

lemma nd_check_remembers:
  "fst (nd_check n now d) = Accepted \<Longrightarrow> nd_enabled d \<Longrightarrow>
    map_of (nd_seen (snd (nd_check n now d))) n = Some (now + nd_ttlMs d)"
  by (auto simp: nd_check_def nd_purgeExpired_def Let_def split: if_splits)

section \<open>The unbounded cache\<close>

datatype plain_op = PlainGet string | PlainHas string | PlainPurge | PlainDelete string | PlainClear

primrec plain_forget :: "int \<Rightarrow> plain_op \<Rightarrow> 'v plain_cache \<Rightarrow> 'v plain_cache" where
  "plain_forget now (PlainGet k) c = fst (snd (ca_get k now c))"
| "plain_forget now (PlainHas k) c = fst (snd (ca_has k now c))"
| "plain_forget now PlainPurge c = fst (ca_purgeExpired now c)"
| "plain_forget now (PlainDelete k) c = fst (ca_delete k c)"
| "plain_forget now PlainClear c = fst (ca_clear c)"

primrec plain_drops :: "plain_op \<Rightarrow> string \<Rightarrow> bool" where
  "plain_drops (PlainGet k) j = False"
| "plain_drops (PlainHas k) j = False"
| "plain_drops PlainPurge j = False"
| "plain_drops (PlainDelete k) j = (j = k)"
| "plain_drops PlainClear j = True"

definition plain_alive :: "'v plain_cache \<Rightarrow> string \<Rightarrow> int \<Rightarrow> int \<Rightarrow> bool" where
  "plain_alive c k written t = (case ca_ttlMs c of None \<Rightarrow> True | Some ttl \<Rightarrow> t - written \<le> ttl)"

lemma plain_forget_facts:
  assumes "distinct (map fst (ca_store c))"
  shows "distinct (map fst (ca_store (plain_forget now x c)))" "ca_ttlMs (plain_forget now x c) = ca_ttlMs c"
    "map_of (ca_store (plain_forget now x c)) j = Some e \<Longrightarrow> map_of (ca_store c) j = Some e \<and> \<not> plain_drops x j"
proof -
  have "distinct (map fst (ca_store (plain_forget now x c))) \<and> ca_ttlMs (plain_forget now x c) = ca_ttlMs c \<and>
    (map_of (ca_store (plain_forget now x c)) j = Some e \<longrightarrow> map_of (ca_store c) j = Some e \<and> \<not> plain_drops x j)"
  proof (cases x)
    case PlainPurge
    with assms show ?thesis
      by (simp add: ca_purgeExpired_def distinct_fst_filter map_of_filter_Some [of "ca_store c" "\<lambda>k e. ca_isExpired e now c"])
  qed (use assms in \<open>auto simp: ca_get_def ca_has_def ca_delete_def ca_clear_def distinct_fst_delete AList.delete_eq distinct_map_filter split: option.splits if_splits\<close>)
  then show "distinct (map fst (ca_store (plain_forget now x c)))" "ca_ttlMs (plain_forget now x c) = ca_ttlMs c"
    "map_of (ca_store (plain_forget now x c)) j = Some e \<Longrightarrow> map_of (ca_store c) j = Some e \<and> \<not> plain_drops x j" by blast+
qed

lemma ca_seek_Some:
  "fst (ca_get k t c) = Some v \<longleftrightarrow> (\<exists>e. map_of (ca_store c) k = Some e \<and> \<not> ca_isExpired e t c \<and> v = se_value e)"
  by (auto simp: ca_get_def split: option.split)

lemma plain_forget_ttl: "ca_ttlMs (plain_forget now x c) = ca_ttlMs c"
  by (cases x) (auto simp: ca_get_def ca_has_def ca_purgeExpired_def ca_delete_def ca_clear_def split: option.split)

interpretation plain_store: keyed_store "\<lambda>c. distinct (map fst (ca_store c))" "\<lambda>s t k. fst (ca_get k t s)" plain_forget plain_drops
    "\<lambda>t k v s. fst (ca_set k v t s)" plain_alive
proof (unfold_locales, goal_cases)
  case (3 s now k v t u)
  then show ?case by (auto simp: ca_seek_Some ca_set_def ca_isExpired_def plain_alive_def split: option.splits)
next
  case (5 s now x t j u)
  then obtain e where "map_of (ca_store (plain_forget now x s)) j = Some e" "\<not> ca_isExpired e t (plain_forget now x s)" "u = se_value e"
    by (auto simp: ca_seek_Some)
  with plain_forget_facts(3) [OF 5(1) this(1)] show ?case
    by (simp add: ca_seek_Some ca_isExpired_def plain_forget_ttl)
qed (auto simp: plain_forget_facts(1) plain_forget_ttl distinct_fst_update ca_seek_Some ca_set_def ca_isExpired_def plain_alive_def fun_eq_iff)

end
