(* ===== verification/Channel_Pool.thy ===== *)
theory Channel_Pool
  imports Prelude
begin

text \<open>
  \<open>submission/ChannelAccountManager.ts\<close>: a pool of channel accounts for parallel submissions. A call
  of \<open>acquire\<close> is named by a number; it is cut at its awaits: the balance reads of the refresh arrive
  one by one and in any order, then the call resumes. What Horizon answers is an argument of the
  step.
\<close>

section \<open>The pool\<close>

record channel_account =
  ch_publicKey :: string
  ch_secretKey :: string

record pool_slot =
  sl_account :: channel_account
  sl_inUse :: bool
  sl_lowBalance :: bool

text \<open>
  The assignments are the closures handed to the callers: the call, the slot, the sequence number
  once it is read, and the flag \<open>released\<close>.
\<close>

record assignment =
  as_call :: nat
  as_slot :: nat
  as_sequence :: "string option"
  as_released :: bool

record channel_pool =
  cp_slots :: "pool_slot list"
  cp_minBalance :: rat
  cp_timeoutMs :: int
  cp_waiters :: "nat list"
  cp_assigned :: "assignment list"
  cp_rejected :: "nat list"

definition channel_pool_new :: "channel_account list \<Rightarrow> rat option \<Rightarrow> int option \<Rightarrow> string + channel_pool" where
  "channel_pool_new accounts minBalance timeout =
     (if accounts = [] then Inl ''ChannelAccountManager requires at least one account.''
      else Inr \<lparr>cp_slots = map (\<lambda>a. \<lparr>sl_account = a, sl_inUse = False, sl_lowBalance = False\<rparr>) accounts,
        cp_minBalance = (case minBalance of Some m \<Rightarrow> m | None \<Rightarrow> 1),
        cp_timeoutMs = (case timeout of Some t \<Rightarrow> t | None \<Rightarrow> 10000),
        cp_waiters = [], cp_assigned = [], cp_rejected = []\<rparr>)"

definition find_available :: "channel_pool \<Rightarrow> nat option" where
  "find_available s =
     List.find (\<lambda>i. \<not> sl_inUse (cp_slots s ! i) \<and> \<not> sl_lowBalance (cp_slots s ! i)) [0..<length (cp_slots s)]"

text \<open>\<open>_assignSlot\<close> up to its \<open>await\<close>, and when the sequence number is read (or the read failed).\<close>

definition assign_slot :: "nat \<Rightarrow> nat \<Rightarrow> channel_pool \<Rightarrow> channel_pool" where
  "assign_slot c i s =
     s\<lparr>cp_slots := (cp_slots s)[i := (cp_slots s ! i)\<lparr>sl_inUse := True\<rparr>],
       cp_assigned := cp_assigned s @ [\<lparr>as_call = c, as_slot = i, as_sequence = None, as_released = False\<rparr>]\<rparr>"

definition sequence_read :: "nat \<Rightarrow> string option \<Rightarrow> channel_pool \<Rightarrow> channel_pool" where
  "sequence_read k answer s =
     (if k < length (cp_assigned s) then
        s\<lparr>cp_assigned := (cp_assigned s)[k := (cp_assigned s ! k)
            \<lparr>as_sequence := Some (case answer of Some n \<Rightarrow> n | None \<Rightarrow> ''0'')\<rparr>]\<rparr>
      else s)"

definition notify_waiters :: "channel_pool \<Rightarrow> channel_pool" where
  "notify_waiters s =
     (case cp_waiters s of
        [] \<Rightarrow> s
      | w # ws \<Rightarrow> (case find_available s of None \<Rightarrow> s | Some i \<Rightarrow> assign_slot w i (s\<lparr>cp_waiters := ws\<rparr>)))"

text \<open>The \<open>release\<close> of an assignment: only a caller that got the assignment can call it.\<close>

definition free_slot :: "nat \<Rightarrow> channel_pool \<Rightarrow> channel_pool" where
  "free_slot k s =
     (let i = as_slot (cp_assigned s ! k)
      in s\<lparr>cp_slots := (cp_slots s)[i := (cp_slots s ! i)\<lparr>sl_inUse := False\<rparr>],
           cp_assigned := (cp_assigned s)[k := (cp_assigned s ! k)\<lparr>as_released := True\<rparr>]\<rparr>)"

definition can_release :: "nat \<Rightarrow> channel_pool \<Rightarrow> bool" where
  "can_release k s \<longleftrightarrow> k < length (cp_assigned s) \<and> as_sequence (cp_assigned s ! k) \<noteq> None \<and> \<not> as_released (cp_assigned s ! k)"

definition release_call :: "nat \<Rightarrow> channel_pool \<Rightarrow> channel_pool" where
  "release_call k s = (if can_release k s then notify_waiters (free_slot k s) else s)"

definition wait_for_slot :: "nat \<Rightarrow> channel_pool \<Rightarrow> channel_pool" where
  "wait_for_slot c s = s\<lparr>cp_waiters := cp_waiters s @ [c]\<rparr>"

text \<open>\<open>acquire\<close> after its refresh\<close>

definition acquire_resume :: "nat \<Rightarrow> channel_pool \<Rightarrow> channel_pool" where
  "acquire_resume c s = (case find_available s of Some i \<Rightarrow> assign_slot c i s | None \<Rightarrow> wait_for_slot c s)"

definition wait_timeout :: "nat \<Rightarrow> channel_pool \<Rightarrow> channel_pool" where
  "wait_timeout c s =
     (if cp_timeoutMs s > 0 \<and> c \<in> set (cp_waiters s)
      then s\<lparr>cp_waiters := remove1 c (cp_waiters s), cp_rejected := cp_rejected s @ [c]\<rparr> else s)"

text \<open>One read of \<open>_refreshBalances\<close>; a balance that does not parse is NaN, which is not below anything.\<close>

datatype balance_answer = LoadFailed | NoNativeBalance | NativeBalance "rat option"

definition balance_read :: "nat \<Rightarrow> balance_answer \<Rightarrow> channel_pool \<Rightarrow> channel_pool" where
  "balance_read i answer s =
     (case answer of
        NativeBalance q \<Rightarrow>
          s\<lparr>cp_slots := (cp_slots s)[i := (cp_slots s ! i)
              \<lparr>sl_lowBalance := (case q of Some xlm \<Rightarrow> xlm < cp_minBalance s | None \<Rightarrow> False)\<rparr>]\<rparr>
      | _ \<Rightarrow> s)"

definition getLowBalanceAccounts :: "channel_pool \<Rightarrow> channel_account list" where
  "getLowBalanceAccounts s = map sl_account (filter sl_lowBalance (cp_slots s))"

definition poolSize :: "channel_pool \<Rightarrow> nat" where
  "poolSize s = length (cp_slots s)"

definition inUseCount :: "channel_pool \<Rightarrow> nat" where
  "inUseCount s = length (filter sl_inUse (cp_slots s))"

definition availableCount :: "channel_pool \<Rightarrow> nat" where
  "availableCount s = length (filter (\<lambda>x. \<not> sl_inUse x \<and> \<not> sl_lowBalance x) (cp_slots s))"

section \<open>Steps\<close>

datatype pool_step =
    BalanceRead nat balance_answer
  | AcquireResumes nat
  | SequenceRead nat "string option"
  | ReleaseCalled nat
  | TimeoutFires nat

text \<open>A call resumes once: its number is not that of a call that was served, waits or was rejected.\<close>

definition known_calls :: "channel_pool \<Rightarrow> nat list" where
  "known_calls s = map as_call (cp_assigned s) @ cp_waiters s @ cp_rejected s"

fun pool_advance :: "channel_pool \<Rightarrow> pool_step \<Rightarrow> channel_pool" where
  "pool_advance s (BalanceRead i b) = balance_read i b s"
| "pool_advance s (AcquireResumes c) = (if c \<in> set (known_calls s) then s else acquire_resume c s)"
| "pool_advance s (SequenceRead k q) = sequence_read k q s"
| "pool_advance s (ReleaseCalled k) = release_call k s"
| "pool_advance s (TimeoutFires c) = wait_timeout c s"

section \<open>Who holds what\<close>

definition open_slots :: "channel_pool \<Rightarrow> nat list" where
  "open_slots s = map as_slot (filter (\<lambda>a. \<not> as_released a) (cp_assigned s))"

definition held_keys :: "channel_pool \<Rightarrow> string list" where
  "held_keys s = map (\<lambda>i. ch_publicKey (sl_account (cp_slots s ! i))) (open_slots s)"

definition pool_inv :: "channel_account list \<Rightarrow> channel_pool \<Rightarrow> bool" where
  "pool_inv accounts s \<longleftrightarrow> map sl_account (cp_slots s) = accounts \<and> distinct (open_slots s) \<and>
     set (open_slots s) = {i. i < length (cp_slots s) \<and> sl_inUse (cp_slots s ! i)} \<and> distinct (known_calls s)"

lemma find_available_Some:
  "find_available s = Some i \<Longrightarrow> i < length (cp_slots s) \<and> \<not> sl_inUse (cp_slots s ! i) \<and> \<not> sl_lowBalance (cp_slots s ! i)"
  by (auto simp: find_available_def find_Some_iff)

lemma find_available_None:
  "find_available s = None \<longleftrightarrow> (\<forall>x \<in> set (cp_slots s). sl_inUse x \<or> sl_lowBalance x)"
  by (simp add: find_available_def find_None_iff all_set_conv_all_nth)

lemma slots_update_account: "map sl_account (xs[i := (xs ! i)\<lparr>sl_inUse := b\<rparr>]) = map sl_account xs"
  by (simp add: map_update_same)

lemma slots_update_low: "map sl_account (xs[i := (xs ! i)\<lparr>sl_lowBalance := b\<rparr>]) = map sl_account xs"
  by (simp add: map_update_same)

lemma assign_slot_inv:
  assumes "pool_inv accounts s" "i < length (cp_slots s)" "\<not> sl_inUse (cp_slots s ! i)" "c \<notin> set (known_calls s)"
  shows "pool_inv accounts (assign_slot c i s)"
proof -
  have "open_slots (assign_slot c i s) = open_slots s @ [i]" by (simp add: open_slots_def assign_slot_def)
  moreover have "{j. j < length (cp_slots (assign_slot c i s)) \<and> sl_inUse (cp_slots (assign_slot c i s) ! j)} =
      insert i {j. j < length (cp_slots s) \<and> sl_inUse (cp_slots s ! j)}"
    using assms(2) by (auto simp: assign_slot_def nth_update_if)
  moreover have "distinct (known_calls (assign_slot c i s))"
    using assms(1,4) by (auto simp: pool_inv_def known_calls_def assign_slot_def)
  moreover have "map sl_account (cp_slots (assign_slot c i s)) = accounts"
    using assms(1) by (simp add: assign_slot_def slots_update_account pool_inv_def)
  ultimately show ?thesis using assms(1,3) by (auto simp: pool_inv_def)
qed

lemma free_slot_inv:
  assumes "pool_inv accounts s" "can_release k s"
  shows "pool_inv accounts (free_slot k s)"
proof -
  let ?a = "cp_assigned s ! k"
  have k: "k < length (cp_assigned s)" "\<not> as_released ?a" using assms(2) by (simp_all add: can_release_def)
  define xs ys where "xs = take k (cp_assigned s)" and "ys = drop (Suc k) (cp_assigned s)"
  have old: "cp_assigned s = xs @ ?a # ys" using k(1) by (simp add: xs_def ys_def id_take_nth_drop)
  have new: "cp_assigned (free_slot k s) = xs @ ?a\<lparr>as_released := True\<rparr> # ys"
    using k(1) by (simp add: free_slot_def Let_def upd_conv_take_nth_drop xs_def ys_def)
  define us vs where "us = map as_slot (filter (\<lambda>a. \<not> as_released a) xs)" and "vs = map as_slot (filter (\<lambda>a. \<not> as_released a) ys)"
  have o: "open_slots s = us @ as_slot ?a # vs"
    unfolding open_slots_def us_def vs_def by (subst old) (simp add: k(2))
  have n: "open_slots (free_slot k s) = us @ vs" by (simp add: open_slots_def new us_def vs_def)
  have d: "distinct (us @ vs)" "as_slot ?a \<notin> set (us @ vs)" "set (us @ vs) = set (open_slots s) - {as_slot ?a}"
    using assms(1) unfolding pool_inv_def o by auto
  have "map as_call (cp_assigned (free_slot k s)) = map as_call (cp_assigned s)"
    using k(1) by (simp add: free_slot_def Let_def map_update_same)
  then have calls: "known_calls (free_slot k s) = known_calls s" by (simp add: known_calls_def free_slot_def Let_def)
  have "{j. j < length (cp_slots (free_slot k s)) \<and> sl_inUse (cp_slots (free_slot k s) ! j)} =
      {j. j < length (cp_slots s) \<and> sl_inUse (cp_slots s ! j)} - {as_slot ?a}"
    by (auto simp: free_slot_def Let_def nth_update_if)
  moreover have "map sl_account (cp_slots (free_slot k s)) = accounts"
    using assms(1) by (simp add: free_slot_def Let_def slots_update_account pool_inv_def)
  ultimately show ?thesis using d assms(1) by (simp add: pool_inv_def n calls)
qed

lemma notify_waiters_inv: "pool_inv accounts s \<Longrightarrow> pool_inv accounts (notify_waiters s)"
proof (cases "cp_waiters s")
  case (Cons w ws)
  assume i: "pool_inv accounts s"
  show ?thesis
  proof (cases "find_available s")
    case (Some n)
    let ?s = "s\<lparr>cp_waiters := ws\<rparr>"
    have "pool_inv accounts ?s" "w \<notin> set (known_calls ?s)"
      using i by (auto simp: pool_inv_def open_slots_def known_calls_def Cons)
    then show ?thesis using assign_slot_inv [of accounts ?s n w] find_available_Some [OF Some] by (simp add: notify_waiters_def Cons Some)
  qed (simp add: notify_waiters_def Cons i)
qed (simp add: notify_waiters_def)

lemma sequence_read_inv: "pool_inv accounts s \<Longrightarrow> pool_inv accounts (sequence_read k q s)"
proof -
  assume i: "pool_inv accounts s"
  let ?s = "sequence_read k q s"
  have "map as_call (cp_assigned ?s) = map as_call (cp_assigned s)"
    "map (\<lambda>a. (as_slot a, as_released a)) (cp_assigned ?s) = map (\<lambda>a. (as_slot a, as_released a)) (cp_assigned s)"
    by (simp_all add: sequence_read_def map_update_same)
  moreover have "open_slots t = map fst (filter (\<lambda>p. \<not> snd p) (map (\<lambda>a. (as_slot a, as_released a)) (cp_assigned t)))" for t
    by (simp add: open_slots_def filter_map comp_def)
  ultimately have "open_slots ?s = open_slots s" "known_calls ?s = known_calls s"
    by (simp_all add: known_calls_def sequence_read_def)
  with i show ?thesis by (simp add: pool_inv_def) (simp add: sequence_read_def)
qed

lemma balance_read_inv: "pool_inv accounts s \<Longrightarrow> pool_inv accounts (balance_read i b s)"
proof (cases b)
  case (NativeBalance q)
  assume i: "pool_inv accounts s"
  let ?s = "balance_read i b s"
  have "{j. j < length (cp_slots ?s) \<and> sl_inUse (cp_slots ?s ! j)} = {j. j < length (cp_slots s) \<and> sl_inUse (cp_slots s ! j)}"
    by (rule Collect_cong) (simp add: balance_read_def NativeBalance nth_update_if)
  moreover have "open_slots ?s = open_slots s" "known_calls ?s = known_calls s"
    by (simp_all add: open_slots_def known_calls_def balance_read_def NativeBalance)
  moreover have "map sl_account (cp_slots ?s) = map sl_account (cp_slots s)"
    by (simp add: balance_read_def NativeBalance slots_update_low)
  ultimately show ?thesis using i by (simp add: pool_inv_def)
qed (simp_all add: balance_read_def)

lemma pool_advance_inv: "pool_inv accounts s \<Longrightarrow> pool_inv accounts (pool_advance s e)"
proof (cases e)
  case (AcquireResumes c)
  assume i: "pool_inv accounts s"
  show ?thesis
  proof (cases "c \<in> set (known_calls s)")
    case False
    then have "pool_inv accounts (wait_for_slot c s)"
      using i by (auto simp: pool_inv_def wait_for_slot_def known_calls_def open_slots_def)
    with False i assign_slot_inv [OF i _ _ False] show ?thesis
      by (auto simp: AcquireResumes acquire_resume_def dest: find_available_Some split: option.split)
  qed (simp add: AcquireResumes i)
next
  case (TimeoutFires c)
  assume "pool_inv accounts s"
  then show ?thesis
    by (auto simp: TimeoutFires wait_timeout_def pool_inv_def open_slots_def known_calls_def distinct_remove1 dest: notin_set_remove1)
qed (auto simp: balance_read_inv sequence_read_inv release_call_def notify_waiters_inv free_slot_inv)

interpretation channels: machine pool_advance "pool_inv accounts"
  by unfold_locales (rule pool_advance_inv)

lemma pool_new_inv: "channel_pool_new accounts m t = Inr s \<Longrightarrow> pool_inv accounts s"
  by (auto simp: channel_pool_new_def pool_inv_def open_slots_def known_calls_def comp_def split: if_splits)

lemma pool_run_inv: "channel_pool_new accounts m t = Inr s0 \<Longrightarrow> pool_inv accounts (foldl pool_advance s0 es)"
  by (rule channels.run_inv) (rule pool_new_inv)

lemma pool_inv_exclusive:
  assumes "pool_inv accounts s" "distinct (map ch_publicKey accounts)"
  shows "distinct (held_keys s)"
proof -
  have slots: "map sl_account (cp_slots s) = accounts" using assms(1) by (simp add: pool_inv_def)
  have len: "length accounts = length (cp_slots s)" unfolding slots [symmetric] by simp
  have key: "j < length accounts \<and> ch_publicKey (sl_account (cp_slots s ! j)) = map ch_publicKey accounts ! j"
    if "j \<in> set (open_slots s)" for j
  proof -
    have "j < length (cp_slots s)" using assms(1) that by (simp add: pool_inv_def)
    then show ?thesis unfolding slots [symmetric] by simp
  qed
  have "inj_on (\<lambda>j. ch_publicKey (sl_account (cp_slots s ! j))) (set (open_slots s))"
    by (rule inj_onI) (metis key assms(2) nth_eq_iff_index_eq length_map)
  then show ?thesis using assms(1) by (simp add: pool_inv_def held_keys_def distinct_map)
qed

lemma pool_inv_count: "pool_inv accounts s \<Longrightarrow> inUseCount s = length (open_slots s)"
  using distinct_card [of "open_slots s"] by (simp add: pool_inv_def inUseCount_def length_filter_conv_card)

section \<open>Properties\<close>

text \<open>
  C4: Whatever happens to the pool, the accounts of the assignments that are not released are all
  different, \<open>inUseCount\<close> counts exactly them, and no call of \<open>acquire\<close> is answered twice: it is
  served once, rejected once or waits.
\<close>

theorem channel_accounts_exclusive:
  assumes "channel_pool_new accounts m t = Inr s0" "distinct (map ch_publicKey accounts)"
  shows "distinct (held_keys (foldl pool_advance s0 es)) \<and>
         inUseCount (foldl pool_advance s0 es) = length (held_keys (foldl pool_advance s0 es)) \<and>
         distinct (known_calls (foldl pool_advance s0 es))"
proof -
  have i: "pool_inv accounts (foldl pool_advance s0 es)" by (rule pool_run_inv [OF assms(1)])
  then have "distinct (known_calls (foldl pool_advance s0 es))" by (simp add: pool_inv_def)
  with pool_inv_exclusive [OF i assms(2)] pool_inv_count [OF i] show ?thesis by (simp add: held_keys_def)
qed

definition two_channels :: "channel_account list" where
  "two_channels = [\<lparr>ch_publicKey = ''GA'', ch_secretKey = ''SA''\<rparr>, \<lparr>ch_publicKey = ''GB'', ch_secretKey = ''SB''\<rparr>]"

definition busy_morning :: "pool_step list" where
  "busy_morning = [AcquireResumes 0, AcquireResumes 1, AcquireResumes 2, SequenceRead 0 None, ReleaseCalled 0]"

theorem channel_accounts_exclusive_witness:
  "distinct (held_keys (foldl pool_advance (projr (channel_pool_new two_channels None None)) busy_morning)) \<and>
   map as_call (cp_assigned (foldl pool_advance (projr (channel_pool_new two_channels None None)) busy_morning)) = [0, 1, 2]"
proof
  have "channel_pool_new two_channels None None = Inr (projr (channel_pool_new two_channels None None))"
    by (simp add: channel_pool_new_def two_channels_def)
  from channel_accounts_exclusive [OF this, of busy_morning]
  show "distinct (held_keys (foldl pool_advance (projr (channel_pool_new two_channels None None)) busy_morning))"
    by (simp add: two_channels_def)
  show "map as_call (cp_assigned (foldl pool_advance (projr (channel_pool_new two_channels None None)) busy_morning)) = [0, 1, 2]"
    by code_simp
qed

text \<open>
  C27: A release hands the pool to the callers that wait: when the released account is not marked
  low, the call that has waited longest is served before \<open>release\<close> returns, and the others keep
  their places.
\<close>

theorem release_serves_longest_waiting:
  assumes "channel_pool_new accounts m t = Inr s0" "s = foldl pool_advance s0 es"
    "can_release k s" "\<not> sl_lowBalance (cp_slots s ! as_slot (cp_assigned s ! k))" "cp_waiters s = w # ws"
  shows "cp_waiters (release_call k s) = ws \<and>
         (\<exists>a \<in> set (cp_assigned (release_call k s)). as_call a = w \<and> \<not> as_released a)"
proof -
  let ?i = "as_slot (cp_assigned s ! k)" and ?f = "free_slot k s"
  have inv: "pool_inv accounts s" unfolding assms(2) by (rule pool_run_inv [OF assms(1)])
  have k: "k < length (cp_assigned s)" "\<not> as_released (cp_assigned s ! k)" using assms(3) by (simp_all add: can_release_def)
  then have "cp_assigned s ! k \<in> set (filter (\<lambda>a. \<not> as_released a) (cp_assigned s))" by simp
  then have "?i \<in> set (open_slots s)" unfolding open_slots_def set_map by (rule imageI)
  then have len: "?i < length (cp_slots s)" using inv by (simp add: pool_inv_def)
  then have "cp_slots ?f ! ?i \<in> set (cp_slots ?f)" "\<not> sl_inUse (cp_slots ?f ! ?i)" "\<not> sl_lowBalance (cp_slots ?f ! ?i)"
    using assms(4) by (simp_all add: free_slot_def Let_def set_update_memI)
  then have "find_available ?f \<noteq> None" by (auto simp: find_available_None)
  then obtain n where n: "find_available ?f = Some n" by blast
  moreover have "cp_waiters ?f = w # ws" by (simp add: free_slot_def Let_def assms(5))
  ultimately have "release_call k s = assign_slot w n (?f\<lparr>cp_waiters := ws\<rparr>)"
    using assms(3) by (simp add: release_call_def notify_waiters_def)
  then show ?thesis by (simp add: assign_slot_def)
qed

theorem release_serves_longest_waiting_witness:
  "cp_waiters (release_call 0 (foldl pool_advance (projr (channel_pool_new two_channels None None))
     [AcquireResumes 0, AcquireResumes 1, AcquireResumes 2, AcquireResumes 3, SequenceRead 0 None])) = [3]"
proof -
  let ?es = "[AcquireResumes 0, AcquireResumes 1, AcquireResumes 2, AcquireResumes 3, SequenceRead 0 None]"
  let ?s = "foldl pool_advance (projr (channel_pool_new two_channels None None)) ?es"
  have new: "channel_pool_new two_channels None None = Inr (projr (channel_pool_new two_channels None None))"
    by (simp add: channel_pool_new_def two_channels_def)
  have "can_release 0 ?s" "\<not> sl_lowBalance (cp_slots ?s ! as_slot (cp_assigned ?s ! 0))" "cp_waiters ?s = [2, 3]"
    by code_simp+
  from release_serves_longest_waiting [OF new refl this] show ?thesis by simp
qed

text \<open>
  An account that was low when it was released is not handed on when its balance recovers: a
  call that comes later takes it, while the call that waited goes on waiting although the account
  was free.
\<close>

theorem later_call_overtakes_waiting_one:
  assumes "channel_pool_new [a] m t = Inr s0"
  shows "let s = foldl pool_advance s0 [AcquireResumes 0, SequenceRead 0 q, AcquireResumes 1,
            BalanceRead 0 (NativeBalance (Some (cp_minBalance s0 - 1))), ReleaseCalled 0,
            BalanceRead 0 (NativeBalance (Some (cp_minBalance s0))), AcquireResumes 2]
         in cp_waiters s = [1] \<and> map as_call (cp_assigned s) = [0, 2]"
proof -
  have "s0 = \<lparr>cp_slots = [\<lparr>sl_account = a, sl_inUse = False, sl_lowBalance = False\<rparr>], cp_minBalance = cp_minBalance s0,
      cp_timeoutMs = cp_timeoutMs s0, cp_waiters = [], cp_assigned = [], cp_rejected = []\<rparr>"
    using assms by (auto simp: channel_pool_new_def)
  then show ?thesis
    by (cases s0) (simp add: known_calls_def acquire_resume_def find_available_def assign_slot_def sequence_read_def wait_for_slot_def
      balance_read_def release_call_def can_release_def free_slot_def notify_waiters_def)
qed

theorem later_call_overtakes_waiting_one_witness:
  "let s0 = projr (channel_pool_new [\<lparr>ch_publicKey = ''GA'', ch_secretKey = ''SA''\<rparr>] None None);
       s = foldl pool_advance s0 [AcquireResumes 0, SequenceRead 0 None, AcquireResumes 1,
            BalanceRead 0 (NativeBalance (Some (cp_minBalance s0 - 1))), ReleaseCalled 0,
            BalanceRead 0 (NativeBalance (Some (cp_minBalance s0))), AcquireResumes 2]
   in cp_waiters s = [1]"
proof -
  have "channel_pool_new [\<lparr>ch_publicKey = ''GA'', ch_secretKey = ''SA''\<rparr>] None None =
      Inr (projr (channel_pool_new [\<lparr>ch_publicKey = ''GA'', ch_secretKey = ''SA''\<rparr>] None None))"
    by (simp add: channel_pool_new_def)
  from later_call_overtakes_waiting_one [OF this, of None] show ?thesis by (simp add: Let_def)
qed

end
