(* ===== verification/Circuit_Breaker.thy ===== *)
theory Circuit_Breaker
  imports Prelude
begin

text \<open>
  Failing fast when a service is down: \<open>src/resilience/CircuitBreaker.ts\<close>. A call of \<open>execute\<close> has
  two ends, before and after the wrapped function runs, and other calls run in between. A
  configuration is the breaker with the calls in flight; the wrapped function only contributes
  whether it succeeded (a probe that times out counts as failed).
\<close>

section \<open>Data\<close>

datatype circuit_state = CLOSED | OPEN | HALF_OPEN

record breaker_options =
  bo_failureThreshold :: int
  bo_successThreshold :: int
  bo_openDurationMs :: int
  bo_halfOpenProbeCount :: int

definition DEFAULT_OPTIONS :: breaker_options where
  "DEFAULT_OPTIONS = \<lparr>bo_failureThreshold = 5, bo_successThreshold = 1, bo_openDurationMs = 30000,
     bo_halfOpenProbeCount = 1\<rparr>"

record breaker =
  br_state :: circuit_state
  br_failureCount :: int
  br_successCount :: int
  br_lastFailureAt :: int
  br_lastTransitionAt :: int
  br_halfOpenProbesInFlight :: int
  br_log :: "(circuit_state \<times> circuit_state \<times> int) list"

datatype call_kind = Probe | Ordinary

datatype admission = Admitted call_kind | CircuitOpen | ProbeLimitReached

section \<open>Operations\<close>

definition breaker_new :: "int \<Rightarrow> breaker" where
  "breaker_new now = \<lparr>br_state = CLOSED, br_failureCount = 0, br_successCount = 0, br_lastFailureAt = 0,
     br_lastTransitionAt = now, br_halfOpenProbesInFlight = 0, br_log = []\<rparr>"

definition getState :: "breaker \<Rightarrow> circuit_state \<times> int \<times> int" where
  "getState b = (br_state b, br_failureCount b, br_lastTransitionAt b)"

definition breaker_transition :: "circuit_state \<Rightarrow> int \<Rightarrow> breaker \<Rightarrow> breaker" where
  "breaker_transition to now b =
     (if br_state b = to then b
      else b\<lparr>br_state := to, br_lastTransitionAt := now, br_log := br_log b @ [(br_state b, to, now)]\<rparr>)"

definition maybeExpireOpenState :: "breaker_options \<Rightarrow> int \<Rightarrow> breaker \<Rightarrow> breaker" where
  "maybeExpireOpenState opt now b =
     (if br_state b \<noteq> OPEN then b
      else if now - br_lastFailureAt b \<ge> bo_openDurationMs opt
      then breaker_transition HALF_OPEN now (b\<lparr>br_successCount := 0\<rparr>)
      else b)"

definition onSuccess :: "breaker_options \<Rightarrow> int \<Rightarrow> breaker \<Rightarrow> breaker" where
  "onSuccess opt now b =
     (if br_state b = HALF_OPEN then
        let b1 = b\<lparr>br_successCount := br_successCount b + 1\<rparr>
        in if br_successCount b1 \<ge> bo_successThreshold opt
           then breaker_transition CLOSED now (b1\<lparr>br_failureCount := 0, br_successCount := 0\<rparr>)
           else b1
      else b\<lparr>br_failureCount := 0\<rparr>)"

definition onFailure :: "breaker_options \<Rightarrow> int \<Rightarrow> breaker \<Rightarrow> breaker" where
  "onFailure opt now b =
     (let b1 = b\<lparr>br_lastFailureAt := now\<rparr>
      in if br_state b1 = HALF_OPEN then breaker_transition OPEN now (b1\<lparr>br_successCount := 0\<rparr>)
         else
           let b2 = b1\<lparr>br_failureCount := br_failureCount b1 + 1\<rparr>
           in if br_failureCount b2 \<ge> bo_failureThreshold opt then breaker_transition OPEN now b2 else b2)"

text \<open>\<open>execute\<close> until the wrapped function is called, or is not.\<close>

definition execute_begin :: "breaker_options \<Rightarrow> int \<Rightarrow> breaker \<Rightarrow> breaker \<times> admission" where
  "execute_begin opt now b =
     (let b1 = maybeExpireOpenState opt now b
      in if br_state b1 = OPEN then (b1, CircuitOpen)
         else if br_state b1 = HALF_OPEN then
           (if br_halfOpenProbesInFlight b1 \<ge> bo_halfOpenProbeCount opt then (b1, ProbeLimitReached)
            else (b1\<lparr>br_halfOpenProbesInFlight := br_halfOpenProbesInFlight b1 + 1\<rparr>, Admitted Probe))
         else (b1, Admitted Ordinary))"

text \<open>\<open>execute\<close> after it, with the \<open>finally\<close> of a probe.\<close>

definition execute_end :: "breaker_options \<Rightarrow> int \<Rightarrow> call_kind \<Rightarrow> bool \<Rightarrow> breaker \<Rightarrow> breaker" where
  "execute_end opt now kind ok b =
     (let b1 = (if ok then onSuccess opt now b else onFailure opt now b)
      in case kind of
           Probe \<Rightarrow> b1\<lparr>br_halfOpenProbesInFlight := br_halfOpenProbesInFlight b1 - 1\<rparr>
         | Ordinary \<Rightarrow> b1)"

definition breaker_reset :: "int \<Rightarrow> breaker \<Rightarrow> breaker" where
  "breaker_reset now b =
     (breaker_transition CLOSED now b)\<lparr>br_failureCount := 0, br_successCount := 0, br_halfOpenProbesInFlight := 0\<rparr>"

text \<open>A call that no other call overlaps; \<open>None\<close> when it was not admitted.\<close>

definition execute_alone :: "breaker_options \<Rightarrow> int \<Rightarrow> int \<Rightarrow> bool \<Rightarrow> breaker \<Rightarrow> breaker \<times> bool option" where
  "execute_alone opt now later ok b =
     (case execute_begin opt now b of
        (b1, Admitted k) \<Rightarrow> (execute_end opt later k ok b1, Some ok)
      | (b1, _) \<Rightarrow> (b1, None))"

section \<open>Overlapping calls\<close>

text \<open>The breaker with the kinds of the calls in flight.\<close>

inductive breaker_step ::
    "breaker_options \<Rightarrow> breaker \<times> call_kind list \<Rightarrow> breaker \<times> call_kind list \<Rightarrow> bool" for opt where
  begin_call: "execute_begin opt now b = (b', Admitted k) \<Longrightarrow> breaker_step opt (b, ks) (b', k # ks)"
| begin_refused: "execute_begin opt now b = (b', r) \<Longrightarrow> r \<in> {CircuitOpen, ProbeLimitReached} \<Longrightarrow>
    breaker_step opt (b, ks) (b', ks)"
| end_call: "k \<in> set ks \<Longrightarrow> breaker_step opt (b, ks) (execute_end opt now k ok b, remove1 k ks)"

text \<open>With \<open>reset\<close>, which may come at any time.\<close>

inductive breaker_step_reset ::
    "breaker_options \<Rightarrow> breaker \<times> call_kind list \<Rightarrow> breaker \<times> call_kind list \<Rightarrow> bool" for opt where
  step: "breaker_step opt c c' \<Longrightarrow> breaker_step_reset opt c c'"
| reset: "breaker_step_reset opt (b, ks) (breaker_reset now b, ks)"

section \<open>Lemmas\<close>

lemma transition_fields [simp]:
  "br_state (breaker_transition to now b) = to"
  "br_failureCount (breaker_transition to now b) = br_failureCount b"
  "br_successCount (breaker_transition to now b) = br_successCount b"
  "br_lastFailureAt (breaker_transition to now b) = br_lastFailureAt b"
  "br_halfOpenProbesInFlight (breaker_transition to now b) = br_halfOpenProbesInFlight b"
  by (auto simp: breaker_transition_def)

lemma result_probes [simp]:
  "br_halfOpenProbesInFlight (onSuccess opt now b) = br_halfOpenProbesInFlight b"
  "br_halfOpenProbesInFlight (onFailure opt now b) = br_halfOpenProbesInFlight b"
  "br_halfOpenProbesInFlight (maybeExpireOpenState opt now b) = br_halfOpenProbesInFlight b"
  by (auto simp: onSuccess_def onFailure_def maybeExpireOpenState_def Let_def)

lemma end_probes:
  "br_halfOpenProbesInFlight (execute_end opt now k ok b) =
    br_halfOpenProbesInFlight b - (if k = Probe then 1 else 0)"
  by (auto simp: execute_end_def Let_def split: call_kind.splits)

lemma begin_probes:
  assumes "execute_begin opt now b = (b', Admitted k)"
  shows "br_halfOpenProbesInFlight b' = br_halfOpenProbesInFlight b + (if k = Probe then 1 else 0)"
    "k = Probe \<Longrightarrow> br_halfOpenProbesInFlight b < bo_halfOpenProbeCount opt"
  using assms by (auto simp: execute_begin_def Let_def split: if_splits)

lemma refused_probes:
  "execute_begin opt now b = (b', r) \<Longrightarrow> r \<in> {CircuitOpen, ProbeLimitReached} \<Longrightarrow>
   br_halfOpenProbesInFlight b' = br_halfOpenProbesInFlight b"
  by (auto simp: execute_begin_def Let_def split: if_splits)

text \<open>The counter of probes counts the probes in flight, which stay within the limit.\<close>

definition probes_ok :: "breaker_options \<Rightarrow> breaker \<times> call_kind list \<Rightarrow> bool" where
  "probes_ok opt c \<longleftrightarrow> br_halfOpenProbesInFlight (fst c) = int (count_list (snd c) Probe) \<and>
     br_halfOpenProbesInFlight (fst c) \<le> max 0 (bo_halfOpenProbeCount opt)"

lemma breaker_step_probes: "breaker_step opt c c' \<Longrightarrow> probes_ok opt c \<Longrightarrow> probes_ok opt c'"
proof (induction rule: breaker_step.induct)
  case (begin_call now b b' k ks)
  then show ?case using begin_probes [OF begin_call(1)] by (auto simp: probes_ok_def)
next
  case (begin_refused now b b' r ks)
  then show ?case using refused_probes [OF begin_refused(1,2)] by (auto simp: probes_ok_def)
next
  case (end_call k ks b now ok)
  then have "0 < count_list ks k" using count_list_0_iff [of ks k] by simp
  with end_call show ?case by (auto simp: probes_ok_def end_probes)
qed

lemma breaker_run_probes: "(breaker_step opt)\<^sup>*\<^sup>* c c' \<Longrightarrow> probes_ok opt c \<Longrightarrow> probes_ok opt c'"
  by (induction rule: rtranclp_induct) (auto intro: breaker_step_probes)

text \<open>A closed breaker has counted fewer failures than its threshold.\<close>

definition closed_ok :: "breaker_options \<Rightarrow> breaker \<Rightarrow> bool" where
  "closed_ok opt b \<longleftrightarrow> (br_state b = CLOSED \<longrightarrow> br_failureCount b < bo_failureThreshold opt)"

lemma result_closed:
  assumes "0 < bo_failureThreshold opt" "closed_ok opt b"
  shows "closed_ok opt (onSuccess opt now b)" "closed_ok opt (onFailure opt now b)"
    "closed_ok opt (maybeExpireOpenState opt now b)" "closed_ok opt (breaker_reset now b)"
  using assms by (auto simp: closed_ok_def onSuccess_def onFailure_def maybeExpireOpenState_def breaker_reset_def Let_def)

lemma closed_probes [simp]: "closed_ok opt (b\<lparr>br_halfOpenProbesInFlight := n\<rparr>) = closed_ok opt b"
  by (simp add: closed_ok_def)

lemma end_closed: "0 < bo_failureThreshold opt \<Longrightarrow> closed_ok opt b \<Longrightarrow> closed_ok opt (execute_end opt now k ok b)"
  by (auto simp: execute_end_def Let_def result_closed split: call_kind.splits)

lemma begin_closed:
  "0 < bo_failureThreshold opt \<Longrightarrow> closed_ok opt b \<Longrightarrow> execute_begin opt now b = (b', r) \<Longrightarrow> closed_ok opt b'"
  using result_closed(3) [of opt b now] by (auto simp: execute_begin_def Let_def split: if_splits)

lemma breaker_step_closed:
  "breaker_step opt c c' \<Longrightarrow> 0 < bo_failureThreshold opt \<Longrightarrow> closed_ok opt (fst c) \<Longrightarrow> closed_ok opt (fst c')"
  by (induction rule: breaker_step.induct) (auto simp: end_closed intro: begin_closed)

lemma breaker_run_closed:
  assumes "(breaker_step_reset opt)\<^sup>*\<^sup>* c c'" "0 < bo_failureThreshold opt" "closed_ok opt (fst c)"
  shows "closed_ok opt (fst c')"
  using assms(1)
proof (induction rule: rtranclp_induct)
  case (step y z)
  from step(2) show ?case
  proof cases
    case step
    with \<open>closed_ok opt (fst y)\<close> assms(2) show ?thesis by (rule_tac breaker_step_closed)
  qed (use step.IH assms(2) in \<open>simp add: result_closed\<close>)
qed (rule assms(3))

lemma open_refuses:
  assumes "br_state b = OPEN" "now - br_lastFailureAt b < bo_openDurationMs opt"
  shows "execute_begin opt now b = (b, CircuitOpen)"
  using assms by (simp add: execute_begin_def maybeExpireOpenState_def)

text \<open>Failures of calls that do not overlap, counted from a closed breaker.\<close>

lemma alone_closed_failure:
  assumes "br_state b = CLOSED"
  shows "execute_alone opt t t' False b = (onFailure opt t' b, Some False)"
  using assms by (simp add: execute_alone_def execute_begin_def maybeExpireOpenState_def execute_end_def)

lemma failures_open:
  assumes "br_state b = CLOSED" "int (length ts) + br_failureCount b = bo_failureThreshold opt" "ts \<noteq> []"
  shows "br_state (foldl (\<lambda>b (t, t'). fst (execute_alone opt t t' False b)) b ts) = OPEN \<and>
    br_lastFailureAt (foldl (\<lambda>b (t, t'). fst (execute_alone opt t t' False b)) b ts) = snd (last ts)"
  using assms(3,1,2)
proof (induction ts arbitrary: b rule: list_nonempty_induct)
  case (single x)
  then show ?case by (cases x) (simp add: alone_closed_failure onFailure_def Let_def)
next
  case (cons x ts)
  obtain t t' where x: "x = (t, t')" by (cases x)
  have "br_state (onFailure opt t' b) = CLOSED" "br_failureCount (onFailure opt t' b) = br_failureCount b + 1"
    using cons.prems cons.hyps by (cases ts; auto simp: onFailure_def Let_def)+
  with cons.IH [of "onFailure opt t' b"] cons.prems cons.hyps show ?case by (simp add: x alone_closed_failure)
qed

section \<open>Properties\<close>

text \<open>
  C35: However calls overlap, as long as \<open>reset\<close> is not used, the number of probes in flight never
  exceeds the configured number, whatever states the breaker goes through.
\<close>

theorem probes_within_limit:
  assumes "(breaker_step opt)\<^sup>*\<^sup>* (breaker_new t0, []) (b, inflight)" "0 \<le> bo_halfOpenProbeCount opt"
  shows "int (count_list inflight Probe) \<le> bo_halfOpenProbeCount opt"
  using breaker_run_probes [OF assms(1)] assms(2) by (auto simp: probes_ok_def breaker_new_def)

definition tripped :: breaker where
  "tripped = onFailure (DEFAULT_OPTIONS\<lparr>bo_failureThreshold := 1\<rparr>) 10 (breaker_new 0)"

lemma tripped_reached:
  "(breaker_step (DEFAULT_OPTIONS\<lparr>bo_failureThreshold := 1\<rparr>))\<^sup>*\<^sup>* (breaker_new 0, []) (tripped, [])"
proof -
  let ?o = "DEFAULT_OPTIONS\<lparr>bo_failureThreshold := 1\<rparr>"
  have "execute_begin ?o 5 (breaker_new 0) = (breaker_new 0, Admitted Ordinary)" by code_simp
  from breaker_step.begin_call [OF this, of "[]"]
  have s1: "breaker_step ?o (breaker_new 0, []) (breaker_new 0, [Ordinary])" .
  have "breaker_step ?o (breaker_new 0, [Ordinary]) (execute_end ?o 10 Ordinary False (breaker_new 0), remove1 Ordinary [Ordinary])"
    by (rule breaker_step.end_call) simp
  then have s2: "breaker_step ?o (breaker_new 0, [Ordinary]) (tripped, [])" by (simp add: tripped_def execute_end_def)
  have "(breaker_step ?o)\<^sup>*\<^sup>* (breaker_new 0, []) (breaker_new 0, [Ordinary])" by (rule r_into_rtranclp) (rule s1)
  then show ?thesis by (rule rtranclp.rtrancl_into_rtrancl) (rule s2)
qed

theorem probes_within_limit_witness:
  "int (count_list [Probe] Probe) \<le> bo_halfOpenProbeCount DEFAULT_OPTIONS"
proof -
  let ?o = "DEFAULT_OPTIONS\<lparr>bo_failureThreshold := 1\<rparr>"
  have "snd (execute_begin ?o 40000 tripped) = Admitted Probe" by code_simp
  then have "execute_begin ?o 40000 tripped = (fst (execute_begin ?o 40000 tripped), Admitted Probe)"
    by (metis prod.collapse)
  from breaker_step.begin_call [OF this, of "[]"]
  have s: "breaker_step ?o (tripped, []) (fst (execute_begin ?o 40000 tripped), [Probe])" .
  have run: "(breaker_step ?o)\<^sup>*\<^sup>* (breaker_new 0, []) (fst (execute_begin ?o 40000 tripped), [Probe])"
    by (rule rtranclp.rtrancl_into_rtrancl) (rule tripped_reached, rule s)
  from probes_within_limit [OF run] show ?thesis by (simp add: DEFAULT_OPTIONS_def)
qed

text \<open>
  After as many consecutive failures as the threshold, none overlapping, the breaker is open: a
  call that comes before the open period since the last failure is over is refused without running,
  and leaves the breaker as it is.
\<close>

theorem breaker_trips:
  assumes "0 < bo_failureThreshold opt" "int (length ts) = bo_failureThreshold opt"
    and "b = foldl (\<lambda>b (t, t'). fst (execute_alone opt t t' False b)) (breaker_new t0) ts"
    and "now - snd (last ts) < bo_openDurationMs opt"
  shows "br_state b = OPEN \<and> execute_alone opt now later ok b = (b, None)"
proof -
  have "ts \<noteq> []" using assms(1,2) by auto
  from failures_open [OF _ _ this, of "breaker_new t0" opt] assms(2)
  have "br_state b = OPEN" "br_lastFailureAt b = snd (last ts)" by (simp_all add: assms(3) breaker_new_def)
  with open_refuses [of b now opt] assms(4) show ?thesis by (simp add: execute_alone_def)
qed

theorem breaker_trips_witness:
  "br_state (foldl (\<lambda>b (t, t'). fst (execute_alone DEFAULT_OPTIONS t t' False b)) (breaker_new 0)
     [(1, 2), (3, 4), (5, 6), (7, 8), (9, 10)]) = OPEN"
  using breaker_trips [of DEFAULT_OPTIONS "[(1, 2), (3, 4), (5, 6), (7, 8), (9, 10)]", OF _ _ refl, of 30000]
  by (simp add: DEFAULT_OPTIONS_def)

text \<open>
  A breaker that is closed, after any overlapping calls and resets, has counted fewer failures
  than its threshold: it is never closed with the threshold reached.
\<close>

theorem closed_below_threshold:
  assumes "(breaker_step_reset opt)\<^sup>*\<^sup>* (breaker_new t0, []) (b, inflight)" "0 < bo_failureThreshold opt"
    and "br_state b = CLOSED"
  shows "br_failureCount b < bo_failureThreshold opt"
  using breaker_run_closed [OF assms(1,2)] assms(2,3) by (simp add: closed_ok_def breaker_new_def)

theorem closed_below_threshold_witness: "br_failureCount (breaker_reset 20 tripped) < 1"
proof -
  let ?o = "DEFAULT_OPTIONS\<lparr>bo_failureThreshold := 1\<rparr>"
  have "(breaker_step_reset ?o)\<^sup>*\<^sup>* (breaker_new 0, []) (tripped, [])"
    using tripped_reached by (rule mono_rtranclp [rule_format, rotated]) (rule breaker_step_reset.step)
  then have run: "(breaker_step_reset ?o)\<^sup>*\<^sup>* (breaker_new 0, []) (breaker_reset 20 tripped, [])"
    by (rule rtranclp.rtrancl_into_rtrancl) (rule breaker_step_reset.reset)
  from closed_below_threshold [OF run] show ?thesis by (simp add: DEFAULT_OPTIONS_def breaker_reset_def)
qed

text \<open>
  Results that arrive late disturb the probing. After a reset with a probe in flight the
  counter goes below zero and a second half-open period admits two probes at once although one is
  allowed; and a success of a call admitted before the breaker opened closes a half-open breaker
  before any probe.
\<close>

theorem late_results_disturb_probing:
  "(let opt = DEFAULT_OPTIONS\<lparr>bo_failureThreshold := 1\<rparr>;
        (b1, _) = execute_begin opt 40000 tripped;
        b2 = execute_end opt 40002 Probe False (breaker_reset 40001 b1);
        (b3, r3) = execute_begin opt 80000 b2;
        (b4, r4) = execute_begin opt 80001 b3
    in br_halfOpenProbesInFlight b2 = - 1 \<and> r3 = Admitted Probe \<and> r4 = Admitted Probe) \<and>
   (let opt = DEFAULT_OPTIONS\<lparr>bo_failureThreshold := 1\<rparr>;
        (b1, _) = execute_begin opt 40000 tripped
    in br_state b1 = HALF_OPEN \<and> br_state (execute_end opt 40001 Ordinary True b1) = CLOSED)"
  by code_simp

end
