(* ===== verification/Circular_Buffer.thy ===== *)
theory Circular_Buffer
  imports Prelude
begin

text \<open>
  The ring buffer of \<open>src/utils/circularBuffer.ts\<close> and the interface it offers to its client
  (\<open>FeeTrendAnalyzer\<close>, theory \<open>Fee_Trend\<close>): a window that keeps the last items pushed, oldest
  first. A slot of the array is \<open>None\<close> where the code holds \<open>undefined\<close>; the casts \<open>as T\<close> are \<open>the\<close>,
  and the invariant shows that they never read an undefined slot.
\<close>

section \<open>The buffer\<close>

record 'a cbuf =
  cb_items :: "'a option list"
  cb_capacity :: nat
  cb_start :: nat
  cb_count :: nat

datatype cbuf_error = CapacityRangeError int

definition cbuf_new :: "int \<Rightarrow> cbuf_error + 'a cbuf" where
  "cbuf_new capacity =
     (if capacity < 1 then Inl (CapacityRangeError capacity)
      else Inr \<lparr>cb_items = replicate (nat capacity) None, cb_capacity = nat capacity,
                cb_start = 0, cb_count = 0\<rparr>)"

definition cbuf_push :: "'a \<Rightarrow> 'a cbuf \<Rightarrow> 'a cbuf" where
  "cbuf_push item b =
     (let index = (cb_start b + cb_count b) mod cb_capacity b;
          b1 = b\<lparr>cb_items := (cb_items b)[index := Some item]\<rparr>
      in if cb_count b1 < cb_capacity b1 then b1\<lparr>cb_count := cb_count b1 + 1\<rparr>
         else b1\<lparr>cb_start := (cb_start b1 + 1) mod cb_capacity b1\<rparr>)"

text \<open>
  One turn of the eviction loop: clear the oldest slot and step over it. The loop runs while
  \<open>count > 0\<close>, so at most \<open>count\<close> times: that is its first argument.
\<close>

definition drop_oldest :: "'a cbuf \<Rightarrow> 'a cbuf" where
  "drop_oldest b =
     b\<lparr>cb_items := (cb_items b)[cb_start b := None],
       cb_start := (cb_start b + 1) mod cb_capacity b, cb_count := cb_count b - 1\<rparr>"

fun evict_loop :: "nat \<Rightarrow> ('a \<Rightarrow> bool) \<Rightarrow> 'a cbuf \<Rightarrow> 'a list \<Rightarrow> 'a list \<times> 'a cbuf" where
  "evict_loop 0 p b evicted = (evicted, b)"
| "evict_loop (Suc n) p b evicted =
     (if p (the (cb_items b ! cb_start b))
      then evict_loop n p (drop_oldest b) (evicted @ [the (cb_items b ! cb_start b)])
      else (evicted, b))"

definition evictOldestWhile :: "('a \<Rightarrow> bool) \<Rightarrow> 'a cbuf \<Rightarrow> 'a list \<times> 'a cbuf" where
  "evictOldestWhile p b = evict_loop (cb_count b) p b []"

definition cbuf_toArray :: "'a cbuf \<Rightarrow> 'a list" where
  "cbuf_toArray b =
     map (\<lambda>i. the (cb_items b ! ((cb_start b + i) mod cb_capacity b))) [0..<cb_count b]"

definition cbuf_size :: "'a cbuf \<Rightarrow> nat" where
  "cbuf_size b = cb_count b"

definition cbuf_isFull :: "'a cbuf \<Rightarrow> bool" where
  "cbuf_isFull b \<longleftrightarrow> cb_count b = cb_capacity b"

definition cbuf_clear :: "'a cbuf \<Rightarrow> 'a cbuf" where
  "cbuf_clear b = b\<lparr>cb_items := replicate (length (cb_items b)) None, cb_start := 0, cb_count := 0\<rparr>"

text \<open>
  The invariant: sizes agree, and exactly the \<open>count\<close> slots from \<open>start\<close> on are defined.
\<close>

definition cbuf_inv :: "'a cbuf \<Rightarrow> bool" where
  "cbuf_inv b \<longleftrightarrow>
     0 < cb_capacity b \<and> length (cb_items b) = cb_capacity b \<and> cb_start b < cb_capacity b \<and>
     cb_count b \<le> cb_capacity b \<and>
     (\<forall>i < cb_capacity b.
        (cb_items b ! ((cb_start b + i) mod cb_capacity b) \<noteq> None) = (i < cb_count b))"

section \<open>Ring arithmetic\<close>

lemma mod_ring_inj:
  fixes i j c s :: nat
  assumes eq: "(s + i) mod c = (s + j) mod c" and "i < c" "j < c"
  shows "i = j"
proof (rule ccontr)
  assume "i \<noteq> j"
  have "c dvd (max i j - min i j)"
    using eq mod_eq_dvd_iff_nat [of "s + min i j" "s + max i j" c] by (auto simp: max_def min_def split: if_splits)
  moreover have "0 < max i j - min i j" "max i j - min i j < c"
    using assms(2,3) \<open>i \<noteq> j\<close> by auto
  ultimately show False using nat_dvd_not_less by blast
qed

lemma ring_upd:
  "length xs = c \<Longrightarrow> i < c \<Longrightarrow> j < c \<Longrightarrow>
     xs[(s + j) mod c := v] ! ((s + i) mod c) = (if i = j then v else xs ! ((s + i) mod c))"
  by (auto simp: nth_list_update dest: mod_ring_inj)

lemma ring_shift: "(Suc s mod c + i) mod c = (s + Suc i) mod (c::nat)"
  by (metis add_Suc_shift mod_add_left_eq)

lemma ring_wrap: "(s + c) mod c = (s + 0) mod (c::nat)"
  by simp

section \<open>What the operations do to the window\<close>

lemma cbuf_new_facts:
  assumes "cbuf_new n = Inr b"
  shows "cbuf_inv b" and "cbuf_toArray b = []" and "cb_capacity b = nat n"
  using assms by (auto simp: cbuf_new_def cbuf_inv_def cbuf_toArray_def split: if_splits)

lemma cbuf_clear_facts:
  assumes "cbuf_inv b"
  shows "cbuf_inv (cbuf_clear b)" and "cbuf_toArray (cbuf_clear b) = []"
  using assms by (auto simp: cbuf_clear_def cbuf_inv_def cbuf_toArray_def)

lemma cbuf_push_cap [simp]: "cb_capacity (cbuf_push x b) = cb_capacity b"
  by (simp add: cbuf_push_def Let_def)

lemma length_toArray [simp]: "length (cbuf_toArray b) = cb_count b"
  by (simp add: cbuf_toArray_def)

lemma cbuf_push_room:
  assumes inv: "cbuf_inv b" and room: "cb_count b < cb_capacity b"
  shows "cbuf_inv (cbuf_push x b)" and "cbuf_toArray (cbuf_push x b) = cbuf_toArray b @ [x]"
proof -
  from inv have len: "length (cb_items b) = cb_capacity b" by (simp add: cbuf_inv_def)
  have push: "cbuf_push x b = b\<lparr>cb_items := (cb_items b)[(cb_start b + cb_count b) mod cb_capacity b := Some x],
      cb_count := cb_count b + 1\<rparr>"
    using room by (simp add: cbuf_push_def Let_def)
  show "cbuf_inv (cbuf_push x b)"
    using inv room by (auto simp: cbuf_inv_def push ring_upd less_Suc_eq)
  show "cbuf_toArray (cbuf_push x b) = cbuf_toArray b @ [x]"
    using room by (auto simp: cbuf_toArray_def push ring_upd [OF len])
qed

lemma cbuf_push_full:
  assumes inv: "cbuf_inv b" and full: "\<not> cb_count b < cb_capacity b"
  shows "cbuf_inv (cbuf_push x b)" and "cbuf_toArray (cbuf_push x b) = tl (cbuf_toArray b) @ [x]"
proof -
  let ?c = "cb_capacity b" and ?s = "cb_start b"
  from inv full have len: "length (cb_items b) = ?c" and cnt: "cb_count b = ?c" and pos: "0 < ?c"
    by (simp_all add: cbuf_inv_def)
  have push: "cbuf_push x b = b\<lparr>cb_items := (cb_items b)[(?s + 0) mod ?c := Some x], cb_start := Suc ?s mod ?c\<rparr>"
    using cnt by (simp add: cbuf_push_def Let_def)
  have at: "cb_items (cbuf_push x b) ! ((Suc ?s mod ?c + i) mod ?c) =
      (if Suc i = ?c then Some x else cb_items b ! ((?s + Suc i) mod ?c))" if "i < ?c" for i
  proof (cases "Suc i = ?c")
    case True
    then have "(?s + Suc i) mod ?c = (?s + 0) mod ?c" by simp
    with True pos show ?thesis unfolding ring_shift push using ring_upd [OF len, of 0 0] by simp
  next
    case False
    with that have "Suc i < ?c" by simp
    with False show ?thesis unfolding ring_shift push using ring_upd [OF len, of "Suc i" 0] by simp
  qed
  have def: "cb_items b ! ((?s + i) mod ?c) \<noteq> None" if "i < ?c" for i
    using inv that cnt by (simp add: cbuf_inv_def)
  show "cbuf_inv (cbuf_push x b)"
    unfolding cbuf_inv_def
  proof (intro conjI allI impI)
    fix i assume "i < cb_capacity (cbuf_push x b)"
    then have i: "i < ?c" by simp
    then show "(cb_items (cbuf_push x b) ! ((cb_start (cbuf_push x b) + i) mod cb_capacity (cbuf_push x b)) \<noteq> None) =
        (i < cb_count (cbuf_push x b))"
      using at [OF i] def [of "Suc i"] cnt by (simp add: push)
  qed (use len pos cnt in \<open>simp_all add: push\<close>)
  have start: "cb_start (cbuf_push x b) = Suc ?s mod ?c" and cnt': "cb_count (cbuf_push x b) = ?c"
    by (simp_all add: push cnt)
  show "cbuf_toArray (cbuf_push x b) = tl (cbuf_toArray b) @ [x]"
    using pos by (intro nth_equalityI) (auto simp: cbuf_toArray_def start cnt' at cnt nth_append nth_tl)
qed

lemma drop_oldest_facts:
  assumes inv: "cbuf_inv b" and pos: "0 < cb_count b"
  shows "cbuf_inv (drop_oldest b)"
    and "cbuf_toArray b = the (cb_items b ! cb_start b) # cbuf_toArray (drop_oldest b)"
proof -
  let ?c = "cb_capacity b" and ?s = "cb_start b"
  from inv have len: "length (cb_items b) = ?c" and s: "?s < ?c" and k: "cb_count b \<le> ?c" "0 < ?c"
    by (simp_all add: cbuf_inv_def)
  have upd: "(cb_items b)[?s := None] = (cb_items b)[(?s + 0) mod ?c := None]" using s by simp
  have at: "cb_items (drop_oldest b) ! ((Suc ?s mod ?c + i) mod ?c) =
      (if Suc i = ?c then None else cb_items b ! ((?s + Suc i) mod ?c))" if "i < ?c" for i
  proof (cases "Suc i = ?c")
    case True
    then have "(?s + Suc i) mod ?c = (?s + 0) mod ?c" by simp
    with True k show ?thesis
      unfolding ring_shift drop_oldest_def upd using ring_upd [OF len, of 0 0] by simp
  next
    case False
    with that have "Suc i < ?c" by simp
    with False show ?thesis
      unfolding ring_shift drop_oldest_def upd using ring_upd [OF len, of "Suc i" 0] by simp
  qed
  have def: "(cb_items b ! ((?s + i) mod ?c) \<noteq> None) = (i < cb_count b)" if "i < ?c" for i
    using inv that by (simp add: cbuf_inv_def)
  show "cbuf_inv (drop_oldest b)"
    unfolding cbuf_inv_def
  proof (intro conjI allI impI)
    fix i assume "i < cb_capacity (drop_oldest b)"
    then have i: "i < ?c" by (simp add: drop_oldest_def)
    then show "(cb_items (drop_oldest b) ! ((cb_start (drop_oldest b) + i) mod cb_capacity (drop_oldest b)) \<noteq> None) =
        (i < cb_count (drop_oldest b))"
      using at [OF i] def [of "Suc i"] k pos by (auto simp: drop_oldest_def)
  qed (use len k pos in \<open>auto simp: drop_oldest_def\<close>)
  have start: "cb_start (drop_oldest b) = Suc ?s mod ?c" "cb_capacity (drop_oldest b) = ?c"
      "cb_count (drop_oldest b) = cb_count b - 1"
    by (simp_all add: drop_oldest_def)
  show "cbuf_toArray b = the (cb_items b ! cb_start b) # cbuf_toArray (drop_oldest b)"
    using pos k s by (intro nth_equalityI) (auto simp: cbuf_toArray_def start at nth_Cons split: nat.splits)
qed

lemma evict_loop_facts:
  "cbuf_inv b \<Longrightarrow> cb_count b = n \<Longrightarrow>
     fst (evict_loop n p b ev) = ev @ takeWhile p (cbuf_toArray b) \<and>
     cbuf_toArray (snd (evict_loop n p b ev)) = dropWhile p (cbuf_toArray b) \<and>
     cbuf_inv (snd (evict_loop n p b ev)) \<and>
     cb_capacity (snd (evict_loop n p b ev)) = cb_capacity b"
proof (induction n arbitrary: b ev)
  case 0
  then have "cbuf_toArray b = []" by (simp add: cbuf_toArray_def)
  with 0 show ?case by simp
next
  case (Suc n)
  then have "cbuf_inv (drop_oldest b)" by (simp add: drop_oldest_facts)
  moreover have "cb_count (drop_oldest b) = n" "cb_capacity (drop_oldest b) = cb_capacity b"
    using Suc.prems by (simp_all add: drop_oldest_def)
  ultimately show ?case
    using Suc.IH [of "drop_oldest b"] Suc.prems drop_oldest_facts(2) [of b] by simp
qed

section \<open>The interface: a bounded window\<close>

locale bounded_window =
  fixes wnew :: "nat \<Rightarrow> 'b"
    and wpush :: "'a \<Rightarrow> 'b \<Rightarrow> 'b"
    and wevict :: "('a \<Rightarrow> bool) \<Rightarrow> 'b \<Rightarrow> 'a list \<times> 'b"
    and wlist :: "'b \<Rightarrow> 'a list"
    and wcap :: "'b \<Rightarrow> nat"
    and winv :: "'b \<Rightarrow> bool"
  assumes new_inv: "0 < n \<Longrightarrow> winv (wnew n)"
    and new_list: "0 < n \<Longrightarrow> wlist (wnew n) = []"
    and new_cap: "0 < n \<Longrightarrow> wcap (wnew n) = n"
    and push_inv: "winv b \<Longrightarrow> winv (wpush x b)"
    and push_cap: "winv b \<Longrightarrow> wcap (wpush x b) = wcap b"
    and push_list: "winv b \<Longrightarrow>
      wlist (wpush x b) = (if length (wlist b) < wcap b then wlist b @ [x] else tl (wlist b) @ [x])"
    and evict_inv: "winv b \<Longrightarrow> winv (snd (wevict p b))"
    and evict_cap: "winv b \<Longrightarrow> wcap (snd (wevict p b)) = wcap b"
    and evict_out: "winv b \<Longrightarrow> fst (wevict p b) = takeWhile p (wlist b)"
    and evict_list: "winv b \<Longrightarrow> wlist (snd (wevict p b)) = dropWhile p (wlist b)"
    and list_bound: "winv b \<Longrightarrow> length (wlist b) \<le> wcap b"
    and cap_pos: "winv b \<Longrightarrow> 0 < wcap b"
begin

lemma push_drop:
  "winv b \<Longrightarrow> wlist (wpush x b) = drop (length (wlist b) + 1 - wcap b) (wlist b @ [x])"
  using push_list [of b x] list_bound [of b] cap_pos [of b] by (cases "wlist b") (auto simp: not_less)

lemma run_push_inv: "winv b \<Longrightarrow> winv (foldl (\<lambda>b x. wpush x b) b xs) \<and> wcap (foldl (\<lambda>b x. wpush x b) b xs) = wcap b"
  by (induction xs arbitrary: b) (simp_all add: push_inv push_cap)

text \<open>Pushing a sequence into a window leaves its last \<open>wcap b\<close> items.\<close>

lemma run_push_list:
  "winv b \<Longrightarrow> wlist (foldl (\<lambda>b x. wpush x b) b xs) =
     drop (length (wlist b @ xs) - wcap b) (wlist b @ xs)"
proof (induction xs arbitrary: b)
  case Nil
  then show ?case using list_bound [of b] by simp
next
  case (Cons x xs)
  have "wlist (foldl (\<lambda>b x. wpush x b) b (x # xs)) =
      drop (length (wlist (wpush x b) @ xs) - wcap b) (wlist (wpush x b) @ xs)"
    using Cons by (simp add: push_inv push_cap)
  also have "\<dots> = drop (length (wlist b @ x # xs) - wcap b) (wlist b @ x # xs)"
  proof (cases "length (wlist b) < wcap b")
    case True
    then show ?thesis using Cons.prems by (simp add: push_list del: drop_append)
  next
    case False
    with Cons.prems list_bound [of b] cap_pos [of b] obtain a l
      where "wlist b = a # l" "wcap b = Suc (length l)" by (cases "wlist b") auto
    then show ?thesis using Cons.prems by (simp add: push_list del: drop_append)
  qed
  finally show ?case .
qed

lemma run_new_list: "0 < n \<Longrightarrow> wlist (foldl (\<lambda>b x. wpush x b) (wnew n) xs) = drop (length xs - n) xs"
  using run_push_list [of "wnew n" xs] by (simp add: new_inv new_list new_cap)

end

text \<open>The ring buffer provides it.\<close>

definition cbuf_make :: "nat \<Rightarrow> 'a cbuf" where
  "cbuf_make n = \<lparr>cb_items = replicate n None, cb_capacity = n, cb_start = 0, cb_count = 0\<rparr>"

lemma cbuf_new_make: "0 < n \<Longrightarrow> cbuf_new (int n) = Inr (cbuf_make n)"
  by (simp add: cbuf_new_def cbuf_make_def)

interpretation ring: bounded_window cbuf_make cbuf_push evictOldestWhile cbuf_toArray cb_capacity cbuf_inv
proof unfold_locales
  fix n :: nat assume "0 < n"
  from cbuf_new_facts [OF cbuf_new_make [OF this]]
  show "cbuf_inv (cbuf_make n)" "cbuf_toArray (cbuf_make n) = []" "cb_capacity (cbuf_make n) = n"
    by simp_all
next
  fix b :: "'a cbuf" and x p assume inv: "cbuf_inv b"
  show "cbuf_inv (cbuf_push x b)"
    using inv by (cases "cb_count b < cb_capacity b") (simp_all add: cbuf_push_room cbuf_push_full)
  show "cbuf_toArray (cbuf_push x b) =
      (if length (cbuf_toArray b) < cb_capacity b then cbuf_toArray b @ [x] else tl (cbuf_toArray b) @ [x])"
    using inv by (simp add: cbuf_push_room cbuf_push_full)
  show "cbuf_inv (snd (evictOldestWhile p b))" "cb_capacity (snd (evictOldestWhile p b)) = cb_capacity b"
    "fst (evictOldestWhile p b) = takeWhile p (cbuf_toArray b)"
    "cbuf_toArray (snd (evictOldestWhile p b)) = dropWhile p (cbuf_toArray b)"
    using evict_loop_facts [OF inv refl, of p "[]"] by (simp_all add: evictOldestWhile_def)
  show "length (cbuf_toArray b) \<le> cb_capacity b" "0 < cb_capacity b" "cb_capacity (cbuf_push x b) = cb_capacity b"
    using inv by (simp_all add: cbuf_inv_def)
qed

end
