(* ===== verification/Collaboration.thy ===== *)
theory Collaboration
  imports Prelude
begin

text \<open>
  \<open>invoiceCollaboration.ts\<close>: comments with replies and mentions, approval requests with a quorum, and
  the notifications both send. The objects of the store are changed in place; the objects handed out
  are taken not to be changed by their receivers. Registered handlers are not modelled; what is
  emitted is a list of events.
\<close>

section \<open>Data\<close>

record comment =
  cm_id :: string
  cm_invoiceId :: string
  cm_author :: string
  cm_content :: string
  cm_parentId :: "string option"
  cm_mentions :: "string list"
  cm_createdAt :: int
  cm_updatedAt :: "int option"
  cm_isDeleted :: bool

datatype approval_choice = Approve | Reject

record approval_decision =
  ad_approver :: string
  ad_decision :: approval_choice
  ad_notes :: "string option"
  ad_timestamp :: int

datatype request_status = ReqPending | ReqApproved | ReqRejected | ReqExpired

record approval_request =
  ar_id :: string
  ar_invoiceId :: string
  ar_requestedBy :: string
  ar_title :: "string option"
  ar_description :: "string option"
  ar_requiredApprovers :: "string list"
  ar_minApprovals :: int
  ar_deadline :: "int option"
  ar_status :: request_status
  ar_decisions :: "approval_decision list"
  ar_createdAt :: int
  ar_updatedAt :: int

record approval_summary =
  as_invoiceId :: string
  as_isApproved :: bool
  as_isRejected :: bool
  as_isPending :: bool
  as_activeRequests :: nat
  as_approvedCount :: nat
  as_requiredCount :: int
  as_pendingApprovers :: "string list"
  as_approvedBy :: "string list"
  as_rejectedBy :: "string list"

datatype notification_type = MentionNote | ReplyNote | RequestedNote | DecisionNote | CompletedNote

record collab_notification =
  cn_id :: string
  cn_recipient :: string
  cn_type :: notification_type
  cn_invoiceId :: string
  cn_actor :: string
  cn_message :: string
  cn_timestamp :: int
  cn_read :: bool

datatype collab_event =
    CommentAdded comment
  | CommentUpdated comment
  | CommentDeleted string string
  | ApprovalRequested approval_request
  | ApprovalDecided approval_request approval_decision
  | ApprovalCompleted approval_request
  | NotificationSent collab_notification

datatype collab_error =
    EmptyContent
  | CommentNotFound string
  | Unauthorized string string
  | NoApprovers
  | BadMinApprovals nat
  | RequestNotFound string
  | AlreadyDecided request_status

record collab =
  co_comments :: "(string \<times> comment) list"
  co_commentsByInvoice :: "(string \<times> string list) list"
  co_requests :: "(string \<times> approval_request) list"
  co_requestsByInvoice :: "(string \<times> string list) list"
  co_notifications :: "collab_notification list"
  co_commentSeq :: nat
  co_requestSeq :: nat
  co_notificationSeq :: nat
  co_events :: "collab_event list"

definition collab_new :: collab where
  "collab_new = \<lparr>co_comments = [], co_commentsByInvoice = [], co_requests = [], co_requestsByInvoice = [],
     co_notifications = [], co_commentSeq = 0, co_requestSeq = 0, co_notificationSeq = 0, co_events = []\<rparr>"

section \<open>Mentions and notifications\<close>

definition word_char :: "char \<Rightarrow> bool" where
  "word_char c = (let n = of_char c :: nat in
     48 \<le> n \<and> n \<le> 57 \<or> 65 \<le> n \<and> n \<le> 90 \<or> 97 \<le> n \<and> n \<le> 122 \<or> n = 95)"

text \<open>The global matches of \<open>@\<close> before three or more word characters.\<close>

function mention_matches :: "string \<Rightarrow> string list" where
  "mention_matches [] = []"
| "mention_matches (c # cs) =
     (if c = CHR ''@'' \<and> length (takeWhile word_char cs) \<ge> 3
      then takeWhile word_char cs # mention_matches (dropWhile word_char cs)
      else mention_matches cs)"
  by pat_completeness auto
termination mention_matches
  by (relation "measure length") (simp_all add: le_imp_less_Suc length_dropWhile_le)

definition extractMentions :: "string \<Rightarrow> string list" where
  "extractMentions txt = foldl (\<lambda>s m. set_add m s) [] (mention_matches txt)"

definition emit_collab :: "collab_event \<Rightarrow> collab \<Rightarrow> collab" where
  "emit_collab e co = co\<lparr>co_events := co_events co @ [e]\<rparr>"

definition sendNotification ::
  "string \<Rightarrow> notification_type \<Rightarrow> string \<Rightarrow> string \<Rightarrow> string \<Rightarrow> int \<Rightarrow> collab \<Rightarrow> collab" where
  "sendNotification recipient ty invoice actor message now co =
     (let seq = co_notificationSeq co + 1;
          n = \<lparr>cn_id = ''notif-'' @ show_nat seq, cn_recipient = recipient, cn_type = ty, cn_invoiceId = invoice,
               cn_actor = actor, cn_message = message, cn_timestamp = now, cn_read = False\<rparr>
      in emit_collab (NotificationSent n)
           (co\<lparr>co_notificationSeq := seq, co_notifications := co_notifications co @ [n]\<rparr>))"

definition quoted_id :: "string \<Rightarrow> string" where
  "quoted_id s = [char_of (34 :: nat)] @ s @ [char_of (34 :: nat)]"

definition dispatchCommentNotifications :: "comment \<Rightarrow> int \<Rightarrow> collab \<Rightarrow> collab" where
  "dispatchCommentNotifications c now co =
     (let co1 = foldl (\<lambda>co h. if h \<noteq> cm_author c
                then sendNotification h MentionNote (cm_invoiceId c) (cm_author c)
                       (cm_author c @ '' mentioned you on invoice '' @ quoted_id (cm_invoiceId c)) now co
                else co) co (cm_mentions c)
      in case cm_parentId c of
        None \<Rightarrow> co1
      | Some p \<Rightarrow>
          if p = '''' then co1
          else (case map_of (co_comments co1) p of
                  None \<Rightarrow> co1
                | Some parent \<Rightarrow>
                    if cm_author parent \<noteq> cm_author c \<and> cm_author parent \<notin> set (cm_mentions c)
                    then sendNotification (cm_author parent) ReplyNote (cm_invoiceId c) (cm_author c)
                           (cm_author c @ '' replied to your comment on invoice '' @ quoted_id (cm_invoiceId c)) now co1
                    else co1))"

section \<open>Comments\<close>

definition list_for :: "string \<Rightarrow> (string \<times> string list) list \<Rightarrow> string list" where
  "list_for k m = (case map_of m k of None \<Rightarrow> [] | Some xs \<Rightarrow> xs)"

definition addComment ::
  "string \<Rightarrow> string \<Rightarrow> string \<Rightarrow> string option \<Rightarrow> int \<Rightarrow> collab \<Rightarrow> (collab_error + comment) \<times> collab" where
  "addComment invoice author content parentId now co =
     (if trim content = '''' then (Inl EmptyContent, co)
      else if (case parentId of
                 None \<Rightarrow> False
               | Some p \<Rightarrow> p \<noteq> '''' \<and>
                   (case map_of (co_comments co) p of None \<Rightarrow> True | Some c \<Rightarrow> cm_invoiceId c \<noteq> invoice))
           then (Inl (CommentNotFound (the parentId)), co)
      else
        let seq = co_commentSeq co + 1;
            i = ''comment-'' @ show_nat seq;
            c = \<lparr>cm_id = i, cm_invoiceId = invoice, cm_author = author, cm_content = content, cm_parentId = parentId,
                 cm_mentions = extractMentions content, cm_createdAt = now, cm_updatedAt = None, cm_isDeleted = False\<rparr>;
            co1 = co\<lparr>co_commentSeq := seq,
                     co_comments := AList.update i c (co_comments co),
                     co_commentsByInvoice := AList.update invoice (list_for invoice (co_commentsByInvoice co) @ [i]) (co_commentsByInvoice co)\<rparr>
        in (Inr c, dispatchCommentNotifications c now (emit_collab (CommentAdded c) co1)))"

definition getComments :: "string \<Rightarrow> collab \<Rightarrow> comment list" where
  "getComments invoice co =
     filter (\<lambda>c. \<not> cm_isDeleted c)
       (List.map_filter (\<lambda>i. map_of (co_comments co) i) (list_for invoice (co_commentsByInvoice co)))"

text \<open>
  \<open>getThreadedComments\<close> links fresh nodes: the result is the list of the roots and, per comment, the
  list of its replies, all by identifier.
\<close>

type_synonym thread_links = "string list \<times> (string \<times> string list) list"

definition link_comment :: "string list \<Rightarrow> thread_links \<Rightarrow> comment \<Rightarrow> thread_links" where
  "link_comment ids st c =
     (case st of (roots, replies) \<Rightarrow>
        case cm_parentId c of
          Some p \<Rightarrow>
            if p \<noteq> '''' \<and> p \<in> set ids then (roots, AList.update p (list_for p replies @ [cm_id c]) replies)
            else (roots @ [cm_id c], replies)
        | None \<Rightarrow> (roots @ [cm_id c], replies))"

definition getThreadedComments :: "string \<Rightarrow> collab \<Rightarrow> thread_links" where
  "getThreadedComments invoice co =
     (let cs = getComments invoice co
      in foldl (link_comment (map cm_id cs)) ([], map (\<lambda>c. (cm_id c, [])) cs) cs)"

definition editComment :: "string \<Rightarrow> string \<Rightarrow> string \<Rightarrow> int \<Rightarrow> collab \<Rightarrow> (collab_error + comment) \<times> collab" where
  "editComment i author content now co =
     (case map_of (co_comments co) i of
        None \<Rightarrow> (Inl (CommentNotFound i), co)
      | Some c \<Rightarrow>
          if cm_isDeleted c then (Inl (CommentNotFound i), co)
          else if cm_author c \<noteq> author then (Inl (Unauthorized author ''edit comment''), co)
          else let c' = c\<lparr>cm_content := content, cm_mentions := extractMentions content, cm_updatedAt := Some now\<rparr>
               in (Inr c', emit_collab (CommentUpdated c') (co\<lparr>co_comments := AList.update i c' (co_comments co)\<rparr>)))"

definition deleteComment :: "string \<Rightarrow> string \<Rightarrow> int \<Rightarrow> collab \<Rightarrow> (collab_error + bool) \<times> collab" where
  "deleteComment i author now co =
     (case map_of (co_comments co) i of
        None \<Rightarrow> (Inl (CommentNotFound i), co)
      | Some c \<Rightarrow>
          if cm_isDeleted c then (Inl (CommentNotFound i), co)
          else if cm_author c \<noteq> author then (Inl (Unauthorized author ''delete comment''), co)
          else let c' = c\<lparr>cm_isDeleted := True, cm_content := ''[deleted]'', cm_updatedAt := Some now\<rparr>
               in (Inr True, emit_collab (CommentDeleted i (cm_invoiceId c')) (co\<lparr>co_comments := AList.update i c' (co_comments co)\<rparr>)))"

section \<open>Approvals\<close>

definition requestApproval ::
  "string \<Rightarrow> string \<Rightarrow> string list \<Rightarrow> int option \<Rightarrow> string option \<Rightarrow> string option \<Rightarrow> int option \<Rightarrow> int \<Rightarrow> collab
     \<Rightarrow> (collab_error + approval_request) \<times> collab" where
  "requestApproval invoice requestedBy approvers minOpt title descr deadline now co =
     (if approvers = [] then (Inl NoApprovers, co)
      else
        let minApprovals = (case minOpt of None \<Rightarrow> int (length approvers) | Some m \<Rightarrow> m)
        in if minApprovals \<le> 0 \<or> minApprovals > int (length approvers) then (Inl (BadMinApprovals (length approvers)), co)
        else
          let seq = co_requestSeq co + 1;
              i = ''req-'' @ show_nat seq;
              r = \<lparr>ar_id = i, ar_invoiceId = invoice, ar_requestedBy = requestedBy, ar_title = title, ar_description = descr,
                   ar_requiredApprovers = approvers, ar_minApprovals = minApprovals, ar_deadline = deadline,
                   ar_status = ReqPending, ar_decisions = [], ar_createdAt = now, ar_updatedAt = now\<rparr>;
              co1 = emit_collab (ApprovalRequested r)
                (co\<lparr>co_requestSeq := seq, co_requests := AList.update i r (co_requests co),
                   co_requestsByInvoice := AList.update invoice (list_for invoice (co_requestsByInvoice co) @ [i]) (co_requestsByInvoice co)\<rparr>);
              message = ''Approval requested for invoice '' @ quoted_id invoice
                @ (case title of Some t \<Rightarrow> if t \<noteq> '''' then '': '' @ t else '''' | None \<Rightarrow> '''')
          in (Inr r, foldl (\<lambda>co a. sendNotification a RequestedNote invoice requestedBy message now co) co1 approvers))"

definition approvals :: "approval_decision list \<Rightarrow> nat" where
  "approvals ds = length (filter (\<lambda>d. ad_decision d = Approve) ds)"

definition rejections :: "approval_decision list \<Rightarrow> nat" where
  "rejections ds = length (filter (\<lambda>d. ad_decision d = Reject) ds)"

text \<open>The decision of an approver replaces an earlier one in its place.\<close>

fun put_decision :: "approval_decision \<Rightarrow> approval_decision list \<Rightarrow> approval_decision list" where
  "put_decision d [] = [d]"
| "put_decision d (e # es) = (if ad_approver e = ad_approver d then d # es else e # put_decision d es)"

definition decided_status :: "approval_request \<Rightarrow> approval_decision list \<Rightarrow> request_status" where
  "decided_status r ds =
     (if int (approvals ds) \<ge> ar_minApprovals r then ReqApproved
      else if int (length (ar_requiredApprovers r)) - int (rejections ds) < ar_minApprovals r then ReqRejected
      else ar_status r)"

definition choice_word :: "approval_choice \<Rightarrow> string" where
  "choice_word ch = (case ch of Approve \<Rightarrow> ''approved'' | Reject \<Rightarrow> ''rejected'')"

definition status_word :: "request_status \<Rightarrow> string" where
  "status_word s = (case s of ReqPending \<Rightarrow> ''pending'' | ReqApproved \<Rightarrow> ''approved'' | ReqRejected \<Rightarrow> ''rejected'' | ReqExpired \<Rightarrow> ''expired'')"

definition announce_decision :: "approval_request \<Rightarrow> approval_decision \<Rightarrow> int \<Rightarrow> collab \<Rightarrow> collab" where
  "announce_decision r d now co =
     (let notes = (case ad_notes d of Some t \<Rightarrow> if t \<noteq> '''' then '' ('' @ t @ '')'' else '''' | None \<Rightarrow> '''');
          co1 = sendNotification (ar_requestedBy r) DecisionNote (ar_invoiceId r) (ad_approver d)
                  (ad_approver d @ '' '' @ choice_word (ad_decision d) @ '' approval request '' @ quoted_id (ar_id r) @ notes) now
                  (emit_collab (ApprovalDecided r d) co)
      in if ar_status r \<noteq> ReqPending
         then foldl (\<lambda>co a. sendNotification a CompletedNote (ar_invoiceId r) (ad_approver d)
                (''Approval workflow '' @ quoted_id (ar_id r) @ '' has concluded with status: '' @ status_word (ar_status r)) now co)
                (emit_collab (ApprovalCompleted r) co1) (ar_requiredApprovers r)
         else co1)"

definition submitDecision ::
  "string \<Rightarrow> string \<Rightarrow> approval_choice \<Rightarrow> string option \<Rightarrow> int \<Rightarrow> collab \<Rightarrow> (collab_error + approval_request) \<times> collab" where
  "submitDecision i approver ch notes now co =
     (case map_of (co_requests co) i of
        None \<Rightarrow> (Inl (RequestNotFound i), co)
      | Some r \<Rightarrow>
          if approver \<notin> set (ar_requiredApprovers r) then (Inl (Unauthorized approver ''submit approval decision''), co)
          else if ar_status r \<noteq> ReqPending then (Inl (AlreadyDecided (ar_status r)), co)
          else
            let d = \<lparr>ad_approver = approver, ad_decision = ch, ad_notes = notes, ad_timestamp = now\<rparr>;
                ds = put_decision d (ar_decisions r);
                r' = r\<lparr>ar_decisions := ds, ar_status := decided_status r ds, ar_updatedAt := now\<rparr>
            in (Inr r', announce_decision r' d now (co\<lparr>co_requests := AList.update i r' (co_requests co)\<rparr>)))"

definition getApprovalRequests :: "string \<Rightarrow> collab \<Rightarrow> approval_request list" where
  "getApprovalRequests invoice co =
     List.map_filter (\<lambda>i. map_of (co_requests co) i) (list_for invoice (co_requestsByInvoice co))"

definition getApprovalStatus :: "string \<Rightarrow> collab \<Rightarrow> approval_summary" where
  "getApprovalStatus invoice co =
     (let rs = getApprovalRequests invoice co
      in if rs = [] then
           \<lparr>as_invoiceId = invoice, as_isApproved = False, as_isRejected = False, as_isPending = False, as_activeRequests = 0,
            as_approvedCount = 0, as_requiredCount = 0, as_pendingApprovers = [], as_approvedBy = [], as_rejectedBy = []\<rparr>
         else
           let latest = last rs;
               approvedBy = map ad_approver (filter (\<lambda>d. ad_decision d = Approve) (ar_decisions latest));
               rejectedBy = map ad_approver (filter (\<lambda>d. ad_decision d = Reject) (ar_decisions latest));
               decided = map ad_approver (ar_decisions latest)
           in \<lparr>as_invoiceId = invoice, as_isApproved = (ar_status latest = ReqApproved), as_isRejected = (ar_status latest = ReqRejected),
               as_isPending = (ar_status latest = ReqPending),
               as_activeRequests = length (filter (\<lambda>r. ar_status r = ReqPending) rs),
               as_approvedCount = length approvedBy, as_requiredCount = ar_minApprovals latest,
               as_pendingApprovers = filter (\<lambda>a. a \<notin> set decided) (ar_requiredApprovers latest),
               as_approvedBy = approvedBy, as_rejectedBy = rejectedBy\<rparr>)"

section \<open>Reading notifications\<close>

definition getNotifications :: "string \<Rightarrow> bool \<Rightarrow> collab \<Rightarrow> collab_notification list" where
  "getNotifications recipient unreadOnly co =
     filter (\<lambda>n. cn_recipient n = recipient \<and> (\<not> unreadOnly \<or> \<not> cn_read n)) (co_notifications co)"

definition markNotificationAsRead :: "string \<Rightarrow> collab \<Rightarrow> bool \<times> collab" where
  "markNotificationAsRead i co =
     (case find (\<lambda>k. cn_id (co_notifications co ! k) = i) [0..<length (co_notifications co)] of
        None \<Rightarrow> (False, co)
      | Some k \<Rightarrow> (True, co\<lparr>co_notifications := (co_notifications co)[k := (co_notifications co ! k)\<lparr>cn_read := True\<rparr>]\<rparr>))"

definition markAllNotificationsAsRead :: "string \<Rightarrow> collab \<Rightarrow> nat \<times> collab" where
  "markAllNotificationsAsRead recipient co =
     (length (filter (\<lambda>n. cn_recipient n = recipient \<and> \<not> cn_read n) (co_notifications co)),
      co\<lparr>co_notifications := map (\<lambda>n. if cn_recipient n = recipient then n\<lparr>cn_read := True\<rparr> else n) (co_notifications co)\<rparr>)"

section \<open>Runs\<close>

datatype collab_call =
    AddCall string string string "string option" int
  | EditCall string string string int
  | DeleteCall string string int
  | RequestCall string string "string list" "int option" "string option" "string option" "int option" int
  | DecideCall string string approval_choice "string option" int
  | ReadCall string
  | ReadAllCall string

fun collab_step :: "collab \<Rightarrow> collab_call \<Rightarrow> collab" where
  "collab_step co (AddCall invoice author content parentId now) = snd (addComment invoice author content parentId now co)"
| "collab_step co (EditCall i author content now) = snd (editComment i author content now co)"
| "collab_step co (DeleteCall i author now) = snd (deleteComment i author now co)"
| "collab_step co (RequestCall invoice by' as m t d dl now) = snd (requestApproval invoice by' as m t d dl now co)"
| "collab_step co (DecideCall i a ch notes now) = snd (submitDecision i a ch notes now co)"
| "collab_step co (ReadCall i) = snd (markNotificationAsRead i co)"
| "collab_step co (ReadAllCall r) = snd (markAllNotificationsAsRead r co)"

section \<open>What messages leave alone\<close>

lemma emit_collab_simps [simp]:
  "co_comments (emit_collab e co) = co_comments co" "co_commentsByInvoice (emit_collab e co) = co_commentsByInvoice co"
  "co_requests (emit_collab e co) = co_requests co" "co_commentSeq (emit_collab e co) = co_commentSeq co"
  "co_requestSeq (emit_collab e co) = co_requestSeq co"
  by (simp_all add: emit_collab_def)

lemma sendNotification_simps [simp]:
  "co_comments (sendNotification a b c d e f co) = co_comments co"
  "co_commentsByInvoice (sendNotification a b c d e f co) = co_commentsByInvoice co"
  "co_requests (sendNotification a b c d e f co) = co_requests co"
  "co_commentSeq (sendNotification a b c d e f co) = co_commentSeq co"
  "co_requestSeq (sendNotification a b c d e f co) = co_requestSeq co"
  by (simp_all add: sendNotification_def Let_def)

lemma foldl_keeps: "(\<And>co x. g (f co x) = g co) \<Longrightarrow> g (foldl f co xs) = g co"
  by (induction xs arbitrary: co) simp_all

lemma dispatch_simps [simp]:
  "co_comments (dispatchCommentNotifications c now co) = co_comments co"
  "co_commentsByInvoice (dispatchCommentNotifications c now co) = co_commentsByInvoice co"
  "co_requests (dispatchCommentNotifications c now co) = co_requests co"
  "co_commentSeq (dispatchCommentNotifications c now co) = co_commentSeq co"
  "co_requestSeq (dispatchCommentNotifications c now co) = co_requestSeq co"
  by (simp_all add: dispatchCommentNotifications_def Let_def foldl_keeps split: option.split)

lemma announce_simps [simp]:
  "co_comments (announce_decision r d now co) = co_comments co"
  "co_commentsByInvoice (announce_decision r d now co) = co_commentsByInvoice co"
  "co_requests (announce_decision r d now co) = co_requests co"
  "co_commentSeq (announce_decision r d now co) = co_commentSeq co"
  "co_requestSeq (announce_decision r d now co) = co_requestSeq co"
  by (simp_all add: announce_decision_def Let_def foldl_keeps)

section \<open>The quorum\<close>

definition verdict :: "approval_request \<Rightarrow> request_status" where
  "verdict r =
     (if int (approvals (ar_decisions r)) \<ge> ar_minApprovals r then ReqApproved
      else if int (length (ar_requiredApprovers r)) - int (rejections (ar_decisions r)) < ar_minApprovals r then ReqRejected
      else ReqPending)"

definition request_ok :: "approval_request \<Rightarrow> bool" where
  "request_ok r \<longleftrightarrow>
     distinct (map ad_approver (ar_decisions r)) \<and> ad_approver ` set (ar_decisions r) \<subseteq> set (ar_requiredApprovers r)
     \<and> 1 \<le> ar_minApprovals r \<and> ar_minApprovals r \<le> int (length (ar_requiredApprovers r)) \<and> ar_status r = verdict r"

definition requests_inv :: "collab \<Rightarrow> bool" where
  "requests_inv co \<longleftrightarrow>
     (\<forall>i r. map_of (co_requests co) i = Some r \<longrightarrow>
        request_ok r \<and> (\<exists>n. i = ''req-'' @ show_nat n \<and> n \<le> co_requestSeq co))"

lemma approvers_put_decision:
  "map ad_approver (put_decision d ds) =
     (if ad_approver d \<in> ad_approver ` set ds then map ad_approver ds else map ad_approver ds @ [ad_approver d])"
  by (induction ds) auto

lemma put_decision_ok:
  "distinct (map ad_approver ds) \<Longrightarrow> distinct (map ad_approver (put_decision d ds))"
  "ad_approver ` set (put_decision d ds) = insert (ad_approver d) (ad_approver ` set ds)"
proof -
  show "distinct (map ad_approver ds) \<Longrightarrow> distinct (map ad_approver (put_decision d ds))"
    by (auto simp: approvers_put_decision)
  have "set (map ad_approver (put_decision d ds)) = insert (ad_approver d) (set (map ad_approver ds))"
    by (auto simp: approvers_put_decision)
  then show "ad_approver ` set (put_decision d ds) = insert (ad_approver d) (ad_approver ` set ds)" by simp
qed

lemma decided_ok:
  assumes "request_ok r" "ar_status r = ReqPending" "ad_approver d \<in> set (ar_requiredApprovers r)"
  shows "request_ok (r\<lparr>ar_decisions := put_decision d (ar_decisions r),
    ar_status := decided_status r (put_decision d (ar_decisions r)), ar_updatedAt := now\<rparr>)"
  using assms by (auto simp: request_ok_def put_decision_ok verdict_def decided_status_def)

lemma requests_inv_cong:
  "co_requests a = co_requests b \<Longrightarrow> co_requestSeq a = co_requestSeq b \<Longrightarrow> requests_inv a = requests_inv b"
  by (simp add: requests_inv_def)

lemma requests_invD:
  assumes "requests_inv co" "map_of (co_requests co) i = Some r"
  shows "request_ok r" "\<exists>n. i = ''req-'' @ show_nat n \<and> n \<le> co_requestSeq co"
  using assms unfolding requests_inv_def by blast+

lemma request_added:
  assumes "requests_inv co" "request_ok r" "co_requestSeq co' = Suc (co_requestSeq co)"
    "co_requests co' = AList.update (''req-'' @ show_nat (Suc (co_requestSeq co))) r (co_requests co)"
  shows "requests_inv co'"
  unfolding requests_inv_def
proof (intro allI impI)
  let ?i = "''req-'' @ show_nat (Suc (co_requestSeq co))"
  fix i r' assume "map_of (co_requests co') i = Some r'"
  then have r': "(if i = ?i then Some r else map_of (co_requests co) i) = Some r'" using assms(4) by simp
  show "request_ok r' \<and> (\<exists>n. i = ''req-'' @ show_nat n \<and> n \<le> co_requestSeq co')"
  proof (cases "i = ?i")
    case True
    then show ?thesis using r' assms(2,3) by auto
  next
    case False
    then have "map_of (co_requests co) i = Some r'" using r' by simp
    from requests_invD [OF assms(1) this] show ?thesis using assms(3) by (auto intro: le_SucI)
  qed
qed

lemma request_changed:
  assumes "requests_inv co" "map_of (co_requests co) i = Some r0" "request_ok r" "co_requestSeq co' = co_requestSeq co"
    "co_requests co' = AList.update i r (co_requests co)"
  shows "requests_inv co'"
  unfolding requests_inv_def
proof (intro allI impI)
  fix j r' assume "map_of (co_requests co') j = Some r'"
  then have r': "(if j = i then Some r else map_of (co_requests co) j) = Some r'" using assms(5) by simp
  show "request_ok r' \<and> (\<exists>n. j = ''req-'' @ show_nat n \<and> n \<le> co_requestSeq co')"
  proof (cases "j = i")
    case True
    then show ?thesis using r' assms(3,4) requests_invD(2) [OF assms(1,2)] by simp
  next
    case False
    then have "map_of (co_requests co) j = Some r'" using r' by simp
    from requests_invD [OF assms(1) this] show ?thesis using assms(4) by simp
  qed
qed

lemma request_call_inv:
  assumes "requests_inv co"
  shows "requests_inv (snd (requestApproval iv by' as m t d dl now co))"
proof (cases "requestApproval iv by' as m t d dl now co")
  case (Pair res co')
  show ?thesis
  proof (cases res)
    case (Inl e)
    then have "co' = co" using Pair by (auto simp: requestApproval_def Let_def split: if_splits)
    then show ?thesis using assms Pair by simp
  next
    case (Inr r)
    have "request_ok r"
      using Pair Inr by (auto simp: requestApproval_def Let_def request_ok_def verdict_def approvals_def rejections_def split: if_splits)
    moreover have "co_requestSeq co' = Suc (co_requestSeq co)"
      "co_requests co' = AList.update (''req-'' @ show_nat (Suc (co_requestSeq co))) r (co_requests co)"
      using Pair Inr by (auto simp: requestApproval_def Let_def foldl_keeps split: if_splits)
    ultimately show ?thesis using request_added [OF assms] Pair by simp
  qed
qed

lemma decide_call:
  assumes "submitDecision i a ch nt now co = (Inr r', co')"
  obtains r where "map_of (co_requests co) i = Some r" "a \<in> set (ar_requiredApprovers r)" "ar_status r = ReqPending"
    "r' = r\<lparr>ar_decisions := put_decision \<lparr>ad_approver = a, ad_decision = ch, ad_notes = nt, ad_timestamp = now\<rparr> (ar_decisions r),
        ar_status := decided_status r (put_decision \<lparr>ad_approver = a, ad_decision = ch, ad_notes = nt, ad_timestamp = now\<rparr> (ar_decisions r)),
        ar_updatedAt := now\<rparr>"
    "co_requests co' = AList.update i r' (co_requests co)" "co_requestSeq co' = co_requestSeq co"
  using assms by (auto simp: submitDecision_def Let_def split: if_splits option.splits)

lemma decide_refused: "submitDecision i a ch nt now co = (Inl e, co') \<Longrightarrow> co' = co"
  by (auto simp: submitDecision_def Let_def split: if_splits option.splits)

lemma decide_call_inv:
  assumes "requests_inv co"
  shows "requests_inv (snd (submitDecision i a ch nt now co))"
proof (cases "submitDecision i a ch nt now co")
  case (Pair res co')
  show ?thesis
  proof (cases res)
    case (Inl e)
    then show ?thesis using decide_refused [of i a ch nt now co e co'] assms Pair by simp
  next
    case (Inr r')
    from decide_call [OF Pair [unfolded Inr]] obtain r where r: "map_of (co_requests co) i = Some r"
      "a \<in> set (ar_requiredApprovers r)" "ar_status r = ReqPending"
      and r': "r' = r\<lparr>ar_decisions := put_decision \<lparr>ad_approver = a, ad_decision = ch, ad_notes = nt, ad_timestamp = now\<rparr> (ar_decisions r),
        ar_status := decided_status r (put_decision \<lparr>ad_approver = a, ad_decision = ch, ad_notes = nt, ad_timestamp = now\<rparr> (ar_decisions r)),
        ar_updatedAt := now\<rparr>"
      and co': "co_requests co' = AList.update i r' (co_requests co)" "co_requestSeq co' = co_requestSeq co" by blast
    have "request_ok r'" unfolding r' using r requests_invD(1) [OF assms r(1)] by (intro decided_ok) simp_all
    from request_changed [OF assms r(1) this co'(2,1)] show ?thesis by (simp add: Pair)
  qed
qed

fun about_requests :: "collab_call \<Rightarrow> bool" where
  "about_requests (RequestCall _ _ _ _ _ _ _ _) = True"
| "about_requests (DecideCall _ _ _ _ _) = True"
| "about_requests _ = False"

lemma quiet_calls:
  "\<not> about_requests c \<Longrightarrow> co_requests (collab_step co c) = co_requests co \<and> co_requestSeq (collab_step co c) = co_requestSeq co"
  by (cases c) (simp_all add: addComment_def editComment_def deleteComment_def markNotificationAsRead_def markAllNotificationsAsRead_def
      Let_def split: option.split)

lemma requests_step: "requests_inv co \<Longrightarrow> requests_inv (collab_step co c)"
  using requests_inv_cong [of "collab_step co c" co] quiet_calls [of c co]
  by (cases c) (simp_all add: request_call_inv decide_call_inv del: collab_step.simps(1-3,6,7))

text \<open>A decided request stays as it is.\<close>

definition decided_as :: "string \<Rightarrow> approval_request \<Rightarrow> collab \<Rightarrow> bool" where
  "decided_as i r co \<longleftrightarrow> map_of (co_requests co) i = Some r \<and> ar_status r \<noteq> ReqPending"

lemma decided_step:
  assumes "requests_inv co" "decided_as i r co"
  shows "decided_as i r (collab_step co c)"
proof (cases "about_requests c")
  case False
  with quiet_calls [of c co] assms(2) show ?thesis by (simp add: decided_as_def)
next
  case True
  then consider iv by' as m t d dl now where "c = RequestCall iv by' as m t d dl now"
    | j a ch nt now where "c = DecideCall j a ch nt now" by (cases c) simp_all
  then show ?thesis
  proof cases
    case 1
    obtain n where "i = ''req-'' @ show_nat n" "n \<le> co_requestSeq co"
      using requests_invD(2) [OF assms(1)] assms(2) unfolding decided_as_def by blast
    then have "i \<noteq> ''req-'' @ show_nat (Suc (co_requestSeq co))" by (simp add: show_nat_inj)
    then show ?thesis using assms(2) by (simp add: 1 decided_as_def requestApproval_def Let_def foldl_keeps)
  next
    case 2
    show ?thesis
    proof (cases "submitDecision j a ch nt now co")
      case (Pair res co')
      show ?thesis
      proof (cases res)
        case (Inl e)
        then show ?thesis using decide_refused [of j a ch nt now co e co'] assms(2) 2 Pair by simp
      next
        case (Inr r')
        from decide_call [OF Pair [unfolded Inr]] obtain r0 where
          "map_of (co_requests co) j = Some r0" "ar_status r0 = ReqPending" "co_requests co' = AList.update j r' (co_requests co)" by blast
        with assms(2) show ?thesis by (auto simp: 2 Pair decided_as_def)
      qed
    qed
  qed
qed

interpretation collaboration: latched_machine collab_step requests_inv "decided_as i r"
  by unfold_locales (simp_all add: requests_step decided_step)

lemma collab_new_inv: "requests_inv collab_new"
  by (simp add: requests_inv_def collab_new_def)

text \<open>
  C12: The status of every request, after any sequence of calls, is the verdict of its decisions: approved
  when enough of the distinct approvers approved, rejected when the remaining ones cannot reach the
  quorum any more, pending otherwise. Each decision is that of a different required approver, and
  once decided a request never changes.
\<close>
theorem approval_quorum:
  assumes "map_of (co_requests (foldl collab_step collab_new cs)) i = Some r"
  shows "ar_status r = verdict r \<and> distinct (map ad_approver (ar_decisions r))
    \<and> ad_approver ` set (ar_decisions r) \<subseteq> set (ar_requiredApprovers r)
    \<and> (ar_status r \<noteq> ReqPending \<longrightarrow> map_of (co_requests (foldl collab_step collab_new (cs @ more_calls))) i = Some r)"
proof -
  have inv: "requests_inv (foldl collab_step collab_new cs)" by (rule collaboration.run_inv) (rule collab_new_inv)
  have "map_of (co_requests (foldl collab_step collab_new (cs @ more_calls))) i = Some r" if "ar_status r \<noteq> ReqPending"
    using collaboration.run_latched [OF inv, of i r more_calls] assms that by (simp add: decided_as_def)
  with requests_invD(1) [OF inv assms] show ?thesis by (simp add: request_ok_def)
qed

lemma approvals_rejections: "approvals ds + rejections ds = length ds"
proof (induction ds)
  case (Cons d ds)
  then show ?case by (cases "ad_decision d") (simp_all add: approvals_def rejections_def)
qed (simp add: approvals_def rejections_def)

text \<open>A pending request is never stuck: when the required approvers are distinct, one of them has not decided yet.\<close>

theorem pending_request_has_undecided:
  assumes "map_of (co_requests (foldl collab_step collab_new cs)) i = Some r"
    and "ar_status r = ReqPending" "distinct (ar_requiredApprovers r)"
  shows "\<exists>a \<in> set (ar_requiredApprovers r). a \<notin> ad_approver ` set (ar_decisions r)"
proof (rule ccontr)
  have ok: "request_ok r"
    by (rule requests_invD(1) [OF collaboration.run_inv [OF collab_new_inv] assms(1)])
  assume "\<not> ?thesis"
  then have "set (map ad_approver (ar_decisions r)) = set (ar_requiredApprovers r)" using ok by (auto simp: request_ok_def)
  then have "length (ar_decisions r) = length (ar_requiredApprovers r)"
    using ok assms(3) unfolding request_ok_def by (metis distinct_card length_map)
  with approvals_rejections [of "ar_decisions r"] ok assms(2) show False
    by (auto simp: request_ok_def verdict_def split: if_splits)
qed

section \<open>Threads\<close>

definition visible_parent :: "string list \<Rightarrow> comment \<Rightarrow> string option" where
  "visible_parent ids c =
     (case cm_parentId c of Some p \<Rightarrow> if p \<noteq> '''' \<and> p \<in> set ids then Some p else None | None \<Rightarrow> None)"

lemma link_comment_cases:
  "link_comment ids (roots, replies) c =
     (case visible_parent ids c of
        None \<Rightarrow> (roots @ [cm_id c], replies)
      | Some p \<Rightarrow> (roots, AList.update p (list_for p replies @ [cm_id c]) replies))"
  by (simp add: link_comment_def visible_parent_def split: option.split)

lemma list_for_update: "list_for k (AList.update p xs m) = (if k = p then xs else list_for k m)"
  by (simp add: list_for_def)

lemma link_all:
  "fst (foldl (link_comment ids) (roots, replies) cs) = roots @ map cm_id (filter (\<lambda>c. visible_parent ids c = None) cs)
   \<and> list_for p (snd (foldl (link_comment ids) (roots, replies) cs)) =
       list_for p replies @ map cm_id (filter (\<lambda>c. visible_parent ids c = Some p) cs)"
proof (induction cs arbitrary: roots replies)
  case (Cons c cs)
  then show ?case
    by (cases "visible_parent ids c") (auto simp: link_comment_cases list_for_update)
qed simp

definition comments_inv :: "collab \<Rightarrow> bool" where
  "comments_inv co \<longleftrightarrow>
     (\<forall>i c. map_of (co_comments co) i = Some c \<longrightarrow> cm_id c = i \<and>
        (\<exists>n. i = ''comment-'' @ show_nat n \<and> n \<le> co_commentSeq co \<and>
           (\<forall>p. cm_parentId c = Some p \<and> p \<noteq> '''' \<longrightarrow> (\<exists>m<n. p = ''comment-'' @ show_nat m))))
     \<and> (\<forall>k. distinct (list_for k (co_commentsByInvoice co))
        \<and> (\<forall>i \<in> set (list_for k (co_commentsByInvoice co)). \<exists>n. i = ''comment-'' @ show_nat n \<and> n \<le> co_commentSeq co))"

lemma comments_inv_cong:
  "co_comments a = co_comments b \<Longrightarrow> co_commentsByInvoice a = co_commentsByInvoice b \<Longrightarrow> co_commentSeq a = co_commentSeq b
     \<Longrightarrow> comments_inv a = comments_inv b"
  by (simp add: comments_inv_def)

lemma comments_invD:
  assumes "comments_inv co"
  shows "map_of (co_comments co) i = Some c \<Longrightarrow> cm_id c = i"
    and "map_of (co_comments co) i = Some c \<Longrightarrow> \<exists>n. i = ''comment-'' @ show_nat n \<and> n \<le> co_commentSeq co \<and>
           (\<forall>p. cm_parentId c = Some p \<and> p \<noteq> '''' \<longrightarrow> (\<exists>m<n. p = ''comment-'' @ show_nat m))"
    and "distinct (list_for k (co_commentsByInvoice co))"
    and "i \<in> set (list_for k (co_commentsByInvoice co)) \<Longrightarrow> \<exists>n. i = ''comment-'' @ show_nat n \<and> n \<le> co_commentSeq co"
  using assms unfolding comments_inv_def by blast+

lemma comment_added:
  assumes inv: "comments_inv co"
    and c: "cm_id c = ''comment-'' @ show_nat (Suc (co_commentSeq co))"
      "\<And>p. cm_parentId c = Some p \<Longrightarrow> p \<noteq> '''' \<Longrightarrow> map_of (co_comments co) p \<noteq> None"
    and co': "co_commentSeq co' = Suc (co_commentSeq co)" "co_comments co' = AList.update (cm_id c) c (co_comments co)"
      "co_commentsByInvoice co' = AList.update k (list_for k (co_commentsByInvoice co) @ [cm_id c]) (co_commentsByInvoice co)"
  shows "comments_inv co'"
proof -
  have parent: "\<exists>m < Suc (co_commentSeq co). p = ''comment-'' @ show_nat m" if p: "cm_parentId c = Some p" "p \<noteq> ''''" for p
  proof -
    from c(2) [OF p] obtain d where "map_of (co_comments co) p = Some d" by blast
    from comments_invD(2) [OF inv this] show ?thesis by (auto simp: less_Suc_eq_le)
  qed
  have new: "cm_id c \<notin> set (list_for j (co_commentsByInvoice co))" for j
    using comments_invD(4) [OF inv, of "cm_id c" j] c(1) by (auto simp: show_nat_inj)
  have "cm_id d = i \<and> (\<exists>n. i = ''comment-'' @ show_nat n \<and> n \<le> co_commentSeq co' \<and>
      (\<forall>p. cm_parentId d = Some p \<and> p \<noteq> '''' \<longrightarrow> (\<exists>m<n. p = ''comment-'' @ show_nat m)))"
    if d: "map_of (co_comments co') i = Some d" for i d
  proof (cases "i = cm_id c")
    case True
    then have "d = c" using d co'(2) by simp
    with True parent show ?thesis using c(1) co'(1) by auto
  next
    case False
    then have "map_of (co_comments co) i = Some d" using d co'(2) by simp
    from comments_invD(1,2) [OF inv this] show ?thesis using co'(1) by (auto intro: le_SucI)
  qed
  moreover have "distinct (list_for j (co_commentsByInvoice co'))" for j
    using comments_invD(3) [OF inv] new co'(3) by (simp add: list_for_update)
  moreover have "\<exists>n. i = ''comment-'' @ show_nat n \<and> n \<le> co_commentSeq co'"
    if i: "i \<in> set (list_for j (co_commentsByInvoice co'))" for i j
  proof (cases "i = cm_id c")
    case True
    then show ?thesis using c(1) co'(1) by auto
  next
    case False
    then have "i \<in> set (list_for j (co_commentsByInvoice co))" using i co'(3) by (auto simp: list_for_update split: if_splits)
    from comments_invD(4) [OF inv this] show ?thesis using co'(1) by (auto intro: le_SucI)
  qed
  ultimately show ?thesis unfolding comments_inv_def by blast
qed

lemma comment_changed:
  assumes inv: "comments_inv co" and c: "map_of (co_comments co) i = Some c" "cm_id c' = cm_id c" "cm_parentId c' = cm_parentId c"
    and co': "co_commentSeq co' = co_commentSeq co" "co_comments co' = AList.update i c' (co_comments co)"
      "co_commentsByInvoice co' = co_commentsByInvoice co"
  shows "comments_inv co'"
proof -
  have "cm_id d = j \<and> (\<exists>n. j = ''comment-'' @ show_nat n \<and> n \<le> co_commentSeq co' \<and>
      (\<forall>p. cm_parentId d = Some p \<and> p \<noteq> '''' \<longrightarrow> (\<exists>m<n. p = ''comment-'' @ show_nat m)))"
    if d: "map_of (co_comments co') j = Some d" for j d
  proof (cases "j = i")
    case True
    then show ?thesis using d co' comments_invD(1,2) [OF inv c(1)] c(2,3) by auto
  next
    case False
    then have "map_of (co_comments co) j = Some d" using d co'(2) by simp
    from comments_invD(1,2) [OF inv this] show ?thesis using co'(1) by simp
  qed
  then show ?thesis using comments_invD(3,4) [OF inv] co'(1,3) unfolding comments_inv_def by simp
qed

lemma add_call_inv:
  assumes "comments_inv co"
  shows "comments_inv (snd (addComment iv a t p now co))"
proof (cases "addComment iv a t p now co")
  case (Pair res co')
  show ?thesis
  proof (cases res)
    case (Inl e)
    then have "co' = co" using Pair by (auto simp: addComment_def Let_def split: if_splits)
    then show ?thesis using assms Pair by simp
  next
    case (Inr c)
    have "cm_id c = ''comment-'' @ show_nat (Suc (co_commentSeq co))" "cm_parentId c = p"
      and co': "co_commentSeq co' = Suc (co_commentSeq co)" "co_comments co' = AList.update (cm_id c) c (co_comments co)"
        "co_commentsByInvoice co' = AList.update iv (list_for iv (co_commentsByInvoice co) @ [cm_id c]) (co_commentsByInvoice co)"
      and ok: "\<And>q. p = Some q \<Longrightarrow> q \<noteq> '''' \<Longrightarrow> map_of (co_comments co) q \<noteq> None"
      using Pair Inr by (auto simp: addComment_def Let_def split: if_splits option.splits)
    from comment_added [OF assms this(1) _ co'] ok \<open>cm_parentId c = p\<close> Pair show ?thesis by simp
  qed
qed

lemma comment_changed_emit:
  "comments_inv co \<Longrightarrow> map_of (co_comments co) i = Some c \<Longrightarrow> cm_id c' = cm_id c \<Longrightarrow> cm_parentId c' = cm_parentId c
     \<Longrightarrow> comments_inv (emit_collab e (co\<lparr>co_comments := AList.update i c' (co_comments co)\<rparr>))"
  by (rule comment_changed [of co i c c']) simp_all

lemma edit_call_inv: "comments_inv co \<Longrightarrow> comments_inv (snd (editComment i a t now co))"
  by (cases "map_of (co_comments co) i") (simp_all add: editComment_def Let_def comment_changed_emit)

lemma delete_call_inv: "comments_inv co \<Longrightarrow> comments_inv (snd (deleteComment i a now co))"
  by (cases "map_of (co_comments co) i") (simp_all add: deleteComment_def Let_def comment_changed_emit)

lemma other_calls:
  "(\<forall>iv a t p now. c \<noteq> AddCall iv a t p now) \<Longrightarrow> (\<forall>i a t now. c \<noteq> EditCall i a t now) \<Longrightarrow> (\<forall>i a now. c \<noteq> DeleteCall i a now)
    \<Longrightarrow> co_comments (collab_step co c) = co_comments co \<and> co_commentsByInvoice (collab_step co c) = co_commentsByInvoice co
      \<and> co_commentSeq (collab_step co c) = co_commentSeq co"
  by (cases c) (simp_all add: requestApproval_def submitDecision_def markNotificationAsRead_def markAllNotificationsAsRead_def
      Let_def foldl_keeps split: option.split)

interpretation discussions: machine collab_step comments_inv
proof
  fix co c assume inv: "comments_inv co"
  show "comments_inv (collab_step co c)"
  proof (cases "(\<forall>iv a t p now. c \<noteq> AddCall iv a t p now) \<and> (\<forall>i a t now. c \<noteq> EditCall i a t now) \<and> (\<forall>i a now. c \<noteq> DeleteCall i a now)")
    case True
    with other_calls [of c co] comments_inv_cong [of "collab_step co c" co] inv show ?thesis by blast
  next
    case False
    then show ?thesis using inv by (auto simp: add_call_inv edit_call_inv delete_call_inv)
  qed
qed

lemma ids_getComments:
  assumes "comments_inv co"
  shows "map cm_id (getComments k co) =
     filter (\<lambda>i. \<exists>c. map_of (co_comments co) i = Some c \<and> \<not> cm_isDeleted c) (list_for k (co_commentsByInvoice co))"
proof -
  have "map cm_id (filter (\<lambda>c. \<not> cm_isDeleted c) (List.map_filter (\<lambda>i. map_of (co_comments co) i) is)) =
      filter (\<lambda>i. \<exists>c. map_of (co_comments co) i = Some c \<and> \<not> cm_isDeleted c) is" for "is"
    using comments_invD(1) [OF assms] by (induction "is") (auto simp: map_filter_simps split: option.split)
  then show ?thesis by (simp add: getComments_def)
qed

lemma getComments_stored: "comments_inv co \<Longrightarrow> c \<in> set (getComments k co) \<Longrightarrow> map_of (co_comments co) (cm_id c) = Some c"
  by (auto simp: getComments_def List.map_filter_def dest: comments_invD(1))

abbreviation shown :: "string \<Rightarrow> collab \<Rightarrow> string list" where
  "shown invoice co \<equiv> map cm_id (getComments invoice co)"

abbreviation reply_of :: "thread_links \<Rightarrow> (string \<times> string) set" where
  "reply_of tree \<equiv> {(p, k). k \<in> set (list_for p (snd tree))}"

lemma thread_links:
  "fst (getThreadedComments invoice co) =
     map cm_id (filter (\<lambda>c. visible_parent (shown invoice co) c = None) (getComments invoice co))"
  "list_for p (snd (getThreadedComments invoice co)) =
     map cm_id (filter (\<lambda>c. visible_parent (shown invoice co) c = Some p) (getComments invoice co))"
proof -
  have empty: "list_for p (map (\<lambda>c. (cm_id c, [])) ds) = []" for p and ds :: "comment list"
    by (induction ds) (auto simp: list_for_def)
  show "fst (getThreadedComments invoice co) =
     map cm_id (filter (\<lambda>c. visible_parent (shown invoice co) c = None) (getComments invoice co))"
    and "list_for p (snd (getThreadedComments invoice co)) =
     map cm_id (filter (\<lambda>c. visible_parent (shown invoice co) c = Some p) (getComments invoice co))"
    by (simp_all add: getThreadedComments_def Let_def link_all empty)
qed

lemma thread_reaches:
  assumes inv: "comments_inv co" and c: "c \<in> set (getComments invoice co)" and n: "cm_id c = ''comment-'' @ show_nat n"
  defines "tree \<equiv> getThreadedComments invoice co"
  shows "\<exists>r \<in> set (fst tree). (r, cm_id c) \<in> (reply_of tree)\<^sup>*"
  using c n
proof (induction n arbitrary: c rule: less_induct)
  case (less n)
  show ?case
  proof (cases "visible_parent (shown invoice co) c")
    case None
    then show ?thesis using less.prems(1) by (intro bexI [of _ "cm_id c"]) (auto simp: tree_def thread_links)
  next
    case (Some p)
    then have p: "cm_parentId c = Some p" "p \<noteq> ''''" and "p \<in> set (shown invoice co)"
      by (auto simp: visible_parent_def split: option.splits if_splits)
    then obtain d where d: "d \<in> set (getComments invoice co)" "cm_id d = p" by auto
    obtain m where m: "m < n" "p = ''comment-'' @ show_nat m"
      using comments_invD(2) [OF inv getComments_stored [OF inv less.prems(1)]] p less.prems(2) by (auto simp: show_nat_inj)
    from less.IH [OF m(1) d(1)] d(2) m(2) obtain r where r: "r \<in> set (fst tree)" "(r, p) \<in> (reply_of tree)\<^sup>*" by auto
    have "(p, cm_id c) \<in> reply_of tree" using Some less.prems(1) by (simp add: tree_def thread_links)
    with r show ?thesis by (meson rtrancl.rtrancl_into_rtrancl)
  qed
qed

text \<open>
  Threading loses and repeats nothing: the comments shown are distinct; the roots are those without a
  visible parent, the replies of a comment are those that name it, each in the order of writing; and
  every comment is reached from a root by going from comments to their replies.
\<close>
theorem threads_complete:
  fixes calls invoice
  defines "co \<equiv> foldl collab_step collab_new calls"
  defines "cs \<equiv> getComments invoice co" and "tree \<equiv> getThreadedComments invoice co"
  shows "distinct (map cm_id cs)
    \<and> fst tree = map cm_id (filter (\<lambda>c. visible_parent (map cm_id cs) c = None) cs)
    \<and> (\<forall>p. list_for p (snd tree) = map cm_id (filter (\<lambda>c. visible_parent (map cm_id cs) c = Some p) cs))
    \<and> (\<forall>c \<in> set cs. \<exists>r \<in> set (fst tree). (r, cm_id c) \<in> {(p, k). k \<in> set (list_for p (snd tree))}\<^sup>*)"
proof -
  have inv: "comments_inv co"
    unfolding co_def by (rule discussions.run_inv) (simp add: comments_inv_def collab_new_def list_for_def)
  have "distinct (map cm_id cs)"
    using comments_invD(3) [OF inv] by (simp add: cs_def ids_getComments [OF inv])
  moreover have "\<exists>r \<in> set (fst tree). (r, cm_id c) \<in> (reply_of tree)\<^sup>*" if "c \<in> set cs" for c
    using comments_invD(2) [OF inv getComments_stored [OF inv]] thread_reaches [OF inv] that unfolding cs_def tree_def by blast
  ultimately show ?thesis by (simp add: tree_def cs_def thread_links)
qed

section \<open>Examples\<close>

definition sample_approval :: "collab_call list" where
  "sample_approval = [RequestCall ''7'' ''eve'' [''ann'', ''bob''] None None None (Some 5) 0, DecideCall ''req-1'' ''ann'' Approve None 1]"

definition first_request :: "collab_call list \<Rightarrow> approval_request option" where
  "first_request cs = map_of (co_requests (foldl collab_step collab_new cs)) ''req-1''"

definition sample_thread :: collab where
  "sample_thread = foldl collab_step collab_new
     [AddCall ''7'' ''ann'' ''first'' None 1, AddCall ''7'' ''bob'' ''second'' (Some ''comment-1'') 2,
      AddCall ''7'' ''eve'' ''third'' (Some ''comment-2'') 3, DeleteCall ''comment-1'' ''ann'' 4]"

lemma threads_complete_witness:
  "\<exists>c \<in> set (getComments ''7'' sample_thread). cm_id c = ''comment-3'' \<and>
     (''comment-2'', ''comment-3'') \<in> {(p, k). k \<in> set (list_for p (snd (getThreadedComments ''7'' sample_thread)))}\<^sup>*"
proof -
  have root: "fst (getThreadedComments ''7'' sample_thread) = [''comment-2'']" by code_simp
  have "map cm_id (getComments ''7'' sample_thread) = [''comment-2'', ''comment-3'']" by code_simp
  then have "''comment-3'' \<in> cm_id ` set (getComments ''7'' sample_thread)"
    unfolding set_map [symmetric] by simp
  then obtain c where c: "c \<in> set (getComments ''7'' sample_thread)" "cm_id c = ''comment-3''" by auto
  have "\<exists>r \<in> set (fst (getThreadedComments ''7'' sample_thread)). (r, cm_id c) \<in>
      {(p, k). k \<in> set (list_for p (snd (getThreadedComments ''7'' sample_thread)))}\<^sup>*"
    using threads_complete [where invoice = "''7''" and calls = "[AddCall ''7'' ''ann'' ''first'' None 1,
        AddCall ''7'' ''bob'' ''second'' (Some ''comment-1'') 2, AddCall ''7'' ''eve'' ''third'' (Some ''comment-2'') 3,
        DeleteCall ''comment-1'' ''ann'' 4]"] c(1)
    unfolding sample_thread_def [symmetric] by blast
  then show ?thesis using c unfolding root by auto
qed

lemma approval_quorum_witness:
  "\<exists>r. first_request (sample_approval @ [DecideCall ''req-1'' ''bob'' Reject None 9]) = Some r \<and> ar_status r = ReqRejected \<and> verdict r = ReqRejected"
proof -
  have "map_option ar_status (first_request (sample_approval @ [DecideCall ''req-1'' ''bob'' Reject None 9])) = Some ReqRejected"
    by code_simp
  then obtain r where r: "first_request (sample_approval @ [DecideCall ''req-1'' ''bob'' Reject None 9]) = Some r" "ar_status r = ReqRejected"
    by auto
  from approval_quorum [OF r(1) [unfolded first_request_def]] r show ?thesis by auto
qed

lemma pending_request_has_undecided_witness:
  "\<exists>r. first_request sample_approval = Some r \<and> (\<exists>a \<in> set (ar_requiredApprovers r). a \<notin> ad_approver ` set (ar_decisions r))"
proof -
  have "map_option (\<lambda>r. (ar_status r, ar_requiredApprovers r)) (first_request sample_approval) = Some (ReqPending, [''ann'', ''bob''])"
    by code_simp
  then obtain r where r: "first_request sample_approval = Some r" "ar_status r = ReqPending" "ar_requiredApprovers r = [''ann'', ''bob'']"
    by auto
  with pending_request_has_undecided [OF r(1) [unfolded first_request_def] r(2)] show ?thesis by simp
qed

text \<open>With an approver listed twice the default quorum counts the repetition and cannot be reached.\<close>

lemma repeated_approver_stuck:
  "map_option ar_status (first_request [RequestCall ''7'' ''eve'' [''ann'', ''ann''] None None None None 0,
     DecideCall ''req-1'' ''ann'' Approve None 1]) = Some ReqPending"
  by code_simp

text \<open>The deadline is stored and never looked at: a decision after it counts.\<close>

lemma deadline_not_enforced:
  "map_option ar_status (first_request (sample_approval @ [DecideCall ''req-1'' ''bob'' Approve None 100])) = Some ReqApproved"
  by code_simp

end
