(* ===== verification/Compressor.thy ===== *)
theory Compressor
  imports Prelude
begin

text \<open>
  \<open>CacheCompressor\<close> of \<open>cache.ts\<close>: a dictionary that replaces the tokens of JSON by control
  characters, and a run-length code. It is lossless exactly as long as no digit is repeated more
  than three times in a row: the count of a run is written in decimal right before the character it
  repeats, so a run of a digit is read back as another number.
\<close>

section \<open>The codec\<close>

definition token_codes :: "(string \<times> char) list" where
  "token_codes =
     [([CHR 0x22], CHR 0x01), (''{'', CHR 0x02), (''}'', CHR 0x03), (''['', CHR 0x04), ('']'', CHR 0x05), ('','', CHR 0x06),
      ('':'', CHR 0x07), (''true'', CHR 0x08), (''false'', CHR 0x09), (''null'', CHR 0x0a)]"

text \<open>\<open>out.split(token).join(code)\<close>\<close>

function replace_all :: "string \<Rightarrow> string \<Rightarrow> string \<Rightarrow> string" where
  "replace_all tok code s =
     (if s = [] then []
      else if tok \<noteq> [] \<and> take (length tok) s = tok then code @ replace_all tok code (drop (length tok) s)
      else hd s # replace_all tok code (tl s))"
  by pat_completeness auto
termination
  by (relation "measure (\<lambda>(tok, code, s). length s)") auto

declare replace_all.simps [simp del]

function rle_encode :: "string \<Rightarrow> string" where
  "rle_encode [] = []"
| "rle_encode (c # cs) =
     (let run = Suc (length (takeWhile (\<lambda>x. x = c) cs))
      in (if run > 3 then CHR 0x0b # show_nat run @ [c] else replicate run c) @ rle_encode (dropWhile (\<lambda>x. x = c) cs))"
  by pat_completeness auto
termination
  by (relation "measure length") (auto simp: le_imp_less_Suc length_dropWhile_le)

text \<open>\<open>parseInt("", 10)\<close> is \<open>NaN\<close> and repeats nothing, like the zero of \<open>parse_digits\<close>.\<close>

function rle_decode :: "string \<Rightarrow> string" where
  "rle_decode [] = []"
| "rle_decode (c # cs) =
     (if c = CHR 0x0b then
        (case dropWhile is_digit cs of
           [] \<Rightarrow> []
         | ch # rest \<Rightarrow> replicate (parse_digits (takeWhile is_digit cs)) ch @ rle_decode rest)
      else c # rle_decode cs)"
  by pat_completeness auto
termination
proof (relation "measure length", goal_cases)
  case (2 c cs ch rest)
  have "length (dropWhile is_digit cs) \<le> length cs" by (rule length_dropWhile_le)
  with 2(2) show ?case by simp
qed simp_all

definition encode_tokens :: "string \<Rightarrow> string" where
  "encode_tokens s = foldl (\<lambda>out (tok, code). replace_all tok [code] out) s token_codes"

definition decode_tokens :: "string \<Rightarrow> string" where
  "decode_tokens s = foldl (\<lambda>out (tok, code). replace_all [code] tok out) s token_codes"

definition compress :: "string \<Rightarrow> string" where
  "compress input = CHR 0x00 # rle_encode (encode_tokens input)"

definition decompress :: "string \<Rightarrow> string" where
  "decompress input =
     (case input of
        c # body \<Rightarrow> if c = CHR 0x00 then decode_tokens (rle_decode body) else input
      | [] \<Rightarrow> input)"

definition shouldCompress :: "nat \<Rightarrow> string \<Rightarrow> bool" where
  "shouldCompress threshold payload \<longleftrightarrow> length payload \<ge> threshold"

section \<open>The dictionary is lossless\<close>

text \<open>What a character stands for once all codes are read: its token if it is a code, itself if not.\<close>

primrec meaning :: "(string \<times> char) list \<Rightarrow> char \<Rightarrow> string" where
  "meaning [] c = [c]"
| "meaning (x # cs) c = (if c = snd x then fst x else meaning cs c)"

lemma meaning_self: "c \<notin> snd ` set cs \<Longrightarrow> meaning cs c = [c]"
  by (induction cs) auto

lemma replace_all_cases:
  assumes "tok \<noteq> []"
  obtains "s = []" "replace_all tok code s = []"
  | r where "s = tok @ r" "replace_all tok code s = code @ replace_all tok code r"
  | c r where "s = c # r" "replace_all tok code s = c # replace_all tok code r" "take (length tok) s \<noteq> tok"
proof (cases s)
  case Nil
  then show thesis using that(1) by (simp add: replace_all.simps)
next
  case (Cons c r)
  show thesis
  proof (cases "take (length tok) s = tok")
    case True
    then have d: "s = tok @ drop (length tok) s" by (metis append_take_drop_id)
    moreover have "replace_all tok code s = code @ replace_all tok code (drop (length tok) s)"
      using True assms Cons by (subst replace_all.simps) simp
    ultimately show thesis by (rule that(2))
  next
    case False
    have "replace_all tok code s = c # replace_all tok code r" using False Cons by (subst replace_all.simps) simp
    with Cons False that(3) show thesis by blast
  qed
qed

lemma replace_all_concat:
  assumes "tok \<noteq> []" "concat (map f code) = concat (map f tok)"
  shows "concat (map f (replace_all tok code s)) = concat (map f s)"
proof (induction "length s" arbitrary: s rule: less_induct)
  case less
  from assms(1) show ?case
  proof (rule replace_all_cases [of tok s code])
    fix r assume r: "s = tok @ r" "replace_all tok code s = code @ replace_all tok code r"
    have "length r < length s" using r(1) assms(1) by simp
    with less [of r] assms(2) r show ?thesis by simp
  next
    fix c r assume "s = c # r" "replace_all tok code s = c # replace_all tok code r"
    with less [of r] show ?thesis by simp
  qed simp
qed

lemma replace_code: "replace_all [c] tok s = concat (map (\<lambda>x. if x = c then tok else [x]) s)"
proof (induction s)
  case (Cons x s)
  then show ?case by (simp add: replace_all.simps [of "[c]" tok "x # s"])
qed (simp add: replace_all.simps)

lemma concat_map_singleton: "\<forall>x \<in> set s. f x = [x] \<Longrightarrow> concat (map f s) = s"
  by (induction s) auto

lemma concat_map_comp: "concat (map f (concat (map g s))) = concat (map (\<lambda>x. concat (map f (g x))) s)"
  by (induction s) auto

text \<open>Reading the codes one after the other is reading them all at once: no token holds a code.\<close>

definition codes_ok :: "(string \<times> char) list \<Rightarrow> bool" where
  "codes_ok cs \<longleftrightarrow> (\<forall>x \<in> set cs. fst x \<noteq> [] \<and> set (fst x) \<inter> snd ` set cs = {})"

lemma codes_ok_tokens: "codes_ok token_codes" "distinct (map snd token_codes)"
  by (simp_all add: codes_ok_def token_codes_def)

lemma decode_is_meaning:
  "distinct (map snd cs) \<Longrightarrow> snd ` set cs \<subseteq> K \<Longrightarrow> \<forall>x \<in> set cs. set (fst x) \<inter> K = {} \<Longrightarrow>
    foldl (\<lambda>out (tok, code). replace_all [code] tok out) s cs = concat (map (meaning cs) s)"
proof (induction cs arbitrary: s)
  case Nil
  then show ?case by (simp add: concat_map_singleton)
next
  case (Cons x cs)
  let ?g = "\<lambda>y. if y = snd x then fst x else [y]"
  have "foldl (\<lambda>out (tok, code). replace_all [code] tok out) s (x # cs) = foldl (\<lambda>out (tok, code). replace_all [code] tok out) (concat (map ?g s)) cs"
    by (simp add: split_beta replace_code)
  also have "\<dots> = concat (map (meaning cs) (concat (map ?g s)))" using Cons by simp
  also have "\<dots> = concat (map (\<lambda>y. concat (map (meaning cs) (?g y))) s)" by (rule concat_map_comp)
  also have "(\<lambda>y. concat (map (meaning cs) (?g y))) = meaning (x # cs)"
  proof
    fix y
    have "\<forall>z \<in> set (fst x). meaning cs z = [z]" using Cons.prems(2,3) by (auto intro!: meaning_self)
    then show "concat (map (meaning cs) (?g y)) = meaning (x # cs) y" by (simp add: concat_map_singleton)
  qed
  finally show ?case .
qed

lemma meaning_code: "x \<in> set cs \<Longrightarrow> distinct (map snd cs) \<Longrightarrow> meaning cs (snd x) = fst x"
  by (induction cs) force+

text \<open>Writing a token as its code does not change what the text means, token after token.\<close>

lemma encode_meaning:
  "set ts \<subseteq> set cs \<Longrightarrow> codes_ok cs \<Longrightarrow> distinct (map snd cs) \<Longrightarrow>
    concat (map (meaning cs) (foldl (\<lambda>out (tok, code). replace_all tok [code] out) s ts)) = concat (map (meaning cs) s)"
proof (induction ts arbitrary: s)
  case (Cons x ts)
  then have x: "x \<in> set cs" "fst x \<noteq> []" "\<forall>z \<in> set (fst x). meaning cs z = [z]"
    by (auto simp: codes_ok_def intro!: meaning_self)
  then have "concat (map (meaning cs) (fst x)) = fst x" by (simp add: concat_map_singleton)
  moreover have "concat (map (meaning cs) [snd x]) = fst x" using meaning_code [OF x(1)] Cons.prems(3) by simp
  ultimately have "concat (map (meaning cs) (replace_all (fst x) [snd x] s)) = concat (map (meaning cs) s)"
    using x(2) by (intro replace_all_concat) simp_all
  with Cons show ?case by (simp add: split_beta)
qed simp

lemma tokens_roundtrip:
  assumes "set s \<inter> snd ` set token_codes = {}"
  shows "decode_tokens (encode_tokens s) = s"
proof -
  have "decode_tokens t = concat (map (meaning token_codes) t)" for t
    unfolding decode_tokens_def using codes_ok_tokens
    by (intro decode_is_meaning [of _ "snd ` set token_codes"]) (auto simp: codes_ok_def)
  moreover have "concat (map (meaning token_codes) (encode_tokens s)) = concat (map (meaning token_codes) s)"
    unfolding encode_tokens_def using codes_ok_tokens by (intro encode_meaning) auto
  moreover have "concat (map (meaning token_codes) s) = s"
    using assms by (intro concat_map_singleton) (auto intro!: meaning_self)
  ultimately show ?thesis by simp
qed

section \<open>The run-length code\<close>

definition has_run :: "nat \<Rightarrow> char \<Rightarrow> string \<Rightarrow> bool" where
  "has_run n c s \<longleftrightarrow> (\<exists>xs ys. s = xs @ replicate n c @ ys)"

lemma has_run_Cons: "has_run n c s \<Longrightarrow> has_run n c (x # s)"
  unfolding has_run_def by (metis append_Cons)

lemma has_run_append: "has_run n c s \<Longrightarrow> has_run n c (p @ s)"
  by (induction p) (simp_all add: has_run_Cons)

lemma has_run_le: "n \<le> m \<Longrightarrow> has_run m c s \<Longrightarrow> has_run n c s"
  unfolding has_run_def by (metis append.assoc le_Suc_ex replicate_add)

lemma rle_decode_plain: "CHR 0x0b \<notin> set p \<Longrightarrow> rle_decode (p @ s) = p @ rle_decode s"
  by (induction p) auto

lemma take_drop_digits:
  "\<forall>c \<in> set ds. is_digit c \<Longrightarrow> \<not> is_digit d \<Longrightarrow> takeWhile is_digit (ds @ d # s) = ds \<and> dropWhile is_digit (ds @ d # s) = d # s"
  by (simp add: takeWhile_append2 dropWhile_append2)

lemma run_split: "c # cs = replicate (Suc (length (takeWhile (\<lambda>x. x = c) cs))) c @ dropWhile (\<lambda>x. x = c) cs"
proof -
  have "takeWhile (\<lambda>x. x = c) cs = replicate (length (takeWhile (\<lambda>x. x = c) cs)) c"
    by (rule replicate_eqI) (auto dest: set_takeWhileD)
  then show ?thesis by (metis append_Cons replicate_Suc takeWhile_dropWhile_id)
qed

lemma rle_roundtrip:
  "CHR 0x0b \<notin> set s \<Longrightarrow> \<forall>d. is_digit d \<longrightarrow> \<not> has_run 4 d s \<Longrightarrow> rle_decode (rle_encode s) = s"
proof (induction s rule: rle_encode.induct)
  case (2 c cs)
  define n where "n = Suc (length (takeWhile (\<lambda>x. x = c) cs))"
  define r where "r = dropWhile (\<lambda>x. x = c) cs"
  have s: "c # cs = replicate n c @ r" unfolding n_def r_def by (rule run_split)
  have c: "c \<noteq> CHR 0x0b" using 2(2) by auto
  have "CHR 0x0b \<notin> set r" using 2(2) by (auto simp: r_def dest: set_dropWhileD)
  moreover have "\<forall>d. is_digit d \<longrightarrow> \<not> has_run 4 d r" using 2(3) has_run_append [of 4 _ r "replicate n c"] s by metis
  ultimately have IH: "rle_decode (rle_encode r) = r" using 2(1) [OF n_def] by (simp add: r_def)
  show ?case
  proof (cases "n > 3")
    case True
    have "has_run n c (c # cs)" unfolding has_run_def by (subst s) (metis append_Nil)
    then have nd: "\<not> is_digit c" using has_run_le [of 4 n c] True 2(3) by auto
    have e: "rle_encode (c # cs) = CHR 0x0b # show_nat n @ c # rle_encode r" using True by (simp add: Let_def n_def r_def)
    show ?thesis unfolding e using take_drop_digits [OF show_nat_digits nd, of n "rle_encode r"] IH s by simp
  next
    case False
    then have "rle_encode (c # cs) = replicate n c @ rle_encode r" by (simp add: Let_def n_def r_def)
    with rle_decode_plain [of "replicate n c" "rle_encode r"] c IH s show ?thesis by simp
  qed
qed simp

text \<open>The dictionary writes no digits, so it makes no runs of them.\<close>

lemma replace_all_prefix:
  "tok \<noteq> [] \<Longrightarrow> d \<noteq> k \<Longrightarrow> replace_all tok [k] s = replicate n d @ t \<Longrightarrow> \<exists>t'. s = replicate n d @ t'"
proof (induction n arbitrary: s t)
  case (Suc n)
  show ?case
  proof (rule replace_all_cases [OF Suc.prems(1), of s "[k]"])
    fix c r assume "s = c # r" "replace_all tok [k] s = c # replace_all tok [k] r"
    with Suc.prems Suc.IH [of r t] show ?thesis by auto
  qed (use Suc.prems in auto)
qed simp

lemma replace_all_run:
  "tok \<noteq> [] \<Longrightarrow> d \<noteq> k \<Longrightarrow> 0 < n \<Longrightarrow> has_run n d (replace_all tok [k] s) \<Longrightarrow> has_run n d s"
proof (induction "length s" arbitrary: s rule: less_induct)
  case less
  from less.prems(4) obtain xs ys where run: "replace_all tok [k] s = xs @ replicate n d @ ys" by (auto simp: has_run_def)
  show ?case
  proof (cases xs)
    case Nil
    with replace_all_prefix [OF less.prems(1,2), of s n ys] run obtain t where "s = replicate n d @ t" by auto
    then show ?thesis unfolding has_run_def by (metis append_Nil)
  next
    case (Cons x xs')
    show ?thesis
    proof (rule replace_all_cases [OF less.prems(1), of s "[k]"])
      assume "s = []" "replace_all tok [k] s = []"
      with run Cons show ?thesis by simp
    next
      fix r assume r: "s = tok @ r" "replace_all tok [k] s = [k] @ replace_all tok [k] r"
      have "k # replace_all tok [k] r = x # (xs' @ replicate n d @ ys)" using run unfolding r(2) Cons by (simp only: append_Cons append_Nil)
      then have "replace_all tok [k] r = xs' @ replicate n d @ ys" by (rule list.inject [THEN iffD1, THEN conjunct2])
      then have "has_run n d (replace_all tok [k] r)" unfolding has_run_def by blast
      with less(1) [of r] less.prems r(1) show ?thesis by (simp add: has_run_append)
    next
      fix c r assume r: "s = c # r" "replace_all tok [k] s = c # replace_all tok [k] r"
      have "c # replace_all tok [k] r = x # (xs' @ replicate n d @ ys)" using run unfolding r(2) Cons by (simp only: append_Cons append_Nil)
      then have "replace_all tok [k] r = xs' @ replicate n d @ ys" by (rule list.inject [THEN iffD1, THEN conjunct2])
      then have "has_run n d (replace_all tok [k] r)" unfolding has_run_def by blast
      with less(1) [of r] less.prems r(1) show ?thesis by (simp add: has_run_Cons)
    qed
  qed
qed

lemma encode_tokens_run: "is_digit d \<Longrightarrow> 0 < n \<Longrightarrow> has_run n d (encode_tokens s) \<Longrightarrow> has_run n d s"
proof -
  assume d: "is_digit d" "0 < n"
  have "has_run n d (foldl (\<lambda>out (tok, code). replace_all tok [code] out) s ts) \<Longrightarrow> has_run n d s"
    if "\<forall>x \<in> set ts. fst x \<noteq> [] \<and> snd x \<noteq> d" for ts
    using that by (induction ts arbitrary: s) (auto simp: split_beta dest!: replace_all_run [OF _ _ d(2), rotated 2])
  moreover have "\<forall>x \<in> set token_codes. fst x \<noteq> [] \<and> snd x \<noteq> d" using d(1) by (auto simp: token_codes_def is_digit_def)
  ultimately show "has_run n d (encode_tokens s) \<Longrightarrow> has_run n d s" unfolding encode_tokens_def by blast
qed

lemma set_replace_all: "set (replace_all tok code s) \<subseteq> set code \<union> set s"
proof (induction tok code s rule: replace_all.induct)
  case (1 tok code s)
  show ?case
  proof (cases "s = []")
    case False
    show ?thesis
    proof (cases "tok \<noteq> [] \<and> take (length tok) s = tok")
      case True
      with 1(1) [OF False] False show ?thesis by (subst replace_all.simps) (auto dest: in_set_dropD)
    next
      case neg: False
      have "hd s \<in> set s" "set (tl s) \<subseteq> set s" using False by (cases s; auto)+
      with 1(2) [OF False] neg False show ?thesis by (subst replace_all.simps) auto
    qed
  qed (simp add: replace_all.simps)
qed

lemma set_encode_tokens: "set (encode_tokens s) \<subseteq> set s \<union> snd ` set token_codes"
proof -
  have "set (foldl (\<lambda>out (tok, code). replace_all tok [code] out) s ts) \<subseteq> set s \<union> snd ` set ts" for ts
  proof (induction ts arbitrary: s)
    case (Cons x ts)
    have "set (replace_all (fst x) [snd x] s) \<subseteq> insert (snd x) (set s)" using set_replace_all [of "fst x" "[snd x]" s] by simp
    with Cons.IH [of "replace_all (fst x) [snd x] s"] show ?case by (simp add: split_beta) blast
  qed simp
  then show ?thesis by (simp add: encode_tokens_def)
qed

text \<open>
  The codec is lossless on every text without control characters in which no digit occurs four
  times in a row: decompressing what was compressed gives the text back, whatever its quotes,
  brackets, tokens and runs of other characters.
\<close>

theorem compress_roundtrip:
  assumes "\<forall>c \<in> set s. (11::nat) < of_char c" "\<forall>d. is_digit d \<longrightarrow> \<not> has_run 4 d s"
  shows "decompress (compress s) = s"
proof -
  have "set s \<inter> snd ` set token_codes = {}" using assms(1) by (auto simp: token_codes_def)
  from tokens_roundtrip [OF this] have t: "decode_tokens (encode_tokens s) = s" .
  have "CHR 0x0b \<notin> set s" using assms(1) by auto
  moreover have "CHR 0x0b \<notin> snd ` set token_codes" by (simp add: token_codes_def)
  ultimately have "CHR 0x0b \<notin> set (encode_tokens s)" using set_encode_tokens by blast
  moreover have "\<forall>d. is_digit d \<longrightarrow> \<not> has_run 4 d (encode_tokens s)" using assms(2) encode_tokens_run by auto
  ultimately have "rle_decode (rle_encode (encode_tokens s)) = encode_tokens s" by (rule rle_roundtrip)
  with t show ?thesis by (simp add: compress_def decompress_def)
qed

text \<open>Four or more digits in a row are not written back at all when nothing follows them.\<close>

lemma replace_all_absent: "tok \<noteq> [] \<Longrightarrow> hd tok \<notin> set s \<Longrightarrow> replace_all tok code s = s"
proof (induction s)
  case (Cons c s)
  then have "take (length tok) (c # s) \<noteq> tok" by (cases tok) auto
  with Cons show ?case by (subst replace_all.simps) simp
qed (simp add: replace_all.simps)

lemma replace_tokens_absent:
  "\<forall>x \<in> set ts. fst x \<noteq> [] \<and> hd (fst x) \<notin> set s \<Longrightarrow> foldl (\<lambda>out (tok, code). replace_all tok [code] out) s ts = s"
  by (induction ts) (simp_all add: split_beta replace_all_absent)

lemma digit_run_lost:
  assumes "is_digit d" "3 < n"
  shows "decompress (compress (replicate n d)) = []"
proof -
  have "\<forall>x \<in> set token_codes. fst x \<noteq> [] \<and> hd (fst x) \<notin> set (replicate n d)"
    using assms by (auto simp: token_codes_def is_digit_def)
  then have e: "encode_tokens (replicate n d) = replicate n d"
    unfolding encode_tokens_def by (rule replace_tokens_absent)
  obtain m where n: "n = Suc m" using assms(2) by (cases n) auto
  have "rle_encode (replicate n d) = CHR 0x0b # show_nat n @ [d]"
    using assms(2) by (simp add: n Let_def takeWhile_replicate dropWhile_replicate)
  moreover have "dropWhile is_digit (show_nat n @ [d]) = []" using show_nat_digits [of n] assms(1) by auto
  ultimately have "rle_decode (rle_encode (encode_tokens (replicate n d))) = []" by (simp add: e)
  moreover have "decode_tokens [] = []" by (simp add: decode_tokens_def token_codes_def replace_all.simps)
  ultimately show ?thesis by (simp add: compress_def decompress_def)
qed

lemma has_run_count:
  assumes "is_digit d" "has_run n d s"
  shows "n \<le> length (filter is_digit s)"
proof -
  from assms(2) obtain xs ys where s: "s = xs @ replicate n d @ ys" unfolding has_run_def by blast
  have "filter is_digit (replicate n d) = replicate n d" using assms(1) by simp
  then show ?thesis unfolding s by simp
qed

theorem compress_roundtrip_witness:
  "decompress (compress ''{[aaaaaaaa,true],007:xxxx}'') = ''{[aaaaaaaa,true],007:xxxx}''"
proof (rule compress_roundtrip)
  show "\<forall>c \<in> set ''{[aaaaaaaa,true],007:xxxx}''. (11::nat) < of_char c" by simp
  have len: "length (filter is_digit ''{[aaaaaaaa,true],007:xxxx}'') = 3" by (simp add: is_digit_def)
  show "\<forall>d. is_digit d \<longrightarrow> \<not> has_run 4 d ''{[aaaaaaaa,true],007:xxxx}''"
  proof (intro allI impI notI)
    fix d assume "is_digit d" "has_run 4 d ''{[aaaaaaaa,true],007:xxxx}''"
    then have "4 \<le> length (filter is_digit ''{[aaaaaaaa,true],007:xxxx}'')" by (rule has_run_count)
    then show False unfolding len by simp
  qed
qed

end
