(* ===== verification/Dao_Governance.thy ===== *)
theory Dao_Governance
  imports Prelude
begin

text \<open>
  \<open>governance/daoGovernance.ts\<close>: proposals, weighted votes and a treasury. Voting power and amounts are
  whole numbers; the quotient of the approval is rounded by \<open>fl\<close>. The power source is an argument:
  a function of the address that stays the same during a run, as for a snapshot of balances.
\<close>

section \<open>Proposals\<close>

datatype proposal_state = Pending | Active | Succeeded | Defeated | Queued | Executed | Cancelled

datatype vote_choice = For | Against | Abstain

record governance_config =
  gc_quorum :: int
  gc_approvalThreshold :: rat
  gc_votingPeriodMs :: int
  gc_proposalThreshold :: int

record proposal_action =
  px_target :: "string option"
  px_amount :: "int option"

record proposal =
  pr_id :: string
  pr_proposer :: string
  pr_title :: string
  pr_description :: string
  pr_createdAt :: int
  pr_startAt :: int
  pr_endAt :: int
  pr_state :: proposal_state
  pr_action :: proposal_action
  pr_votes :: "vote_choice \<Rightarrow> int"
  pr_voters :: "(string \<times> vote_choice) list"

record dao =
  da_config :: governance_config
  da_proposals :: "(string \<times> proposal) list"
  da_treasury :: int
  da_counter :: nat

datatype dao_error =
    InsufficientVotingPower | TitleRequired | ProposalNotFound string | OnlyProposerCancels | CannotCancelExecuted
  | CannotVoteIn proposal_state | HasVoted string | NoVotingPower | CannotExecuteIn proposal_state
  | TargetRequired | InsufficientTreasury | DepositNotPositive

definition dao_new :: "governance_config \<Rightarrow> dao" where
  "dao_new c = \<lparr>da_config = c, da_proposals = [], da_treasury = 0, da_counter = 0\<rparr>"

definition proposal_id :: "nat \<Rightarrow> string" where
  "proposal_id n = ''prop-'' @ show_nat n"

definition createProposal ::
  "(string \<Rightarrow> int) \<Rightarrow> string \<Rightarrow> string \<Rightarrow> string \<Rightarrow> proposal_action \<Rightarrow> int \<Rightarrow> dao \<Rightarrow> (dao_error + proposal) \<times> dao" where
  "createProposal pw proposer title description action now d =
     (if pw proposer < gc_proposalThreshold (da_config d) then (Inl InsufficientVotingPower, d)
      else if trim title = [] then (Inl TitleRequired, d)
      else
        let n = da_counter d + 1;
            p = \<lparr>pr_id = proposal_id n, pr_proposer = proposer, pr_title = title, pr_description = description,
                 pr_createdAt = now, pr_startAt = now, pr_endAt = now + gc_votingPeriodMs (da_config d),
                 pr_state = Active, pr_action = action, pr_votes = (\<lambda>_. 0), pr_voters = []\<rparr>
        in (Inr p, d\<lparr>da_counter := n, da_proposals := AList.update (pr_id p) p (da_proposals d)\<rparr>))"

definition getProposal :: "string \<Rightarrow> dao \<Rightarrow> proposal option" where
  "getProposal i d = map_of (da_proposals d) i"

definition listProposals :: "dao \<Rightarrow> proposal list" where
  "listProposals d = map snd (da_proposals d)"

definition requireProposal :: "string \<Rightarrow> dao \<Rightarrow> dao_error + proposal" where
  "requireProposal i d = (case map_of (da_proposals d) i of None \<Rightarrow> Inl (ProposalNotFound i) | Some p \<Rightarrow> Inr p)"

text \<open>Proposals are changed in place.\<close>

definition put_proposal :: "proposal \<Rightarrow> dao \<Rightarrow> dao" where
  "put_proposal p d = d\<lparr>da_proposals := AList.update (pr_id p) p (da_proposals d)\<rparr>"

definition cancelProposal :: "string \<Rightarrow> string \<Rightarrow> dao \<Rightarrow> (dao_error + proposal) \<times> dao" where
  "cancelProposal i caller d =
     (case requireProposal i d of
        Inl e \<Rightarrow> (Inl e, d)
      | Inr p \<Rightarrow>
          if pr_proposer p \<noteq> caller then (Inl OnlyProposerCancels, d)
          else if pr_state p = Executed then (Inl CannotCancelExecuted, d)
          else let p1 = p\<lparr>pr_state := Cancelled\<rparr> in (Inr p1, put_proposal p1 d))"

section \<open>Votes\<close>

definition total_cast :: "proposal \<Rightarrow> int" where
  "total_cast p = pr_votes p For + pr_votes p Against + pr_votes p Abstain"

definition approval :: "(rat \<Rightarrow> rat) \<Rightarrow> proposal \<Rightarrow> rat" where
  "approval fl p =
     (let decisive = pr_votes p For + pr_votes p Against
      in if decisive = 0 then 0 else fl (of_int (pr_votes p For) / of_int decisive))"

definition passes :: "(rat \<Rightarrow> rat) \<Rightarrow> governance_config \<Rightarrow> proposal \<Rightarrow> bool" where
  "passes fl c p \<longleftrightarrow> total_cast p \<ge> gc_quorum c \<and> approval fl p \<ge> gc_approvalThreshold c"

definition refreshState :: "(rat \<Rightarrow> rat) \<Rightarrow> int \<Rightarrow> governance_config \<Rightarrow> proposal \<Rightarrow> proposal" where
  "refreshState fl now c p =
     (if pr_state p \<noteq> Active \<or> now < pr_endAt p then p
      else p\<lparr>pr_state := (if passes fl c p then Succeeded else Defeated)\<rparr>)"

text \<open>
  \<open>proposal.voters[voter]\<close> on a plain object also finds what every object inherits; all of it is truthy.
\<close>

definition has_voted :: "string \<Rightarrow> proposal \<Rightarrow> bool" where
  "has_voted v p \<longleftrightarrow> map_of (pr_voters p) v \<noteq> None \<or> v \<in> set inherited_names"

definition castVote ::
  "(rat \<Rightarrow> rat) \<Rightarrow> (string \<Rightarrow> int) \<Rightarrow> string \<Rightarrow> string \<Rightarrow> vote_choice \<Rightarrow> int \<Rightarrow> dao \<Rightarrow> (dao_error + proposal) \<times> dao" where
  "castVote fl pw i voter choice now d =
     (case requireProposal i d of
        Inl e \<Rightarrow> (Inl e, d)
      | Inr p0 \<Rightarrow>
          let p = refreshState fl now (da_config d) p0; d1 = put_proposal p d
          in if pr_state p \<noteq> Active then (Inl (CannotVoteIn (pr_state p)), d1)
             else if has_voted voter p then (Inl (HasVoted voter), d1)
             else if pw voter \<le> 0 then (Inl NoVotingPower, d1)
             else
               let p1 = p\<lparr>pr_voters := AList.update voter choice (pr_voters p),
                          pr_votes := (pr_votes p)(choice := pr_votes p choice + pw voter)\<rparr>
               in (Inr p1, put_proposal p1 d1))"

section \<open>Execution and treasury\<close>

definition falsy :: "string option \<Rightarrow> bool" where
  "falsy s \<longleftrightarrow> s = None \<or> s = Some []"

definition withdraw :: "string option \<Rightarrow> int \<Rightarrow> dao \<Rightarrow> dao_error + dao" where
  "withdraw target amount d =
     (if amount > da_treasury d then Inl InsufficientTreasury
      else if falsy target then Inl TargetRequired
      else Inr (d\<lparr>da_treasury := da_treasury d - amount\<rparr>))"

definition executeProposal :: "(rat \<Rightarrow> rat) \<Rightarrow> string \<Rightarrow> int \<Rightarrow> dao \<Rightarrow> (dao_error + proposal) \<times> dao" where
  "executeProposal fl i now d =
     (case requireProposal i d of
        Inl e \<Rightarrow> (Inl e, d)
      | Inr p0 \<Rightarrow>
          let p = refreshState fl now (da_config d) p0; d1 = put_proposal p d;
              p1 = p\<lparr>pr_state := Executed\<rparr>
          in if pr_state p \<noteq> Succeeded then (Inl (CannotExecuteIn (pr_state p)), d1)
             else case px_amount (pr_action p) of
               Some amount \<Rightarrow>
                 if amount > 0 then
                   (if falsy (px_target (pr_action p)) then (Inl TargetRequired, d1)
                    else case withdraw (px_target (pr_action p)) amount d1 of
                      Inl e \<Rightarrow> (Inl e, d1)
                    | Inr d2 \<Rightarrow> (Inr p1, put_proposal p1 d2))
                 else (Inr p1, put_proposal p1 d1)
             | None \<Rightarrow> (Inr p1, put_proposal p1 d1))"

definition deposit :: "int \<Rightarrow> dao \<Rightarrow> (dao_error + int) \<times> dao" where
  "deposit amount d =
     (if amount \<le> 0 then (Inl DepositNotPositive, d)
      else let d1 = d\<lparr>da_treasury := da_treasury d + amount\<rparr> in (Inr (da_treasury d1), d1))"

record governance_analytics =
  ga_totalProposals :: nat
  ga_byState :: "proposal_state \<Rightarrow> nat"
  ga_totalVotingPowerCast :: int
  ga_participationRate :: rat
  ga_treasuryBalance :: int

definition dao_analytics :: "dao \<Rightarrow> governance_analytics" where
  "dao_analytics d =
     (let ps = listProposals d;
          cast = foldl (\<lambda>a p. a + total_cast p) 0 ps;
          eligible = foldl (\<lambda>a p. a + total_cast p) 0 ps
      in \<lparr>ga_totalProposals = length ps,
          ga_byState = foldl (\<lambda>f p. f(pr_state p := f (pr_state p) + 1)) (\<lambda>_. 0) ps,
          ga_totalVotingPowerCast = cast,
          ga_participationRate = (if eligible = 0 then 0 else of_int cast / of_int eligible),
          ga_treasuryBalance = da_treasury d\<rparr>)"

section \<open>Runs\<close>

datatype dao_step =
    CreateStep string string string proposal_action int
  | CancelStep string string
  | VoteStep string string vote_choice int
  | ExecuteStep string int
  | DepositStep int

text \<open>A run keeps the sum of the deposits that were accepted.\<close>

fun dao_advance :: "(rat \<Rightarrow> rat) \<Rightarrow> (string \<Rightarrow> int) \<Rightarrow> dao \<times> int \<Rightarrow> dao_step \<Rightarrow> dao \<times> int" where
  "dao_advance fl pw (d, dep) (CreateStep who title descr act now) = (snd (createProposal pw who title descr act now d), dep)"
| "dao_advance fl pw (d, dep) (CancelStep i caller) = (snd (cancelProposal i caller d), dep)"
| "dao_advance fl pw (d, dep) (VoteStep i v c now) = (snd (castVote fl pw i v c now d), dep)"
| "dao_advance fl pw (d, dep) (ExecuteStep i now) = (snd (executeProposal fl i now d), dep)"
| "dao_advance fl pw (d, dep) (DepositStep a) = (snd (deposit a d), if a > 0 then dep + a else dep)"

section \<open>Well-formed governance\<close>

definition voted_power :: "(string \<Rightarrow> int) \<Rightarrow> proposal \<Rightarrow> vote_choice \<Rightarrow> int" where
  "voted_power pw p c = sum_list (map (pw \<circ> fst) (filter (\<lambda>x. snd x = c) (pr_voters p)))"

definition wf_proposal :: "(rat \<Rightarrow> rat) \<Rightarrow> (string \<Rightarrow> int) \<Rightarrow> governance_config \<Rightarrow> proposal \<Rightarrow> bool" where
  "wf_proposal fl pw c p \<longleftrightarrow> distinct (map fst (pr_voters p)) \<and> (\<forall>x \<in> set (pr_voters p). 0 < pw (fst x)) \<and>
     (\<forall>ch. pr_votes p ch = voted_power pw p ch) \<and> (pr_state p = Succeeded \<or> pr_state p = Executed \<longrightarrow> passes fl c p)"

definition paid_out :: "proposal \<Rightarrow> int" where
  "paid_out p = (if pr_state p = Executed then (case px_amount (pr_action p) of Some a \<Rightarrow> max 0 a | None \<Rightarrow> 0) else 0)"

definition total_paid :: "dao \<Rightarrow> int" where
  "total_paid d = sum_list (map (paid_out \<circ> snd) (da_proposals d))"

fun wf_dao :: "(rat \<Rightarrow> rat) \<Rightarrow> (string \<Rightarrow> int) \<Rightarrow> governance_config \<Rightarrow> dao \<times> int \<Rightarrow> bool" where
  "wf_dao fl pw c (d, dep) \<longleftrightarrow> da_config d = c \<and> distinct (map fst (da_proposals d)) \<and>
     (\<forall>x \<in> set (da_proposals d). fst x = pr_id (snd x) \<and> (\<exists>n. pr_id (snd x) = proposal_id n \<and> n \<le> da_counter d) \<and> wf_proposal fl pw c (snd x)) \<and>
     0 \<le> da_treasury d \<and> da_treasury d + total_paid d = dep"

lemma sum_update:
  "distinct (map fst m) \<Longrightarrow> map_of m k = Some v0 \<Longrightarrow>
   sum_list (map (f \<circ> snd) (AList.update k v m)) = sum_list (map (f \<circ> snd) m) - f v0 + (f v :: int)"
proof (induction m)
  case (Cons x m)
  show ?case
  proof (cases "fst x = k")
    case True
    with Cons.prems show ?thesis by (cases x) auto
  next
    case False
    with Cons show ?thesis by (cases x) auto
  qed
qed simp

lemma wf_put:
  assumes "wf_dao fl pw c (d, dep)" "map_of (da_proposals d) i = Some p0" "pr_id p = pr_id p0" "wf_proposal fl pw c p"
    "paid_out p = paid_out p0 + x" "x \<le> da_treasury d"
  shows "wf_dao fl pw c (put_proposal p (d\<lparr>da_treasury := da_treasury d - x\<rparr>), dep)"
proof -
  have mem: "(i, p0) \<in> set (da_proposals d)" by (rule map_of_SomeD [OF assms(2)])
  then have i: "i = pr_id p0" "\<exists>n. pr_id p0 = proposal_id n \<and> n \<le> da_counter d" using assms(1) by fastforce+
  have "total_paid (put_proposal p d) = total_paid d + x"
    using sum_update [of "da_proposals d" i p0 paid_out p] assms i(1) by (simp add: total_paid_def put_proposal_def)
  moreover have "\<forall>y \<in> set (AList.update (pr_id p) p (da_proposals d)). fst y = pr_id (snd y) \<and>
      (\<exists>n. pr_id (snd y) = proposal_id n \<and> n \<le> da_counter d) \<and> wf_proposal fl pw c (snd y)"
  proof
    fix y assume "y \<in> set (AList.update (pr_id p) p (da_proposals d))"
    then have "y = (pr_id p, p) \<or> y \<in> set (da_proposals d)" using set_update_sub by fastforce
    then show "fst y = pr_id (snd y) \<and> (\<exists>n. pr_id (snd y) = proposal_id n \<and> n \<le> da_counter d) \<and> wf_proposal fl pw c (snd y)"
    proof
      assume "y = (pr_id p, p)"
      with i(2) assms(3,4) show ?thesis by simp
    next
      assume "y \<in> set (da_proposals d)"
      with assms(1) show ?thesis by simp
    qed
  qed
  ultimately show ?thesis using assms(1,6) by (simp add: put_proposal_def distinct_fst_update total_paid_def)
qed

lemma put_id: "da_treasury (put_proposal p d) = da_treasury d" "da_config (put_proposal p d) = da_config d"
  "map_of (da_proposals (put_proposal p d)) = (map_of (da_proposals d))(pr_id p \<mapsto> p)"
  by (simp_all add: put_proposal_def)

text \<open>The instances of \<open>wf_put\<close> without a payment.\<close>

lemma wf_put_same:
  assumes "wf_dao fl pw c (d, dep)" "map_of (da_proposals d) i = Some p0" "pr_id p = pr_id p0" "wf_proposal fl pw c p"
    "paid_out p = paid_out p0"
  shows "wf_dao fl pw c (put_proposal p d, dep)"
  using wf_put [OF assms(1-4), of 0] assms(1,5) by simp

lemma wf_member: "wf_dao fl pw c (d, dep) \<Longrightarrow> map_of (da_proposals d) i = Some p \<Longrightarrow> wf_proposal fl pw c p \<and> i = pr_id p"
  by (fastforce dest: map_of_SomeD)

lemma refresh_wf: "wf_proposal fl pw c p \<Longrightarrow> wf_proposal fl pw c (refreshState fl now c p)"
  by (auto simp: wf_proposal_def refreshState_def voted_power_def passes_def total_cast_def approval_def Let_def)

lemma refresh_facts [simp]: "pr_id (refreshState fl now c p) = pr_id p" "pr_action (refreshState fl now c p) = pr_action p"
  "pr_votes (refreshState fl now c p) = pr_votes p" "pr_voters (refreshState fl now c p) = pr_voters p"
  "pr_state (refreshState fl now c p) = Executed \<longleftrightarrow> pr_state p = Executed" "paid_out (refreshState fl now c p) = paid_out p"
  by (auto simp: refreshState_def paid_out_def)

lemma wf_refresh:
  assumes "wf_dao fl pw c (d, dep)" "map_of (da_proposals d) i = Some p"
  shows "wf_dao fl pw c (put_proposal (refreshState fl now c p) d, dep)"
  by (rule wf_put_same [OF assms]) (use wf_member [OF assms] in \<open>simp_all add: refresh_wf\<close>)

lemma voted_power_add:
  assumes "map_of (pr_voters p) v = None"
  shows "voted_power pw (p\<lparr>pr_voters := AList.update v ch (pr_voters p), pr_votes := f\<rparr>) x = voted_power pw p x + (if x = ch then pw v else 0)"
proof -
  have "AList.update v ch m = m @ [(v, ch)]" if "map_of m v = None" for m using that by (induction m) (auto split: if_splits)
  with assms show ?thesis by (simp add: voted_power_def)
qed

lemma vote_wf_proposal:
  assumes "wf_proposal fl pw c p" "pr_state p = Active" "map_of (pr_voters p) v = None" "0 < pw v"
  shows "wf_proposal fl pw c (p\<lparr>pr_voters := AList.update v ch (pr_voters p), pr_votes := (pr_votes p)(ch := pr_votes p ch + pw v)\<rparr>)"
proof -
  have "\<forall>x \<in> set (AList.update v ch (pr_voters p)). 0 < pw (fst x)"
    using assms(1,4) set_update_sub [of v ch "pr_voters p"] by (fastforce simp: wf_proposal_def)
  with assms show ?thesis by (simp add: wf_proposal_def voted_power_add distinct_fst_update)
qed

lemma state_facts: "passes fl c (p\<lparr>pr_state := st\<rparr>) = passes fl c p" "voted_power pw (p\<lparr>pr_state := st\<rparr>) ch = voted_power pw p ch"
  by (simp_all add: passes_def total_cast_def approval_def voted_power_def Let_def)

lemma create_wf: "wf_dao fl pw c (d, dep) \<Longrightarrow> wf_dao fl pw c (snd (createProposal pw who title descr act now d), dep)"
proof -
  assume w: "wf_dao fl pw c (d, dep)"
  let ?n = "da_counter d + 1"
  have inj: "proposal_id m = proposal_id n \<Longrightarrow> m = n" for m n by (simp add: proposal_id_def show_nat_inj)
  have new: "proposal_id ?n \<notin> fst ` set (da_proposals d)"
  proof
    assume "proposal_id ?n \<in> fst ` set (da_proposals d)"
    then obtain x where x: "x \<in> set (da_proposals d)" "proposal_id ?n = fst x" by auto
    moreover have "fst x = pr_id (snd x)" "\<exists>n. pr_id (snd x) = proposal_id n \<and> n \<le> da_counter d" using w x(1) by simp_all
    ultimately show False using inj by fastforce
  qed
  have upd: "AList.update k v m = m @ [(k, v)]" if "k \<notin> fst ` set m" for k and v :: proposal and m
    using that by (induction m) auto
  have old: "\<forall>x \<in> set (da_proposals d). \<exists>n. pr_id (snd x) = proposal_id n \<and> n \<le> ?n" using w by fastforce
  have "\<exists>n. proposal_id ?n = proposal_id n \<and> n \<le> ?n" by blast
  with w new old show ?thesis
    by (auto simp: createProposal_def Let_def upd total_paid_def paid_out_def wf_proposal_def voted_power_def simp del: Suc_eq_plus1)
qed

lemma cancel_wf:
  assumes w: "wf_dao fl pw c (d, dep)"
  shows "wf_dao fl pw c (snd (cancelProposal i caller d), dep)"
proof (cases "map_of (da_proposals d) i")
  case (Some p)
  have "wf_dao fl pw c (put_proposal (p\<lparr>pr_state := Cancelled\<rparr>) d, dep)" if "pr_state p \<noteq> Executed"
    by (rule wf_put_same [OF w Some]) (use wf_member [OF w Some] that in \<open>simp_all add: wf_proposal_def voted_power_def paid_out_def\<close>)
  with w show ?thesis by (simp add: cancelProposal_def requireProposal_def Some Let_def)
qed (use w in \<open>simp add: cancelProposal_def requireProposal_def\<close>)

lemma vote_wf:
  assumes w: "wf_dao fl pw c (d, dep)"
  shows "wf_dao fl pw c (snd (castVote fl pw i v ch now d), dep)"
proof (cases "map_of (da_proposals d) i")
  case (Some p0)
  have c: "da_config d = c" using w by simp
  let ?p = "refreshState fl now c p0" and ?d = "put_proposal (refreshState fl now c p0) d"
  let ?p1 = "?p\<lparr>pr_voters := AList.update v ch (pr_voters ?p), pr_votes := (pr_votes ?p)(ch := pr_votes ?p ch + pw v)\<rparr>"
  note w1 = wf_refresh [OF w Some, of now]
  have wp: "wf_proposal fl pw c ?p" using wf_member [OF w Some] refresh_wf by blast
  have "wf_dao fl pw c (put_proposal ?p1 ?d, dep)" if "pr_state ?p = Active" "\<not> has_voted v ?p" "0 < pw v"
  proof (rule wf_put_same [OF w1])
    show "map_of (da_proposals ?d) (pr_id ?p) = Some ?p" by (simp add: put_id)
    show "wf_proposal fl pw c ?p1" by (rule vote_wf_proposal [OF wp that(1)]) (use that in \<open>simp_all add: has_voted_def\<close>)
    show "paid_out ?p1 = paid_out ?p" using that(1) by (simp add: paid_out_def)
  qed simp
  with w1 show ?thesis by (simp add: castVote_def requireProposal_def Some Let_def c del: refresh_facts)
qed (use w in \<open>simp add: castVote_def requireProposal_def\<close>)

lemma execute_wf:
  assumes w: "wf_dao fl pw c (d, dep)"
  shows "wf_dao fl pw c (snd (executeProposal fl i now d), dep)"
proof (cases "map_of (da_proposals d) i")
  case (Some p0)
  have c: "da_config d = c" using w by simp
  let ?p = "refreshState fl now c p0" and ?d = "put_proposal (refreshState fl now c p0) d"
  let ?p1 = "?p\<lparr>pr_state := Executed\<rparr>"
  note w1 = wf_refresh [OF w Some, of now]
  have wp: "wf_proposal fl pw c ?p" using wf_member [OF w Some] refresh_wf by blast
  have m: "map_of (da_proposals ?d) (pr_id ?p) = Some ?p" by (simp add: put_id)
  have wp1: "wf_proposal fl pw c ?p1" if "pr_state ?p = Succeeded"
    using wp that by (simp add: wf_proposal_def state_facts del: refresh_facts)
  have pay: "wf_dao fl pw c (put_proposal ?p1 (?d\<lparr>da_treasury := da_treasury ?d - x\<rparr>), dep)"
    if "pr_state ?p = Succeeded" "paid_out ?p1 = x" "x \<le> da_treasury ?d" for x
    by (rule wf_put [OF w1 m _ wp1 [OF that(1)]]) (use that in \<open>simp_all add: paid_out_def\<close>)
  show ?thesis
  proof (cases "pr_state ?p = Succeeded \<and> (\<exists>a. px_amount (pr_action ?p) = Some a \<and> 0 < a)")
    case True
    then obtain a where a: "px_amount (pr_action p0) = Some a" "0 < a" "pr_state ?p = Succeeded" by auto
    have "paid_out ?p1 = a" using a by (simp add: paid_out_def)
    with w1 a pay [of a] show ?thesis
      by (auto simp: executeProposal_def requireProposal_def Some Let_def c withdraw_def simp del: wf_dao.simps)
  next
    case False
    have "paid_out ?p1 = 0" if "pr_state ?p = Succeeded" using that False by (auto simp: paid_out_def split: option.split)
    moreover have "0 \<le> da_treasury ?d" using w1 by simp
    ultimately show ?thesis using w1 pay [of 0] False
      by (auto simp: executeProposal_def requireProposal_def Some Let_def c simp del: wf_dao.simps split: option.splits)
  qed
qed (use w in \<open>simp add: executeProposal_def requireProposal_def\<close>)

lemma deposit_wf: "wf_dao fl pw c (d, dep) \<Longrightarrow> wf_dao fl pw c (snd (deposit a d), if a > 0 then dep + a else dep)"
  by (simp add: deposit_def total_paid_def Let_def)

lemma dao_advance_wf: "wf_dao fl pw c s \<Longrightarrow> wf_dao fl pw c (dao_advance fl pw s e)"
  by (cases s; cases e) (simp_all add: create_wf cancel_wf vote_wf execute_wf deposit_wf del: wf_dao.simps)

interpretation governance: machine "dao_advance fl pw" "wf_dao fl pw c"
  by unfold_locales (rule dao_advance_wf)

lemma dao_run_wf: "wf_dao fl pw c (foldl (dao_advance fl pw) (dao_new c, 0) es)"
  by (rule governance.run_inv) (simp add: dao_new_def total_paid_def)

section \<open>Executed proposals\<close>

definition executed_in :: "string \<Rightarrow> dao \<times> int \<Rightarrow> bool" where
  "executed_in i s \<longleftrightarrow> (\<exists>p. map_of (da_proposals (fst s)) i = Some p \<and> pr_state p = Executed)"

lemma executed_put:
  assumes "executed_in i (d, dep)" "i = pr_id p \<Longrightarrow> pr_state p = Executed"
  shows "executed_in i (put_proposal p d, dep')"
  using assms by (auto simp: executed_in_def put_proposal_def)

lemma executed_pair: "executed_in i (d, dep) = executed_in i (d, dep')" "executed_in i (d\<lparr>da_treasury := t\<rparr>, dep) = executed_in i (d, dep)"
  by (simp_all add: executed_in_def)

lemma executed_refresh:
  assumes "wf_dao fl pw c (d, dep)" "executed_in i (d, dep)" "map_of (da_proposals d) j = Some p"
  shows "executed_in i (put_proposal (refreshState fl now c p) d, dep)"
proof (rule executed_put [OF assms(2)])
  assume "i = pr_id (refreshState fl now c p)"
  then have "map_of (da_proposals d) i = Some p" using wf_member [OF assms(1,3)] assms(3) by simp
  with assms(2) show "pr_state (refreshState fl now c p) = Executed" by (simp add: executed_in_def)
qed

lemma dao_advance_executed: "wf_dao fl pw c s \<Longrightarrow> executed_in i s \<Longrightarrow> executed_in i (dao_advance fl pw s e)"
proof (cases s)
  case (Pair d dep)
  assume ws: "wf_dao fl pw c s" and xs: "executed_in i s"
  have w: "wf_dao fl pw c (d, dep)" and x: "executed_in i (d, dep)" using ws xs by (simp_all add: Pair del: wf_dao.simps)
  have c: "da_config d = c" using w by simp
  note step = executed_put [OF executed_refresh [OF w x]]
  show ?thesis
  proof (cases e)
    case (CreateStep who title descr act now)
    have "executed_in i (d\<lparr>da_counter := n, da_proposals := AList.update (proposal_id (Suc (da_counter d))) p (da_proposals d)\<rparr>, dep)" for n p
    proof (cases "i = proposal_id (Suc (da_counter d))")
      case True
      from x obtain q where "map_of (da_proposals d) i = Some q" by (auto simp: executed_in_def)
      then have "\<exists>m. i = proposal_id m \<and> m \<le> da_counter d" using w by (fastforce dest: map_of_SomeD)
      with True show ?thesis by (auto simp: proposal_id_def show_nat_inj)
    qed (use x in \<open>auto simp: executed_in_def\<close>)
    with x show ?thesis by (simp add: Pair CreateStep createProposal_def Let_def)
  next
    case (CancelStep j caller)
    then show ?thesis using x wf_member [OF w]
      by (auto simp: Pair cancelProposal_def requireProposal_def Let_def executed_in_def put_proposal_def split: option.split sum.split)
  next
    case (VoteStep j v ch now)
    show ?thesis
    proof (cases "map_of (da_proposals d) j")
      case (Some p)
      let ?p = "refreshState fl now c p"
      have "pr_state ?p = Active \<Longrightarrow> i \<noteq> pr_id ?p" using x wf_member [OF w Some] Some by (auto simp: executed_in_def refreshState_def split: if_splits)
      then have "executed_in i (put_proposal (?p\<lparr>pr_voters := f, pr_votes := g\<rparr>) (put_proposal ?p d), dep)" if "pr_state ?p = Active" for f g
        using that by (intro step [OF Some]) simp
      with Some executed_refresh [OF w x Some] show ?thesis
        by (simp add: Pair VoteStep castVote_def requireProposal_def Some c Let_def)
    qed (use x in \<open>simp add: Pair VoteStep castVote_def requireProposal_def\<close>)
  next
    case (ExecuteStep j now)
    show ?thesis
    proof (cases "map_of (da_proposals d) j")
      case (Some p)
      have "executed_in i (put_proposal (refreshState fl now c p\<lparr>pr_state := Executed\<rparr>) ((put_proposal (refreshState fl now c p) d)\<lparr>da_treasury := t\<rparr>), dep)" for t
        by (rule executed_put [of i _ dep]) (simp_all add: executed_pair executed_refresh [OF w x Some])
      with Some executed_refresh [OF w x Some] step [OF Some] show ?thesis
        by (auto simp: Pair ExecuteStep executeProposal_def requireProposal_def c Let_def withdraw_def executed_pair executed_put split: option.split)
    qed (use x in \<open>simp add: Pair ExecuteStep executeProposal_def requireProposal_def\<close>)
  next
    case (DepositStep a)
    then show ?thesis using x by (simp add: Pair deposit_def Let_def executed_in_def)
  qed
qed

interpretation executed_proposals: latched_machine "dao_advance fl pw" "wf_dao fl pw c" "executed_in i"
  by unfold_locales (rule dao_advance_executed)

section \<open>Properties\<close>

text \<open>
  C40: The tallies of every proposal are what its voters stand for: each address is counted once,
  each with a positive voting power, and each tally is the sum of the power of those who chose it.
\<close>

theorem tallies_match_voters:
  assumes "foldl (dao_advance fl pw) (dao_new c, 0) es = (d, dep)" "p \<in> set (listProposals d)"
  shows "distinct (map fst (pr_voters p)) \<and> (\<forall>x \<in> set (pr_voters p). 0 < pw (fst x)) \<and>
         pr_votes p ch = sum_list (map (pw \<circ> fst) (filter (\<lambda>x. snd x = ch) (pr_voters p)))"
proof -
  have "wf_dao fl pw c (d, dep)" using dao_run_wf [of fl pw c es] by (simp only: assms(1))
  with assms(2) have "wf_proposal fl pw c p" by (auto simp: listProposals_def)
  then show ?thesis by (simp add: wf_proposal_def voted_power_def)
qed

definition sample_config :: governance_config where
  "sample_config = \<lparr>gc_quorum = 3, gc_approvalThreshold = 1 / 2, gc_votingPeriodMs = 100, gc_proposalThreshold = 1\<rparr>"

definition sample_governance :: "dao_step list" where
  "sample_governance =
     [DepositStep 50, CreateStep ''ann'' ''t'' [] \<lparr>px_target = Some ''bob'', px_amount = Some 20\<rparr> 0,
      VoteStep (proposal_id 1) ''ann'' For 1, VoteStep (proposal_id 1) ''ann'' For 2, VoteStep (proposal_id 1) ''bob'' For 3]"

lemma proposal_one: "proposal_id (Suc 0) = ''prop-1''"
  by (simp add: proposal_id_def show_nat.simps digit_char_def) code_simp

lemma sample_votes:
  "map (\<lambda>p. (pr_votes p For, pr_state p)) (listProposals (fst (foldl (dao_advance id (\<lambda>_. 2)) (dao_new sample_config, 0) sample_governance))) = [(4, Active)]"
  by (simp add: sample_governance_def proposal_one dao_new_def deposit_def createProposal_def sample_config_def trim_def is_space_def Let_def
    castVote_def requireProposal_def refreshState_def put_proposal_def has_voted_def inherited_names_def listProposals_def)

theorem tallies_match_voters_witness:
  "\<exists>p. listProposals (fst (foldl (dao_advance id (\<lambda>_. 2)) (dao_new sample_config, 0) sample_governance)) = [p] \<and>
     (4 :: int) = sum_list (map ((\<lambda>_. 2) \<circ> fst) (filter (\<lambda>x. snd x = For) (pr_voters p))) \<and> distinct (map fst (pr_voters p))"
proof -
  let ?r = "foldl (dao_advance id (\<lambda>_. 2)) (dao_new sample_config, 0) sample_governance"
  obtain p where p: "listProposals (fst ?r) = [p]" "pr_votes p For = 4" using sample_votes by auto
  have "?r = (fst ?r, snd ?r)" by simp
  from tallies_match_voters [OF this, of p For] p show ?thesis by auto
qed

text \<open>
  C35: The treasury is never negative and never loses or creates money: what it holds and what the
  executed proposals were paid add up to the deposits; and every executed proposal had its quorum
  and its approval.
\<close>

theorem treasury_conserved:
  assumes "foldl (dao_advance fl pw) (dao_new c, 0) es = (d, dep)"
  shows "0 \<le> da_treasury d \<and> da_treasury d + sum_list (map paid_out (listProposals d)) = dep \<and>
         (\<forall>p \<in> set (listProposals d). pr_state p = Executed \<longrightarrow> gc_quorum c \<le> total_cast p \<and> gc_approvalThreshold c \<le> approval fl p)"
proof -
  have "wf_dao fl pw c (d, dep)" using dao_run_wf [of fl pw c es] by (simp only: assms)
  then show ?thesis by (auto simp: total_paid_def listProposals_def wf_proposal_def passes_def comp_def)
qed

theorem treasury_conserved_witness:
  "let r = foldl (dao_advance id (\<lambda>_. 2)) (dao_new sample_config, 0) (sample_governance @ [ExecuteStep (proposal_id 1) 200])
   in da_treasury (fst r) + sum_list (map paid_out (listProposals (fst r))) = snd r"
  using treasury_conserved [of id "\<lambda>_. 2" sample_config "sample_governance @ [ExecuteStep (proposal_id 1) 200]"]
  by (metis prod.collapse)

text \<open>
  An executed proposal stays executed, whatever is called later: it can be neither cancelled nor
  executed, and so paid, again.
\<close>

theorem executed_proposal_final:
  assumes "foldl (dao_advance fl pw) (dao_new c, 0) es = (d, dep)" "map_of (da_proposals d) i = Some p" "pr_state p = Executed"
  shows "\<exists>q. map_of (da_proposals (fst (foldl (dao_advance fl pw) (d, dep) es'))) i = Some q \<and> pr_state q = Executed"
proof -
  have "wf_dao fl pw c (d, dep)" using dao_run_wf [of fl pw c es] by (simp only: assms(1))
  moreover have "executed_in i (d, dep)" using assms(2,3) by (simp add: executed_in_def)
  ultimately have "executed_in i (foldl (dao_advance fl pw) (d, dep) es')" by (rule executed_proposals.run_latched)
  then show ?thesis by (simp add: executed_in_def)
qed

theorem executed_proposal_final_witness:
  "let r = foldl (dao_advance id (\<lambda>_. 2)) (dao_new sample_config, 0) (sample_governance @ [ExecuteStep (proposal_id 1) 200])
   in \<exists>q. map_of (da_proposals (fst (foldl (dao_advance id (\<lambda>_. 2)) r [CancelStep ''prop-1'' ''ann'']))) ''prop-1'' = Some q \<and> pr_state q = Executed"
proof -
  let ?r = "foldl (dao_advance id (\<lambda>_. 2)) (dao_new sample_config, 0) (sample_governance @ [ExecuteStep (proposal_id 1) 200])"
  have "map_option pr_state (map_of (da_proposals (fst ?r)) ''prop-1'') = Some Executed"
    by (simp add: sample_governance_def proposal_one dao_new_def deposit_def createProposal_def sample_config_def trim_def is_space_def Let_def
      castVote_def requireProposal_def refreshState_def put_proposal_def has_voted_def inherited_names_def executeProposal_def
      passes_def total_cast_def approval_def withdraw_def falsy_def)
  then obtain p where p: "map_of (da_proposals (fst ?r)) ''prop-1'' = Some p" "pr_state p = Executed" by auto
  have "?r = (fst ?r, snd ?r)" by simp
  from executed_proposal_final [OF this p, of "[CancelStep ''prop-1'' ''ann'']"] show ?thesis unfolding Let_def by (simp only: prod.collapse)
qed

text \<open>
  An address whose name every object inherits can never vote: the look-up in the table of voters
  finds the inherited member and takes it for an earlier vote.
\<close>

theorem inherited_name_cannot_vote:
  assumes "v \<in> set inherited_names" "map_of (da_proposals d) i = Some p" "pr_state p = Active" "now < pr_endAt p"
  shows "fst (castVote fl pw i v ch now d) = Inl (HasVoted v)"
  using assms by (simp add: castVote_def requireProposal_def refreshState_def has_voted_def Let_def)

theorem inherited_name_cannot_vote_witness:
  "fst (castVote id (\<lambda>_. 5) ''p'' ''constructor'' For 0
     \<lparr>da_config = sample_config, da_proposals = [(''p'', \<lparr>pr_id = ''p'', pr_proposer = ''a'', pr_title = ''t'', pr_description = [], pr_createdAt = 0,
        pr_startAt = 0, pr_endAt = 9, pr_state = Active, pr_action = \<lparr>px_target = None, px_amount = None\<rparr>, pr_votes = (\<lambda>_. 0), pr_voters = []\<rparr>)],
      da_treasury = 0, da_counter = 0\<rparr>) = Inl (HasVoted ''constructor'')"
  by (rule inherited_name_cannot_vote, simp add: inherited_names_def, simp, simp, simp)

text \<open>The participation rate that is reported is 1 as soon as anybody has voted, and 0 before.\<close>

theorem participation_rate_constant:
  "ga_participationRate (dao_analytics d) = 0 \<or> ga_participationRate (dao_analytics d) = 1"
  by (simp add: dao_analytics_def Let_def)

end
