(* ===== verification/Deadlines.thy ===== *)
theory Deadlines
  imports Amounts
begin

text \<open>
  Deadlines: \<open>validators/deadlineValidator.ts\<close> (what the contract's 64-bit field may hold), \<open>deadline.ts\<close>
  (computing and breaking down) and \<open>deadlineEngine.ts\<close> (countdown and expiry callbacks). The clock,
  \<open>Date.parse\<close>, the local formatting of a date and the business seconds of a time zone are arguments. A
  callback does not call the engine back.
\<close>

section \<open>Validation\<close>

definition MAX_U64 :: int where "MAX_U64 = 18446744073709551615"

definition MS_TIMESTAMP_THRESHOLD :: int where "MS_TIMESTAMP_THRESHOLD = 100000000000"

text \<open>An input: a date holds its milliseconds, \<open>None\<close> for an invalid one.\<close>

datatype deadline_input =
    DMissing
  | DBig int
  | DNum js_number
  | DDate "rat option"
  | DStr string
  | DOther string

datatype deadline_error =
    DeadlineRequired
  | DeadlineNotFinite string
  | DeadlineInvalidDate
  | DeadlineEmpty
  | DeadlineBadFormat string
  | DeadlineUnsupported string
  | NotPositive int
  | ExceedsU64 int
  | NotInFuture int int
  | LeadTooShort int rat int
  | TooFarAhead int rat int

definition ms_big :: "bool \<Rightarrow> int \<Rightarrow> int" where
  "ms_big autoConvertMs v = (if autoConvertMs \<and> v \<ge> MS_TIMESTAMP_THRESHOLD then v sdiv 1000 else v)"

definition ms_num :: "bool \<Rightarrow> rat \<Rightarrow> int" where
  "ms_num autoConvertMs x = (if autoConvertMs \<and> x \<ge> of_int MS_TIMESTAMP_THRESHOLD then \<lfloor>x / 1000\<rfloor> else \<lfloor>x\<rfloor>)"

definition parseDeadline :: "(string \<Rightarrow> rat option) \<Rightarrow> deadline_input \<Rightarrow> bool \<Rightarrow> deadline_error + int" where
  "parseDeadline date_parse input autoConvertMs =
     (case input of
        DMissing \<Rightarrow> Inl DeadlineRequired
      | DBig n \<Rightarrow> Inr (ms_big autoConvertMs n)
      | DNum (NotFinite t) \<Rightarrow> Inl (DeadlineNotFinite t)
      | DNum (Finite x) \<Rightarrow> Inr (ms_num autoConvertMs x)
      | DDate None \<Rightarrow> Inl DeadlineInvalidDate
      | DDate (Some ms) \<Rightarrow> Inr \<lfloor>ms / 1000\<rfloor>
      | DStr s \<Rightarrow>
          (let t = trim s
           in if t = [] then Inl DeadlineEmpty
              else if unsigned t \<noteq> [] \<and> all_digits (unsigned t)
              then Inr (ms_big autoConvertMs (sign_of t * int (parse_digits (unsigned t))))
              else case date_parse t of Some ms \<Rightarrow> Inr \<lfloor>ms / 1000\<rfloor> | None \<Rightarrow> Inl (DeadlineBadFormat s))
      | DOther t \<Rightarrow> Inl (DeadlineUnsupported t))"

record deadline_options =
  do_referenceTime :: "deadline_input option"
  do_minLeadSeconds :: "rat option"
  do_maxFutureSeconds :: "rat option"
  do_autoConvertMs :: "bool option"

record deadline_result =
  dr_valid :: bool
  dr_errors :: "deadline_error list"
  dr_deadlineSeconds :: "int option"

text \<open>\<open>BigInt\<close> of a number with a fraction, or of an invalid date, throws a \<open>RangeError\<close>: \<open>None\<close>.\<close>

definition toReferenceSeconds :: "rat \<Rightarrow> deadline_input option \<Rightarrow> bool \<Rightarrow> int option" where
  "toReferenceSeconds nowMs ref autoConvertMs =
     (case ref of
        Some (DDate d) \<Rightarrow> map_option (\<lambda>ms. \<lfloor>ms / 1000\<rfloor>) d
      | Some (DBig n) \<Rightarrow> Some (ms_big autoConvertMs n)
      | Some (DNum (Finite x)) \<Rightarrow> Some (ms_num autoConvertMs x)
      | _ \<Rightarrow> Some \<lfloor>nowMs / 1000\<rfloor>)"

definition big_of_num :: "rat \<Rightarrow> int option" where
  "big_of_num x = (if x = of_int \<lfloor>x\<rfloor> then Some \<lfloor>x\<rfloor> else None)"

definition lead_errors :: "int \<Rightarrow> int \<Rightarrow> rat \<Rightarrow> deadline_error list option" where
  "lead_errors parsed refSec minLead =
     (if minLead > 0
      then map_option (\<lambda>m. if parsed < refSec + m then [LeadTooShort parsed minLead (refSec + m)] else []) (big_of_num minLead)
      else Some [])"

definition future_errors :: "int \<Rightarrow> int \<Rightarrow> rat option \<Rightarrow> deadline_error list option" where
  "future_errors parsed refSec maxFuture =
     (case maxFuture of
        Some f \<Rightarrow> if f > 0
          then map_option (\<lambda>m. if parsed > refSec + m then [TooFarAhead parsed f (refSec + m)] else []) (big_of_num f)
          else Some []
      | None \<Rightarrow> Some [])"

definition validateDeadline ::
  "(string \<Rightarrow> rat option) \<Rightarrow> rat \<Rightarrow> deadline_input \<Rightarrow> deadline_options \<Rightarrow> deadline_result option" where
  "validateDeadline date_parse nowMs deadline opts =
     (let autoConvertMs = opt_or (do_autoConvertMs opts) True
      in case parseDeadline date_parse deadline autoConvertMs of
        Inl e \<Rightarrow> Some \<lparr>dr_valid = False, dr_errors = [e], dr_deadlineSeconds = None\<rparr>
      | Inr parsed \<Rightarrow>
          let e1 = (if parsed \<le> 0 then [NotPositive parsed] else []);
              e2 = (if parsed > MAX_U64 then [ExceedsU64 parsed] else [])
          in case toReferenceSeconds nowMs (do_referenceTime opts) autoConvertMs of
            None \<Rightarrow> None
          | Some refSec \<Rightarrow>
              (case (if parsed \<le> refSec then Some [NotInFuture parsed refSec]
                     else case lead_errors parsed refSec (opt_or (do_minLeadSeconds opts) 0) of
                        None \<Rightarrow> None
                      | Some e4 \<Rightarrow> map_option (\<lambda>e5. e4 @ e5) (future_errors parsed refSec (do_maxFutureSeconds opts))) of
                 None \<Rightarrow> None
               | Some e3 \<Rightarrow>
                   let errors = e1 @ e2 @ e3
                   in Some \<lparr>dr_valid = (errors = []), dr_errors = errors,
                           dr_deadlineSeconds = (if errors = [] then Some parsed else None)\<rparr>))"

text \<open>The errors thrown, \<open>None\<close> for the \<open>RangeError\<close>.\<close>

definition validateDeadlineOrThrow ::
  "(string \<Rightarrow> rat option) \<Rightarrow> rat \<Rightarrow> deadline_input \<Rightarrow> deadline_options \<Rightarrow> deadline_error list option + int" where
  "validateDeadlineOrThrow date_parse nowMs deadline opts =
     (case validateDeadline date_parse nowMs deadline opts of
        None \<Rightarrow> Inl None
      | Some r \<Rightarrow> (case dr_deadlineSeconds r of
                    Some n \<Rightarrow> if dr_valid r then Inr n else Inl (Some (dr_errors r))
                  | None \<Rightarrow> Inl (Some (dr_errors r))))"

definition isFutureDeadline :: "(string \<Rightarrow> rat option) \<Rightarrow> rat \<Rightarrow> deadline_input \<Rightarrow> rat option \<Rightarrow> deadline_input option \<Rightarrow> bool option" where
  "isFutureDeadline date_parse nowMs deadline minLead ref =
     map_option dr_valid (validateDeadline date_parse nowMs deadline
       \<lparr>do_referenceTime = ref, do_minLeadSeconds = Some (opt_or minLead 0), do_maxFutureSeconds = None, do_autoConvertMs = None\<rparr>)"

definition merged_deadline_options :: "deadline_options \<Rightarrow> deadline_options \<Rightarrow> deadline_options" where
  "merged_deadline_options d opts =
     \<lparr>do_referenceTime = over (do_referenceTime opts) (do_referenceTime d),
      do_minLeadSeconds = over (do_minLeadSeconds opts) (do_minLeadSeconds d),
      do_maxFutureSeconds = over (do_maxFutureSeconds opts) (do_maxFutureSeconds d),
      do_autoConvertMs = over (do_autoConvertMs opts) (do_autoConvertMs d)\<rparr>"

definition deadline_validator_validate ::
  "(string \<Rightarrow> rat option) \<Rightarrow> rat \<Rightarrow> deadline_options \<Rightarrow> deadline_input \<Rightarrow> deadline_options \<Rightarrow> deadline_result option" where
  "deadline_validator_validate date_parse nowMs defaults deadline opts =
     validateDeadline date_parse nowMs deadline (merged_deadline_options defaults opts)"

section \<open>Computing deadlines\<close>

record deadline_remaining =
  rm_days :: int
  rm_hours :: int
  rm_minutes :: int
  rm_seconds :: int
  rm_expired :: bool

definition nowSeconds :: "rat \<Rightarrow> int" where "nowSeconds nowMs = \<lfloor>nowMs / 1000\<rfloor>"

text \<open>\<open>None\<close>: a \<open>ValidationError\<close>.\<close>

definition deadline_from_days :: "rat \<Rightarrow> js_number \<Rightarrow> int option" where
  "deadline_from_days nowMs n =
     (case n of NotFinite t \<Rightarrow> None | Finite x \<Rightarrow> Some (nowSeconds nowMs + \<lceil>x * 86400\<rceil>))"

definition deadlineFromDate :: "rat option \<Rightarrow> int option" where
  "deadlineFromDate ms = map_option (\<lambda>m. \<lfloor>m / 1000\<rfloor>) ms"

definition isDeadlineValid :: "rat \<Rightarrow> int \<Rightarrow> bool" where
  "isDeadlineValid nowMs deadline \<longleftrightarrow> deadline - nowSeconds nowMs \<ge> 3600"

definition timeUntilDeadline :: "rat \<Rightarrow> int \<Rightarrow> deadline_remaining" where
  "timeUntilDeadline nowMs deadline =
     (let diff = deadline - nowSeconds nowMs
      in if diff \<le> 0 then \<lparr>rm_days = 0, rm_hours = 0, rm_minutes = 0, rm_seconds = 0, rm_expired = True\<rparr>
         else \<lparr>rm_days = diff sdiv 86400, rm_hours = (diff smod 86400) sdiv 3600,
               rm_minutes = (diff smod 3600) sdiv 60, rm_seconds = diff smod 60, rm_expired = False\<rparr>)"

definition formatDeadline :: "(int \<Rightarrow> string) \<Rightarrow> int \<Rightarrow> string option" where
  "formatDeadline format_utc deadline =
     (let ms = deadline * 1000 in if \<bar>ms\<bar> > 8640000000000000 then None else Some (format_utc ms))"

section \<open>Countdown\<close>

definition formatHMS :: "rat \<Rightarrow> bool \<Rightarrow> string" where
  "formatHMS totalSeconds expired =
     (let s = max 0 \<lfloor>totalSeconds\<rfloor>; h = s div 3600; m = s mod 3600 div 60; sec = s mod 60
      in if expired then ''Expired''
         else if h > 0 then show_int h @ ''h '' @ show_int m @ ''m '' @ show_int sec @ ''s''
         else if m > 0 then show_int m @ ''m '' @ show_int sec @ ''s''
         else show_int sec @ ''s'')"

definition isBusinessDay :: "int \<Rightarrow> int list \<Rightarrow> bool" where
  "isBusinessDay d days \<longleftrightarrow> d \<in> set days"

definition isBusinessHour :: "int \<Rightarrow> int \<Rightarrow> int \<Rightarrow> bool" where
  "isBusinessHour hour b_start b_end =
     (if b_start = b_end then False
      else if b_start < b_end then hour \<ge> b_start \<and> hour < b_end
      else hour \<ge> b_start \<or> hour < b_end)"

record countdown_result =
  cr_expired :: bool
  cr_display :: string
  cr_secondsRemaining :: int
  cr_localDisplay :: string

text \<open>\<open>business\<close>: the business seconds in the zone asked for and in the local zone, where business hours are given.\<close>

definition getCountdown :: "(int \<Rightarrow> int \<Rightarrow> int \<times> int) option \<Rightarrow> rat \<Rightarrow> int \<Rightarrow> countdown_result" where
  "getCountdown business nowMs deadline =
     (let nowS = nowSeconds nowMs; expired = (nowS > deadline); raw = max 0 (deadline - nowS);
          (remaining, local_remaining) = (case business of None \<Rightarrow> (raw, raw) | Some b \<Rightarrow> b (nowS * 1000) (deadline * 1000));
          over = (expired \<or> raw \<le> 0)
      in \<lparr>cr_expired = expired, cr_display = formatHMS (of_int remaining) over, cr_secondsRemaining = remaining,
          cr_localDisplay = formatHMS (of_int local_remaining) over\<rparr>)"

section \<open>Expiry callbacks\<close>

type_synonym callback = "string \<times> nat"

record deadline_engine =
  de_interval :: bool
  de_destroyed :: bool
  de_buckets :: "(int \<times> callback list) list"

definition deadline_engine_new :: deadline_engine where
  "deadline_engine_new = \<lparr>de_interval = False, de_destroyed = False, de_buckets = []\<rparr>"

definition registerExpiryCallback :: "int \<Rightarrow> callback \<Rightarrow> deadline_engine \<Rightarrow> deadline_engine" where
  "registerExpiryCallback deadline cb e =
     (if de_destroyed e then e
      else let cbs = (case map_of (de_buckets e) deadline of Some c \<Rightarrow> c | None \<Rightarrow> [])
           in e\<lparr>de_buckets := AList.update deadline (if cb \<in> set cbs then cbs else cbs @ [cb]) (de_buckets e),
                de_interval := True\<rparr>)"

definition destroyInternal :: "deadline_engine \<Rightarrow> deadline_engine" where
  "destroyInternal e = e\<lparr>de_interval := False\<rparr>"

text \<open>The function a registration returned, called for the first time.\<close>

definition unsubscribe_expiry :: "int \<Rightarrow> callback \<Rightarrow> deadline_engine \<Rightarrow> deadline_engine" where
  "unsubscribe_expiry deadline cb e =
     (case map_of (de_buckets e) deadline of
        None \<Rightarrow> e
      | Some cbs \<Rightarrow>
          let rest = filter (\<lambda>c. c \<noteq> cb) cbs;
              e1 = e\<lparr>de_buckets := (if rest = [] then AList.delete deadline (de_buckets e)
                                    else AList.update deadline rest (de_buckets e))\<rparr>
          in if de_buckets e1 = [] then destroyInternal e1 else e1)"

text \<open>A tick calls the callbacks of every bucket that is due, in order, and drops the bucket.\<close>

definition deadline_tick :: "int \<Rightarrow> deadline_engine \<Rightarrow> deadline_engine \<times> (int \<times> callback) list" where
  "deadline_tick nowS e =
     (if de_destroyed e then (e, [])
      else let due = filter (\<lambda>(d, cbs). nowS > d \<or> nowS = d) (de_buckets e);
               e1 = e\<lparr>de_buckets := filter (\<lambda>(d, cbs). \<not> (nowS > d \<or> nowS = d)) (de_buckets e)\<rparr>
           in (if de_buckets e1 = [] then destroyInternal e1 else e1,
               concat (map (\<lambda>(d, cbs). map (\<lambda>cb. (d, cb)) cbs) due)))"

definition destroy_engine :: "deadline_engine \<Rightarrow> deadline_engine" where
  "destroy_engine e = e\<lparr>de_destroyed := True, de_buckets := [], de_interval := False\<rparr>"

definition estimateDeadlineFromLedger :: "rat \<Rightarrow> int" where
  "estimateDeadlineFromLedger closeMs = \<lfloor>closeMs / 1000\<rfloor>"

datatype deadline_event = Register int callback | Unsubscribe int callback | Tick int | Destroy

text \<open>The engine beside what was registered and what was called so far.\<close>

record deadline_run =
  dn_engine :: deadline_engine
  dn_registered :: "(int \<times> callback) list"
  dn_called :: "(int \<times> int \<times> callback) list"

fun deadline_step :: "deadline_run \<Rightarrow> deadline_event \<Rightarrow> deadline_run" where
  "deadline_step st (Register d cb) =
     st\<lparr>dn_engine := registerExpiryCallback d cb (dn_engine st), dn_registered := dn_registered st @ [(d, cb)]\<rparr>"
| "deadline_step st (Unsubscribe d cb) = st\<lparr>dn_engine := unsubscribe_expiry d cb (dn_engine st)\<rparr>"
| "deadline_step st (Tick t) =
     (if de_interval (dn_engine st)
      then let (e, called) = deadline_tick t (dn_engine st)
           in st\<lparr>dn_engine := e, dn_called := dn_called st @ map (\<lambda>c. (t, c)) called\<rparr>
      else st)"
| "deadline_step st Destroy = st\<lparr>dn_engine := destroy_engine (dn_engine st)\<rparr>"

definition deadline_start :: deadline_run where
  "deadline_start = \<lparr>dn_engine = deadline_engine_new, dn_registered = [], dn_called = []\<rparr>"

text \<open>The callbacks an engine holds, with their deadlines.\<close>

definition held :: "deadline_engine \<Rightarrow> (int \<times> callback) list" where
  "held e = concat (map (\<lambda>(d, cbs). map (\<lambda>cb. (d, cb)) cbs) (de_buckets e))"

section \<open>Lemmas\<close>

definition engine_ok :: "deadline_engine \<Rightarrow> bool" where
  "engine_ok e \<longleftrightarrow> distinct (map fst (de_buckets e)) \<and> (\<forall>(d, cbs) \<in> set (de_buckets e). cbs \<noteq> [] \<and> distinct cbs) \<and>
     (de_interval e \<longleftrightarrow> de_buckets e \<noteq> []) \<and> (de_destroyed e \<longrightarrow> de_buckets e = [])"

lemma engine_ok_bucket: "engine_ok e \<Longrightarrow> map_of (de_buckets e) d = Some cbs \<Longrightarrow> cbs \<noteq> [] \<and> distinct cbs"
  using map_of_SomeD by (fastforce simp: engine_ok_def)

lemma update_buckets:
  "(\<forall>(d, cbs) \<in> set m. P cbs) \<Longrightarrow> P v \<Longrightarrow> \<forall>(d, cbs) \<in> set (AList.update k v m). P cbs"
  using set_update_sub [of k v m] by fastforce

lemma register_ok: "engine_ok e \<Longrightarrow> engine_ok (registerExpiryCallback d cb e)"
proof -
  assume ok: "engine_ok e"
  define cbs where "cbs = (case map_of (de_buckets e) d of Some c \<Rightarrow> c | None \<Rightarrow> [])"
  have "distinct cbs" using engine_ok_bucket [OF ok] by (auto simp: cbs_def split: option.splits)
  then have new: "(if cb \<in> set cbs then cbs else cbs @ [cb]) \<noteq> [] \<and> distinct (if cb \<in> set cbs then cbs else cbs @ [cb])" by auto
  have ne: "AList.update d v m \<noteq> []" for v and m :: "(int \<times> callback list) list" by (cases m) auto
  show ?thesis
    using ok update_buckets [of "de_buckets e" "\<lambda>cbs. cbs \<noteq> [] \<and> distinct cbs", OF _ new, of d] ne
    by (auto simp: registerExpiryCallback_def engine_ok_def Let_def cbs_def [symmetric] distinct_fst_update)
qed

lemma unsubscribe_ok: "engine_ok e \<Longrightarrow> engine_ok (unsubscribe_expiry d cb e)"
proof (cases "map_of (de_buckets e) d")
  case (Some cbs)
  assume ok: "engine_ok e"
  have dist: "distinct (filter (\<lambda>c. c \<noteq> cb) cbs)" using engine_ok_bucket [OF ok Some] by simp
  have del: "\<forall>(d, cbs) \<in> set (AList.delete d (de_buckets e)). cbs \<noteq> [] \<and> distinct cbs"
    using ok by (auto simp: engine_ok_def AList.delete_eq)
  have ne: "AList.update d v m \<noteq> []" for v and m :: "(int \<times> callback list) list" by (cases m) auto
  have live: "\<not> de_destroyed e" "de_interval e" using ok Some by (auto simp: engine_ok_def)
  show ?thesis
  proof (cases "filter (\<lambda>c. c \<noteq> cb) cbs = []")
    case True
    then show ?thesis using ok Some del live
      by (auto simp: unsubscribe_expiry_def engine_ok_def destroyInternal_def Let_def distinct_fst_delete)
  next
    case False
    have "\<forall>(d, cbs) \<in> set (AList.update d (filter (\<lambda>c. c \<noteq> cb) cbs) (de_buckets e)). cbs \<noteq> [] \<and> distinct cbs"
      using ok False dist by (intro update_buckets) (auto simp: engine_ok_def)
    then show ?thesis using ok Some False ne live
      by (simp add: unsubscribe_expiry_def engine_ok_def destroyInternal_def Let_def distinct_fst_update)
  qed
qed (simp add: unsubscribe_expiry_def)

lemma tick_ok: "engine_ok e \<Longrightarrow> de_interval e \<Longrightarrow> engine_ok (fst (deadline_tick t e))"
  by (auto simp: deadline_tick_def engine_ok_def destroyInternal_def Let_def distinct_map_filter)

interpretation deadline_machine: machine deadline_step "\<lambda>st :: deadline_run. engine_ok (dn_engine st)"
proof (unfold_locales)
  fix st :: deadline_run and e assume ok: "engine_ok (dn_engine st)"
  show "engine_ok (dn_engine (deadline_step st e))"
  proof (cases e)
    case (Register d cb)
    then show ?thesis by (simp add: register_ok [OF ok])
  next
    case (Unsubscribe d cb)
    then show ?thesis by (simp add: unsubscribe_ok [OF ok])
  next
    case (Tick t)
    obtain e' called where k: "deadline_tick t (dn_engine st) = (e', called)" by fastforce
    show ?thesis
    proof (cases "de_interval (dn_engine st)")
      case True
      then show ?thesis using Tick k tick_ok [OF ok True, of t] by simp
    qed (use Tick ok in simp)
  next
    case Destroy
    then show ?thesis by (simp add: destroy_engine_def engine_ok_def)
  qed
qed

section \<open>Each callback once, and not before its deadline\<close>

lemma held_update:
  "distinct (map fst m) \<Longrightarrow> mset (concat (map (\<lambda>(d, cbs). map (\<lambda>cb. (d, cb)) cbs) (AList.update k v m))) +
    mset (map (\<lambda>cb. (k, cb)) (case map_of m k of Some c \<Rightarrow> c | None \<Rightarrow> [])) =
   mset (concat (map (\<lambda>(d, cbs). map (\<lambda>cb. (d, cb)) cbs) m)) + mset (map (\<lambda>cb. (k, cb)) v)"
proof (induction m)
  case (Cons p m)
  obtain d cbs where p: "p = (d, cbs)" by (cases p)
  show ?case
  proof (cases "d = k")
    case True
    then show ?thesis using Cons.prems by (simp add: p ac_simps)
  next
    case False
    then show ?thesis using Cons by (simp add: p ac_simps)
  qed
qed simp

lemma held_register:
  assumes "engine_ok e"
  shows "mset (held (registerExpiryCallback d cb e)) \<subseteq># mset (held e) + {#(d, cb)#}"
proof (cases "de_destroyed e")
  case False
  define cbs where "cbs = (case map_of (de_buckets e) d of Some c \<Rightarrow> c | None \<Rightarrow> [])"
  define v where "v = (if cb \<in> set cbs then cbs else cbs @ [cb])"
  have dist: "distinct (map fst (de_buckets e))" using assms by (simp add: engine_ok_def)
  have "mset (held (registerExpiryCallback d cb e)) + mset (map (\<lambda>cb. (d, cb)) cbs) = mset (held e) + mset (map (\<lambda>cb. (d, cb)) v)"
  proof -
    have "de_buckets (registerExpiryCallback d cb e) = AList.update d v (de_buckets e)"
      unfolding registerExpiryCallback_def Let_def cbs_def [symmetric] v_def [symmetric] using False by simp
    then show ?thesis using held_update [OF dist, of d v] unfolding held_def cbs_def [symmetric] by (simp only:)
  qed
  moreover have "mset (map (\<lambda>cb. (d, cb)) v) \<subseteq># mset (map (\<lambda>cb. (d, cb)) cbs) + {#(d, cb)#}" by (simp add: v_def)
  ultimately have "mset (held (registerExpiryCallback d cb e)) + mset (map (\<lambda>cb. (d, cb)) cbs) \<subseteq>#
      (mset (held e) + {#(d, cb)#}) + mset (map (\<lambda>cb. (d, cb)) cbs)" by (simp add: ac_simps)
  then show ?thesis by (rule mset_subset_eq_mono_add_right_cancel [THEN iffD1])
qed (simp add: registerExpiryCallback_def)

lemma held_delete:
  "mset (concat (map (\<lambda>(d, cbs). map (\<lambda>cb. (d, cb)) cbs) (AList.delete k m))) \<subseteq># mset (concat (map (\<lambda>(d, cbs). map (\<lambda>cb. (d, cb)) cbs) m))"
  by (induction m) (auto intro: subset_mset.add_increasing subset_mset.add_mono)

lemma held_unsubscribe:
  assumes "engine_ok e" shows "mset (held (unsubscribe_expiry d cb e)) \<subseteq># mset (held e)"
proof (cases "map_of (de_buckets e) d")
  case (Some cbs)
  define v where "v = filter (\<lambda>c. c \<noteq> cb) cbs"
  have dist: "distinct (map fst (de_buckets e))" using assms by (simp add: engine_ok_def)
  have "mset v \<subseteq># mset cbs" by (simp add: v_def)
  then have "mset (map (\<lambda>cb. (d, cb)) v) \<subseteq># mset (map (\<lambda>cb. (d, cb)) cbs)" by (simp add: image_mset_subseteq_mono)
  then have "mset (concat (map (\<lambda>(d, cbs). map (\<lambda>cb. (d, cb)) cbs) (AList.update d v (de_buckets e)))) + mset (map (\<lambda>cb. (d, cb)) cbs) \<subseteq>#
      mset (held e) + mset (map (\<lambda>cb. (d, cb)) cbs)"
    using held_update [OF dist, of d v] Some by (simp add: held_def)
  then have "mset (concat (map (\<lambda>(d, cbs). map (\<lambda>cb. (d, cb)) cbs) (AList.update d v (de_buckets e)))) \<subseteq># mset (held e)"
    by (rule mset_subset_eq_mono_add_right_cancel [THEN iffD1])
  then show ?thesis using Some held_delete [of d "de_buckets e"]
    by (simp add: unsubscribe_expiry_def held_def destroyInternal_def Let_def v_def [symmetric])
qed (simp add: unsubscribe_expiry_def)

lemma held_tick:
  assumes "deadline_tick t e = (e', called)" "\<not> de_destroyed e"
  shows "mset called + mset (held e') = mset (held e) \<and> set called = {c \<in> set (held e). fst c \<le> t}"
proof -
  have part: "mset (concat (map f (filter P m))) + mset (concat (map f (filter (\<lambda>x. \<not> P x) m))) = mset (concat (map f m))"
    for f :: "int \<times> callback list \<Rightarrow> (int \<times> callback) list" and P m by (induction m) auto
  have b: "de_buckets e' = filter (\<lambda>(d, cbs). \<not> (t > d \<or> t = d)) (de_buckets e)"
    "called = concat (map (\<lambda>(d, cbs). map (\<lambda>cb. (d, cb)) cbs) (filter (\<lambda>(d, cbs). t > d \<or> t = d) (de_buckets e)))"
    using assms by (auto simp: deadline_tick_def destroyInternal_def Let_def split: if_splits)
  have "(\<lambda>x. \<not> (\<lambda>(d, cbs). t > d \<or> t = d) x) = (\<lambda>(d, cbs :: callback list). \<not> (t > d \<or> t = d))" by auto
  then have "mset called + mset (held e') = mset (held e)"
    using part [of "\<lambda>(d, cbs). map (\<lambda>cb. (d, cb)) cbs" "\<lambda>(d, cbs). t > d \<or> t = d" "de_buckets e"] by (simp add: b held_def)
  moreover have "set called = {c \<in> set (held e). fst c \<le> t}" unfolding b(2) held_def by (auto simp: order_le_less)
  ultimately show ?thesis by blast
qed

text \<open>What was called or is still held was registered, and nothing was called early.\<close>

definition run_ok :: "deadline_run \<Rightarrow> bool" where
  "run_ok st \<longleftrightarrow> engine_ok (dn_engine st) \<and>
     mset (map snd (dn_called st)) + mset (held (dn_engine st)) \<subseteq># mset (dn_registered st) \<and>
     (\<forall>(t, d, cb) \<in> set (dn_called st). d \<le> t)"

lemma run_ok_step: "run_ok st \<Longrightarrow> run_ok (deadline_step st e)"
proof -
  assume ok: "run_ok st"
  then have eng: "engine_ok (dn_engine st)" and sub: "mset (map snd (dn_called st)) + mset (held (dn_engine st)) \<subseteq># mset (dn_registered st)"
    and early: "\<forall>(t, d, cb) \<in> set (dn_called st). d \<le> t" by (auto simp: run_ok_def)
  have eng': "engine_ok (dn_engine (deadline_step st e))" by (rule deadline_machine.step_inv [OF eng])
  show ?thesis
  proof (cases e)
    case (Register d cb)
    have "mset (map snd (dn_called st)) + mset (held (registerExpiryCallback d cb (dn_engine st))) \<subseteq>#
        (mset (map snd (dn_called st)) + mset (held (dn_engine st))) + {#(d, cb)#}"
      using held_register [OF eng, of d cb] by (simp add: union_assoc)
    also have "\<dots> \<subseteq># mset (dn_registered st) + {#(d, cb)#}" using sub by simp
    finally show ?thesis using eng' early Register by (simp add: run_ok_def)
  next
    case (Unsubscribe d cb)
    have "mset (map snd (dn_called st)) + mset (held (unsubscribe_expiry d cb (dn_engine st))) \<subseteq># mset (dn_registered st)"
      using held_unsubscribe [OF eng, of d cb] sub by (meson subset_mset.add_left_mono subset_mset.order_trans)
    then show ?thesis using eng' early Unsubscribe by (simp add: run_ok_def)
  next
    case (Tick t)
    show ?thesis
    proof (cases "de_interval (dn_engine st)")
      case True
      then have live: "\<not> de_destroyed (dn_engine st)" using eng by (auto simp: engine_ok_def)
      obtain e' called where k: "deadline_tick t (dn_engine st) = (e', called)" by fastforce
      have h: "mset called + mset (held e') = mset (held (dn_engine st))" "set called = {c \<in> set (held (dn_engine st)). fst c \<le> t}"
        using held_tick [OF k live] by blast+
      have "mset (map snd (dn_called st @ map (\<lambda>c. (t, c)) called)) + mset (held e') =
          mset (map snd (dn_called st)) + mset (held (dn_engine st))"
        using h(1) by (simp add: o_def union_assoc)
      moreover have "\<forall>c \<in> set called. fst c \<le> t" using h(2) by blast
      moreover have s': "deadline_step st e = st\<lparr>dn_engine := e', dn_called := dn_called st @ map (\<lambda>c. (t, c)) called\<rparr>"
        using Tick True k by simp
      ultimately show ?thesis
        using eng' early sub unfolding run_ok_def s' by (auto simp del: map_append mset_append)
    qed (use ok Tick in simp)
  next
    case Destroy
    have "mset (map snd (dn_called st)) \<subseteq># mset (dn_registered st)"
      using sub by (meson mset_subset_eq_add_left subset_mset.order_trans)
    then show ?thesis using eng' early Destroy by (simp add: run_ok_def destroy_engine_def held_def)
  qed
qed

interpretation expiry_machine: machine deadline_step run_ok
  by unfold_locales (rule run_ok_step)

text \<open>
  C: a callback is called at most once per registration and never before its deadline, whatever the order of
  registrations, cancellations and ticks; and a tick calls every callback then held whose deadline has come.
\<close>

theorem callbacks_once_and_not_early:
  assumes "st = foldl deadline_step deadline_start evs"
  shows "mset (map snd (dn_called st)) \<subseteq># mset (dn_registered st) \<and>
    (\<forall>(t, d, cb) \<in> set (dn_called st). d \<le> t) \<and>
    (\<forall>c \<in> set (held (dn_engine st)). fst c \<le> t \<longrightarrow> (t, c) \<in> set (dn_called (deadline_step st (Tick t))))"
proof -
  have "run_ok deadline_start" by (simp add: run_ok_def deadline_start_def deadline_engine_new_def engine_ok_def held_def)
  then have ok: "run_ok st" unfolding assms by (rule expiry_machine.run_inv)
  then have sub: "mset (map snd (dn_called st)) + mset (held (dn_engine st)) \<subseteq># mset (dn_registered st)"
    and eng: "engine_ok (dn_engine st)" by (simp_all add: run_ok_def)
  have "(t, c) \<in> set (dn_called (deadline_step st (Tick t)))" if c: "c \<in> set (held (dn_engine st))" "fst c \<le> t" for c
  proof -
    have iv: "de_interval (dn_engine st)" using c(1) eng by (auto simp: engine_ok_def held_def)
    then have live: "\<not> de_destroyed (dn_engine st)" using eng by (auto simp: engine_ok_def)
    obtain e' called where k: "deadline_tick t (dn_engine st) = (e', called)" by fastforce
    have "c \<in> set called" using held_tick [OF k live] c by simp
    then show ?thesis using iv k by simp
  qed
  then show ?thesis using ok sub by (auto simp: run_ok_def intro: subset_mset.order_trans [OF mset_subset_eq_add_left])
qed

theorem callbacks_once_and_not_early_witness:
  "(5, 3, ''inv'', 1) \<in> set (dn_called (deadline_step (foldl deadline_step deadline_start [Register 3 (''inv'', 1)]) (Tick 5)))"
proof -
  define st where "st = foldl deadline_step deadline_start [Register 3 (''inv'', 1)]"
  have "(3, ''inv'', 1) \<in> set (held (dn_engine st))"
    by (simp add: st_def deadline_start_def deadline_engine_new_def registerExpiryCallback_def held_def)
  then show ?thesis using callbacks_once_and_not_early [OF st_def, of 5] unfolding st_def by fastforce
qed

section \<open>What the validator accepts\<close>

lemma big_num_Some: "big_of_num x = Some n \<Longrightarrow> of_int n = x"
  by (auto simp: big_of_num_def split: if_splits)

lemma lead_ok: "lead_errors p r m = Some [] \<Longrightarrow> of_int r + m \<le> (of_int p :: rat) \<or> m \<le> 0"
  by (auto simp: lead_errors_def not_less dest!: big_num_Some split: if_splits)

lemma future_ok: "future_errors p r (Some f) = Some [] \<Longrightarrow> (of_int p :: rat) \<le> of_int r + f \<or> f \<le> 0"
  by (auto simp: future_errors_def not_less dest!: big_num_Some split: if_splits)

lemma fits_u64: "0 < n \<Longrightarrow> n \<le> MAX_U64 \<Longrightarrow> uint (word_of_int n :: 64 word) = n"
  by (simp add: MAX_U64_def uint_word_of_int_eq take_bit_int_eq_self)

text \<open>
  C: an accepted deadline is one the contract can hold and meet: it is a positive 64-bit number (converting it
  loses nothing), later than the reference time, by at least the lead asked for and by at most the longest
  time allowed.
\<close>

theorem accepted_deadline_sound:
  assumes "validateDeadline date_parse nowMs input opts = Some res" "dr_valid res"
  shows "\<exists>n r. dr_deadlineSeconds res = Some n \<and> parseDeadline date_parse input (opt_or (do_autoConvertMs opts) True) = Inr n \<and>
    toReferenceSeconds nowMs (do_referenceTime opts) (opt_or (do_autoConvertMs opts) True) = Some r \<and>
    uint (word_of_int n :: 64 word) = n \<and> r < n \<and>
    (\<forall>m. do_minLeadSeconds opts = Some m \<and> 0 < m \<longrightarrow> of_int r + m \<le> (of_int n :: rat)) \<and>
    (\<forall>f. do_maxFutureSeconds opts = Some f \<and> 0 < f \<longrightarrow> (of_int n :: rat) \<le> of_int r + f)"
proof -
  obtain n where n: "parseDeadline date_parse input (opt_or (do_autoConvertMs opts) True) = Inr n"
    using assms by (cases "parseDeadline date_parse input (opt_or (do_autoConvertMs opts) True)")
      (auto simp: validateDeadline_def Let_def)
  obtain r where r: "toReferenceSeconds nowMs (do_referenceTime opts) (opt_or (do_autoConvertMs opts) True) = Some r"
    using assms(1) n by (auto simp: validateDeadline_def Let_def split: option.splits)
  have later: "r < n"
    using assms n r by (auto simp: validateDeadline_def Let_def split: if_splits option.splits)
  then obtain e4 e5 where e: "lead_errors n r (opt_or (do_minLeadSeconds opts) 0) = Some e4"
    "future_errors n r (do_maxFutureSeconds opts) = Some e5"
    using assms(1) n r by (auto simp: validateDeadline_def Let_def split: option.splits)
  have fields: "\<not> n \<le> 0 \<and> \<not> n > MAX_U64 \<and> e4 = [] \<and> e5 = [] \<and> dr_deadlineSeconds res = Some n"
    using assms n r e later by (auto simp: validateDeadline_def Let_def split: if_splits)
  have "of_int r + m \<le> (of_int n :: rat)" if "do_minLeadSeconds opts = Some m" "0 < m" for m
    using lead_ok [of n r m] e(1) fields that by (simp add: opt_or_def)
  moreover have "(of_int n :: rat) \<le> of_int r + f" if "do_maxFutureSeconds opts = Some f" "0 < f" for f
    using future_ok [of n r f] e(2) fields that by simp
  ultimately show ?thesis using n r later fields fits_u64 [of n] by (intro exI [of _ n] exI [of _ r]) auto
qed

theorem accepted_deadline_sound_witness:
  "\<exists>n. dr_deadlineSeconds (the (validateDeadline (\<lambda>_. None) 5000 (DBig 9)
      \<lparr>do_referenceTime = None, do_minLeadSeconds = Some 2, do_maxFutureSeconds = None, do_autoConvertMs = None\<rparr>)) = Some n \<and>
    (7 :: rat) \<le> of_int n"
proof -
  define opts where "opts = \<lparr>do_referenceTime = None, do_minLeadSeconds = Some (2 :: rat), do_maxFutureSeconds = None, do_autoConvertMs = None\<rparr>"
  define res where "res = \<lparr>dr_valid = True, dr_errors = [], dr_deadlineSeconds = Some 9\<rparr>"
  have two: "big_of_num 2 = Some 2" by (simp add: big_of_num_def)
  have v: "validateDeadline (\<lambda>_. None) 5000 (DBig 9) opts = Some res"
    by (simp add: validateDeadline_def parseDeadline_def toReferenceSeconds_def ms_big_def opt_or_def lead_errors_def
        future_errors_def two opts_def res_def MS_TIMESTAMP_THRESHOLD_def MAX_U64_def)
  have ok: "dr_valid res" by (simp add: res_def)
  obtain n r where "dr_deadlineSeconds res = Some n" "toReferenceSeconds 5000 None True = Some r"
    "of_int r + 2 \<le> (of_int n :: rat)"
    using accepted_deadline_sound [OF v ok] by (auto simp: opts_def opt_or_def)
  then show ?thesis using v by (auto simp: toReferenceSeconds_def opts_def)
qed

section \<open>Breaking down the time left\<close>

lemma unit_ranges:
  fixes b c :: int
  assumes "b * 3600 + y = x" "c * 60 + s = y" "0 \<le> x" "x < 86400" "0 \<le> y" "y < 3600" "0 \<le> s" "s < 60"
  shows "0 \<le> b \<and> b \<le> 23 \<and> 0 \<le> c \<and> c \<le> 59"
  using assms by linarith

lemma time_left_exact:
  assumes "timeUntilDeadline nowMs deadline = r" "nowSeconds nowMs < deadline"
  shows "rm_days r * 86400 + rm_hours r * 3600 + rm_minutes r * 60 + rm_seconds r = deadline - nowSeconds nowMs \<and>
    0 \<le> rm_days r \<and> 0 \<le> rm_hours r \<and> rm_hours r \<le> 23 \<and> 0 \<le> rm_minutes r \<and> rm_minutes r \<le> 59 \<and>
    0 \<le> rm_seconds r \<and> rm_seconds r < 60 \<and> \<not> rm_expired r"
proof -
  define d where "d = deadline - nowSeconds nowMs"
  define x y s where "x = d mod 86400" and "y = d mod 3600" and "s = d mod 60"
  define a b c where "a = d div 86400" and "b = x div 3600" and "c = y div 60"
  have d: "0 < d" using assms(2) by (simp add: d_def)
  have "d smod 86400 = x" "d smod 3600 = y" "d smod 60 = s" "d sdiv 86400 = a"
    using d by (simp_all add: x_def y_def s_def a_def smod_nonneg sdiv_nonneg)
  moreover have bounds: "0 \<le> x" "x < 86400" "0 \<le> y" "y < 3600" "0 \<le> s" "s < 60" by (simp_all add: x_def y_def s_def)
  moreover from this have "x sdiv 3600 = b" "y sdiv 60 = c" by (simp_all add: b_def c_def sdiv_nonneg)
  ultimately have "timeUntilDeadline nowMs deadline =
      \<lparr>rm_days = a, rm_hours = b, rm_minutes = c, rm_seconds = s, rm_expired = False\<rparr>"
    using d unfolding timeUntilDeadline_def Let_def d_def [symmetric] by simp
  then have r: "r = \<lparr>rm_days = a, rm_hours = b, rm_minutes = c, rm_seconds = s, rm_expired = False\<rparr>" using assms(1) by simp
  have xy: "x mod 3600 = y" "y mod 60 = s" unfolding x_def y_def s_def by (rule mod_mod_cancel, simp)+
  have eqs: "a * 86400 + x = d" "b * 3600 + y = x" "c * 60 + s = y"
    using div_mult_mod_eq [of d 86400] div_mult_mod_eq [of x 3600] div_mult_mod_eq [of y 60]
    unfolding xy a_def [symmetric] b_def [symmetric] c_def [symmetric] x_def [symmetric] by (simp_all only:)
  have "0 \<le> a" using d by (simp add: a_def pos_imp_zdiv_nonneg_iff)
  moreover have "a * 86400 + b * 3600 + c * 60 + s = d" using eqs by linarith
  ultimately show ?thesis
    using unit_ranges [OF eqs(2,3) bounds] bounds(5,6) unfolding d_def [symmetric] r by (simp only: deadline_remaining.simps simp_thms)
qed

section \<open>Behaviour worth knowing\<close>

lemma fractional_lead_throws:
  "validateDeadline date_parse 0 (DBig 9)
    \<lparr>do_referenceTime = None, do_minLeadSeconds = Some (3 / 2), do_maxFutureSeconds = None, do_autoConvertMs = None\<rparr> = None"
proof -
  have "\<lfloor>3 / 2 :: rat\<rfloor> = 1" by (simp add: floor_eq_iff)
  then have "big_of_num (3 / 2) = None" by (simp add: big_of_num_def)
  then show ?thesis
    by (simp add: validateDeadline_def parseDeadline_def toReferenceSeconds_def ms_big_def opt_or_def lead_errors_def
        MS_TIMESTAMP_THRESHOLD_def)
qed

lemma expired_at_its_second: "cr_expired (getCountdown None 5000 5) = False \<and> cr_display (getCountdown None 5000 5) = ''Expired''"
  by (simp add: getCountdown_def nowSeconds_def formatHMS_def Let_def)

end
