(* ===== verification/Dependency_Graph.thy ===== *)
theory Dependency_Graph
  imports Invoice_State
begin

text \<open>
  The dependencies between invoices: \<open>dependencyGraphValidator.ts\<close>, a depth-first search for cycles
  in the graph of \<open>prerequisites\<close>, and \<open>prerequisiteChain.ts\<close>, which follows \<open>prerequisite_id\<close> from
  invoice to invoice. The search is proved to report a cycle exactly when there is one, the chain
  to be exact up to its depth limit. The client that fetches an invoice is an argument.
\<close>

section \<open>The validator\<close>

datatype dependency_error = MissingNodeError "string list"

record validation_result =
  vr_valid :: bool
  vr_cycles :: "string list list"
  vr_warnings :: "string list"

type_synonym adjacency = "(string \<times> string list) list"

definition deps_of :: "adjacency \<Rightarrow> string \<Rightarrow> string list" where
  "deps_of adj n = (case map_of adj n of None \<Rightarrow> [] | Some ds \<Rightarrow> ds)"

definition prerequisites_of :: "invoice \<Rightarrow> string list" where
  "prerequisites_of i = (case inv_prerequisites i of None \<Rightarrow> [] | Some ps \<Rightarrow> ps)"

definition unknown_warning :: "invoice \<Rightarrow> string \<Rightarrow> string" where
  "unknown_warning i pre =
     ''Invoice '' @ [CHR 0x22] @ inv_id i @ [CHR 0x22] @ '' references unknown prerequisite '' @ [CHR 0x22] @ pre @ [CHR 0x22]"

text \<open>One pass of the first loop: the adjacency, the warnings and the missing nodes.\<close>

definition add_invoice ::
    "string list \<Rightarrow> adjacency \<times> string list \<times> string list \<Rightarrow> invoice \<Rightarrow> adjacency \<times> string list \<times> string list" where
  "add_invoice ids st i =
     (case st of (adj, warnings, missing) \<Rightarrow>
        let ps = prerequisites_of i; bad = filter (\<lambda>p. p \<notin> set ids) ps
        in (AList.update (inv_id i) (filter (\<lambda>p. p \<in> set ids) ps) adj, warnings @ map (unknown_warning i) bad,
            foldl (\<lambda>m p. set_add p m) missing bad))"

record dfs_state =
  ds_visited :: "string list"
  ds_cycles :: "string list list"

text \<open>
  \<open>dfs\<close> over the neighbours that are left. \<open>path\<close> is the list the code pushes to and pops from; the
  set \<open>onStack\<close> holds its elements. \<open>path.slice(path.indexOf(n))\<close> drops what comes before \<open>n\<close>.
\<close>

function dfs :: "adjacency \<Rightarrow> string list \<Rightarrow> string list \<Rightarrow> dfs_state \<Rightarrow> dfs_state" where
  "dfs adj [] path s = s"
| "dfs adj (n # ns) path s =
     (if n \<notin> set (ds_visited s) then
        dfs adj ns path (dfs adj (deps_of adj n) (path @ [n]) (s\<lparr>ds_visited := ds_visited s @ [n]\<rparr>))
      else if n \<in> set path then
        dfs adj ns path (s\<lparr>ds_cycles := ds_cycles s @ [dropWhile (\<lambda>m. m \<noteq> n) path]\<rparr>)
      else dfs adj ns path s)"
  by pat_completeness auto

lemma dfs_visited_mono: "dfs_dom (adj, ns, path, s) \<Longrightarrow> set (ds_visited s) \<subseteq> set (ds_visited (dfs adj ns path s))"
proof (induction adj ns path s rule: dfs.pinduct)
  case (2 adj n ns path s)
  show ?case
  proof (cases "n \<in> set (ds_visited s)")
    case True with 2 show ?thesis by (simp add: dfs.psimps)
  next
    case False
    with 2(2,3) [OF False] show ?thesis by (simp add: dfs.psimps 2(1)) blast
  qed
qed (simp add: dfs.psimps)

text \<open>What can be visited at all: the names on either side of an edge. It bounds the recursion.\<close>

definition dfs_universe :: "adjacency \<Rightarrow> string set" where
  "dfs_universe adj = fst ` set adj"

lemma deps_of_outside: "n \<notin> dfs_universe adj \<Longrightarrow> deps_of adj n = []"
  by (simp add: deps_of_def dfs_universe_def map_of_eq_None_iff [symmetric])

definition unvisited :: "adjacency \<Rightarrow> dfs_state \<Rightarrow> nat" where
  "unvisited adj s = card (dfs_universe adj - set (ds_visited s))"

lemma unvisited_mono: "set (ds_visited s) \<subseteq> set (ds_visited t) \<Longrightarrow> unvisited adj t \<le> unvisited adj s"
  unfolding unvisited_def by (rule card_mono) (auto simp: dfs_universe_def)

lemma unvisited_visit:
  assumes "n \<in> dfs_universe adj" "n \<notin> set (ds_visited s)"
  shows "unvisited adj (s\<lparr>ds_visited := ds_visited s @ [n]\<rparr>) < unvisited adj s"
  unfolding unvisited_def
  by (rule psubset_card_mono) (use assms in \<open>auto simp: dfs_universe_def\<close>)

termination dfs
proof (relation "measures [\<lambda>(adj, ns, path, s). unvisited adj s, \<lambda>(adj, ns, path, s). length ns]", goal_cases)
  case (2 adj n ns path s)
  show ?case
  proof (cases "n \<in> dfs_universe adj")
    case True with 2 unvisited_visit show ?thesis by simp
  next
    case False
    have "unvisited adj (s\<lparr>ds_visited := ds_visited s @ [n]\<rparr>) \<le> unvisited adj s" by (rule unvisited_mono) auto
    with deps_of_outside [OF False] show ?thesis by auto
  qed
next
  case (3 adj n ns path s)
  from dfs_visited_mono [OF 3(2)] have "unvisited adj (dfs adj (deps_of adj n) (path @ [n]) (s\<lparr>ds_visited := ds_visited s @ [n]\<rparr>)) \<le> unvisited adj s"
    by (intro unvisited_mono) auto
  then show ?case by auto
qed (auto simp: unvisited_def)

definition validateDependencyGraph :: "invoice list \<Rightarrow> dependency_error + validation_result" where
  "validateDependencyGraph invoices =
     (let ids = foldl (\<lambda>acc x. set_add x acc) [] (map inv_id invoices);
          st = foldl (add_invoice ids) ([], [], []) invoices;
          adj = fst st; warnings = fst (snd st); missing = snd (snd st);
          cycles = ds_cycles (dfs adj ids [] \<lparr>ds_visited = [], ds_cycles = []\<rparr>)
      in if missing \<noteq> [] then Inl (MissingNodeError missing)
         else Inr \<lparr>vr_valid = (cycles = []), vr_cycles = cycles, vr_warnings = warnings\<rparr>)"

section \<open>The search finds the cycles\<close>

definition edge :: "adjacency \<Rightarrow> string \<Rightarrow> string \<Rightarrow> bool" where
  "edge adj a b \<longleftrightarrow> b \<in> set (deps_of adj a)"

definition closed_walk :: "adjacency \<Rightarrow> string list \<Rightarrow> bool" where
  "closed_walk adj c \<longleftrightarrow> c \<noteq> [] \<and> successively (edge adj) (c @ [hd c])"

lemma dfs_closed_walks:
  "successively (edge adj) path \<Longrightarrow> (path \<noteq> [] \<Longrightarrow> \<forall>n \<in> set ns. edge adj (last path) n) \<Longrightarrow>
    \<forall>c \<in> set (ds_cycles s). closed_walk adj c \<Longrightarrow> \<forall>c \<in> set (ds_cycles (dfs adj ns path s)). closed_walk adj c"
proof (induction adj ns path s rule: dfs.induct)
  case (2 adj n ns path s)
  show ?case
  proof (cases "n \<in> set (ds_visited s)")
    case False
    let ?t = "dfs adj (deps_of adj n) (path @ [n]) (s\<lparr>ds_visited := ds_visited s @ [n]\<rparr>)"
    have "successively (edge adj) (path @ [n])" using 2(5,6) by (auto simp: successively_append_iff)
    from 2(1) [OF False this] 2(7) have "\<forall>c \<in> set (ds_cycles ?t). closed_walk adj c" by (simp add: edge_def)
    with 2(2) [OF False 2(5)] 2(6) False show ?thesis by simp
  next
    case True
    show ?thesis
    proof (cases "n \<in> set path")
      case False with True 2(4) [OF _ False 2(5)] 2(6,7) show ?thesis by simp
    next
      case path: True
      let ?c = "dropWhile (\<lambda>m. m \<noteq> n) path"
      have ne: "?c \<noteq> []" "hd ?c = n" using path hd_dropWhile [of "\<lambda>m. m \<noteq> n" path]
        by (auto simp: dropWhile_eq_Nil_conv)
      obtain pre where pre: "path = pre @ ?c" by (metis takeWhile_dropWhile_id)
      then have "last ?c = last path" using ne(1) by (metis last_appendR)
      moreover have "successively (edge adj) ?c" using 2(5) pre by (metis successively_append_iff)
      moreover have "path \<noteq> []" using path by auto
      ultimately have "closed_walk adj ?c" using ne 2(6) by (auto simp: closed_walk_def successively_append_iff)
      with True path 2(3) [OF _ path 2(5)] 2(6,7) show ?thesis by simp
    qed
  qed
qed simp

lemma dfs_cycles_mono: "set (ds_cycles s) \<subseteq> set (ds_cycles (dfs adj ns path s))"
proof (induction adj ns path s rule: dfs.induct)
  case (2 adj n ns path s)
  consider "n \<notin> set (ds_visited s)" | "n \<in> set (ds_visited s)" "n \<in> set path" | "n \<in> set (ds_visited s)" "n \<notin> set path" by blast
  then show ?case
  proof cases
    case 1 with 2(1,2) [OF 1] show ?thesis by auto
  next
    case 2 with "2.IH"(3) show ?thesis by simp
  next
    case 3 with "2.IH"(4) show ?thesis by simp
  qed
qed simp

lemma dfs_visited_sub: "set (ds_visited s) \<subseteq> set (ds_visited (dfs adj ns path s))"
proof (induction adj ns path s rule: dfs.induct)
  case (2 adj n ns path s)
  consider "n \<notin> set (ds_visited s)" | "n \<in> set (ds_visited s)" "n \<in> set path" | "n \<in> set (ds_visited s)" "n \<notin> set path" by blast
  then show ?case
  proof cases
    case 1 with 2(1,2) [OF 1] show ?thesis by auto
  next
    case 2 with "2.IH"(3) show ?thesis by simp
  next
    case 3 with "2.IH"(4) show ?thesis by simp
  qed
qed simp

text \<open>
  A set of names that is finished: closed under the edges and without a cycle. The search finishes
  a name after all its neighbours, so the finished set stays so as long as no cycle is reported.
\<close>

definition finished :: "adjacency \<Rightarrow> string set \<Rightarrow> bool" where
  "finished adj D \<longleftrightarrow> (\<forall>d \<in> D. set (deps_of adj d) \<subseteq> D) \<and> acyclic {(a, b). a \<in> D \<and> edge adj a b}"

lemma finished_empty: "finished adj {}"
  by (simp add: finished_def acyclic_def)

lemma finished_insert:
  assumes D: "finished adj D" and n: "set (deps_of adj n) \<subseteq> D" "n \<notin> D"
  shows "finished adj (insert n D)"
proof -
  let ?R = "{(a, b). a \<in> D \<and> edge adj a b}" let ?R' = "{(a, b). a \<in> insert n D \<and> edge adj a b}"
  have step: "b \<in> D" if "a \<in> insert n D" "edge adj a b" for a b
    using that D n by (auto simp: finished_def edge_def)
  have inside: "b \<in> D \<and> (a, b) \<in> ?R\<^sup>+" if "(a, b) \<in> ?R'\<^sup>+" "a \<in> D" for a b
    using that
  proof (induction rule: trancl_induct)
    case (base y) with n step [of a y] show ?case by auto
  next
    case (step y z)
    then have "y \<in> D" "(a, y) \<in> ?R\<^sup>+" "edge adj y z" by auto
    moreover from this have "z \<in> D" using D by (auto simp: finished_def edge_def)
    ultimately show ?case by (auto intro: trancl_into_trancl)
  qed
  have "acyclic ?R'" unfolding acyclic_def
  proof (intro allI notI)
    fix x assume c: "(x, x) \<in> ?R'\<^sup>+"
    show False
    proof (cases "x \<in> D")
      case True
      with inside [OF c] D show False by (simp add: finished_def acyclic_def)
    next
      case False
      from c obtain z where z: "(x, z) \<in> ?R'" "(z, x) \<in> ?R'\<^sup>*" by (meson tranclD)
      then have "z \<in> D" using step by auto
      moreover from z(2) False \<open>z \<in> D\<close> have "(z, x) \<in> ?R'\<^sup>+" by (metis rtranclD)
      ultimately show False using inside False by blast
    qed
  qed
  moreover have "\<forall>d \<in> insert n D. set (deps_of adj d) \<subseteq> insert n D" using step by (auto simp: edge_def)
  ultimately show ?thesis by (simp add: finished_def)
qed

lemma dfs_finished:
  "ds_cycles (dfs adj ns path s) = [] \<Longrightarrow> set path \<subseteq> set (ds_visited s) \<Longrightarrow> finished adj (set (ds_visited s) - set path) \<Longrightarrow>
    finished adj (set (ds_visited (dfs adj ns path s)) - set path) \<and> set ns \<subseteq> set (ds_visited (dfs adj ns path s)) - set path"
proof (induction adj ns path s rule: dfs.induct)
  case (2 adj n ns path s)
  consider (new) "n \<notin> set (ds_visited s)" | (on_stack) "n \<in> set (ds_visited s)" "n \<in> set path"
    | (seen) "n \<in> set (ds_visited s)" "n \<notin> set path" by blast
  then show ?case
  proof cases
    case new
    let ?s = "s\<lparr>ds_visited := ds_visited s @ [n]\<rparr>"
    let ?t = "dfs adj (deps_of adj n) (path @ [n]) ?s"
    let ?V = "set (ds_visited ?t)"
    have np: "n \<notin> set path" using new 2(6) by auto
    have nil: "ds_cycles (dfs adj ns path ?t) = []" using 2(5) new by simp
    then have "ds_cycles ?t = []" using dfs_cycles_mono [of ?t adj ns path] by auto
    moreover have "set (ds_visited ?s) - set (path @ [n]) = set (ds_visited s) - set path" using new by auto
    ultimately have IH: "finished adj (?V - set (path @ [n]))" "set (deps_of adj n) \<subseteq> ?V - set (path @ [n])"
      using 2(1) [OF new] 2(6,7) by auto
    have V: "set (ds_visited ?s) \<subseteq> ?V" by (rule dfs_visited_sub)
    then have "?V - set path = insert n (?V - set (path @ [n]))" using np by auto
    with finished_insert [OF IH] have "finished adj (?V - set path)" by simp
    moreover have "set path \<subseteq> ?V" using V 2(6) by auto
    moreover have "n \<in> set (ds_visited (dfs adj ns path ?t))" using V dfs_visited_sub [of ?t adj ns path] by auto
    ultimately show ?thesis using 2(2) [OF new nil] np new by simp
  next
    case on_stack
    with dfs_cycles_mono [of "s\<lparr>ds_cycles := ds_cycles s @ [dropWhile (\<lambda>m. m \<noteq> n) path]\<rparr>" adj ns path] 2(5)
    show ?thesis by simp
  next
    case seen
    with 2(4) [OF _ seen(2)] 2(5-7) dfs_visited_sub [of s adj ns path] show ?thesis by auto
  qed
qed simp

text \<open>A closed walk is a cycle of the relation, so an acyclic graph has none.\<close>

lemma closed_walk_cycle: "closed_walk adj c \<Longrightarrow> \<not> acyclic {(a, b). edge adj a b}"
proof -
  assume c: "closed_walk adj c"
  have "(hd xs, last xs) \<in> {(a, b). edge adj a b}\<^sup>*" if "successively (edge adj) xs" "xs \<noteq> []" for xs
    using that
  proof (induction xs)
    case (Cons x xs) then show ?case
      by (cases xs) (auto intro: converse_rtrancl_into_rtrancl)
  qed simp
  moreover have "successively (edge adj) c" "edge adj (last c) (hd c)" "c \<noteq> []"
    using c by (auto simp: closed_walk_def successively_append_iff)
  ultimately have "(hd c, hd c) \<in> {(a, b). edge adj a b}\<^sup>+" by (auto intro: rtrancl_into_trancl1)
  then show ?thesis by (auto simp: acyclic_def)
qed

lemma dfs_exact:
  assumes "\<forall>a b. edge adj a b \<longrightarrow> a \<in> set ids"
  defines "C \<equiv> ds_cycles (dfs adj ids [] \<lparr>ds_visited = [], ds_cycles = []\<rparr>)"
  shows "C = [] \<longleftrightarrow> acyclic {(a, b). edge adj a b}" "\<forall>c \<in> set C. closed_walk adj c"
proof -
  show w: "\<forall>c \<in> set C. closed_walk adj c" unfolding C_def by (rule dfs_closed_walks) simp_all
  show "C = [] \<longleftrightarrow> acyclic {(a, b). edge adj a b}"
  proof
    assume "C = []"
    let ?V = "set (ds_visited (dfs adj ids [] \<lparr>ds_visited = [], ds_cycles = []\<rparr>))"
    from \<open>C = []\<close> have "finished adj ?V" and V: "set ids \<subseteq> ?V"
      using dfs_finished [of adj ids "[]" "\<lparr>ds_visited = [], ds_cycles = []\<rparr>"] by (simp_all add: C_def finished_empty)
    moreover have "{(a, b). edge adj a b} = {(a, b). a \<in> ?V \<and> edge adj a b}" using V assms(1) by auto
    ultimately show "acyclic {(a, b). edge adj a b}" by (simp add: finished_def)
  next
    assume "acyclic {(a, b). edge adj a b}"
    with w closed_walk_cycle show "C = []" by (cases C) auto
  qed
qed


section \<open>The validator is exact\<close>

definition prerequisite_edges :: "invoice list \<Rightarrow> (string \<times> string) set" where
  "prerequisite_edges invoices = {(inv_id i, p) | i p. i \<in> set invoices \<and> p \<in> set (prerequisites_of i)}"

lemma set_foldl_set_add [simp]: "set (foldl (\<lambda>acc x. set_add x acc) acc xs) = set acc \<union> set xs"
  by (induction xs arbitrary: acc) auto

lemma add_invoice_parts:
  "fst (add_invoice ids st i) = AList.update (inv_id i) (filter (\<lambda>p. p \<in> set ids) (prerequisites_of i)) (fst st)"
  "fst (snd (add_invoice ids st i)) = fst (snd st) @ map (unknown_warning i) (filter (\<lambda>p. p \<notin> set ids) (prerequisites_of i))"
  "set (snd (snd (add_invoice ids st i))) = set (snd (snd st)) \<union> {p \<in> set (prerequisites_of i). p \<notin> set ids}"
  by (auto simp: add_invoice_def Let_def split_beta)

definition unknown :: "string list \<Rightarrow> invoice list \<Rightarrow> string set" where
  "unknown ids invoices = {p. \<exists>i \<in> set invoices. p \<in> set (prerequisites_of i) \<and> p \<notin> set ids}"

lemma foldl_missing: "set (snd (snd (foldl (add_invoice ids) st invs))) = set (snd (snd st)) \<union> unknown ids invs"
  by (induction invs arbitrary: st) (auto simp: add_invoice_parts unknown_def)

lemma foldl_warnings:
  "unknown ids invs = {} \<Longrightarrow> fst (snd (foldl (add_invoice ids) st invs)) = fst (snd st)"
proof (induction invs arbitrary: st)
  case (Cons i invs)
  then have "filter (\<lambda>p. p \<notin> set ids) (prerequisites_of i) = []" "unknown ids invs = {}"
    by (auto simp: unknown_def filter_empty_conv)
  with Cons.IH show ?case by (simp add: add_invoice_parts)
qed simp

lemma foldl_adjacency_other:
  "n \<notin> inv_id ` set invs \<Longrightarrow> map_of (fst (foldl (add_invoice ids) st invs)) n = map_of (fst st) n"
  by (induction invs arbitrary: st) (auto simp: add_invoice_parts)

lemma foldl_adjacency:
  "distinct (map inv_id invs) \<Longrightarrow> i \<in> set invs \<Longrightarrow>
    map_of (fst (foldl (add_invoice ids) st invs)) (inv_id i) = Some (filter (\<lambda>p. p \<in> set ids) (prerequisites_of i))"
proof (induction invs arbitrary: st)
  case (Cons x xs)
  then show ?case by (cases "i = x") (auto simp: foldl_adjacency_other add_invoice_parts)
qed simp

text \<open>The names and what the first loop leaves, as the search receives them.\<close>

definition invoice_ids :: "invoice list \<Rightarrow> string list" where
  "invoice_ids invoices = foldl (\<lambda>acc x. set_add x acc) [] (map inv_id invoices)"

definition dependency_pass :: "invoice list \<Rightarrow> adjacency \<times> string list \<times> string list" where
  "dependency_pass invoices = foldl (add_invoice (invoice_ids invoices)) ([], [], []) invoices"

lemma set_invoice_ids: "set (invoice_ids invoices) = inv_id ` set invoices"
  by (simp add: invoice_ids_def)

lemma validate_unfold:
  "validateDependencyGraph invoices =
     (let C = ds_cycles (dfs (fst (dependency_pass invoices)) (invoice_ids invoices) [] \<lparr>ds_visited = [], ds_cycles = []\<rparr>);
          m = snd (snd (dependency_pass invoices))
      in if m \<noteq> [] then Inl (MissingNodeError m)
         else Inr \<lparr>vr_valid = (C = []), vr_cycles = C, vr_warnings = fst (snd (dependency_pass invoices))\<rparr>)"
  by (simp add: validateDependencyGraph_def dependency_pass_def invoice_ids_def Let_def)

lemma missing_unknown: "set (snd (snd (dependency_pass invoices))) = unknown (invoice_ids invoices) invoices"
  by (simp add: dependency_pass_def foldl_missing)

lemma edges_of_invoices:
  assumes "distinct (map inv_id invoices)" "unknown (invoice_ids invoices) invoices = {}"
  shows "edge (fst (dependency_pass invoices)) a b \<longleftrightarrow> (a, b) \<in> prerequisite_edges invoices"
proof (cases "a \<in> inv_id ` set invoices")
  case True
  then obtain i where i: "i \<in> set invoices" "a = inv_id i" by auto
  have "filter (\<lambda>p. p \<in> set (invoice_ids invoices)) (prerequisites_of i) = prerequisites_of i"
    using i assms(2) by (auto simp: filter_id_conv unknown_def)
  then have d: "deps_of (fst (dependency_pass invoices)) a = prerequisites_of i"
    using foldl_adjacency [OF assms(1) i(1)] by (simp add: deps_of_def dependency_pass_def i(2))
  have "inj_on inv_id (set invoices)" using assms(1) by (simp add: distinct_map)
  then have "(a, b) \<in> prerequisite_edges invoices \<longleftrightarrow> b \<in> set (prerequisites_of i)"
    using i unfolding prerequisite_edges_def by (auto dest: inj_onD)
  with d show ?thesis by (simp add: edge_def)
next
  case False
  then have "deps_of (fst (dependency_pass invoices)) a = []"
    by (simp add: deps_of_def dependency_pass_def foldl_adjacency_other)
  with False show ?thesis by (auto simp: edge_def prerequisite_edges_def)
qed

text \<open>
  C5: A set of invoices with distinct ids is declared valid exactly when no invoice depends on
  itself through any chain of prerequisites, however long; and whatever is reported as a cycle is
  one, an invoice leading through its prerequisites back to itself.
\<close>

theorem dependency_cycles_exact:
  assumes "distinct (map inv_id invoices)" "validateDependencyGraph invoices = Inr r"
  shows "(vr_valid r \<longleftrightarrow> acyclic (prerequisite_edges invoices)) \<and>
    (\<forall>c \<in> set (vr_cycles r). c \<noteq> [] \<and> successively (\<lambda>a b. (a, b) \<in> prerequisite_edges invoices) (c @ [hd c]))"
proof -
  have nil: "snd (snd (dependency_pass invoices)) = []"
  proof (rule ccontr)
    assume "snd (snd (dependency_pass invoices)) \<noteq> []"
    then have "validateDependencyGraph invoices = Inl (MissingNodeError (snd (snd (dependency_pass invoices))))"
      by (simp add: validate_unfold Let_def)
    with assms(2) show False by simp
  qed
  with missing_unknown [of invoices] have u: "unknown (invoice_ids invoices) invoices = {}" by simp
  define adj where "adj = fst (dependency_pass invoices)"
  define C where "C = ds_cycles (dfs adj (invoice_ids invoices) [] \<lparr>ds_visited = [], ds_cycles = []\<rparr>)"
  have e: "edge adj = (\<lambda>a b. (a, b) \<in> prerequisite_edges invoices)"
    unfolding adj_def by (intro ext) (rule edges_of_invoices [OF assms(1) u])
  have r: "vr_valid r \<longleftrightarrow> C = []" "vr_cycles r = C"
    using assms(2) [symmetric] nil unfolding validate_unfold Let_def C_def adj_def by simp_all
  have "\<forall>a b. edge adj a b \<longrightarrow> a \<in> set (invoice_ids invoices)"
    by (auto simp: e prerequisite_edges_def set_invoice_ids)
  from dfs_exact [OF this, folded C_def] show ?thesis by (simp add: r e closed_walk_def)
qed

definition sample_invoice :: "string \<Rightarrow> string list \<Rightarrow> invoice" where
  "sample_invoice i ps =
     \<lparr>inv_id = i, inv_creator = ''G'', inv_recipients = [], inv_token = ''USDC'', inv_deadline = 0, inv_funded = 0,
      inv_status = Pending, inv_payments = [], inv_prerequisites = Some ps, inv_prerequisite_id = None, inv_statusHistory = None\<rparr>"

definition sample_invoices :: "invoice list" where
  "sample_invoices = [sample_invoice ''a'' [''b''], sample_invoice ''b'' [''c'', ''d''], sample_invoice ''c'' [], sample_invoice ''d'' [''b'']]"

theorem dependency_cycles_exact_witness:
  "\<not> acyclic (prerequisite_edges sample_invoices)"
proof -
  have "validateDependencyGraph sample_invoices = Inr \<lparr>vr_valid = False, vr_cycles = [[''b'', ''d'']], vr_warnings = []\<rparr>"
    by code_simp
  moreover have "distinct (map inv_id sample_invoices)" by code_simp
  ultimately show ?thesis using dependency_cycles_exact [of sample_invoices] by (metis validation_result.select_convs(1))
qed

text \<open>
  C38: Dangling references are an error, not a warning: validation throws exactly when some
  prerequisite is not among the invoices, naming each unknown id, and when it returns at all the
  list of warnings is empty.
\<close>

theorem dangling_prerequisites_throw:
  "case validateDependencyGraph invoices of
     Inl (MissingNodeError ms) \<Rightarrow> ms \<noteq> [] \<and> set ms = snd ` prerequisite_edges invoices - inv_id ` set invoices
   | Inr r \<Rightarrow> snd ` prerequisite_edges invoices \<subseteq> inv_id ` set invoices \<and> vr_warnings r = []"
proof -
  have u: "unknown (invoice_ids invoices) invoices = snd ` prerequisite_edges invoices - inv_id ` set invoices"
    by (force simp: unknown_def prerequisite_edges_def set_invoice_ids)
  show ?thesis
  proof (cases "snd (snd (dependency_pass invoices)) = []")
    case True
    with missing_unknown [of invoices] have n: "unknown (invoice_ids invoices) invoices = {}" by simp
    then have "fst (snd (dependency_pass invoices)) = []" by (simp add: dependency_pass_def foldl_warnings)
    with True n u show ?thesis by (simp add: validate_unfold Let_def)
  next
    case False
    with missing_unknown [of invoices] u show ?thesis by (simp add: validate_unfold Let_def)
  qed
qed


section \<open>The prerequisite chain\<close>

definition MAX_PREREQUISITE_CHAIN_DEPTH :: nat where
  "MAX_PREREQUISITE_CHAIN_DEPTH = 20"

record chain_entry =
  ce_id :: string
  ce_status :: invoice_status
  ce_isBlocking :: bool

datatype 'e chain_error =
    ClientError 'e \<comment> \<open>\<open>getInvoice\<close> rejected\<close>
  | ChainTooDeepError nat
  | CircularPrerequisiteError string

type_synonym invoice_cache = "(string \<times> invoice) list"

definition fetch_invoice :: "(string \<Rightarrow> 'e + invoice) \<Rightarrow> string \<Rightarrow> invoice_cache \<Rightarrow> ('e chain_error + invoice) \<times> invoice_cache" where
  "fetch_invoice client i cache =
     (case map_of cache i of
        Some x \<Rightarrow> (Inr x, cache)
      | None \<Rightarrow> (case client i of
                  Inl e \<Rightarrow> (Inl (ClientError e), cache)
                | Inr x \<Rightarrow> (Inr x, AList.update i x cache)))"

text \<open>The loop condition: an id that is missing or empty ends the chain.\<close>

definition next_id :: "invoice \<Rightarrow> string option" where
  "next_id i = (case inv_prerequisite_id i of Some p \<Rightarrow> if p = [] then None else Some p | None \<Rightarrow> None)"

definition chain_entry_of :: "invoice \<Rightarrow> chain_entry" where
  "chain_entry_of i = \<lparr>ce_id = inv_id i, ce_status = inv_status i, ce_isBlocking = (inv_status i \<noteq> Released)\<rparr>"

function chain_walk ::
    "(string \<Rightarrow> 'e + invoice) \<Rightarrow> invoice \<Rightarrow> nat \<Rightarrow> string list \<Rightarrow> chain_entry list \<Rightarrow> invoice_cache \<Rightarrow>
     ('e chain_error + chain_entry list) \<times> invoice_cache" where
  "chain_walk client current depth visited chain cache =
     (case next_id current of
        None \<Rightarrow> (Inr (rev chain), cache)
      | Some nextId \<Rightarrow>
          if depth + 1 > MAX_PREREQUISITE_CHAIN_DEPTH then (Inl (ChainTooDeepError MAX_PREREQUISITE_CHAIN_DEPTH), cache)
          else if nextId \<in> set visited then (Inl (CircularPrerequisiteError nextId), cache)
          else (case fetch_invoice client nextId cache of
                  (Inl e, cache') \<Rightarrow> (Inl e, cache')
                | (Inr prerequisite, cache') \<Rightarrow>
                    chain_walk client prerequisite (depth + 1) (visited @ [nextId]) (chain @ [chain_entry_of prerequisite]) cache'))"
  by pat_completeness auto
termination
  by (relation "measure (\<lambda>(client, current, depth, visited, chain, cache). MAX_PREREQUISITE_CHAIN_DEPTH - depth)") auto

declare chain_walk.simps [simp del]

definition resolvePrerequisiteChain ::
    "(string \<Rightarrow> 'e + invoice) \<Rightarrow> string \<Rightarrow> invoice_cache \<Rightarrow> ('e chain_error + chain_entry list) \<times> invoice_cache" where
  "resolvePrerequisiteChain client invoiceId cache =
     (case fetch_invoice client invoiceId cache of
        (Inl e, cache') \<Rightarrow> (Inl e, cache')
      | (Inr current, cache') \<Rightarrow> chain_walk client current 0 [invoiceId] [] cache')"

text \<open>
  What one call of the walk sees: the cached invoice, and for any other id the answer of the client,
  which may reject. The walk never asks for an id twice, so an answer per id is as general as a
  client that changes its mind.
\<close>

definition fetched :: "(string \<Rightarrow> 'e + invoice) \<Rightarrow> invoice_cache \<Rightarrow> string \<Rightarrow> 'e + invoice" where
  "fetched client cache i = (case map_of cache i of Some x \<Rightarrow> Inr x | None \<Rightarrow> client i)"

text \<open>The first \<open>n\<close> prerequisites of an invoice, in the order they are met, up to the first that is rejected.\<close>

fun prerequisite_ids :: "(string \<Rightarrow> 'e + invoice) \<Rightarrow> nat \<Rightarrow> string \<Rightarrow> string list" where
  "prerequisite_ids get 0 i = []"
| "prerequisite_ids get (Suc n) i =
     (case get i of
        Inl e \<Rightarrow> []
      | Inr x \<Rightarrow> (case next_id x of None \<Rightarrow> [] | Some p \<Rightarrow> p # prerequisite_ids get n p))"

lemma fetch_invoice_cases:
  "fetched client cache i = Inl e \<Longrightarrow> fetch_invoice client i cache = (Inl (ClientError e), cache)"
  "fetched client cache i = Inr x \<Longrightarrow>
     \<exists>cache'. fetch_invoice client i cache = (Inr x, cache') \<and> fetched client cache' = fetched client cache"
  by (auto simp: fetched_def fetch_invoice_def fun_eq_iff split: option.splits)

definition entry_for :: "(string \<Rightarrow> 'e + invoice) \<Rightarrow> string \<Rightarrow> chain_entry \<Rightarrow> bool" where
  "entry_for get p c \<longleftrightarrow> (\<exists>x. get p = Inr x \<and> c = chain_entry_of x)"

text \<open>What the four outcomes say of the prerequisites that are left, when \<open>left\<close> more may be passed.\<close>

fun chain_outcome ::
    "(string \<Rightarrow> 'e + invoice) \<Rightarrow> nat \<Rightarrow> string list \<Rightarrow> string list \<Rightarrow> chain_entry list \<Rightarrow> 'e chain_error + chain_entry list \<Rightarrow> bool" where
  "chain_outcome get left seen rest chain (Inr result) \<longleftrightarrow>
     length rest \<le> left \<and> distinct rest \<and> set rest \<inter> set seen = {} \<and>
     (\<exists>cs. result = rev (chain @ cs) \<and> list_all2 (entry_for get) rest cs)"
| "chain_outcome get left seen rest chain (Inl (ChainTooDeepError m)) \<longleftrightarrow>
     m = MAX_PREREQUISITE_CHAIN_DEPTH \<and> length rest = Suc left \<and> distinct (take left rest) \<and> set (take left rest) \<inter> set seen = {}"
| "chain_outcome get left seen rest chain (Inl (CircularPrerequisiteError p)) \<longleftrightarrow>
     (\<exists>k < left. k < length rest \<and> rest ! k = p \<and> distinct (take k rest) \<and> set (take k rest) \<inter> set seen = {} \<and>
        p \<in> set seen \<union> set (take k rest))"
| "chain_outcome get left seen rest chain (Inl (ClientError e)) \<longleftrightarrow>
     rest \<noteq> [] \<and> length rest \<le> left \<and> distinct rest \<and> set rest \<inter> set seen = {} \<and> get (last rest) = Inl e"

lemma chain_outcome_step:
  assumes "chain_outcome get left (seen @ [p]) rest (chain @ [chain_entry_of x]) r" "p \<notin> set seen" "get p = Inr x"
  shows "chain_outcome get (Suc left) seen (p # rest) chain r"
proof (cases r)
  case (Inr result)
  with assms obtain cs where "result = rev ((chain @ [chain_entry_of x]) @ cs)" "list_all2 (entry_for get) rest cs" by auto
  with assms Inr show ?thesis by (auto intro!: exI [of _ "chain_entry_of x # cs"] simp: entry_for_def)
next
  case (Inl e)
  show ?thesis
  proof (cases e)
    case (CircularPrerequisiteError q)
    with assms Inl obtain k where "k < left" "k < length rest" "rest ! k = q" "distinct (take k rest)"
      "set (take k rest) \<inter> set (seen @ [p]) = {}" "q \<in> set (seen @ [p]) \<union> set (take k rest)" by auto
    with assms(2) Inl CircularPrerequisiteError show ?thesis by (auto intro!: exI [of _ "Suc k"])
  qed (use assms Inl in auto)
qed

lemma chain_walk_outcome:
  "fetched client cache = get \<Longrightarrow> depth \<le> MAX_PREREQUISITE_CHAIN_DEPTH \<Longrightarrow> get i = Inr x \<Longrightarrow>
    chain_outcome get (MAX_PREREQUISITE_CHAIN_DEPTH - depth) visited
      (prerequisite_ids get (Suc (MAX_PREREQUISITE_CHAIN_DEPTH - depth)) i) chain
      (fst (chain_walk client x depth visited chain cache))"
proof (induction "MAX_PREREQUISITE_CHAIN_DEPTH - depth" arbitrary: depth i x visited chain cache)
  case 0
  then have "depth = MAX_PREREQUISITE_CHAIN_DEPTH" by simp
  with 0 show ?case by (subst chain_walk.simps) (auto split: option.split)
next
  case (Suc n)
  show ?case
  proof (cases "next_id x")
    case None
    with Suc.prems(3) show ?thesis unfolding Suc.hyps(2) [symmetric] by (subst chain_walk.simps) auto
  next
    case (Some p)
    have d: "depth + 1 \<le> MAX_PREREQUISITE_CHAIN_DEPTH" "n = MAX_PREREQUISITE_CHAIN_DEPTH - (depth + 1)" using Suc by simp_all
    show ?thesis
    proof (cases "p \<in> set visited")
      case True
      with Some d(1) Suc.prems(3) show ?thesis
        unfolding Suc.hyps(2) [symmetric] by (subst chain_walk.simps) (auto intro!: exI [of _ 0])
    next
      case False
      show ?thesis
      proof (cases "get p")
        case (Inl e)
        with fetch_invoice_cases(1) [of client cache p e] False Some d(1) Suc.prems show ?thesis
          unfolding Suc.hyps(2) [symmetric] by (subst chain_walk.simps) simp
      next
        case (Inr y)
        with fetch_invoice_cases(2) [of client cache p y] Suc.prems(1) obtain c where
          c: "fetch_invoice client p cache = (Inr y, c)" "fetched client c = get" by auto
        from Suc.hyps(1) [OF d(2) c(2) d(1) Inr]
        have "chain_outcome get (Suc n) visited (p # prerequisite_ids get (Suc n) p) chain
            (fst (chain_walk client y (depth + 1) (visited @ [p]) (chain @ [chain_entry_of y]) c))"
          using chain_outcome_step [of get n visited p _ chain y] False Inr d(2) by metis
        with False Some d(1) c Suc.prems(3) show ?thesis
          unfolding Suc.hyps(2) [symmetric] by (subst chain_walk.simps) simp
      qed
    qed
  qed
qed

text \<open>
  C23: For every client, also one that rejects or disagrees with what the cache holds, following
  the prerequisites ends once the client's calls do, and with the right answer. Let \<open>get\<close> be what
  the call sees (the cache first, then the client) and \<open>ps\<close> the first 21 ids met. If the call
  returns, the chain had ended after at most 20 different prerequisites and the result has the entry
  of each of them, the deepest first. If it throws ''too deep'', there are at least 21 and the first 20
  are different; if it throws ''circular'', the id it names is the first among the first 20 that was
  met before; and if it passes an error of the client on, that is the client's answer for the last id
  met, at most 20 steps away and all different.
\<close>

theorem prerequisite_chain_exact:
  fixes client :: "string \<Rightarrow> 'e + invoice"
  shows "let get = fetched client cache; ps = prerequisite_ids get 21 i in
    case fst (resolvePrerequisiteChain client i cache) of
      Inr result \<Rightarrow> length ps \<le> 20 \<and> distinct (i # ps) \<and>
        list_all2 (\<lambda>p c. \<exists>x. get p = Inr x \<and> c = chain_entry_of x) ps (rev result)
    | Inl (ChainTooDeepError m) \<Rightarrow> m = 20 \<and> length ps = 21 \<and> distinct (i # take 20 ps)
    | Inl (CircularPrerequisiteError p) \<Rightarrow>
        (\<exists>k < 20. k < length ps \<and> ps ! k = p \<and> distinct (i # take k ps) \<and> p \<in> set (i # take k ps))
    | Inl (ClientError e) \<Rightarrow> length ps \<le> 20 \<and> distinct (i # ps) \<and> get (last (i # ps)) = Inl e"
proof -
  define get where "get = fetched client cache"
  define ps where "ps = prerequisite_ids get 21 i"
  have "case fst (resolvePrerequisiteChain client i cache) of
      Inr result \<Rightarrow> length ps \<le> 20 \<and> distinct (i # ps) \<and>
        list_all2 (\<lambda>p c. \<exists>x. get p = Inr x \<and> c = chain_entry_of x) ps (rev result)
    | Inl (ChainTooDeepError m) \<Rightarrow> m = 20 \<and> length ps = 21 \<and> distinct (i # take 20 ps)
    | Inl (CircularPrerequisiteError p) \<Rightarrow>
        (\<exists>k < 20. k < length ps \<and> ps ! k = p \<and> distinct (i # take k ps) \<and> p \<in> set (i # take k ps))
    | Inl (ClientError e) \<Rightarrow> length ps \<le> 20 \<and> distinct (i # ps) \<and> get (last (i # ps)) = Inl e"
  proof (cases "get i")
    case (Inl e)
    have "ps = []" using Inl by (simp add: ps_def eval_nat_numeral)
    with Inl fetch_invoice_cases(1) [of client cache i e] show ?thesis by (simp add: resolvePrerequisiteChain_def get_def)
  next
    case (Inr x)
    then obtain c where c: "fetch_invoice client i cache = (Inr x, c)" "fetched client c = get"
      using fetch_invoice_cases(2) [of client cache i x] by (auto simp: get_def)
    have "chain_outcome get 20 [i] ps [] (fst (chain_walk client x 0 [i] [] c))"
      using chain_walk_outcome [OF c(2) _ Inr, of 0 "[i]" "[]"] by (simp add: MAX_PREREQUISITE_CHAIN_DEPTH_def ps_def)
    then have "chain_outcome get 20 [i] ps [] (fst (resolvePrerequisiteChain client i cache))"
      by (simp add: resolvePrerequisiteChain_def c(1))
    then show ?thesis
      by (auto split: sum.splits chain_error.splits simp: MAX_PREREQUISITE_CHAIN_DEPTH_def entry_for_def [abs_def])
  qed
  then show ?thesis by (simp only: Let_def get_def ps_def)
qed

definition sample_chain :: "string \<Rightarrow> string + invoice" where
  "sample_chain i =
     (if i = ''d'' then Inl ''gone''
      else Inr ((sample_invoice i [])\<lparr>inv_prerequisite_id :=
        (if i = ''a'' then Some ''b'' else if i = ''b'' then Some ''c'' else if i = ''x'' then Some ''d'' else None)\<rparr>))"

theorem prerequisite_chain_exact_witness:
  "fst (resolvePrerequisiteChain sample_chain ''x'' []) = Inl (ClientError ''gone'') \<and>
   fetched sample_chain [] (last (''x'' # prerequisite_ids (fetched sample_chain []) 21 ''x'')) = Inl ''gone'' \<and>
   length (prerequisite_ids (fetched sample_chain []) 21 ''a'') \<le> 20"
proof -
  have x: "fst (resolvePrerequisiteChain sample_chain ''x'' []) = Inl (ClientError ''gone'')" by code_simp
  have "isl (fst (resolvePrerequisiteChain sample_chain ''a'' [])) = False" by code_simp
  then obtain cs where a: "fst (resolvePrerequisiteChain sample_chain ''a'' []) = Inr cs"
    by (cases "fst (resolvePrerequisiteChain sample_chain ''a'' [])") auto
  show ?thesis
    using prerequisite_chain_exact [of sample_chain "[]" "''x''", unfolded Let_def x]
      prerequisite_chain_exact [of sample_chain "[]" "''a''", unfolded Let_def a] x by simp
qed

end
