(* ===== verification/Escrow_Vault.thy ===== *)
theory Escrow_Vault
  imports Prelude
begin

text \<open>
  \<open>escrowVaultManager.ts\<close>: vaults on claimable balances. The store maps identifiers to objects that
  calls keep across their awaits, so the model has an explicit store of objects. \<open>release\<close> and
  \<open>getStatus\<close> are cut at their awaits; the calls in flight are part of the state. Horizon's answers and
  SHA-256 are arguments.
\<close>

section \<open>Amounts and assets\<close>

definition stroopsToDecimal :: "int \<Rightarrow> string" where
  "stroopsToDecimal stroops =
     (let s = (if stroops < 0 then 0 else stroops)
      in show_int (s div 10000000) @ ''.'' @ pad_start 7 (show_int (s mod 10000000)))"

datatype escrow_status = Holding | Released | Expired

datatype escrow_error =
    InvalidAssetFormat string
  | AmountNotPositive
  | VaultNotFound string
  | CannotReleaseStatus string escrow_status
  | HeldUntil string int
  | SubmissionFailed

datatype asset_ref = NativeAsset | IssuedAsset string string

definition escrow_parseAsset :: "string \<Rightarrow> escrow_error + asset_ref" where
  "escrow_parseAsset asset =
     (if asset = ''native'' \<or> map upper_char asset = ''XLM'' then Inr NativeAsset
      else case split_at CHR '':'' asset of
          code # issuer # _ \<Rightarrow> if code = [] \<or> issuer = [] then Inl (InvalidAssetFormat asset) else Inr (IssuedAsset code issuer)
        | _ \<Rightarrow> Inl (InvalidAssetFormat asset))"

definition makeVaultId :: "(string \<Rightarrow> string) \<Rightarrow> string \<Rightarrow> int \<Rightarrow> int \<Rightarrow> string" where
  "makeVaultId sha256 invoiceId amount ts =
     take 32 (sha256 (invoiceId @ '':'' @ show_int amount @ '':'' @ show_int ts))"

text \<open>The operations of the transaction; \<open>None\<close> when the request fails.\<close>

definition extractBalanceId :: "(string \<Rightarrow> string) \<Rightarrow> string option list option \<Rightarrow> string \<Rightarrow> string" where
  "extractBalanceId sha256 ops txHash =
     (case ops of
        None \<Rightarrow> sha256 txHash
      | Some records \<Rightarrow>
          (case List.find (\<lambda>r. r \<noteq> None \<and> r \<noteq> Some []) records of
             Some (Some b) \<Rightarrow> b
           | _ \<Rightarrow> sha256 txHash))"

section \<open>Vaults and calls\<close>

record escrow_vault =
  ev_vaultId :: string
  ev_invoiceId :: string
  ev_balanceId :: string
  ev_amount :: int
  ev_asset :: string
  ev_holdUntil :: int
  ev_status :: escrow_status
  ev_createdAt :: int
  ev_releasedAt :: "int option"
  ev_recipientId :: "string option"

datatype escrow_event = EscrowFunded nat | EscrowReleased nat string string | EscrowExpired nat

datatype escrow_call = Releasing string nat string | Checking string nat | Settled

record escrow_state =
  es_objs :: "escrow_vault list"
  es_store :: "(string \<times> nat) list"
  es_calls :: "escrow_call list"
  es_events :: "escrow_event list"
  es_polling :: bool

definition escrow_empty :: escrow_state where
  "escrow_empty = \<lparr>es_objs = [], es_store = [], es_calls = [], es_events = [], es_polling = False\<rparr>"

definition create_guard :: "int \<Rightarrow> string \<Rightarrow> escrow_error + asset_ref" where
  "create_guard amount asset = (if amount \<le> 0 then Inl AmountNotPositive else escrow_parseAsset asset)"

text \<open>\<open>create\<close> once the transaction is submitted (\<open>None\<close>: it failed)\<close>

definition escrow_create ::
  "(string \<Rightarrow> string) \<Rightarrow> string \<Rightarrow> int \<Rightarrow> string \<Rightarrow> int \<Rightarrow> string option \<Rightarrow> string option list option \<Rightarrow> int \<Rightarrow> escrow_state \<Rightarrow>
   escrow_error + (nat \<times> escrow_state)" where
  "escrow_create sha256 invoiceId amount asset holdUntil submitted ops now s =
     (case create_guard amount asset of
        Inl e \<Rightarrow> Inl e
      | Inr _ \<Rightarrow>
          (case submitted of
             None \<Rightarrow> Inl SubmissionFailed
           | Some txHash \<Rightarrow>
               let n = length (es_objs s);
                   v = \<lparr>ev_vaultId = makeVaultId sha256 invoiceId amount now, ev_invoiceId = invoiceId,
                        ev_balanceId = extractBalanceId sha256 ops txHash, ev_amount = amount, ev_asset = asset,
                        ev_holdUntil = holdUntil, ev_status = Holding, ev_createdAt = now,
                        ev_releasedAt = None, ev_recipientId = None\<rparr>
               in Inr (n, s\<lparr>es_objs := es_objs s @ [v], es_store := AList.update (ev_vaultId v) n (es_store s),
                            es_events := es_events s @ [EscrowFunded n], es_polling := True\<rparr>)))"

definition release_start :: "string \<Rightarrow> string \<Rightarrow> int \<Rightarrow> escrow_state \<Rightarrow> escrow_error + escrow_state" where
  "release_start vaultId recipientId now s =
     (case map_of (es_store s) vaultId of
        None \<Rightarrow> Inl (VaultNotFound vaultId)
      | Some n \<Rightarrow>
          let v = es_objs s ! n
          in if ev_status v \<noteq> Holding then Inl (CannotReleaseStatus vaultId (ev_status v))
             else if now < ev_holdUntil v then Inl (HeldUntil vaultId (ev_holdUntil v))
             else Inr (s\<lparr>es_calls := es_calls s @ [Releasing vaultId n recipientId]\<rparr>))"

definition release_done :: "nat \<Rightarrow> string option \<Rightarrow> int \<Rightarrow> escrow_state \<Rightarrow> (escrow_error + string) \<times> escrow_state" where
  "release_done j submitted now s =
     (case es_calls s ! j of
        Releasing vaultId n recipientId \<Rightarrow>
          (case submitted of
             None \<Rightarrow> (Inl SubmissionFailed, s\<lparr>es_calls := (es_calls s)[j := Settled]\<rparr>)
           | Some txHash \<Rightarrow>
               (Inr txHash,
                s\<lparr>es_calls := (es_calls s)[j := Settled],
                  es_objs := (es_objs s)[n := (es_objs s ! n)
                    \<lparr>ev_status := Released, ev_releasedAt := Some now, ev_recipientId := Some recipientId\<rparr>],
                  es_store := AList.update vaultId n (es_store s),
                  es_events := es_events s @ [EscrowReleased n recipientId txHash]\<rparr>))
      | _ \<Rightarrow> (Inl SubmissionFailed, s))"

text \<open>\<open>getStatus\<close>: an answer at once, or a check on the chain in flight\<close>

definition status_start :: "string \<Rightarrow> int \<Rightarrow> escrow_state \<Rightarrow> escrow_error + (escrow_status option \<times> escrow_state)" where
  "status_start vaultId now s =
     (case map_of (es_store s) vaultId of
        None \<Rightarrow> Inl (VaultNotFound vaultId)
      | Some n \<Rightarrow>
          let v = es_objs s ! n
          in if ev_status v = Released \<or> ev_status v = Expired then Inr (Some (ev_status v), s)
             else if now > ev_holdUntil v then Inr (None, s\<lparr>es_calls := es_calls s @ [Checking vaultId n]\<rparr>)
             else Inr (Some (ev_status v), s))"

text \<open>\<open>_checkClaimedOnChain\<close> is false exactly when Horizon still finds the balance.\<close>

definition status_done :: "nat \<Rightarrow> bool \<Rightarrow> escrow_state \<Rightarrow> escrow_status option \<times> escrow_state" where
  "status_done j claimed s =
     (case es_calls s ! j of
        Checking vaultId n \<Rightarrow>
          (let s1 = s\<lparr>es_calls := (es_calls s)[j := Settled]\<rparr>
           in if \<not> claimed then
                (Some Expired,
                 s1\<lparr>es_objs := (es_objs s)[n := (es_objs s ! n)\<lparr>ev_status := Expired\<rparr>],
                    es_store := AList.update vaultId n (es_store s),
                    es_events := es_events s @ [EscrowExpired n]\<rparr>)
              else (Some (ev_status (es_objs s ! n)), s1))
      | _ \<Rightarrow> (None, s))"

definition getVault :: "string \<Rightarrow> escrow_state \<Rightarrow> escrow_vault option" where
  "getVault vaultId s = map_option (\<lambda>n. es_objs s ! n) (map_of (es_store s) vaultId)"

definition escrow_destroy :: "escrow_state \<Rightarrow> escrow_state" where
  "escrow_destroy s = s\<lparr>es_polling := False\<rparr>"

section \<open>Calls that run to their end\<close>

definition escrow_release :: "string \<Rightarrow> string \<Rightarrow> int \<Rightarrow> string option \<Rightarrow> int \<Rightarrow> escrow_state \<Rightarrow> (escrow_error + string) \<times> escrow_state" where
  "escrow_release vaultId recipientId now submitted later s =
     (case release_start vaultId recipientId now s of
        Inl e \<Rightarrow> (Inl e, s)
      | Inr s1 \<Rightarrow> release_done (length (es_calls s)) submitted later s1)"

definition escrow_getStatus :: "string \<Rightarrow> int \<Rightarrow> bool \<Rightarrow> escrow_state \<Rightarrow> (escrow_error + escrow_status option) \<times> escrow_state" where
  "escrow_getStatus vaultId now claimed s =
     (case status_start vaultId now s of
        Inl e \<Rightarrow> (Inl e, s)
      | Inr (Some st, s1) \<Rightarrow> (Inr (Some st), s1)
      | Inr (None, s1) \<Rightarrow> (case status_done (length (es_calls s)) claimed s1 of (r, s2) \<Rightarrow> (Inr r, s2)))"

text \<open>\<open>_pollExpiry\<close>: every vault that is holding when its turn comes; errors are ignored.\<close>

definition pollExpiry :: "(string \<Rightarrow> int \<times> bool) \<Rightarrow> escrow_state \<Rightarrow> escrow_state" where
  "pollExpiry answers s =
     foldl (\<lambda>s (vaultId, n).
        if ev_status (es_objs s ! n) \<noteq> Holding then s
        else snd (escrow_getStatus vaultId (fst (answers vaultId)) (snd (answers vaultId)) s)) s (es_store s)"

section \<open>Interleavings\<close>

datatype escrow_step =
    StepCreate string int string int "string option" "string option list option"
  | StepReleaseStart string string
  | StepReleaseDone nat "string option"
  | StepStatusStart string
  | StepStatusDone nat bool
  | StepDestroy

fun escrow_advance :: "(string \<Rightarrow> string) \<Rightarrow> int \<Rightarrow> escrow_state \<Rightarrow> escrow_step \<Rightarrow> escrow_state" where
  "escrow_advance sha t s (StepCreate i a as h sub ops) =
     (case escrow_create sha i a as h sub ops t s of Inl _ \<Rightarrow> s | Inr (n, s1) \<Rightarrow> s1)"
| "escrow_advance sha t s (StepReleaseStart v r) = (case release_start v r t s of Inl _ \<Rightarrow> s | Inr s1 \<Rightarrow> s1)"
| "escrow_advance sha t s (StepReleaseDone j sub) = (if j < length (es_calls s) then snd (release_done j sub t s) else s)"
| "escrow_advance sha t s (StepStatusStart v) = (case status_start v t s of Inl _ \<Rightarrow> s | Inr (r, s1) \<Rightarrow> s1)"
| "escrow_advance sha t s (StepStatusDone j c) = (if j < length (es_calls s) then snd (status_done j c s) else s)"
| "escrow_advance sha t s StepDestroy = escrow_destroy s"

text \<open>The clock does not run backwards.\<close>

fun escrow_tick :: "(string \<Rightarrow> string) \<Rightarrow> int \<times> escrow_state \<Rightarrow> int \<times> escrow_step \<Rightarrow> int \<times> escrow_state" where
  "escrow_tick sha (T, s) (t, e) = (if t < T then (T, s) else (t, escrow_advance sha t s e))"

definition escrow_run :: "(string \<Rightarrow> string) \<Rightarrow> (int \<times> escrow_step) list \<Rightarrow> int \<times> escrow_state \<Rightarrow> int \<times> escrow_state" where
  "escrow_run sha es s = foldl (escrow_tick sha) s es"

section \<open>The invariant\<close>

definition vault_ok :: "escrow_vault \<Rightarrow> bool" where
  "vault_ok v \<longleftrightarrow> (ev_status v = Released \<longrightarrow> ev_releasedAt v \<noteq> None) \<and> (ev_status v = Holding \<longrightarrow> ev_releasedAt v = None) \<and>
     (\<forall>t. ev_releasedAt v = Some t \<longrightarrow> ev_holdUntil v \<le> t \<and> ev_recipientId v \<noteq> None)"

fun call_ok :: "int \<Rightarrow> escrow_vault list \<Rightarrow> escrow_call \<Rightarrow> bool" where
  "call_ok T objs (Releasing k n r) \<longleftrightarrow> n < length objs \<and> ev_holdUntil (objs ! n) \<le> T"
| "call_ok T objs (Checking k n) \<longleftrightarrow> n < length objs"
| "call_ok T objs Settled \<longleftrightarrow> True"

fun escrow_inv :: "int \<times> escrow_state \<Rightarrow> bool" where
  "escrow_inv (T, s) \<longleftrightarrow> (\<forall>p \<in> set (es_store s). snd p < length (es_objs s)) \<and>
     (\<forall>c \<in> set (es_calls s). call_ok T (es_objs s) c) \<and> (\<forall>v \<in> set (es_objs s). vault_ok v)"

text \<open>Later objects: more of them, with the same hold times.\<close>

definition objs_later :: "escrow_vault list \<Rightarrow> escrow_vault list \<Rightarrow> bool" where
  "objs_later xs ys \<longleftrightarrow> length xs \<le> length ys \<and> (\<forall>n < length xs. ev_holdUntil (ys ! n) = ev_holdUntil (xs ! n))"

lemma call_ok_later: "call_ok T xs c \<Longrightarrow> T \<le> T' \<Longrightarrow> objs_later xs ys \<Longrightarrow> call_ok T' ys c"
  by (cases c) (auto simp: objs_later_def)

lemma objs_later_refl [simp]: "objs_later xs xs" "objs_later xs (xs @ ys)"
  by (simp_all add: objs_later_def nth_append)

lemma objs_later_update: "ev_holdUntil v = ev_holdUntil (xs ! n) \<Longrightarrow> objs_later xs (xs[n := v])"
  by (auto simp: objs_later_def nth_update_if)

lemma store_update_in: "\<forall>p \<in> set m. snd p < L \<Longrightarrow> n < L \<Longrightarrow> \<forall>p \<in> set (AList.update k n m). snd p < L"
  using set_update_sub [of k n m] by fastforce

lemma calls_settle: "\<forall>c \<in> set cs. call_ok T xs c \<Longrightarrow> \<forall>c \<in> set (cs[j := Settled]). call_ok T xs c"
  using set_update_subset_insert [of cs j Settled] by fastforce

lemma objs_update_ok: "\<forall>v \<in> set xs. vault_ok v \<Longrightarrow> vault_ok w \<Longrightarrow> \<forall>v \<in> set (xs[n := w]). vault_ok v"
  using set_update_subset_insert [of xs n w] by fastforce

lemma store_lookup: "escrow_inv (T, s) \<Longrightarrow> map_of (es_store s) k = Some n \<Longrightarrow> n < length (es_objs s)"
  by (force dest: map_of_SomeD)

text \<open>What the release of a vault needs: its call passed the hold time.\<close>

lemma release_done_inv:
  assumes "escrow_inv (T, s)" "T \<le> t" "j < length (es_calls s)"
  shows "escrow_inv (t, snd (release_done j sub t s))"
proof -
  have calls: "\<forall>c \<in> set (es_calls s). call_ok t (es_objs s) c"
    using assms(1,2) call_ok_later [OF _ assms(2) objs_later_refl(1)] by simp
  show ?thesis
  proof (cases "es_calls s ! j")
    case (Releasing k n r)
    then have n: "n < length (es_objs s)" "ev_holdUntil (es_objs s ! n) \<le> t" using calls nth_mem [OF assms(3)] by fastforce+
    let ?w = "(es_objs s ! n)\<lparr>ev_status := Released, ev_releasedAt := Some t, ev_recipientId := Some r\<rparr>"
    have w: "vault_ok ?w" using n(2) by (simp add: vault_ok_def)
    show ?thesis
    proof (cases sub)
      case None
      with assms(1) calls_settle [OF calls, of j] show ?thesis by (simp add: release_done_def Releasing)
    next
      case (Some h)
      have "\<forall>c \<in> set ((es_calls s)[j := Settled]). call_ok t ((es_objs s)[n := ?w]) c"
        using calls_settle [OF calls, of j] call_ok_later [OF _ order_refl objs_later_update, of t "es_objs s" _ ?w n] by simp
      with assms(1) objs_update_ok [OF _ w, of "es_objs s" n] store_update_in [of "es_store s" "length (es_objs s)" n k] n(1)
      show ?thesis by (simp add: release_done_def Releasing Some)
    qed
  qed (use assms(1) calls in \<open>simp_all add: release_done_def\<close>)
qed

lemma status_done_inv:
  assumes "escrow_inv (T, s)" "T \<le> t" "j < length (es_calls s)"
  shows "escrow_inv (t, snd (status_done j claimed s))"
proof -
  have calls: "\<forall>c \<in> set (es_calls s). call_ok t (es_objs s) c"
    using assms(1,2) call_ok_later [OF _ assms(2) objs_later_refl(1)] by simp
  show ?thesis
  proof (cases "es_calls s ! j")
    case (Checking k n)
    then have n: "n < length (es_objs s)" using calls nth_mem [OF assms(3)] by fastforce
    let ?w = "(es_objs s ! n)\<lparr>ev_status := Expired\<rparr>"
    have w: "vault_ok ?w" using n assms(1) by (simp add: vault_ok_def)
    show ?thesis
    proof (cases claimed)
      case True
      with assms(1) calls_settle [OF calls, of j] show ?thesis by (simp add: status_done_def Checking Let_def)
    next
      case False
      have "\<forall>c \<in> set ((es_calls s)[j := Settled]). call_ok t ((es_objs s)[n := ?w]) c"
        using calls_settle [OF calls, of j] call_ok_later [OF _ order_refl objs_later_update, of t "es_objs s" _ ?w n] by simp
      with assms(1) objs_update_ok [OF _ w, of "es_objs s" n] store_update_in [of "es_store s" "length (es_objs s)" n k] n
      show ?thesis by (simp add: status_done_def Checking False Let_def)
    qed
  qed (use assms(1) calls in \<open>simp_all add: status_done_def\<close>)
qed

lemma escrow_tick_inv: "escrow_inv p \<Longrightarrow> escrow_inv (escrow_tick sha p e)"
proof (cases p; cases e)
  fix T s t step
  assume p: "p = (T, s)" "e = (t, step)" and i: "escrow_inv p"
  show ?thesis
  proof (cases "t < T")
    case False
    then have t: "T \<le> t" by simp
    have later: "escrow_inv (t, s)" using i t call_ok_later [OF _ t objs_later_refl(1)] by (simp add: p)
    show ?thesis
    proof (cases step)
      case (StepCreate iv a as h sub ops)
      have "call_ok t (es_objs s @ [v]) c" if "c \<in> set (es_calls s)" for c v
        using later that call_ok_later [OF _ order_refl objs_later_refl(2)] by simp
      moreover have "\<forall>q \<in> set (AList.update k (length (es_objs s)) (es_store s)). snd q < Suc (length (es_objs s))" for k
        using later by (intro store_update_in) (auto simp: less_Suc_eq)
      ultimately show ?thesis using later False
        by (auto simp: p StepCreate escrow_create_def Let_def vault_ok_def split: sum.split option.split)
    next
      case (StepReleaseStart v r)
      then show ?thesis using later False store_lookup [OF later, of v]
        by (auto simp: p release_start_def Let_def split: option.split)
    next
      case (StepReleaseDone j sub)
      then show ?thesis using release_done_inv [of T s t j sub] i False later by (simp add: p)
    next
      case (StepStatusStart v)
      then show ?thesis using later False store_lookup [OF later, of v]
        by (auto simp: p status_start_def Let_def split: option.split)
    next
      case (StepStatusDone j c)
      then show ?thesis using status_done_inv [of T s t j c] i False later by (simp add: p)
    qed (use later False in \<open>simp add: p escrow_destroy_def\<close>)
  qed (use i in \<open>simp add: p\<close>)
qed

interpretation escrows: machine "escrow_tick sha" escrow_inv
  by unfold_locales (rule escrow_tick_inv)

lemma escrow_run_inv: "escrow_inv (escrow_run sha es (T, escrow_empty))"
  unfolding escrow_run_def by (rule escrows.run_inv) (simp add: escrow_empty_def)

section \<open>Vaults that can no longer be released\<close>

definition dead :: "nat \<Rightarrow> int \<times> escrow_state \<Rightarrow> bool" where
  "dead n p \<longleftrightarrow> n < length (es_objs (snd p)) \<and> ev_status (es_objs (snd p) ! n) = Expired \<and>
     ev_releasedAt (es_objs (snd p) ! n) = None \<and> (\<forall>k r. Releasing k n r \<notin> set (es_calls (snd p)))"

lemma settle_sub: "c \<in> set (cs[j := Settled]) \<Longrightarrow> c \<noteq> Settled \<Longrightarrow> c \<in> set cs"
  using set_update_subset_insert [of cs j Settled] by blast

lemma release_done_dead:
  assumes "dead n (T, s)" "j < length (es_calls s)"
  shows "dead n (t, snd (release_done j sub t s))"
proof (cases "es_calls s ! j")
  case (Releasing k m r)
  then have "m \<noteq> n" using assms nth_mem [OF assms(2)] by (auto simp: dead_def)
  with assms(1) show ?thesis
    by (auto simp: release_done_def Releasing dead_def nth_update_if dest: settle_sub split: option.split)
qed (use assms in \<open>simp_all add: release_done_def dead_def\<close>)

lemma status_done_dead:
  assumes "dead n (T, s)" "j < length (es_calls s)"
  shows "dead n (t, snd (status_done j claimed s))"
proof (cases "es_calls s ! j")
  case (Checking k m)
  with assms(1) show ?thesis
    by (auto simp: status_done_def Checking Let_def dead_def nth_update_if dest: settle_sub)
qed (use assms in \<open>simp_all add: status_done_def dead_def\<close>)

lemma escrow_tick_dead: "dead n p \<Longrightarrow> dead n (escrow_tick sha p e)"
proof (cases p; cases e)
  fix T s t step
  assume p: "p = (T, s)" "e = (t, step)" and d: "dead n p"
  show ?thesis
  proof (cases "t < T")
    case False
    show ?thesis
    proof (cases step)
      case (StepCreate iv a as h sub ops)
      then show ?thesis using d False
        by (auto simp: p escrow_create_def Let_def dead_def nth_append split: sum.split option.split)
    next
      case (StepReleaseStart v r)
      then show ?thesis using d False
        by (auto simp: p release_start_def Let_def dead_def split: option.split)
    next
      case (StepReleaseDone j sub)
      then show ?thesis using release_done_dead [of n T s j t sub] d False by (auto simp: p dead_def)
    next
      case (StepStatusStart v)
      then show ?thesis using d False
        by (auto simp: p status_start_def Let_def dead_def split: option.split)
    next
      case (StepStatusDone j c)
      then show ?thesis using status_done_dead [of n T s j t c] d False by (auto simp: p dead_def)
    qed (use d False in \<open>simp add: p escrow_destroy_def dead_def\<close>)
  qed (use d in \<open>simp add: p\<close>)
qed

interpretation dead_escrows: latched_machine "escrow_tick sha" escrow_inv "dead n"
  by unfold_locales (rule escrow_tick_dead)

section \<open>Properties\<close>

text \<open>
  C7: Whatever calls overlap, a vault that is released was released at or after its hold time, and
  has a recipient.
\<close>

theorem escrow_release_after_hold:
  assumes "escrow_run sha es (T, escrow_empty) = (T', s)" "v \<in> set (es_objs s)" "ev_status v = Released"
  shows "\<exists>t r. ev_releasedAt v = Some t \<and> ev_holdUntil v \<le> t \<and> ev_recipientId v = Some r"
proof -
  have "escrow_inv (T', s)" using escrow_run_inv [of sha es T] by (simp only: assms(1))
  with assms(2) have "vault_ok v" by simp
  with assms(3) show ?thesis by (auto simp: vault_ok_def)
qed

definition one_release :: "(int \<times> escrow_step) list" where
  "one_release = [(0, StepCreate ''inv'' 5 ''native'' 100 (Some ''tx'') (Some [Some ''balance''])),
     (50, StepReleaseStart [] ''G''), (100, StepReleaseStart [] ''G''), (101, StepReleaseDone 0 (Some ''tx2''))]"

theorem escrow_release_after_hold_witness:
  "\<exists>t. ev_releasedAt (hd (es_objs (snd (escrow_run (\<lambda>_. []) one_release (0, escrow_empty))))) = Some t \<and> 100 \<le> t"
proof -
  let ?p = "escrow_run (\<lambda>_. []) one_release (0, escrow_empty)"
  have "(let v = hd (es_objs (snd ?p)) in es_objs (snd ?p) \<noteq> [] \<and> ev_status v = Released \<and> ev_holdUntil v = 100)"
    by (simp add: escrow_run_def one_release_def escrow_create_def create_guard_def escrow_parseAsset_def makeVaultId_def Let_def
      escrow_empty_def release_start_def release_done_def)
  then show ?thesis
    using escrow_release_after_hold [of "\<lambda>_. []" one_release 0 "fst ?p" "snd ?p" "hd (es_objs (snd ?p))"] by (auto simp: Let_def)
qed

text \<open>
  Asking for the status after the hold time closes a vault for good. When the funds are not
  claimed yet and no release is in flight, the vault becomes expired, and whatever is called
  later it is never released: the claimable balance is left on the chain.
\<close>

theorem status_check_locks_vault:
  assumes "escrow_run sha es (T0, escrow_empty) = (T, s)" "map_of (es_store s) vid = Some n"
    "ev_status (es_objs s ! n) = Holding" "ev_holdUntil (es_objs s ! n) < t" "T \<le> t"
    "\<forall>k r. Releasing k n r \<notin> set (es_calls s)"
    "s' = snd (escrow_run sha ((t, StepStatusStart vid) # (t, StepStatusDone (length (es_calls s)) False) # es') (T, s))"
  shows "ev_status (es_objs s' ! n) = Expired \<and> ev_releasedAt (es_objs s' ! n) = None"
proof -
  have inv: "escrow_inv (T, s)" using escrow_run_inv [of sha es T0] by (simp only: assms(1))
  have n: "n < length (es_objs s)" by (rule store_lookup [OF inv assms(2)])
  then have "vault_ok (es_objs s ! n)" using inv by simp
  then have nr: "ev_releasedAt (es_objs s ! n) = None" using assms(3) by (simp add: vault_ok_def)
  let ?p = "escrow_tick sha (escrow_tick sha (T, s) (t, StepStatusStart vid)) (t, StepStatusDone (length (es_calls s)) False)"
  have "dead n ?p" using assms(2-6) n nr
    by (auto simp: status_start_def status_done_def Let_def dead_def dest: settle_sub)
  moreover have "escrow_inv ?p" by (intro escrow_tick_inv inv)
  ultimately have "dead n (foldl (escrow_tick sha) ?p es')" by (intro dead_escrows.run_latched)
  moreover have "s' = snd (foldl (escrow_tick sha) ?p es')" unfolding assms(7) escrow_run_def by simp
  ultimately show ?thesis by (simp add: dead_def)
qed

theorem status_check_locks_vault_witness:
  "let s' = snd (escrow_run (\<lambda>_. []) [(101, StepStatusStart []), (101, StepStatusDone 0 False), (102, StepReleaseStart [] ''G'')]
       (escrow_run (\<lambda>_. []) (take 1 one_release) (0, escrow_empty)))
   in ev_status (es_objs s' ! 0) = Expired"
proof -
  let ?p = "escrow_run (\<lambda>_. []) (take 1 one_release) (0, escrow_empty)"
  have "fst ?p = 0" "map_of (es_store (snd ?p)) [] = Some 0" "ev_status (es_objs (snd ?p) ! 0) = Holding"
    "ev_holdUntil (es_objs (snd ?p) ! 0) = 100" "es_calls (snd ?p) = []"
    by (simp_all add: escrow_run_def one_release_def escrow_create_def create_guard_def escrow_parseAsset_def makeVaultId_def Let_def escrow_empty_def)
  with status_check_locks_vault [of "\<lambda>_. []" "take 1 one_release" 0 "fst ?p" "snd ?p" "[]" 0 101 _ "[(102, StepReleaseStart [] ''G'')]", OF _ _ _ _ _ _ refl]
  show ?thesis by (simp add: Let_def)
qed

text \<open>
  A status check that is on its way to the chain when the vault is released marks the released
  vault as expired: its caller reads expired, and so does every later one.
\<close>

theorem late_status_check_overwrites_release:
  assumes "map_of (es_store s) vid = Some n" "n < length (es_objs s)" "ev_status (es_objs s ! n) = Holding"
    "ev_holdUntil (es_objs s ! n) < t" "c = length (es_calls s)"
    "s' = snd (escrow_run sha [(t, StepStatusStart vid), (t, StepReleaseStart vid r), (t, StepReleaseDone (Suc c) (Some h)),
       (t, StepStatusDone c False)] (t, s))"
  shows "ev_status (es_objs s' ! n) = Expired \<and> ev_releasedAt (es_objs s' ! n) = Some t \<and>
         es_events s' = es_events s @ [EscrowReleased n r h, EscrowExpired n]"
proof -
  have st: "escrow_advance sha t s (StepStatusStart vid) = s\<lparr>es_calls := es_calls s @ [Checking vid n]\<rparr>" (is "_ = ?s1")
    using assms(1,3,4) by (simp add: status_start_def Let_def)
  have rs: "escrow_advance sha t ?s1 (StepReleaseStart vid r) = s\<lparr>es_calls := es_calls s @ [Checking vid n, Releasing vid n r]\<rparr>" (is "_ = ?s2")
    using assms(1,3,4) by (simp add: release_start_def Let_def)
  have rd: "es_objs (escrow_advance sha t ?s2 (StepReleaseDone (Suc (length (es_calls s))) (Some h))) =
      (es_objs s)[n := (es_objs s ! n)\<lparr>ev_status := Released, ev_releasedAt := Some t, ev_recipientId := Some r\<rparr>]"
    "es_calls (escrow_advance sha t ?s2 (StepReleaseDone (Suc (length (es_calls s))) (Some h))) = es_calls s @ [Checking vid n, Settled]"
    "es_events (escrow_advance sha t ?s2 (StepReleaseDone (Suc (length (es_calls s))) (Some h))) = es_events s @ [EscrowReleased n r h]"
    by (simp_all add: release_done_def nth_append list_update_append)
  show ?thesis
    unfolding assms(6) escrow_run_def using assms(2)
    by (simp add: st rs del: escrow_advance.simps(2,3,4)) (simp add: rd status_done_def Let_def assms(5) nth_append del: escrow_advance.simps(2,3,4))
qed

theorem late_status_check_overwrites_release_witness:
  "let s = snd (escrow_run (\<lambda>_. []) (take 1 one_release) (0, escrow_empty));
       s' = snd (escrow_run (\<lambda>_. []) [(101, StepStatusStart []), (101, StepReleaseStart [] ''G''),
         (101, StepReleaseDone (Suc 0) (Some ''tx2'')), (101, StepStatusDone 0 False)] (101, s))
   in ev_status (es_objs s' ! 0) = Expired \<and> ev_releasedAt (es_objs s' ! 0) = Some 101"
proof -
  let ?s = "snd (escrow_run (\<lambda>_. []) (take 1 one_release) (0, escrow_empty))"
  have "map_of (es_store ?s) [] = Some 0" "0 < length (es_objs ?s)" "ev_status (es_objs ?s ! 0) = Holding"
    "ev_holdUntil (es_objs ?s ! 0) < 101" "0 = length (es_calls ?s)"
    by (simp_all add: escrow_run_def one_release_def escrow_create_def create_guard_def escrow_parseAsset_def makeVaultId_def Let_def escrow_empty_def)
  from late_status_check_overwrites_release [OF this refl, of "\<lambda>_. []" "''G''" "''tx2''"]
  show ?thesis unfolding Let_def by blast
qed

text \<open>
  When calls do not overlap a vault that was released or expired keeps that status: no release
  and no status check changes it.
\<close>

theorem settled_vault_unchanged:
  assumes "n < length (es_objs s)" "ev_status (es_objs s ! n) \<noteq> Holding"
  shows "es_objs (snd (escrow_release vid r now sub later s)) ! n = es_objs s ! n \<and>
         es_objs (snd (escrow_getStatus vid now claimed s)) ! n = es_objs s ! n"
proof
  show "es_objs (snd (escrow_release vid r now sub later s)) ! n = es_objs s ! n"
    using assms by (auto simp: escrow_release_def release_start_def release_done_def Let_def nth_update_if split: option.split)
  have "ev_status (es_objs s ! m) = Holding" if "ev_status (es_objs s ! m) \<noteq> Released" "ev_status (es_objs s ! m) \<noteq> Expired" for m
    using that by (cases "ev_status (es_objs s ! m)") simp_all
  with assms show "es_objs (snd (escrow_getStatus vid now claimed s)) ! n = es_objs s ! n"
    by (auto simp: escrow_getStatus_def status_start_def status_done_def Let_def nth_update_if split: option.split)
qed

theorem settled_vault_unchanged_witness:
  "let s = snd (escrow_run (\<lambda>_. []) one_release (0, escrow_empty))
   in es_objs (snd (escrow_getStatus [] 200 False s)) ! 0 = es_objs s ! 0"
proof -
  let ?p = "escrow_run (\<lambda>_. []) one_release (0, escrow_empty)"
  have "0 < length (es_objs (snd ?p))" "ev_status (es_objs (snd ?p) ! 0) \<noteq> Holding"
    by (simp_all add: escrow_run_def one_release_def escrow_create_def create_guard_def escrow_parseAsset_def makeVaultId_def Let_def
      escrow_empty_def release_start_def release_done_def)
  with settled_vault_unchanged show ?thesis by (simp add: Let_def)
qed

text \<open>
  The decimal text of an amount is exact: its integer and fraction digits, seven of them, read
  back as the stroops.
\<close>

theorem stroops_text_exact:
  assumes "0 \<le> stroops"
  shows "\<exists>w f. stroopsToDecimal stroops = w @ ''.'' @ f \<and> length f = 7 \<and> (\<forall>c \<in> set (w @ f). is_digit c) \<and>
     int (parse_digits w) * 10000000 + int (parse_digits f) = stroops"
proof -
  obtain m where m: "stroops = int m" using assms by (rule nonneg_int_cases)
  define w f where "w = m div 10000000" and "f = m mod 10000000"
  have ints: "int m div 10000000 = int w" "int m mod 10000000 = int f" by (simp_all add: w_def f_def zdiv_int zmod_int)
  have nat: "show_int (int k) = show_nat k" for k by (simp add: show_int_def)
  have "f < 10 ^ 7" by (simp add: f_def)
  then have "length (pad_start 7 (show_nat f)) = 7" by (intro length_pad_start show_nat_length) simp_all
  moreover have "\<forall>c \<in> set (show_nat w @ pad_start 7 (show_nat f)). is_digit c"
    using show_nat_digits [of w] pad_start_digits [OF show_nat_digits, of 7 f] by simp blast
  moreover have "int w * 10000000 + int f = stroops" unfolding m ints [symmetric] by simp
  moreover have "stroopsToDecimal stroops = show_nat w @ ''.'' @ pad_start 7 (show_nat f)"
    unfolding stroopsToDecimal_def m by (simp only: Let_def ints nat of_nat_less_0_iff if_False)
  ultimately show ?thesis by (metis parse_pad_start parse_show_nat)
qed

theorem stroops_text_exact_witness:
  "\<exists>w f. stroopsToDecimal 12345678 = w @ ''.'' @ f \<and> length f = 7"
  using stroops_text_exact [of 12345678] by auto

end
