(* ===== verification/Fee_Trend.thy ===== *)
theory Fee_Trend
  imports Circular_Buffer
begin

text \<open>
  The fee recommendation: \<open>src/utils/stats.ts\<close> (percentiles) and \<open>src/fees/trend.ts\<close>
  (\<open>FeeTrendAnalyzer\<close> and the moving average), the client of the bounded window.
  The arithmetic on fractions is floating-point: the argument \<open>fl\<close> rounds the exact result of
  each operation to a double. What Horizon answers (\<open>stats.fee_charged.mode\<close>) is an argument of
  \<open>trend_sample\<close>. \<open>NaN\<close> in the moving average is \<open>None\<close>.
\<close>

section \<open>Percentiles\<close>

datatype stats_error = EmptySampleSet | PercentileOutOfRange rat

definition percentile :: "(rat \<Rightarrow> rat) \<Rightarrow> rat list \<Rightarrow> rat \<Rightarrow> stats_error + rat" where
  "percentile fl values percentileTarget =
     (if values = [] then Inl EmptySampleSet
      else if percentileTarget < 0 \<or> percentileTarget > 100 then Inl (PercentileOutOfRange percentileTarget)
      else
        let sorted = js_sort (\<lambda>a b. a - b) values
        in if length sorted = 1 then Inr (sorted ! 0)
           else
             let rank = fl (fl (percentileTarget / 100) * of_nat (length sorted - 1));
                 lowerIndex = nat \<lfloor>rank\<rfloor>;
                 upperIndex = nat \<lceil>rank\<rceil>
             in if lowerIndex = upperIndex then Inr (sorted ! lowerIndex)
                else
                  let lowerValue = sorted ! lowerIndex;
                      upperValue = sorted ! upperIndex;
                      fraction = fl (rank - of_nat lowerIndex)
                  in Inr (fl (lowerValue + fl (fl (upperValue - lowerValue) * fraction))))"

section \<open>The analyzer\<close>

record fee_sample =
  fs_value :: rat
  fs_capturedAt :: int

record fee_trend =
  ft_buffer :: "fee_sample cbuf"
  ft_ttlMs :: int

datatype trend_error =
    WindowSizeRange int
  | NoSamples
  | StatsError stats_error
  | BufferError cbuf_error

definition toWindowCapacity :: "int \<Rightarrow> trend_error + int" where
  "toWindowCapacity sz = (if sz < 5 \<or> sz > 100 then Inl (WindowSizeRange sz) else Inr sz)"

definition trend_new :: "int option \<Rightarrow> int option \<Rightarrow> trend_error + fee_trend" where
  "trend_new windowSize ttlMs =
     rbind (toWindowCapacity (case windowSize of None \<Rightarrow> 20 | Some n \<Rightarrow> n)) (\<lambda>n.
       case cbuf_new n of
         Inl e \<Rightarrow> Inl (BufferError e)
       | Inr b \<Rightarrow> Inr \<lparr>ft_buffer = b, ft_ttlMs = (case ttlMs of None \<Rightarrow> 5 * 60 * 1000 | Some t \<Rightarrow> t)\<rparr>)"

definition trend_sample :: "fee_trend \<Rightarrow> rat \<Rightarrow> int \<Rightarrow> fee_trend" where
  "trend_sample st value now =
     st\<lparr>ft_buffer := cbuf_push \<lparr>fs_value = value, fs_capturedAt = now\<rparr> (ft_buffer st)\<rparr>"

definition evictExpired :: "fee_trend \<Rightarrow> int \<Rightarrow> fee_trend" where
  "evictExpired st now =
     (let cutoff = now - ft_ttlMs st
      in st\<lparr>ft_buffer := snd (evictOldestWhile (\<lambda>s. fs_capturedAt s < cutoff) (ft_buffer st))\<rparr>)"

definition recommendedFee ::
    "(rat \<Rightarrow> rat) \<Rightarrow> fee_trend \<Rightarrow> int \<Rightarrow> rat \<Rightarrow> fee_trend \<times> (trend_error + int)" where
  "recommendedFee fl st now percentileTarget =
     (let st1 = evictExpired st now;
          values = map fs_value (cbuf_toArray (ft_buffer st1))
      in (st1,
          if values = [] then Inl NoSamples
          else case percentile fl values percentileTarget of
                 Inl e \<Rightarrow> Inl (StatsError e)
               | Inr v \<Rightarrow> Inr \<lceil>v\<rceil>))"

definition sampleCount :: "fee_trend \<Rightarrow> int \<Rightarrow> fee_trend \<times> nat" where
  "sampleCount st now = (let st1 = evictExpired st now in (st1, cbuf_size (ft_buffer st1)))"

definition window_sum :: "(rat \<Rightarrow> rat) \<Rightarrow> rat list \<Rightarrow> nat \<Rightarrow> nat \<Rightarrow> rat" where
  "window_sum fl samples lo hi = foldl (\<lambda>s j. fl (s + samples ! j)) 0 [lo..<hi]"

definition computeMovingAverage :: "(rat \<Rightarrow> rat) \<Rightarrow> rat list \<Rightarrow> int \<Rightarrow> trend_error + rat option list" where
  "computeMovingAverage fl samples windowSize =
     (if windowSize < 1 then Inl (WindowSizeRange windowSize)
      else Inr (map (\<lambda>i. if int i < windowSize - 1 then None
                         else Some (fl (window_sum fl samples (i + 1 - nat windowSize) (i + 1) / of_int windowSize)))
                [0..<length samples]))"

section \<open>Lemmas\<close>

interpretation numeric_order: comparator "\<lambda>a b :: rat. a - b"
  by unfold_locales auto

lemma dropWhile_sorted_filter:
  "sorted (map f xs) \<Longrightarrow> dropWhile (\<lambda>x. f x < c) xs = filter (\<lambda>x. c \<le> (f x :: int)) xs"
proof (induction xs)
  case (Cons x xs)
  then show ?case by (auto simp: not_less intro!: filter_True [symmetric])
qed simp


text \<open>
  The client's view of the window, from the interface alone: pushing samples in clock order and
  evicting the expired ones leaves, of the last \<open>n\<close> samples, exactly the fresh ones.
\<close>

context bounded_window
begin

lemma fresh_window:
  assumes "0 < n" and "sorted (map f xs)"
  shows "wlist (snd (wevict (\<lambda>s. f s < (c::int)) (foldl (\<lambda>b x. wpush x b) (wnew n) xs))) =
    filter (\<lambda>s. c \<le> f s) (drop (length xs - n) xs)"
proof -
  have "winv (foldl (\<lambda>b x. wpush x b) (wnew n) xs)"
    using run_push_inv [OF new_inv [OF assms(1)]] by blast
  moreover have "sorted (map f (drop (length xs - n) xs))"
    using assms(2) by (simp add: drop_map [symmetric] sorted_wrt_drop)
  ultimately show ?thesis
    by (simp add: evict_list run_new_list [OF assms(1)] dropWhile_sorted_filter)
qed

end

lemma js_sort_numeric_sorted: "sorted (js_sort (\<lambda>a b. a - b) (xs :: rat list))"
  using numeric_order.sorted_js_sort [of xs] by simp

lemma fee_sample_eta [simp]: "\<lparr>fs_value = fs_value s, fs_capturedAt = fs_capturedAt s\<rparr> = (s :: fee_sample)"
  by (cases s) simp

lemma trend_run_buffer:
  "ft_buffer (foldl (\<lambda>st s. trend_sample st (fs_value s) (fs_capturedAt s)) st (xs :: fee_sample list)) =
     foldl (\<lambda>b x. cbuf_push x b) (ft_buffer st) xs"
  by (induction xs arbitrary: st) (simp_all add: trend_sample_def)

lemma trend_run_ttl:
  "ft_ttlMs (foldl (\<lambda>st s. trend_sample st (fs_value s) (fs_capturedAt s)) st (xs :: fee_sample list)) = ft_ttlMs st"
  by (induction xs arbitrary: st) (simp_all add: trend_sample_def)

lemma trend_new_buffer:
  assumes "trend_new (Some n) t = Inr st"
  shows "0 < n" and "n \<le> 100" and "ft_buffer st = cbuf_make (nat n)"
  using assms by (auto simp: trend_new_def toWindowCapacity_def cbuf_new_def cbuf_make_def split: if_splits)

text \<open>Interpolation between two integers stays between them, rounding included.\<close>

lemma interpolate_between:
  assumes fl: "fl_ok fl" and l: "l = of_int i" "\<bar>i\<bar> \<le> 2 ^ 52" and u: "u = of_int j" "\<bar>j\<bar> \<le> 2 ^ 52"
    and le: "l \<le> u" and fr: "0 \<le> r" "r \<le> 1"
  shows "l \<le> fl (l + fl (fl (u - l) * fl r)) \<and> fl (l + fl (fl (u - l) * fl r)) \<le> u"
proof -
  from l u have "fl (u - l) = u - l"
    using fl_int [OF fl, of "j - i"] by simp
  moreover have "0 \<le> fl r" "fl r \<le> 1"
    using fl_mono [OF fl fr(1)] fl_mono [OF fl fr(2)] fl_0 [OF fl] fl_1 [OF fl] by simp_all
  ultimately have prod: "0 \<le> fl (u - l) * fl r" "fl (u - l) * fl r \<le> fl (u - l)"
    using le by (simp_all add: mult_left_le)
  have "l \<le> l + fl (fl (u - l) * fl r)" "l + fl (fl (u - l) * fl r) \<le> u"
    using fl_mono [OF fl prod(1)] fl_mono [OF fl prod(2)] fl_0 [OF fl] \<open>fl (u - l) = u - l\<close>
      fl_int [OF fl, of "j - i"] l u by simp_all
  then have "fl l \<le> fl (l + fl (fl (u - l) * fl r))" "fl (l + fl (fl (u - l) * fl r)) \<le> fl u"
    using fl_mono [OF fl] by blast+
  moreover have "fl l = l" "fl u = u" using l u fl_int [OF fl] by simp_all
  ultimately show ?thesis by simp
qed

section \<open>Properties\<close>

text \<open>
  For integral samples the percentile is defined and lies between the smallest and the
  largest sample, for every rounding of the intermediate floating-point results that is monotone
  and exact on integers of 53 bits.
\<close>

theorem percentile_within_samples:
  assumes fl: "fl_ok fl" and ne: "values \<noteq> []" and len: "length values \<le> 2 ^ 53"
    and p: "0 \<le> p" "p \<le> 100"
    and ints: "\<forall>v \<in> set values. \<exists>i::int. v = of_int i \<and> \<bar>i\<bar> \<le> 2 ^ 52"
  shows "\<exists>v. percentile fl values p = Inr v \<and> Min (set values) \<le> v \<and> v \<le> Max (set values)"
proof -
  let ?L = "js_sort (\<lambda>a b. a - b) values"
  define r where r_def: "r = fl (fl (p / 100) * of_nat (length ?L - 1))"
  have in_L: "Min (set values) \<le> ?L ! k \<and> ?L ! k \<le> Max (set values)" if "k < length ?L" for k
    using nth_mem [OF that] by simp
  have "fl (p / 100) \<le> 1" "0 \<le> fl (p / 100)"
    using fl_mono [OF fl, of "p / 100" 1] fl_mono [OF fl, of 0 "p / 100"] p fl_0 [OF fl] fl_1 [OF fl] by simp_all
  then have "fl (p / 100) * of_nat (length ?L - 1) \<le> of_nat (length ?L - 1)"
      "0 \<le> fl (p / 100) * of_nat (length ?L - 1)"
    by (simp_all add: mult_left_le_one_le)
  from fl_mono [OF fl this(1)] fl_mono [OF fl this(2)] have r: "0 \<le> r" "r \<le> of_nat (length ?L - 1)"
    unfolding r_def using fl_0 [OF fl] fl_int [OF fl, of "int (length ?L - 1)"] len by simp_all
  have lo: "\<lfloor>r\<rfloor> \<ge> 0" "of_int \<lfloor>r\<rfloor> \<le> r" "r < of_int \<lfloor>r\<rfloor> + 1" using r by simp_all linarith
  have hi: "\<lceil>r\<rceil> \<le> int (length ?L - 1)" using r by (simp add: ceiling_le_iff)
  have "0 < length ?L" using ne by simp
  then have bnd: "nat \<lceil>r\<rceil> < length ?L" using hi by linarith
  then have bnd': "nat \<lfloor>r\<rfloor> < length ?L" using floor_le_ceiling [of r] by linarith
  show ?thesis
  proof (cases "length ?L = 1 \<or> nat \<lfloor>r\<rfloor> = nat \<lceil>r\<rceil>")
    case True
    then have "percentile fl values p = Inr (?L ! (if length ?L = 1 then 0 else nat \<lfloor>r\<rfloor>))"
      using ne p by (auto simp: percentile_def Let_def r_def)
    moreover have "(if length ?L = 1 then 0 else nat \<lfloor>r\<rfloor>) < length ?L"
      using bnd' \<open>0 < length ?L\<close> by presburger
    ultimately show ?thesis using in_L by blast
  next
    case False
    let ?l = "?L ! nat \<lfloor>r\<rfloor>" and ?u = "?L ! nat \<lceil>r\<rceil>"
    have v: "percentile fl values p =
        Inr (fl (?l + fl (fl (?u - ?l) * fl (r - of_nat (nat \<lfloor>r\<rfloor>)))))"
      using False ne p by (auto simp: percentile_def Let_def r_def)
    have "?l \<in> set values" "?u \<in> set values" using nth_mem bnd bnd' by (metis set_js_sort)+
    then obtain i j where ij: "?l = of_int i" "\<bar>i\<bar> \<le> 2 ^ 52" "?u = of_int j" "\<bar>j\<bar> \<le> 2 ^ 52"
      using ints by meson
    have "?l \<le> ?u"
      using bnd by (intro sorted_nth_mono js_sort_numeric_sorted nat_mono floor_le_ceiling)
    moreover have "0 \<le> r - of_nat (nat \<lfloor>r\<rfloor>)" "r - of_nat (nat \<lfloor>r\<rfloor>) \<le> 1"
      using lo by (simp_all add: of_nat_nat)
    ultimately have "?l \<le> fl (?l + fl (fl (?u - ?l) * fl (r - of_nat (nat \<lfloor>r\<rfloor>)))) \<and>
        fl (?l + fl (fl (?u - ?l) * fl (r - of_nat (nat \<lfloor>r\<rfloor>)))) \<le> ?u"
      by (intro interpolate_between [OF fl ij])
    with in_L [OF bnd'] in_L [OF bnd] show ?thesis unfolding v by auto
  qed
qed

theorem percentile_within_samples_witness:
  "\<exists>v. percentile id [300, 100, 200] 75 = Inr v \<and> 100 \<le> v \<and> v \<le> 300"
proof -
  have "\<exists>i::int. (v::rat) = of_int i \<and> \<bar>i\<bar> \<le> 2 ^ 52" if "v \<in> {300, 100, 200}" for v
    using that by (elim insertE) (auto intro: exI [of _ 300] exI [of _ 100] exI [of _ 200])
  then have "\<forall>v \<in> set [300, 100, 200 :: rat]. \<exists>i::int. v = of_int i \<and> \<bar>i\<bar> \<le> 2 ^ 52"
    by simp
  moreover have "fl_ok id" by (simp add: fl_ok_def mono_def)
  ultimately show ?thesis
    using percentile_within_samples [of id "[300, 100, 200]" 75] by simp
qed

text \<open>
  C44: An analyzer that took its samples in clock order recommends from exactly the fresh ones
  among the last \<open>n\<close> samples, \<open>n\<close> the window size: the ceiling of their percentile, and an error
  when none is left. Neither an overwritten nor an expired sample is ever used.
\<close>

theorem recommended_fee_from_fresh_window:
  fixes xs :: "fee_sample list"
  assumes "trend_new (Some n) ttl = Inr st0" and "sorted (map fs_capturedAt xs)"
    and "st = foldl (\<lambda>st s. trend_sample st (fs_value s) (fs_capturedAt s)) st0 xs"
  shows "snd (recommendedFee fl st now p) =
    (let fresh = filter (\<lambda>s. now - ft_ttlMs st0 \<le> fs_capturedAt s) (drop (length xs - nat n) xs)
     in if fresh = [] then Inl NoSamples
        else case percentile fl (map fs_value fresh) p of
               Inl e \<Rightarrow> Inl (StatsError e)
             | Inr v \<Rightarrow> Inr \<lceil>v\<rceil>)"
proof -
  from assms(1) have n: "0 < nat n" and b: "ft_buffer st0 = cbuf_make (nat n)"
    by (simp_all add: trend_new_buffer)
  have "cbuf_toArray (ft_buffer (evictExpired st now)) =
      filter (\<lambda>s. now - ft_ttlMs st0 \<le> fs_capturedAt s) (drop (length xs - nat n) xs)"
    unfolding assms(3) evictExpired_def trend_run_buffer trend_run_ttl b Let_def
    using ring.fresh_window [OF n assms(2)] by simp
  then show ?thesis by (simp add: recommendedFee_def Let_def)
qed

theorem recommended_fee_from_fresh_window_witness:
  "\<exists>st0. trend_new (Some 5) (Some 50) = Inr st0 \<and>
     snd (recommendedFee id (foldl (\<lambda>st s. trend_sample st (fs_value s) (fs_capturedAt s)) st0
       [\<lparr>fs_value = 900, fs_capturedAt = 0\<rparr>, \<lparr>fs_value = 100, fs_capturedAt = 60\<rparr>]) 100 95) = Inr 100"
proof -
  let ?xs = "[\<lparr>fs_value = 900, fs_capturedAt = 0\<rparr>, \<lparr>fs_value = 100, fs_capturedAt = 60\<rparr>]"
  let ?st0 = "\<lparr>ft_buffer = cbuf_make 5, ft_ttlMs = 50\<rparr>"
  have "trend_new (Some 5) (Some 50) = Inr ?st0"
    by (simp add: trend_new_def toWindowCapacity_def cbuf_new_def cbuf_make_def)
  moreover have "sorted (map fs_capturedAt ?xs)" by simp
  ultimately show ?thesis
    using recommended_fee_from_fresh_window [of 5 "Some 50" ?st0 ?xs _ id 100 95]
    by (intro exI [of _ ?st0]) (simp add: percentile_def Let_def)
qed

end
