(* ===== verification/Json.thy ===== *)
theory Json
  imports Prelude
begin

text \<open>
  \<open>JSON.stringify\<close> on plain data: what the SDK hashes and stores. Objects are lists of fields in
  the order of their keys; numbers are integers. The text of a value determines the value, so
  that hashing the text of a record commits to every field of it.
\<close>

datatype json = JNull | JBool bool | JNum int | JStr string | JArr "json list" | JObj "(string \<times> json) list"

definition hex_char :: "nat \<Rightarrow> char" where
  "hex_char d = (if d < 10 then char_of (48 + d) else char_of (87 + d))"

definition backslash :: char where
  "backslash = char_of (92 :: nat)"

definition quote :: char where
  "quote = char_of (34 :: nat)"

definition escape_char :: "char \<Rightarrow> string" where
  "escape_char c =
     (let n = of_char c :: nat
      in if n = 34 then [backslash, quote]
         else if n = 92 then [backslash, backslash]
         else if n = 8 then [backslash, CHR ''b'']
         else if n = 9 then [backslash, CHR ''t'']
         else if n = 10 then [backslash, CHR ''n'']
         else if n = 12 then [backslash, CHR ''f'']
         else if n = 13 then [backslash, CHR ''r'']
         else if n < 32 then [backslash, CHR ''u'', CHR ''0'', CHR ''0'', hex_char (n div 16), hex_char (n mod 16)]
         else [c])"

definition quoted :: "string \<Rightarrow> string" where
  "quoted s = [quote] @ concat (map escape_char s) @ [quote]"

fun stringify :: "json \<Rightarrow> string" and elements :: "json list \<Rightarrow> string" and fields :: "(string \<times> json) list \<Rightarrow> string" where
  "stringify JNull = ''null''"
| "stringify (JBool b) = (if b then ''true'' else ''false'')"
| "stringify (JNum i) = show_int i"
| "stringify (JStr s) = quoted s"
| "stringify (JArr []) = ''[]''"
| "stringify (JArr (v # vs)) = ''['' @ stringify v @ elements vs"
| "stringify (JObj []) = ''{}''"
| "stringify (JObj ((k, v) # fs)) = ''{'' @ quoted k @ '':'' @ stringify v @ fields fs"
| "elements [] = '']''"
| "elements (v # vs) = '','' @ stringify v @ elements vs"
| "fields [] = ''}''"
| "fields ((k, v) # fs) = '','' @ quoted k @ '':'' @ stringify v @ fields fs"

section \<open>The text determines the value\<close>

lemma of_char_eq_iff_nat: "c = d \<longleftrightarrow> (of_char c :: nat) = of_char d"
  by (metis char_of_char)

lemma special_chars [simp]:
  "(of_char backslash :: nat) = 92" "(of_char quote :: nat) = 34"
  by (simp_all add: backslash_def quote_def)

lemma of_hex_char [simp]: "d < 16 \<Longrightarrow> (of_char (hex_char d) :: nat) = (if d < 10 then 48 + d else 87 + d)"
  by (simp add: hex_char_def)

text \<open>Reading back one escaped character.\<close>

definition hex_value :: "char \<Rightarrow> nat" where
  "hex_value c = (if of_char c < (58::nat) then of_char c - 48 else of_char c - 87)"

definition unescape :: "string \<Rightarrow> char \<times> string" where
  "unescape s =
     (if hd s \<noteq> backslash then (hd s, drop 1 s)
      else if s ! 1 = CHR ''b'' then (char_of (8::nat), drop 2 s)
      else if s ! 1 = CHR ''t'' then (char_of (9::nat), drop 2 s)
      else if s ! 1 = CHR ''n'' then (char_of (10::nat), drop 2 s)
      else if s ! 1 = CHR ''f'' then (char_of (12::nat), drop 2 s)
      else if s ! 1 = CHR ''r'' then (char_of (13::nat), drop 2 s)
      else if s ! 1 = CHR ''u'' then (char_of (16 * hex_value (s ! 4) + hex_value (s ! 5)), drop 6 s)
      else (s ! 1, drop 2 s))"

lemma hex_value_char [simp]: "d < 16 \<Longrightarrow> hex_value (hex_char d) = d"
  by (auto simp: hex_value_def)

lemma unescape_escape [simp]: "unescape (escape_char c @ x) = (c, x)"
proof -
  define n where "n = (of_char c :: nat)"
  have c: "c = char_of n" and n: "n < 256" by (simp_all add: n_def)
  have hd: "c \<noteq> backslash" if "n \<noteq> 92" using that by (auto simp: n_def)
  consider "n = 34" | "n = 92" | "n = 8" | "n = 9" | "n = 10" | "n = 12" | "n = 13"
    | (ctl) "n \<noteq> 8" "n \<noteq> 9" "n \<noteq> 10" "n \<noteq> 12" "n \<noteq> 13" "n < 32" | (plain) "n \<noteq> 34" "n \<noteq> 92" "\<not> n < 32"
    by linarith
  then show ?thesis
  proof cases
    case ctl
    then have "escape_char c = [backslash, CHR ''u'', CHR ''0'', CHR ''0'', hex_char (n div 16), hex_char (n mod 16)]"
      by (simp add: escape_char_def n_def [symmetric])
    moreover have "n div 16 < 16" using ctl by simp
    ultimately show ?thesis by (simp add: unescape_def c)
  next
    case plain
    then have "n \<noteq> 8" "n \<noteq> 9" "n \<noteq> 10" "n \<noteq> 12" "n \<noteq> 13" by auto
    with plain have "escape_char c = [c]" by (simp add: escape_char_def n_def [symmetric])
    with hd plain show ?thesis by (simp add: unescape_def)
  qed (simp_all add: escape_char_def unescape_def c quote_def backslash_def char_of_def bit_iff_odd)
qed

lemma escape_prefix_free: "escape_char c @ x = escape_char d @ y \<Longrightarrow> c = d \<and> x = y"
  by (metis Pair_inject unescape_escape)

lemma escape_not_quote: "escape_char c @ x \<noteq> quote # y"
proof
  assume eq: "escape_char c @ x = quote # y"
  have q: "quote \<noteq> backslash" by (simp add: quote_def backslash_def)
  from eq have "unescape (quote # y) = (c, x)" by (metis unescape_escape)
  with q have "c = quote" by (simp add: unescape_def)
  with eq q show False by (simp add: escape_char_def)
qed

lemma escaped_inj:
  "concat (map escape_char s) @ quote # x = concat (map escape_char t) @ quote # y \<Longrightarrow> s = t \<and> x = y"
proof (induction s arbitrary: t)
  case Nil
  then have "t = []" using escape_not_quote [of "hd t" "concat (map escape_char (tl t)) @ quote # y" x] by (cases t) auto
  with Nil show ?case by simp
next
  case (Cons c s)
  then have "t \<noteq> []" using escape_not_quote [of c "concat (map escape_char s) @ quote # x" y] by auto
  then obtain d t' where t: "t = d # t'" by (cases t) auto
  with Cons.prems escape_prefix_free [of c "concat (map escape_char s) @ quote # x" d] Cons.IH [of t'] show ?case by auto
qed

lemma quoted_inj: "quoted s @ x = quoted t @ y \<longleftrightarrow> s = t \<and> x = y"
  using escaped_inj [of s x t y] by (auto simp: quoted_def)

text \<open>An integer ends where the digits end.\<close>

definition ends_number :: "string \<Rightarrow> bool" where
  "ends_number x \<longleftrightarrow> x = [] \<or> \<not> is_digit (hd x) \<and> hd x \<noteq> CHR ''-''"

lemma show_int_delimited:
  assumes "show_int i @ x = show_int j @ y" "ends_number x" "ends_number y" shows "i = j \<and> x = y"
proof -
  let ?P = "\<lambda>c. is_digit c \<or> c = CHR ''-''"
  have tw: "takeWhile ?P (show_int k @ z) = show_int k" if "ends_number z" for k z
  proof -
    have "takeWhile ?P z = []" using that by (cases z) (auto simp: ends_number_def)
    moreover have "\<forall>c \<in> set (show_int k). ?P c" using show_int_chars by blast
    ultimately show ?thesis by (simp add: takeWhile_append2)
  qed
  from tw [OF assms(2), of i] tw [OF assms(3), of j] assms(1) have "show_int i = show_int j" by simp
  with assms(1) show ?thesis by (simp add: show_int_inj)
qed

lemma show_int_head: "\<exists>c cs. show_int i = c # cs \<and> (is_digit c \<or> c = CHR ''-'')"
proof -
  obtain c cs where "show_int i = c # cs" using show_nat_ne by (cases "show_int i") (auto simp: show_int_def split: if_splits)
  with show_int_chars [of c i] show ?thesis by auto
qed

lemma ends_number_elements [simp]: "ends_number (elements vs @ x)" "ends_number (fields fs @ x)"
  by (cases vs; cases fs; auto simp: ends_number_def is_digit_def)+

lemma digit_char_values:
  "\<not> is_digit (CHR ''n'')" "\<not> is_digit (CHR ''t'')" "\<not> is_digit (CHR ''f'')" "\<not> is_digit (CHR ''['')"
  "\<not> is_digit (CHR ''{'')" "\<not> is_digit quote"
  by (simp_all add: is_digit_def)

text \<open>The first character tells the values apart.\<close>

fun head_char :: "json \<Rightarrow> char \<Rightarrow> bool" where
  "head_char JNull c \<longleftrightarrow> c = CHR ''n''"
| "head_char (JBool b) c \<longleftrightarrow> c = (if b then CHR ''t'' else CHR ''f'')"
| "head_char (JNum i) c \<longleftrightarrow> is_digit c \<or> c = CHR ''-''"
| "head_char (JStr s) c \<longleftrightarrow> c = quote"
| "head_char (JArr vs) c \<longleftrightarrow> c = CHR ''[''"
| "head_char (JObj fs) c \<longleftrightarrow> c = CHR ''{''"

lemma stringify_head: "\<exists>c cs. stringify v = c # cs \<and> head_char v c"
  using show_int_head by (cases v rule: stringify.cases) (auto simp: quoted_def)

lemma head_char_same: "head_char v c \<Longrightarrow> head_char w c \<Longrightarrow>
   (case (v, w) of (JNull, JNull) \<Rightarrow> True | (JBool a, JBool b) \<Rightarrow> a = b | (JNum _, JNum _) \<Rightarrow> True
    | (JStr _, JStr _) \<Rightarrow> True | (JArr _, JArr _) \<Rightarrow> True | (JObj _, JObj _) \<Rightarrow> True | _ \<Rightarrow> False)"
  by (cases v; cases w) (auto simp: digit_char_values quote_def char_of_def bit_iff_odd is_digit_def split: if_splits)

lemma same_shape:
  assumes "stringify v @ x = stringify w @ y"
  shows "v = JNull \<Longrightarrow> w = JNull" "v = JBool b \<Longrightarrow> w = JBool b" "v = JNum i \<Longrightarrow> \<exists>j. w = JNum j"
    "v = JStr s \<Longrightarrow> \<exists>t. w = JStr t" "v = JArr vs \<Longrightarrow> \<exists>ws. w = JArr ws" "v = JObj fs \<Longrightarrow> \<exists>gs. w = JObj gs"
proof -
  obtain c cs where c: "stringify v = c # cs" "head_char v c" using stringify_head by blast
  obtain d ds where d: "stringify w = d # ds" "head_char w d" using stringify_head by blast
  from assms c(1) d(1) have "c = d" by simp
  with c(2) d(2) have "head_char v c" "head_char w c" by simp_all
  note same = head_char_same [OF this]
  show "v = JNull \<Longrightarrow> w = JNull" using same by (cases w) auto
  show "v = JBool b \<Longrightarrow> w = JBool b" using same by (cases w) auto
  show "v = JNum i \<Longrightarrow> \<exists>j. w = JNum j" using same by (cases w) auto
  show "v = JStr s \<Longrightarrow> \<exists>t. w = JStr t" using same by (cases w) auto
  show "v = JArr vs \<Longrightarrow> \<exists>ws. w = JArr ws" using same by (cases w) auto
  show "v = JObj fs \<Longrightarrow> \<exists>gs. w = JObj gs" using same by (cases w) auto
qed

lemma value_not_close: "stringify v @ x \<noteq> CHR '']'' # y"
proof
  assume eq: "stringify v @ x = CHR '']'' # y"
  obtain c cs where c: "stringify v = c # cs" "head_char v c" using stringify_head by blast
  with eq have "head_char v (CHR '']'')" by simp
  then show False by (cases v) (auto simp: is_digit_def quote_def char_of_def bit_iff_odd split: if_splits)
qed

lemma key_not_close: "quoted k @ x \<noteq> CHR ''}'' # y"
  by (simp add: quoted_def quote_def char_of_def bit_iff_odd)

lemma stringify_inj_gen:
  "stringify v @ x = stringify w @ y \<Longrightarrow> ends_number x \<Longrightarrow> ends_number y \<Longrightarrow> v = w \<and> x = y"
  "elements vs @ x = elements ws @ y \<Longrightarrow> vs = ws \<and> x = y"
  "fields fs @ x = fields gs @ y \<Longrightarrow> fs = gs \<and> x = y"
proof (induction v and vs and fs arbitrary: x y w and x y ws and x y gs rule: stringify_elements_fields.induct)
  case 1
  with same_shape(1) [OF 1(1) refl] show ?case by simp
next
  case (2 b)
  with same_shape(2) [OF 2(1) refl] show ?case by simp
next
  case (3 i)
  from same_shape(3) [OF 3(1) refl] obtain j where "w = JNum j" by blast
  with 3 show_int_delimited [of i x j y] show ?case by simp
next
  case (4 s)
  from same_shape(4) [OF 4(1) refl] obtain t where "w = JStr t" by blast
  with 4 show ?case by (simp add: quoted_inj)
next
  case 5
  from same_shape(5) [OF 5(1) refl] obtain ws where w: "w = JArr ws" by blast
  with 5 show ?case using value_not_close [symmetric] by (cases ws) auto
next
  case (6 v vs)
  from same_shape(5) [OF 6(3) refl] obtain ws where w: "w = JArr ws" by blast
  with 6(3) value_not_close have "ws \<noteq> []" by (cases ws) auto
  then obtain u us where ws: "ws = u # us" by (cases ws) auto
  with 6(3) w have "stringify v @ elements vs @ x = stringify u @ elements us @ y" by simp
  from 6(1) [OF this] have "v = u" "elements vs @ x = elements us @ y" by auto
  with 6(2) [OF this(2)] w ws show ?case by simp
next
  case 7
  from same_shape(6) [OF 7(1) refl] obtain gs where w: "w = JObj gs" by blast
  with 7 show ?case using key_not_close [symmetric] by (cases gs) auto
next
  case (8 k v fs)
  from same_shape(6) [OF 8(3) refl] obtain gs where w: "w = JObj gs" by blast
  with 8(3) key_not_close have "gs \<noteq> []" by (cases gs) auto
  then obtain l u gs' where gs: "gs = (l, u) # gs'" by (cases gs) auto
  with 8(3) w have kl: "k = l" and eq: "stringify v @ fields fs @ x = stringify u @ fields gs' @ y" by (simp_all add: quoted_inj)
  from 8(1) [OF eq] have "v = u" "fields fs @ x = fields gs' @ y" by auto
  with 8(2) [OF this(2)] w gs kl show ?case by simp
next
  case 9
  then show ?case by (cases ws) auto
next
  case (10 v vs)
  from 10(3) obtain u us where ws: "ws = u # us" by (cases ws) auto
  with 10(3) have "stringify v @ elements vs @ x = stringify u @ elements us @ y" by simp
  from 10(1) [OF this] have "v = u" "elements vs @ x = elements us @ y" by auto
  with 10(2) [OF this(2)] ws show ?case by simp
next
  case 11
  then show ?case by (cases gs) auto
next
  case (12 k v fs)
  from 12(3) obtain l u gs' where gs: "gs = (l, u) # gs'" by (cases gs) auto
  with 12(3) have kl: "k = l" and eq: "stringify v @ fields fs @ x = stringify u @ fields gs' @ y" by (simp_all add: quoted_inj)
  from 12(1) [OF eq] have "v = u" "fields fs @ x = fields gs' @ y" by auto
  with 12(2) [OF this(2)] gs kl show ?case by simp
qed

lemma stringify_inj: "stringify v = stringify w \<longleftrightarrow> v = w"
  using stringify_inj_gen(1) [of v "[]" w "[]"] by (auto simp: ends_number_def)

end
