(* ===== verification/Merkle.thy ===== *)
theory Merkle
  imports Json Invoice_State
begin

text \<open>
  Merkle trees: \<open>src/merkle.ts\<close>, and the tree of \<open>src/audit/AuditTrailHasher.ts\<close>, which pairs hashes in
  the same way. The hash function is an argument \<open>sha\<close>, from strings to strings: the code gets
  it from the platform. What the theorems use of it is that its outputs are not empty, or have a
  fixed length; nothing is assumed about collisions, they are the alternative in the conclusion.
  A payment prints as JSON with its amount as a string, its fields in the order of the interface
  and the undefined ones left out.
\<close>

section \<open>Building the tree\<close>

definition hashPair :: "(string \<Rightarrow> string) \<Rightarrow> string \<Rightarrow> string \<Rightarrow> string" where
  "hashPair sha left right = sha (left @ right)"

text \<open>One pass of the loop over a layer: a last node without a partner is paired with itself.\<close>

fun pair_up :: "(string \<Rightarrow> string) \<Rightarrow> string list \<Rightarrow> string list" where
  "pair_up sha [] = []"
| "pair_up sha [x] = [hashPair sha x x]"
| "pair_up sha (x # y # rest) = hashPair sha x y # pair_up sha rest"

lemma length_pair_up [simp]: "length (pair_up sha xs) = (length xs + 1) div 2"
  by (induction sha xs rule: pair_up.induct) auto

function layers_from :: "(string \<Rightarrow> string) \<Rightarrow> string list \<Rightarrow> string list list" where
  "layers_from sha cur = (if length cur > 1 then cur # layers_from sha (pair_up sha cur) else [cur])"
  by pat_completeness auto
termination
  by (relation "measure (\<lambda>(sha, cur). length cur)") auto

declare layers_from.simps [simp del]

definition buildLayers :: "(string \<Rightarrow> string) \<Rightarrow> string list \<Rightarrow> string list list" where
  "buildLayers sha leaves = (if leaves = [] then [[sha []]] else layers_from sha leaves)"

section \<open>Proofs of membership\<close>

record merkle_proof =
  mp_leaf :: string
  mp_path :: "string list"
  mp_root :: string
  mp_index :: "int option"

datatype merkle_error = IndexOutOfRange int nat

text \<open>A field that \<open>JSON.stringify\<close> leaves out when it is \<open>undefined\<close>.\<close>

definition optional :: "string \<Rightarrow> ('a \<Rightarrow> json) \<Rightarrow> 'a option \<Rightarrow> (string \<times> json) list" where
  "optional k f v = (case v of None \<Rightarrow> [] | Some x \<Rightarrow> [(k, f x)])"

definition payment_json :: "payment \<Rightarrow> json" where
  "payment_json p = JObj
     ([(''payer'', JStr (pay_payer p)), (''amount'', JStr (show_int (pay_amount p)))] @
      optional ''ledger'' JNum (pay_ledger p) @ optional ''timestamp'' JNum (pay_timestamp p) @
      optional ''donateOnFailure'' JBool (pay_donateOnFailure p))"

definition raw_leaf :: "string \<Rightarrow> nat \<Rightarrow> payment \<Rightarrow> string" where
  "raw_leaf invoiceId i p = invoiceId @ '':'' @ show_nat i @ '':'' @ stringify (payment_json p)"

text \<open>The loop over the layers up to the last but one, collecting the siblings.\<close>

definition sibling_of :: "string list \<Rightarrow> nat \<Rightarrow> string" where
  "sibling_of layer idx =
     (let isRightNode = (idx mod 2 = 1);
          siblingIndex = (if isRightNode then idx - 1 else idx + 1)
      in if siblingIndex < length layer then layer ! siblingIndex else layer ! idx)"

fun siblings_path :: "string list list \<Rightarrow> nat \<Rightarrow> string list" where
  "siblings_path [] idx = []"
| "siblings_path [layer] idx = []"
| "siblings_path (layer # next # rest) idx = sibling_of layer idx # siblings_path (next # rest) (idx div 2)"

definition generateMerkleProof ::
    "(string \<Rightarrow> string) \<Rightarrow> string \<Rightarrow> int \<Rightarrow> payment list \<Rightarrow> merkle_error + merkle_proof" where
  "generateMerkleProof sha invoiceId paymentIndex payments =
     (if payments = [] then
        let rawLeaf = ''payment-'' @ invoiceId @ ''-'' @ show_int paymentIndex
        in Inr \<lparr>mp_leaf = rawLeaf, mp_path = [], mp_root = sha rawLeaf, mp_index = Some 0\<rparr>
      else if paymentIndex < 0 \<or> paymentIndex \<ge> int (length payments)
      then Inl (IndexOutOfRange paymentIndex (length payments))
      else
        let rawLeaves = map (\<lambda>(i, p). raw_leaf invoiceId i p) (enumerate 0 payments);
            layers = buildLayers sha (map sha rawLeaves)
        in Inr \<lparr>mp_leaf = rawLeaves ! nat paymentIndex,
                mp_path = siblings_path layers (nat paymentIndex),
                mp_root = last layers ! 0,
                mp_index = Some paymentIndex\<rparr>)"

text \<open>\<open>None\<close>: the loop met an empty sibling and the code returned \<open>false\<close>.\<close>

fun fold_path :: "(string \<Rightarrow> string) \<Rightarrow> string \<Rightarrow> int \<Rightarrow> string list \<Rightarrow> string option" where
  "fold_path sha computed index [] = Some computed"
| "fold_path sha computed index (sibling # rest) =
     (if sibling = [] then None
      else fold_path sha
             (if index mod 2 = 1 then hashPair sha sibling computed else hashPair sha computed sibling)
             (index div 2) rest)"

definition verifyMerkleProof :: "(string \<Rightarrow> string) \<Rightarrow> merkle_proof \<Rightarrow> bool" where
  "verifyMerkleProof sha p =
     (if mp_leaf p = [] \<or> mp_root p = [] then False
      else
        let computed = sha (mp_leaf p)
        in if mp_path p = [] then computed = mp_root p
           else
             let index = (case mp_index p of None \<Rightarrow> 0 | Some i \<Rightarrow> i)
             in if index < 0 then False
                else (case fold_path sha computed index (mp_path p) of
                        None \<Rightarrow> False | Some c \<Rightarrow> c = mp_root p))"

text \<open>\<open>verifyProof\<close> has no index: every sibling is taken to be on the right.\<close>

fun fold_right_path :: "(string \<Rightarrow> string) \<Rightarrow> string \<Rightarrow> string list \<Rightarrow> string option" where
  "fold_right_path sha computed [] = Some computed"
| "fold_right_path sha computed (sibling # rest) =
     (if sibling = [] then None else fold_right_path sha (hashPair sha computed sibling) rest)"

definition verifyProof :: "(string \<Rightarrow> string) \<Rightarrow> string \<Rightarrow> string list \<Rightarrow> string \<Rightarrow> bool" where
  "verifyProof sha leaf proof_path rt =
     (if leaf = [] \<or> rt = [] then False
      else if proof_path = [] then sha leaf = rt
      else (case fold_right_path sha (sha leaf) proof_path of None \<Rightarrow> False | Some c \<Rightarrow> c = rt))"

section \<open>Lemmas\<close>

lemma layers_from_ne [simp]: "layers_from sha cur \<noteq> []"
  by (subst layers_from.simps) simp

lemma pair_up_nth:
  "k < length (pair_up sha xs) \<Longrightarrow>
   pair_up sha xs ! k = hashPair sha (xs ! (2 * k)) (if 2 * k + 1 < length xs then xs ! (2 * k + 1) else xs ! (2 * k))"
proof (induction sha xs arbitrary: k rule: pair_up.induct)
  case (3 sha x y rest)
  then show ?case by (cases k) (auto simp: nth_Cons')
qed auto

text \<open>A node of the next layer is the pair of a node and its sibling, in the order of the index.\<close>

lemma pair_up_parent:
  assumes "idx < length xs"
  shows "pair_up sha xs ! (idx div 2) =
    (if idx mod 2 = 1 then hashPair sha (sibling_of xs idx) (xs ! idx) else hashPair sha (xs ! idx) (sibling_of xs idx))"
proof -
  have "idx div 2 < length (pair_up sha xs)" using assms by simp
  note nth = pair_up_nth [OF this]
  show ?thesis
  proof (cases "idx mod 2 = 1")
    case True
    then have "2 * (idx div 2) = idx - 1" "2 * (idx div 2) + 1 = idx" "idx - 1 < length xs"
      using assms by presburger+
    with True assms show ?thesis unfolding nth sibling_of_def by (simp add: Let_def)
  next
    case False
    then have "2 * (idx div 2) = idx" by presburger
    with False show ?thesis unfolding nth sibling_of_def by (simp add: Let_def)
  qed
qed

lemma sibling_in: "idx < length xs \<Longrightarrow> sibling_of xs idx \<in> set xs"
  by (auto simp: sibling_of_def Let_def)

lemma div2_less: "idx < length xs \<Longrightarrow> 1 < length xs \<Longrightarrow> idx div 2 < length (pair_up sha xs)"
  by simp

lemma int_half: "int idx mod 2 = 1 \<longleftrightarrow> idx mod 2 = 1" "int idx div 2 = int (idx div 2)"
  by (auto simp: zdiv_int zmod_int) presburger+

lemma siblings_layers_from:
  "siblings_path (layers_from sha xs) idx =
    (if 1 < length xs then sibling_of xs idx # siblings_path (layers_from sha (pair_up sha xs)) (idx div 2) else [])"
  by (subst layers_from.simps) (cases "layers_from sha (pair_up sha xs)"; simp)

lemma last_layers_from:
  "last (layers_from sha xs) = (if 1 < length xs then last (layers_from sha (pair_up sha xs)) else xs)"
  by (subst layers_from.simps) simp

text \<open>Following the generated path from a leaf reaches the root.\<close>

lemma pair_up_ne: "(\<And>s. sha s \<noteq> []) \<Longrightarrow> [] \<notin> set (pair_up sha xs)"
  by (induction sha xs rule: pair_up.induct) (auto simp: hashPair_def dest: sym)

lemma fold_generated_path:
  assumes sha: "\<And>s. sha s \<noteq> []"
  shows "idx < length xs \<Longrightarrow> [] \<notin> set xs \<Longrightarrow>
    fold_path sha (xs ! idx) (int idx) (siblings_path (layers_from sha xs) idx) = Some (last (layers_from sha xs) ! 0)"
proof (induction "length xs" arbitrary: xs idx rule: less_induct)
  case less
  show ?case
  proof (cases "1 < length xs")
    case True
    let ?up = "pair_up sha xs"
    have "sibling_of xs idx \<noteq> []" using sibling_in [OF less.prems(1)] less.prems(2) by metis
    then have "fold_path sha (xs ! idx) (int idx) (siblings_path (layers_from sha xs) idx) =
        fold_path sha (?up ! (idx div 2)) (int (idx div 2)) (siblings_path (layers_from sha ?up) (idx div 2))"
      using True by (simp add: siblings_layers_from [of sha xs] pair_up_parent [OF less.prems(1)] int_half)
    also have "\<dots> = Some (last (layers_from sha ?up) ! 0)"
      using True less.prems(1) pair_up_ne [of sha xs] sha by (intro less.hyps) auto
    finally show ?thesis using True by (simp add: last_layers_from [of sha xs])
  next
    case False
    with less.prems have "length xs = 1" "idx = 0" by linarith+
    then show ?thesis using siblings_layers_from [of sha xs] last_layers_from [of sha xs] by simp
  qed
qed

subsection \<open>What is hashed\<close>

fun pair_inputs :: "string list \<Rightarrow> string list" where
  "pair_inputs [] = []"
| "pair_inputs [x] = [x @ x]"
| "pair_inputs (x # y # rest) = (x @ y) # pair_inputs rest"

lemma pair_up_map: "pair_up sha xs = map sha (pair_inputs xs)"
  by (induction sha xs rule: pair_up.induct) (simp_all add: hashPair_def)

text \<open>The strings hashed for the inner nodes of a tree, and those hashed along a path.\<close>

definition inner_inputs :: "(string \<Rightarrow> string) \<Rightarrow> string list \<Rightarrow> string list" where
  "inner_inputs sha xs = concat (map pair_inputs (butlast (layers_from sha xs)))"

fun path_inputs :: "(string \<Rightarrow> string) \<Rightarrow> string \<Rightarrow> int \<Rightarrow> string list \<Rightarrow> string list" where
  "path_inputs sha computed index [] = []"
| "path_inputs sha computed index (s # rest) =
     (let str = (if index mod 2 = 1 then s @ computed else computed @ s)
      in str # path_inputs sha (sha str) (index div 2) rest)"

definition collides :: "(string \<Rightarrow> string) \<Rightarrow> string list \<Rightarrow> string list \<Rightarrow> bool" where
  "collides sha xs ys \<longleftrightarrow> (\<exists>x \<in> set xs. \<exists>y \<in> set ys. x \<noteq> y \<and> sha x = sha y)"

lemma collides_mono: "collides sha xs ys \<Longrightarrow> set xs \<subseteq> set xs' \<Longrightarrow> set ys \<subseteq> set ys' \<Longrightarrow> collides sha xs' ys'"
  unfolding collides_def by blast

lemma inner_inputs_step:
  "inner_inputs sha xs = (if 1 < length xs then pair_inputs xs @ inner_inputs sha (pair_up sha xs) else [])"
  unfolding inner_inputs_def by (subst layers_from.simps) simp

lemma length_layers_from:
  "length (layers_from sha xs) = (if 1 < length xs then Suc (length (layers_from sha (pair_up sha xs))) else 1)"
  by (subst layers_from.simps) simp

lemma pair_inputs_nth:
  "idx < length xs \<Longrightarrow>
   pair_inputs xs ! (idx div 2) = (if idx mod 2 = 1 then sibling_of xs idx @ xs ! idx else xs ! idx @ sibling_of xs idx)"
proof -
  assume idx: "idx < length xs"
  have "pair_inputs xs ! (idx div 2) = pair_up (\<lambda>x. x) xs ! (idx div 2)" by (simp add: pair_up_map)
  then show ?thesis using pair_up_parent [OF idx, of "\<lambda>x. x"] by (simp add: hashPair_def)
qed

text \<open>A path of the right length to the root of a tree starts at the leaf of its index, or collides.\<close>

lemma fold_path_sound:
  assumes len: "\<And>s. length (sha s) = L"
  shows "idx < length xs \<Longrightarrow> \<forall>x \<in> set xs. length x = L \<Longrightarrow> length c = L \<Longrightarrow>
    length p = length (layers_from sha xs) - 1 \<Longrightarrow> fold_path sha c (int idx) p = Some (last (layers_from sha xs) ! 0) \<Longrightarrow>
    c = xs ! idx \<or> collides sha (inner_inputs sha xs) (path_inputs sha c (int idx) p)"
proof (induction "length xs" arbitrary: xs idx c p rule: less_induct)
  case less
  show ?case
  proof (cases "1 < length xs")
    case True
    let ?up = "pair_up sha xs"
    have lp: "length p = length (layers_from sha ?up)" "length (layers_from sha ?up) > 0"
      using less.prems(4) True length_layers_from [of sha xs] by simp_all
    then obtain s q where p: "p = s # q" by (cases p) auto
    with lp have q: "length q = length (layers_from sha ?up) - 1" by simp
    define str where "str = (if idx mod 2 = 1 then s @ c else c @ s)"
    have fold: "fold_path sha (sha str) (int (idx div 2)) q = Some (last (layers_from sha ?up) ! 0)"
      using less.prems(5) True by (auto simp: p str_def hashPair_def int_half last_layers_from [of sha xs] split: if_splits)
    have inputs: "path_inputs sha c (int idx) p = str # path_inputs sha (sha str) (int (idx div 2)) q"
      by (simp add: p str_def int_half Let_def)
    have up: "\<forall>x \<in> set ?up. length x = L" by (auto simp: pair_up_map len)
    have below: "idx div 2 < length ?up" using True less.prems(1) by simp
    have "length ?up < length xs" using True by simp
    from less.hyps [OF this below up len q fold]
    consider (same) "sha str = ?up ! (idx div 2)"
      | (coll) "collides sha (inner_inputs sha ?up) (path_inputs sha (sha str) (int (idx div 2)) q)" by auto
    then show ?thesis
    proof cases
      case same
      have k: "idx div 2 < length (pair_inputs xs)" using below by (simp add: pair_up_map)
      then have mem: "pair_inputs xs ! (idx div 2) \<in> set (inner_inputs sha xs)"
        using True by (subst inner_inputs_step) auto
      have eq: "sha (pair_inputs xs ! (idx div 2)) = sha str" using same k by (simp add: pair_up_map)
      show ?thesis
      proof (cases "pair_inputs xs ! (idx div 2) = str")
        case True
        with pair_inputs_nth [OF less.prems(1)] less.prems(1,2,3) have "c = xs ! idx"
          by (auto simp: str_def split: if_splits)
        then show ?thesis by simp
      next
        case False
        with eq mem inputs show ?thesis by (auto simp: collides_def)
      qed
    next
      case coll
      then have "collides sha (inner_inputs sha xs) (path_inputs sha c (int idx) p)"
        unfolding inputs by (rule collides_mono) (use True in \<open>auto simp: inner_inputs_step [of sha xs]\<close>)
      then show ?thesis by simp
    qed
  next
    case False
    with less.prems have "length xs = 1" "idx = 0" by linarith+
    then show ?thesis using less.prems(4,5) last_layers_from [of sha xs] length_layers_from [of sha xs] by simp
  qed
qed

lemma siblings_length: "length (siblings_path (layers_from sha xs) idx) = length (layers_from sha xs) - 1"
proof (induction "length xs" arbitrary: xs idx rule: less_induct)
  case less
  then show ?case
    by (subst siblings_layers_from, subst length_layers_from) (auto simp: Suc_diff_1)
qed

lemma last_layer_ne:
  "xs \<noteq> [] \<Longrightarrow> (\<And>s. sha s \<noteq> []) \<Longrightarrow> [] \<notin> set xs \<Longrightarrow> last (layers_from sha xs) ! 0 \<noteq> []"
proof (induction "length xs" arbitrary: xs rule: less_induct)
  case less
  show ?case
  proof (cases "1 < length xs")
    case True
    then have "length (pair_up sha xs) < length xs" "pair_up sha xs \<noteq> []" by (simp_all flip: length_greater_0_conv)
    from less.hyps [OF this less.prems(2)] pair_up_ne [of sha xs] less.prems(2) True show ?thesis
      by (subst last_layers_from) simp
  next
    case False
    with less.prems show ?thesis by (subst last_layers_from) (cases xs; auto)
  qed
qed

definition raw_leaves :: "string \<Rightarrow> payment list \<Rightarrow> string list" where
  "raw_leaves invoiceId payments = map (\<lambda>(i, p). raw_leaf invoiceId i p) (enumerate 0 payments)"

lemma enumerate_Nil_iff [simp]: "enumerate n xs = [] \<longleftrightarrow> xs = []"
  by (cases xs) auto

lemma raw_leaves_Nil_iff [simp]: "raw_leaves invoiceId payments = [] \<longleftrightarrow> payments = []"
  by (simp add: raw_leaves_def)

lemma length_raw_leaves [simp]: "length (raw_leaves invoiceId payments) = length payments"
  by (simp add: raw_leaves_def)

lemma generate_shape:
  assumes "payments \<noteq> []" "generateMerkleProof sha invoiceId i payments = Inr p"
  shows "0 \<le> i" "nat i < length payments" "mp_index p = Some i" "mp_leaf p = raw_leaves invoiceId payments ! nat i"
    "mp_path p = siblings_path (layers_from sha (map sha (raw_leaves invoiceId payments))) (nat i)"
    "mp_root p = last (layers_from sha (map sha (raw_leaves invoiceId payments))) ! 0"
  using assms by (auto simp: generateMerkleProof_def Let_def raw_leaves_def buildLayers_def split: if_splits)

lemma raw_leaf_ne: "idx < length payments \<Longrightarrow> raw_leaves invoiceId payments ! idx \<noteq> []"
  by (simp add: raw_leaves_def raw_leaf_def nth_enumerate_eq)

section \<open>Properties\<close>

text \<open>
  C30: Every generated proof verifies: for every invoice, every list of payments and every index in
  range, and for the single-leaf proof of an empty list, whatever the hash function, as long as it
  never returns the empty string.
\<close>

theorem merkle_generated_proof_verifies:
  assumes "\<And>s. sha s \<noteq> []" and "generateMerkleProof sha invoiceId i payments = Inr p"
  shows "verifyMerkleProof sha p"
proof (cases "payments = []")
  case True
  with assms show ?thesis by (auto simp: generateMerkleProof_def verifyMerkleProof_def Let_def)
next
  case False
  note p = generate_shape [OF False assms(2)]
  let ?hs = "map sha (raw_leaves invoiceId payments)"
  have ne: "[] \<notin> set ?hs" using assms(1) by (auto dest: sym)
  have "fold_path sha (?hs ! nat i) (int (nat i)) (siblings_path (layers_from sha ?hs) (nat i)) = Some (mp_root p)"
    unfolding p(6) using assms(1) p(2) ne by (intro fold_generated_path) auto
  then have fold: "fold_path sha (sha (mp_leaf p)) i (mp_path p) = Some (mp_root p)"
    using p(1,2) by (simp add: p(4,5))
  moreover have "mp_leaf p \<noteq> []" using raw_leaf_ne [OF p(2)] by (simp add: p(4))
  moreover have "mp_root p \<noteq> []" unfolding p(6) using assms(1) ne False by (intro last_layer_ne) auto
  ultimately show ?thesis using p(1) by (auto simp: verifyMerkleProof_def Let_def p(3))
qed

definition sample_payments :: "payment list" where
  "sample_payments = map (\<lambda>(a, n). \<lparr>pay_payer = a, pay_amount = n, pay_ledger = None, pay_timestamp = Some 7,
     pay_donateOnFailure = None\<rparr>) [(''GA'', 5), (''GB'', 6), (''GC'', 7)]"

text \<open>A stand-in for the hash: the first four characters.\<close>

definition first_four :: "string \<Rightarrow> string" where
  "first_four s = take 4 (s @ ''----'')"

lemma first_four_length: "length (first_four s) = 4"
  by (simp add: first_four_def)

lemma first_four_ne: "first_four s \<noteq> []"
  using first_four_length [of s] by auto

lemma sample_proof: "\<exists>p. generateMerkleProof first_four ''7'' 2 sample_payments = Inr p"
  by (simp add: generateMerkleProof_def sample_payments_def Let_def)

theorem merkle_generated_proof_verifies_witness:
  "\<exists>p. generateMerkleProof first_four ''7'' 2 sample_payments = Inr p \<and> verifyMerkleProof first_four p"
proof -
  obtain p where p: "generateMerkleProof first_four ''7'' 2 sample_payments = Inr p" using sample_proof by blast
  from merkle_generated_proof_verifies [OF first_four_ne p] p show ?thesis by blast
qed

text \<open>
  C31: A proof with the root, the index and the path length of a generated proof, but any siblings
  and any leaf, is only accepted for the payment at that index, unless two different strings among
  those hashed for the tree and for the proof have the same hash.
\<close>

theorem merkle_proof_sound:
  assumes "\<And>s. length (sha s) = L" and "payments \<noteq> []"
    and "generateMerkleProof sha invoiceId i payments = Inr p"
    and "mp_root q = mp_root p" "mp_index q = mp_index p" "length (mp_path q) = length (mp_path p)"
    and "verifyMerkleProof sha q"
  shows "mp_leaf q = mp_leaf p \<or>
    collides sha (raw_leaves invoiceId payments @ inner_inputs sha (map sha (raw_leaves invoiceId payments)))
      (mp_leaf q # path_inputs sha (sha (mp_leaf q)) i (mp_path q))"
proof -
  note p = generate_shape [OF assms(2,3)]
  let ?hs = "map sha (raw_leaves invoiceId payments)"
  let ?in = "inner_inputs sha ?hs"
  have "fold_path sha (sha (mp_leaf q)) i (mp_path q) = Some (mp_root q)"
    using assms(7) p(1) by (cases "mp_path q") (auto simp: verifyMerkleProof_def Let_def assms(5) p(3) split: if_splits option.splits)
  then have fold: "fold_path sha (sha (mp_leaf q)) (int (nat i)) (mp_path q) = Some (last (layers_from sha ?hs) ! 0)"
    using p(1) by (simp add: assms(4) p(6))
  have "length (mp_path q) = length (layers_from sha ?hs) - 1" by (simp add: assms(6) p(5) siblings_length)
  from fold_path_sound [OF assms(1) _ _ assms(1) this fold] p(2)
  consider (leaf) "sha (mp_leaf q) = ?hs ! nat i"
    | (coll) "collides sha ?in (path_inputs sha (sha (mp_leaf q)) (int (nat i)) (mp_path q))"
    by (auto simp: assms(1))
  then show ?thesis
  proof cases
    case leaf
    have "mp_leaf p \<in> set (raw_leaves invoiceId payments)" "sha (mp_leaf p) = sha (mp_leaf q)"
      using p(2) leaf by (simp_all add: p(4))
    then have "mp_leaf q = mp_leaf p \<or> collides sha (raw_leaves invoiceId payments) [mp_leaf q]"
      unfolding collides_def by (metis list.set_intros(1))
    then show ?thesis by (auto intro: collides_mono)
  next
    case coll
    then have "collides sha (raw_leaves invoiceId payments @ ?in)
        (mp_leaf q # path_inputs sha (sha (mp_leaf q)) i (mp_path q))"
      by (rule collides_mono) (use p(1) in auto)
    then show ?thesis by simp
  qed
qed

theorem merkle_proof_sound_witness:
  "\<exists>p. generateMerkleProof first_four ''7'' 2 sample_payments = Inr p \<and>
    (mp_leaf (p\<lparr>mp_leaf := ''7:2:forged''\<rparr>) = mp_leaf p \<or>
     collides first_four (raw_leaves ''7'' sample_payments @
         inner_inputs first_four (map first_four (raw_leaves ''7'' sample_payments)))
       (''7:2:forged'' # path_inputs first_four (first_four ''7:2:forged'') 2 (mp_path p)))"
proof -
  obtain p where p: "generateMerkleProof first_four ''7'' 2 sample_payments = Inr p" using sample_proof by blast
  have ne: "sample_payments \<noteq> []" by (simp add: sample_payments_def)
  note shape = generate_shape [OF ne p]
  have leaf: "mp_leaf p = ''7:2:'' @ stringify (payment_json (sample_payments ! 2))"
  proof -
    have "enumerate 0 sample_payments ! 2 = (2, sample_payments ! 2)" using shape(2) by (subst nth_enumerate_eq) auto
    moreover have "show_nat 2 = ''2''" by code_simp
    ultimately show ?thesis using shape(2,4) by (simp add: raw_leaves_def raw_leaf_def)
  qed
  then have "first_four (mp_leaf p) = first_four ''7:2:forged''" by (simp add: first_four_def)
  moreover have "mp_leaf p \<noteq> []" by (simp add: leaf)
  ultimately have "verifyMerkleProof first_four (p\<lparr>mp_leaf := ''7:2:forged''\<rparr>)"
    using merkle_generated_proof_verifies [OF first_four_ne p]
    by (simp add: verifyMerkleProof_def Let_def cong: option.case_cong split: if_splits)
  from merkle_proof_sound [OF first_four_length ne p _ _ _ this] p show ?thesis by auto
qed

text \<open>
  Leaves and inner nodes are hashed alike, so the concatenation of two hashes passes as a
  payment: for two payments a proof without siblings whose leaf is that concatenation verifies
  against the root of the tree.
\<close>

theorem inner_node_passes_as_leaf:
  assumes "\<And>s. sha s \<noteq> []" and "generateMerkleProof sha invoiceId 0 [p1, p2] = Inr p"
  shows "verifyMerkleProof sha \<lparr>mp_leaf = sha (raw_leaf invoiceId 0 p1) @ sha (raw_leaf invoiceId 1 p2),
    mp_path = [], mp_root = mp_root p, mp_index = mp_index p\<rparr>"
proof -
  have "mp_root p = sha (sha (raw_leaf invoiceId 0 p1) @ sha (raw_leaf invoiceId 1 p2))"
    using generate_shape(6) [OF _ assms(2)]
    by (simp add: raw_leaves_def layers_from.simps hashPair_def)
  with assms(1) show ?thesis by (simp add: verifyMerkleProof_def Let_def)
qed

theorem inner_node_passes_as_leaf_witness:
  "verifyMerkleProof first_four \<lparr>mp_leaf = ''7:0:7:1:'', mp_path = [], mp_root = ''7:0:'', mp_index = Some 0\<rparr>"
proof -
  let ?ps = "[sample_payments ! 0, sample_payments ! 1]"
  have sh: "show_nat 0 = ''0''" "show_nat (Suc 0) = ''1''" by code_simp+
  have e: "\<exists>p. generateMerkleProof first_four ''7'' 0 ?ps = Inr p" by (simp add: generateMerkleProof_def Let_def)
  then obtain p where p: "generateMerkleProof first_four ''7'' 0 ?ps = Inr p" by blast
  have "mp_root p = ''7:0:''" "mp_index p = Some 0" using generate_shape(3,6) [OF _ p]
    by (simp_all add: raw_leaves_def layers_from.simps hashPair_def first_four_def raw_leaf_def sh)
  with inner_node_passes_as_leaf [OF first_four_ne p] show ?thesis by (simp add: first_four_def raw_leaf_def sh)
qed

end
