(* ===== verification/Hash_Chain.thy ===== *)
theory Hash_Chain
  imports Merkle
begin

text \<open>
  Chains of hashes: \<open>src/receipts/ReceiptChain.ts\<close> (payment receipts) and
  \<open>src/audit/AuditTrailHasher.ts\<close> (audit events, with a Merkle root over the chain). Both hash the
  JSON of an entry together with the hash of its predecessor; what that gives is proved once, in
  the locale \<open>hash_chain\<close>, and both are instances. The hash function is the argument \<open>sha\<close>.

  Hashing is asynchronous, so \<open>append\<close> reads the tail before it and pushes after it. The two halves
  are definitions of their own.
\<close>

section \<open>Linked entries\<close>

fun linked ::
    "('e \<Rightarrow> string) \<Rightarrow> ('e \<Rightarrow> string) \<Rightarrow> ('e \<Rightarrow> string) \<Rightarrow> (string \<Rightarrow> string) \<Rightarrow> string \<Rightarrow> 'e list \<Rightarrow> bool" where
  "linked content prev hash sha p [] = True"
| "linked content prev hash sha p (e # es) =
     (prev e = p \<and> sha (content e) = hash e \<and> linked content prev hash sha (hash e) es)"

definition tail_hash :: "('e \<Rightarrow> string) \<Rightarrow> string \<Rightarrow> 'e list \<Rightarrow> string" where
  "tail_hash hash gen es = (if es = [] then gen else hash (last es))"

lemma tail_hash_simps [simp]: "tail_hash hash gen [] = gen" "tail_hash hash gen (es @ [e]) = hash e"
  by (simp_all add: tail_hash_def)

text \<open>What an entry must promise: the hashed text commits to everything but the hash itself.\<close>

locale hash_chain =
  fixes content :: "'e \<Rightarrow> string" and prev :: "'e \<Rightarrow> string" and hash :: "'e \<Rightarrow> string"
  assumes text_commits: "content e = content e' \<Longrightarrow> hash e = hash e' \<Longrightarrow> e = e'"
    and text_prev: "content e = content e' \<Longrightarrow> prev e = prev e'"
begin

lemma linked_snoc:
  "linked content prev hash sha p (es @ [e]) \<longleftrightarrow>
   linked content prev hash sha p es \<and> prev e = tail_hash hash p es \<and> sha (content e) = hash e"
  by (induction es arbitrary: p) (auto simp: tail_hash_def)

text \<open>Without collisions among the texts hashed, the last hash determines the chain.\<close>

lemma tail_determines_chain:
  assumes "linked content prev hash sha gen xs" "linked content prev hash sha gen ys"
    and "tail_hash hash gen xs = tail_hash hash gen ys"
    and "inj_on sha (content ` (set xs \<union> set ys))" "gen \<notin> sha ` content ` (set xs \<union> set ys)"
  shows "xs = ys"
  using assms
proof (induction xs arbitrary: ys rule: rev_induct)
  case Nil
  then show ?case by (cases ys rule: rev_exhaust) (auto simp: linked_snoc)
next
  case (snoc x xs)
  show ?case
  proof (cases ys rule: rev_exhaust)
    case Nil
    with snoc.prems show ?thesis by (auto simp: linked_snoc)
  next
    case (snoc zs z)
    note ys = this
    with snoc.prems have "sha (content x) = sha (content z)" and h: "hash x = hash z" by (auto simp: linked_snoc)
    from inj_onD [OF snoc.prems(4) this(1)] ys have "content x = content z" by simp
    with h have "x = z" and "prev x = prev z" by (auto intro: text_commits text_prev)
    moreover have "xs = zs"
    proof (rule snoc.IH)
      show "inj_on sha (content ` (set xs \<union> set zs))" by (rule inj_on_subset [OF snoc.prems(4)]) (use ys in auto)
    qed (use snoc.prems ys \<open>prev x = prev z\<close> in \<open>auto simp: linked_snoc\<close>)
    ultimately show ?thesis using ys by simp
  qed
qed

end

section \<open>Receipts\<close>

record payment_receipt =
  pr_invoiceId :: string
  pr_paymentId :: string
  pr_amount :: string
  pr_recipientId :: string
  pr_txHash :: string
  pr_ledger :: int
  pr_timestamp :: int
  pr_networkFeeStroops :: "int option"

record receipt_entry =
  re_receipt :: payment_receipt
  re_prevHash :: string
  re_hash :: string

record chain_result =
  cv_valid :: bool
  cv_length :: nat
  cv_brokenAt :: "nat option"
  cv_reason :: "string option"

definition GENESIS_PREV_HASH :: string where
  "GENESIS_PREV_HASH = replicate 64 CHR ''0''"

text \<open>The fields of a receipt in the order of the interface.\<close>

definition receipt_fields :: "payment_receipt \<Rightarrow> (string \<times> json) list" where
  "receipt_fields r =
     [(''invoiceId'', JStr (pr_invoiceId r)), (''paymentId'', JStr (pr_paymentId r)), (''amount'', JStr (pr_amount r)),
      (''recipientId'', JStr (pr_recipientId r)), (''txHash'', JStr (pr_txHash r)), (''ledger'', JNum (pr_ledger r)),
      (''timestamp'', JNum (pr_timestamp r))] @ optional ''networkFeeStroops'' JNum (pr_networkFeeStroops r)"

definition entryHashInput :: "payment_receipt \<Rightarrow> string \<Rightarrow> string" where
  "entryHashInput r prevHash = stringify (JObj (receipt_fields r @ [(''prevHash'', JStr prevHash)]))"

definition entry_json :: "receipt_entry \<Rightarrow> json" where
  "entry_json e = JObj [(''receipt'', JObj (receipt_fields (re_receipt e))), (''prevHash'', JStr (re_prevHash e)),
     (''hash'', JStr (re_hash e))]"

definition receiptChainStorageKey :: "string \<Rightarrow> string" where
  "receiptChainStorageKey invoiceId = ''receipt_chain:'' @ invoiceId"

text \<open>A chain with its invoice and the storage it writes to, a map from keys to texts.\<close>

record receipt_chain =
  rc_invoiceId :: string
  rc_entries :: "receipt_entry list"
  rc_storage :: "(string \<times> string) list"

definition receipt_persist :: "receipt_chain \<Rightarrow> receipt_chain" where
  "receipt_persist c = c\<lparr>rc_storage := AList.update (receiptChainStorageKey (rc_invoiceId c))
     (stringify (JArr (map entry_json (rc_entries c)))) (rc_storage c)\<rparr>"

text \<open>
  The constructor with \<open>_load\<close>: \<open>parse\<close> is \<open>JSON.parse\<close> on the stored text. An empty text is falsy.
\<close>

definition receipt_load :: "(string \<Rightarrow> receipt_entry list) \<Rightarrow> string \<Rightarrow> (string \<times> string) list \<Rightarrow> receipt_chain" where
  "receipt_load parse invoiceId storage =
     \<lparr>rc_invoiceId = invoiceId,
      rc_entries = (case map_of storage (receiptChainStorageKey invoiceId) of
                      Some raw \<Rightarrow> if raw = [] then [] else parse raw | None \<Rightarrow> []),
      rc_storage = storage\<rparr>"

definition receipt_tail :: "receipt_chain \<Rightarrow> string" where
  "receipt_tail c = (if rc_entries c = [] then GENESIS_PREV_HASH else re_hash (last (rc_entries c)))"

text \<open>\<open>append\<close> up to its \<open>await\<close>, after it, and in one piece.\<close>

definition receipt_link :: "(string \<Rightarrow> string) \<Rightarrow> payment_receipt \<Rightarrow> string \<Rightarrow> receipt_entry" where
  "receipt_link sha r prevHash =
     \<lparr>re_receipt = r, re_prevHash = prevHash, re_hash = sha (entryHashInput r prevHash)\<rparr>"

definition receipt_push :: "receipt_entry \<Rightarrow> receipt_chain \<Rightarrow> receipt_chain" where
  "receipt_push e c = receipt_persist (c\<lparr>rc_entries := rc_entries c @ [e]\<rparr>)"

definition receipt_append :: "(string \<Rightarrow> string) \<Rightarrow> payment_receipt \<Rightarrow> receipt_chain \<Rightarrow> receipt_chain" where
  "receipt_append sha r c = receipt_push (receipt_link sha r (receipt_tail c)) c"

fun receipt_walk :: "(string \<Rightarrow> string) \<Rightarrow> nat \<Rightarrow> nat \<Rightarrow> string \<Rightarrow> receipt_entry list \<Rightarrow> chain_result" where
  "receipt_walk sha n i expected [] = \<lparr>cv_valid = True, cv_length = n, cv_brokenAt = None, cv_reason = None\<rparr>"
| "receipt_walk sha n i expected (e # es) =
     (if re_prevHash e \<noteq> expected then
        \<lparr>cv_valid = False, cv_length = n, cv_brokenAt = Some i,
         cv_reason = Some (''entry '' @ show_nat i @ '': prevHash does not match the previous entry's hash'')\<rparr>
      else if sha (entryHashInput (re_receipt e) (re_prevHash e)) \<noteq> re_hash e then
        \<lparr>cv_valid = False, cv_length = n, cv_brokenAt = Some i,
         cv_reason = Some (''entry '' @ show_nat i @ '': hash does not match its receipt contents'')\<rparr>
      else receipt_walk sha n (i + 1) (re_hash e) es)"

definition receipt_verify :: "(string \<Rightarrow> string) \<Rightarrow> receipt_chain \<Rightarrow> chain_result" where
  "receipt_verify sha c =
     (if rc_entries c = [] then \<lparr>cv_valid = True, cv_length = 0, cv_brokenAt = None, cv_reason = None\<rparr>
      else receipt_walk sha (length (rc_entries c)) 0 GENESIS_PREV_HASH (rc_entries c))"

section \<open>Audit events\<close>

record audit_event =
  av_invoiceId :: string
  av_actorId :: string
  av_action :: string
  av_payload :: "(string \<times> json) list"
  av_timestamp :: int
  av_ledger :: "int option"

record audit_entry =
  at_event :: audit_event
  at_hash :: string
  at_prevHash :: string
  at_index :: int

datatype audit_result = AuditValid nat | AuditMismatch nat

datatype audit_position = OnLeft | OnRight

record audit_proof =
  au_leaf :: string
  au_index :: nat
  au_siblings :: "(string \<times> audit_position) list"
  au_root :: string

definition event_json :: "audit_event \<Rightarrow> json" where
  "event_json e = JObj ([(''invoiceId'', JStr (av_invoiceId e)), (''actorId'', JStr (av_actorId e)),
     (''action'', JStr (av_action e)), (''payload'', JObj (av_payload e)), (''timestamp'', JNum (av_timestamp e))] @
     optional ''ledger'' JNum (av_ledger e))"

definition audit_text :: "audit_event \<Rightarrow> string \<Rightarrow> int \<Rightarrow> string" where
  "audit_text e prevHash i =
     stringify (JObj [(''event'', event_json e), (''prevHash'', JStr prevHash), (''index'', JNum i)])"

text \<open>\<open>append\<close>: what it reads before it waits for the hash, and the push after.\<close>

definition audit_link :: "(string \<Rightarrow> string) \<Rightarrow> audit_event \<Rightarrow> audit_entry list \<Rightarrow> audit_entry" where
  "audit_link sha e es =
     (let i = length es;
          prevHash = (if i > 0 then at_hash (es ! (i - 1)) else sha [])
      in \<lparr>at_event = e, at_hash = sha (audit_text e prevHash (int i)), at_prevHash = prevHash, at_index = int i\<rparr>)"

definition audit_append :: "(string \<Rightarrow> string) \<Rightarrow> audit_event \<Rightarrow> audit_entry list \<Rightarrow> audit_entry list" where
  "audit_append sha e es = es @ [audit_link sha e es]"

function audit_layer_root :: "(string \<Rightarrow> string) \<Rightarrow> string list \<Rightarrow> string" where
  "audit_layer_root sha layer = (if length layer > 1 then audit_layer_root sha (pair_up sha layer) else layer ! 0)"
  by pat_completeness auto
termination
  by (relation "measure (\<lambda>(sha, layer). length layer)") auto

declare audit_layer_root.simps [simp del]

definition audit_root :: "(string \<Rightarrow> string) \<Rightarrow> audit_entry list \<Rightarrow> string" where
  "audit_root sha es = (if es = [] then sha [] else audit_layer_root sha (map at_hash es))"

function audit_siblings :: "(string \<Rightarrow> string) \<Rightarrow> string list \<Rightarrow> nat \<Rightarrow> (string \<times> audit_position) list" where
  "audit_siblings sha layer idx =
     (if length layer > 1
      then (sibling_of layer idx, if idx mod 2 = 1 then OnLeft else OnRight) # audit_siblings sha (pair_up sha layer) (idx div 2)
      else [])"
  by pat_completeness auto
termination
  by (relation "measure (\<lambda>(sha, layer, idx). length layer)") auto

declare audit_siblings.simps [simp del]

datatype audit_error = IndexOutOfBounds int nat

definition audit_proof_of :: "(string \<Rightarrow> string) \<Rightarrow> int \<Rightarrow> audit_entry list \<Rightarrow> audit_error + audit_proof" where
  "audit_proof_of sha i es =
     (if i < 0 \<or> i \<ge> int (length es) then Inl (IndexOutOfBounds i (length es))
      else Inr \<lparr>au_leaf = at_hash (es ! nat i), au_index = nat i,
             au_siblings = audit_siblings sha (map at_hash es) (nat i),
             au_root = audit_layer_root sha (map at_hash es)\<rparr>)"

definition audit_fold :: "(string \<Rightarrow> string) \<Rightarrow> string \<Rightarrow> (string \<times> audit_position) list \<Rightarrow> string" where
  "audit_fold sha leaf siblings =
     foldl (\<lambda>computed (h, pos). case pos of OnLeft \<Rightarrow> sha (h @ computed) | OnRight \<Rightarrow> sha (computed @ h)) leaf siblings"

definition audit_verifyProof :: "(string \<Rightarrow> string) \<Rightarrow> audit_proof \<Rightarrow> string \<Rightarrow> bool" where
  "audit_verifyProof sha p expectedRoot =
     (audit_fold sha (au_leaf p) (au_siblings p) = expectedRoot \<and> au_root p = expectedRoot)"

text \<open>The index at which the walk over the entries fails, if it does.\<close>

fun audit_walk :: "(string \<Rightarrow> string) \<Rightarrow> nat \<Rightarrow> string \<Rightarrow> audit_entry list \<Rightarrow> nat option" where
  "audit_walk sha i prevHash [] = None"
| "audit_walk sha i prevHash (e # es) =
     (if at_index e \<noteq> int i then Some i
      else if at_prevHash e \<noteq> prevHash then Some i
      else if at_hash e \<noteq> sha (audit_text (at_event e) (at_prevHash e) (at_index e)) then Some i
      else audit_walk sha (i + 1) (at_hash e) es)"

definition audit_verify :: "(string \<Rightarrow> string) \<Rightarrow> string \<Rightarrow> audit_entry list \<Rightarrow> audit_result" where
  "audit_verify sha expectedRoot es =
     (case audit_walk sha 0 (sha []) es of
        Some i \<Rightarrow> AuditMismatch i
      | None \<Rightarrow> if audit_root sha es \<noteq> expectedRoot then AuditMismatch 0 else AuditValid (length es))"

section \<open>Both are hash chains\<close>

lemma optional_inj: "optional k JNum a = optional k JNum b \<longleftrightarrow> a = b"
  by (auto simp: optional_def split: option.splits)

lemma receipt_fields_inj:
  "receipt_fields r @ [(''prevHash'', JStr p)] = receipt_fields r' @ [(''prevHash'', JStr p')] \<longleftrightarrow> r = r' \<and> p = p'"
  by (cases r; cases r') (auto simp: receipt_fields_def optional_inj)

lemma receipt_fields_inj0: "receipt_fields r = receipt_fields r' \<longleftrightarrow> r = r'"
  by (cases r; cases r') (auto simp: receipt_fields_def optional_inj)

definition receipt_text :: "receipt_entry \<Rightarrow> string" where
  "receipt_text e = entryHashInput (re_receipt e) (re_prevHash e)"

lemma receipt_text_inj: "receipt_text e = receipt_text e' \<longleftrightarrow> re_receipt e = re_receipt e' \<and> re_prevHash e = re_prevHash e'"
  by (simp add: receipt_text_def entryHashInput_def stringify_inj receipt_fields_inj receipt_fields_inj0)

interpretation receipts: hash_chain receipt_text re_prevHash re_hash
  by unfold_locales (simp_all add: receipt_text_inj)

definition audit_entry_text :: "audit_entry \<Rightarrow> string" where
  "audit_entry_text e = audit_text (at_event e) (at_prevHash e) (at_index e)"

lemma event_json_inj: "event_json e = event_json e' \<longleftrightarrow> e = e'"
  by (cases e; cases e') (auto simp: event_json_def optional_inj)

lemma audit_text_inj:
  "audit_entry_text e = audit_entry_text e' \<longleftrightarrow> at_event e = at_event e' \<and> at_prevHash e = at_prevHash e' \<and> at_index e = at_index e'"
  by (simp add: audit_entry_text_def audit_text_def stringify_inj event_json_inj del: stringify.simps)

interpretation audit: hash_chain audit_entry_text at_prevHash at_hash
  by unfold_locales (simp_all add: audit_text_inj)

section \<open>Lemmas\<close>

lemma receipt_walk_valid:
  "cv_valid (receipt_walk sha n i p es) \<longleftrightarrow> linked receipt_text re_prevHash re_hash sha p es"
  by (induction sha n i p es rule: receipt_walk.induct) (auto simp: receipt_text_def)

lemma receipt_verify_valid:
  "cv_valid (receipt_verify sha c) \<longleftrightarrow> linked receipt_text re_prevHash re_hash sha GENESIS_PREV_HASH (rc_entries c)"
  by (simp add: receipt_verify_def receipt_walk_valid)

lemma rc_entries_push [simp]: "rc_entries (receipt_push e c) = rc_entries c @ [e]"
  by (simp add: receipt_push_def receipt_persist_def)

lemma receipt_tail_eq: "receipt_tail c = tail_hash re_hash GENESIS_PREV_HASH (rc_entries c)"
  by (simp add: receipt_tail_def tail_hash_def)

lemma receipt_append_valid: "cv_valid (receipt_verify sha c) \<Longrightarrow> cv_valid (receipt_verify sha (receipt_append sha r c))"
  by (simp add: receipt_verify_valid receipt_append_def receipts.linked_snoc receipt_link_def receipt_text_def receipt_tail_eq)

text \<open>The walk over audit entries is the linking with the indices in order.\<close>

lemma audit_walk_None:
  "audit_walk sha i p es = None \<longleftrightarrow>
   linked audit_entry_text at_prevHash at_hash sha p es \<and> map at_index es = map int [i..<i + length es]"
  by (induction sha i p es rule: audit_walk.induct) (auto simp: audit_entry_text_def upt_conv_Cons simp del: upt_Suc)

lemma audit_append_walk:
  assumes "audit_walk sha 0 (sha []) es = None" shows "audit_walk sha 0 (sha []) (audit_append sha e es) = None"
  using assms
  by (auto simp: audit_walk_None audit_append_def audit_link_def audit.linked_snoc audit_entry_text_def tail_hash_def
      last_conv_nth Let_def)

lemma audit_layer_root_layers: "audit_layer_root sha xs = last (layers_from sha xs) ! 0"
proof (induction "length xs" arbitrary: xs rule: less_induct)
  case less
  show ?case
  proof (cases "1 < length xs")
    case True
    then have "length (pair_up sha xs) < length xs" by simp
    from less [OF this] True show ?thesis by (subst audit_layer_root.simps, subst last_layers_from) simp
  qed (subst audit_layer_root.simps, subst last_layers_from, simp)
qed

lemma audit_path:
  "idx < length xs \<Longrightarrow> audit_fold sha (xs ! idx) (audit_siblings sha xs idx) = audit_layer_root sha xs"
proof (induction "length xs" arbitrary: xs idx rule: less_induct)
  case less
  show ?case
  proof (cases "1 < length xs")
    case True
    then have "length (pair_up sha xs) < length xs" "idx div 2 < length (pair_up sha xs)" using less.prems by auto
    from less.hyps [OF this] True pair_up_parent [OF less.prems, of sha] show ?thesis
      by (subst audit_siblings.simps, subst audit_layer_root.simps)
        (cases "idx mod 2 = 1"; simp add: audit_fold_def hashPair_def)
  next
    case False
    with less.prems have "idx = 0" by linarith
    with False show ?thesis by (subst audit_siblings.simps, subst audit_layer_root.simps) (simp add: audit_fold_def)
  qed
qed

text \<open>Roots of trees of the same size commit to every leaf, or collide.\<close>

lemma pair_inputs_inj:
  "length xs = length ys \<Longrightarrow> \<forall>x \<in> set xs \<union> set ys. length x = L \<Longrightarrow> pair_inputs xs = pair_inputs ys \<Longrightarrow> xs = ys"
proof (induction xs arbitrary: ys rule: pair_inputs.induct)
  case (2 x)
  then obtain y where "ys = [y]" by (cases ys; cases "tl ys"; simp)
  with 2 show ?case by simp
next
  case (3 x x' rest)
  then obtain y y' zs where ys: "ys = y # y' # zs" by (cases ys; cases "tl ys"; simp)
  with 3(2,3,4) have "rest = zs" by (intro 3(1)) auto
  with 3(3,4) ys show ?case by simp
qed simp

lemma map_sha_collides: "map sha xs = map sha ys \<Longrightarrow> xs \<noteq> ys \<Longrightarrow> collides sha xs ys"
proof (induction xs arbitrary: ys)
  case (Cons x xs)
  then obtain y zs where ys: "ys = y # zs" by (cases ys) auto
  show ?case
  proof (cases "x = y")
    case True
    with Cons ys have "collides sha xs zs" by simp
    then show ?thesis by (rule collides_mono) (auto simp: ys)
  next
    case False
    with Cons.prems ys show ?thesis by (auto simp: collides_def)
  qed
qed simp

lemma root_determines_leaves:
  assumes len: "\<And>s. length (sha s) = L"
  shows "length xs = length ys \<Longrightarrow> \<forall>x \<in> set xs \<union> set ys. length x = L \<Longrightarrow> xs \<noteq> [] \<Longrightarrow>
    audit_layer_root sha xs = audit_layer_root sha ys \<Longrightarrow>
    xs = ys \<or> collides sha (inner_inputs sha xs) (inner_inputs sha ys)"
proof (induction "length xs" arbitrary: xs ys rule: less_induct)
  case less
  show ?case
  proof (cases "1 < length xs")
    case True
    let ?ux = "pair_up sha xs" and ?uy = "pair_up sha ys"
    have short: "length ?ux < length xs" "length ?ux = length ?uy" "?ux \<noteq> []"
      using True less.prems(1) by (simp_all flip: length_greater_0_conv)
    have lens: "\<forall>x \<in> set ?ux \<union> set ?uy. length x = L" by (auto simp: pair_up_map len)
    have roots: "audit_layer_root sha ?ux = audit_layer_root sha ?uy"
      using less.prems(1,4) True by (simp add: audit_layer_root.simps [of sha xs] audit_layer_root.simps [of sha ys])
    have ix: "inner_inputs sha xs = pair_inputs xs @ inner_inputs sha ?ux"
      "inner_inputs sha ys = pair_inputs ys @ inner_inputs sha ?uy"
      using True less.prems(1) by (simp_all add: inner_inputs_step [of sha xs] inner_inputs_step [of sha ys])
    from less.hyps [OF short(1,2) lens short(3) roots] show ?thesis
    proof
      assume "?ux = ?uy"
      then have "pair_inputs xs = pair_inputs ys \<or> collides sha (pair_inputs xs) (pair_inputs ys)"
        using map_sha_collides unfolding pair_up_map by blast
      then show ?thesis using pair_inputs_inj [OF less.prems(1,2)] by (auto simp: ix intro: collides_mono)
    qed (auto simp: ix intro: collides_mono)
  next
    case False
    with less.prems(1,3) obtain x y where "xs = [x]" "ys = [y]" by (cases xs; cases ys; auto)
    with less.prems(4) show ?thesis by (simp add: audit_layer_root.simps)
  qed
qed

section \<open>Properties\<close>

definition empty_receipts :: "string \<Rightarrow> receipt_chain" where
  "empty_receipts invoiceId = \<lparr>rc_invoiceId = invoiceId, rc_entries = [], rc_storage = []\<rparr>"

text \<open>
  A chain built by appending receipts one after the other verifies, holds exactly these
  receipts in order, and its stored text is the text of its entries, for every hash function.
\<close>

theorem receipt_history_verifies:
  "let c = foldl (\<lambda>c r. receipt_append sha r c) (empty_receipts invoiceId) rs
   in receipt_verify sha c = \<lparr>cv_valid = True, cv_length = length rs, cv_brokenAt = None, cv_reason = None\<rparr> \<and>
      map re_receipt (rc_entries c) = rs \<and>
      (rs = [] \<or> map_of (rc_storage c) (receiptChainStorageKey invoiceId) = Some (stringify (JArr (map entry_json (rc_entries c)))))"
proof -
  let ?c = "\<lambda>rs. foldl (\<lambda>c r. receipt_append sha r c) (empty_receipts invoiceId) rs"
  have inv: "cv_valid (receipt_verify sha (?c rs)) \<and> map re_receipt (rc_entries (?c rs)) = rs \<and> rc_invoiceId (?c rs) = invoiceId \<and>
      (rs = [] \<or> map_of (rc_storage (?c rs)) (receiptChainStorageKey invoiceId) = Some (stringify (JArr (map entry_json (rc_entries (?c rs))))))"
  proof (induction rs rule: rev_induct)
    case (snoc r rs)
    then show ?case
      using receipt_append_valid [of sha "?c rs" r]
      by (auto simp: receipt_append_def receipt_push_def receipt_persist_def receipt_link_def)
  qed (simp add: empty_receipts_def receipt_verify_def)
  have shape: "cv_valid (receipt_walk sha n i p es) \<Longrightarrow>
      receipt_walk sha n i p es = \<lparr>cv_valid = True, cv_length = n, cv_brokenAt = None, cv_reason = None\<rparr>" for n i p es
    by (induction sha n i p es rule: receipt_walk.induct) (auto split: if_splits)
  have "length (rc_entries (?c rs)) = length rs" using inv by (metis length_map)
  with inv shape show ?thesis by (auto simp: receipt_verify_def Let_def)
qed

text \<open>
  C33: Receipt chains are tamper-evident: two chains that both verify and end in the same hash hold
  the same entries, unless two of the texts they hash collide or one of them hashes to the hash
  that the first entry refers to.
\<close>

theorem receipt_chain_tamper_evident:
  assumes "cv_valid (receipt_verify sha c)" "cv_valid (receipt_verify sha d)" "receipt_tail c = receipt_tail d"
    and "inj_on sha (receipt_text ` (set (rc_entries c) \<union> set (rc_entries d)))"
    and "GENESIS_PREV_HASH \<notin> sha ` receipt_text ` (set (rc_entries c) \<union> set (rc_entries d))"
  shows "rc_entries c = rc_entries d"
  using receipts.tail_determines_chain [OF _ _ _ assms(4,5)] assms(1-3) by (simp add: receipt_verify_valid receipt_tail_eq)

definition sample_receipt :: payment_receipt where
  "sample_receipt = \<lparr>pr_invoiceId = ''7'', pr_paymentId = ''p'', pr_amount = ''12'', pr_recipientId = ''GB'',
     pr_txHash = ''ab'', pr_ledger = 5, pr_timestamp = 9, pr_networkFeeStroops = None\<rparr>"

lemma receipt_text_not_genesis: "receipt_text e \<noteq> GENESIS_PREV_HASH"
  by (simp add: receipt_text_def entryHashInput_def receipt_fields_def GENESIS_PREV_HASH_def numeral_eq_Suc)

theorem receipt_chain_tamper_evident_witness:
  "let c = receipt_append (\<lambda>s. s) sample_receipt (empty_receipts ''7'');
       d = receipt_load (\<lambda>_. rc_entries c) ''7'' (rc_storage c)
   in receipt_tail c = receipt_tail d \<and> rc_entries c = rc_entries d"
proof -
  let ?c = "receipt_append (\<lambda>s. s) sample_receipt (empty_receipts ''7'')"
  let ?d = "receipt_load (\<lambda>_. rc_entries ?c) ''7'' (rc_storage ?c)"
  have d: "rc_entries ?d = rc_entries ?c"
    by (simp add: receipt_load_def receipt_append_def receipt_push_def receipt_persist_def empty_receipts_def)
  then have t: "receipt_tail ?c = receipt_tail ?d" by (simp add: receipt_tail_def)
  have "cv_valid (receipt_verify (\<lambda>s. s) (empty_receipts ''7''))" by (simp add: receipt_verify_def empty_receipts_def)
  then have v: "cv_valid (receipt_verify (\<lambda>s. s) ?c)" by (rule receipt_append_valid)
  then have v': "cv_valid (receipt_verify (\<lambda>s. s) ?d)" using d by (simp add: receipt_verify_valid)
  have g: "GENESIS_PREV_HASH \<notin> (\<lambda>s. s) ` receipt_text ` (set (rc_entries ?c) \<union> set (rc_entries ?d))"
    using receipt_text_not_genesis by (auto dest: sym)
  from receipt_chain_tamper_evident [OF v v' t _ g] t show ?thesis by (simp add: Let_def)
qed

text \<open>
  Two appends that overlap both link to the same tail: on an empty chain the result fails
  verification at the second entry, unless the first hash happens to be the genesis hash.
\<close>

theorem overlapping_appends_break_chain:
  assumes "sha (entryHashInput r1 GENESIS_PREV_HASH) \<noteq> GENESIS_PREV_HASH"
    and "c0 = empty_receipts invoiceId" and "e1 = receipt_link sha r1 (receipt_tail c0)"
    and "e2 = receipt_link sha r2 (receipt_tail c0)"
  shows "\<not> cv_valid (receipt_verify sha (receipt_push e2 (receipt_push e1 c0))) \<and>
    cv_brokenAt (receipt_verify sha (receipt_push e2 (receipt_push e1 c0))) = Some 1"
  using assms by (simp add: receipt_verify_def receipt_link_def receipt_tail_def empty_receipts_def)

theorem overlapping_appends_break_chain_witness:
  "let c0 = empty_receipts ''7''; e = receipt_link first_four sample_receipt (receipt_tail c0)
   in \<not> cv_valid (receipt_verify first_four (receipt_push e (receipt_push e c0)))"
proof -
  have "first_four s \<noteq> GENESIS_PREV_HASH" for s
    using first_four_length [of s] by (auto simp: GENESIS_PREV_HASH_def)
  from overlapping_appends_break_chain [OF this refl refl refl] show ?thesis by (simp add: Let_def)
qed

definition audit_history :: "(string \<Rightarrow> string) \<Rightarrow> audit_event list \<Rightarrow> audit_entry list" where
  "audit_history sha evs = foldl (\<lambda>es e. audit_append sha e es) [] evs"

lemma audit_history_walk: "audit_walk sha 0 (sha []) (audit_history sha evs) = None"
  by (induction evs rule: rev_induct) (simp_all add: audit_history_def audit_append_walk)

lemma length_audit_history [simp]: "length (audit_history sha evs) = length evs"
  by (induction evs rule: rev_induct) (simp_all add: audit_history_def audit_append_def)

text \<open>
  An audit trail built by appending events verifies against its own root, and the inclusion
  proof of every entry verifies against it too.
\<close>

theorem audit_trail_verifies:
  "audit_verify sha (audit_root sha (audit_history sha evs)) (audit_history sha evs) = AuditValid (length evs) \<and>
   (\<forall>i < length evs. case audit_proof_of sha (int i) (audit_history sha evs) of
      Inl _ \<Rightarrow> False | Inr p \<Rightarrow> audit_verifyProof sha p (audit_root sha (audit_history sha evs)))"
proof -
  let ?es = "audit_history sha evs"
  have "audit_verifyProof sha p (audit_root sha ?es)" if "audit_proof_of sha (int i) ?es = Inr p" "i < length evs" for i p
  proof -
    have ne: "?es \<noteq> []" using that(2) length_audit_history [of sha evs] by fastforce
    from that have "p = \<lparr>au_leaf = at_hash (?es ! i), au_index = i,
        au_siblings = audit_siblings sha (map at_hash ?es) i, au_root = audit_layer_root sha (map at_hash ?es)\<rparr>"
      by (auto simp: audit_proof_of_def)
    with audit_path [of i "map at_hash ?es" sha] that(2) ne show ?thesis
      by (simp add: audit_verifyProof_def audit_root_def)
  qed
  then show ?thesis
    by (auto simp: audit_verify_def audit_history_walk split: sum.splits) (auto simp: audit_proof_of_def)
qed

definition sample_events :: "audit_event list" where
  "sample_events = [\<lparr>av_invoiceId = ''7'', av_actorId = ''GA'', av_action = ''REFUND'', av_payload = [(''n'', JNum 3)],
     av_timestamp = 4, av_ledger = None\<rparr>, \<lparr>av_invoiceId = ''7'', av_actorId = ''GB'', av_action = ''CREATE'',
     av_payload = [], av_timestamp = 5, av_ledger = Some 2\<rparr>]"

theorem audit_trail_verifies_witness:
  "audit_verify first_four (audit_root first_four (audit_history first_four sample_events)) (audit_history first_four sample_events)
     = AuditValid 2"
  using audit_trail_verifies [of first_four sample_events] by (simp add: sample_events_def)

text \<open>
  Entries that verify against the root of a genuine trail of the same length are that trail:
  a change of any event, hash, link or index is detected, unless two of the strings hashed for the
  two trails collide.
\<close>

theorem audit_trail_tamper_evident:
  assumes "\<And>s. length (sha s) = L"
    and "es = audit_history sha evs" and "audit_verify sha (audit_root sha es) fs = AuditValid n" "length fs = length es"
  shows "fs = es \<or> collides sha
    (map audit_entry_text fs @ inner_inputs sha (map at_hash fs)) (map audit_entry_text es @ inner_inputs sha (map at_hash es))"
proof (cases "es = []")
  case False
  from assms(3) have fs: "linked audit_entry_text at_prevHash at_hash sha (sha []) fs" and root: "audit_root sha fs = audit_root sha es"
    by (auto simp: audit_verify_def audit_walk_None split: option.splits if_splits)
  have es: "linked audit_entry_text at_prevHash at_hash sha (sha []) es"
    using audit_history_walk [of sha evs] by (simp add: assms(2) audit_walk_None)
  have hashes: "map at_hash xs = map (\<lambda>e. sha (audit_entry_text e)) xs"
    if "linked audit_entry_text at_prevHash at_hash sha p xs" for p xs
    using that by (induction xs arbitrary: p) auto
  from False assms(4) have ne: "map at_hash fs \<noteq> []" by auto
  have "\<forall>x \<in> set (map at_hash fs) \<union> set (map at_hash es). length x = L"
    unfolding hashes [OF fs] hashes [OF es] by (auto simp: assms(1))
  from root_determines_leaves [of sha L, OF assms(1) _ this ne] assms(4) root False
  consider (same) "map at_hash fs = map at_hash es"
    | (coll) "collides sha (inner_inputs sha (map at_hash fs)) (inner_inputs sha (map at_hash es))"
    by (auto simp: audit_root_def split: if_splits)
  then show ?thesis
  proof cases
    case same
    then have "map sha (map audit_entry_text fs) = map sha (map audit_entry_text es)"
      using hashes [OF fs] hashes [OF es] by (simp add: comp_def)
    from map_sha_collides [OF this] show ?thesis
    proof (cases "map audit_entry_text fs = map audit_entry_text es")
      case True
      have "fs ! i = es ! i" if "i < length es" for i
        using that assms(4) True same audit.text_commits [of "fs ! i" "es ! i"] by (metis nth_map)
      then have "fs = es" using assms(4) by (intro nth_equalityI) auto
      then show ?thesis by simp
    qed (auto intro: collides_mono)
  qed (auto intro: collides_mono)
qed (use assms(4) in simp)

theorem audit_trail_tamper_evident_witness:
  "let es = audit_history first_four sample_events; fs = es[0 := (es ! 0)\<lparr>at_event := sample_events ! 1\<rparr>]
   in audit_verify first_four (audit_root first_four es) fs = AuditValid 2 \<and>
      collides first_four (map audit_entry_text fs @ inner_inputs first_four (map at_hash fs))
        (map audit_entry_text es @ inner_inputs first_four (map at_hash es))"
proof -
  let ?es = "audit_history first_four sample_events"
  let ?fs = "?es[0 := (?es ! 0)\<lparr>at_event := sample_events ! 1\<rparr>]"
  have v: "audit_verify first_four (audit_root first_four ?es) ?fs = AuditValid 2" by code_simp
  have ne: "?fs \<noteq> ?es" by code_simp
  from audit_trail_tamper_evident [OF first_four_length refl v] ne v show ?thesis by (simp add: Let_def)
qed

end
