(* ===== verification/Idempotency.thy ===== *)
theory Idempotency
  imports Cache
begin

text \<open>
  What keeps a payment from being submitted twice: \<open>idempotency.ts\<close>, the store of completed keys,
  \<open>operationChunker.ts\<close>, which splits a batch and submits the chunks that are not in that store,
  and \<open>dedup.ts\<close>, the keys of payments and the sharing of calls in flight. SHA-256, the JSON text
  of a chunk, the network and the clock are arguments.
\<close>

section \<open>The store of completed keys\<close>

record idem_entry =
  ie_txHash :: string
  ie_returnValue :: "string option"
  ie_expiresAt :: int

record idem_manager =
  im_store :: "(string \<times> idem_entry) list"
  im_ttlMs :: int
  im_maxEntries :: int

record idem_config =
  ic_ttlMs :: "int option"
  ic_keyTtlMs :: "int option"
  ic_maxEntries :: "int option"

definition idem_new :: "idem_config \<Rightarrow> idem_manager" where
  "idem_new c =
     \<lparr>im_store = [],
      im_ttlMs = (case ic_keyTtlMs c of Some t \<Rightarrow> t | None \<Rightarrow> (case ic_ttlMs c of Some t \<Rightarrow> t | None \<Rightarrow> 86400000)),
      im_maxEntries = (case ic_maxEntries c of Some m \<Rightarrow> m | None \<Rightarrow> 10000)\<rparr>"

definition generateKey :: "(string \<Rightarrow> string) \<Rightarrow> string \<Rightarrow> string \<Rightarrow> string" where
  "generateKey sha sourceAddress operationXdr = sha (sourceAddress @ '':'' @ operationXdr)"

definition sweep :: "int \<Rightarrow> idem_manager \<Rightarrow> idem_manager" where
  "sweep now m = m\<lparr>im_store := filter (\<lambda>(k, e). \<not> now > ie_expiresAt e) (im_store m)\<rparr>"

text \<open>The oldest key is evicted if it is not the empty string.\<close>

definition evict_oldest :: "idem_manager \<Rightarrow> idem_manager" where
  "evict_oldest m =
     (if int (length (im_store m)) \<ge> im_maxEntries m then
        (case im_store m of
           [] \<Rightarrow> m
         | (k, e) # _ \<Rightarrow> if k \<noteq> [] then m\<lparr>im_store := AList.delete k (im_store m)\<rparr> else m)
      else m)"

text \<open>The answer is the hash of the earlier result, \<open>None\<close> when the key was free and is now claimed.\<close>

definition tryClaim :: "string \<Rightarrow> string \<Rightarrow> string option \<Rightarrow> int \<Rightarrow> idem_manager \<Rightarrow> string option \<times> idem_manager" where
  "tryClaim key txHash returnValue now m =
     (let m1 = sweep now m
      in case map_of (im_store m1) key of
           Some e \<Rightarrow> (Some (ie_txHash e), m1)
         | None \<Rightarrow>
             (let m2 = evict_oldest m1
              in (None, m2\<lparr>im_store := AList.update key \<lparr>ie_txHash = txHash, ie_returnValue = returnValue, ie_expiresAt = now + im_ttlMs m2\<rparr>
                                        (im_store m2)\<rparr>)))"

definition isDuplicate :: "string \<Rightarrow> int \<Rightarrow> idem_manager \<Rightarrow> bool \<times> idem_manager" where
  "isDuplicate key now m = (let m1 = sweep now m in (map_of (im_store m1) key \<noteq> None, m1))"

definition getResult :: "string \<Rightarrow> int \<Rightarrow> idem_manager \<Rightarrow> string option \<times> idem_manager" where
  "getResult key now m = (let m1 = sweep now m in (map_option ie_txHash (map_of (im_store m1) key), m1))"

definition idem_clear :: "idem_manager \<Rightarrow> idem_manager" where
  "idem_clear m = m\<lparr>im_store := []\<rparr>"

section \<open>Chunks\<close>

definition MAX_OPERATIONS_PER_TRANSACTION :: int where
  "MAX_OPERATIONS_PER_TRANSACTION = 100"

fun chunk_loop :: "nat \<Rightarrow> 'o list \<Rightarrow> 'o list list" where
  "chunk_loop n ops = (if n = 0 \<or> ops = [] then [] else take n ops # chunk_loop n (drop n ops))"

declare chunk_loop.simps [simp del]

datatype chunk_error = ChunkSizeError

definition chunk :: "'o list \<Rightarrow> int \<Rightarrow> chunk_error + 'o list list" where
  "chunk operations chunkSize = (if chunkSize \<le> 0 then Inl ChunkSizeError else Inr (chunk_loop (nat chunkSize) operations))"

record 'e batch_result =
  br_succeeded :: "(nat \<times> string) list"
  br_failed :: "(nat \<times> 'e) option"

text \<open>
  The loop of \<open>submitAll\<close> over the chunks with their indices. \<open>clock i\<close> are the times of the two visits
  to the store for chunk \<open>i\<close>. The last component lists the chunks that were handed to \<open>submitChunk\<close>.
\<close>

fun submit_from ::
    "(nat \<Rightarrow> 'o list \<Rightarrow> string) \<Rightarrow> (nat \<Rightarrow> int \<times> int) \<Rightarrow> (nat \<Rightarrow> 'o list \<Rightarrow> 'e + string) \<Rightarrow> (nat \<times> 'o list) list \<Rightarrow>
     'e batch_result \<Rightarrow> idem_manager \<Rightarrow> 'e batch_result \<times> idem_manager \<times> nat list" where
  "submit_from key clock submit [] r m = (r, m, [])"
| "submit_from key clock submit ((index, ops) # rest) r m =
     (case getResult (key index ops) (fst (clock index)) m of
        (Some h, m1) \<Rightarrow> submit_from key clock submit rest (r\<lparr>br_succeeded := br_succeeded r @ [(index, h)]\<rparr>) m1
      | (None, m1) \<Rightarrow>
          (case submit index ops of
             Inl e \<Rightarrow> (r\<lparr>br_failed := Some (index, e)\<rparr>, m1, [index])
           | Inr h \<Rightarrow>
               (case submit_from key clock submit rest (r\<lparr>br_succeeded := br_succeeded r @ [(index, h)]\<rparr>)
                       (snd (tryClaim (key index ops) h None (snd (clock index)) m1)) of
                  (r', m', sent) \<Rightarrow> (r', m', index # sent))))"

definition submitAll ::
    "(string \<Rightarrow> string) \<Rightarrow> (nat \<Rightarrow> 'o list \<Rightarrow> string) \<Rightarrow> string \<Rightarrow> (nat \<Rightarrow> int \<times> int) \<Rightarrow> (nat \<Rightarrow> 'o list \<Rightarrow> 'e + string) \<Rightarrow>
     'o list list \<Rightarrow> idem_manager \<Rightarrow> 'e batch_result \<times> idem_manager \<times> nat list" where
  "submitAll sha json source clock submit chunks m =
     submit_from (\<lambda>i ops. generateKey sha source (json i ops)) clock submit (enumerate 0 chunks) \<lparr>br_succeeded = [], br_failed = None\<rparr> m"

section \<open>Keys of payments and calls in flight\<close>

record key_params =
  kp_invoiceId :: string
  kp_payer :: string
  kp_amount :: int
  kp_nonce :: "string option"

definition key_payload :: "key_params \<Rightarrow> string" where
  "key_payload p =
     (let base = kp_invoiceId p @ '':'' @ kp_payer p @ '':'' @ show_int (kp_amount p)
      in case kp_nonce p of Some n \<Rightarrow> base @ '':'' @ n | None \<Rightarrow> base)"

definition generateIdempotencyKey :: "(string \<Rightarrow> string) \<Rightarrow> key_params \<Rightarrow> string" where
  "generateIdempotencyKey sha p = sha (key_payload p)"

text \<open>The module's set of registered keys.\<close>

definition isKnownKey :: "string \<Rightarrow> string list \<Rightarrow> bool" where
  "isKnownKey k known \<longleftrightarrow> k \<in> set known"

definition registerKey :: "string \<Rightarrow> string list \<Rightarrow> string list" where
  "registerKey k known = set_add k known"

definition clearKeys :: "string list \<Rightarrow> string list" where
  "clearKeys known = []"

record deduplicator =
  dd_inflight :: "(string \<times> nat) list"
  dd_hits :: int
  dd_misses :: int

definition deduplicator_new :: deduplicator where
  "deduplicator_new = \<lparr>dd_inflight = [], dd_hits = 0, dd_misses = 0\<rparr>"

text \<open>A call gets the promise in flight for its key, or the new one \<open>p\<close>; the promise settles later.\<close>

definition dedupe :: "string \<Rightarrow> nat \<Rightarrow> deduplicator \<Rightarrow> nat \<times> deduplicator" where
  "dedupe key p d =
     (case map_of (dd_inflight d) key of
        Some q \<Rightarrow> (q, d\<lparr>dd_hits := dd_hits d + 1\<rparr>)
      | None \<Rightarrow> (p, d\<lparr>dd_misses := dd_misses d + 1, dd_inflight := AList.update key p (dd_inflight d)\<rparr>))"

definition dedupe_settled :: "string \<Rightarrow> deduplicator \<Rightarrow> deduplicator" where
  "dedupe_settled key d = d\<lparr>dd_inflight := AList.delete key (dd_inflight d)\<rparr>"

definition cacheHitRate :: "deduplicator \<Rightarrow> rat" where
  "cacheHitRate d =
     (let total' = dd_hits d + dd_misses d in if total' = 0 then 0 else of_int (dd_hits d) / of_int total')"

definition getDedupStats :: "deduplicator \<Rightarrow> int \<times> int" where
  "getDedupStats d = (dd_hits d, dd_hits d + dd_misses d)"

section \<open>Chunks cover the batch\<close>

lemma chunk_loop_unfold: "0 < n \<Longrightarrow> ops \<noteq> [] \<Longrightarrow> chunk_loop n ops = take n ops # chunk_loop n (drop n ops)"
  by (subst chunk_loop.simps) simp

lemma chunk_loop_Nil: "chunk_loop n [] = []"
  by (subst chunk_loop.simps) simp

lemma chunk_loop_facts:
  "0 < n \<Longrightarrow> concat (chunk_loop n ops) = ops \<and> (\<forall>c \<in> set (chunk_loop n ops). c \<noteq> [] \<and> length c \<le> n) \<and>
    (\<forall>c \<in> set (butlast (chunk_loop n ops)). length c = n)"
proof (induction n ops rule: chunk_loop.induct)
  case (1 n ops)
  show ?case
  proof (cases "ops = []")
    case True
    then show ?thesis by (simp add: chunk_loop_Nil)
  next
    case False
    define C where "C = chunk_loop n (drop n ops)"
    have IH: "concat C = drop n ops" "\<forall>c \<in> set C. c \<noteq> [] \<and> length c \<le> n" "\<forall>c \<in> set (butlast C). length c = n"
      using 1 False unfolding C_def by blast+
    have u: "chunk_loop n ops = take n ops # C" unfolding C_def by (rule chunk_loop_unfold [OF 1(2) False])
    have "length (take n ops) = n" if "C \<noteq> []"
      using that by (cases "drop n ops = []") (auto simp: C_def chunk_loop_Nil)
    then have "\<forall>c \<in> set (butlast (take n ops # C)). length c = n" using IH(3) by (cases "C = []") simp_all
    moreover have "take n ops \<noteq> []" "length (take n ops) \<le> n" using False 1(2) by simp_all
    ultimately show ?thesis using IH(1,2) unfolding u by simp
  qed
qed

text \<open>
  A batch is cut without loss: with a positive size the chunks concatenate to the operations in
  their order, none is empty or longer than the size, and all but the last have exactly that size;
  any other size is an error.
\<close>

theorem chunks_cover_batch:
  "case chunk ops size' of
     Inr cs \<Rightarrow> size' > 0 \<and> concat cs = ops \<and> (\<forall>c \<in> set cs. c \<noteq> [] \<and> int (length c) \<le> size') \<and> (\<forall>c \<in> set (butlast cs). int (length c) = size')
   | Inl e \<Rightarrow> size' \<le> 0"
proof (cases "size' \<le> 0")
  case False
  then have "0 < nat size'" "size' = int (nat size')" by simp_all
  with chunk_loop_facts [of "nat size'" ops] False show ?thesis by (simp add: chunk_def le_nat_iff)
qed (simp add: chunk_def)

section \<open>A batch is resumed, not repeated\<close>

text \<open>
  No entry of the store expires before \<open>end\<close>, and there is room for \<open>n\<close> more.
\<close>

definition roomy :: "int \<Rightarrow> nat \<Rightarrow> idem_manager \<Rightarrow> bool" where
  "roomy until n m \<longleftrightarrow> (\<forall>x \<in> set (im_store m). until \<le> ie_expiresAt (snd x)) \<and> int (length (im_store m) + n) \<le> im_maxEntries m"

lemma roomy_sweep: "roomy until n m \<Longrightarrow> now \<le> until \<Longrightarrow> sweep now m = m"
proof -
  assume r: "roomy until n m" "now \<le> until"
  have "\<not> now > ie_expiresAt (snd x)" if "x \<in> set (im_store m)" for x
    using r that unfolding roomy_def by force
  then have "filter (\<lambda>(k, e). \<not> now > ie_expiresAt e) (im_store m) = im_store m"
    by (simp add: filter_id_conv split_beta)
  then show ?thesis unfolding sweep_def by simp
qed

lemma roomy_claim:
  assumes "roomy until (Suc n) m" "until - im_ttlMs m \<le> now" "now \<le> until"
  shows "roomy until n (snd (tryClaim k h rv now m))" "im_ttlMs (snd (tryClaim k h rv now m)) = im_ttlMs m"
    "map_of (im_store m) j = Some e \<Longrightarrow> map_of (im_store (snd (tryClaim k h rv now m))) j = Some e"
    "map_of (im_store m) k = None \<Longrightarrow> map_option ie_txHash (map_of (im_store (snd (tryClaim k h rv now m))) k) = Some h"
proof -
  have s: "sweep now m = m" using roomy_sweep assms(1,3) by blast
  have ev: "evict_oldest m = m" using assms(1) by (simp add: evict_oldest_def roomy_def)
  let ?e = "\<lparr>ie_txHash = h, ie_returnValue = rv, ie_expiresAt = now + im_ttlMs m\<rparr>"
  have t: "snd (tryClaim k h rv now m) = (if map_of (im_store m) k = None then m\<lparr>im_store := AList.update k ?e (im_store m)\<rparr> else m)"
    by (simp add: tryClaim_def s ev Let_def split: option.split)
  have "length (AList.update k ?e (im_store m)) \<le> Suc (length (im_store m))"
    by (cases "k \<in> fst ` set (im_store m)") (simp_all add: length_update_old length_update_new)
  moreover have "set (AList.update k ?e (im_store m)) \<subseteq> insert (k, ?e) (set (im_store m))" by (rule set_update_sub)
  ultimately show "roomy until n (snd (tryClaim k h rv now m))"
    using assms(1,2) unfolding roomy_def t by (auto dest!: subsetD)
  show "im_ttlMs (snd (tryClaim k h rv now m)) = im_ttlMs m" by (simp add: t)
  show "map_of (im_store m) j = Some e \<Longrightarrow> map_of (im_store (snd (tryClaim k h rv now m))) j = Some e" by (auto simp: t)
  show "map_of (im_store m) k = None \<Longrightarrow> map_option ie_txHash (map_of (im_store (snd (tryClaim k h rv now m))) k) = Some h"
    by (simp add: t)
qed

text \<open>
  One pass over the chunks: the store keeps what it had, the chunks that were succeeded are in it
  with the reported hash, and a chunk is sent only when its key was not in the store.
\<close>

definition recorded :: "idem_manager \<Rightarrow> string \<Rightarrow> string option" where
  "recorded m k = map_option ie_txHash (map_of (im_store m) k)"

lemma recorded_claim:
  assumes "roomy until (Suc n) m" "until - im_ttlMs m \<le> now" "now \<le> until"
  shows "recorded m j = Some x \<Longrightarrow> recorded (snd (tryClaim k h rv now m)) j = Some x"
    "recorded m k = None \<Longrightarrow> recorded (snd (tryClaim k h rv now m)) k = Some h"
    "j \<noteq> k \<Longrightarrow> recorded (snd (tryClaim k h rv now m)) j = recorded m j"
proof -
  show "recorded m j = Some x \<Longrightarrow> recorded (snd (tryClaim k h rv now m)) j = Some x"
    using roomy_claim(3) [OF assms] by (auto simp: recorded_def)
  show "recorded m k = None \<Longrightarrow> recorded (snd (tryClaim k h rv now m)) k = Some h"
    using roomy_claim(4) [OF assms] by (simp add: recorded_def)
  have "sweep now m = m" "evict_oldest m = m" using roomy_sweep [OF assms(1,3)] assms(1) by (simp_all add: evict_oldest_def roomy_def)
  then show "j \<noteq> k \<Longrightarrow> recorded (snd (tryClaim k h rv now m)) j = recorded m j"
    by (simp add: tryClaim_def recorded_def Let_def split: option.split)
qed

lemma getResult_roomy: "roomy until n m \<Longrightarrow> now \<le> until \<Longrightarrow> getResult k now m = (recorded m k, m)"
  by (simp add: getResult_def roomy_sweep recorded_def)

lemma roomy_less: "roomy until (Suc n) m \<Longrightarrow> roomy until n m"
  by (simp add: roomy_def)

text \<open>All visits to the store are between the expiry of nothing and the end of the lifetime of everything.\<close>

definition in_time :: "int \<Rightarrow> idem_manager \<Rightarrow> (nat \<Rightarrow> int \<times> int) \<Rightarrow> bool" where
  "in_time until m clock \<longleftrightarrow> (\<forall>i. until - im_ttlMs m \<le> snd (clock i) \<and> fst (clock i) \<le> until \<and> snd (clock i) \<le> until)"

lemma claim_config: "im_ttlMs (snd (tryClaim k h rv now m)) = im_ttlMs m" "im_maxEntries (snd (tryClaim k h rv now m)) = im_maxEntries m"
proof -
  have "im_ttlMs (evict_oldest m) = im_ttlMs m \<and> im_maxEntries (evict_oldest m) = im_maxEntries m" for m
    by (simp add: evict_oldest_def split: list.split prod.split)
  then show "im_ttlMs (snd (tryClaim k h rv now m)) = im_ttlMs m" "im_maxEntries (snd (tryClaim k h rv now m)) = im_maxEntries m"
    by (simp_all add: tryClaim_def sweep_def Let_def split: option.split)
qed

text \<open>The three ways one chunk goes; \<open>submit_cases\<close> splits a pass at its first chunk.\<close>

lemma submit_cases:
  assumes "submit_from key clock submit ((i, ops) # cs) r m = (r', m', sent)" "roomy until (Suc (length cs)) m" "in_time until m clock"
  obtains (known) h where "recorded m (key i ops) = Some h" "roomy until (length cs) m"
      "submit_from key clock submit cs (r\<lparr>br_succeeded := br_succeeded r @ [(i, h)]\<rparr>) m = (r', m', sent)"
    | (failed) e where "recorded m (key i ops) = None" "submit i ops = Inl e" "r' = r\<lparr>br_failed := Some (i, e)\<rparr>" "m' = m" "sent = [i]"
    | (sent) h m1 sent1 where "recorded m (key i ops) = None" "submit i ops = Inr h" "m1 = snd (tryClaim (key i ops) h None (snd (clock i)) m)"
      "submit_from key clock submit cs (r\<lparr>br_succeeded := br_succeeded r @ [(i, h)]\<rparr>) m1 = (r', m', sent1)" "sent = i # sent1"
      "roomy until (length cs) m1" "in_time until m1 clock" "recorded m1 (key i ops) = Some h"
      "\<And>j. j \<noteq> key i ops \<Longrightarrow> recorded m1 j = recorded m j" "\<And>j x. recorded m j = Some x \<Longrightarrow> recorded m1 j = Some x"
proof -
  have t: "until - im_ttlMs m \<le> snd (clock i)" "fst (clock i) \<le> until" "snd (clock i) \<le> until" using assms(3) by (auto simp: in_time_def)
  have g: "getResult (key i ops) (fst (clock i)) m = (recorded m (key i ops), m)" by (rule getResult_roomy [OF assms(2) t(2)])
  show thesis
  proof (cases "recorded m (key i ops)")
    case (Some h)
    with known [OF Some roomy_less [OF assms(2)]] assms(1) g show thesis by simp
  next
    case None
    show thesis
    proof (cases "submit i ops")
      case (Inl e)
      with failed [OF None Inl] assms(1) g None show thesis by simp
    next
      case (Inr h)
      define m1 where "m1 = snd (tryClaim (key i ops) h None (snd (clock i)) m)"
      obtain sent1 where s: "submit_from key clock submit cs (r\<lparr>br_succeeded := br_succeeded r @ [(i, h)]\<rparr>) m1 = (r', m', sent1)" "sent = i # sent1"
        using assms(1) g None Inr by (auto simp: m1_def split: prod.splits)
      note c = recorded_claim [OF assms(2) t(1,3)]
      show thesis
        by (rule sent [OF None Inr m1_def s])
          (use roomy_claim(1) [OF assms(2) t(1,3)] assms(3) c None in \<open>simp_all add: m1_def in_time_def claim_config\<close>)
    qed
  qed
qed

lemma submit_keeps:
  "submit_from key clock submit cs r m = (r', m', sent) \<Longrightarrow> roomy until (length cs) m \<Longrightarrow> in_time until m clock \<Longrightarrow>
    recorded m k = Some x \<Longrightarrow> recorded m' k = Some x"
proof (induction cs arbitrary: r m r' m' sent)
  case (Cons c cs)
  obtain i ops where c: "c = (i, ops)" by (cases c)
  from Cons.prems have "submit_from key clock submit ((i, ops) # cs) r m = (r', m', sent)" "roomy until (Suc (length cs)) m" "in_time until m clock"
    by (simp_all add: c)
  then show ?case
  proof (cases rule: submit_cases)
    case (known h) with Cons.IH Cons.prems(3,4) show ?thesis by blast
  next
    case (failed e) with Cons.prems show ?thesis by simp
  next
    case (sent h m1 sent1) with Cons.IH [OF sent(4,6,7)] Cons.prems(4) show ?thesis by blast
  qed
qed simp

lemma submit_sent_unrecorded:
  "submit_from key clock submit cs r m = (r', m', sent) \<Longrightarrow> roomy until (length cs) m \<Longrightarrow> in_time until m clock \<Longrightarrow>
    distinct (map (\<lambda>(i, ops). key i ops) cs) \<Longrightarrow> \<forall>i \<in> set sent. \<exists>ops. (i, ops) \<in> set cs \<and> recorded m (key i ops) = None"
proof (induction cs arbitrary: r m r' m' sent)
  case (Cons c cs)
  obtain i ops where c: "c = (i, ops)" by (cases c)
  from Cons.prems have "submit_from key clock submit ((i, ops) # cs) r m = (r', m', sent)" "roomy until (Suc (length cs)) m" "in_time until m clock"
    by (simp_all add: c)
  then show ?case
  proof (cases rule: submit_cases)
    case (known h) with Cons.IH [OF known(3,2)] Cons.prems(3,4) show ?thesis by auto
  next
    case (failed e) with c show ?thesis by auto
  next
    case (sent h m1 sent1)
    have "\<forall>j \<in> set sent1. \<exists>ops'. (j, ops') \<in> set cs \<and> recorded m1 (key j ops') = None"
      using Cons.IH [OF sent(4,6,7)] Cons.prems(4) by simp
    moreover have "key j ops' \<noteq> key i ops" if "(j, ops') \<in> set cs" for j ops' using Cons.prems(4) that by (force simp: c)
    ultimately have "\<forall>j \<in> set sent1. \<exists>ops'. (j, ops') \<in> set cs \<and> recorded m (key j ops') = None" using sent(9) by metis
    with sent(1,5) c show ?thesis by auto
  qed
qed simp

lemma submit_succeeded_recorded:
  "submit_from key clock submit cs r m = (r', m', sent) \<Longrightarrow> roomy until (length cs) m \<Longrightarrow> in_time until m clock \<Longrightarrow>
    \<forall>(i, h) \<in> set (br_succeeded r'). (i, h) \<in> set (br_succeeded r) \<or> (\<exists>ops. (i, ops) \<in> set cs \<and> recorded m' (key i ops) = Some h)"
proof (induction cs arbitrary: r m r' m' sent)
  case (Cons c cs)
  obtain i ops where c: "c = (i, ops)" by (cases c)
  from Cons.prems have s: "submit_from key clock submit ((i, ops) # cs) r m = (r', m', sent)" "roomy until (Suc (length cs)) m" "in_time until m clock"
    by (simp_all add: c)
  from s show ?case
  proof (cases rule: submit_cases)
    case (known h)
    from Cons.IH [OF known(3,2) s(3)] submit_keeps [OF known(3,2) s(3) known(1)] show ?thesis by (fastforce simp: c)
  next
    case (failed e) then show ?thesis by auto
  next
    case (sent h m1 sent1)
    from Cons.IH [OF sent(4,6,7)] submit_keeps [OF sent(4,6,7,8)] show ?thesis by (fastforce simp: c)
  qed
qed auto

lemma submit_order:
  "submit_from key clock submit cs r m = (r', m', sent) \<Longrightarrow> roomy until (length cs) m \<Longrightarrow> in_time until m clock \<Longrightarrow>
    \<exists>n \<le> length cs. map fst (br_succeeded r') = map fst (br_succeeded r) @ map fst (take n cs) \<and>
      (n = length cs \<and> br_failed r' = br_failed r \<or> n < length cs \<and> (\<exists>e. br_failed r' = Some (fst (cs ! n), e)))"
proof (induction cs arbitrary: r m r' m' sent)
  case (Cons c cs)
  obtain i ops where c: "c = (i, ops)" by (cases c)
  from Cons.prems have s: "submit_from key clock submit ((i, ops) # cs) r m = (r', m', sent)" "roomy until (Suc (length cs)) m" "in_time until m clock"
    by (simp_all add: c)
  from s show ?case
  proof (cases rule: submit_cases)
    case (known h)
    from Cons.IH [OF known(3,2) s(3)] obtain n where "n \<le> length cs"
      "map fst (br_succeeded r') = map fst (br_succeeded r) @ i # map fst (take n cs)"
      "n = length cs \<and> br_failed r' = br_failed r \<or> n < length cs \<and> (\<exists>e. br_failed r' = Some (fst (cs ! n), e))" by auto
    then show ?thesis by (intro exI [of _ "Suc n"]) (simp add: c)
  next
    case (failed e) then show ?thesis by (intro exI [of _ 0]) (simp add: c)
  next
    case (sent h m1 sent1)
    from Cons.IH [OF sent(4,6,7)] obtain n where "n \<le> length cs"
      "map fst (br_succeeded r') = map fst (br_succeeded r) @ i # map fst (take n cs)"
      "n = length cs \<and> br_failed r' = br_failed r \<or> n < length cs \<and> (\<exists>e. br_failed r' = Some (fst (cs ! n), e))" by auto
    then show ?thesis by (intro exI [of _ "Suc n"]) (simp add: c)
  qed
qed auto

lemma submit_failed_sent:
  "submit_from key clock submit cs r m = (r', m', sent) \<Longrightarrow> roomy until (length cs) m \<Longrightarrow> in_time until m clock \<Longrightarrow>
    br_failed r' = br_failed r \<or> (\<exists>i e. br_failed r' = Some (i, e) \<and> i \<in> set sent)"
proof (induction cs arbitrary: r m r' m' sent)
  case (Cons c cs)
  obtain i ops where c: "c = (i, ops)" by (cases c)
  from Cons.prems have s: "submit_from key clock submit ((i, ops) # cs) r m = (r', m', sent)" "roomy until (Suc (length cs)) m" "in_time until m clock"
    by (simp_all add: c)
  from s show ?case
  proof (cases rule: submit_cases)
    case (known h) from Cons.IH [OF known(3,2) s(3)] show ?thesis by simp
  next
    case (failed e) then show ?thesis by simp
  next
    case (sent h m1 sent1) from Cons.IH [OF sent(4,6,7)] sent(5) show ?thesis by auto
  qed
qed simp

lemma submit_manager:
  "submit_from key clock submit cs r m = (r', m', sent) \<Longrightarrow> roomy until (n + length cs) m \<Longrightarrow> in_time until m clock \<Longrightarrow>
    roomy until n m' \<and> im_ttlMs m' = im_ttlMs m"
proof (induction cs arbitrary: r m r' m' sent)
  case (Cons c cs)
  obtain i ops where c: "c = (i, ops)" by (cases c)
  have room: "roomy until (Suc (n + length cs)) m" "roomy until (Suc (length cs)) m" using Cons.prems(2) by (simp_all add: roomy_def)
  from Cons.prems have s: "submit_from key clock submit ((i, ops) # cs) r m = (r', m', sent)" by (simp add: c)
  from s room(2) Cons.prems(3) show ?case
  proof (cases rule: submit_cases)
    case (known h) from Cons.IH [OF known(3) roomy_less [OF room(1)] Cons.prems(3)] show ?thesis .
  next
    case (failed e) with Cons.prems(2) show ?thesis by (simp add: roomy_def)
  next
    case (sent h m1 sent1)
    have "until - im_ttlMs m \<le> snd (clock i)" "snd (clock i) \<le> until" using Cons.prems(3) by (auto simp: in_time_def)
    from roomy_claim(1) [OF room(1) this] sent(3) have "roomy until (n + length cs) m1" by simp
    from Cons.IH [OF sent(4) this sent(7)] sent(3) show ?thesis by (simp add: claim_config)
  qed
qed simp

text \<open>
  C6: While the keys live, submitting the same batch again resumes it. Let a batch be submitted, in
  whatever way some chunk fails, and once more. No key of the store expires up to a time \<open>until\<close>, both
  passes end by then and claim their keys no earlier than one lifetime before it; the keys of the
  chunks are different, and the store has room for two more entries per chunk, so that none is evicted.
  Then the second pass hands no chunk to the network that the first one reported as submitted, and
  reports all of those again with the same transaction hashes.
\<close>

theorem batch_resumed_not_repeated:
  fixes submit1 submit2 :: "nat \<Rightarrow> 'o list \<Rightarrow> 'e + string"
  assumes "submitAll sha json source clock1 submit1 chunks m = (r1, m1, sent1)" "submitAll sha json source clock2 submit2 chunks m1 = (r2, m2, sent2)"
    and "\<forall>x \<in> set (im_store m). until \<le> ie_expiresAt (snd x)" "int (length (im_store m) + 2 * length chunks) \<le> im_maxEntries m"
    and "in_time until m clock1" "in_time until m clock2"
    and "distinct (map (\<lambda>(i, ops). generateKey sha source (json i ops)) (enumerate 0 chunks))"
  shows "set sent2 \<inter> fst ` set (br_succeeded r1) = {} \<and> set (br_succeeded r1) \<subseteq> set (br_succeeded r2)"
proof -
  let ?key = "\<lambda>i ops. generateKey sha source (json i ops)" and ?cs = "enumerate 0 chunks"
  let ?r = "\<lparr>br_succeeded = [], br_failed = None\<rparr> :: 'e batch_result"
  note s1 = assms(1) [unfolded submitAll_def] and s2 = assms(2) [unfolded submitAll_def]
  have room: "roomy until (length ?cs + length ?cs) m" "roomy until (length ?cs) m" using assms(3,4) by (simp_all add: roomy_def)
  from submit_manager [OF s1 room(1) assms(5)] have m1: "roomy until (length ?cs) m1" "in_time until m1 clock2"
    using assms(6) by (simp_all add: in_time_def)
  have at: "(i, ops) \<in> set ?cs \<longleftrightarrow> i < length chunks \<and> ops = chunks ! i" for i ops
    by (auto simp: in_set_enumerate_eq)
  have rec1: "i < length chunks \<and> recorded m1 (?key i (chunks ! i)) = Some h" if "(i, h) \<in> set (br_succeeded r1)" for i h
    using submit_succeeded_recorded [OF s1 room(2) assms(5)] that by (auto simp: at)
  have no_resend: "i \<notin> set sent2" if "(i, h) \<in> set (br_succeeded r1)" for i h
    using submit_sent_unrecorded [OF s2 m1 assms(7)] rec1 [OF that] by (auto simp: at)
  obtain n1 where n1: "map fst (br_succeeded r1) = map fst (take n1 ?cs)"
    using submit_order [OF s1 room(2) assms(5)] by auto
  obtain n2 where n2: "n2 \<le> length ?cs" "map fst (br_succeeded r2) = map fst (take n2 ?cs)"
      "n2 = length ?cs \<or> (\<exists>e. br_failed r2 = Some (fst (?cs ! n2), e))"
    using submit_order [OF s2 m1] by auto
  have idx: "map fst (take n ?cs) = [0..<min n (length chunks)]" for n
    by (simp add: take_map [symmetric] min_def take_upt)
  have dom1: "fst ` set (br_succeeded r1) = {0..<min n1 (length chunks)}" using arg_cong [OF n1, of set] idx [of n1] by simp
  have dom2: "fst ` set (br_succeeded r2) = {0..<min n2 (length chunks)}" using arg_cong [OF n2(2), of set] idx [of n2] by simp
  have "(i, h) \<in> set (br_succeeded r2)" if "(i, h) \<in> set (br_succeeded r1)" for i h
  proof -
    have "i < n2"
    proof (rule ccontr)
      assume "\<not> i < n2"
      moreover have "i \<in> fst ` set (br_succeeded r1)" using that by force
      then have i: "i < length chunks" "i < n1" by (simp_all add: dom1)
      ultimately obtain e where e: "br_failed r2 = Some (n2, e)" "n2 < length chunks" "n2 < n1"
        using n2(3) by (auto simp: nth_enumerate_eq)
      then have "n2 \<in> set sent2" using submit_failed_sent [OF s2 m1] by auto
      moreover have "n2 \<in> fst ` set (br_succeeded r1)" using e(2,3) by (simp add: dom1)
      ultimately show False using no_resend by force
    qed
    then have "i \<in> fst ` set (br_succeeded r2)" using rec1 [OF that] by (simp add: dom2)
    then obtain h' where h': "(i, h') \<in> set (br_succeeded r2)" by auto
    then have "recorded m2 (?key i (chunks ! i)) = Some h'"
      using submit_succeeded_recorded [OF s2 m1] by (auto simp: at)
    moreover have "recorded m2 (?key i (chunks ! i)) = Some h" using submit_keeps [OF s2 m1] rec1 [OF that] by blast
    ultimately show ?thesis using h' by simp
  qed
  then show ?thesis using no_resend by fastforce
qed

text \<open>Three chunks, the second of which fails in the first pass.\<close>

definition sample_manager :: idem_manager where
  "sample_manager = \<lparr>im_store = [], im_ttlMs = 1000, im_maxEntries = 10\<rparr>"

definition sample_json :: "nat \<Rightarrow> nat list \<Rightarrow> string" where
  "sample_json i ops = replicate (Suc i) CHR ''x''"

definition sample_submit :: "bool \<Rightarrow> nat \<Rightarrow> nat list \<Rightarrow> string + string" where
  "sample_submit ok i ops = (if i = 1 \<and> \<not> ok then Inl ''timeout'' else Inr (''tx'' @ replicate i CHR ''i''))"

theorem batch_resumed_not_repeated_witness:
  "\<exists>r1 m1 sent1 r2 m2 sent2.
     submitAll id sample_json ''G'' (\<lambda>i. (0, 1)) (sample_submit False) [[1, 2], [3, 4], [5]] sample_manager = (r1, m1, sent1) \<and>
     submitAll id sample_json ''G'' (\<lambda>i. (500, 501)) (sample_submit True) [[1, 2], [3, 4], [5]] m1 = (r2, m2, sent2) \<and>
     0 \<in> fst ` set (br_succeeded r1) \<and> 0 \<notin> set sent2 \<and> br_failed r1 \<noteq> None"
proof -
  let ?chunks = "[[1, 2], [3, 4], [5]] :: nat list list"
  let ?R1 = "submitAll id sample_json ''G'' (\<lambda>i. (0, 1)) (sample_submit False) ?chunks sample_manager"
  obtain r1 m1 sent1 where r1: "?R1 = (r1, m1, sent1)" by (metis prod_cases3)
  obtain r2 m2 sent2 where r2: "submitAll id sample_json ''G'' (\<lambda>i. (500, 501)) (sample_submit True) ?chunks m1 = (r2, m2, sent2)"
    by (metis prod_cases3)
  have "br_succeeded (fst ?R1) = [(0, ''tx'')] \<and> br_failed (fst ?R1) = Some (1, ''timeout'')" by code_simp
  then have s: "br_succeeded r1 = [(0, ''tx'')]" "br_failed r1 \<noteq> None" unfolding r1 fst_conv by auto
  have a: "\<forall>x \<in> set (im_store sample_manager). 1000 \<le> ie_expiresAt (snd x)"
    "int (length (im_store sample_manager) + 2 * length ?chunks) \<le> im_maxEntries sample_manager"
    by (simp_all add: sample_manager_def)
  have t: "in_time 1000 sample_manager (\<lambda>i. (0, 1))" "in_time 1000 sample_manager (\<lambda>i. (500, 501))"
    by (simp_all add: in_time_def sample_manager_def)
  have "distinct (map (\<lambda>(i, ops). generateKey id ''G'' (sample_json i ops)) (enumerate 0 ?chunks))" by code_simp
  from batch_resumed_not_repeated [OF r1 r2 a t this] s have "0 \<notin> set sent2" by simp
  with r1 r2 s show ?thesis by (intro exI conjI) (assumption | simp)+
qed

text \<open>
  The two conditions on the store are needed. When the second pass comes after the lifetime, or when a
  store for one entry has evicted the first chunk's key for the second's, the first chunk is submitted again.
\<close>

theorem expired_chunk_submitted_again:
  "(case submitAll id sample_json ''G'' (\<lambda>i. (0, 1)) (sample_submit False) [[1, 2], [3, 4], [5]] sample_manager of
     (r1, m1, sent1) \<Rightarrow>
       (map fst (br_succeeded r1),
        snd (snd (submitAll id sample_json ''G'' (\<lambda>i. (1002, 1003)) (sample_submit True) [[1, 2], [3, 4], [5]] m1)))) = ([0], [0, 1, 2])"
  by code_simp

theorem evicted_chunk_submitted_again:
  "(case submitAll id sample_json ''G'' (\<lambda>i. (0, 1)) (sample_submit True) [[1, 2], [3, 4]] (sample_manager\<lparr>im_maxEntries := 1\<rparr>) of
     (r1, m1, sent1) \<Rightarrow>
       (map fst (br_succeeded r1),
        snd (snd (submitAll id sample_json ''G'' (\<lambda>i. (2, 3)) (sample_submit True) [[1, 2], [3, 4]] m1)))) = ([0, 1], [0, 1])"
  by code_simp

section \<open>Keys of payments\<close>

lemma takeWhile_field: "c \<notin> set a \<Longrightarrow> takeWhile (\<lambda>x. x \<noteq> c) (a @ c # r) = a"
  by (induction a) auto

lemma field_inj:
  assumes "a @ c # r = a' @ c # r'" "c \<notin> set a" "c \<notin> set a'"
  shows "a = a' \<and> r = r'"
proof -
  have "a = a'" using takeWhile_field [OF assms(2), of r] takeWhile_field [OF assms(3), of r'] assms(1) by metis
  with assms(1) show ?thesis by simp
qed

lemma colon_not_in_amount: "CHR '':'' \<notin> set (show_int n)"
  using show_int_chars [of "CHR '':''" n] by (auto simp: is_digit_def)

text \<open>
  The text that is hashed into an idempotency key determines the payment: for invoice ids and
  payers without a colon, two payments with the same text have the same invoice, payer, amount and
  nonce, a missing nonce being different from every given one.
\<close>

theorem payload_determines_payment:
  assumes "key_payload p = key_payload q" "CHR '':'' \<notin> set (kp_invoiceId p)" "CHR '':'' \<notin> set (kp_invoiceId q)"
    "CHR '':'' \<notin> set (kp_payer p)" "CHR '':'' \<notin> set (kp_payer q)"
  shows "p = q"
proof -
  define rest where "rest = (\<lambda>p :: key_params. show_int (kp_amount p) @ (case kp_nonce p of Some n \<Rightarrow> '':'' @ n | None \<Rightarrow> []))"
  have k: "key_payload p = kp_invoiceId p @ CHR '':'' # kp_payer p @ CHR '':'' # rest p" for p :: key_params
    by (simp add: key_payload_def rest_def Let_def split: option.split)
  from assms(1) have e: "kp_invoiceId p @ CHR '':'' # (kp_payer p @ CHR '':'' # rest p) = kp_invoiceId q @ CHR '':'' # (kp_payer q @ CHR '':'' # rest q)"
    by (simp add: k)
  from field_inj [OF e assms(2,3)] have i: "kp_invoiceId p = kp_invoiceId q" "kp_payer p @ CHR '':'' # rest p = kp_payer q @ CHR '':'' # rest q" by auto
  from field_inj [OF i(2) assms(4,5)] have y: "kp_payer p = kp_payer q" "rest p = rest q" by auto
  have "kp_amount p = kp_amount q \<and> kp_nonce p = kp_nonce q"
  proof (cases "kp_nonce p"; cases "kp_nonce q")
    assume "kp_nonce p = None" "kp_nonce q = None"
    with y(2) show ?thesis by (simp add: rest_def show_int_inj)
  next
    fix n m assume n: "kp_nonce p = Some n" "kp_nonce q = Some m"
    with y(2) have "show_int (kp_amount p) @ CHR '':'' # n = show_int (kp_amount q) @ CHR '':'' # m" by (simp add: rest_def)
    from field_inj [OF this colon_not_in_amount colon_not_in_amount] n show ?thesis by (simp add: show_int_inj)
  next
    fix n assume n: "kp_nonce p = Some n" "kp_nonce q = None"
    with y(2) have "show_int (kp_amount q) = show_int (kp_amount p) @ CHR '':'' # n" by (simp add: rest_def)
    then have "CHR '':'' \<in> set (show_int (kp_amount q))" by simp
    with colon_not_in_amount show ?thesis by blast
  next
    fix n assume n: "kp_nonce p = None" "kp_nonce q = Some n"
    with y(2) have "show_int (kp_amount p) = show_int (kp_amount q) @ CHR '':'' # n" by (simp add: rest_def)
    then have "CHR '':'' \<in> set (show_int (kp_amount p))" by simp
    with colon_not_in_amount show ?thesis by blast
  qed
  with i(1) y(1) show ?thesis by simp
qed

theorem payload_determines_payment_witness:
  "\<lparr>kp_invoiceId = ''7'', kp_payer = ''GA'', kp_amount = 100, kp_nonce = Some ''a:b''\<rparr> =
   \<lparr>kp_invoiceId = ''7'', kp_payer = ''GA'', kp_amount = 100, kp_nonce = Some ''a:b''\<rparr>"
  by (rule payload_determines_payment) simp_all

text \<open>Calls in flight: a key in flight is shared, and every call is a hit or a miss.\<close>

lemma dedupe_shares: "map_of (dd_inflight d) k = Some q \<Longrightarrow> fst (dedupe k p d) = q"
  by (simp add: dedupe_def)

lemma dedupe_counts: "snd (getDedupStats (snd (dedupe k p d))) = snd (getDedupStats d) + 1"
  by (simp add: dedupe_def getDedupStats_def split: option.split)

end
