(* ===== verification/Split_Preview.thy ===== *)
theory Split_Preview
  imports Invoice_State
begin

text \<open>
  How a payment is divided over recipients: \<open>validators/recipientDeduplicator.ts\<close>,
  \<open>splitPreview.ts\<close>, \<open>validators/splitRatioValidator.ts\<close> and \<open>vesting.ts\<close>. Shares and basis
  points are exact rationals; \<open>fl\<close> rounds the result of a floating-point operation.
\<close>

section \<open>Duplicate recipients\<close>

datatype dedup_mode = MergeMode | RejectMode

datatype duplicate_error = DuplicateRecipientError "string list"

definition normalizeAccountId :: "string \<Rightarrow> string" where
  "normalizeAccountId address = map upper_char address"

type_synonym recipient_scan = "(string \<times> int) list \<times> (string \<times> recipient) list"

definition scan_recipient :: "dedup_mode \<Rightarrow> recipient_scan \<Rightarrow> recipient \<Rightarrow> recipient_scan" where
  "scan_recipient mode st r =
     (case st of (counts, firstEntry) \<Rightarrow>
        let norm = normalizeAccountId (rc_address r);
            n = (case map_of counts norm of None \<Rightarrow> 0 | Some c \<Rightarrow> c)
        in (AList.update norm (n + 1) counts,
            case map_of firstEntry norm of
              None \<Rightarrow> AList.update norm r firstEntry
            | Some e \<Rightarrow>
                if mode = MergeMode
                then AList.update norm (e\<lparr>rc_amount := rc_amount e + rc_amount r\<rparr>) firstEntry
                else firstEntry))"

definition duplicates_of :: "recipient_scan \<Rightarrow> string list" where
  "duplicates_of st =
     map (\<lambda>(norm, _). rc_address (the (map_of (snd st) norm))) (filter (\<lambda>(_, count). count > 1) (fst st))"

fun first_entries :: "(string \<times> recipient) list \<Rightarrow> string list \<Rightarrow> recipient list \<Rightarrow> recipient list" where
  "first_entries firstEntry added [] = []"
| "first_entries firstEntry added (r # rs) =
     (let norm = normalizeAccountId (rc_address r)
      in if norm \<in> set added then first_entries firstEntry added rs
         else the (map_of firstEntry norm) # first_entries firstEntry (set_add norm added) rs)"

definition deduplicateRecipients :: "dedup_mode \<Rightarrow> recipient list \<Rightarrow> duplicate_error + recipient list" where
  "deduplicateRecipients mode rs =
     (let st = foldl (scan_recipient mode) ([], []) rs
      in if mode = RejectMode \<and> duplicates_of st \<noteq> [] then Inl (DuplicateRecipientError (duplicates_of st))
         else Inr (first_entries (snd st) [] rs))"

section \<open>Previewing the split rules of an invoice\<close>

record split_tier =
  st_upTo :: int
  st_bps :: rat

datatype split_rule =
    FixedRule string int
  | PercentageRule string rat
  | TieredRule string "split_tier list"

definition rule_bps :: "rat \<Rightarrow> int" where
  "rule_bps bps = max 0 (js_trunc bps)"

fun tier_total :: "int \<Rightarrow> int \<Rightarrow> int \<Rightarrow> split_tier list \<Rightarrow> int" where
  "tier_total funded acc lower [] = acc"
| "tier_total funded acc lower (t # ts) =
     (let upper = st_upTo t
      in if funded \<le> lower then acc
         else let bandTop = (if funded < upper then funded else upper);
                  acc' = (if bandTop > lower then acc + ((bandTop - lower) * rule_bps (st_bps t)) sdiv 10000 else acc)
              in tier_total funded acc' upper ts)"

fun applyRule :: "split_rule \<Rightarrow> int \<Rightarrow> int \<Rightarrow> int" where
  "applyRule (FixedRule who amount) funded remaining =
     (let a = (if amount < 0 then 0 else amount) in if a > remaining then remaining else a)"
| "applyRule (PercentageRule who bps) funded remaining = (funded * rule_bps bps) sdiv 10000"
| "applyRule (TieredRule who tiers) funded remaining = tier_total funded 0 0 tiers"

fun rule_recipient :: "split_rule \<Rightarrow> string" where
  "rule_recipient (FixedRule who _) = who"
| "rule_recipient (PercentageRule who _) = who"
| "rule_recipient (TieredRule who _) = who"

definition proportionalFallback :: "recipient list \<Rightarrow> int \<Rightarrow> (string \<times> int) list" where
  "proportionalFallback rs funded =
     (case deduplicateRecipients MergeMode rs of
        Inl e \<Rightarrow> []
      | Inr deduped \<Rightarrow>
          let totalOwed = sum_list (map rc_amount deduped);
              denominator = (if totalOwed = 0 then 1 else totalOwed)
          in map (\<lambda>r. (rc_address r, (funded * rc_amount r) sdiv denominator)) deduped)"

fun preview_rules :: "int \<Rightarrow> int \<Rightarrow> split_rule list \<Rightarrow> (string \<times> int) list" where
  "preview_rules funded remaining [] = []"
| "preview_rules funded remaining (r # rs) =
     (let amount = applyRule r funded remaining
      in (rule_recipient r, amount) # preview_rules funded (max 0 (remaining - amount)) rs)"

definition previewSplitRules :: "split_rule list option \<Rightarrow> recipient list \<Rightarrow> int \<Rightarrow> (string \<times> int) list" where
  "previewSplitRules split_rules rs fundedAmount =
     (let rules = (case split_rules of None \<Rightarrow> [] | Some xs \<Rightarrow> xs)
      in if rules = [] then proportionalFallback rs fundedAmount
         else preview_rules fundedAmount (if fundedAmount < 0 then 0 else fundedAmount) rules)"

section \<open>Ratio configurations\<close>

record recipient_share =
  rsh_address :: string
  rsh_share :: rat

record split_config =
  sc_shares :: "recipient_share list"
  sc_tolerance :: "rat option"
  sc_minRatioPercent :: "rat option"

datatype ratio_error =
    NoShares
  | NegativeShare string rat
  | ZeroShare string
  | BelowMinimum string rat
  | DuplicateAddress string
  | BadSum rat rat

fun duplicate_addresses :: "string list \<Rightarrow> recipient_share list \<Rightarrow> ratio_error list" where
  "duplicate_addresses seen [] = []"
| "duplicate_addresses seen (s # ss) =
     (if rsh_address s \<in> set seen then [DuplicateAddress (rsh_address s)] else [])
       @ duplicate_addresses (set_add (rsh_address s) seen) ss"

definition share_sum :: "(rat \<Rightarrow> rat) \<Rightarrow> recipient_share list \<Rightarrow> rat" where
  "share_sum fl ss = foldl (\<lambda>acc s. fl (acc + rsh_share s)) 0 ss"

definition ratio_tolerance :: "(rat \<Rightarrow> rat) \<Rightarrow> split_config \<Rightarrow> rat" where
  "ratio_tolerance fl c = (case sc_tolerance c of None \<Rightarrow> fl (1 / 10 ^ 9) | Some t \<Rightarrow> t)"

definition min_ratio_percent :: "(rat \<Rightarrow> rat) \<Rightarrow> split_config \<Rightarrow> rat" where
  "min_ratio_percent fl c = (case sc_minRatioPercent c of None \<Rightarrow> fl (1 / 100) | Some m \<Rightarrow> m)"

definition validateSplitRatios :: "(rat \<Rightarrow> rat) \<Rightarrow> split_config \<Rightarrow> ratio_error list" where
  "validateSplitRatios fl c =
     (let shares = sc_shares c;
          minPercent = min_ratio_percent fl c;
          total_share = share_sum fl shares
      in if shares = [] then [NoShares]
         else map (\<lambda>s. NegativeShare (rsh_address s) (rsh_share s)) (filter (\<lambda>s. rsh_share s < 0) shares)
           @ map (\<lambda>s. ZeroShare (rsh_address s)) (filter (\<lambda>s. rsh_share s = 0) shares)
           @ (if minPercent > 0
              then map (\<lambda>s. BelowMinimum (rsh_address s) minPercent)
                     (filter (\<lambda>s. 0 < rsh_share s \<and> rsh_share s < fl (minPercent / 100)) shares)
              else [])
           @ duplicate_addresses [] shares
           @ (if \<bar>fl (total_share - 1)\<bar> > ratio_tolerance fl c then [BadSum total_share (ratio_tolerance fl c)] else []))"

definition validateSplitRatiosOrThrow :: "(rat \<Rightarrow> rat) \<Rightarrow> split_config \<Rightarrow> ratio_error list + unit" where
  "validateSplitRatiosOrThrow fl c =
     (let errors = validateSplitRatios fl c in if errors \<noteq> [] then Inl errors else Inr ())"

definition floor_amounts :: "(rat \<Rightarrow> rat) \<Rightarrow> recipient_share list \<Rightarrow> int \<Rightarrow> int list" where
  "floor_amounts fl shares totl = map (\<lambda>s. (totl * \<lfloor>fl (rsh_share s * 1000000)\<rfloor>) sdiv 1000000) shares"

text \<open>\<open>amounts[i] = (amounts[i] ?? 0n) + 1n\<close>, which appends past the end of the array.\<close>

definition add_one :: "int list \<Rightarrow> nat \<Rightarrow> int list" where
  "add_one xs i = (if i < length xs then xs[i := xs ! i + 1] else xs @ [1])"

definition ratiosToRecipients :: "(rat \<Rightarrow> rat) \<Rightarrow> split_config \<Rightarrow> int \<Rightarrow> recipient list" where
  "ratiosToRecipients fl c totl =
     (let amounts = floor_amounts fl (sc_shares c) totl;
          remainder = totl - sum_list amounts;
          amounts' = foldl add_one amounts [0..<nat remainder]
      in map (\<lambda>(s, i). \<lparr>rc_address = rsh_address s, rc_amount = amounts' ! i\<rparr>)
           (zip (sc_shares c) [0..<length (sc_shares c)]))"

datatype split_total_error = BadSplitTotal "int list" int

definition validateSplitTotal :: "int list \<Rightarrow> int \<Rightarrow> split_total_error + unit" where
  "validateSplitTotal splits totalBasisPoints =
     (if splits = [] then Inl (BadSplitTotal splits totalBasisPoints)
      else if foldl (+) 0 splits \<noteq> totalBasisPoints then Inl (BadSplitTotal splits totalBasisPoints)
      else Inr ())"

definition normalizeSplits :: "int list \<Rightarrow> int \<Rightarrow> int list" where
  "normalizeSplits amounts totl =
     (if amounts = [] then []
      else let remainder = totl - foldl (+) 0 amounts; k = length amounts - 1
           in amounts[k := amounts ! k + remainder])"

section \<open>Comparing two configurations\<close>

record changed_share =
  ch_accountId :: string
  ch_oldRatio :: rat
  ch_newRatio :: rat

record split_config_diff =
  sd_added :: "recipient_share list"
  sd_removed :: "recipient_share list"
  sd_changed :: "changed_share list"
  sd_totalRatioDelta :: rat

definition share_map :: "recipient_share list \<Rightarrow> (string \<times> recipient_share) list" where
  "share_map ss = foldl (\<lambda>m s. AList.update (rsh_address s) s m) [] ss"

definition generateSplitDiff :: "(rat \<Rightarrow> rat) \<Rightarrow> split_config \<Rightarrow> split_config \<Rightarrow> split_config_diff" where
  "generateSplitDiff fl original revised =
     (let origMap = share_map (sc_shares original); revMap = share_map (sc_shares revised)
      in \<lparr>sd_added = map snd (filter (\<lambda>(a, _). map_of origMap a = None) revMap),
          sd_removed = map snd (filter (\<lambda>(a, _). map_of revMap a = None) origMap),
          sd_changed =
            map (\<lambda>(a, s). \<lparr>ch_accountId = a, ch_oldRatio = rsh_share (the (map_of origMap a)), ch_newRatio = rsh_share s\<rparr>)
              (filter (\<lambda>(a, s). case map_of origMap a of None \<Rightarrow> False | Some o' \<Rightarrow> rsh_share o' \<noteq> rsh_share s) revMap),
          sd_totalRatioDelta = fl (share_sum fl (sc_shares revised) - share_sum fl (sc_shares original))\<rparr>)"

section \<open>Vesting\<close>

record vesting_options =
  vo_startTime :: int
  vo_duration :: int
  vo_totalAmount :: int
  vo_cliffDuration :: "int option"

definition vestedAt :: "int \<Rightarrow> vesting_options \<Rightarrow> int" where
  "vestedAt timestamp v =
     (let cliffDuration = (case vo_cliffDuration v of None \<Rightarrow> 0 | Some c \<Rightarrow> c);
          elapsed = timestamp - vo_startTime v
      in if elapsed < cliffDuration then 0
         else if elapsed \<ge> vo_duration v then vo_totalAmount v
         else let vestingDuration = vo_duration v - cliffDuration
              in if vestingDuration = 0 then vo_totalAmount v
                 else (vo_totalAmount v * (elapsed - cliffDuration)) sdiv vestingDuration)"

record vesting_schedule =
  vs_cliffDate :: int
  vs_fullyVestedDate :: int
  vs_claimableAt :: "int \<Rightarrow> int"

definition calculateVesting :: "int option \<Rightarrow> int option \<Rightarrow> recipient list \<Rightarrow> vesting_schedule" where
  "calculateVesting vestingCliff drip rs =
     (let cliffDate = (case vestingCliff of None \<Rightarrow> 0 | Some c \<Rightarrow> c);
          dripDuration = (case drip of None \<Rightarrow> 0 | Some d \<Rightarrow> d);
          fullyVestedDate = cliffDate + dripDuration;
          totalAmount = foldl (\<lambda>s r. s + rc_amount r) 0 rs
      in \<lparr>vs_cliffDate = cliffDate, vs_fullyVestedDate = fullyVestedDate,
          vs_claimableAt = (\<lambda>timestamp.
            if timestamp < cliffDate then 0
            else if timestamp \<ge> fullyVestedDate then totalAmount
            else (totalAmount * (timestamp - cliffDate)) sdiv dripDuration)\<rparr>)"

section \<open>Merging is grouping\<close>

text \<open>The reference: the accounts in order of first appearance, each with the sum of its amounts.\<close>

fun first_seen :: "'k list \<Rightarrow> 'k list" where
  "first_seen [] = []"
| "first_seen (k # ks) = k # removeAll k (first_seen ks)"

abbreviation account :: "recipient \<Rightarrow> string" where
  "account r \<equiv> normalizeAccountId (rc_address r)"

definition group_of :: "recipient list \<Rightarrow> string \<Rightarrow> recipient list" where
  "group_of rs k = filter (\<lambda>r. account r = k) rs"

definition grouped :: "recipient list \<Rightarrow> recipient list" where
  "grouped rs =
     map (\<lambda>k. \<lparr>rc_address = rc_address (hd (group_of rs k)), rc_amount = sum_list (map rc_amount (group_of rs k))\<rparr>)
       (first_seen (map account rs))"

lemma set_first_seen [simp]: "set (first_seen ks) = set ks"
  by (induction ks) auto

lemma distinct_first_seen [simp]: "distinct (first_seen ks)"
  by (induction ks) (auto simp: distinct_removeAll)

lemma first_seen_distinct: "distinct ks \<Longrightarrow> first_seen ks = ks"
  by (induction ks) auto

lemma first_seen_length: "length (first_seen ks) = length ks \<longleftrightarrow> distinct ks"
proof
  assume "length (first_seen ks) = length ks"
  then show "distinct ks"
    by (metis card_distinct distinct_card distinct_first_seen set_first_seen)
qed (simp add: first_seen_distinct)

lemma group_of_snoc: "group_of (rs @ [r]) k = group_of rs k @ (if account r = k then [r] else [])"
  by (simp add: group_of_def)

lemma group_of_Nil_iff: "group_of rs k = [] \<longleftrightarrow> k \<notin> account ` set rs"
  by (auto simp: group_of_def filter_empty_conv)

lemma scan_pair:
  "scan_recipient mode (c, f) r =
     (AList.update (account r) ((case map_of c (account r) of None \<Rightarrow> 0 | Some n \<Rightarrow> n) + 1) c,
      case map_of f (account r) of
        None \<Rightarrow> AList.update (account r) r f
      | Some e \<Rightarrow>
          if mode = MergeMode
          then AList.update (account r) (e\<lparr>rc_amount := rc_amount e + rc_amount r\<rparr>) f
          else f)"
  by (simp add: scan_recipient_def Let_def)

lemma scan_counts:
  "map_of (fst (foldl (scan_recipient mode) ([], []) rs)) k =
     (if group_of rs k = [] then None else Some (int (length (group_of rs k))))"
proof (induction rs rule: rev_induct)
  case (snoc r rs)
  then show ?case
    by (cases "foldl (scan_recipient mode) ([], []) rs")
      (auto simp: scan_pair group_of_snoc split: option.splits if_splits)
qed (simp add: group_of_def)

lemma scan_entries:
  "map_of (snd (foldl (scan_recipient MergeMode) ([], []) rs)) k =
     (if group_of rs k = [] then None
      else Some \<lparr>rc_address = rc_address (hd (group_of rs k)), rc_amount = sum_list (map rc_amount (group_of rs k))\<rparr>)"
proof (induction rs rule: rev_induct)
  case (snoc r rs)
  then show ?case
    by (cases "foldl (scan_recipient MergeMode) ([], []) rs")
      (auto simp: scan_pair group_of_snoc split: option.splits if_splits)
qed (simp add: group_of_def)

lemma scan_reject_entries:
  "map_of (snd (foldl (scan_recipient RejectMode) ([], []) rs)) k =
     (if group_of rs k = [] then None else Some (hd (group_of rs k)))"
proof (induction rs rule: rev_induct)
  case (snoc r rs)
  then show ?case
    by (cases "foldl (scan_recipient RejectMode) ([], []) rs")
      (auto simp: scan_pair group_of_snoc split: option.splits if_splits)
qed (simp add: group_of_def)

lemma first_seen_snoc: "first_seen (ks @ [k]) = (if k \<in> set ks then first_seen ks else first_seen ks @ [k])"
  by (induction ks) auto

lemma scan_keys: "map fst (fst (foldl (scan_recipient mode) ([], []) rs)) = first_seen (map account rs)"
proof (induction rs rule: rev_induct)
  case (snoc r rs)
  then show ?case
    by (cases "foldl (scan_recipient mode) ([], []) rs") (simp add: scan_pair update_keys first_seen_snoc)
qed simp

lemma first_entries_eq:
  "first_entries m added rs =
     map (\<lambda>k. the (map_of m k)) (filter (\<lambda>k. k \<notin> set added) (first_seen (map account rs)))"
proof (induction rs arbitrary: added)
  case (Cons r rs)
  have "filter (\<lambda>k. k \<notin> set added) (removeAll (account r) (first_seen (map account rs))) =
          filter (\<lambda>k. k \<notin> insert (account r) (set added)) (first_seen (map account rs))"
    by (simp add: removeAll_filter_not_eq) (rule filter_cong; auto)
  with Cons show ?case by (cases "account r \<in> set added") (simp_all add: Let_def insert_absorb del: insert_iff)
qed simp

text \<open>
  Merging duplicate recipients is grouping by the normalised account: one entry per account, in
  the order of first appearance and under its first spelling, with the sum of the amounts.
\<close>
theorem merge_groups_by_account: "deduplicateRecipients MergeMode rs = Inr (grouped rs)"
  by (simp add: deduplicateRecipients_def Let_def first_entries_eq grouped_def scan_entries group_of_Nil_iff)
lemma scan_lists:
  "fst (foldl (scan_recipient mode) ([], []) rs) =
     map (\<lambda>k. (k, int (length (group_of rs k)))) (first_seen (map account rs))"
proof -
  let ?c = "fst (foldl (scan_recipient mode) ([], []) rs)"
  have keys: "map fst ?c = first_seen (map account rs)" by (rule scan_keys)
  have "(k, n) \<in> set ?c \<Longrightarrow> n = int (length (group_of rs k))" for k n
    using map_of_is_SomeI [of ?c k n] keys scan_counts [of mode rs k] by (auto split: if_splits)
  then have "map (\<lambda>(k, n). (k, int (length (group_of rs k)))) ?c = ?c"
    by (intro map_idI) auto
  moreover have "map (\<lambda>(k, n). (k, int (length (group_of rs k)))) ?c = map (\<lambda>k. (k, int (length (group_of rs k)))) (map fst ?c)"
    by (simp add: case_prod_unfold)
  ultimately show ?thesis using keys by simp
qed

lemma distinct_groups: "distinct (map account rs) \<longleftrightarrow> (\<forall>k. length (group_of rs k) \<le> 1)"
proof (induction rs)
  case (Cons r rs)
  have step: "group_of (r # rs) k = (if account r = k then [r] else []) @ group_of rs k" for k
    by (simp add: group_of_def)
  show ?case
  proof (cases "account r \<in> account ` set rs")
    case True
    then have "length (group_of (r # rs) (account r)) \<ge> 2"
      using group_of_Nil_iff [of rs "account r"] by (cases "group_of rs (account r)") (simp_all add: step)
    with True show ?thesis by (auto intro: exI [of _ "account r"] simp: not_le)
  next
    case False
    then have "group_of rs (account r) = []" by (simp add: group_of_Nil_iff)
    with False Cons show ?thesis by (auto simp: step)
  qed
qed (simp add: group_of_def)

text \<open>
  Rejecting throws exactly when two recipients are one account, and then names each such account
  once, under its first spelling; otherwise the list is returned as it is.
\<close>
theorem reject_iff_duplicates:
  "deduplicateRecipients RejectMode rs =
     (if distinct (map account rs) then Inr rs
      else Inl (DuplicateRecipientError
             (map (\<lambda>k. rc_address (hd (group_of rs k)))
                (filter (\<lambda>k. length (group_of rs k) > 1) (first_seen (map account rs))))))"
proof -
  let ?st = "foldl (scan_recipient RejectMode) ([], []) rs"
  have dups: "duplicates_of ?st = map (\<lambda>k. rc_address (hd (group_of rs k)))
      (filter (\<lambda>k. length (group_of rs k) > 1) (first_seen (map account rs)))"
    by (simp add: duplicates_of_def scan_lists filter_map o_def scan_reject_entries)
  have none: "duplicates_of ?st = [] \<longleftrightarrow> distinct (map account rs)"
  proof -
    define P where "P k \<longleftrightarrow> length (group_of rs k) \<le> 1" for k
    have "P k" if "k \<notin> account ` set rs" for k
      using that group_of_Nil_iff [of rs k] by (simp add: P_def)
    then have "(\<forall>k \<in> account ` set rs. P k) \<longleftrightarrow> (\<forall>k. P k)" by blast
    then show ?thesis
      by (simp add: dups distinct_groups filter_empty_conv not_less P_def)
  qed
  have "first_entries (snd ?st) [] rs = rs" if "distinct (map account rs)"
  proof -
    have "hd (group_of rs (account r)) = r" if "r \<in> set rs" for r
      using that \<open>distinct (map account rs)\<close>
      by (induction rs) (auto simp: group_of_def)
    then show ?thesis
      using that by (simp add: first_entries_eq first_seen_distinct scan_reject_entries group_of_Nil_iff map_idI)
  qed
  with none show ?thesis by (simp add: deduplicateRecipients_def Let_def dups)
qed

section \<open>Previews\<close>

lemma sum_list_floor_shares:
  fixes f d :: int
  assumes "0 < d"
  shows "sum_list (map (\<lambda>x. (f * x) div d) xs) * d \<le> f * sum_list xs"
    and "f * sum_list xs - sum_list (map (\<lambda>x. (f * x) div d) xs) * d \<le> int (length xs) * (d - 1)"
proof -
  have "(f * x) div d * d \<le> f * x" "f * x - (f * x) div d * d \<le> d - 1" for x
    using assms pos_mod_bound [OF assms, of "f * x"] pos_mod_sign [OF assms, of "f * x"]
      div_mult_mod_eq [of "f * x" d] by linarith+
  then show "sum_list (map (\<lambda>x. (f * x) div d) xs) * d \<le> f * sum_list xs"
    and "f * sum_list xs - sum_list (map (\<lambda>x. (f * x) div d) xs) * d \<le> int (length xs) * (d - 1)"
    by (induction xs) (simp_all add: algebra_simps add_mono, smt (verit))
qed

lemma grouped_total: "sum_list (map rc_amount (grouped rs)) = sum_list (map rc_amount rs)"
proof -
  have "sum_list (map (\<lambda>k. sum_list (map rc_amount (group_of rs k))) ks) = sum_list (map rc_amount rs)"
    if "distinct ks" "account ` set rs \<subseteq> set ks" for ks
    using that
  proof (induction rs)
    case (Cons r rs)
    have "sum_list (map (\<lambda>k. sum_list (map rc_amount (group_of (r # rs) k))) ks) =
        sum_list (map (\<lambda>k. (if k = account r then rc_amount r else 0) + sum_list (map rc_amount (group_of rs k))) ks)"
      by (rule arg_cong [where f = sum_list], rule map_cong) (auto simp: group_of_def)
    also have "\<dots> = rc_amount r + sum_list (map rc_amount rs)"
      using Cons by (simp add: sum_list_addf sum_list_distinct_conv_sum_set sum.delta')
    finally show ?case by simp
  qed (simp add: group_of_def)
  then show ?thesis by (simp add: grouped_def o_def)
qed

text \<open>
  Without rules, a preview of non-negative funds over non-negative debts pays nobody a negative
  amount and never more than the funds in total; what truncation leaves over is less than one
  unit per account.
\<close>
theorem fallback_within_funds:
  assumes "\<forall>r \<in> set rs. 0 \<le> rc_amount r" "0 < sum_list (map rc_amount rs)" "0 \<le> funded"
  defines "paid \<equiv> sum_list (map snd (previewSplitRules None rs funded))"
  shows "(\<forall>e \<in> set (previewSplitRules None rs funded). 0 \<le> snd e) \<and> paid \<le> funded
    \<and> funded - paid < int (length (previewSplitRules None rs funded))"
proof -
  define gs where "gs = map rc_amount (grouped rs)"
  define d where "d = sum_list gs"
  have d: "0 < d" using assms grouped_total [of rs] by (simp add: d_def gs_def)
  have g0: "0 \<le> g" if "g \<in> set gs" for g
    using that assms(1) by (auto simp: gs_def grouped_def group_of_def intro!: sum_list_nonneg)
  have prev: "map snd (previewSplitRules None rs funded) = map (\<lambda>g. (funded * g) div d) gs"
    using d g0 assms(3)
    by (auto simp: previewSplitRules_def proportionalFallback_def merge_groups_by_account Let_def gs_def d_def o_def
        intro!: sdiv_nonneg)
  have paid: "paid = sum_list (map (\<lambda>g. (funded * g) div d) gs)" by (simp add: paid_def prev)
  have len: "length (previewSplitRules None rs funded) = length gs"
    using prev by (metis length_map)
  have "paid * d \<le> funded * d" "funded * d - paid * d \<le> int (length gs) * (d - 1)"
    using sum_list_floor_shares [OF d, of funded gs] by (simp_all add: paid d_def)
  moreover from this have "(funded - paid) * d \<le> int (length gs) * (d - 1)" by (simp add: algebra_simps)
  moreover have "int (length gs) * (d - 1) < int (length gs) * d"
    using d by (cases gs) (simp_all add: d_def algebra_simps)
  ultimately have "paid \<le> funded" "funded - paid < int (length gs)"
    using d by (simp, metis mult_less_cancel_right_pos order.strict_trans1)
  moreover have "\<forall>e \<in> set (previewSplitRules None rs funded). 0 \<le> snd e"
  proof
    fix e assume "e \<in> set (previewSplitRules None rs funded)"
    then have "snd e \<in> set (map (\<lambda>g. (funded * g) div d) gs)" by (metis prev image_eqI set_map)
    then show "0 \<le> snd e" using d g0 assms(3) by (auto simp: pos_imp_zdiv_nonneg_iff)
  qed
  ultimately show ?thesis by (simp add: len)
qed

text \<open>Of a tiered rule: no payment exceeds the funds when the tiers ascend from 0 and no rate is above 100\<percent>.\<close>

fun tiers_ascend :: "int \<Rightarrow> split_tier list \<Rightarrow> bool" where
  "tiers_ascend lower [] = True"
| "tiers_ascend lower (t # ts) \<longleftrightarrow> lower \<le> st_upTo t \<and> st_bps t \<le> 10000 \<and> tiers_ascend (st_upTo t) ts"

lemma rule_bps_bounds: "0 \<le> rule_bps b" "b \<le> 10000 \<Longrightarrow> rule_bps b \<le> 10000"
  by (auto simp: rule_bps_def js_trunc_def floor_le_iff)

lemma band_bounds:
  fixes w b :: int
  assumes "0 \<le> w" "0 \<le> b" "b \<le> 10000"
  shows "0 \<le> (w * b) sdiv 10000" "(w * b) sdiv 10000 \<le> w"
proof -
  have eq: "(w * b) sdiv 10000 = (w * b) div 10000" using assms by (simp add: sdiv_nonneg)
  have "(w * b) div 10000 \<le> (w * 10000) div 10000" using assms by (intro zdiv_mono1 mult_left_mono) simp_all
  with eq assms show "0 \<le> (w * b) sdiv 10000" "(w * b) sdiv 10000 \<le> w" by (simp_all add: pos_imp_zdiv_nonneg_iff)
qed

lemma tier_total_bounds:
  assumes "tiers_ascend lower ts" "0 \<le> lower"
  shows "acc \<le> tier_total funded acc lower ts \<and> tier_total funded acc lower ts \<le> acc + max 0 (funded - lower)"
  using assms
proof (induction ts arbitrary: acc lower)
  case (Cons t ts)
  let ?top = "if funded < st_upTo t then funded else st_upTo t"
  show ?case
  proof (cases "funded \<le> lower")
    case False
    show ?thesis
    proof (cases "?top > lower")
      case True
      have b: "0 \<le> ((?top - lower) * rule_bps (st_bps t)) sdiv 10000"
          "((?top - lower) * rule_bps (st_bps t)) sdiv 10000 \<le> ?top - lower"
        using band_bounds [of "?top - lower" "rule_bps (st_bps t)"] rule_bps_bounds True Cons.prems(1) by auto
      show ?thesis
        using Cons.IH [of "st_upTo t" "acc + ((?top - lower) * rule_bps (st_bps t)) sdiv 10000"] Cons.prems False True b
        by (auto simp: Let_def split: if_splits)
    next
      case ntop: False
      then have "st_upTo t = lower" using False Cons.prems(1) by (auto split: if_splits)
      with ntop False show ?thesis using Cons.IH [of "st_upTo t" acc] Cons.prems by (auto simp: Let_def)
    qed
  qed (simp add: Let_def)
qed simp

definition rule_ok :: "split_rule \<Rightarrow> bool" where
  "rule_ok r =
     (case r of
        FixedRule _ _ \<Rightarrow> True
      | PercentageRule _ bps \<Rightarrow> bps \<le> 10000
      | TieredRule _ ts \<Rightarrow> tiers_ascend 0 ts)"

lemma applyRule_bounds:
  assumes "rule_ok r" "0 \<le> funded" "0 \<le> remaining" "remaining \<le> funded"
  shows "0 \<le> applyRule r funded remaining \<and> applyRule r funded remaining \<le> funded"
proof (cases r)
  case (PercentageRule w b)
  then show ?thesis
    using band_bounds [of funded "rule_bps b"] rule_bps_bounds [of b] assms by (simp add: rule_ok_def)
next
  case (TieredRule w ts)
  then show ?thesis using tier_total_bounds [of 0 ts 0 funded] assms by (simp add: rule_ok_def)
qed (use assms in \<open>auto simp: Let_def\<close>)

text \<open>
  Under rules whose rates stay within 100\<percent>, every previewed payment lies between nothing and the
  funds, and fixed payments alone never add up to more than the funds.
\<close>
theorem preview_bounds:
  assumes "\<forall>r \<in> set rules. rule_ok r" "rules \<noteq> []" "0 \<le> funded"
  shows "(\<forall>e \<in> set (previewSplitRules (Some rules) rs funded). 0 \<le> snd e \<and> snd e \<le> funded)
    \<and> ((\<forall>r \<in> set rules. \<exists>w a. r = FixedRule w a) \<longrightarrow>
         sum_list (map snd (previewSplitRules (Some rules) rs funded)) \<le> funded)"
proof -
  have each: "\<forall>e \<in> set (preview_rules funded remaining rules). 0 \<le> snd e \<and> snd e \<le> funded"
    if "0 \<le> remaining" "remaining \<le> funded" "\<forall>r \<in> set rules. rule_ok r" for remaining and rules :: "split_rule list"
    using that
  proof (induction rules arbitrary: remaining)
    case (Cons r rules)
    have b: "0 \<le> applyRule r funded remaining \<and> applyRule r funded remaining \<le> funded"
      using applyRule_bounds [of r funded remaining] Cons.prems assms(3) by simp
    then have "max 0 (remaining - applyRule r funded remaining) \<le> funded" using Cons.prems assms(3) by simp
    with Cons.IH [of "max 0 (remaining - applyRule r funded remaining)"] Cons.prems
    have "\<forall>e \<in> set (preview_rules funded (max 0 (remaining - applyRule r funded remaining)) rules). 0 \<le> snd e \<and> snd e \<le> funded"
      by simp
    with b show ?case by (simp add: Let_def)
  qed simp
  have "sum_list (map snd (preview_rules funded remaining rules)) \<le> remaining"
    if "0 \<le> remaining" "\<forall>r \<in> set rules. \<exists>w a. r = FixedRule w a" for remaining and rules :: "split_rule list"
    using that
  proof (induction rules arbitrary: remaining)
    case (Cons r rules)
    then obtain w a where r: "r = FixedRule w a" by auto
    have "applyRule r funded remaining \<le> remaining" using Cons.prems r by (simp add: Let_def)
    then show ?case
      using Cons.IH [of "remaining - applyRule r funded remaining"] Cons.prems by (simp add: Let_def)
  qed simp
  with each assms show ?thesis by (simp add: previewSplitRules_def Let_def)
qed

section \<open>Amounts from ratios\<close>

lemma add_one_run:
  "k \<le> length xs \<Longrightarrow> foldl add_one xs [0..<k] = map (\<lambda>i. xs ! i + (if i < k then 1 else 0)) [0..<length xs]"
proof (induction k)
  case (Suc k)
  have "foldl add_one xs [0..<Suc k] = add_one (map (\<lambda>i. xs ! i + (if i < k then 1 else 0)) [0..<length xs]) k"
    using Suc by simp
  also have "\<dots> = map (\<lambda>i. xs ! i + (if i < Suc k then 1 else 0)) [0..<length xs]"
    using Suc.prems by (auto simp: add_one_def intro!: nth_equalityI simp: nth_list_update)
  finally show ?case .
qed (simp add: map_nth)

lemma add_one_past: "length xs \<le> k \<Longrightarrow> \<exists>zs. foldl add_one xs [0..<k] = map (\<lambda>x. x + 1) xs @ zs \<and> length zs = k - length xs"
proof (induction k)
  case (Suc k)
  show ?case
  proof (cases "length xs \<le> k")
    case True
    then obtain zs where "foldl add_one xs [0..<k] = map (\<lambda>x. x + 1) xs @ zs" "length zs = k - length xs"
      using Suc.IH by blast
    then have "foldl add_one xs [0..<Suc k] = map (\<lambda>x. x + 1) xs @ zs @ [1]" "length (zs @ [1]) = Suc k - length xs"
      using True by (simp_all add: add_one_def [of "_ @ _"] Suc_diff_le)
    then show ?thesis by metis
  next
    case False
    then have k: "length xs = Suc k" using Suc.prems by simp
    have "map (\<lambda>i. xs ! i + (if i < Suc k then 1 else 0)) [0..<length xs] = map (\<lambda>x. x + 1) xs"
      by (rule nth_equalityI) (simp_all add: k del: upt_Suc)
    then show ?thesis using add_one_run [of "Suc k" xs] k by (intro exI [of _ "[]"]) (simp del: upt_Suc)
  qed
qed simp

lemma sum_first_ones: "sum_list (map (\<lambda>i. if i < k then 1 else (0::int)) [0..<n]) = int (min k n)"
  by (induction n) auto

text \<open>
  The amounts of \<open>ratiosToRecipients\<close> are the floored amounts, the first ones raised by one unit
  each; what they add up to is the total exactly when the flooring lost at most one unit per
  recipient. Shares are floored to millionths, so the loss grows with the total instead.
\<close>
theorem ratio_amounts_sum:
  fixes fl c totl
  defines "amounts \<equiv> floor_amounts fl (sc_shares c) totl"
  shows "sum_list (map rc_amount (ratiosToRecipients fl c totl)) =
           sum_list amounts + min (int (length (sc_shares c))) (max 0 (totl - sum_list amounts))"
proof -
  let ?n = "length (sc_shares c)" and ?k = "nat (totl - sum_list amounts)"
  let ?fin = "foldl add_one amounts [0..<?k]"
  have n: "length amounts = ?n" by (simp add: amounts_def floor_amounts_def)
  have map_eq: "map rc_amount (ratiosToRecipients fl c totl) = map ((!) ?fin) [0..<?n]"
    by (rule nth_equalityI) (simp_all add: ratiosToRecipients_def Let_def amounts_def)
  show ?thesis
  proof (cases "?k \<le> ?n")
    case True
    have "sum_list (map ((!) ?fin) [0..<?n]) = sum_list (map (\<lambda>i. amounts ! i + (if i < ?k then 1 else 0)) [0..<?n])"
      using True n by (intro arg_cong [where f = sum_list] map_cong) (auto simp: add_one_run)
    moreover have "sum_list (map (\<lambda>i. if i < ?k then 1 else (0::int)) [0..<?n]) = int ?k"
      using True by (simp add: sum_first_ones)
    moreover have "sum_list (map ((!) amounts) [0..<?n]) = sum_list amounts" by (metis map_nth n)
    ultimately show ?thesis using True by (simp add: map_eq sum_list_addf)
  next
    case False
    then obtain zs where "?fin = map (\<lambda>x. x + 1) amounts @ zs" using add_one_past [of amounts ?k] n by auto
    then have "map ((!) ?fin) [0..<?n] = map (\<lambda>x. x + 1) amounts"
      using n by (auto intro!: nth_equalityI simp: nth_append)
    moreover have "sum_list (map (\<lambda>x. x + 1) amounts) = sum_list amounts + int ?n"
      using n by (simp add: sum_list_addf sum_list_triv)
    ultimately show ?thesis using False by (simp add: map_eq)
  qed
qed

lemma normalize_sums_to_total: "amounts \<noteq> [] \<Longrightarrow> sum_list (normalizeSplits amounts totl) = totl"
  using foldl_sum [of "\<lambda>x. x" 0 amounts] by (simp add: normalizeSplits_def Let_def sum_list_update_int)

section \<open>Differences of configurations\<close>

lemma share_map_ok:
  "distinct (map fst (share_map ss)) \<and> (\<forall>(a, s) \<in> set (share_map ss). rsh_address s = a)"
proof -
  have "distinct (map fst m) \<and> (\<forall>(a, s) \<in> set m. rsh_address s = a) \<Longrightarrow>
      distinct (map fst (foldl (\<lambda>m s. AList.update (rsh_address s) s m) m ss))
      \<and> (\<forall>(a, s) \<in> set (foldl (\<lambda>m s. AList.update (rsh_address s) s m) m ss). rsh_address s = a)" for m
  proof (induction ss arbitrary: m)
    case (Cons s ss)
    have "distinct (map fst (AList.update (rsh_address s) s m)) \<and> (\<forall>(a, s) \<in> set (AList.update (rsh_address s) s m). rsh_address s = a)"
      using Cons.prems set_update_sub [of "rsh_address s" s m] by (auto simp: distinct_fst_update)
    then show ?case using Cons.IH by simp
  qed simp
  from this [of "[]"] show ?thesis by (simp add: share_map_def)
qed

definition ratio_of :: "split_config \<Rightarrow> string \<Rightarrow> rat option" where
  "ratio_of c a = map_option rsh_share (map_of (share_map (sc_shares c)) a)"

definition patched :: "split_config_diff \<Rightarrow> (string \<Rightarrow> rat option) \<Rightarrow> string \<Rightarrow> rat option" where
  "patched d m a =
     (case find (\<lambda>s. rsh_address s = a) (sd_added d) of
        Some s \<Rightarrow> Some (rsh_share s)
      | None \<Rightarrow>
          (case find (\<lambda>c. ch_accountId c = a) (sd_changed d) of
             Some c \<Rightarrow> Some (ch_newRatio c)
           | None \<Rightarrow> if a \<in> rsh_address ` set (sd_removed d) then None else m a))"

lemma find_key_unique:
  assumes "\<And>x. x \<in> set xs \<Longrightarrow> key x = a \<Longrightarrow> f x = v" "\<exists>x \<in> set xs. key x = a"
  shows "\<exists>x. find (\<lambda>x. key x = a) xs = Some x \<and> f x = v"
  using assms by (metis (mono_tags, lifting) find_None_iff find_Some_iff not_None_eq nth_mem)

lemma find_key_none: "a \<notin> key ` set xs \<Longrightarrow> find (\<lambda>x. key x = a) xs = None"
  by (auto simp: find_None_iff)

lemma share_map_of: "(a, s) \<in> set (share_map ss) \<longleftrightarrow> map_of (share_map ss) a = Some s"
  using share_map_ok [of ss] by (meson map_of_SomeD map_of_is_SomeI)

lemma share_map_address: "map_of (share_map ss) a = Some s \<Longrightarrow> rsh_address s = a"
  using share_map_ok [of ss] map_of_SomeD by fast

text \<open>The three lists of a difference, by the lookups they come from.\<close>

lemma shares_where:
  "s \<in> set (map snd (filter (\<lambda>(a, _). P a) (share_map ss))) \<longleftrightarrow>
     map_of (share_map ss) (rsh_address s) = Some s \<and> P (rsh_address s)"
proof -
  have "s \<in> set (map snd (filter (\<lambda>(a, _). P a) (share_map ss))) \<longleftrightarrow> (\<exists>a. map_of (share_map ss) a = Some s \<and> P a)"
    by (force simp: share_map_of [symmetric])
  also have "\<dots> \<longleftrightarrow> map_of (share_map ss) (rsh_address s) = Some s \<and> P (rsh_address s)"
    using share_map_address by metis
  finally show ?thesis .
qed

lemma diff_added:
  "s \<in> set (sd_added (generateSplitDiff fl c1 c2)) \<longleftrightarrow>
     map_of (share_map (sc_shares c2)) (rsh_address s) = Some s \<and> map_of (share_map (sc_shares c1)) (rsh_address s) = None"
  unfolding generateSplitDiff_def Let_def by (simp only: split_config_diff.simps shares_where)

lemma diff_removed:
  "s \<in> set (sd_removed (generateSplitDiff fl c1 c2)) \<longleftrightarrow>
     map_of (share_map (sc_shares c1)) (rsh_address s) = Some s \<and> map_of (share_map (sc_shares c2)) (rsh_address s) = None"
  unfolding generateSplitDiff_def Let_def by (simp only: split_config_diff.simps shares_where)

lemma diff_changed:
  "c \<in> set (sd_changed (generateSplitDiff fl c1 c2)) \<longleftrightarrow>
     ratio_of c1 (ch_accountId c) = Some (ch_oldRatio c) \<and> ratio_of c2 (ch_accountId c) = Some (ch_newRatio c)
     \<and> ch_oldRatio c \<noteq> ch_newRatio c"
proof
  assume "c \<in> set (sd_changed (generateSplitDiff fl c1 c2))"
  then show "ratio_of c1 (ch_accountId c) = Some (ch_oldRatio c) \<and> ratio_of c2 (ch_accountId c) = Some (ch_newRatio c)
     \<and> ch_oldRatio c \<noteq> ch_newRatio c"
    by (auto simp: generateSplitDiff_def Let_def share_map_of ratio_of_def split: option.splits)
next
  assume *: "ratio_of c1 (ch_accountId c) = Some (ch_oldRatio c) \<and> ratio_of c2 (ch_accountId c) = Some (ch_newRatio c)
     \<and> ch_oldRatio c \<noteq> ch_newRatio c"
  then obtain s1 s2 where s: "map_of (share_map (sc_shares c1)) (ch_accountId c) = Some s1" "rsh_share s1 = ch_oldRatio c"
    "map_of (share_map (sc_shares c2)) (ch_accountId c) = Some s2" "rsh_share s2 = ch_newRatio c"
    by (auto simp: ratio_of_def)
  have "(ch_accountId c, s2) \<in> set (share_map (sc_shares c2))" using s by (simp add: share_map_of)
  then have "(ch_accountId c, s2) \<in> set (filter (\<lambda>(a, s). case map_of (share_map (sc_shares c1)) a of None \<Rightarrow> False
      | Some o' \<Rightarrow> rsh_share o' \<noteq> rsh_share s) (share_map (sc_shares c2)))"
    using s * by simp
  from imageI [OF this, of "\<lambda>(a, s). \<lparr>ch_accountId = a, ch_oldRatio = rsh_share (the (map_of (share_map (sc_shares c1)) a)),
      ch_newRatio = rsh_share s\<rparr>"]
  show "c \<in> set (sd_changed (generateSplitDiff fl c1 c2))"
    using s by (cases c) (simp add: generateSplitDiff_def Let_def)
qed

lemma patched_absent:
  assumes "map_of (share_map (sc_shares revised)) a = None"
  shows "patched (generateSplitDiff fl original revised) (ratio_of original) a = None"
proof -
  let ?d = "generateSplitDiff fl original revised"
  have 1: "a \<notin> rsh_address ` set (sd_added ?d)"
    using assms by (auto simp: diff_added)
  have 2: "a \<notin> ch_accountId ` set (sd_changed ?d)"
    using assms by (auto simp: diff_changed ratio_of_def)
  have 3: "a \<in> rsh_address ` set (sd_removed ?d) \<or> ratio_of original a = None"
  proof (cases "map_of (share_map (sc_shares original)) a")
    case (Some s)
    have "rsh_address s = a" using Some by (rule share_map_address)
    with Some assms have "s \<in> set (sd_removed ?d)" by (simp add: diff_removed)
    with \<open>rsh_address s = a\<close> show ?thesis by blast
  qed (simp add: ratio_of_def)
  show ?thesis using 3 by (simp add: patched_def find_key_none [OF 1] find_key_none [OF 2]) argo
qed

lemma patched_added:
  assumes "map_of (share_map (sc_shares revised)) a = Some s" "map_of (share_map (sc_shares original)) a = None"
  shows "patched (generateSplitDiff fl original revised) m a = Some (rsh_share s)"
proof -
  let ?d = "generateSplitDiff fl original revised"
  have a: "rsh_address s = a" using assms(1) by (rule share_map_address)
  then have "\<exists>x \<in> set (sd_added ?d). rsh_address x = a" using assms by (intro bexI [of _ s]) (simp_all add: diff_added)
  moreover have "rsh_share x = rsh_share s" if "x \<in> set (sd_added ?d)" "rsh_address x = a" for x
    using that assms(1) by (simp add: diff_added)
  ultimately obtain x where "find (\<lambda>x. rsh_address x = a) (sd_added ?d) = Some x" "rsh_share x = rsh_share s"
    using find_key_unique [of "sd_added ?d" rsh_address a rsh_share "rsh_share s"] by blast
  then show ?thesis by (simp add: patched_def)
qed

lemma patched_kept:
  assumes "map_of (share_map (sc_shares revised)) a = Some s" "map_of (share_map (sc_shares original)) a = Some s0"
  shows "patched (generateSplitDiff fl original revised) (ratio_of original) a = Some (rsh_share s)"
proof -
  let ?d = "generateSplitDiff fl original revised"
  have rats: "ratio_of original a = Some (rsh_share s0)" "ratio_of revised a = Some (rsh_share s)"
    using assms by (simp_all add: ratio_of_def)
  have 1: "a \<notin> rsh_address ` set (sd_added ?d)" using assms by (auto simp: diff_added)
  have 2: "a \<notin> rsh_address ` set (sd_removed ?d)" using assms by (auto simp: diff_removed)
  show ?thesis
  proof (cases "rsh_share s0 = rsh_share s")
    case True
    then have "a \<notin> ch_accountId ` set (sd_changed ?d)" using rats by (auto simp: diff_changed)
    from find_key_none [OF this] show ?thesis using 2 True rats by (simp add: patched_def find_key_none [OF 1])
  next
    case False
    then have "\<lparr>ch_accountId = a, ch_oldRatio = rsh_share s0, ch_newRatio = rsh_share s\<rparr> \<in> set (sd_changed ?d)"
      using rats by (simp add: diff_changed)
    then have "\<exists>x \<in> set (sd_changed ?d). ch_accountId x = a" by (rule bexI [rotated]) simp
    moreover have "ch_newRatio x = rsh_share s" if "x \<in> set (sd_changed ?d)" "ch_accountId x = a" for x
      using that rats by (simp add: diff_changed)
    ultimately obtain x where "find (\<lambda>x. ch_accountId x = a) (sd_changed ?d) = Some x" "ch_newRatio x = rsh_share s"
      using find_key_unique [of "sd_changed ?d" ch_accountId a ch_newRatio "rsh_share s"] by blast
    then show ?thesis by (simp add: patched_def find_key_none [OF 1])
  qed
qed

text \<open>
  A difference is a patch: applied to the ratios of the first configuration it gives those of the
  second, whatever the two hold.
\<close>
theorem split_diff_roundtrip:
  "patched (generateSplitDiff fl original revised) (ratio_of original) = ratio_of revised"
proof
  fix a
  show "patched (generateSplitDiff fl original revised) (ratio_of original) a = ratio_of revised a"
    by (cases "map_of (share_map (sc_shares revised)) a"; cases "map_of (share_map (sc_shares original)) a")
      (simp_all add: patched_absent patched_added patched_kept ratio_of_def [of revised])
qed

section \<open>Vesting is monotone\<close>

text \<open>
  What has vested never shrinks with time, lies between nothing and the total, is nothing before
  the cliff and the total from the end on.
\<close>
theorem vesting_monotone:
  assumes "0 \<le> vo_totalAmount v" "t \<le> t'"
  shows "0 \<le> vestedAt t v \<and> vestedAt t v \<le> vestedAt t' v \<and> vestedAt t' v \<le> vo_totalAmount v"
proof -
  define cliff where "cliff = (case vo_cliffDuration v of None \<Rightarrow> 0 | Some c \<Rightarrow> c)"
  define A where "A = vo_totalAmount v"
  define D where "D = vo_duration v"
  have val: "vestedAt x v =
      (let e = x - vo_startTime v in if e < cliff then 0 else if e \<ge> D then A else (A * (e - cliff)) div (D - cliff))" for x
    using assms(1) by (simp add: vestedAt_def cliff_def D_def A_def Let_def sdiv_nonneg)
  have part: "0 \<le> (A * (e - cliff)) div (D - cliff) \<and> (A * (e - cliff)) div (D - cliff) \<le> A"
    if "cliff \<le> e" "e < D" for e
  proof -
    have "(A * (e - cliff)) div (D - cliff) \<le> (A * (D - cliff)) div (D - cliff)"
      using that assms(1) by (intro zdiv_mono1 mult_left_mono) (simp_all add: A_def)
    then show ?thesis using that assms(1) by (simp add: pos_imp_zdiv_nonneg_iff A_def)
  qed
  have step: "(A * (e - cliff)) div (D - cliff) \<le> (A * (e' - cliff)) div (D - cliff)"
    if "cliff \<le> e" "e < D" "e \<le> e'" for e e'
    using that assms(1) by (intro zdiv_mono1 mult_left_mono) (simp_all add: A_def)
  show ?thesis
    using assms part [of "t - vo_startTime v"] part [of "t' - vo_startTime v"]
      step [of "t - vo_startTime v" "t' - vo_startTime v"]
    by (auto simp: val Let_def A_def [symmetric])
qed

lemma schedule_is_vesting:
  "vs_claimableAt (calculateVesting cliff drip rs) t =
     vestedAt t \<lparr>vo_startTime = vs_cliffDate (calculateVesting cliff drip rs),
                 vo_duration = (case drip of None \<Rightarrow> 0 | Some d \<Rightarrow> d),
                 vo_totalAmount = sum_list (map rc_amount rs), vo_cliffDuration = None\<rparr>"
  by (auto simp: calculateVesting_def vestedAt_def Let_def foldl_sum split: option.splits)

section \<open>The ratio validator\<close>

lemma duplicate_addresses_Nil:
  "duplicate_addresses seen ss = [] \<longleftrightarrow> distinct (map rsh_address ss) \<and> set seen \<inter> rsh_address ` set ss = {}"
  by (induction ss arbitrary: seen) auto

text \<open>The validator reports nothing exactly for the configurations its documentation describes.\<close>

theorem ratios_valid_iff:
  "validateSplitRatios fl c = [] \<longleftrightarrow>
     sc_shares c \<noteq> [] \<and> (\<forall>s \<in> set (sc_shares c). 0 < rsh_share s)
     \<and> (0 < min_ratio_percent fl c \<longrightarrow> (\<forall>s \<in> set (sc_shares c). fl (min_ratio_percent fl c / 100) \<le> rsh_share s))
     \<and> distinct (map rsh_address (sc_shares c))
     \<and> \<bar>fl (share_sum fl (sc_shares c) - 1)\<bar> \<le> ratio_tolerance fl c"
proof -
  have pos: "(\<forall>s \<in> set ss. \<not> rsh_share s < 0) \<and> (\<forall>s \<in> set ss. rsh_share s \<noteq> 0) \<longleftrightarrow> (\<forall>s \<in> set ss. 0 < rsh_share s)" for ss
    by force
  show ?thesis
    using pos [of "sc_shares c"]
    by (auto simp: validateSplitRatios_def Let_def filter_empty_conv duplicate_addresses_Nil not_less split: if_splits)
      (metis not_le)
qed

section \<open>Examples\<close>

definition thirds :: split_config where
  "thirds = \<lparr>sc_shares = map (\<lambda>a. \<lparr>rsh_address = a, rsh_share = 1 / 3\<rparr>) [''GA'', ''GB'', ''GC''],
             sc_tolerance = None, sc_minRatioPercent = None\<rparr>"

text \<open>Three equal shares of a hundred coins: the configuration is valid, and 997 units are paid to nobody.\<close>

lemma ratio_amounts_lose_units:
  "validateSplitRatios id thirds = []
    \<and> sum_list (map rc_amount (ratiosToRecipients id thirds 1000000000)) = 1000000000 - 997"
proof
  show "validateSplitRatios id thirds = []"
    by (simp add: ratios_valid_iff thirds_def min_ratio_percent_def ratio_tolerance_def share_sum_def)
  have "\<lfloor>1000000 / 3 :: rat\<rfloor> = 333333" by (simp add: floor_eq_iff)
  then have "floor_amounts id (sc_shares thirds) 1000000000 = [333333000, 333333000, 333333000]"
    by (simp add: thirds_def floor_amounts_def sdiv_nonneg)
  then show "sum_list (map rc_amount (ratiosToRecipients id thirds 1000000000)) = 1000000000 - 997"
    using ratio_amounts_sum [of id thirds 1000000000] by (simp add: thirds_def)
qed

lemma fallback_within_funds_witness:
  "sum_list (map snd (previewSplitRules None [\<lparr>rc_address = ''GA'', rc_amount = 1\<rparr>, \<lparr>rc_address = ''ga'', rc_amount = 1\<rparr>,
      \<lparr>rc_address = ''GB'', rc_amount = 1\<rparr>] 100)) \<le> 100"
  using fallback_within_funds [of "[\<lparr>rc_address = ''GA'', rc_amount = 1\<rparr>, \<lparr>rc_address = ''ga'', rc_amount = 1\<rparr>,
      \<lparr>rc_address = ''GB'', rc_amount = 1\<rparr>]" 100] by simp

lemma vesting_monotone_witness:
  "vestedAt 150 \<lparr>vo_startTime = 100, vo_duration = 200, vo_totalAmount = 1000, vo_cliffDuration = Some 20\<rparr> \<le> 1000"
  using vesting_monotone [of "\<lparr>vo_startTime = 100, vo_duration = 200, vo_totalAmount = 1000, vo_cliffDuration = Some 20\<rparr>" 150 160]
  by simp

lemma preview_bounds_witness:
  "sum_list (map snd (previewSplitRules (Some [FixedRule ''GA'' 70, FixedRule ''GB'' 60]) [] 100)) \<le> 100"
  using preview_bounds [of "[FixedRule ''GA'' 70, FixedRule ''GB'' 60]" 100 "[]"] by (simp add: rule_ok_def)

end
