(* ===== verification/Invoice_Diff.thy ===== *)
theory Invoice_Diff
  imports Json Split_Preview "HOL-Library.Finite_Map"
begin

text \<open>
  \<open>diff.ts\<close>, \<open>conflictResolver.ts\<close> and the version vectors of \<open>invoiceVersionTracker.ts\<close>: comparing
  invoices field by field, three-way merging, and detecting concurrent edits. Here an invoice is
  what this code sees of it, an object indexed by field names. Numbers are integers; no tracked
  field holds a \<open>Date\<close>. The comparison of objects asks \<open>key in b\<close>, which is also true of an inherited member; its
  value is a function and equals no datum, so the look-up of own keys in \<open>fieldsEqual\<close> gives the same
  answer. Only objects with an own key \<open>__proto__\<close>, which no invoice has, are left out.
\<close>

section \<open>Values and their comparison\<close>

datatype js_val =
    VUndef
  | VNull
  | VBool bool
  | VNum int
  | VBig int
  | VStr string
  | VArr "js_val list"
  | VObj "(string \<times> js_val) list"

type_synonym invoice_obj = "(string \<times> js_val) list"

definition own :: "invoice_obj \<Rightarrow> string \<Rightarrow> js_val" where
  "own i k = (case map_of i k of None \<Rightarrow> VUndef | Some v \<Rightarrow> v)"

fun valuesEqual :: "js_val \<Rightarrow> js_val \<Rightarrow> bool"
and arraysEqual :: "js_val list \<Rightarrow> js_val list \<Rightarrow> bool"
and fieldsEqual :: "(string \<times> js_val) list \<Rightarrow> (string \<times> js_val) list \<Rightarrow> bool" where
  "valuesEqual (VBig m) b = (case b of VBig n \<Rightarrow> m = n | VNum n \<Rightarrow> m = n | _ \<Rightarrow> False)"
| "valuesEqual (VNum m) b = (case b of VBig n \<Rightarrow> m = n | VNum n \<Rightarrow> m = n | _ \<Rightarrow> False)"
| "valuesEqual (VArr xs) b = (case b of VArr ys \<Rightarrow> length xs = length ys \<and> arraysEqual xs ys | _ \<Rightarrow> False)"
| "valuesEqual (VObj f) b = (case b of VObj g \<Rightarrow> length f = length g \<and> fieldsEqual f g | _ \<Rightarrow> False)"
| "valuesEqual VUndef b = (b = VUndef)"
| "valuesEqual VNull b = (b = VNull)"
| "valuesEqual (VBool x) b = (b = VBool x)"
| "valuesEqual (VStr s) b = (b = VStr s)"
| "arraysEqual [] ys = True"
| "arraysEqual (x # xs) ys = (valuesEqual x (case ys of [] \<Rightarrow> VUndef | y # _ \<Rightarrow> y) \<and> arraysEqual xs (tl ys))"
| "fieldsEqual [] g = True"
| "fieldsEqual ((k, x) # f) g =
     ((case map_of g k of None \<Rightarrow> False | Some y \<Rightarrow> valuesEqual x y) \<and> fieldsEqual f g)"

section \<open>Differences and merging\<close>

definition INVOICE_FIELDS :: "string list" where
  "INVOICE_FIELDS =
     [''id'', ''creator'', ''recipients'', ''token'', ''deadline'', ''funded'', ''status'', ''payments'', ''recurring'',
      ''memo'', ''scheduledReleaseDate'', ''clonedFrom'', ''groupId'', ''lastModifiedLedger'', ''prerequisites'',
      ''parentInvoiceId'', ''cloneDepth'', ''nft_gate'', ''forward_invoice_id'', ''penalty_deadline'', ''penalty_tiers'',
      ''allowed_callers'', ''split_rules'', ''auto_resolve_rules'', ''prerequisite_id'']"

record diff_entry =
  de_field :: string
  de_before :: js_val
  de_after :: js_val

fun diff_fields :: "invoice_obj \<Rightarrow> invoice_obj \<Rightarrow> string list \<Rightarrow> diff_entry list" where
  "diff_fields a b [] = []"
| "diff_fields a b (k # ks) =
     (let before = own a k; after = own b k; rest = diff_fields a b ks;
          entry = \<lparr>de_field = k, de_before = before, de_after = after\<rparr>
      in if before = VUndef \<and> after = VUndef then rest
         else if before = VUndef \<or> after = VUndef then (if before \<noteq> after then entry # rest else rest)
         else if \<not> valuesEqual before after then entry # rest
         else rest)"

definition diffInvoices :: "invoice_obj \<Rightarrow> invoice_obj \<Rightarrow> diff_entry list" where
  "diffInvoices a b = diff_fields a b INVOICE_FIELDS"

definition hasDiff :: "invoice_obj \<Rightarrow> invoice_obj \<Rightarrow> bool" where
  "hasDiff a b \<longleftrightarrow> length (diffInvoices a b) > 0"

datatype merge_error = MergeConflictError string js_val js_val js_val

fun merge_fields ::
    "invoice_obj \<Rightarrow> invoice_obj \<Rightarrow> invoice_obj \<Rightarrow> string list \<Rightarrow> invoice_obj \<Rightarrow> merge_error + invoice_obj" where
  "merge_fields base local remote [] merged = Inr merged"
| "merge_fields base local remote (k # ks) merged =
     (let baseVal = own base k; localVal = own local k; remoteVal = own remote k;
          localChanged = (\<not> valuesEqual baseVal localVal);
          remoteChanged = (\<not> valuesEqual baseVal remoteVal)
      in if \<not> localChanged \<and> \<not> remoteChanged then merge_fields base local remote ks merged
         else if localChanged \<and> \<not> remoteChanged then merge_fields base local remote ks (AList.update k localVal merged)
         else if \<not> localChanged \<and> remoteChanged then merge_fields base local remote ks (AList.update k remoteVal merged)
         else if valuesEqual localVal remoteVal then merge_fields base local remote ks (AList.update k localVal merged)
         else Inl (MergeConflictError k baseVal localVal remoteVal))"

definition mergeInvoices :: "invoice_obj \<Rightarrow> invoice_obj \<Rightarrow> invoice_obj \<Rightarrow> merge_error + invoice_obj" where
  "mergeInvoices base local remote = merge_fields base local remote INVOICE_FIELDS base"

datatype conflict_strategy = RemoteWins | LocalWins | LatestLedger

definition modified_ledger :: "invoice_obj \<Rightarrow> int" where
  "modified_ledger i = (case own i ''lastModifiedLedger'' of VNum n \<Rightarrow> n | _ \<Rightarrow> 0)"

definition resolveConflict :: "invoice_obj \<Rightarrow> invoice_obj \<Rightarrow> conflict_strategy \<Rightarrow> invoice_obj" where
  "resolveConflict local remote strategy =
     (case strategy of
        RemoteWins \<Rightarrow> remote
      | LocalWins \<Rightarrow> local
      | LatestLedger \<Rightarrow> if modified_ledger remote \<ge> modified_ledger local then remote else local)"

section \<open>Version vectors\<close>

type_synonym version_vector = "(string \<times> int) list"

datatype conflict_error = ConflictError

text \<open>\<open>vector[actor] ?? 0\<close>: \<open>None\<close> is an inherited function, which compares with no number.\<close>

definition vector_at :: "version_vector \<Rightarrow> string \<Rightarrow> int option" where
  "vector_at v actor =
     (case map_of v actor of
        Some n \<Rightarrow> Some n
      | None \<Rightarrow> if actor \<in> set inherited_names then None else Some 0)"

definition greater :: "int option \<Rightarrow> int option \<Rightarrow> bool" where
  "greater x y = (case (x, y) of (Some m, Some n) \<Rightarrow> m > n | _ \<Rightarrow> False)"

definition actors :: "version_vector \<Rightarrow> version_vector \<Rightarrow> string list" where
  "actors current incoming = foldl (\<lambda>s a. set_add a s) [] (map fst current @ map fst incoming)"

definition detectVersionConflict :: "version_vector \<Rightarrow> version_vector \<Rightarrow> conflict_error + unit" where
  "detectVersionConflict current incoming =
     (let as = actors current incoming;
          incomingDominates = list_ex (\<lambda>a. greater (vector_at incoming a) (vector_at current a)) as;
          currentDominates = list_ex (\<lambda>a. greater (vector_at current a) (vector_at incoming a)) as
      in if incomingDominates \<and> currentDominates then Inl ConflictError else Inr ())"

section \<open>Comparison is equality of meanings\<close>

text \<open>
  The meaning of a value: a number whichever of the two number types holds it, an object as a
  finite map, so that the order of its fields does not count.
\<close>

datatype meaning =
    MUndef | MNull | MBool bool | MNum int | MStr string | MArr "meaning list" | MObj "(string, meaning) fmap"

fun meaning_of :: "js_val \<Rightarrow> meaning"
and meanings :: "js_val list \<Rightarrow> meaning list"
and field_meanings :: "(string \<times> js_val) list \<Rightarrow> (string \<times> meaning) list" where
  "meaning_of VUndef = MUndef"
| "meaning_of VNull = MNull"
| "meaning_of (VBool b) = MBool b"
| "meaning_of (VNum n) = MNum n"
| "meaning_of (VBig n) = MNum n"
| "meaning_of (VStr s) = MStr s"
| "meaning_of (VArr xs) = MArr (meanings xs)"
| "meaning_of (VObj f) = MObj (fmap_of_list (field_meanings f))"
| "meanings [] = []"
| "meanings (x # xs) = meaning_of x # meanings xs"
| "field_meanings [] = []"
| "field_meanings ((k, x) # f) = (k, meaning_of x) # field_meanings f"

text \<open>An object has one value per key.\<close>

fun keys_distinct :: "js_val \<Rightarrow> bool"
and all_keys_distinct :: "js_val list \<Rightarrow> bool"
and fields_distinct :: "(string \<times> js_val) list \<Rightarrow> bool" where
  "keys_distinct (VArr xs) = all_keys_distinct xs"
| "keys_distinct (VObj f) = (distinct (map fst f) \<and> fields_distinct f)"
| "keys_distinct _ = True"
| "all_keys_distinct [] = True"
| "all_keys_distinct (x # xs) = (keys_distinct x \<and> all_keys_distinct xs)"
| "fields_distinct [] = True"
| "fields_distinct ((k, x) # f) = (keys_distinct x \<and> fields_distinct f)"

lemma fst_field_meanings [simp]: "map fst (field_meanings f) = map fst f"
  by (induction f) auto

lemma map_of_field_meanings: "map_of (field_meanings f) k = map_option meaning_of (map_of f k)"
  by (induction f) auto

lemma length_meanings [simp]: "length (meanings xs) = length xs" "length (field_meanings f) = length f"
  by (induction xs) (simp_all, metis fst_field_meanings length_map)

lemma fields_distinct_map_of: "fields_distinct f \<Longrightarrow> map_of f k = Some x \<Longrightarrow> keys_distinct x"
  by (induction f) (auto split: if_splits)

lemma submap_full:
  assumes "distinct (map fst f)" "distinct (map fst g)" "length f = length g"
    and "\<forall>(k, x) \<in> set f. map_of g k = Some x"
  shows "map_of f = map_of g"
proof -
  have sub: "set f \<subseteq> set g" using assms(4) by (auto dest: map_of_SomeD)
  have "card (set f) = card (set g)"
    using assms(1-3) by (simp add: distinct_card distinct_map)
  with sub have "set f = set g" by (simp add: card_subset_eq)
  then show ?thesis using assms(1,2) by (simp add: map_of_inject_set)
qed

lemma equal_maps_length:
  assumes "distinct (map fst f)" "distinct (map fst g)" "map_of f = map_of g"
  shows "length f = length g \<and> (\<forall>(k, x) \<in> set f. map_of g k = Some x)"
proof -
  have "set f = set g" using assms by (simp add: map_of_inject_set)
  then show ?thesis using assms by (auto simp: distinct_card [symmetric] distinct_map)
qed

lemma fmap_of_list_eq: "fmap_of_list f = fmap_of_list g \<longleftrightarrow> map_of f = map_of g"
  by (metis fmap_ext fmlookup_of_list)

lemma meaning_atom [simp]:
  "MUndef = meaning_of v \<longleftrightarrow> v = VUndef" "meaning_of v = MUndef \<longleftrightarrow> v = VUndef"
  "MNull = meaning_of v \<longleftrightarrow> v = VNull"
  "MBool b = meaning_of v \<longleftrightarrow> v = VBool b" "MStr s = meaning_of v \<longleftrightarrow> v = VStr s"
  by (cases v; auto)+

lemma equal_is_meaning:
  "keys_distinct a \<Longrightarrow> keys_distinct b \<Longrightarrow> valuesEqual a b \<longleftrightarrow> meaning_of a = meaning_of b"
  "all_keys_distinct xs \<Longrightarrow> all_keys_distinct ys \<Longrightarrow> length xs = length ys \<Longrightarrow>
     arraysEqual xs ys \<longleftrightarrow> meanings xs = meanings ys"
  "fields_distinct f \<Longrightarrow> fields_distinct g \<Longrightarrow>
     fieldsEqual f g \<longleftrightarrow> (\<forall>(k, x) \<in> set (field_meanings f). map_of (field_meanings g) k = Some x)"
proof (induction a b and xs ys and f g rule: valuesEqual_arraysEqual_fieldsEqual.induct)
  case (3 xs b)
  show ?case
  proof (cases b)
    case (VArr ys)
    have "length xs = length ys" if "meanings xs = meanings ys"
      using that by (metis length_meanings(1))
    then have "length xs \<noteq> length ys \<Longrightarrow> meanings xs \<noteq> meanings ys" by blast
    with 3 VArr show ?thesis by (cases "length xs = length ys") simp_all
  qed (use 3 in simp_all)
next
  case (4 f b)
  show ?case
  proof (cases b)
    case (VObj g)
    have IH: "fieldsEqual f g \<longleftrightarrow> (\<forall>(k, x) \<in> set (field_meanings f). map_of (field_meanings g) k = Some x)"
      if "length f = length g"
      using 4 VObj that by simp
    have d: "distinct (map fst (field_meanings f))" "distinct (map fst (field_meanings g))"
      using 4 VObj by simp_all
    show ?thesis
      using IH submap_full [OF d] equal_maps_length [OF d] VObj
      by (auto simp: fmap_of_list_eq)
  qed (use 4 in auto)
next
  case (10 x xs ys)
  then show ?case by (cases ys) auto
next
  case (12 k x f g)
  then show ?case
    by (auto simp: map_of_field_meanings split: option.splits dest: fields_distinct_map_of)
qed (auto split: js_val.splits)

text \<open>
  The recursive comparison of the code decides equality of meanings: it is an equivalence, it does
  not see the order of an object's fields nor which number type holds a number, and nothing else.
\<close>
theorem values_equal_iff_meaning:
  assumes "keys_distinct a" "keys_distinct b"
  shows "valuesEqual a b \<longleftrightarrow> meaning_of a = meaning_of b"
  using assms by (rule equal_is_meaning)

lemma values_equal_meaning: "keys_distinct a \<Longrightarrow> keys_distinct b \<Longrightarrow> valuesEqual a b \<longleftrightarrow> meaning_of a = meaning_of b"
  by (rule equal_is_meaning)

section \<open>What a difference and a merge say\<close>

definition invoice_ok :: "invoice_obj \<Rightarrow> bool" where
  "invoice_ok i \<longleftrightarrow> keys_distinct (VObj i)"

definition changed :: "string \<Rightarrow> invoice_obj \<Rightarrow> invoice_obj \<Rightarrow> bool" where
  "changed k a b \<longleftrightarrow> meaning_of (own a k) \<noteq> meaning_of (own b k)"

lemma own_ok: "invoice_ok i \<Longrightarrow> keys_distinct (own i k)"
  by (auto simp: invoice_ok_def own_def dest: fields_distinct_map_of split: option.splits)

lemma changed_iff: "invoice_ok a \<Longrightarrow> invoice_ok b \<Longrightarrow> valuesEqual (own a k) (own b k) \<longleftrightarrow> \<not> changed k a b"
  by (simp add: changed_def values_equal_meaning own_ok)

lemma diff_fields_eq:
  assumes "invoice_ok a" "invoice_ok b"
  shows "diff_fields a b ks =
     map (\<lambda>k. \<lparr>de_field = k, de_before = own a k, de_after = own b k\<rparr>) (filter (\<lambda>k. changed k a b) ks)"
  using assms by (induction ks) (auto simp: Let_def changed_iff, (auto simp: changed_def))

text \<open>A difference lists exactly the tracked fields whose meaning changed, in a fixed order, each with both values.\<close>
theorem diff_lists_changes:
  assumes "invoice_ok a" "invoice_ok b"
  shows "diffInvoices a b =
     map (\<lambda>k. \<lparr>de_field = k, de_before = own a k, de_after = own b k\<rparr>) (filter (\<lambda>k. changed k a b) INVOICE_FIELDS)"
  using assms by (simp add: diffInvoices_def diff_fields_eq)

definition conflicting :: "invoice_obj \<Rightarrow> invoice_obj \<Rightarrow> invoice_obj \<Rightarrow> string \<Rightarrow> bool" where
  "conflicting base local remote k \<longleftrightarrow> changed k base local \<and> changed k base remote \<and> changed k local remote"

definition merged_value :: "invoice_obj \<Rightarrow> invoice_obj \<Rightarrow> invoice_obj \<Rightarrow> string \<Rightarrow> js_val" where
  "merged_value base local remote k =
     (if changed k base local then own local k else if changed k base remote then own remote k else own base k)"

lemma own_update: "own (AList.update k v i) j = (if j = k then v else own i j)"
  by (simp add: own_def)

lemma merge_fields_eq:
  assumes "invoice_ok base" "invoice_ok local" "invoice_ok remote" "distinct ks"
    and "\<forall>k \<in> set ks. own m k = own base k"
  shows "case find (conflicting base local remote) ks of
      Some k \<Rightarrow> merge_fields base local remote ks m = Inl (MergeConflictError k (own base k) (own local k) (own remote k))
    | None \<Rightarrow> \<exists>m'. merge_fields base local remote ks m = Inr m'
        \<and> (\<forall>k. own m' k = (if k \<in> set ks then merged_value base local remote k else own m k))"
  using assms(4,5)
proof (induction ks arbitrary: m)
  case (Cons k ks)
  note iff = changed_iff [OF assms(1,2)] changed_iff [OF assms(1,3)] changed_iff [OF assms(2,3)]
  show ?case
  proof (cases "conflicting base local remote k")
    case True
    then show ?thesis by (simp add: Let_def iff conflicting_def)
  next
    case False
    define m1 where "m1 = (if changed k base local \<or> changed k base remote
      then AList.update k (merged_value base local remote k) m else m)"
    have step: "merge_fields base local remote (k # ks) m = merge_fields base local remote ks m1"
      using False by (auto simp: Let_def iff conflicting_def m1_def merged_value_def)
    have keep: "\<forall>j \<in> set ks. own m1 j = own base j" using Cons.prems by (auto simp: m1_def own_update)
    have at: "own m1 k = merged_value base local remote k" and off: "j \<noteq> k \<Longrightarrow> own m1 j = own m j" for j
      using Cons.prems by (auto simp: m1_def own_update merged_value_def)
    show ?thesis
      using Cons.IH [of m1] keep Cons.prems(1) False at off unfolding step
      by (auto split: option.splits)
  qed
qed simp

text \<open>
  C20: Three-way merging: the first tracked field that both sides changed differently is reported as the
  conflict; without one, the result has each side's changes and the base elsewhere. A field
  outside the tracked list keeps its base value, whatever the two sides did to it.
\<close>
theorem merge_three_way:
  assumes "invoice_ok base" "invoice_ok local" "invoice_ok remote"
  shows "case find (conflicting base local remote) INVOICE_FIELDS of
      Some k \<Rightarrow> mergeInvoices base local remote = Inl (MergeConflictError k (own base k) (own local k) (own remote k))
    | None \<Rightarrow> \<exists>m. mergeInvoices base local remote = Inr m
        \<and> (\<forall>k. own m k = (if k \<in> set INVOICE_FIELDS then merged_value base local remote k else own base k))"
  unfolding mergeInvoices_def
  by (rule merge_fields_eq [OF assms]) (simp_all add: INVOICE_FIELDS_def)

section \<open>Concurrent edits\<close>

definition plain_vector :: "version_vector \<Rightarrow> bool" where
  "plain_vector v \<longleftrightarrow> fst ` set v \<inter> set inherited_names = {}"

definition clock :: "version_vector \<Rightarrow> string \<Rightarrow> int" where
  "clock v a = (case map_of v a of None \<Rightarrow> 0 | Some n \<Rightarrow> n)"

lemma set_actors [simp]: "set (actors v w) = fst ` set v \<union> fst ` set w"
proof -
  have "set (foldl (\<lambda>s a. set_add a s) s as) = set s \<union> set as" for s as :: "string list"
    by (induction as arbitrary: s) auto
  then show ?thesis by (simp add: actors_def del: foldl_append)
qed

text \<open>
  A conflict is reported exactly when neither vector is below the other in every component, that
  is, when the two edits are concurrent.
\<close>
theorem conflict_iff_concurrent:
  assumes "plain_vector current" "plain_vector incoming"
  shows "detectVersionConflict current incoming = Inl ConflictError \<longleftrightarrow>
     \<not> clock current \<le> clock incoming \<and> \<not> clock incoming \<le> clock current"
proof -
  have greater: "greater (vector_at v a) (vector_at w a) \<longleftrightarrow> clock v a > clock w a"
    if "a \<in> set (actors current incoming)" for v w a
    using that assms by (auto simp: greater_def vector_at_def clock_def plain_vector_def split: option.splits)
  have off: "clock v a = 0" if "a \<notin> fst ` set v" for v a
    using that by (simp add: clock_def map_of_eq_None_iff [THEN iffD2])
  have "(\<exists>a \<in> set (actors current incoming). clock v a > clock w a) \<longleftrightarrow> \<not> clock v \<le> clock w"
    if "{v, w} = {current, incoming}" for v w
  proof -
    have "a \<in> set (actors current incoming)" if "clock v a > clock w a" for a
    proof (rule ccontr)
      assume "a \<notin> set (actors current incoming)"
      then have "a \<notin> fst ` set v" "a \<notin> fst ` set w" using \<open>{v, w} = _\<close> by (auto simp: doubleton_eq_iff)
      then have "clock v a = 0" "clock w a = 0" by (blast intro: off)+
      with that show False by simp
    qed
    then show ?thesis unfolding le_fun_def by (metis not_le)
  qed
  from this [of current incoming] this [of incoming current] show ?thesis
    by (auto simp: detectVersionConflict_def Let_def list_ex_iff greater insert_commute)
qed

section \<open>Examples\<close>

definition sample_base :: invoice_obj where
  "sample_base = [(''id'', VStr ''7''), (''funded'', VBig 0), (''memo'', VStr ''rent''), (''tags'', VArr [])]"

definition sample_local :: invoice_obj where
  "sample_local = [(''id'', VStr ''7''), (''funded'', VBig 0), (''memo'', VStr ''May rent''), (''tags'', VArr [VStr ''home''])]"

definition sample_remote :: invoice_obj where
  "sample_remote = [(''id'', VStr ''7''), (''funded'', VNum 50), (''memo'', VStr ''rent''), (''tags'', VArr [])]"

lemmas sample_invoices = sample_base_def sample_local_def sample_remote_def

lemma samples_ok: "invoice_ok sample_base" "invoice_ok sample_local" "invoice_ok sample_remote"
  by (simp_all add: invoice_ok_def sample_invoices)

text \<open>Both edits arrive, except that of the tags: the field is not tracked.\<close>

lemma merge_three_way_witness:
  "\<exists>m. mergeInvoices sample_base sample_local sample_remote = Inr m \<and> own m ''memo'' = VStr ''May rent''
     \<and> own m ''funded'' = VNum 50 \<and> own m ''tags'' = VArr []"
proof -
  have "find (conflicting sample_base sample_local sample_remote) INVOICE_FIELDS = None"
    by (simp add: find_None_iff INVOICE_FIELDS_def conflicting_def changed_def own_def sample_invoices)
  then show ?thesis
    using merge_three_way [OF samples_ok]
    by (auto simp: INVOICE_FIELDS_def merged_value_def changed_def own_def sample_invoices)
qed

lemma untracked_edit_lost: "own sample_local ''tags'' \<noteq> own sample_base ''tags''
    \<and> map de_field (diffInvoices sample_base sample_local) = [''memo'']"
  by (simp add: diffInvoices_def INVOICE_FIELDS_def Let_def own_def sample_invoices)

lemma values_equal_iff_meaning_witness:
  "valuesEqual (VObj [(''a'', VBig 1), (''b'', VNull)]) (VObj [(''b'', VNull), (''a'', VNum 1)])"
  using values_equal_iff_meaning [of "VObj [(''a'', VBig 1), (''b'', VNull)]" "VObj [(''b'', VNull), (''a'', VNum 1)]"]
  by simp

lemma diff_lists_changes_witness: "map de_field (diffInvoices sample_base sample_remote) = [''funded'']"
  using diff_lists_changes [OF samples_ok(1,3)] by (simp add: INVOICE_FIELDS_def changed_def own_def sample_invoices)

lemma conflict_iff_concurrent_witness:
  "detectVersionConflict [(''ann'', 2), (''bob'', 1)] [(''ann'', 1), (''bob'', 3)] = Inl ConflictError"
proof -
  have "clock [(''ann'', 2), (''bob'', 1)] ''ann'' > clock [(''ann'', 1), (''bob'', 3)] ''ann''"
    "clock [(''ann'', 1), (''bob'', 3)] ''bob'' > clock [(''ann'', 2), (''bob'', 1)] ''bob''"
    by (simp_all add: clock_def)
  then show ?thesis
    using conflict_iff_concurrent [of "[(''ann'', 2), (''bob'', 1)]" "[(''ann'', 1), (''bob'', 3)]"]
    by (auto simp: plain_vector_def inherited_names_def le_fun_def not_le)
qed

text \<open>An actor named like an inherited member is compared with a function, and its divergence is not seen.\<close>

lemma inherited_actor_unseen:
  "detectVersionConflict [(''ann'', 2)] [(''ann'', 1), (''constructor'', 3)] = Inr ()"
  by (simp add: detectVersionConflict_def actors_def set_add_def vector_at_def greater_def inherited_names_def)

end
