(* ===== verification/Request_Queue.thy ===== *)
theory Request_Queue
  imports Prelude "HOL-Library.Product_Lexorder"
begin

text \<open>
  \<open>priorityQueue.ts\<close>: the queue of requests that \<open>enqueue\<close>, \<open>drain\<close> and \<open>shutdown\<close> share. The
  array heap is a list updated at indices, with \<open>_insert\<close>, \<open>_extractMin\<close> and \<open>_siftDown\<close> as the
  code has them. A job is opaque; that its promise settled is the call \<open>Finish\<close>, made while the
  drain loop awaits it. \<open>service_machine\<close> is the contract: a list of requests in the order in which
  they will be served.
\<close>

section \<open>The heap\<close>

datatype priority = High | Normal | Low

primrec PRIORITY_VALUE :: "priority \<Rightarrow> int" where
  "PRIORITY_VALUE High = 0"
| "PRIORITY_VALUE Normal = 1"
| "PRIORITY_VALUE Low = 2"

instantiation priority :: linorder
begin

definition less_eq_priority :: "priority \<Rightarrow> priority \<Rightarrow> bool" where
  "less_eq_priority p q \<longleftrightarrow> PRIORITY_VALUE p \<le> PRIORITY_VALUE q"

definition less_priority :: "priority \<Rightarrow> priority \<Rightarrow> bool" where
  "less_priority p q \<longleftrightarrow> PRIORITY_VALUE p < PRIORITY_VALUE q"

instance
proof
  fix x y :: priority
  show "x \<le> y \<Longrightarrow> y \<le> x \<Longrightarrow> x = y" by (cases x; cases y) (simp_all add: less_eq_priority_def)
qed (auto simp: less_eq_priority_def less_priority_def)

end

record 'j heap_item =
  hi_priority :: priority
  hi_seq :: nat
  hi_job :: 'j

definition compare_items :: "'j heap_item \<Rightarrow> 'j heap_item \<Rightarrow> int" where
  "compare_items a b =
     (let pa = PRIORITY_VALUE (hi_priority a); pb = PRIORITY_VALUE (hi_priority b)
      in if pa \<noteq> pb then pa - pb else int (hi_seq a) - int (hi_seq b))"

definition swap_at :: "'a list \<Rightarrow> nat \<Rightarrow> nat \<Rightarrow> 'a list" where
  "swap_at h i j = h[i := h ! j, j := h ! i]"

fun sift_up :: "'j heap_item list \<Rightarrow> nat \<Rightarrow> 'j heap_item list" where
  "sift_up h i =
     (if i = 0 then h
      else let parent = (i - 1) div 2
           in if compare_items (h ! i) (h ! parent) < 0 then sift_up (swap_at h i parent) parent else h)"

definition heap_insert :: "'j heap_item \<Rightarrow> 'j heap_item list \<Rightarrow> 'j heap_item list" where
  "heap_insert x h = sift_up (h @ [x]) (length h)"

definition smallest_child :: "'j heap_item list \<Rightarrow> nat \<Rightarrow> nat" where
  "smallest_child h i =
     (let l = 2 * i + 1; r = 2 * i + 2;
          s = (if l < length h \<and> compare_items (h ! l) (h ! i) < 0 then l else i)
      in if r < length h \<and> compare_items (h ! r) (h ! s) < 0 then r else s)"

lemma smallest_child_cases:
  "smallest_child h i = i \<or> smallest_child h i \<in> {2 * i + 1, 2 * i + 2} \<and> smallest_child h i < length h"
  by (simp add: smallest_child_def Let_def)

function sift_down :: "'j heap_item list \<Rightarrow> nat \<Rightarrow> 'j heap_item list" where
  "sift_down h i =
     (let smallest = smallest_child h i
      in if smallest = i then h else sift_down (swap_at h i smallest) smallest)"
  by pat_completeness auto
termination
proof (relation "measure (\<lambda>(h, i). length h - i)")
  fix h :: "'j heap_item list" and i s
  assume "s = smallest_child h i" "s \<noteq> i"
  then show "((swap_at h i s, s), h, i) \<in> measure (\<lambda>(h, i). length h - i)"
    using smallest_child_cases [of h i] by (auto simp: swap_at_def)
qed simp

definition extract_min :: "'j heap_item list \<Rightarrow> ('j heap_item \<times> 'j heap_item list) option" where
  "extract_min h =
     (if h = [] then None
      else let rest = butlast h
           in Some (h ! 0, if rest = [] then rest else sift_down (rest[0 := last h]) 0))"

declare sift_up.simps [simp del] sift_down.simps [simp del]

section \<open>The queue and its calls\<close>

record 'j request_queue =
  rq_heap :: "'j heap_item list"
  rq_seq :: nat
  rq_running :: bool
  rq_closed :: bool
  rq_drainResolvers :: "nat list"
  rq_current :: "'j heap_item option" \<comment> \<open>the request \<open>_drain\<close> awaits\<close>

datatype ('j, 'v, 'e) queue_event =
    ShutDownError 'j \<comment> \<open>the promise rejected with ''Queue is shut down''\<close>
  | Started "'j heap_item"
  | Resolved "'j heap_item" 'v
  | Rejected "'j heap_item" 'e
  | DrainResolved nat

datatype ('j, 'v, 'e) queue_call =
    Enqueue priority 'j
  | Finish "'e + 'v" \<comment> \<open>the awaited promise rejects or resolves\<close>
  | Drain nat
  | Shutdown nat

definition queue_new :: "'j request_queue" where
  "queue_new = \<lparr>rq_heap = [], rq_seq = 0, rq_running = False, rq_closed = False, rq_drainResolvers = [], rq_current = None\<rparr>"

text \<open>One turn of the loop of \<open>_drain\<close>: the next request is taken out and started, or the loop ends.\<close>

definition drain_turn :: "'j request_queue \<Rightarrow> 'j request_queue \<times> ('j, 'v, 'e) queue_event list" where
  "drain_turn q =
     (case extract_min (rq_heap q) of
        Some (x, h) \<Rightarrow> (q\<lparr>rq_heap := h, rq_current := Some x\<rparr>, [Started x])
      | None \<Rightarrow> (q\<lparr>rq_running := False, rq_current := None, rq_drainResolvers := []\<rparr>, map DrainResolved (rq_drainResolvers q)))"

definition enqueue :: "priority \<Rightarrow> 'j \<Rightarrow> 'j request_queue \<Rightarrow> 'j request_queue \<times> ('j, 'v, 'e) queue_event list" where
  "enqueue p j q =
     (if rq_closed q then (q, [ShutDownError j])
      else let x = \<lparr>hi_priority = p, hi_seq = rq_seq q, hi_job = j\<rparr>;
               q' = q\<lparr>rq_heap := heap_insert x (rq_heap q), rq_seq := Suc (rq_seq q)\<rparr>
           in if \<not> rq_running q' then drain_turn (q'\<lparr>rq_running := True\<rparr>) else (q', []))"

definition finish :: "'e + 'v \<Rightarrow> 'j request_queue \<Rightarrow> 'j request_queue \<times> ('j, 'v, 'e) queue_event list" where
  "finish r q =
     (case rq_current q of
        None \<Rightarrow> (q, [])
      | Some x \<Rightarrow>
          (case drain_turn q of
             (q', evs) \<Rightarrow> (q', (case r of Inl e \<Rightarrow> Rejected x e | Inr v \<Rightarrow> Resolved x v) # evs)))"

definition drain :: "nat \<Rightarrow> 'j request_queue \<Rightarrow> 'j request_queue \<times> ('j, 'v, 'e) queue_event list" where
  "drain w q =
     (if \<not> rq_running q \<and> rq_heap q = [] then (q, [DrainResolved w])
      else (q\<lparr>rq_drainResolvers := rq_drainResolvers q @ [w]\<rparr>, []))"

definition shutdown :: "nat \<Rightarrow> 'j request_queue \<Rightarrow> 'j request_queue \<times> ('j, 'v, 'e) queue_event list" where
  "shutdown w q = drain w (q\<lparr>rq_closed := True\<rparr>)"

primrec queue_step :: "('j, 'v, 'e) queue_call \<Rightarrow> 'j request_queue \<Rightarrow> 'j request_queue \<times> ('j, 'v, 'e) queue_event list" where
  "queue_step (Enqueue p j) q = enqueue p j q"
| "queue_step (Finish r) q = finish r q"
| "queue_step (Drain w) q = drain w q"
| "queue_step (Shutdown w) q = shutdown w q"

fun queue_run :: "('j, 'v, 'e) queue_call list \<Rightarrow> 'j request_queue \<Rightarrow> 'j request_queue \<times> ('j, 'v, 'e) queue_event list" where
  "queue_run [] q = (q, [])"
| "queue_run (c # cs) q =
     (case queue_step c q of (q', evs) \<Rightarrow> (case queue_run cs q' of (q'', evs') \<Rightarrow> (q'', evs @ evs')))"

lemmas [sdk_ops] = drain_turn_def enqueue_def finish_def drain_def shutdown_def

section \<open>Heap order\<close>

definition item_key :: "'j heap_item \<Rightarrow> priority \<times> nat" where
  "item_key x = (hi_priority x, hi_seq x)"

lemma compare_items_less: "compare_items a b < 0 \<longleftrightarrow> item_key a < item_key b"
proof -
  have "PRIORITY_VALUE p = PRIORITY_VALUE q \<longleftrightarrow> p = q" for p q by (cases p; cases q) simp_all
  note this [simp]
  show ?thesis by (auto simp: compare_items_def item_key_def less_priority_def less_eq_priority_def Let_def order_less_le)
qed

text \<open>The order holds between every element and its parent, but for the parent, or the children, of one index.\<close>

definition heap_ok :: "'j heap_item list \<Rightarrow> bool" where
  "heap_ok h \<longleftrightarrow> (\<forall>j < length h. 0 < j \<longrightarrow> item_key (h ! ((j - 1) div 2)) \<le> item_key (h ! j))"

definition bridged :: "'j heap_item list \<Rightarrow> nat \<Rightarrow> bool" where
  "bridged h i \<longleftrightarrow> (\<forall>j < length h. 0 < j \<longrightarrow> (j - 1) div 2 = i \<longrightarrow> 0 < i \<longrightarrow> item_key (h ! ((i - 1) div 2)) \<le> item_key (h ! j))"

definition heap_but_up :: "'j heap_item list \<Rightarrow> nat \<Rightarrow> bool" where
  "heap_but_up h i \<longleftrightarrow> bridged h i \<and>
     (\<forall>j < length h. 0 < j \<longrightarrow> j \<noteq> i \<longrightarrow> item_key (h ! ((j - 1) div 2)) \<le> item_key (h ! j))"

definition heap_but_down :: "'j heap_item list \<Rightarrow> nat \<Rightarrow> bool" where
  "heap_but_down h i \<longleftrightarrow> bridged h i \<and>
     (\<forall>j < length h. 0 < j \<longrightarrow> (j - 1) div 2 \<noteq> i \<longrightarrow> item_key (h ! ((j - 1) div 2)) \<le> item_key (h ! j))"

lemma nth_swap_at: "i < length h \<Longrightarrow> j < length h \<Longrightarrow>
    swap_at h i j ! k = (if k = j then h ! i else if k = i then h ! j else h ! k)"
  by (simp add: swap_at_def nth_list_update)

lemma length_swap_at [simp]: "length (swap_at h i j) = length h"
  by (simp add: swap_at_def)

lemma mset_swap_at: "i < length h \<Longrightarrow> j < length h \<Longrightarrow> mset (swap_at h i j) = mset h"
  unfolding swap_at_def using mset_swap [of j h i] by (cases "i = j") (simp_all add: list_update_swap)

lemma heap_but_up_swap:
  assumes up: "heap_but_up h i" and i: "0 < i" "i < length h" and pd: "p = (i - 1) div 2" and lt: "item_key (h ! i) < item_key (h ! p)"
  shows "heap_but_up (swap_at h i p) p"
proof -
  let ?h = "swap_at h i p"
  have p: "p < i" using i pd by simp
  then have "p < length h" using i by linarith
  note nth = nth_swap_at [OF i(2) this]
  have ord: "item_key (h ! ((j - 1) div 2)) \<le> item_key (h ! j)" if "j < length h" "0 < j" "j \<noteq> i" for j
    using up that by (simp add: heap_but_up_def)
  have br: "item_key (h ! p) \<le> item_key (h ! j)" if "j < length h" "0 < j" "(j - 1) div 2 = i" for j
    using up that i pd by (simp add: heap_but_up_def bridged_def)
  have 1: "item_key (?h ! ((j - 1) div 2)) \<le> item_key (?h ! j)" if j: "j < length ?h" "0 < j" "j \<noteq> p" for j
  proof (cases "j = i")
    case True
    have "item_key (?h ! p) \<le> item_key (?h ! i)" using lt p by (auto simp: nth)
    with True pd show ?thesis by simp
  next
    case False
    have "(j - 1) div 2 < j" using j by simp
    with False j p i ord [of j] br [of j] lt show ?thesis by (auto simp: nth)
  qed
  have 2: "item_key (?h ! ((p - 1) div 2)) \<le> item_key (?h ! j)" if j: "j < length ?h" "0 < j" "(j - 1) div 2 = p" "0 < p" for j
  proof -
    have "item_key (h ! ((p - 1) div 2)) \<le> item_key (h ! p)" using ord [of p] j p i by simp
    moreover have "item_key (h ! p) \<le> item_key (h ! j)" if "j \<noteq> i" using ord [of j] j that by simp
    moreover have "(p - 1) div 2 < p" "p < j" using j by simp_all
    ultimately show ?thesis using p i j(1) by (auto simp: nth intro: order_trans)
  qed
  show ?thesis using 1 2 by (simp add: heap_but_up_def bridged_def)
qed

lemma sift_up_ok: "heap_but_up h i \<Longrightarrow> i < length h \<Longrightarrow> heap_ok (sift_up h i) \<and> mset (sift_up h i) = mset h"
proof (induction h i rule: sift_up.induct)
  case (1 h i)
  let ?p = "(i - 1) div 2"
  show ?case
  proof (cases "0 < i \<and> compare_items (h ! i) (h ! ?p) < 0")
    case True
    then have "heap_but_up (swap_at h i ?p) ?p" using heap_but_up_swap [OF 1(2) _ 1(3) refl] by (simp add: compare_items_less)
    with 1(1) [OF _ refl] True 1(3) show ?thesis
      by (subst (1 2) sift_up.simps) (simp add: mset_swap_at Let_def)
  next
    case False
    have "heap_ok h" unfolding heap_ok_def
    proof (intro allI impI)
      fix j assume "j < length h" "0 < j"
      then show "item_key (h ! ((j - 1) div 2)) \<le> item_key (h ! j)"
        using 1(2) False by (cases "j = i") (auto simp: heap_but_up_def compare_items_less not_less)
    qed
    with False show ?thesis by (subst (1 2) sift_up.simps) (auto simp: Let_def)
  qed
qed

lemma heap_insert_ok: "heap_ok h \<Longrightarrow> heap_ok (heap_insert x h) \<and> mset (heap_insert x h) = add_mset x (mset h)"
proof -
  assume h: "heap_ok h"
  have "heap_but_up (h @ [x]) (length h)"
    unfolding heap_but_up_def bridged_def
  proof (intro conjI allI impI)
    fix j assume "j < length (h @ [x])" "0 < j" "j \<noteq> length h"
    then have "j < length h" "(j - 1) div 2 < length h" by auto
    with h \<open>0 < j\<close> show "item_key ((h @ [x]) ! ((j - 1) div 2)) \<le> item_key ((h @ [x]) ! j)"
      by (simp add: heap_ok_def nth_append)
  qed auto
  from sift_up_ok [OF this] show ?thesis by (simp add: heap_insert_def)
qed

lemma smallest_child_least:
  assumes "i < length h" "j < length h" "0 < j" "(j - 1) div 2 = i"
  shows "item_key (h ! smallest_child h i) \<le> item_key (h ! i)" "item_key (h ! smallest_child h i) \<le> item_key (h ! j)"
proof -
  have "j = 2 * i + 1 \<or> j = 2 * i + 2" using assms(3,4) by auto
  with assms(2) show "item_key (h ! smallest_child h i) \<le> item_key (h ! i)" "item_key (h ! smallest_child h i) \<le> item_key (h ! j)"
    by (auto simp: smallest_child_def Let_def compare_items_less not_less intro: order_trans)
qed

lemma heap_but_down_swap:
  assumes dn: "heap_but_down h i" and i: "i < length h" and s: "s = smallest_child h i" "s \<noteq> i"
  shows "heap_but_down (swap_at h i s) s"
proof -
  have sc: "s \<in> {2 * i + 1, 2 * i + 2}" "s < length h" using smallest_child_cases [of h i] s by auto
  then have ps: "(s - 1) div 2 = i" "0 < s" "i < s" by auto
  note nth = nth_swap_at [OF i sc(2)]
  have ord: "item_key (h ! ((j - 1) div 2)) \<le> item_key (h ! j)" if "j < length h" "0 < j" "(j - 1) div 2 \<noteq> i" for j
    using dn that by (simp add: heap_but_down_def)
  have br: "item_key (h ! ((i - 1) div 2)) \<le> item_key (h ! j)" if "j < length h" "0 < j" "(j - 1) div 2 = i" "0 < i" for j
    using dn that by (simp add: heap_but_down_def bridged_def)
  have least: "item_key (h ! s) \<le> item_key (h ! i)" "\<And>j. j < length h \<Longrightarrow> 0 < j \<Longrightarrow> (j - 1) div 2 = i \<Longrightarrow> item_key (h ! s) \<le> item_key (h ! j)"
    using smallest_child_least [OF i sc(2) ps(2,1)] smallest_child_least(2) [OF i] s(1) by simp_all
  let ?h = "swap_at h i s"
  have 1: "item_key (?h ! ((j - 1) div 2)) \<le> item_key (?h ! j)" if j: "j < length h" "0 < j" "(j - 1) div 2 \<noteq> s" for j
  proof (cases "(j - 1) div 2 = i")
    case True
    then have "j \<noteq> i" using j(2) by auto
    with True j least ps show ?thesis by (auto simp: nth)
  next
    case False
    then have "j \<noteq> s" using ps by auto
    with False j ord [of j] br [OF sc(2) ps(2,1)] show ?thesis by (auto simp: nth)
  qed
  have 2: "item_key (?h ! ((s - 1) div 2)) \<le> item_key (?h ! j)" if j: "j < length h" "0 < j" "(j - 1) div 2 = s" for j
  proof -
    have "j \<noteq> i \<and> j \<noteq> s" using j ps by auto
    with j ps ord [of j] show ?thesis by (simp add: nth)
  qed
  show ?thesis using 1 2 by (simp add: heap_but_down_def bridged_def)
qed

lemma sift_down_ok: "heap_but_down h i \<Longrightarrow> i < length h \<Longrightarrow> heap_ok (sift_down h i) \<and> mset (sift_down h i) = mset h"
proof (induction h i rule: sift_down.induct)
  case (1 h i)
  let ?s = "smallest_child h i"
  show ?case
  proof (cases "?s = i")
    case True
    have "heap_ok h" unfolding heap_ok_def
    proof (intro allI impI)
      fix j assume "j < length h" "0 < j"
      then show "item_key (h ! ((j - 1) div 2)) \<le> item_key (h ! j)"
        using 1(2,3) True smallest_child_least(2) [of i h j] by (cases "(j - 1) div 2 = i") (auto simp: heap_but_down_def)
    qed
    with True show ?thesis by (subst (1 2) sift_down.simps) simp
  next
    case False
    with smallest_child_cases [of h i] have "?s < length h" by auto
    with 1(1) [OF refl False heap_but_down_swap [OF 1(2,3) refl False]] False 1(3) show ?thesis
      by (subst (1 2) sift_down.simps) (simp add: mset_swap_at Let_def)
  qed
qed

lemma heap_root_least: "heap_ok h \<Longrightarrow> j < length h \<Longrightarrow> item_key (h ! 0) \<le> item_key (h ! j)"
proof (induction j rule: less_induct)
  case (less j)
  show ?case
  proof (cases "j = 0")
    case False
    then have "item_key (h ! ((j - 1) div 2)) \<le> item_key (h ! j)" "(j - 1) div 2 < j"
      using less.prems by (simp_all add: heap_ok_def)
    with less.IH [of "(j - 1) div 2"] less.prems show ?thesis by (metis order.strict_trans order_trans)
  qed simp
qed

lemma extract_min_ok:
  assumes h: "heap_ok h" and e: "extract_min h = Some (x, r)"
  shows "heap_ok r" "mset h = add_mset x (mset r)" "\<And>y. y \<in> set h \<Longrightarrow> item_key x \<le> item_key y"
proof -
  have ne: "h \<noteq> []" and x: "x = h ! 0" using e by (auto simp: extract_min_def Let_def split: if_splits)
  show "\<And>y. y \<in> set h \<Longrightarrow> item_key x \<le> item_key y"
    using heap_root_least [OF h] by (auto simp: x in_set_conv_nth)
  show "heap_ok r" "mset h = add_mset x (mset r)"
  proof (induction "butlast h = []" rule: bool.induct)
    case True
    then have "butlast h = []" by simp
    with ne have "h = [last h]" by (metis append_Nil append_butlast_last_id)
    then obtain z where "h = [z]" by metis
    with e show "heap_ok r" "mset h = add_mset x (mset r)" by (simp_all add: extract_min_def heap_ok_def)
  next
    case False
    then obtain b bs where b: "butlast h = b # bs" by (cases "butlast h") auto
    then have hh: "h = b # bs @ [last h]" using ne by (metis append_Cons append_butlast_last_id)
    let ?t = "last h # bs"
    have r: "r = sift_down ?t 0" using e b ne by (simp add: extract_min_def Let_def)
    have "heap_but_down ?t 0" unfolding heap_but_down_def bridged_def
    proof (intro conjI allI impI)
      fix j assume j: "j < length ?t" "0 < j" "(j - 1) div 2 \<noteq> 0"
      then have nz: "j - 1 \<noteq> 0" "(j - 1) div 2 - 1 < length bs" "j - 1 < length bs" by auto
      have "?t ! j = h ! j" "?t ! ((j - 1) div 2) = h ! ((j - 1) div 2)"
        using j nz by (subst hh, simp add: nth_Cons' nth_append)+
      moreover have "length h = Suc (length ?t)" by (subst hh) simp
      ultimately show "item_key (?t ! ((j - 1) div 2)) \<le> item_key (?t ! j)" using h j by (simp add: heap_ok_def)
    qed auto
    from sift_down_ok [OF this] have "heap_ok r" "mset r = mset ?t" by (simp_all add: r)
    moreover have "mset h = add_mset (h ! 0) (mset ?t)" by (subst (1 2) hh) simp
    ultimately show "heap_ok r" "mset h = add_mset x (mset r)" by (simp_all add: x)
  qed
qed

section \<open>The contract: lines served in order\<close>

text \<open>What the queue needs of its waiting set; the heap provides it.\<close>

locale service_order =
  fixes ok :: "'q \<Rightarrow> bool" and items :: "'q \<Rightarrow> 'a list" and rank :: "'a \<Rightarrow> 'k::linorder"
    and put :: "'a \<Rightarrow> 'q \<Rightarrow> 'q" and take_min :: "'q \<Rightarrow> ('a \<times> 'q) option"
  assumes put_ok: "ok q \<Longrightarrow> ok (put x q)"
    and put_items: "ok q \<Longrightarrow> mset (items (put x q)) = add_mset x (mset (items q))"
    and take_none: "take_min q = None \<longleftrightarrow> items q = []"
    and take_ok: "ok q \<Longrightarrow> take_min q = Some (x, r) \<Longrightarrow> ok r"
    and take_items: "ok q \<Longrightarrow> take_min q = Some (x, r) \<Longrightarrow> mset (items q) = add_mset x (mset (items r))"
    and take_least: "ok q \<Longrightarrow> take_min q = Some (x, r) \<Longrightarrow> y \<in> set (items q) \<Longrightarrow> rank x \<le> rank y"
begin

text \<open>The elements in the order of their ranks, which is the order in which they are taken.\<close>

definition waiting :: "'q \<Rightarrow> 'a list" where
  "waiting q = sort_key rank (items q)"

lemma waiting_unique:
  assumes "sorted (map rank xs)" "mset xs = mset (items q)" "distinct (map rank (items q))"
  shows "waiting q = xs"
proof -
  have m: "mset (map rank xs) = mset (map rank (items q))" "mset (map rank (waiting q)) = mset (map rank (items q))"
    using assms(2) by (simp_all add: waiting_def)
  then have d: "distinct (map rank xs)" "distinct (map rank (waiting q))"
    using assms(3) mset_eq_imp_distinct_iff by blast+
  have "set xs = set (items q)" "set (waiting q) = set (items q)"
    using assms(2) mset_eq_setD by (auto simp: waiting_def)
  moreover have "inj_on rank (set (items q))" using assms(3) by (simp add: distinct_map)
  ultimately show ?thesis
    using map_sorted_distinct_set_unique [of rank "waiting q" xs] d assms(1) by (simp add: waiting_def)
qed

lemma waiting_put:
  assumes "ok q" "distinct (map rank (items q))" "rank x \<notin> rank ` set (items q)"
  shows "waiting (put x q) = insort_key rank x (waiting q)"
proof (rule waiting_unique)
  have "mset (map rank (items (put x q))) = mset (map rank (x # items q))"
    using put_items [OF assms(1)] by simp
  then show "distinct (map rank (items (put x q)))"
    using assms mset_eq_imp_distinct_iff [of "map rank (items (put x q))" "map rank (x # items q)"] by simp
qed (simp_all add: put_items [OF assms(1)] sorted_insort_key waiting_def)

lemma waiting_take:
  assumes "ok q" "distinct (map rank (items q))" "take_min q = Some (x, r)"
  shows "waiting q = x # waiting r"
proof (rule waiting_unique [OF _ _ assms(2)])
  note t = take_items [OF assms(1,3)]
  have "set (items r) \<subseteq> set (items q)" using mset_eq_setD [of "items q" "x # items r"] t by auto
  then show "sorted (map rank (x # waiting r))"
    using take_least [OF assms(1,3)] by (auto simp: waiting_def)
  show "mset (x # waiting r) = mset (items q)" using t by (simp add: waiting_def)
qed

end

lemma extract_min_None: "extract_min h = None \<longleftrightarrow> h = []"
  by (simp add: extract_min_def Let_def)

lemma extract_min_Nil [simp]: "extract_min [] = None"
  by (simp add: extract_min_def)

interpretation heap_queue: service_order heap_ok "\<lambda>h. h" item_key heap_insert extract_min
  by unfold_locales (auto simp: heap_insert_ok extract_min_None dest: extract_min_ok)

text \<open>
  The service desk: one line per priority, first come first served; the head of the first line that
  is not empty is served next. It has no heap and no sequence comparison.
\<close>

record 'j service_desk =
  sd_lines :: "priority \<Rightarrow> 'j heap_item list"
  sd_tickets :: nat
  sd_closed :: bool
  sd_drainers :: "nat list"
  sd_serving :: "'j heap_item option"

definition desk_new :: "'j service_desk" where
  "desk_new = \<lparr>sd_lines = (\<lambda>p. []), sd_tickets = 0, sd_closed = False, sd_drainers = [], sd_serving = None\<rparr>"

definition first_line :: "(priority \<Rightarrow> 'a list) \<Rightarrow> priority option" where
  "first_line ls = List.find (\<lambda>p. ls p \<noteq> []) [High, Normal, Low]"

definition serve_next :: "'j service_desk \<Rightarrow> 'j service_desk \<times> ('j, 'v, 'e) queue_event list" where
  "serve_next d =
     (case first_line (sd_lines d) of
        Some p \<Rightarrow> (d\<lparr>sd_lines := (sd_lines d)(p := tl (sd_lines d p)), sd_serving := Some (hd (sd_lines d p))\<rparr>,
                   [Started (hd (sd_lines d p))])
      | None \<Rightarrow> (d\<lparr>sd_serving := None, sd_drainers := []\<rparr>, map DrainResolved (sd_drainers d)))"

primrec desk_step :: "('j, 'v, 'e) queue_call \<Rightarrow> 'j service_desk \<Rightarrow> 'j service_desk \<times> ('j, 'v, 'e) queue_event list" where
  "desk_step (Enqueue p j) d =
     (if sd_closed d then (d, [ShutDownError j])
      else let x = \<lparr>hi_priority = p, hi_seq = sd_tickets d, hi_job = j\<rparr>;
               d' = d\<lparr>sd_lines := (sd_lines d)(p := sd_lines d p @ [x]), sd_tickets := Suc (sd_tickets d)\<rparr>
           in if sd_serving d = None then serve_next d' else (d', []))"
| "desk_step (Finish r) d =
     (case sd_serving d of
        None \<Rightarrow> (d, [])
      | Some x \<Rightarrow> (case serve_next d of (d', evs) \<Rightarrow> (d', (case r of Inl e \<Rightarrow> Rejected x e | Inr v \<Rightarrow> Resolved x v) # evs)))"
| "desk_step (Drain w) d =
     (if sd_serving d = None then (d, [DrainResolved w]) else (d\<lparr>sd_drainers := sd_drainers d @ [w]\<rparr>, []))"
| "desk_step (Shutdown w) d =
     (if sd_serving d = None then (d\<lparr>sd_closed := True\<rparr>, [DrainResolved w])
      else (d\<lparr>sd_closed := True, sd_drainers := sd_drainers d @ [w]\<rparr>, []))"

fun desk_run :: "('j, 'v, 'e) queue_call list \<Rightarrow> 'j service_desk \<Rightarrow> 'j service_desk \<times> ('j, 'v, 'e) queue_event list" where
  "desk_run [] d = (d, [])"
| "desk_run (c # cs) d =
     (case desk_step c d of (d', evs) \<Rightarrow> (case desk_run cs d' of (d'', evs') \<Rightarrow> (d'', evs @ evs')))"

definition desk_of :: "'j request_queue \<Rightarrow> 'j service_desk" where
  "desk_of q = \<lparr>sd_lines = (\<lambda>p. filter (\<lambda>x. hi_priority x = p) (heap_queue.waiting (rq_heap q))), sd_tickets = rq_seq q,
                sd_closed = rq_closed q, sd_drainers = rq_drainResolvers q, sd_serving = rq_current q\<rparr>"

definition queue_inv :: "'j request_queue \<Rightarrow> bool" where
  "queue_inv q \<longleftrightarrow> heap_ok (rq_heap q) \<and> distinct (map hi_seq (rq_heap q)) \<and> (\<forall>x \<in> set (rq_heap q). hi_seq x < rq_seq q) \<and>
     (rq_running q \<longleftrightarrow> rq_current q \<noteq> None) \<and> (\<not> rq_running q \<longrightarrow> rq_heap q = [] \<and> rq_drainResolvers q = [])"

lemma distinct_item_keys: "distinct (map hi_seq h) \<Longrightarrow> distinct (map item_key h)"
proof -
  assume "distinct (map hi_seq h)"
  moreover have "map hi_seq h = map snd (map item_key h)" by (simp add: item_key_def)
  ultimately show ?thesis by (metis distinct_map)
qed

text \<open>A ticket later than all others goes to the end of its line; the least item heads the first line.\<close>

lemma line_insort:
  assumes "sorted (map item_key xs)" "\<forall>y \<in> set xs. hi_seq y < hi_seq x"
  shows "filter (\<lambda>y. hi_priority y = p) (insort_key item_key x xs) =
    filter (\<lambda>y. hi_priority y = p) xs @ (if hi_priority x = p then [x] else [])"
  using assms
proof (induction xs)
  case (Cons y ys)
  show ?case
  proof (cases "item_key x \<le> item_key y")
    case True
    have "hi_priority z \<noteq> hi_priority x" if z: "z \<in> set (y # ys)" for z
    proof -
      have "item_key x \<le> item_key z" using True z Cons.prems(1) by (auto intro: order_trans)
      with Cons.prems(2) z show ?thesis by (auto simp: item_key_def)
    qed
    then have "filter (\<lambda>z. hi_priority z = hi_priority x) (y # ys) = []" by (simp add: filter_empty_conv)
    with True show ?thesis by auto
  next
    case False
    with Cons show ?thesis by auto
  qed
qed simp

lemma first_line_head:
  assumes "sorted (map item_key (x # xs))"
  shows "first_line (\<lambda>p. filter (\<lambda>y. hi_priority y = p) (x # xs)) = Some (hi_priority x)"
proof -
  have "hi_priority x \<le> hi_priority y" if "y \<in> set (x # xs)" for y
    using assms that by (auto simp: item_key_def)
  then have "filter (\<lambda>y. hi_priority y = p) (x # xs) = []" if "p < hi_priority x" for p
    using that by (fastforce simp: filter_empty_conv dest: leD)
  from this [of High] this [of Normal] show ?thesis
    by (cases "hi_priority x") (auto simp: first_line_def less_priority_def)
qed


section \<open>The queue implements the desk\<close>

definition turn_ready :: "'j request_queue \<Rightarrow> bool" where
  "turn_ready q \<longleftrightarrow> heap_ok (rq_heap q) \<and> distinct (map hi_seq (rq_heap q)) \<and> (\<forall>x \<in> set (rq_heap q). hi_seq x < rq_seq q) \<and> rq_running q"

lemma distinct_seqs_take:
  assumes "heap_ok h" "distinct (map hi_seq h)" "extract_min h = Some (x, r)"
  shows "distinct (map hi_seq r)" "set r \<subseteq> set h"
proof -
  note m = extract_min_ok(2) [OF assms(1,3)]
  have "mset (map hi_seq h) = mset (map hi_seq (x # r))" using m by simp
  then show "distinct (map hi_seq r)" using assms(2) mset_eq_imp_distinct_iff by fastforce
  have "set h = set (x # r)" using m by (metis mset.simps(2) mset_eq_setD)
  then show "set r \<subseteq> set h" by auto
qed

lemma drain_turn_inv: "turn_ready q \<Longrightarrow> queue_inv (fst (drain_turn q))"
proof -
  assume q: "turn_ready q"
  then have h: "heap_ok (rq_heap q)" "distinct (map hi_seq (rq_heap q))" "\<forall>x \<in> set (rq_heap q). hi_seq x < rq_seq q" "rq_running q"
    by (simp_all add: turn_ready_def)
  show ?thesis
  proof (cases "extract_min (rq_heap q)")
    case None
    with h show ?thesis by (simp add: drain_turn_def queue_inv_def extract_min_None heap_ok_def)
  next
    case (Some xr)
    obtain x r where xr: "xr = (x, r)" by (cases xr)
    with Some have e: "extract_min (rq_heap q) = Some (x, r)" by simp
    show ?thesis using distinct_seqs_take [OF h(1,2) e] extract_min_ok(1) [OF h(1) e] h(3,4)
      by (auto simp: drain_turn_def queue_inv_def e)
  qed
qed

lemma desk_new_of: "desk_of queue_new = desk_new"
  by (simp add: desk_of_def queue_new_def desk_new_def heap_queue.waiting_def)

lemma drain_turn_desk: "turn_ready q \<Longrightarrow> serve_next (desk_of q) = map_prod desk_of id (drain_turn q)"
proof -
  assume q: "turn_ready q"
  then have h: "heap_ok (rq_heap q)" "distinct (map hi_seq (rq_heap q))" by (simp_all add: turn_ready_def)
  show ?thesis
  proof (cases "extract_min (rq_heap q)")
    case None
    then show ?thesis
      by (simp add: drain_turn_def serve_next_def desk_of_def extract_min_None heap_queue.waiting_def first_line_def)
  next
    case (Some xr)
    obtain x r where xr: "xr = (x, r)" by (cases xr)
    with Some have e: "extract_min (rq_heap q) = Some (x, r)" by simp
    have w: "heap_queue.waiting (rq_heap q) = x # heap_queue.waiting r"
      by (rule heap_queue.waiting_take [OF h(1) distinct_item_keys [OF h(2)] e])
    have "sorted (map item_key (x # heap_queue.waiting r))" unfolding w [symmetric] by (simp add: heap_queue.waiting_def)
    from first_line_head [OF this] show ?thesis
      by (auto simp: drain_turn_def serve_next_def desk_of_def e w)
  qed
qed

lemma enqueue_heap:
  assumes "heap_ok h" "distinct (map hi_seq h)" "\<forall>y \<in> set h. hi_seq y < n" "hi_seq x = n"
  shows "heap_ok (heap_insert x h)" "distinct (map hi_seq (heap_insert x h))" "\<forall>y \<in> set (heap_insert x h). hi_seq y < Suc n"
    "filter (\<lambda>y. hi_priority y = p) (heap_queue.waiting (heap_insert x h)) =
      filter (\<lambda>y. hi_priority y = p) (heap_queue.waiting h) @ (if hi_priority x = p then [x] else [])"
proof -
  note i = heap_insert_ok [OF assms(1), of x]
  have s: "set (heap_insert x h) = insert x (set h)" using i mset_eq_setD [of "heap_insert x h" "x # h"] by simp
  have "mset (map hi_seq (heap_insert x h)) = mset (map hi_seq (x # h))" using i by simp
  moreover have "distinct (map hi_seq (x # h))" using assms by auto
  ultimately show "distinct (map hi_seq (heap_insert x h))" by (metis mset_eq_imp_distinct_iff)
  show "heap_ok (heap_insert x h)" "\<forall>y \<in> set (heap_insert x h). hi_seq y < Suc n" using i s assms(3,4) by (auto simp: less_Suc_eq)
  have "item_key x \<notin> item_key ` set h" using assms(3,4) by (auto simp: item_key_def)
  then have "heap_queue.waiting (heap_insert x h) = insort_key item_key x (heap_queue.waiting h)"
    by (rule heap_queue.waiting_put [OF assms(1) distinct_item_keys [OF assms(2)]])
  moreover have "sorted (map item_key (heap_queue.waiting h))" "\<forall>y \<in> set (heap_queue.waiting h). hi_seq y < hi_seq x"
    using assms(3,4) by (simp_all add: heap_queue.waiting_def)
  ultimately show "filter (\<lambda>y. hi_priority y = p) (heap_queue.waiting (heap_insert x h)) =
      filter (\<lambda>y. hi_priority y = p) (heap_queue.waiting h) @ (if hi_priority x = p then [x] else [])"
    by (simp add: line_insort)
qed

text \<open>The three ways an \<open>enqueue\<close> goes.\<close>

definition added :: "priority \<Rightarrow> 'j \<Rightarrow> 'j request_queue \<Rightarrow> 'j request_queue" where
  "added p j q = q\<lparr>rq_heap := heap_insert \<lparr>hi_priority = p, hi_seq = rq_seq q, hi_job = j\<rparr> (rq_heap q), rq_seq := Suc (rq_seq q)\<rparr>"

lemma enqueue_cases:
  "rq_closed q \<Longrightarrow> enqueue p j q = (q, [ShutDownError j])"
  "\<not> rq_closed q \<Longrightarrow> rq_running q \<Longrightarrow> enqueue p j q = (added p j q, [])"
  "\<not> rq_closed q \<Longrightarrow> \<not> rq_running q \<Longrightarrow> enqueue p j q = drain_turn (added p j q\<lparr>rq_running := True\<rparr>)"
  by (simp_all add: enqueue_def added_def Let_def)

lemma desk_of_running [simp]: "desk_of (q\<lparr>rq_running := b\<rparr>) = desk_of q"
  by (simp add: desk_of_def)

lemma added_facts:
  assumes "heap_ok (rq_heap q)" "distinct (map hi_seq (rq_heap q))" "\<forall>x \<in> set (rq_heap q). hi_seq x < rq_seq q"
  shows "turn_ready (added p j q\<lparr>rq_running := True\<rparr>)"
    "desk_of (added p j q) = (desk_of q)\<lparr>sd_lines := (sd_lines (desk_of q))(p := sd_lines (desk_of q) p @ [\<lparr>hi_priority = p, hi_seq = rq_seq q, hi_job = j\<rparr>]),
       sd_tickets := Suc (rq_seq q)\<rparr>"
    "queue_inv q \<Longrightarrow> rq_running q \<Longrightarrow> queue_inv (added p j q)"
  using enqueue_heap [OF assms, of "\<lparr>hi_priority = p, hi_seq = rq_seq q, hi_job = j\<rparr>", simplified]
  by (auto simp: turn_ready_def added_def desk_of_def queue_inv_def fun_eq_iff)

lemma finish_Some:
  "rq_current q = Some x \<Longrightarrow> finish r q = map_prod id (Cons (case r of Inl e \<Rightarrow> Rejected x e | Inr v \<Rightarrow> Resolved x v)) (drain_turn q)"
  by (simp add: finish_def split_beta map_prod_def)

lemma queue_step_refines:
  assumes "queue_inv q"
  shows "queue_inv (fst (queue_step c q)) \<and> desk_step c (desk_of q) = map_prod desk_of id (queue_step c q)"
proof -
  have h: "heap_ok (rq_heap q)" "distinct (map hi_seq (rq_heap q))" "\<forall>x \<in> set (rq_heap q). hi_seq x < rq_seq q"
    "rq_running q \<longleftrightarrow> rq_current q \<noteq> None" "\<not> rq_running q \<Longrightarrow> rq_heap q = [] \<and> rq_drainResolvers q = []"
    using assms by (auto simp: queue_inv_def)
  have s: "sd_tickets (desk_of q) = rq_seq q" "sd_closed (desk_of q) = rq_closed q" "sd_serving (desk_of q) = rq_current q"
    by (simp_all add: desk_of_def)
  show ?thesis
  proof (cases c)
    case (Enqueue p j)
    note f = added_facts [OF h(1-3), of p j]
    have d: "serve_next (desk_of (added p j q)) = map_prod desk_of id (drain_turn (added p j q\<lparr>rq_running := True\<rparr>))"
      using drain_turn_desk [OF f(1)] by simp
    consider "rq_closed q" | "\<not> rq_closed q" "rq_running q" | "\<not> rq_closed q" "\<not> rq_running q" by blast
    then show ?thesis
    proof cases
      case 1 with assms show ?thesis by (simp add: Enqueue enqueue_cases s)
    next
      case 2 with f assms h(4) show ?thesis by (auto simp: Enqueue enqueue_cases s Let_def)
    next
      case 3 with f h(4) show ?thesis
        by (simp add: Enqueue enqueue_cases s Let_def drain_turn_inv [OF f(1)] d [symmetric])
    qed
  next
    case (Finish v)
    show ?thesis
    proof (cases "rq_current q")
      case None
      with Finish assms show ?thesis by (simp add: finish_def desk_of_def)
    next
      case (Some x)
      then have r: "turn_ready q" using h by (simp add: turn_ready_def)
      have "sd_serving (desk_of q) = Some x" using Some by (simp add: desk_of_def)
      with Finish Some show ?thesis
        by (simp add: finish_Some drain_turn_inv [OF r] drain_turn_desk [OF r] split_beta map_prod_def)
    qed
  next
    case (Drain w)
    with assms h show ?thesis by (auto simp: drain_def desk_of_def queue_inv_def)
  next
    case (Shutdown w)
    with assms h show ?thesis by (auto simp: shutdown_def drain_def desk_of_def queue_inv_def)
  qed
qed

lemma queue_run_refines:
  "queue_inv q \<Longrightarrow> queue_inv (fst (queue_run cs q)) \<and> desk_run cs (desk_of q) = map_prod desk_of id (queue_run cs q)"
proof (induction cs arbitrary: q)
  case (Cons c cs)
  obtain q' evs where s: "queue_step c q = (q', evs)" by (cases "queue_step c q")
  with queue_step_refines [OF Cons.prems, of c] have "queue_inv q'" "desk_step c (desk_of q) = (desk_of q', evs)" by simp_all
  with Cons.IH [of q'] show ?case by (auto simp: s split: prod.splits)
qed simp

lemma queue_new_inv: "queue_inv queue_new"
  by (simp add: queue_inv_def queue_new_def heap_ok_def)

text \<open>
  C3: The array heap implements the service desk. Whatever calls are made, in whatever order the
  awaited promises settle, the queue starts, resolves and rejects exactly what a desk does that
  keeps one first-come-first-served line per priority and serves the first line that is not empty,
  and it ends in the state the abstraction function gives.
\<close>

theorem queue_refines_desk: "desk_run cs desk_new = map_prod desk_of id (queue_run cs queue_new)"
  using queue_run_refines [OF queue_new_inv, of cs] by (simp add: desk_new_of)

section \<open>Every accepted request is settled once\<close>

fun settled :: "('j, 'v, 'e) queue_event list \<Rightarrow> nat list" where
  "settled [] = []"
| "settled (Resolved x v # evs) = hi_seq x # settled evs"
| "settled (Rejected x e # evs) = hi_seq x # settled evs"
| "settled (_ # evs) = settled evs"

definition outstanding :: "'j request_queue \<Rightarrow> nat list" where
  "outstanding q = (case rq_current q of None \<Rightarrow> [] | Some x \<Rightarrow> [hi_seq x]) @ map hi_seq (rq_heap q)"

lemma settled_append [simp]: "settled (xs @ ys) = settled xs @ settled ys"
  by (induction xs rule: settled.induct) simp_all

lemma settled_drains [simp]: "settled (map DrainResolved ws) = []"
  by (induction ws) simp_all

lemma drain_turn_outstanding:
  assumes "heap_ok (rq_heap q)"
  shows "mset (outstanding (fst (drain_turn q))) = mset (map hi_seq (rq_heap q)) \<and> settled (snd (drain_turn q)) = [] \<and>
    rq_seq (fst (drain_turn q)) = rq_seq q"
proof (cases "extract_min (rq_heap q)")
  case None
  then show ?thesis by (simp add: drain_turn_def outstanding_def extract_min_None)
next
  case (Some xr)
  obtain x r where "xr = (x, r)" by (cases xr)
  with Some extract_min_ok(2) [OF assms, of x r] show ?thesis by (simp add: drain_turn_def outstanding_def)
qed

text \<open>The sequence numbers issued so far.\<close>

primrec tickets :: "nat \<Rightarrow> nat multiset" where
  "tickets 0 = {#}"
| "tickets (Suc n) = add_mset n (tickets n)"

lemma tickets_upt: "tickets n = mset [0..<n]"
  by (induction n) simp_all

lemma queue_step_accounts:
  assumes "queue_inv q"
  shows "mset (settled (snd (queue_step c q))) + mset (outstanding (fst (queue_step c q))) + tickets (rq_seq q) =
    mset (outstanding q) + tickets (rq_seq (fst (queue_step c q)))"
proof -
  have h: "heap_ok (rq_heap q)" "rq_running q \<longleftrightarrow> rq_current q \<noteq> None" using assms by (auto simp: queue_inv_def)
  show ?thesis
  proof (cases c)
    case (Enqueue p j)
    let ?x = "\<lparr>hi_priority = p, hi_seq = rq_seq q, hi_job = j\<rparr>"
    have i: "heap_ok (rq_heap (added p j q))" "mset (map hi_seq (rq_heap (added p j q))) = add_mset (rq_seq q) (mset (map hi_seq (rq_heap q)))"
      "rq_seq (added p j q) = Suc (rq_seq q)" "rq_current (added p j q) = rq_current q"
      using heap_insert_ok [OF h(1), of ?x] by (simp_all add: added_def)
    consider "rq_closed q" | "\<not> rq_closed q" "rq_running q" | "\<not> rq_closed q" "\<not> rq_running q" by blast
    then show ?thesis
    proof cases
      case 1 then show ?thesis by (simp add: Enqueue enqueue_cases)
    next
      case 2 with i show ?thesis by (simp add: Enqueue enqueue_cases outstanding_def)
    next
      case 3
      with h(2) have "mset (outstanding q) = mset (map hi_seq (rq_heap q))" by (simp add: outstanding_def)
      with 3 i show ?thesis by (simp add: Enqueue enqueue_cases drain_turn_outstanding)
    qed
  next
    case (Finish v)
    show ?thesis
    proof (cases "rq_current q")
      case None then show ?thesis by (simp add: Finish finish_def)
    next
      case (Some x)
      then have "mset (outstanding q) = add_mset (hi_seq x) (mset (map hi_seq (rq_heap q)))" by (simp add: outstanding_def)
      with h(1) Some show ?thesis by (cases v) (simp_all add: Finish finish_Some drain_turn_outstanding)
    qed
  qed (auto simp: drain_def shutdown_def outstanding_def)
qed

lemma accounts_trans:
  fixes a :: "'a multiset"
  assumes "a + b + c = d + e" "a' + f + e = b + g"
  shows "a + a' + f + c = d + g"
proof -
  have "a + a' + f + c + e = a + c + (a' + f + e)" by (simp add: ac_simps)
  also have "\<dots> = g + (a + b + c)" unfolding assms(2) by (simp add: ac_simps)
  also have "\<dots> = d + g + e" unfolding assms(1) by (simp add: ac_simps)
  finally show ?thesis by simp
qed

lemma queue_run_accounts:
  "queue_inv q \<Longrightarrow> mset (settled (snd (queue_run cs q))) + mset (outstanding (fst (queue_run cs q))) + tickets (rq_seq q) =
    mset (outstanding q) + tickets (rq_seq (fst (queue_run cs q)))"
proof (induction cs arbitrary: q)
  case (Cons c cs)
  obtain q' evs where s: "queue_step c q = (q', evs)" by (cases "queue_step c q")
  with queue_step_refines [OF Cons.prems, of c] have "queue_inv q'" by simp
  note IH = Cons.IH [OF this]
  have st: "mset (settled evs) + mset (outstanding q') + tickets (rq_seq q) = mset (outstanding q) + tickets (rq_seq q')"
    using queue_step_accounts [OF Cons.prems, of c] s by simp
  show ?case using accounts_trans [OF st IH] s by (simp add: split_beta)
qed simp


text \<open>Who waits for the queue to drain, and who has been told.\<close>

fun drain_events :: "('j, 'v, 'e) queue_event list \<Rightarrow> nat list" where
  "drain_events [] = []"
| "drain_events (DrainResolved w # evs) = w # drain_events evs"
| "drain_events (_ # evs) = drain_events evs"

fun drain_calls :: "('j, 'v, 'e) queue_call list \<Rightarrow> nat list" where
  "drain_calls [] = []"
| "drain_calls (Drain w # cs) = w # drain_calls cs"
| "drain_calls (Shutdown w # cs) = w # drain_calls cs"
| "drain_calls (_ # cs) = drain_calls cs"

lemma drain_events_append [simp]: "drain_events (xs @ ys) = drain_events xs @ drain_events ys"
  by (induction xs rule: drain_events.induct) simp_all

lemma drain_events_map [simp]: "drain_events (map DrainResolved ws) = ws"
  by (induction ws) simp_all

lemma drain_calls_append: "drain_calls (xs @ ys) = drain_calls xs @ drain_calls ys"
  by (induction xs rule: drain_calls.induct) simp_all

lemma drain_calls_finishes [simp]: "drain_calls (map Finish rs) = []"
  by (induction rs) simp_all

lemma drain_turn_drains:
  "mset (drain_events (snd (drain_turn q))) + mset (rq_drainResolvers (fst (drain_turn q))) = mset (rq_drainResolvers q)"
  by (simp add: drain_turn_def split: option.split prod.split)

lemma drain_turn_drains_eq:
  "drain_turn q = (q', evs) \<Longrightarrow> mset (drain_events evs) + mset (rq_drainResolvers q') = mset (rq_drainResolvers q)"
  using drain_turn_drains [of q] by (metis fst_conv snd_conv)

lemma queue_step_drains:
  "mset (drain_events (snd (queue_step c q))) + mset (rq_drainResolvers (fst (queue_step c q))) =
    mset (drain_calls [c]) + mset (rq_drainResolvers q)"
proof (cases c)
  case (Enqueue p j)
  show ?thesis by (simp add: Enqueue enqueue_def Let_def drain_turn_drains)
next
  case (Finish r)
  then show ?thesis by (auto simp: finish_def split: option.split prod.split sum.split dest: drain_turn_drains_eq)
qed (simp_all add: drain_def shutdown_def)

lemma drains_trans:
  fixes a :: "'a multiset"
  assumes "a + b = c + d" "a' + f = e + b" shows "a + a' + f = c + e + d"
proof -
  have "a + a' + f = a + b + e" unfolding add.assoc assms(2) by (simp add: ac_simps)
  then show ?thesis unfolding assms(1) by (simp add: ac_simps)
qed

lemma queue_run_drains:
  "mset (drain_events (snd (queue_run cs q))) + mset (rq_drainResolvers (fst (queue_run cs q))) =
    mset (drain_calls cs) + mset (rq_drainResolvers q)"
proof (induction cs arbitrary: q)
  case (Cons c cs)
  obtain q' evs where s: "queue_step c q = (q', evs)" by (cases "queue_step c q")
  have st: "mset (drain_events evs) + mset (rq_drainResolvers q') = mset (drain_calls [c]) + mset (rq_drainResolvers q)"
    using queue_step_drains [of c q] s by simp
  have "mset (drain_calls (c # cs)) = mset (drain_calls [c]) + mset (drain_calls cs)"
    using drain_calls_append [of "[c]" cs] by simp
  with drains_trans [OF st Cons.IH] s show ?case by (simp add: split_beta)
qed simp

text \<open>While promises keep settling, each settles one request and starts the next.\<close>

lemma finish_shrinks:
  assumes "queue_inv q" "outstanding q \<noteq> []"
  shows "length (outstanding (fst (finish r q))) = length (outstanding q) - 1"
    "rq_seq (fst (finish r q)) = rq_seq q" "rq_closed (fst (finish r q)) = rq_closed q"
proof -
  have h: "heap_ok (rq_heap q)" using assms by (simp add: queue_inv_def)
  from assms obtain x where x: "rq_current q = Some x"
    by (auto simp: queue_inv_def outstanding_def split: option.splits)
  have "size (mset (outstanding (fst (drain_turn q)))) = length (rq_heap q)" using h by (simp add: drain_turn_outstanding)
  with x show "length (outstanding (fst (finish r q))) = length (outstanding q) - 1"
    by (simp add: finish_Some outstanding_def)
  show "rq_seq (fst (finish r q)) = rq_seq q" using x h by (simp add: finish_Some drain_turn_outstanding)
  show "rq_closed (fst (finish r q)) = rq_closed q"
    using x by (simp add: finish_Some drain_turn_def split: option.split prod.split)
qed

lemma finishes_empty:
  "queue_inv q \<Longrightarrow> length rs = length (outstanding q) \<Longrightarrow>
    outstanding (fst (queue_run (map Finish rs) q)) = [] \<and> rq_seq (fst (queue_run (map Finish rs) q)) = rq_seq q"
proof (induction rs arbitrary: q)
  case (Cons r rs)
  obtain q' evs where s: "finish r q = (q', evs)" by (cases "finish r q")
  have "outstanding q \<noteq> []" using Cons.prems by auto
  from finish_shrinks [OF Cons.prems(1) this, of r] s have "length (outstanding q') = length (outstanding q) - 1" "rq_seq q' = rq_seq q"
    by simp_all
  moreover have "queue_inv q'" using queue_step_refines [OF Cons.prems(1), of "Finish r"] s by simp
  ultimately show ?case using Cons.IH [of q'] Cons.prems(2) s by (simp add: split_beta)
qed (simp add: )

text \<open>
  C22: Whatever calls came before, once the promises of the requests that are still outstanding have
  settled, the queue is idle and empty, and every request that was ever accepted has been resolved
  or rejected exactly once. None is lost, none is served twice. Likewise the promise of every
  \<open>drain\<close> and \<open>shutdown\<close> call has been resolved exactly once, and nobody waits any more.
\<close>

theorem queue_settles_each_request_once:
  assumes "queue_run cs queue_new = (q, evs)" "length rs = length (outstanding q)" "queue_run (map Finish rs) q = (q', evs')"
  shows "\<not> rq_running q' \<and> rq_heap q' = [] \<and> rq_drainResolvers q' = [] \<and> mset (settled (evs @ evs')) = mset [0..<rq_seq q] \<and>
    mset (drain_events (evs @ evs')) = mset (drain_calls cs)"
proof -
  have q: "queue_inv q" using queue_run_refines [OF queue_new_inv, of cs] assms(1) by simp
  have e: "outstanding q' = []" "rq_seq q' = rq_seq q" using finishes_empty [OF q assms(2)] assms(3) by simp_all
  have "queue_inv q'" using queue_run_refines [OF q, of "map Finish rs"] assms(3) by simp
  moreover have "rq_current q' = None" "rq_heap q' = []" using e by (auto simp: outstanding_def split: option.splits)
  ultimately have idle: "\<not> rq_running q'" "rq_heap q' = []" "rq_drainResolvers q' = []" by (simp_all add: queue_inv_def)
  have "mset (settled evs) + mset (outstanding q) = tickets (rq_seq q)"
    using queue_run_accounts [OF queue_new_inv, of cs] assms(1) by (simp add: queue_new_def outstanding_def)
  moreover have "mset (settled evs') = mset (outstanding q)"
    using queue_run_accounts [OF q, of "map Finish rs"] assms(3) e by simp
  moreover have "mset (drain_events evs) + mset (rq_drainResolvers q) = mset (drain_calls cs)"
    using queue_run_drains [of cs queue_new] assms(1) by (simp add: queue_new_def)
  moreover have "mset (drain_events evs') = mset (rq_drainResolvers q)"
    using queue_run_drains [of "map Finish rs" q] assms(3) idle(3) by simp
  ultimately show ?thesis using idle by (simp add: tickets_upt)
qed

definition sample_calls :: "(string, nat, string) queue_call list" where
  "sample_calls = [Enqueue Low ''a'', Enqueue Low ''b'', Enqueue High ''c'', Drain 7, Finish (Inr 1), Shutdown 8, Enqueue High ''d'']"

theorem queue_settles_each_request_once_witness:
  "case queue_run sample_calls queue_new of (q, evs) \<Rightarrow>
     (case queue_run (map Finish [Inl ''boom'', Inr 2]) q of (q', evs') \<Rightarrow>
        \<not> rq_running q' \<and> mset (settled (evs @ evs')) = mset [0..<3] \<and> mset (drain_events (evs @ evs')) = {#7, 8#})"
proof -
  obtain q evs where r: "queue_run sample_calls queue_new = (q, evs)" by (cases "queue_run sample_calls queue_new")
  obtain q' evs' where r': "queue_run (map Finish [Inl ''boom'', Inr (2::nat)]) q = (q', evs')" by fastforce
  have "length (outstanding (fst (queue_run sample_calls queue_new))) = 2 \<and> rq_seq (fst (queue_run sample_calls queue_new)) = 3" by code_simp
  then have "length [Inl ''boom'', Inr (2::nat)] = length (outstanding q)" "rq_seq q = 3" by (simp_all add: r)
  moreover have "drain_calls sample_calls = [7, 8]" by code_simp
  ultimately show ?thesis
    using queue_settles_each_request_once [OF r _ r'] unfolding r prod.case r' by (simp add: add_mset_commute)
qed

end
