(* ===== verification/Lane_Queue.thy ===== *)
theory Lane_Queue
  imports Request_Queue
begin

text \<open>
  \<open>requestQueue.ts\<close>, a queue of three lanes with a limit on the requests that run at once, and
  \<open>operationQueue.ts\<close>, which buffers operations while the network is down. The lanes are a third
  provider of the contract \<open>service_order\<close>. A request or operation is named by its number, and so is its
  promise. When the function of a request ends the promise is settled, and a little later the
  \<open>finally\<close> block runs: two steps. \<open>rude\<close> tells the requests whose function throws instead of
  returning a promise.
\<close>

section \<open>The lanes of requestQueue.ts\<close>

datatype lane = LaneHigh | LaneNormal | LaneLow

record lane_request =
  lr_id :: nat
  lr_lane :: lane

type_synonym lanes = "lane \<Rightarrow> lane_request list"

record lane_queue =
  lq_maxConcurrent :: nat
  lq_activeCount :: nat
  lq_lanes :: lanes
  lq_completed :: "lane \<Rightarrow> nat"
  lq_failed :: "lane \<Rightarrow> nat"
  lq_seq :: nat
  lq_running :: "lane_request list"
  lq_ending :: "lane_request list"
  lq_settled :: "(nat \<times> bool) list"
  lq_lost :: "lane_request list"

definition lane_queue_new :: "nat option \<Rightarrow> lane_queue" where
  "lane_queue_new limit =
     \<lparr>lq_maxConcurrent = (case limit of None \<Rightarrow> 5 | Some n \<Rightarrow> n), lq_activeCount = 0, lq_lanes = (\<lambda>l. []),
      lq_completed = (\<lambda>l. 0), lq_failed = (\<lambda>l. 0), lq_seq = 0, lq_running = [], lq_ending = [],
      lq_settled = [], lq_lost = []\<rparr>"

definition push_lane :: "lane_request \<Rightarrow> lanes \<Rightarrow> lanes" where
  "push_lane r ls = ls(lr_lane r := ls (lr_lane r) @ [r])"

text \<open>\<open>_dequeueNextRequest\<close>\<close>

definition dequeueNextRequest :: "lanes \<Rightarrow> (lane_request \<times> lanes) option" where
  "dequeueNextRequest ls =
     (case List.find (\<lambda>l. ls l \<noteq> []) [LaneHigh, LaneNormal, LaneLow] of
        None \<Rightarrow> None
      | Some l \<Rightarrow> Some (hd (ls l), ls(l := tl (ls l))))"

definition tryProcess :: "(nat \<Rightarrow> bool) \<Rightarrow> lane_queue \<Rightarrow> lane_queue" where
  "tryProcess rude q =
     (if lq_activeCount q \<ge> lq_maxConcurrent q then q
      else case dequeueNextRequest (lq_lanes q) of
        None \<Rightarrow> q
      | Some (r, ls) \<Rightarrow>
          let q1 = q\<lparr>lq_lanes := ls, lq_activeCount := lq_activeCount q + 1\<rparr>
          in if rude (lr_id r) then q1\<lparr>lq_lost := lq_lost q @ [r]\<rparr>
             else q1\<lparr>lq_running := lq_running q @ [r]\<rparr>)"

definition enqueue_lane :: "(nat \<Rightarrow> bool) \<Rightarrow> lane \<Rightarrow> lane_queue \<Rightarrow> lane_queue" where
  "enqueue_lane rude l q =
     tryProcess rude
       (q\<lparr>lq_seq := lq_seq q + 1, lq_lanes := push_lane \<lparr>lr_id = lq_seq q, lr_lane = l\<rparr> (lq_lanes q)\<rparr>)"

text \<open>The function of the \<open>n\<close>-th running request ends, well or not; then its \<open>finally\<close> block runs.\<close>

definition request_ends :: "nat \<Rightarrow> bool \<Rightarrow> lane_queue \<Rightarrow> lane_queue" where
  "request_ends n ok q =
     (if n < length (lq_running q)
      then let r = lq_running q ! n; l = lr_lane r
           in q\<lparr>lq_running := take n (lq_running q) @ drop (n + 1) (lq_running q), lq_ending := lq_ending q @ [r],
                lq_completed := (if ok then (lq_completed q)(l := lq_completed q l + 1) else lq_completed q),
                lq_failed := (if ok then lq_failed q else (lq_failed q)(l := lq_failed q l + 1)),
                lq_settled := lq_settled q @ [(lr_id r, ok)]\<rparr>
      else q)"

definition request_finally :: "(nat \<Rightarrow> bool) \<Rightarrow> lane_queue \<Rightarrow> lane_queue" where
  "request_finally rude q =
     (if lq_ending q = [] then q
      else tryProcess rude (q\<lparr>lq_ending := tl (lq_ending q), lq_activeCount := lq_activeCount q - 1\<rparr>))"

text \<open>\<open>stats\<close> per lane: pending, active, completed, failed; \<open>active\<close> is the count of the whole queue.\<close>

definition lane_stats :: "lane_queue \<Rightarrow> lane \<Rightarrow> nat \<times> nat \<times> nat \<times> nat" where
  "lane_stats q l = (length (lq_lanes q l), lq_activeCount q, lq_completed q l, lq_failed q l)"

definition hasPendingRequests :: "lane_queue \<Rightarrow> bool" where
  "hasPendingRequests q \<longleftrightarrow> list_ex (\<lambda>l. lq_lanes q l \<noteq> []) [LaneHigh, LaneNormal, LaneLow]"

text \<open>What \<open>drain\<close> polls for.\<close>

definition drained :: "lane_queue \<Rightarrow> bool" where
  "drained q \<longleftrightarrow> \<not> (0 < lq_activeCount q \<or> hasPendingRequests q)"

datatype lane_call = EnqueueLane lane | RequestEnds nat bool | RequestFinally

fun lane_step :: "(nat \<Rightarrow> bool) \<Rightarrow> lane_queue \<Rightarrow> lane_call \<Rightarrow> lane_queue" where
  "lane_step rude q (EnqueueLane l) = enqueue_lane rude l q"
| "lane_step rude q (RequestEnds n ok) = request_ends n ok q"
| "lane_step rude q RequestFinally = request_finally rude q"

section \<open>The lanes serve in order\<close>

primrec lane_rank :: "lane \<Rightarrow> nat" where
  "lane_rank LaneHigh = 0"
| "lane_rank LaneNormal = 1"
| "lane_rank LaneLow = 2"

definition lane_items :: "lanes \<Rightarrow> lane_request list" where
  "lane_items ls = ls LaneHigh @ ls LaneNormal @ ls LaneLow"

definition lanes_ok :: "lanes \<Rightarrow> bool" where
  "lanes_ok ls \<longleftrightarrow> (\<forall>l. \<forall>r \<in> set (ls l). lr_lane r = l)"

lemma lanes_okD: "lanes_ok ls \<Longrightarrow> r \<in> set (ls l) \<Longrightarrow> lr_lane r = l"
  unfolding lanes_ok_def by blast

lemma dequeue_cases:
  obtains (none) "dequeueNextRequest ls = None" "lane_items ls = []"
  | (high) r rs where "ls LaneHigh = r # rs" "dequeueNextRequest ls = Some (r, ls(LaneHigh := rs))"
  | (normal) r rs where "ls LaneHigh = []" "ls LaneNormal = r # rs" "dequeueNextRequest ls = Some (r, ls(LaneNormal := rs))"
  | (low) r rs where "ls LaneHigh = []" "ls LaneNormal = []" "ls LaneLow = r # rs"
      "dequeueNextRequest ls = Some (r, ls(LaneLow := rs))"
  by (cases "ls LaneHigh"; cases "ls LaneNormal"; cases "ls LaneLow")
    (simp_all add: dequeueNextRequest_def lane_items_def)

lemma lane_items_iff:
  "y \<in> set (lane_items ls) \<longleftrightarrow> y \<in> set (ls LaneHigh) \<or> y \<in> set (ls LaneNormal) \<or> y \<in> set (ls LaneLow)"
  by (auto simp: lane_items_def)

lemma lanes_ok_update: "lanes_ok ls \<Longrightarrow> ls l = r # rs \<Longrightarrow> lanes_ok (ls(l := rs))"
  unfolding lanes_ok_def by (metis fun_upd_apply list.set_intros(2))

lemma lanes_rank:
  assumes "lanes_ok ls" "x \<in> set (ls l)" "y \<in> set (ls l')" "lane_rank l \<le> lane_rank l'"
  shows "lane_rank (lr_lane x) \<le> lane_rank (lr_lane y)"
  using assms lanes_okD by metis

interpretation lane_line: service_order lanes_ok lane_items "\<lambda>r. lane_rank (lr_lane r)" push_lane dequeueNextRequest
proof (unfold_locales, goal_cases)
  case (1 q x)
  then show ?case by (auto simp: lanes_ok_def push_lane_def)
next
  case (2 q x)
  then show ?case by (cases "lr_lane x") (auto simp: lane_items_def push_lane_def)
next
  case (3 q)
  then show ?case by (cases q rule: dequeue_cases) (auto simp: lane_items_def)
next
  case (4 q x r)
  then show ?case by (cases q rule: dequeue_cases) (auto simp: lanes_ok_update)
next
  case (5 q x r)
  then show ?case by (cases q rule: dequeue_cases) (auto simp: lane_items_def)
next
  case (6 q x r y)
  have y: "y \<in> set (q LaneHigh) \<or> y \<in> set (q LaneNormal) \<or> y \<in> set (q LaneLow)" using 6(3) by (simp add: lane_items_iff)
  show ?case
  proof (cases q rule: dequeue_cases)
    case (high a rs)
    with 6 y show ?thesis using lanes_rank [OF 6(1), of x LaneHigh y] by fastforce
  next
    case (normal a rs)
    with 6 y show ?thesis using lanes_rank [OF 6(1), of x LaneNormal y] by fastforce
  next
    case (low a rs)
    with 6 y show ?thesis using lanes_rank [OF 6(1), of x LaneLow y] by fastforce
  qed (use 6 in simp)
qed

section \<open>Invariants\<close>

text \<open>The lanes hold their own requests, oldest first.\<close>

definition lane_sorted :: "lane_queue \<Rightarrow> bool" where
  "lane_sorted q \<longleftrightarrow> lanes_ok (lq_lanes q) \<and> (\<forall>l. sorted_wrt (<) (map lr_id (lq_lanes q l)))
     \<and> (\<forall>r \<in> set (lane_items (lq_lanes q)). lr_id r < lq_seq q)"

definition lane_accounted :: "lane_queue \<Rightarrow> bool" where
  "lane_accounted q \<longleftrightarrow>
     mset (map lr_id (lane_items (lq_lanes q))) + mset (map lr_id (lq_running q)) + mset (map fst (lq_settled q))
       = mset [0..<lq_seq q]"

text \<open>With polite functions: the counter counts, stays below the limit, and no slot is free while a request waits.\<close>

definition lane_inv :: "lane_queue \<Rightarrow> bool" where
  "lane_inv q \<longleftrightarrow> lane_sorted q \<and> lane_accounted q
     \<and> lq_activeCount q = length (lq_running q) + length (lq_ending q)
     \<and> lq_activeCount q \<le> lq_maxConcurrent q
     \<and> (lane_items (lq_lanes q) \<noteq> [] \<longrightarrow> lq_activeCount q = lq_maxConcurrent q)"

abbreviation polite :: "nat \<Rightarrow> bool" where
  "polite \<equiv> \<lambda>_. False"

lemma lane_sorted_take:
  assumes "lane_sorted q" "dequeueNextRequest (lq_lanes q) = Some (r, ls)"
  shows "lane_sorted (q\<lparr>lq_lanes := ls\<rparr>)"
proof -
  have ok: "lanes_ok (lq_lanes q)" using assms(1) by (simp add: lane_sorted_def)
  obtain l rs where l: "lq_lanes q l = r # rs" "ls = (lq_lanes q)(l := rs)"
    using assms(2) by (cases "lq_lanes q" rule: dequeue_cases) auto
  have "sorted_wrt (<) (map lr_id (lq_lanes q l))" using assms(1) by (simp add: lane_sorted_def)
  then have "sorted_wrt (<) (map lr_id rs)" by (simp add: l(1))
  moreover have "set (lane_items ls) \<subseteq> set (lane_items (lq_lanes q))"
    using l by (cases l) (auto simp: lane_items_def)
  ultimately show ?thesis
    using assms(1) lanes_ok_update [OF ok l(1)] by (auto simp: lane_sorted_def l(2))
qed

text \<open>An attempt to start a request restores that no slot is free while one waits.\<close>

lemma tryProcess_inv:
  assumes "lane_sorted q" "lane_accounted q" "lq_activeCount q = length (lq_running q) + length (lq_ending q)"
    and "lq_activeCount q \<le> lq_maxConcurrent q"
    and "length (lane_items (lq_lanes q)) \<le> 1 \<or> lq_maxConcurrent q \<le> lq_activeCount q + 1"
  shows "lane_inv (tryProcess polite q)"
proof (cases "lq_activeCount q \<ge> lq_maxConcurrent q")
  case True
  with assms show ?thesis by (simp add: tryProcess_def lane_inv_def)
next
  case False
  have ok: "lanes_ok (lq_lanes q)" using assms(1) by (simp add: lane_sorted_def)
  show ?thesis
  proof (cases "dequeueNextRequest (lq_lanes q)")
    case None
    then have "lane_items (lq_lanes q) = []" using lane_line.take_none by blast
    with None assms False show ?thesis by (simp add: tryProcess_def lane_inv_def)
  next
    case (Some x)
    then obtain r ls where x: "dequeueNextRequest (lq_lanes q) = Some (r, ls)" by (cases x) auto
    let ?q = "tryProcess polite q"
    have q: "?q = q\<lparr>lq_lanes := ls, lq_activeCount := lq_activeCount q + 1, lq_running := lq_running q @ [r]\<rparr>"
      using False x by (simp add: tryProcess_def)
    note t = lane_line.take_items [OF ok x]
    have "mset (map lr_id (lane_items (lq_lanes q))) = add_mset (lr_id r) (mset (map lr_id (lane_items ls)))"
      using t by simp
    then have "lane_accounted ?q" using assms(2) by (simp add: lane_accounted_def q)
    moreover have "lane_sorted ?q" using lane_sorted_take [OF assms(1) x] by (simp add: lane_sorted_def q)
    moreover have "length (lane_items (lq_lanes q)) = Suc (length (lane_items ls))"
      using t by (metis size_add_mset size_mset)
    ultimately show ?thesis using assms(3-5) False by (auto simp: lane_inv_def q)
  qed
qed

lemma enqueue_lane_inv:
  assumes "lane_inv q" shows "lane_inv (enqueue_lane polite l q)"
proof -
  let ?r = "\<lparr>lr_id = lq_seq q, lr_lane = l\<rparr>"
  let ?q = "q\<lparr>lq_seq := lq_seq q + 1, lq_lanes := push_lane ?r (lq_lanes q)\<rparr>"
  have s: "lane_sorted q" "lane_accounted q" and ok: "lanes_ok (lq_lanes q)" using assms by (auto simp: lane_inv_def lane_sorted_def)
  note p = lane_line.put_ok [OF ok, of ?r] lane_line.put_items [OF ok, of ?r]
  have old: "lr_id x < lq_seq q" if "x \<in> set (lq_lanes q k)" for x k
    using s(1) that by (cases k) (auto simp: lane_sorted_def lane_items_iff)
  have "sorted_wrt (<) (map lr_id (push_lane ?r (lq_lanes q) k))" for k
    using s(1) old [of _ k] by (auto simp: lane_sorted_def push_lane_def sorted_wrt_append)
  moreover have "lr_id x < lq_seq q + 1" if "x \<in> set (lane_items (push_lane ?r (lq_lanes q)))" for x
  proof -
    from that p(2) have "x = ?r \<or> x \<in> set (lane_items (lq_lanes q))" by (metis insert_iff set_mset_add_mset_insert set_mset_mset)
    with s(1) show ?thesis by (auto simp: lane_sorted_def)
  qed
  ultimately have "lane_sorted ?q" using p(1) by (simp add: lane_sorted_def)
  moreover have "mset (map lr_id (lane_items (push_lane ?r (lq_lanes q)))) = add_mset (lq_seq q) (mset (map lr_id (lane_items (lq_lanes q))))"
    using p(2) by simp
  then have "lane_accounted ?q" using s(2) by (simp add: lane_accounted_def)
  moreover have "length (lane_items (push_lane ?r (lq_lanes q))) = Suc (length (lane_items (lq_lanes q)))"
    using p(2) by (metis size_add_mset size_mset)
  ultimately show ?thesis
    unfolding enqueue_lane_def by (intro tryProcess_inv) (use assms in \<open>auto simp: lane_inv_def\<close>)
qed

lemma request_ends_inv:
  assumes "lane_inv q" shows "lane_inv (request_ends n ok q)"
proof (cases "n < length (lq_running q)")
  case True
  define r where "r = lq_running q ! n"
  define rest where "rest = take n (lq_running q) @ drop (n + 1) (lq_running q)"
  have "lq_running q = take n (lq_running q) @ r # drop (n + 1) (lq_running q)"
    using True by (simp add: r_def Cons_nth_drop_Suc)
  then have m: "mset (lq_running q) = add_mset r (mset rest)"
    by (metis rest_def mset_append mset.simps(2) union_mset_add_mset_right)
  then have "mset (map lr_id (lq_running q)) = add_mset (lr_id r) (mset (map lr_id rest))" by simp
  moreover have "length (lq_running q) = Suc (length rest)" using m by (metis size_add_mset size_mset)
  moreover obtain done_map fail_map where "request_ends n ok q =
      q\<lparr>lq_running := rest, lq_ending := lq_ending q @ [r], lq_completed := done_map, lq_failed := fail_map,
        lq_settled := lq_settled q @ [(lr_id r, ok)]\<rparr>"
    using True by (simp add: request_ends_def Let_def r_def rest_def)
  ultimately show ?thesis
    using assms by (auto simp: lane_inv_def lane_accounted_def lane_sorted_def)
next
  case False
  with assms show ?thesis by (simp add: request_ends_def)
qed

lemma request_finally_inv:
  assumes "lane_inv q" shows "lane_inv (request_finally polite q)"
proof (cases "lq_ending q")
  case (Cons r rs)
  let ?q = "q\<lparr>lq_ending := rs, lq_activeCount := lq_activeCount q - 1\<rparr>"
  have "lane_inv (tryProcess polite ?q)"
    using assms Cons by (intro tryProcess_inv) (auto simp: lane_inv_def lane_sorted_def lane_accounted_def)
  with Cons show ?thesis by (simp add: request_finally_def)
qed (use assms in \<open>simp add: request_finally_def\<close>)

lemma lane_step_inv: "lane_inv q \<Longrightarrow> lane_inv (lane_step polite q c)"
  by (cases c) (simp_all add: enqueue_lane_inv request_ends_inv request_finally_inv)

interpretation lane_runs: machine "lane_step polite" lane_inv
  by unfold_locales (rule lane_step_inv)

lemma lane_inv_new: "lane_inv (lane_queue_new limit)"
  by (simp add: lane_inv_def lane_queue_new_def lane_sorted_def lane_accounted_def lanes_ok_def lane_items_def)

section \<open>The buffer of operationQueue.ts\<close>

record buffered_op =
  bo_id :: nat
  bo_priority :: nat

text \<open>
  \<open>oq_drains\<close>: what each drain waits for; \<open>oq_direct\<close>: operations run at once because the queue was online;
  \<open>oq_started\<close>: the executors called, in order. \<open>oq_checks\<close> counts the health checks in flight.
\<close>

record operation_queue =
  oq_queue :: "buffered_op list"
  oq_online :: bool
  oq_timer :: bool
  oq_seq :: nat
  oq_checks :: nat
  oq_drains :: "nat option list"
  oq_direct :: "nat list"
  oq_started :: "nat list"
  oq_settled :: "(nat \<times> bool) list"

definition operation_queue_new :: operation_queue where
  "operation_queue_new = \<lparr>oq_queue = [], oq_online = True, oq_timer = False, oq_seq = 0, oq_checks = 0,
     oq_drains = [], oq_direct = [], oq_started = [], oq_settled = []\<rparr>"

definition enqueue_op :: "nat \<Rightarrow> operation_queue \<Rightarrow> operation_queue" where
  "enqueue_op priority q =
     (let n = oq_seq q; q1 = q\<lparr>oq_seq := n + 1\<rparr>
      in if oq_online q then q1\<lparr>oq_direct := oq_direct q @ [n], oq_started := oq_started q @ [n]\<rparr>
         else q1\<lparr>oq_queue := oq_queue q @ [\<lparr>bo_id = n, bo_priority = priority\<rparr>]\<rparr>)"

definition op_cmp :: "buffered_op \<Rightarrow> buffered_op \<Rightarrow> rat" where
  "op_cmp a b = of_nat (bo_priority b) - of_nat (bo_priority a)"

text \<open>The head of the loop of drain \<open>k\<close>, and the loop's start after sorting.\<close>

definition drain_head :: "nat \<Rightarrow> operation_queue \<Rightarrow> operation_queue" where
  "drain_head k q =
     (case oq_queue q of
        [] \<Rightarrow> q\<lparr>oq_drains := (oq_drains q)[k := None]\<rparr>
      | op # ops \<Rightarrow> q\<lparr>oq_queue := ops, oq_drains := (oq_drains q)[k := Some (bo_id op)], oq_started := oq_started q @ [bo_id op]\<rparr>)"

definition drain_ops :: "operation_queue \<Rightarrow> operation_queue" where
  "drain_ops q =
     drain_head (length (oq_drains q))
       (q\<lparr>oq_queue := js_sort op_cmp (oq_queue q), oq_drains := oq_drains q @ [None]\<rparr>)"

definition setOnline :: "bool \<Rightarrow> operation_queue \<Rightarrow> operation_queue" where
  "setOnline online q =
     (let wasOffline = \<not> oq_online q; q1 = q\<lparr>oq_online := online\<rparr>
      in if online \<and> wasOffline then drain_ops q1 else q1)"

definition start_polling :: "operation_queue \<Rightarrow> operation_queue" where
  "start_polling q = q\<lparr>oq_timer := True\<rparr>"

definition stop_polling :: "operation_queue \<Rightarrow> operation_queue" where
  "stop_polling q = q\<lparr>oq_timer := False\<rparr>"

text \<open>\<open>_poll\<close>, before and after the health check; a check that fails says not reachable.\<close>

definition check_start :: "operation_queue \<Rightarrow> operation_queue" where
  "check_start q = (if oq_timer q then q\<lparr>oq_checks := oq_checks q + 1\<rparr> else q)"

definition check_end :: "bool \<Rightarrow> operation_queue \<Rightarrow> operation_queue" where
  "check_end reachable q = (if oq_checks q = 0 then q else setOnline reachable (q\<lparr>oq_checks := oq_checks q - 1\<rparr>))"

definition drained_op_ends :: "nat \<Rightarrow> bool \<Rightarrow> operation_queue \<Rightarrow> operation_queue" where
  "drained_op_ends k ok q =
     (if k < length (oq_drains q)
      then case oq_drains q ! k of None \<Rightarrow> q | Some n \<Rightarrow> drain_head k (q\<lparr>oq_settled := oq_settled q @ [(n, ok)]\<rparr>)
      else q)"

definition direct_op_ends :: "nat \<Rightarrow> bool \<Rightarrow> operation_queue \<Rightarrow> operation_queue" where
  "direct_op_ends n ok q =
     (if n \<in> set (oq_direct q) then q\<lparr>oq_direct := removeAll n (oq_direct q), oq_settled := oq_settled q @ [(n, ok)]\<rparr> else q)"

datatype op_call =
    EnqueueOp nat | SetOnline bool | StartPolling | StopPolling | PollStart | PollEnd bool
  | DrainedEnds nat bool | DirectEnds nat bool

fun op_step :: "operation_queue \<Rightarrow> op_call \<Rightarrow> operation_queue" where
  "op_step q (EnqueueOp p) = enqueue_op p q"
| "op_step q (SetOnline b) = setOnline b q"
| "op_step q StartPolling = start_polling q"
| "op_step q StopPolling = stop_polling q"
| "op_step q PollStart = check_start q"
| "op_step q (PollEnd b) = check_end b q"
| "op_step q (DrainedEnds k ok) = drained_op_ends k ok q"
| "op_step q (DirectEnds n ok) = direct_op_ends n ok q"

text \<open>
  Every operation is buffered or was started, once; and while the queue is online and every drain has
  ended, nothing is buffered.
\<close>

definition op_inv :: "operation_queue \<Rightarrow> bool" where
  "op_inv q \<longleftrightarrow> mset (map bo_id (oq_queue q)) + mset (oq_started q) = mset [0..<oq_seq q]
     \<and> (oq_online q \<longrightarrow> (\<forall>d \<in> set (oq_drains q). d = None) \<longrightarrow> oq_queue q = [])"

lemma drain_head_inv:
  assumes "mset (map bo_id (oq_queue q)) + mset (oq_started q) = mset [0..<oq_seq q]" "k < length (oq_drains q)"
  shows "op_inv (drain_head k q)"
proof (cases "oq_queue q")
  case (Cons op ops)
  have "Some (bo_id op) \<in> set ((oq_drains q)[k := Some (bo_id op)])" using assms(2) by (simp add: set_update_memI)
  with assms Cons show ?thesis by (auto simp: drain_head_def op_inv_def)
qed (use assms in \<open>simp add: drain_head_def op_inv_def\<close>)

lemma setOnline_inv:
  assumes "op_inv q" shows "op_inv (setOnline b q)"
proof (cases "b \<and> \<not> oq_online q")
  case True
  have "op_inv (drain_ops (q\<lparr>oq_online := True\<rparr>))"
    unfolding drain_ops_def using assms by (intro drain_head_inv) (simp_all add: op_inv_def)
  with True show ?thesis by (simp add: setOnline_def Let_def)
next
  case False
  with assms show ?thesis by (auto simp: setOnline_def op_inv_def Let_def)
qed

lemma drained_op_ends_inv:
  assumes "op_inv q" shows "op_inv (drained_op_ends k ok q)"
  using assms by (auto simp: drained_op_ends_def op_inv_def [of q] intro!: drain_head_inv split: option.split)

lemma op_step_inv: "op_inv q \<Longrightarrow> op_inv (op_step q c)"
proof (cases c)
  case (PollEnd b)
  assume "op_inv q"
  then have "op_inv (q\<lparr>oq_checks := oq_checks q - 1\<rparr>)" by (simp add: op_inv_def)
  with \<open>op_inv q\<close> show ?thesis by (simp add: PollEnd check_end_def setOnline_inv)
next
  case (EnqueueOp p)
  assume "op_inv q"
  then show ?thesis
    by (cases "oq_online q") (auto simp: EnqueueOp enqueue_op_def op_inv_def Let_def simp del: mset_upt)
qed (simp_all add: setOnline_inv drained_op_ends_inv,
     auto simp: start_polling_def stop_polling_def check_start_def direct_op_ends_def op_inv_def)

interpretation operations: machine op_step op_inv
  by unfold_locales (rule op_step_inv)

lemma op_inv_new: "op_inv operation_queue_new"
  by (simp add: op_inv_def operation_queue_new_def)

section \<open>Properties\<close>

text \<open>The request that starts comes from the first lane in use, and is the oldest of that lane.\<close>

lemma started_before_waiting:
  assumes "lane_sorted q" "dequeueNextRequest (lq_lanes q) = Some (r, ls)" "y \<in> set (lane_items ls)"
  shows "lane_rank (lr_lane r) < lane_rank (lr_lane y) \<or> (lr_lane r = lr_lane y \<and> lr_id r < lr_id y)"
proof -
  have ok: "lanes_ok (lq_lanes q)" and inc: "\<And>l. sorted_wrt (<) (map lr_id (lq_lanes q l))"
    using assms(1) by (simp_all add: lane_sorted_def)
  have "set (lane_items ls) \<subseteq> set (lane_items (lq_lanes q))"
    using lane_line.take_items [OF ok assms(2)] by (metis mset_eq_setD set_mset_add_mset_insert set_mset_mset subset_insertI)
  then have le: "lane_rank (lr_lane r) \<le> lane_rank (lr_lane y)"
    using lane_line.take_least [OF ok assms(2)] assms(3) by blast
  obtain l rs where l: "lq_lanes q l = r # rs" "ls = (lq_lanes q)(l := rs)"
    using assms(2) by (cases "lq_lanes q" rule: dequeue_cases) auto
  have okls: "lanes_ok ls" using lanes_ok_update [OF ok l(1)] by (simp add: l(2))
  have rl: "lr_lane r = l" using lanes_okD [OF ok] l(1) by simp
  obtain k where k: "y \<in> set (ls k)" using assms(3) by (auto simp: lane_items_iff)
  then have yk: "lr_lane y = k" using lanes_okD [OF okls] by simp
  show ?thesis
  proof (cases "k = l")
    case True
    with k inc [of l] l have "lr_id r < lr_id y" by auto
    with rl yk True show ?thesis by simp
  next
    case False
    then have "lane_rank l \<noteq> lane_rank k" by (cases l; cases k) auto
    with le rl yk show ?thesis by simp
  qed
qed

text \<open>
  As long as no function throws instead of returning a promise, whatever the order in which requests
  come and end: never more than the allowed number of requests are active, no slot is free while a
  request waits, no promise is settled twice; and when all is quiet every request has been settled.
\<close>
theorem lanes_work_conserving:
  assumes "q = foldl (lane_step polite) (lane_queue_new limit) calls"
  shows "length (lq_running q) + length (lq_ending q) = lq_activeCount q \<and> lq_activeCount q \<le> lq_maxConcurrent q
    \<and> (hasPendingRequests q \<longrightarrow> lq_activeCount q = lq_maxConcurrent q)
    \<and> distinct (map fst (lq_settled q))
    \<and> (drained q \<longrightarrow> fst ` set (lq_settled q) = {..<lq_seq q})"
proof -
  have inv: "lane_inv q" unfolding assms by (rule lane_runs.run_inv) (rule lane_inv_new)
  have pend: "hasPendingRequests q \<longleftrightarrow> lane_items (lq_lanes q) \<noteq> []"
    by (simp add: hasPendingRequests_def lane_items_def)
  have m: "mset (map lr_id (lane_items (lq_lanes q)) @ map lr_id (lq_running q) @ map fst (lq_settled q)) = mset [0..<lq_seq q]"
    using inv by (simp add: lane_inv_def lane_accounted_def add.assoc)
  then have "distinct (map lr_id (lane_items (lq_lanes q)) @ map lr_id (lq_running q) @ map fst (lq_settled q))"
    using mset_eq_imp_distinct_iff distinct_upt by blast
  moreover have "fst ` set (lq_settled q) = {..<lq_seq q}" if "drained q"
  proof -
    from that inv pend have "lane_items (lq_lanes q) = []" "lq_running q = []" by (auto simp: drained_def lane_inv_def)
    with mset_eq_setD [OF m] show ?thesis by (simp add: lessThan_atLeast0)
  qed
  ultimately show ?thesis using inv pend by (auto simp: lane_inv_def)
qed

text \<open>
  C27: Every operation is buffered or was started, exactly once, however often the queue goes on and off
  line; and while it is online and no drain waits, nothing is buffered.
\<close>
theorem buffered_operations_started_once:
  assumes "q = foldl op_step operation_queue_new calls"
  shows "mset (map bo_id (oq_queue q)) + mset (oq_started q) = mset [0..<oq_seq q]
    \<and> (oq_online q \<and> (\<forall>d \<in> set (oq_drains q). d = None) \<longrightarrow> oq_queue q = [] \<and> mset (oq_started q) = mset [0..<oq_seq q])"
  using operations.run_inv [OF op_inv_new, of calls] unfolding assms op_inv_def by auto

section \<open>Examples\<close>

lemma lanes_work_conserving_witness:
  "\<exists>q. map fst (lq_settled q) = [0, 1, 2] \<and> drained q \<and> fst ` set (lq_settled q) = {..<lq_seq q} \<and> lq_seq q = 3"
proof -
  define q where "q = foldl (lane_step polite) (lane_queue_new (Some 1))
    [EnqueueLane LaneLow, EnqueueLane LaneHigh, EnqueueLane LaneLow, RequestEnds 0 True, RequestFinally,
     RequestEnds 0 False, RequestFinally, RequestEnds 0 True, RequestFinally]"
  have "map fst (lq_settled q) = [0, 1, 2]" "drained q" "lq_seq q = 3" unfolding q_def by code_simp+
  with lanes_work_conserving [OF q_def] show ?thesis by (intro exI [of _ q]) simp
qed

lemma buffered_operations_started_once_witness:
  "\<exists>q :: operation_queue. oq_started q = [1, 0] \<and> mset (oq_started q) = mset [0..<oq_seq q]"
proof -
  define q where "q = foldl op_step operation_queue_new
    [SetOnline False, EnqueueOp 1, EnqueueOp 10, SetOnline True, DrainedEnds 0 True, DrainedEnds 0 False]"
  have "oq_started q = [1, 0]" "oq_online q" "oq_drains q = [None]" unfolding q_def by code_simp+
  with buffered_operations_started_once [OF q_def] show ?thesis by (intro exI [of _ q]) simp
qed

text \<open>
  A function that throws at once ends the attempt to start it with its slot still counted: it is
  never settled, and with one slot nothing is started any more.
\<close>

lemma throwing_function_blocks_queue:
  "let q = foldl (lane_step (\<lambda>n. n = 0)) (lane_queue_new (Some 1)) [EnqueueLane LaneHigh, EnqueueLane LaneHigh]
   in lq_running q = [] \<and> lq_activeCount q = 1 \<and> map lr_id (lq_lost q) = [0] \<and> hasPendingRequests q"
  by code_simp

text \<open>A drain does not look whether the queue is still online: it runs an operation buffered after the network went down again.\<close>

lemma drain_runs_offline:
  "let q = foldl op_step operation_queue_new
     [SetOnline False, EnqueueOp 1, SetOnline True, SetOnline False, EnqueueOp 1, DrainedEnds 0 True]
   in \<not> oq_online q \<and> oq_started q = [0, 1]"
  by code_simp

text \<open>Two drains run side by side when the network comes back twice: operations overlap.\<close>

lemma two_drains_overlap:
  "oq_drains (foldl op_step operation_queue_new
     [SetOnline False, EnqueueOp 1, EnqueueOp 1, SetOnline True, SetOnline False, SetOnline True]) = [Some 0, Some 1]"
  by code_simp

end
