(* ===== verification/Multi_Sig.thy ===== *)
theory Multi_Sig
  imports Prelude
begin

text \<open>
  Collecting signatures until a weight threshold is reached: \<open>src/multiSignature.ts\<close> (the
  coordinator of many sessions) and \<open>src/approvalWorkflowSequencer.ts\<close> (one approval session, and
  the rules that forward payments). Weights and thresholds are integers. The configuration of a
  session is taken to stay as it was given; handlers only receive events, which are logged.
\<close>

section \<open>The coordinator\<close>

record signer_info =
  si_publicKey :: string
  si_weight :: int

record multisig_config =
  mc_signers :: "signer_info list"
  mc_threshold :: int

datatype multisig_status = MsPending | MsAuthorized | MsExpired | MsRejected

record signature_entry =
  sg_publicKey :: string
  sg_signature :: string
  sg_timestamp :: int
  sg_weight :: int

record multisig_session =
  ms_id :: string
  ms_txHash :: string
  ms_txXdr :: string
  ms_config :: multisig_config
  ms_signatures :: "signature_entry list"
  ms_status :: multisig_status
  ms_createdAt :: int
  ms_expiresAt :: "int option"

datatype multisig_event =
    SignatureAdded string int string int
  | ThresholdReached string int int
  | SessionExpired string int
  | SessionRejected string int "string option"

datatype multisig_error =
    NoSigners
  | ThresholdNotPositive int
  | Unsatisfiable int int
  | SessionNotFound string
  | NotPending string multisig_status
  | SessionHasExpired string
  | SignerNotAuthorized string string
  | AlreadySigned string string

record coordinator =
  co_sessions :: "(string \<times> multisig_session) list"
  co_counter :: nat
  co_log :: "multisig_event list"

definition coordinator_new :: coordinator where
  "coordinator_new = \<lparr>co_sessions = [], co_counter = 0, co_log = []\<rparr>"

definition computeAccumulatedWeight :: "multisig_session \<Rightarrow> int" where
  "computeAccumulatedWeight s = foldl (\<lambda>acc e. acc + sg_weight e) 0 (ms_signatures s)"

definition isThresholdReached :: "multisig_session \<Rightarrow> bool" where
  "isThresholdReached s = (computeAccumulatedWeight s \<ge> mc_threshold (ms_config s))"

definition session_id :: "nat \<Rightarrow> string" where
  "session_id n = ''multisig-'' @ show_nat n"

definition put_session :: "multisig_session \<Rightarrow> multisig_event list \<Rightarrow> coordinator \<Rightarrow> coordinator" where
  "put_session s es c =
     c\<lparr>co_sessions := AList.update (ms_id s) s (co_sessions c), co_log := co_log c @ es\<rparr>"

definition createSession ::
    "int \<Rightarrow> string \<Rightarrow> string \<Rightarrow> multisig_config \<Rightarrow> int option \<Rightarrow> coordinator
      \<Rightarrow> multisig_error + coordinator \<times> multisig_session" where
  "createSession now txHash txXdr config expiresAt c =
     (if mc_signers config = [] then Inl NoSigners
      else if mc_threshold config \<le> 0 then Inl (ThresholdNotPositive (mc_threshold config))
      else
        let totalWeight = foldl (\<lambda>s signer. s + si_weight signer) 0 (mc_signers config)
        in if totalWeight < mc_threshold config then Inl (Unsatisfiable totalWeight (mc_threshold config))
           else
             let n = co_counter c + 1;
                 s = \<lparr>ms_id = session_id n, ms_txHash = txHash, ms_txXdr = txXdr, ms_config = config,
                      ms_signatures = [], ms_status = MsPending, ms_createdAt = now, ms_expiresAt = expiresAt\<rparr>
             in Inr (put_session s [] (c\<lparr>co_counter := n\<rparr>), s))"

definition getSession :: "string \<Rightarrow> coordinator \<Rightarrow> multisig_session option" where
  "getSession i c = map_of (co_sessions c) i"

definition listSessionIds :: "coordinator \<Rightarrow> string list" where
  "listSessionIds c = map fst (co_sessions c)"

text \<open>A session found expired is marked before the error is thrown, so the state is returned beside it.\<close>

definition addSignature ::
    "int \<Rightarrow> string \<Rightarrow> string \<Rightarrow> string \<Rightarrow> coordinator \<Rightarrow> coordinator \<times> (multisig_error + bool)" where
  "addSignature now i publicKey signature c =
     (case getSession i c of
        None \<Rightarrow> (c, Inl (SessionNotFound i))
      | Some s \<Rightarrow>
          if ms_status s \<noteq> MsPending then (c, Inl (NotPending i (ms_status s)))
          else if (case ms_expiresAt s of None \<Rightarrow> False | Some t \<Rightarrow> now > t)
          then (put_session (s\<lparr>ms_status := MsExpired\<rparr>) [SessionExpired i now] c, Inl (SessionHasExpired i))
          else case find (\<lambda>si. si_publicKey si = publicKey) (mc_signers (ms_config s)) of
            None \<Rightarrow> (c, Inl (SignerNotAuthorized publicKey i))
          | Some signerInfo \<Rightarrow>
              if \<exists>e \<in> set (ms_signatures s). sg_publicKey e = publicKey
              then (c, Inl (AlreadySigned publicKey i))
              else
                let s1 = s\<lparr>ms_signatures := ms_signatures s @ [\<lparr>sg_publicKey = publicKey, sg_signature = signature,
                             sg_timestamp = now, sg_weight = si_weight signerInfo\<rparr>]\<rparr>;
                    added = SignatureAdded i now publicKey (si_weight signerInfo)
                in if isThresholdReached s1
                   then (put_session (s1\<lparr>ms_status := MsAuthorized\<rparr>)
                           [added, ThresholdReached i now (computeAccumulatedWeight s1)] c, Inr True)
                   else (put_session s1 [added] c, Inr False))"

definition rejectSession :: "int \<Rightarrow> string \<Rightarrow> string option \<Rightarrow> coordinator \<Rightarrow> multisig_error + coordinator" where
  "rejectSession now i reason c =
     (case getSession i c of
        None \<Rightarrow> Inl (SessionNotFound i)
      | Some s \<Rightarrow>
          if ms_status s \<noteq> MsPending then Inl (NotPending i (ms_status s))
          else Inr (put_session (s\<lparr>ms_status := MsRejected\<rparr>) [SessionRejected i now reason] c))"

definition remainingWeightNeeded :: "string \<Rightarrow> coordinator \<Rightarrow> multisig_error + int" where
  "remainingWeightNeeded i c =
     (case getSession i c of
        None \<Rightarrow> Inl (SessionNotFound i)
      | Some s \<Rightarrow> Inr (max 0 (mc_threshold (ms_config s) - computeAccumulatedWeight s)))"

datatype multisig_call =
    MCreate int string string multisig_config "int option"
  | MSign int string string string
  | MReject int string "string option"

fun multisig_step :: "coordinator \<Rightarrow> multisig_call \<Rightarrow> coordinator" where
  "multisig_step c (MCreate now h x cfg e) =
     (case createSession now h x cfg e c of Inl _ \<Rightarrow> c | Inr (c', _) \<Rightarrow> c')"
| "multisig_step c (MSign now i k s) = fst (addSignature now i k s c)"
| "multisig_step c (MReject now i r) = (case rejectSession now i r c of Inl _ \<Rightarrow> c | Inr c' \<Rightarrow> c')"

section \<open>Approval sessions\<close>

record approval_session =
  as_txXdr :: string
  as_threshold :: int
  as_timeoutMs :: int
  as_weights :: "(string \<times> int) list"
  as_signatures :: "(string \<times> string) list"
  as_rejections :: "string list"
  as_expiresAt :: int
  as_completed :: bool
  as_rejected :: bool
  as_executed :: bool

datatype approval_state = ApPending | ApApproved | ApRejected | ApExecuted | ApExpired

record approval_status =
  ap_state :: approval_state
  ap_weight :: int
  ap_threshold :: int
  ap_approvals :: nat
  ap_rejections :: nat

datatype approval_error = ApprovalTimeout int | NotAuthorized string | ThresholdNotReached | AlreadyExecuted

text \<open>The loop of the constructor: a signer listed twice keeps the last weight.\<close>

definition signer_weights :: "signer_info list \<Rightarrow> (string \<times> int) list" where
  "signer_weights signers = foldl (\<lambda>m s. AList.update (si_publicKey s) (si_weight s) m) [] signers"

definition approval_new :: "int \<Rightarrow> string \<Rightarrow> signer_info list \<Rightarrow> int \<Rightarrow> int \<Rightarrow> approval_session" where
  "approval_new now txXdr signers threshold timeoutMs =
     \<lparr>as_txXdr = txXdr, as_threshold = threshold, as_timeoutMs = timeoutMs, as_weights = signer_weights signers,
      as_signatures = [], as_rejections = [], as_expiresAt = now + timeoutMs,
      as_completed = False, as_rejected = False, as_executed = False\<rparr>"

definition approval_weight :: "approval_session \<Rightarrow> int" where
  "approval_weight s =
     foldl (\<lambda>tot k. tot + (case map_of (as_weights s) k of None \<Rightarrow> 0 | Some w \<Rightarrow> w)) 0 (map fst (as_signatures s))"

definition assertActive :: "int \<Rightarrow> approval_session \<Rightarrow> approval_error + unit" where
  "assertActive now s =
     (if as_completed s \<or> as_rejected s then Inr ()
      else if now > as_expiresAt s then Inl (ApprovalTimeout (as_timeoutMs s)) else Inr ())"

definition submitSignature ::
    "int \<Rightarrow> string \<Rightarrow> string \<Rightarrow> approval_session \<Rightarrow> approval_error + approval_session \<times> bool \<times> int" where
  "submitSignature now k signature s =
     rbind (assertActive now s) (\<lambda>_.
       if map_of (as_weights s) k = None then Inl (NotAuthorized k)
       else
         let s1 = s\<lparr>as_signatures := AList.update k signature (as_signatures s),
                    as_rejections := removeAll k (as_rejections s)\<rparr>;
             s2 = (if approval_weight s1 \<ge> as_threshold s1 then s1\<lparr>as_completed := True\<rparr> else s1)
         in Inr (s2, as_completed s2, approval_weight s2))"

definition approval_reject :: "int \<Rightarrow> string \<Rightarrow> approval_session \<Rightarrow> approval_error + approval_session" where
  "approval_reject now k s =
     rbind (assertActive now s) (\<lambda>_.
       if map_of (as_weights s) k = None then Inl (NotAuthorized k)
       else Inr (s\<lparr>as_rejections := set_add k (as_rejections s),
                   as_signatures := AList.delete k (as_signatures s), as_rejected := True\<rparr>))"

text \<open>\<open>applySignatures\<close> is the caller's; it turns the transaction and the signatures into an envelope.\<close>

definition getSignedXdr ::
    "(string \<Rightarrow> (string \<times> string) list \<Rightarrow> string) \<Rightarrow> int \<Rightarrow> approval_session \<Rightarrow> approval_error + string" where
  "getSignedXdr applySignatures now s =
     rbind (assertActive now s) (\<lambda>_.
       if \<not> as_completed s then Inl ThresholdNotReached
       else Inr (applySignatures (as_txXdr s) (as_signatures s)))"

definition approval_execute ::
    "(string \<Rightarrow> (string \<times> string) list \<Rightarrow> string) \<Rightarrow> int \<Rightarrow> approval_session
      \<Rightarrow> approval_error + approval_session \<times> string" where
  "approval_execute applySignatures now s =
     rbind (assertActive now s) (\<lambda>_.
       if \<not> as_completed s then Inl ThresholdNotReached
       else if as_executed s then Inl AlreadyExecuted
       else Inr (s\<lparr>as_executed := True\<rparr>, applySignatures (as_txXdr s) (as_signatures s)))"

definition approval_state_of :: "int \<Rightarrow> approval_session \<Rightarrow> approval_state" where
  "approval_state_of now s =
     (if as_executed s then ApExecuted
      else if as_rejected s then ApRejected
      else if as_completed s then ApApproved
      else if now > as_expiresAt s then ApExpired
      else ApPending)"

definition approval_status_of :: "int \<Rightarrow> approval_session \<Rightarrow> approval_status" where
  "approval_status_of now s =
     \<lparr>ap_state = approval_state_of now s, ap_weight = approval_weight s, ap_threshold = as_threshold s,
      ap_approvals = length (as_signatures s), ap_rejections = length (as_rejections s)\<rparr>"

datatype approval_call = ASubmit int string string | AReject int string | AExecute int

fun approval_step :: "approval_session \<Rightarrow> approval_call \<Rightarrow> approval_session" where
  "approval_step s (ASubmit now k g) = (case submitSignature now k g s of Inl _ \<Rightarrow> s | Inr (s', _) \<Rightarrow> s')"
| "approval_step s (AReject now k) = (case approval_reject now k s of Inl _ \<Rightarrow> s | Inr s' \<Rightarrow> s')"
| "approval_step s (AExecute now) = (case approval_execute (\<lambda>x _. x) now s of Inl _ \<Rightarrow> s | Inr (s', _) \<Rightarrow> s')"

section \<open>Forwarding rules\<close>

record forwarding_rule =
  fr_id :: string
  fr_source :: "string option"
  fr_destination :: "string option"
  fr_assetCode :: "string option"
  fr_minAmount :: "rat option"
  fr_maxAmount :: "rat option"
  fr_forwardTo :: string

record forwarding_request =
  fq_source :: string
  fq_destination :: string
  fq_assetCode :: string
  fq_amount :: rat

datatype forwarding_error = RuleWithoutId | RuleWithoutTarget string

definition addRule :: "forwarding_rule \<Rightarrow> forwarding_rule list \<Rightarrow> forwarding_error + forwarding_rule list" where
  "addRule r rules =
     (if fr_id r = [] then Inl RuleWithoutId
      else if fr_forwardTo r = [] then Inl (RuleWithoutTarget (fr_id r))
      else Inr (rules @ [r]))"

fun rules_new :: "forwarding_rule list \<Rightarrow> forwarding_rule list \<Rightarrow> forwarding_error + forwarding_rule list" where
  "rules_new acc [] = Inr acc"
| "rules_new acc (r # rs) = rbind (addRule r acc) (\<lambda>acc'. rules_new acc' rs)"

definition rule_matches :: "forwarding_rule \<Rightarrow> forwarding_request \<Rightarrow> bool" where
  "rule_matches r q =
     ((case fr_source r of None \<Rightarrow> True | Some a \<Rightarrow> a = fq_source q) \<and>
      (case fr_destination r of None \<Rightarrow> True | Some a \<Rightarrow> a = fq_destination q) \<and>
      (case fr_assetCode r of None \<Rightarrow> True | Some a \<Rightarrow> a = fq_assetCode q) \<and>
      (case fr_minAmount r of None \<Rightarrow> True | Some m \<Rightarrow> \<not> fq_amount q < m) \<and>
      (case fr_maxAmount r of None \<Rightarrow> True | Some m \<Rightarrow> \<not> fq_amount q > m))"

definition evaluate_rules :: "forwarding_rule list \<Rightarrow> forwarding_request \<Rightarrow> (string \<times> string) option" where
  "evaluate_rules rules q =
     (case find (\<lambda>r. rule_matches r q) rules of None \<Rightarrow> None | Some r \<Rightarrow> Some (fr_id r, fr_forwardTo r))"

section \<open>Lemmas\<close>

text \<open>A signer of a session counts with the first weight the configuration lists for the key.\<close>

definition signer_weight :: "multisig_config \<Rightarrow> string \<Rightarrow> int option" where
  "signer_weight cfg k = map_option si_weight (find (\<lambda>si. si_publicKey si = k) (mc_signers cfg))"

definition session_ok :: "multisig_session \<Rightarrow> bool" where
  "session_ok s \<longleftrightarrow>
     distinct (map sg_publicKey (ms_signatures s)) \<and>
     (\<forall>e \<in> set (ms_signatures s). signer_weight (ms_config s) (sg_publicKey e) = Some (sg_weight e)) \<and>
     (ms_status s = MsAuthorized \<longleftrightarrow> mc_threshold (ms_config s) \<le> computeAccumulatedWeight s)"

definition coord_inv :: "coordinator \<Rightarrow> bool" where
  "coord_inv c \<longleftrightarrow> (\<forall>i s. getSession i c = Some s \<longrightarrow>
     ms_id s = i \<and> session_ok s \<and> (\<exists>n. n \<le> co_counter c \<and> i = session_id n))"

lemma getSession_put [simp]: "getSession i (put_session s es c) = (if i = ms_id s then Some s else getSession i c)"
  by (simp add: getSession_def put_session_def)

lemma counter_put [simp]: "co_counter (put_session s es c) = co_counter c"
  by (simp add: put_session_def)

lemma getSession_counter [simp]: "getSession i (c\<lparr>co_counter := n\<rparr>) = getSession i c"
  by (simp add: getSession_def)

lemma session_id_inj [simp]: "session_id m = session_id n \<longleftrightarrow> m = n"
  by (simp add: session_id_def show_nat_inj)

lemma weight_empty [simp]: "ms_signatures s = [] \<Longrightarrow> computeAccumulatedWeight s = 0"
  by (simp add: computeAccumulatedWeight_def)

lemma weight_status [simp]: "computeAccumulatedWeight (s\<lparr>ms_status := x\<rparr>) = computeAccumulatedWeight s"
  by (simp add: computeAccumulatedWeight_def)

lemma coord_put:
  assumes "coord_inv c" "getSession i c = Some s" "ms_id s' = i" "session_ok s'"
  shows "coord_inv (put_session s' es c)"
  using assms by (auto simp: coord_inv_def)

lemma create_inv:
  assumes "coord_inv c" "createSession now h x cfg e c = Inr (c', s)" shows "coord_inv c'"
proof -
  from assms(2) have c': "c' = put_session s [] (c\<lparr>co_counter := co_counter c + 1\<rparr>)"
    and s: "s = \<lparr>ms_id = session_id (co_counter c + 1), ms_txHash = h, ms_txXdr = x, ms_config = cfg,
              ms_signatures = [], ms_status = MsPending, ms_createdAt = now, ms_expiresAt = e\<rparr>"
    and pos: "mc_threshold cfg > 0"
    by (auto simp: createSession_def Let_def split: if_splits)
  have "session_ok s" using pos by (simp add: session_ok_def s)
  with assms(1) s show ?thesis unfolding c' by (fastforce simp: coord_inv_def intro: le_SucI)
qed

lemma sign_inv: "coord_inv c \<Longrightarrow> coord_inv (fst (addSignature now i k g c))"
proof (cases "getSession i c")
  case (Some s)
  assume inv: "coord_inv c"
  with Some have s: "ms_id s = i" "session_ok s" by (auto simp: coord_inv_def)
  have ok_signed: "session_ok (if isThresholdReached s1 then s1\<lparr>ms_status := MsAuthorized\<rparr> else s1)"
    if "ms_status s = MsPending" "find (\<lambda>si. si_publicKey si = k) (mc_signers (ms_config s)) = Some si"
      "\<forall>e \<in> set (ms_signatures s). sg_publicKey e \<noteq> k"
      "s1 = s\<lparr>ms_signatures := ms_signatures s @ [\<lparr>sg_publicKey = k, sg_signature = g, sg_timestamp = now, sg_weight = si_weight si\<rparr>]\<rparr>"
    for s1 si
    using that s(2) by (auto simp: session_ok_def signer_weight_def isThresholdReached_def)
  from inv Some s ok_signed show ?thesis
    by (auto simp: addSignature_def Let_def session_ok_def intro!: coord_put [OF inv Some] split: option.splits if_splits)
      (fastforce simp: session_ok_def)+
qed (simp add: addSignature_def)

lemma reject_session_inv:
  assumes "coord_inv c" "rejectSession now i r c = Inr c'" shows "coord_inv c'"
proof -
  from assms(2) obtain s where s: "getSession i c = Some s" "ms_status s = MsPending"
    and c': "c' = put_session (s\<lparr>ms_status := MsRejected\<rparr>) [SessionRejected i now r] c"
    by (auto simp: rejectSession_def split: option.splits if_splits)
  from assms(1) s(1) have "ms_id s = i" "session_ok s" by (auto simp: coord_inv_def)
  then show ?thesis
    unfolding c' using s by (intro coord_put [OF assms(1) s(1)]) (auto simp: session_ok_def)
qed

lemma multisig_step_inv: "coord_inv c \<Longrightarrow> coord_inv (multisig_step c e)"
  by (cases e) (auto simp: sign_inv split: sum.splits intro: create_inv reject_session_inv)

definition closed_session :: "string \<Rightarrow> multisig_session \<Rightarrow> coordinator \<Rightarrow> bool" where
  "closed_session i s c \<longleftrightarrow> getSession i c = Some s \<and> ms_status s \<noteq> MsPending"

lemma create_closed:
  "coord_inv c \<Longrightarrow> closed_session i s c \<Longrightarrow> createSession now h x cfg e c = Inr (c', s') \<Longrightarrow> closed_session i s c'"
  by (fastforce simp: createSession_def closed_session_def coord_inv_def Let_def split: if_splits)

lemma sign_closed: "coord_inv c \<Longrightarrow> closed_session i s c \<Longrightarrow> closed_session i s (fst (addSignature now j k g c))"
  by (auto simp: addSignature_def closed_session_def coord_inv_def Let_def split: option.splits)

lemma reject_closed: "coord_inv c \<Longrightarrow> closed_session i s c \<Longrightarrow> rejectSession now j r c = Inr c' \<Longrightarrow> closed_session i s c'"
  by (auto simp: rejectSession_def closed_session_def coord_inv_def split: option.splits if_splits)

lemma multisig_step_closed: "coord_inv c \<Longrightarrow> closed_session i s c \<Longrightarrow> closed_session i s (multisig_step c e)"
  by (cases e) (auto simp: sign_closed split: sum.splits intro: create_closed reject_closed)

interpretation multisig: latched_machine multisig_step coord_inv "closed_session i s"
  by unfold_locales (simp_all add: multisig_step_inv multisig_step_closed)

lemma coord_inv_new: "coord_inv coordinator_new"
  by (simp add: coord_inv_def coordinator_new_def getSession_def)

subsection \<open>Approval sessions\<close>

lemma approval_weight_sum:
  "approval_weight s = sum_list (map (\<lambda>k. case map_of (as_weights s) k of None \<Rightarrow> 0 | Some w \<Rightarrow> w) (map fst (as_signatures s)))"
  by (simp add: approval_weight_def foldl_sum)

lemma approval_weight_update:
  assumes "\<forall>w \<in> ran (map_of (as_weights s)). 0 \<le> w" "as_weights s' = as_weights s"
    and "as_signatures s' = AList.update k g (as_signatures s)"
  shows "approval_weight s \<le> approval_weight s'"
  using assms by (auto simp: approval_weight_sum update_keys ran_def split: option.splits)

text \<open>What holds of a session of which no call was a rejection.\<close>

definition approval_inv :: "approval_session \<Rightarrow> bool" where
  "approval_inv s \<longleftrightarrow> (\<forall>w \<in> ran (map_of (as_weights s)). 0 \<le> w) \<and> \<not> as_rejected s \<and>
     distinct (map fst (as_signatures s)) \<and> fst ` set (as_signatures s) \<subseteq> dom (map_of (as_weights s)) \<and>
     (as_executed s \<longrightarrow> as_completed s) \<and> (as_completed s \<longrightarrow> as_threshold s \<le> approval_weight s)"

lemma approval_weight_completed [simp]:
  "approval_weight (s\<lparr>as_completed := b\<rparr>) = approval_weight s" "approval_weight (s\<lparr>as_executed := b\<rparr>) = approval_weight s"
  by (simp_all add: approval_weight_def)

lemma submit_approval_inv:
  assumes "approval_inv s" "submitSignature now k g s = Inr (s', r)" shows "approval_inv s'"
proof -
  define s1 where "s1 = s\<lparr>as_signatures := AList.update k g (as_signatures s),
                    as_rejections := removeAll k (as_rejections s)\<rparr>"
  have k: "k \<in> dom (map_of (as_weights s))"
    and s': "s' = (if approval_weight s1 \<ge> as_threshold s1 then s1\<lparr>as_completed := True\<rparr> else s1)"
    using assms(2) by (auto simp: submitSignature_def rbind_Inr_iff Let_def s1_def split: if_splits)
  have "approval_weight s \<le> approval_weight s1"
    using assms(1) by (intro approval_weight_update [of s s1 k g]) (auto simp: approval_inv_def s1_def)
  then have "as_completed s1 \<longrightarrow> as_threshold s1 \<le> approval_weight s1"
    using assms(1) by (auto simp: approval_inv_def s1_def)
  moreover have "\<forall>w \<in> ran (map_of (as_weights s1)). 0 \<le> w" "\<not> as_rejected s1" "distinct (map fst (as_signatures s1))"
    "fst ` set (as_signatures s1) \<subseteq> dom (map_of (as_weights s1))" "as_executed s1 \<longrightarrow> as_completed s1"
    using assms(1) k by (auto simp: approval_inv_def s1_def distinct_fst_update)
  ultimately show ?thesis by (auto simp: s' approval_inv_def)
qed

lemma execute_approval_inv:
  assumes "approval_inv s" "approval_execute f now s = Inr (s', x)" shows "approval_inv s'"
proof -
  from assms(2) have "s' = s\<lparr>as_executed := True\<rparr>" "as_completed s"
    by (auto simp: approval_execute_def rbind_Inr_iff split: if_splits)
  with assms(1) show ?thesis by (simp add: approval_inv_def)
qed

fun is_reject :: "approval_call \<Rightarrow> bool" where
  "is_reject (AReject now k) = True"
| "is_reject _ = False"

lemma approval_run_inv:
  "approval_inv s \<Longrightarrow> \<not> list_ex is_reject calls \<Longrightarrow> approval_inv (foldl approval_step s calls)"
proof (induction calls arbitrary: s)
  case (Cons c calls)
  have "approval_inv (approval_step s c)"
    using Cons.prems by (cases c) (auto split: sum.splits intro: submit_approval_inv execute_approval_inv)
  with Cons show ?case by simp
qed simp

lemma signer_weights_nonneg:
  "\<forall>s \<in> set signers. 0 \<le> si_weight s \<Longrightarrow> w \<in> ran (map_of (signer_weights signers)) \<Longrightarrow> 0 \<le> w"
proof -
  have "\<forall>s \<in> set signers. 0 \<le> si_weight s \<Longrightarrow> \<forall>w \<in> ran (map_of m). 0 \<le> w \<Longrightarrow>
      \<forall>w \<in> ran (map_of (foldl (\<lambda>m s. AList.update (si_publicKey s) (si_weight s) m) m signers)). 0 \<le> w" for m
  proof (induction signers arbitrary: m)
    case (Cons s signers)
    have "\<forall>w \<in> ran (map_of (AList.update (si_publicKey s) (si_weight s) m)). 0 \<le> w"
      using Cons.prems by (auto simp: ran_def split: if_splits)
    from Cons.IH [OF _ this] Cons.prems(1) show ?case by simp
  qed simp
  from this [of "[]"] show "\<forall>s \<in> set signers. 0 \<le> si_weight s \<Longrightarrow> w \<in> ran (map_of (signer_weights signers)) \<Longrightarrow> 0 \<le> w"
    by (simp add: signer_weights_def)
qed

section \<open>Properties\<close>

text \<open>
  C29: After any calls on the coordinator, a session is authorized exactly when the weights of its
  signatures reach its threshold; the signatures come from different keys, each listed in the
  configuration with the weight it counts for.
\<close>

theorem multisig_authorized_iff:
  assumes "getSession i (foldl multisig_step coordinator_new calls) = Some s"
  shows "(ms_status s = MsAuthorized \<longleftrightarrow> mc_threshold (ms_config s) \<le> sum_list (map sg_weight (ms_signatures s))) \<and>
    distinct (map sg_publicKey (ms_signatures s)) \<and>
    (\<forall>e \<in> set (ms_signatures s). signer_weight (ms_config s) (sg_publicKey e) = Some (sg_weight e))"
proof -
  have "coord_inv (foldl multisig_step coordinator_new calls)" by (rule multisig.run_inv [OF coord_inv_new])
  with assms have "session_ok s" by (auto simp: coord_inv_def)
  then show ?thesis by (simp add: session_ok_def computeAccumulatedWeight_def foldl_sum)
qed

definition two_of_three :: multisig_config where
  "two_of_three = \<lparr>mc_signers = [\<lparr>si_publicKey = ''GA'', si_weight = 1\<rparr>, \<lparr>si_publicKey = ''GB'', si_weight = 1\<rparr>,
     \<lparr>si_publicKey = ''GC'', si_weight = 1\<rparr>], mc_threshold = 2\<rparr>"

definition multisig_sample :: "multisig_call list" where
  "multisig_sample = [MCreate 1 ''h'' ''x'' two_of_three (Some 100), MSign 2 ''multisig-1'' ''GA'' ''s1'',
     MSign 3 ''multisig-1'' ''GA'' ''s2'', MSign 4 ''multisig-1'' ''GB'' ''s3'', MSign 5 ''multisig-1'' ''GC'' ''s4'']"

theorem multisig_authorized_iff_witness:
  "\<exists>s. getSession ''multisig-1'' (foldl multisig_step coordinator_new multisig_sample) = Some s \<and>
     ms_status s = MsAuthorized \<and> 2 \<le> sum_list (map sg_weight (ms_signatures s))"
proof -
  have "case getSession ''multisig-1'' (foldl multisig_step coordinator_new multisig_sample) of
      None \<Rightarrow> False | Some s \<Rightarrow> ms_status s = MsAuthorized \<and> mc_threshold (ms_config s) = 2"
    by code_simp
  then obtain s where s: "getSession ''multisig-1'' (foldl multisig_step coordinator_new multisig_sample) = Some s"
    "ms_status s = MsAuthorized" "mc_threshold (ms_config s) = 2" by (auto split: option.splits)
  from multisig_authorized_iff [OF s(1)] s show ?thesis by auto
qed

text \<open>
  A session that is authorized, expired or rejected is never changed again, and later sessions
  never take its identifier.
\<close>

theorem multisig_session_final:
  assumes "getSession i (foldl multisig_step coordinator_new calls) = Some s" "ms_status s \<noteq> MsPending"
  shows "getSession i (foldl multisig_step coordinator_new (calls @ later)) = Some s"
proof -
  have "closed_session i s (foldl multisig_step coordinator_new calls)" using assms by (simp add: closed_session_def)
  from multisig.run_latched [OF multisig.run_inv [OF coord_inv_new] this, of later]
  show ?thesis by (simp add: closed_session_def)
qed

theorem multisig_session_final_witness:
  "\<exists>s. getSession ''multisig-1'' (foldl multisig_step coordinator_new
      (multisig_sample @ [MReject 9 ''multisig-1'' None, MCreate 10 ''h'' ''x'' two_of_three None])) = Some s \<and>
    ms_status s = MsAuthorized"
proof -
  have "case getSession ''multisig-1'' (foldl multisig_step coordinator_new multisig_sample) of
      None \<Rightarrow> False | Some s \<Rightarrow> ms_status s = MsAuthorized"
    by code_simp
  then obtain s where s: "getSession ''multisig-1'' (foldl multisig_step coordinator_new multisig_sample) = Some s"
    "ms_status s = MsAuthorized" by (auto split: option.splits)
  from multisig_session_final [OF s(1), of "[MReject 9 ''multisig-1'' None, MCreate 10 ''h'' ''x'' two_of_three None]"] s(2)
  show ?thesis by (intro exI [of _ s]) (simp del: foldl_append)
qed

text \<open>
  In an approval session that nobody rejects, an executed withdrawal carries signatures of
  authorised signers, one each, whose weights reach the threshold.
\<close>

theorem approval_executes_at_threshold:
  assumes "\<forall>s \<in> set signers. 0 \<le> si_weight s" and "\<not> list_ex is_reject calls"
    and "s = foldl approval_step (approval_new now xdr signers threshold timeout) calls" and "as_executed s"
  shows "as_threshold s \<le> approval_weight s \<and> distinct (map fst (as_signatures s)) \<and>
    fst ` set (as_signatures s) \<subseteq> dom (map_of (as_weights s))"
proof -
  have "approval_inv (approval_new now xdr signers threshold timeout)"
    using signer_weights_nonneg [OF assms(1)] by (auto simp: approval_inv_def approval_new_def)
  from approval_run_inv [OF this assms(2)] assms(3,4) show ?thesis by (auto simp: approval_inv_def)
qed

definition approval_sample :: approval_session where
  "approval_sample = approval_new 0 ''tx'' (mc_signers two_of_three) 2 50"

theorem approval_executes_at_threshold_witness:
  "as_executed (foldl approval_step approval_sample [ASubmit 1 ''GA'' ''s'', ASubmit 2 ''GB'' ''s'', AExecute 3]) \<and>
   2 \<le> approval_weight (foldl approval_step approval_sample [ASubmit 1 ''GA'' ''s'', ASubmit 2 ''GB'' ''s'', AExecute 3])"
proof -
  let ?s = "foldl approval_step approval_sample [ASubmit 1 ''GA'' ''s'', ASubmit 2 ''GB'' ''s'', AExecute 3]"
  have ex: "as_executed ?s" and th: "as_threshold ?s = 2" by code_simp+
  have nn: "\<forall>s \<in> set (mc_signers two_of_three). 0 \<le> si_weight s" by (simp add: two_of_three_def)
  have eq: "?s = foldl approval_step (approval_new 0 ''tx'' (mc_signers two_of_three) 2 50)
      [ASubmit 1 ''GA'' ''s'', ASubmit 2 ''GB'' ''s'', AExecute 3]" by (simp only: approval_sample_def)
  from approval_executes_at_threshold [OF nn _ eq ex] ex th show ?thesis by simp
qed

text \<open>
  A rejection does not stop a session. A rejected session, even one past its deadline, still
  collects signatures and executes; and a signer who withdraws a signature from a completed session
  leaves it completed, so that it executes below its threshold.
\<close>

theorem rejected_approval_executes:
  "(let s = foldl approval_step approval_sample
        [AReject 1 ''GA'', ASubmit 900 ''GA'' ''s'', ASubmit 901 ''GB'' ''s'', AExecute 902]
    in as_rejected s \<and> as_executed s) \<and>
   (let s = foldl approval_step approval_sample
        [ASubmit 1 ''GA'' ''s'', ASubmit 2 ''GB'' ''s'', AReject 3 ''GB'', AExecute 4]
    in as_executed s \<and> approval_weight s < as_threshold s)"
  by code_simp

end
