(* ===== verification/Nonce_Manager.thy ===== *)
theory Nonce_Manager
  imports Prelude
begin

text \<open>
  Nonce assignment and replay protection per account: \<open>src/nonceManager.ts\<close>.
  The two maps of the class are association lists; the replay cache of an account maps a nonce
  to the time it was last committed, in the insertion order of the JavaScript \<open>Map\<close>. Its keys are
  the decimal strings of the nonces, which are as good as the nonces themselves
  (\<open>show_int_inj\<close>). Events are appended to the log of the state: listeners cannot influence the
  manager, because their exceptions are caught.
\<close>

section \<open>Data\<close>

record nonce_state =
  ns_currentNonce :: int
  ns_lastUpdated :: int
  ns_inFlight :: "int list"

record nonce_options =
  no_initialNonce :: int
  no_incrementStep :: int
  no_replayWindowSize :: int
  no_replayTtlMs :: int
  no_strictOrdering :: bool

datatype nonce_event =
    NonceAcquired string int
  | NonceCommitted string int
  | NonceRolledBack string int
  | NonceReset string int int string
  | NonceValidationFailed string "int option" string

record nonce_manager =
  nm_states :: "(string \<times> nonce_state) list"
  nm_committed :: "(string \<times> (int \<times> int) list) list"
  nm_log :: "nonce_event list"

text \<open>
  A nonce argument: \<open>bigint\<close>, \<open>number\<close> (\<open>None\<close> for \<open>NaN\<close> and the infinities, and the text that
  \<open>${val}\<close> prints for it) or \<open>string\<close>.
\<close>

datatype nonce_arg = NBig int | NNum "rat option" string | NStr string

datatype nonce_error =
    InvalidNonceError string
  | DuplicateNonceError string int
  | StaleNonceError string int int
  | NonceGapError string int int
  | UndefinedToString \<comment> \<open>the \<open>TypeError\<close> of \<open>undefined.toString()\<close>\<close>

record nonce_check =
  nc_valid :: bool
  nc_error :: "string option"
  nc_expected :: "int option"
  nc_received :: "int option"

definition nonce_manager_new :: nonce_manager where
  "nonce_manager_new = \<lparr>nm_states = [], nm_committed = [], nm_log = []\<rparr>"

definition default_options :: nonce_options where
  "default_options = \<lparr>no_initialNonce = 0, no_incrementStep = 1, no_replayWindowSize = 1000,
     no_replayTtlMs = 300000, no_strictOrdering = True\<rparr>"

section \<open>Parsing\<close>

fun parseNonce :: "nonce_arg \<Rightarrow> nonce_error + int" where
  "parseNonce (NBig v) =
     (if v < 0 then Inl (InvalidNonceError (''Nonce cannot be negative: '' @ show_int v)) else Inr v)"
| "parseNonce (NNum v txt) =
     (case v of
        None \<Rightarrow> Inl (InvalidNonceError (''Nonce must be a non-negative integer: '' @ txt))
      | Some r \<Rightarrow>
          if of_int \<lfloor>r\<rfloor> \<noteq> r \<or> r < 0
          then Inl (InvalidNonceError (''Nonce must be a non-negative integer: '' @ txt))
          else Inr \<lfloor>r\<rfloor>)"
| "parseNonce (NStr s) =
     (let trimmed = trim s
      in if trimmed = [] \<or> \<not> list_all is_digit trimmed
         then Inl (InvalidNonceError (''Invalid numeric nonce string: \"'' @ s @ ''\"''))
         else Inr (int (parse_digits trimmed)))"

section \<open>Tracking\<close>

definition put_state :: "string \<Rightarrow> nonce_state \<Rightarrow> nonce_manager \<Rightarrow> nonce_manager" where
  "put_state acct st m = m\<lparr>nm_states := AList.update acct st (nm_states m)\<rparr>"

definition trackAccount ::
    "nonce_options \<Rightarrow> int \<Rightarrow> string \<Rightarrow> int option \<Rightarrow> nonce_manager \<Rightarrow> nonce_error + (nonce_manager \<times> nonce_state)" where
  "trackAccount opt now acct initial m =
     (if acct = [] then Inl (InvalidNonceError ''Invalid accountId: must be a non-empty string.'')
      else case map_of (nm_states m) acct of
        Some st \<Rightarrow> Inr (m, st)
      | None \<Rightarrow>
          (let st = \<lparr>ns_currentNonce = (case initial of None \<Rightarrow> no_initialNonce opt | Some i \<Rightarrow> i),
                     ns_lastUpdated = now, ns_inFlight = []\<rparr>
           in Inr (put_state acct st m, st)))"

definition hasAccount :: "string \<Rightarrow> nonce_manager \<Rightarrow> bool" where
  "hasAccount acct m = (map_of (nm_states m) acct \<noteq> None)"

definition ensureTracked ::
    "nonce_options \<Rightarrow> int \<Rightarrow> string \<Rightarrow> nonce_manager \<Rightarrow> nonce_error + (nonce_manager \<times> nonce_state)" where
  "ensureTracked opt now acct m =
     (case map_of (nm_states m) acct of
        Some st \<Rightarrow> Inr (m, st)
      | None \<Rightarrow> trackAccount opt now acct None m)"

definition getNonceState ::
    "nonce_options \<Rightarrow> int \<Rightarrow> string \<Rightarrow> nonce_manager \<Rightarrow> nonce_error + (nonce_manager \<times> nonce_state)" where
  "getNonceState opt now acct m = ensureTracked opt now acct m"

definition getNonce ::
    "nonce_options \<Rightarrow> int \<Rightarrow> string \<Rightarrow> nonce_manager \<Rightarrow> nonce_error + (nonce_manager \<times> int)" where
  "getNonce opt now acct m =
     rbind (getNonceState opt now acct m) (\<lambda>(m1, st). Inr (m1, ns_currentNonce st))"

definition peekNextNonce ::
    "nonce_options \<Rightarrow> int \<Rightarrow> string \<Rightarrow> nonce_manager \<Rightarrow> nonce_error + (nonce_manager \<times> int)" where
  "peekNextNonce opt now acct m =
     rbind (getNonceState opt now acct m) (\<lambda>(m1, st). Inr (m1, ns_currentNonce st))"

definition log_event :: "nonce_event \<Rightarrow> nonce_manager \<Rightarrow> nonce_manager" where
  "log_event e m = m\<lparr>nm_log := nm_log m @ [e]\<rparr>"

section \<open>Life cycle of a nonce\<close>

definition acquireNextNonce ::
    "nonce_options \<Rightarrow> int \<Rightarrow> string \<Rightarrow> nonce_manager \<Rightarrow> nonce_error + (nonce_manager \<times> int)" where
  "acquireNextNonce opt now acct m =
     rbind (ensureTracked opt now acct m) (\<lambda>(m1, st).
       let nonceToIssue = ns_currentNonce st;
           st' = st\<lparr>ns_currentNonce := nonceToIssue + no_incrementStep opt, ns_lastUpdated := now,
                    ns_inFlight := ns_inFlight st @ [nonceToIssue]\<rparr>
       in Inr (log_event (NonceAcquired acct nonceToIssue) (put_state acct st' m1), nonceToIssue))"

definition consumeNonce ::
    "nonce_options \<Rightarrow> int \<Rightarrow> string \<Rightarrow> nonce_manager \<Rightarrow> nonce_error + (nonce_manager \<times> int)" where
  "consumeNonce opt now acct m = acquireNextNonce opt now acct m"

text \<open>
  \<open>pruneReplayCache\<close>: drop the expired entries, then the oldest ones while there are too many.
  The loop stops when the map is empty, as its \<open>break\<close> does.
\<close>

fun prune_oldest :: "int \<Rightarrow> (int \<times> int) list \<Rightarrow> (int \<times> int) list" where
  "prune_oldest w [] = []"
| "prune_oldest w (e # es) = (if int (length (e # es)) > w then prune_oldest w es else e # es)"

definition pruneReplayCache :: "nonce_options \<Rightarrow> int \<Rightarrow> (int \<times> int) list \<Rightarrow> (int \<times> int) list" where
  "pruneReplayCache opt now hist =
     prune_oldest (no_replayWindowSize opt)
       (filter (\<lambda>(k, t). \<not> now - t > no_replayTtlMs opt) hist)"

definition history_of :: "string \<Rightarrow> nonce_manager \<Rightarrow> (int \<times> int) list" where
  "history_of acct m = (case map_of (nm_committed m) acct of None \<Rightarrow> [] | Some h \<Rightarrow> h)"

definition commitNonce ::
    "nonce_options \<Rightarrow> int \<Rightarrow> string \<Rightarrow> nonce_arg \<Rightarrow> nonce_manager \<Rightarrow> nonce_error + nonce_manager" where
  "commitNonce opt now acct nonce m =
     rbind (parseNonce nonce) (\<lambda>parsed.
     rbind (ensureTracked opt now acct m) (\<lambda>(m1, st).
       let st' = st\<lparr>ns_inFlight := remove1 parsed (ns_inFlight st)\<rparr>;
           hist = pruneReplayCache opt now (AList.update parsed now (history_of acct m1));
           m2 = (put_state acct st' m1)\<lparr>nm_committed := AList.update acct hist (nm_committed m1)\<rparr>
       in Inr (log_event (NonceCommitted acct parsed) m2)))"

definition rollbackNonce ::
    "nonce_options \<Rightarrow> int \<Rightarrow> string \<Rightarrow> nonce_arg \<Rightarrow> nonce_manager \<Rightarrow> nonce_error + nonce_manager" where
  "rollbackNonce opt now acct nonce m =
     rbind (parseNonce nonce) (\<lambda>parsed.
     rbind (ensureTracked opt now acct m) (\<lambda>(m1, st).
       let st1 = st\<lparr>ns_inFlight := remove1 parsed (ns_inFlight st)\<rparr>;
           st2 = (if ns_currentNonce st1 = parsed + no_incrementStep opt
                  then st1\<lparr>ns_currentNonce := parsed\<rparr> else st1)
       in Inr (log_event (NonceRolledBack acct parsed) (put_state acct st2 m1))))"

text \<open>The second argument of \<open>resetNonce\<close>: nothing, a \<open>bigint\<close>, or an options object.\<close>

datatype reset_arg = ResetDefault | ResetTo int | ResetOptions "int option" "string option" "bool option"

definition reset_target :: "reset_arg \<Rightarrow> int \<times> string \<times> bool" where
  "reset_target a =
     (case a of
        ResetDefault \<Rightarrow> (0, ''manual'', False)
      | ResetTo n \<Rightarrow> (n, ''manual'', False)
      | ResetOptions n r c \<Rightarrow>
          (case n of None \<Rightarrow> 0 | Some v \<Rightarrow> v,
           case r of None \<Rightarrow> ''manual'' | Some s \<Rightarrow> if s = [] then ''manual'' else s,
           case c of None \<Rightarrow> False | Some b \<Rightarrow> b))"

text \<open>
  The account is tracked before the target is checked, so a refused reset returns the state it
  leaves behind.
\<close>

definition resetNonce ::
    "nonce_options \<Rightarrow> int \<Rightarrow> string \<Rightarrow> reset_arg \<Rightarrow> nonce_manager \<Rightarrow> nonce_manager \<times> (nonce_error + unit)" where
  "resetNonce opt now acct a m =
     (case ensureTracked opt now acct m of
        Inl e \<Rightarrow> (m, Inl e)
      | Inr (m1, st) \<Rightarrow>
          (let previous = ns_currentNonce st; (targetNonce, reason, clearReplay) = reset_target a
           in if targetNonce < 0
              then (m1, Inl (InvalidNonceError (''Cannot reset nonce to negative value: '' @ show_int targetNonce)))
              else
                (let st' = st\<lparr>ns_currentNonce := targetNonce, ns_inFlight := [], ns_lastUpdated := now\<rparr>;
                     m2 = put_state acct st' m1;
                     m3 = (if clearReplay then m2\<lparr>nm_committed := AList.delete acct (nm_committed m2)\<rparr> else m2)
                 in (log_event (NonceReset acct previous targetNonce reason) m3, Inr ()))))"

text \<open>\<open>syncNonce\<close>, given what \<open>fetchFn\<close> resolved to.\<close>

definition syncNonce ::
    "nonce_options \<Rightarrow> int \<Rightarrow> string \<Rightarrow> nonce_arg \<Rightarrow> nonce_manager \<Rightarrow> nonce_manager \<times> (nonce_error + int)" where
  "syncNonce opt now acct onChainVal m =
     (case parseNonce onChainVal of
        Inl e \<Rightarrow> (m, Inl e)
      | Inr parsed \<Rightarrow>
          (case resetNonce opt now acct (ResetOptions (Some parsed) (Some ''sync'') None) m of
             (m1, Inl e) \<Rightarrow> (m1, Inl e)
           | (m1, Inr _) \<Rightarrow> (m1, Inr parsed)))"

section \<open>Validation\<close>

definition replay_msg :: "string \<Rightarrow> int \<Rightarrow> string" where
  "replay_msg acct n =
     ''Replay attack detected: nonce '' @ show_int n @ '' was already committed for account '' @ acct"

definition stale_msg :: "int \<Rightarrow> int \<Rightarrow> string" where
  "stale_msg received expected =
     ''Stale nonce: received '' @ show_int received @ '' is lower than expected nonce '' @ show_int expected"

definition gap_msg :: "int \<Rightarrow> int \<Rightarrow> string" where
  "gap_msg received expected =
     ''Nonce gap: received '' @ show_int received @ '' but expected '' @ show_int expected"

text \<open>The message of an error that \<open>parseNonce\<close> throws; it throws no other.\<close>

definition error_message :: "nonce_error \<Rightarrow> string" where
  "error_message e = (case e of InvalidNonceError s \<Rightarrow> s | _ \<Rightarrow> ''Invalid nonce format'')"

definition nonce_validate ::
    "nonce_options \<Rightarrow> int \<Rightarrow> string \<Rightarrow> nonce_arg \<Rightarrow> bool option \<Rightarrow> nonce_manager
      \<Rightarrow> nonce_error + (nonce_manager \<times> nonce_check)" where
  "nonce_validate opt now acct nonce strict m =
     (case parseNonce nonce of
        Inl e \<Rightarrow> Inr (m, \<lparr>nc_valid = False, nc_error = Some (error_message e), nc_expected = None, nc_received = None\<rparr>)
      | Inr parsed \<Rightarrow>
          if (case map_of (history_of acct m) parsed of
                None \<Rightarrow> False | Some seenTime \<Rightarrow> now - seenTime \<le> no_replayTtlMs opt)
          then Inr (m, \<lparr>nc_valid = False, nc_error = Some (replay_msg acct parsed),
                        nc_expected = None, nc_received = Some parsed\<rparr>)
          else rbind (getNonceState opt now acct m) (\<lambda>(m1, st).
            let expected = ns_currentNonce st;
                isStrict = (case strict of None \<Rightarrow> no_strictOrdering opt | Some b \<Rightarrow> b)
            in if parsed < expected \<and> parsed \<notin> set (ns_inFlight st)
               then Inr (m1, \<lparr>nc_valid = False, nc_error = Some (stale_msg parsed expected),
                              nc_expected = Some expected, nc_received = Some parsed\<rparr>)
               else if \<not> parsed < expected \<and> isStrict \<and> parsed > expected
               then Inr (m1, \<lparr>nc_valid = False, nc_error = Some (gap_msg parsed expected),
                              nc_expected = Some expected, nc_received = Some parsed\<rparr>)
               else Inr (m1, \<lparr>nc_valid = True, nc_error = None,
                              nc_expected = Some expected, nc_received = Some parsed\<rparr>)))"

text \<open>
  \<open>validateBeforeSend\<close> picks the error to throw by looking for a word in the message. The
  constructors of the stale and gap errors call \<open>toString\<close> on both nonces.
\<close>

definition thrown_for :: "string \<Rightarrow> nonce_check \<Rightarrow> nonce_error" where
  "thrown_for acct r =
     (case nc_error r of
        None \<Rightarrow> InvalidNonceError ''Invalid nonce''
      | Some msg \<Rightarrow>
          if str_includes ''Replay attack'' msg then
            (case nc_received r of None \<Rightarrow> UndefinedToString | Some n \<Rightarrow> DuplicateNonceError acct n)
          else if str_includes ''Stale'' msg then
            (case (nc_expected r, nc_received r) of
               (Some e, Some n) \<Rightarrow> StaleNonceError acct e n | _ \<Rightarrow> UndefinedToString)
          else if str_includes ''gap'' msg then
            (case (nc_expected r, nc_received r) of
               (Some e, Some n) \<Rightarrow> NonceGapError acct e n | _ \<Rightarrow> UndefinedToString)
          else InvalidNonceError msg)"

definition validateBeforeSend ::
    "nonce_options \<Rightarrow> int \<Rightarrow> string \<Rightarrow> nonce_arg \<Rightarrow> bool option \<Rightarrow> nonce_manager
      \<Rightarrow> nonce_manager \<times> (nonce_error + unit)" where
  "validateBeforeSend opt now acct nonce strict m =
     (case nonce_validate opt now acct nonce strict m of
        Inl e \<Rightarrow> (m, Inl e)
      | Inr (m1, r) \<Rightarrow>
          if nc_valid r then (m1, Inr ())
          else (log_event (NonceValidationFailed acct (nc_received r)
                  (case nc_error r of None \<Rightarrow> ''Validation failed'' | Some msg \<Rightarrow> msg)) m1,
                Inl (thrown_for acct r)))"

definition clear_all :: "nonce_manager \<Rightarrow> nonce_manager" where
  "clear_all m = m\<lparr>nm_states := [], nm_committed := []\<rparr>"

definition tracked_count :: "nonce_manager \<Rightarrow> nat" where
  "tracked_count m = length (nm_states m)"

section \<open>The invariant\<close>

text \<open>
  The nonces in flight for an account are different, below the next one, and on its grid.
\<close>

definition ns_ok :: "nonce_options \<Rightarrow> nonce_state \<Rightarrow> bool" where
  "ns_ok opt st \<longleftrightarrow> distinct (ns_inFlight st) \<and>
     (\<forall>x \<in> set (ns_inFlight st). x < ns_currentNonce st \<and> no_incrementStep opt dvd ns_currentNonce st - x)"

definition nm_inv :: "nonce_options \<Rightarrow> nonce_manager \<Rightarrow> bool" where
  "nm_inv opt m \<longleftrightarrow> (\<forall>acct st. map_of (nm_states m) acct = Some st \<longrightarrow> ns_ok opt st)"

lemma nm_inv_new: "nm_inv opt nonce_manager_new"
  by (simp add: nm_inv_def nonce_manager_new_def)

lemma nm_inv_put [simp]: "nm_inv opt m \<Longrightarrow> ns_ok opt st \<Longrightarrow> nm_inv opt (put_state acct st m)"
  by (auto simp: nm_inv_def put_state_def split: if_splits)

lemma nm_inv_log [simp]: "nm_inv opt (log_event e m) = nm_inv opt m"
  by (simp add: nm_inv_def log_event_def)

lemma nm_inv_committed [simp]: "nm_inv opt (m\<lparr>nm_committed := c\<rparr>) = nm_inv opt m"
  by (simp add: nm_inv_def)

lemma put_state_simps [simp]:
  "map_of (nm_states (put_state acct st m)) = (map_of (nm_states m))(acct \<mapsto> st)"
  "nm_committed (put_state acct st m) = nm_committed m"
  "nm_log (put_state acct st m) = nm_log m"
  by (simp_all add: put_state_def)

lemma log_event_simps [simp]:
  "nm_states (log_event e m) = nm_states m" "nm_committed (log_event e m) = nm_committed m"
  by (simp_all add: log_event_def)

lemma nm_invD: "nm_inv opt m \<Longrightarrow> map_of (nm_states m) acct = Some st \<Longrightarrow> ns_ok opt st"
  by (simp add: nm_inv_def)

lemma ns_ok_fresh: "ns_ok opt \<lparr>ns_currentNonce = n, ns_lastUpdated = t, ns_inFlight = []\<rparr>"
  by (simp add: ns_ok_def)

lemma trackAccount_inv:
  "nm_inv opt m \<Longrightarrow> trackAccount opt now acct i m = Inr (m1, st) \<Longrightarrow>
     nm_inv opt m1 \<and> ns_ok opt st \<and> map_of (nm_states m1) acct = Some st \<and> nm_committed m1 = nm_committed m"
  by (auto simp: trackAccount_def ns_ok_fresh Let_def dest: nm_invD split: if_splits option.splits)

lemma ensureTracked_inv:
  "nm_inv opt m \<Longrightarrow> ensureTracked opt now acct m = Inr (m1, st) \<Longrightarrow>
     nm_inv opt m1 \<and> ns_ok opt st \<and> map_of (nm_states m1) acct = Some st \<and> nm_committed m1 = nm_committed m"
  by (cases "map_of (nm_states m) acct") (auto simp: ensureTracked_def dest: nm_invD trackAccount_inv)

lemma ns_ok_acquire:
  assumes "0 < no_incrementStep opt" and ok: "ns_ok opt st"
  shows "ns_ok opt (st\<lparr>ns_currentNonce := ns_currentNonce st + no_incrementStep opt, ns_lastUpdated := now,
       ns_inFlight := ns_inFlight st @ [ns_currentNonce st]\<rparr>)"
proof -
  have "no_incrementStep opt dvd ns_currentNonce st + no_incrementStep opt - x" if "x \<in> set (ns_inFlight st)" for x
  proof -
    have "no_incrementStep opt dvd (ns_currentNonce st - x) + no_incrementStep opt"
      using ok that by (simp add: ns_ok_def)
    then show ?thesis by (simp add: algebra_simps)
  qed
  then show ?thesis using assms by (fastforce simp: ns_ok_def)
qed

lemma ns_ok_remove: "ns_ok opt st \<Longrightarrow> ns_ok opt (st\<lparr>ns_inFlight := remove1 x (ns_inFlight st)\<rparr>)"
  by (auto simp: ns_ok_def set_remove1_eq)

lemma ns_ok_step_back:
  assumes "0 < no_incrementStep opt" and ok: "ns_ok opt st" and cur: "ns_currentNonce st = n + no_incrementStep opt"
  shows "ns_ok opt (st\<lparr>ns_inFlight := remove1 n (ns_inFlight st), ns_currentNonce := n\<rparr>)"
proof -
  have "x < n \<and> no_incrementStep opt dvd n - x" if "x \<in> set (ns_inFlight st)" "x \<noteq> n" for x
  proof -
    from ok that(1) cur have lt: "x < n + no_incrementStep opt"
      and dv: "no_incrementStep opt dvd n + no_incrementStep opt - x" by (auto simp: ns_ok_def)
    then have "no_incrementStep opt dvd (n - x) + no_incrementStep opt" by (simp add: algebra_simps)
    then have dv': "no_incrementStep opt dvd n - x" by simp
    moreover have "n - x \<noteq> 0" using that(2) by simp
    moreover have "\<not> n < x"
    proof
      assume "n < x"
      then have "0 < x - n" "x - n < no_incrementStep opt" using lt by simp_all
      moreover have "no_incrementStep opt dvd x - n" using dv' by (metis dvd_minus_iff minus_diff_eq)
      ultimately show False using zdvd_not_zless by blast
    qed
    ultimately show ?thesis by simp
  qed
  then show ?thesis using ok by (auto simp: ns_ok_def set_remove1_eq)
qed

section \<open>Every sequence of calls\<close>

datatype nonce_call =
    CTrack string "int option"
  | CGet string
  | CAcquire string
  | CCommit string nonce_arg
  | CRollback string nonce_arg
  | CReset string reset_arg
  | CSync string nonce_arg
  | CBeforeSend string nonce_arg "bool option"
  | CClear

definition keep :: "nonce_manager \<Rightarrow> nonce_error + nonce_manager \<Rightarrow> nonce_manager" where
  "keep m r = (case r of Inl _ \<Rightarrow> m | Inr m' \<Rightarrow> m')"

definition fst_res :: "nonce_error + (nonce_manager \<times> 'a) \<Rightarrow> nonce_error + nonce_manager" where
  "fst_res r = rbind r (\<lambda>p. Inr (fst p))"

fun nonce_step :: "nonce_options \<Rightarrow> nonce_manager \<Rightarrow> int \<times> nonce_call \<Rightarrow> nonce_manager" where
  "nonce_step opt m (now, CTrack a i) = keep m (fst_res (trackAccount opt now a i m))"
| "nonce_step opt m (now, CGet a) = keep m (fst_res (getNonceState opt now a m))"
| "nonce_step opt m (now, CAcquire a) = keep m (fst_res (acquireNextNonce opt now a m))"
| "nonce_step opt m (now, CCommit a n) = keep m (commitNonce opt now a n m)"
| "nonce_step opt m (now, CRollback a n) = keep m (rollbackNonce opt now a n m)"
| "nonce_step opt m (now, CReset a r) = fst (resetNonce opt now a r m)"
| "nonce_step opt m (now, CSync a n) = fst (syncNonce opt now a n m)"
| "nonce_step opt m (now, CBeforeSend a n s) = fst (validateBeforeSend opt now a n s m)"
| "nonce_step opt m (now, CClear) = clear_all m"

lemma acquire_inv:
  "0 < no_incrementStep opt \<Longrightarrow> nm_inv opt m \<Longrightarrow> acquireNextNonce opt now a m = Inr (m1, n) \<Longrightarrow> nm_inv opt m1"
  by (auto simp: acquireNextNonce_def rbind_Inr_iff Let_def intro!: nm_inv_put ns_ok_acquire dest: ensureTracked_inv)

lemma commit_inv: "nm_inv opt m \<Longrightarrow> commitNonce opt now a n m = Inr m1 \<Longrightarrow> nm_inv opt m1"
  by (auto simp: commitNonce_def rbind_Inr_iff Let_def intro!: nm_inv_put ns_ok_remove dest: ensureTracked_inv)

lemma rollback_inv:
  "0 < no_incrementStep opt \<Longrightarrow> nm_inv opt m \<Longrightarrow> rollbackNonce opt now a n m = Inr m1 \<Longrightarrow> nm_inv opt m1"
  by (auto simp: rollbackNonce_def rbind_Inr_iff Let_def intro!: nm_inv_put ns_ok_remove ns_ok_step_back
      dest: ensureTracked_inv split: if_splits)

lemma reset_inv: "nm_inv opt m \<Longrightarrow> nm_inv opt (fst (resetNonce opt now a r m))"
proof (cases "ensureTracked opt now a m")
  case (Inr p)
  assume "nm_inv opt m"
  moreover obtain m1 st where "p = (m1, st)" by (cases p)
  ultimately have "nm_inv opt m1" using ensureTracked_inv Inr by blast
  then show ?thesis
    by (auto simp: resetNonce_def Inr \<open>p = (m1, st)\<close> Let_def ns_ok_def split: prod.splits intro!: nm_inv_put)
qed (simp add: resetNonce_def)

lemma sync_inv: "nm_inv opt m \<Longrightarrow> nm_inv opt (fst (syncNonce opt now a n m))"
  using reset_inv [of opt m now a]
  by (auto simp: syncNonce_def split: sum.splits prod.splits) (metis fst_conv)+

lemma validate_inv:
  "nm_inv opt m \<Longrightarrow> nonce_validate opt now a n s m = Inr (m1, r) \<Longrightarrow> nm_inv opt m1"
  by (auto simp: nonce_validate_def getNonceState_def rbind_Inr_iff Let_def dest: ensureTracked_inv
      split: sum.splits if_splits)

lemma before_send_inv: "nm_inv opt m \<Longrightarrow> nm_inv opt (fst (validateBeforeSend opt now a n s m))"
  by (auto simp: validateBeforeSend_def split: sum.splits dest: validate_inv)

lemma keep_inv: "nm_inv opt m \<Longrightarrow> (\<And>m'. r = Inr m' \<Longrightarrow> nm_inv opt m') \<Longrightarrow> nm_inv opt (keep m r)"
  by (auto simp: keep_def split: sum.splits)

lemma nonce_step_inv:
  assumes "0 < no_incrementStep opt" and inv: "nm_inv opt m"
  shows "nm_inv opt (nonce_step opt m e)"
proof (cases "(opt, m, e)" rule: nonce_step.cases)
  case (1 opt' m' now a i)
  with inv show ?thesis by (auto simp: fst_res_def rbind_Inr_iff intro!: keep_inv dest: trackAccount_inv)
next
  case (2 opt' m' now a)
  with inv show ?thesis
    by (auto simp: fst_res_def rbind_Inr_iff getNonceState_def intro!: keep_inv dest: ensureTracked_inv)
next
  case (3 opt' m' now a)
  with assms show ?thesis by (auto simp: fst_res_def rbind_Inr_iff intro!: keep_inv dest: acquire_inv)
next
  case (9 opt' m' now)
  then show ?thesis by (simp add: clear_all_def nm_inv_def)
qed (use assms in \<open>auto intro!: keep_inv reset_inv sync_inv before_send_inv dest: commit_inv rollback_inv\<close>)

text \<open>An increment of zero or less breaks the invariant, so the machine is the one with a positive step.\<close>

definition pos_step :: "nonce_options \<Rightarrow> nonce_manager \<Rightarrow> bool" where
  "pos_step opt m \<longleftrightarrow> 0 < no_incrementStep opt \<and> nm_inv opt m"

interpretation nonces: machine "nonce_step opt" "pos_step opt"
  by unfold_locales (simp add: pos_step_def nonce_step_inv)

definition in_flight :: "string \<Rightarrow> nonce_manager \<Rightarrow> int list" where
  "in_flight a m = (case map_of (nm_states m) a of None \<Rightarrow> [] | Some st \<Rightarrow> ns_inFlight st)"

lemma ensureTracked_in_flight:
  "ensureTracked opt now a m = Inr (m1, st) \<Longrightarrow> ns_inFlight st = in_flight a m"
  by (auto simp: ensureTracked_def trackAccount_def in_flight_def Let_def split: option.splits if_splits)

section \<open>The words in the messages\<close>

lemma not_includes: "c \<in> set needle \<Longrightarrow> c \<notin> set hay \<Longrightarrow> \<not> str_includes needle hay"
  using str_includes_chars by blast

lemma show_int_no_letter: "\<not> is_digit c \<Longrightarrow> c \<noteq> CHR ''-'' \<Longrightarrow> c \<notin> set (show_int i)"
  using show_int_chars by blast

lemma replay_msg_word: "str_includes ''Replay attack'' (replay_msg a n)"
  using str_includes_append [of "''Replay attack''" "[]"] by (simp add: replay_msg_def)

lemma stale_msg_words:
  "\<not> str_includes ''Replay attack'' (stale_msg n e)" "str_includes ''Stale'' (stale_msg n e)"
proof -
  have "CHR ''R'' \<notin> set (stale_msg n e)"
    by (simp add: stale_msg_def show_int_no_letter is_digit_def)
  then show "\<not> str_includes ''Replay attack'' (stale_msg n e)" by (intro not_includes) auto
  show "str_includes ''Stale'' (stale_msg n e)"
    using str_includes_append [of "''Stale''" "[]"] by (simp add: stale_msg_def)
qed

lemma gap_msg_words:
  "\<not> str_includes ''Replay attack'' (gap_msg n e)" "\<not> str_includes ''Stale'' (gap_msg n e)"
  "str_includes ''gap'' (gap_msg n e)"
proof -
  have "CHR ''R'' \<notin> set (gap_msg n e)" "CHR ''S'' \<notin> set (gap_msg n e)"
    by (simp_all add: gap_msg_def show_int_no_letter is_digit_def)
  then show "\<not> str_includes ''Replay attack'' (gap_msg n e)" "\<not> str_includes ''Stale'' (gap_msg n e)"
    using not_includes [of "CHR ''R''" "''Replay attack''" "gap_msg n e"]
      not_includes [of "CHR ''S''" "''Stale''" "gap_msg n e"] by simp_all
  show "str_includes ''gap'' (gap_msg n e)"
    using str_includes_append [of "''gap''" "''Nonce ''"] by (simp add: gap_msg_def)
qed

lemmas msg_words = replay_msg_word stale_msg_words gap_msg_words

lemma length_prune_oldest: "0 \<le> w \<Longrightarrow> int (length (prune_oldest w h)) \<le> w"
  by (induction w h rule: prune_oldest.induct) auto

lemma set_prune_oldest: "set (prune_oldest w h) \<subseteq> set h"
  by (induction w h rule: prune_oldest.induct) auto

section \<open>Properties\<close>

text \<open>
  C34: After any sequence of calls, for any accounts and arguments, the nonce that
  \<open>acquireNextNonce\<close> hands out is not in flight already: two transactions that are both neither
  committed nor rolled back never carry the same nonce.
\<close>

theorem acquired_nonce_not_in_flight:
  assumes "0 < no_incrementStep opt" and "m = foldl (nonce_step opt) nonce_manager_new calls"
    and "acquireNextNonce opt now acct m = Inr (m', n)"
  shows "n \<notin> set (in_flight acct m) \<and> in_flight acct m' = in_flight acct m @ [n] \<and> distinct (in_flight acct m')"
proof -
  have inv: "nm_inv opt m"
    using nonces.run_inv [of opt nonce_manager_new calls] assms(1,2) by (simp add: pos_step_def nm_inv_new)
  from assms(3) obtain m1 st where en: "ensureTracked opt now acct m = Inr (m1, st)"
    and n: "n = ns_currentNonce st" and m': "in_flight acct m' = ns_inFlight st @ [n]"
    by (auto simp: acquireNextNonce_def rbind_Inr_iff Let_def in_flight_def)
  from ensureTracked_inv [OF inv en] have "ns_ok opt st" by blast
  with n m' ensureTracked_in_flight [OF en] show ?thesis by (auto simp: ns_ok_def)
qed

theorem acquired_nonce_not_in_flight_witness:
  "\<exists>m'. acquireNextNonce default_options 7 ''G''
     (foldl (nonce_step default_options) nonce_manager_new [(5, CAcquire ''G''), (6, CAcquire ''G'')]) = Inr (m', 2)
   \<and> in_flight ''G'' m' = [0, 1] @ [2]"
proof -
  let ?m = "foldl (nonce_step default_options) nonce_manager_new [(5, CAcquire ''G''), (6, CAcquire ''G'')]"
  have "\<exists>m'. acquireNextNonce default_options 7 ''G'' ?m = Inr (m', 2)" and i: "in_flight ''G'' ?m = [0, 1]"
    by (simp_all add: nonce_manager_new_def default_options_def keep_def fst_res_def acquireNextNonce_def
        ensureTracked_def trackAccount_def in_flight_def Let_def)
  then obtain m' where m': "acquireNextNonce default_options 7 ''G'' ?m = Inr (m', 2)" by blast
  with acquired_nonce_not_in_flight [OF _ refl m'] i show ?thesis
    by (intro exI [of _ m']) (simp add: default_options_def)
qed

text \<open>
  A nonce that was acquired and then committed is refused at any later time by the validation
  of the resulting state, however long ago the commit was and whether or not ordering is strict:
  once its replay entry has expired it is refused as stale.
\<close>

theorem committed_nonce_never_valid_again:
  assumes "0 < no_incrementStep opt" and "m = foldl (nonce_step opt) nonce_manager_new calls"
    and "acquireNextNonce opt t1 acct m = Inr (m1, n)"
    and "commitNonce opt t2 acct (NBig n) m1 = Inr m2"
  shows "\<exists>m3 r. nonce_validate opt t3 acct (NBig n) strict m2 = Inr (m3, r) \<and> \<not> nc_valid r"
proof -
  have inv: "nm_inv opt m"
    using nonces.run_inv [of opt nonce_manager_new calls] assms(1,2) by (simp add: pos_step_def nm_inv_new)
  from assms(3) obtain m0 st where en: "ensureTracked opt t1 acct m = Inr (m0, st)"
    and n: "n = ns_currentNonce st"
    and m1: "map_of (nm_states m1) acct = Some (st\<lparr>ns_currentNonce := n + no_incrementStep opt,
               ns_lastUpdated := t1, ns_inFlight := ns_inFlight st @ [n]\<rparr>)"
    by (auto simp: acquireNextNonce_def rbind_Inr_iff Let_def)
  from ensureTracked_inv [OF inv en] n have fresh: "n \<notin> set (ns_inFlight st)" by (auto simp: ns_ok_def)
  from assms(4) m1 have pos: "0 \<le> n" and m2: "map_of (nm_states m2) acct = Some (st\<lparr>
      ns_currentNonce := n + no_incrementStep opt, ns_lastUpdated := t1, ns_inFlight := ns_inFlight st\<rparr>)"
    using fresh by (auto simp: commitNonce_def rbind_Inr_iff ensureTracked_def Let_def remove1_append
        remove1_idem split: if_splits)
  show ?thesis
    using assms(1) pos fresh
    by (simp add: nonce_validate_def getNonceState_def ensureTracked_def m2 Let_def)
qed

theorem committed_nonce_never_valid_again_witness:
  "\<exists>m1 m2 m3 r. acquireNextNonce default_options 5 ''G'' nonce_manager_new = Inr (m1, 0) \<and>
     commitNonce default_options 6 ''G'' (NBig 0) m1 = Inr m2 \<and>
     nonce_validate default_options 900000 ''G'' (NBig 0) None m2 = Inr (m3, r) \<and> \<not> nc_valid r"
proof -
  have "\<exists>m1. acquireNextNonce default_options 5 ''G'' nonce_manager_new = Inr (m1, 0)"
    by (simp add: acquireNextNonce_def ensureTracked_def trackAccount_def nonce_manager_new_def default_options_def Let_def)
  then obtain m1 where m1: "acquireNextNonce default_options 5 ''G'' nonce_manager_new = Inr (m1, 0)" by blast
  then have "\<exists>m2. commitNonce default_options 6 ''G'' (NBig 0) m1 = Inr m2"
    by (auto simp: acquireNextNonce_def ensureTracked_def trackAccount_def nonce_manager_new_def default_options_def
        commitNonce_def Let_def)
  then obtain m2 where m2: "commitNonce default_options 6 ''G'' (NBig 0) m1 = Inr m2" by blast
  have "nonce_manager_new = foldl (nonce_step default_options) nonce_manager_new []" by simp
  from committed_nonce_never_valid_again [OF _ this m1 m2, of 900000 None] m1 m2 show ?thesis
    by (auto simp: default_options_def)
qed

text \<open>
  Committing keeps the replay cache of the account within its window and free of expired
  entries, and the committed nonce is refused as a replay until its entry expires, as long as the
  window has room for at least one entry.
\<close>

theorem commit_bounds_replay_cache:
  assumes "commitNonce opt now acct (NBig n) m = Inr m'" and "0 \<le> no_replayWindowSize opt"
  shows "int (length (history_of acct m')) \<le> no_replayWindowSize opt \<and>
    (\<forall>(k, t) \<in> set (history_of acct m'). now - t \<le> no_replayTtlMs opt)"
proof -
  from assms(1) obtain h where h: "history_of acct m' = pruneReplayCache opt now h"
    by (auto simp: commitNonce_def rbind_Inr_iff Let_def history_of_def)
  show ?thesis
    unfolding h pruneReplayCache_def
    using length_prune_oldest [OF assms(2)] set_prune_oldest [of "no_replayWindowSize opt"] by fastforce
qed

theorem commit_bounds_replay_cache_witness:
  "\<exists>m'. commitNonce (default_options\<lparr>no_replayWindowSize := 1\<rparr>) 9 ''G'' (NBig 4)
      \<lparr>nm_states = [], nm_committed = [(''G'', [(2, 5), (3, 6)])], nm_log = []\<rparr> = Inr m' \<and>
     int (length (history_of ''G'' m')) \<le> 1"
proof -
  let ?opt = "default_options\<lparr>no_replayWindowSize := 1\<rparr>"
  have "\<exists>m'. commitNonce ?opt 9 ''G'' (NBig 4)
      \<lparr>nm_states = [], nm_committed = [(''G'', [(2, 5), (3, 6)])], nm_log = []\<rparr> = Inr m'"
    by (simp add: commitNonce_def ensureTracked_def trackAccount_def Let_def)
  then obtain m' where m': "commitNonce ?opt 9 ''G'' (NBig 4)
      \<lparr>nm_states = [], nm_committed = [(''G'', [(2, 5), (3, 6)])], nm_log = []\<rparr> = Inr m'" by blast
  from commit_bounds_replay_cache [OF m'] show ?thesis using m' by auto
qed

text \<open>
  C40: For a nonce given as a \<open>bigint\<close>, \<open>validateBeforeSend\<close> throws the error that fits the
  reason: a duplicate while the replay entry lives, a stale nonce below the next one and not in
  flight, a gap above it under strict ordering, each with both numbers; otherwise it accepts.
  The search for words in the message never picks the wrong class.
\<close>

theorem before_send_classifies:
  assumes "0 \<le> n" and "acct \<noteq> []"
  shows "snd (validateBeforeSend opt now acct (NBig n) strict m) =
    (let cur = (case map_of (nm_states m) acct of None \<Rightarrow> no_initialNonce opt | Some st \<Rightarrow> ns_currentNonce st)
     in if (\<exists>t. map_of (history_of acct m) n = Some t \<and> now - t \<le> no_replayTtlMs opt)
        then Inl (DuplicateNonceError acct n)
        else if n < cur \<and> n \<notin> set (in_flight acct m) then Inl (StaleNonceError acct cur n)
        else if n > cur \<and> (case strict of None \<Rightarrow> no_strictOrdering opt | Some b \<Rightarrow> b)
        then Inl (NonceGapError acct cur n)
        else Inr ())"
proof (cases "\<exists>t. map_of (history_of acct m) n = Some t \<and> now - t \<le> no_replayTtlMs opt")
  case True
  then have "nonce_validate opt now acct (NBig n) strict m = Inr (m, \<lparr>nc_valid = False,
      nc_error = Some (replay_msg acct n), nc_expected = None, nc_received = Some n\<rparr>)"
    using assms(1) by (auto simp: nonce_validate_def)
  with True show ?thesis by (simp add: validateBeforeSend_def thrown_for_def msg_words)
next
  case False
  then have nr: "\<not> (case map_of (history_of acct m) n of None \<Rightarrow> False | Some t \<Rightarrow> now - t \<le> no_replayTtlMs opt)"
    by (simp split: option.splits)
  obtain m1 st where st: "getNonceState opt now acct m = Inr (m1, st)"
    and cur: "ns_currentNonce st = (case map_of (nm_states m) acct of None \<Rightarrow> no_initialNonce opt | Some st \<Rightarrow> ns_currentNonce st)"
    and fl: "ns_inFlight st = in_flight acct m"
    using assms(2) by (cases "map_of (nm_states m) acct")
      (auto simp: getNonceState_def ensureTracked_def trackAccount_def in_flight_def Let_def)
  show ?thesis
    unfolding cur [symmetric] fl [symmetric] using False nr assms(1)
    by (auto simp: validateBeforeSend_def nonce_validate_def st Let_def thrown_for_def msg_words)
qed

theorem before_send_classifies_witness:
  "snd (validateBeforeSend default_options 5 ''G'' (NBig 3) None nonce_manager_new) = Inl (NonceGapError ''G'' 0 3)"
  using before_send_classifies [of 3 "''G''" default_options 5 None nonce_manager_new]
  by (simp add: nonce_manager_new_def default_options_def history_of_def in_flight_def)

text \<open>
  C37: For a nonce given as a string the search for words goes wrong: the text of a rejected
  string is part of the message, so the invalid nonce \<open>Stale\<close> is taken for a stale nonce whose
  numbers are missing, and the constructor of the error fails on them.
\<close>

theorem invalid_string_misclassified:
  "snd (validateBeforeSend default_options 5 ''G'' (NStr ''Stale'') None nonce_manager_new) = Inl UndefinedToString"
  by (simp add: validateBeforeSend_def nonce_validate_def trim_def is_space_def is_digit_def error_message_def
      thrown_for_def)

text \<open>
  C60: Rolling a nonce back after it was committed makes \<open>acquireNextNonce\<close> hand it out again:
  the rollback steps the counter back without looking whether the nonce was still in flight.
\<close>

theorem rollback_after_commit_reissues:
  assumes "acquireNextNonce opt t1 acct m = Inr (m1, n)"
    and "commitNonce opt t2 acct (NBig n) m1 = Inr m2"
    and "rollbackNonce opt t3 acct (NBig n) m2 = Inr m3"
  shows "\<exists>m4. acquireNextNonce opt t4 acct m3 = Inr (m4, n)"
proof -
  from assms(1) obtain st where "map_of (nm_states m1) acct = Some st" "ns_currentNonce st = n + no_incrementStep opt"
    by (auto simp: acquireNextNonce_def rbind_Inr_iff Let_def)
  with assms(2) obtain st2 where "map_of (nm_states m2) acct = Some st2" "ns_currentNonce st2 = n + no_incrementStep opt"
    by (auto simp: commitNonce_def rbind_Inr_iff ensureTracked_def Let_def split: if_splits)
  with assms(3) obtain st3 where "map_of (nm_states m3) acct = Some st3" "ns_currentNonce st3 = n"
    by (auto simp: rollbackNonce_def rbind_Inr_iff ensureTracked_def Let_def split: if_splits)
  then show ?thesis by (simp add: acquireNextNonce_def ensureTracked_def Let_def)
qed

theorem rollback_after_commit_reissues_witness:
  "\<exists>m3 m4. acquireNextNonce default_options 8 ''G'' m3 = Inr (m4, 0) \<and> m3 \<noteq> nonce_manager_new"
proof -
  have "\<exists>m1. acquireNextNonce default_options 5 ''G'' nonce_manager_new = Inr (m1, 0)"
    by (simp add: acquireNextNonce_def ensureTracked_def trackAccount_def nonce_manager_new_def default_options_def Let_def)
  then obtain m1 where m1: "acquireNextNonce default_options 5 ''G'' nonce_manager_new = Inr (m1, 0)" by blast
  then have "\<exists>m2. commitNonce default_options 6 ''G'' (NBig 0) m1 = Inr m2"
    by (auto simp: acquireNextNonce_def ensureTracked_def trackAccount_def nonce_manager_new_def default_options_def
        commitNonce_def Let_def)
  then obtain m2 where m2: "commitNonce default_options 6 ''G'' (NBig 0) m1 = Inr m2" by blast
  then have "\<exists>m3. rollbackNonce default_options 7 ''G'' (NBig 0) m2 = Inr m3"
    by (auto simp: rollbackNonce_def ensureTracked_def commitNonce_def rbind_Inr_iff Let_def)
  then obtain m3 where m3: "rollbackNonce default_options 7 ''G'' (NBig 0) m2 = Inr m3" by blast
  then have "nm_log m3 \<noteq> []" by (auto simp: rollbackNonce_def rbind_Inr_iff Let_def log_event_def)
  then have "m3 \<noteq> nonce_manager_new" by (auto simp: nonce_manager_new_def)
  with rollback_after_commit_reissues [OF m1 m2 m3] show ?thesis by blast
qed

end
