(* ===== verification/Optimistic_Cache.thy ===== *)
theory Optimistic_Cache
  imports Cache "HOL-Library.Word"
begin

text \<open>
  \<open>cache/OptimisticCache.ts\<close>: predictions over a cache. A prediction is the closure pair that
  \<open>applyOptimistic\<close> returns; it is named by its entry, whose version is never used again. The clock is
  \<open>Date.now\<close> throughout (the default of the \<open>now\<close> option). What a fetcher returns is an argument.
\<close>

section \<open>Run lengths of bytes\<close>

fun run_length :: "'a \<Rightarrow> 'a list \<Rightarrow> nat \<Rightarrow> nat" where
  "run_length v (x # xs) limit = (if x = v \<and> 0 < limit then Suc (run_length v xs (limit - 1)) else 0)"
| "run_length v [] limit = 0"

text \<open>The remaining bytes of \<open>rleEncode\<close>: a run has at most 255 of them.\<close>

function rleEncode :: "8 word list \<Rightarrow> 8 word list" where
  "rleEncode [] = []"
| "rleEncode (v # bs) =
     (let n = Suc (run_length v bs 254) in word_of_nat n # v # rleEncode (drop n (v # bs)))"
  by pat_completeness auto
termination by (relation "measure length") simp_all

fun rleDecode :: "8 word list \<Rightarrow> 8 word list" where
  "rleDecode (run # v # bs) = replicate (unat run) v @ rleDecode bs"
| "rleDecode bs = []"

lemma run_length_bound: "run_length v bs limit \<le> limit"
  by (induction v bs limit rule: run_length.induct) auto

lemma run_length_take: "bs = replicate (run_length v bs limit) v @ drop (run_length v bs limit) bs"
  by (induction v bs limit rule: run_length.induct) auto

section \<open>State\<close>

record 'v optimistic_entry =
  oe_invoiceId :: string
  oe_version :: nat
  oe_predicted :: 'v
  oe_rollback :: 'v

record 'v freshness_entry =
  fe_value :: 'v
  fe_freshUntil :: int
  fe_staleUntil :: int

record 'v optimistic_cache =
  oc_base :: "'v simple_cache"
  oc_pending :: "(string \<times> 'v optimistic_entry list) list"
  oc_expiries :: "(string \<times> int) list"
  oc_versions :: "(string \<times> nat) list"
  oc_freshness :: "(string \<times> 'v freshness_entry) list"
  oc_revalidations :: "string list"
  oc_settled :: "(string \<times> nat) list"
  oc_defaultTtl :: int
  oc_staleWindow :: int

datatype 'v optimistic_event =
    OHit string 'v | OMiss string | OSet string 'v | OExpire string "'v option" | OInvalidate string
  | ORollback string string 'v
  | ORevalidateError string

definition optimistic_cache_new :: "'v simple_cache option \<Rightarrow> int option \<Rightarrow> int option \<Rightarrow> 'v optimistic_cache" where
  "optimistic_cache_new base ttl stale =
     (let t = (case ttl of Some x \<Rightarrow> x | None \<Rightarrow> 60000)
      in \<lparr>oc_base = (case base of Some b \<Rightarrow> b
            | None \<Rightarrow> simple_cache_new (Some \<lparr>cfg_enabled = Some True, cfg_ttl = None, cfg_ttlMs = Some t, cfg_maxEntries = None\<rparr>)),
          oc_pending = [], oc_expiries = [], oc_versions = [], oc_freshness = [], oc_revalidations = [], oc_settled = [],
          oc_defaultTtl = t, oc_staleWindow = (case stale of Some x \<Rightarrow> x | None \<Rightarrow> 0)\<rparr>)"

definition queue_of :: "string \<Rightarrow> 'v optimistic_cache \<Rightarrow> 'v optimistic_entry list" where
  "queue_of i s = (case map_of (oc_pending s) i of Some q \<Rightarrow> q | None \<Rightarrow> [])"

definition oc_isExpired :: "string \<Rightarrow> int \<Rightarrow> 'v optimistic_cache \<Rightarrow> bool" where
  "oc_isExpired i now s = (case map_of (oc_expiries s) i of Some e \<Rightarrow> now \<ge> e | None \<Rightarrow> False)"

section \<open>Operations\<close>

definition oc_get :: "string \<Rightarrow> int \<Rightarrow> 'v optimistic_cache \<Rightarrow> 'v option \<times> 'v optimistic_cache \<times> 'v optimistic_event list" where
  "oc_get i now s =
     (if queue_of i s \<noteq> [] then
        (let v = oe_predicted (last (queue_of i s)) in (Some v, s, [OHit i v]))
      else case sc_get i now (oc_base s) of
        (value, base, ev) \<Rightarrow>
          if oc_isExpired i now s then
            (None, s\<lparr>oc_base := fst (sc_delete i base), oc_expiries := AList.delete i (oc_expiries s)\<rparr>, [OExpire i value])
          else (value, s\<lparr>oc_base := base\<rparr>, [case value of None \<Rightarrow> OMiss i | Some v \<Rightarrow> OHit i v]))"

definition oc_set :: "string \<Rightarrow> 'v \<Rightarrow> int option \<Rightarrow> int \<Rightarrow> 'v optimistic_cache \<Rightarrow> 'v optimistic_cache \<times> 'v optimistic_event list" where
  "oc_set i v ttlMs now s =
     (let ttl = (case ttlMs of Some t \<Rightarrow> t | None \<Rightarrow> oc_defaultTtl s)
      in (s\<lparr>oc_freshness := AList.update i \<lparr>fe_value = v, fe_freshUntil = now + ttl,
              fe_staleUntil = now + ttl + oc_staleWindow s\<rparr> (oc_freshness s),
            oc_base := fst (sc_set i v now (oc_base s)),
            oc_expiries := (if ttl > 0 then AList.update i (now + ttl) (oc_expiries s) else AList.delete i (oc_expiries s))\<rparr>,
          [OSet i v]))"

definition oc_invalidate :: "string \<Rightarrow> 'v optimistic_cache \<Rightarrow> 'v optimistic_cache \<times> 'v optimistic_event list" where
  "oc_invalidate i s =
     (s\<lparr>oc_pending := AList.delete i (oc_pending s), oc_expiries := AList.delete i (oc_expiries s),
        oc_base := fst (sc_delete i (oc_base s))\<rparr>, [OInvalidate i])"

fun invalidate_more ::
  "'v optimistic_cache \<times> 'v optimistic_event list \<Rightarrow> string \<Rightarrow> 'v optimistic_cache \<times> 'v optimistic_event list" where
  "invalidate_more (s, ev) i = (fst (oc_invalidate i s), ev @ snd (oc_invalidate i s))"

definition oc_invalidateAll :: "'v optimistic_cache \<Rightarrow> 'v optimistic_cache \<times> 'v optimistic_event list" where
  "oc_invalidateAll s =
     foldl invalidate_more (s, [])
       (foldl (\<lambda>ks k. set_add k ks) [] (map fst (oc_pending s) @ map fst (oc_expiries s)))"

definition pendingCount :: "'v optimistic_cache \<Rightarrow> nat" where
  "pendingCount s = sum_list (map (\<lambda>(i, q). length q) (oc_pending s))"

definition entry_key :: "'v optimistic_entry \<Rightarrow> string" where
  "entry_key e = oe_invoiceId e @ ''@'' @ show_nat (oe_version e)"

definition applyOptimistic :: "string \<Rightarrow> 'v \<Rightarrow> 'v \<Rightarrow> 'v optimistic_cache \<Rightarrow> 'v optimistic_entry \<times> 'v optimistic_cache" where
  "applyOptimistic i predicted rollback s =
     (let version = (case map_of (oc_versions s) i of Some n \<Rightarrow> n | None \<Rightarrow> 0) + 1;
          e = \<lparr>oe_invoiceId = i, oe_version = version, oe_predicted = predicted, oe_rollback = rollback\<rparr>
      in (e, s\<lparr>oc_versions := AList.update i version (oc_versions s),
               oc_pending := AList.update i (queue_of i s @ [e]) (oc_pending s)\<rparr>))"

text \<open>Entries are compared by identity, which is their invoice and version.\<close>

definition entry_id :: "'v optimistic_entry \<Rightarrow> string \<times> nat" where
  "entry_id e = (oe_invoiceId e, oe_version e)"

definition without :: "'v optimistic_entry \<Rightarrow> 'v optimistic_entry list \<Rightarrow> 'v optimistic_entry list" where
  "without e q = filter (\<lambda>x. entry_id x \<noteq> entry_id e) q"

definition removeEntry :: "'v optimistic_entry \<Rightarrow> 'v optimistic_cache \<Rightarrow> 'v optimistic_cache" where
  "removeEntry e s =
     (case map_of (oc_pending s) (oe_invoiceId e) of
        None \<Rightarrow> s
      | Some q \<Rightarrow>
          s\<lparr>oc_pending := (if without e q = [] then AList.delete (oe_invoiceId e) (oc_pending s)
                          else AList.update (oe_invoiceId e) (without e q) (oc_pending s))\<rparr>)"

definition settle :: "'v optimistic_entry \<Rightarrow> 'v optimistic_cache \<Rightarrow> 'v optimistic_cache" where
  "settle e s = s\<lparr>oc_settled := entry_id e # oc_settled s\<rparr>"

definition commit :: "'v optimistic_entry \<Rightarrow> int \<Rightarrow> 'v optimistic_cache \<Rightarrow> 'v optimistic_cache \<times> 'v optimistic_event list" where
  "commit e now s =
     (if entry_id e \<in> set (oc_settled s) then (s, [])
      else case oc_set (oe_invoiceId e) (oe_predicted e) None now (settle e s) of (s1, ev) \<Rightarrow> (removeEntry e s1, ev))"

definition rollback :: "'v optimistic_entry \<Rightarrow> int \<Rightarrow> 'v optimistic_cache \<Rightarrow> 'v optimistic_cache \<times> 'v optimistic_event list" where
  "rollback e now s =
     (if entry_id e \<in> set (oc_settled s) then (s, [])
      else
        let s1 = removeEntry e (settle e s);
            remaining = queue_of (oe_invoiceId e) s1;
            restored = (if remaining \<noteq> [] then oe_predicted (last remaining) else oe_rollback e);
            (s2, ev) = (if remaining = [] then oc_set (oe_invoiceId e) (oe_rollback e) None now s1 else (s1, []))
        in (s2, ev @ [ORollback (entry_key e) (oe_invoiceId e) restored]))"

section \<open>Reading through\<close>

datatype 'v read_outcome = ServeFresh 'v | ServeStale 'v bool \<comment> \<open>whether a revalidation starts\<close> | BlockOnFetch

definition read_start :: "string \<Rightarrow> int \<Rightarrow> 'v optimistic_cache \<Rightarrow> 'v read_outcome \<times> 'v optimistic_cache" where
  "read_start key now s =
     (case map_of (oc_freshness s) key of
        None \<Rightarrow> (BlockOnFetch, s)
      | Some e \<Rightarrow>
          if now < fe_staleUntil e then
            (if now < fe_freshUntil e then (ServeFresh (fe_value e), s)
             else if key \<in> set (oc_revalidations s) then (ServeStale (fe_value e) False, s)
             else (ServeStale (fe_value e) True, s\<lparr>oc_revalidations := oc_revalidations s @ [key]\<rparr>))
          else (BlockOnFetch, s))"

text \<open>\<open>_fetchAndStore\<close> when the fetcher resolves; a rejection goes to the caller and changes nothing.\<close>

definition fetch_resolved ::
  "string \<Rightarrow> 'v option \<Rightarrow> int option \<Rightarrow> int \<Rightarrow> 'v optimistic_cache \<Rightarrow> 'v option \<times> 'v optimistic_cache \<times> 'v optimistic_event list" where
  "fetch_resolved key value ttlMs now s =
     (value, case value of Some v \<Rightarrow> oc_set key v ttlMs now s | None \<Rightarrow> (s, []))"

definition revalidation_resolved ::
  "string \<Rightarrow> 'v option \<Rightarrow> int option \<Rightarrow> int \<Rightarrow> 'v optimistic_cache \<Rightarrow> 'v optimistic_cache \<times> 'v optimistic_event list" where
  "revalidation_resolved key value ttlMs now s =
     (case (case value of Some v \<Rightarrow> oc_set key v ttlMs now s | None \<Rightarrow> (s, [])) of
        (s1, ev) \<Rightarrow> (s1\<lparr>oc_revalidations := removeAll key (oc_revalidations s1)\<rparr>, ev))"

definition revalidation_failed :: "string \<Rightarrow> 'v optimistic_cache \<Rightarrow> 'v optimistic_cache \<times> 'v optimistic_event list" where
  "revalidation_failed key s = (s\<lparr>oc_revalidations := removeAll key (oc_revalidations s)\<rparr>, [ORevalidateError key])"

section \<open>Histories\<close>

text \<open>
  A history keeps what the callers hold and saw: the predictions issued, those dropped by an
  invalidation, and the events. Calls settle a prediction they hold.
\<close>

record 'v oc_trace =
  ot_issued :: "'v optimistic_entry list"
  ot_dropped :: "(string \<times> nat) list"
  ot_events :: "'v optimistic_event list"
  ot_cache :: "'v optimistic_cache"

datatype 'v oc_step =
    ApplyStep string 'v 'v
  | CommitStep nat
  | RollbackStep nat
  | SetStep string 'v "int option"
  | GetStep string
  | InvalidateStep string
  | InvalidateAllStep
  | ReadStep string
  | FetchedStep string "'v option" "int option"
  | RevalidatedStep string "'v option" "int option"
  | RevalidationFailedStep string

definition record_step :: "'v oc_trace \<Rightarrow> 'v optimistic_cache \<times> 'v optimistic_event list \<Rightarrow> 'v oc_trace" where
  "record_step tr r = tr\<lparr>ot_cache := fst r, ot_events := ot_events tr @ snd r\<rparr>"

fun oc_advance :: "'v oc_trace \<Rightarrow> int \<times> 'v oc_step \<Rightarrow> 'v oc_trace" where
  "oc_advance tr (t, ApplyStep i p r) =
     (case applyOptimistic i p r (ot_cache tr) of (e, s) \<Rightarrow> tr\<lparr>ot_issued := ot_issued tr @ [e], ot_cache := s\<rparr>)"
| "oc_advance tr (t, CommitStep n) =
     (if n < length (ot_issued tr) then record_step tr (commit (ot_issued tr ! n) t (ot_cache tr)) else tr)"
| "oc_advance tr (t, RollbackStep n) =
     (if n < length (ot_issued tr) then record_step tr (rollback (ot_issued tr ! n) t (ot_cache tr)) else tr)"
| "oc_advance tr (t, SetStep i v ttl) = record_step tr (oc_set i v ttl t (ot_cache tr))"
| "oc_advance tr (t, GetStep i) = record_step tr (snd (oc_get i t (ot_cache tr)))"
| "oc_advance tr (t, InvalidateStep i) =
     (record_step tr (oc_invalidate i (ot_cache tr)))
       \<lparr>ot_dropped := ot_dropped tr @ map entry_id (filter (\<lambda>e. oe_invoiceId e = i) (ot_issued tr))\<rparr>"
| "oc_advance tr (t, InvalidateAllStep) =
     (record_step tr (oc_invalidateAll (ot_cache tr)))\<lparr>ot_dropped := ot_dropped tr @ map entry_id (ot_issued tr)\<rparr>"
| "oc_advance tr (t, ReadStep k) = tr\<lparr>ot_cache := snd (read_start k t (ot_cache tr))\<rparr>"
| "oc_advance tr (t, FetchedStep k v ttl) = record_step tr (snd (fetch_resolved k v ttl t (ot_cache tr)))"
| "oc_advance tr (t, RevalidatedStep k v ttl) = record_step tr (revalidation_resolved k v ttl t (ot_cache tr))"
| "oc_advance tr (t, RevalidationFailedStep k) = record_step tr (revalidation_failed k (ot_cache tr))"

definition oc_start :: "'v simple_cache option \<Rightarrow> int option \<Rightarrow> int option \<Rightarrow> 'v oc_trace" where
  "oc_start base ttl stale =
     \<lparr>ot_issued = [], ot_dropped = [], ot_events = [], ot_cache = optimistic_cache_new base ttl stale\<rparr>"

text \<open>The predictions for an invoice that nobody settled or dropped, oldest first.\<close>

definition live :: "string \<Rightarrow> 'v oc_trace \<Rightarrow> 'v optimistic_entry list" where
  "live i tr = filter (\<lambda>e. oe_invoiceId e = i \<and> entry_id e \<notin> set (oc_settled (ot_cache tr)) \<and> entry_id e \<notin> set (ot_dropped tr)) (ot_issued tr)"

text \<open>The last value written to a key.\<close>

definition writes :: "'v optimistic_event list \<Rightarrow> (string \<times> 'v) list" where
  "writes evs = concat (map (\<lambda>e. case e of OSet i v \<Rightarrow> [(i, v)] | _ \<Rightarrow> []) evs)"

definition last_write :: "string \<Rightarrow> 'v optimistic_event list \<Rightarrow> 'v option" where
  "last_write k evs = map_of (rev (writes evs)) k"

lemma writes_append [simp]: "writes (xs @ ys) = writes xs @ writes ys" "writes [] = []"
  by (simp_all add: writes_def)

lemma writes_single [simp]: "writes (OSet i v # es) = (i, v) # writes es" "writes (OHit i v # es) = writes es"
  "writes (OMiss i # es) = writes es" "writes (OExpire i w # es) = writes es" "writes (OInvalidate i # es) = writes es"
  "writes (ORollback k i v # es) = writes es" "writes (ORevalidateError i # es) = writes es"
  by (simp_all add: writes_def)

definition fresh_values :: "'v optimistic_cache \<Rightarrow> string \<Rightarrow> 'v option" where
  "fresh_values s k = map_option fe_value (map_of (oc_freshness s) k)"

text \<open>What an operation does to the queues, the settled entries and the freshness table.\<close>

lemma oc_set_facts [simp]:
  "queue_of j (fst (oc_set i v ttl now s)) = queue_of j s" "oc_settled (fst (oc_set i v ttl now s)) = oc_settled s"
  "oc_versions (fst (oc_set i v ttl now s)) = oc_versions s" "oc_revalidations (fst (oc_set i v ttl now s)) = oc_revalidations s"
  "oc_pending (fst (oc_set i v ttl now s)) = oc_pending s"
  "fresh_values (fst (oc_set i v ttl now s)) = (fresh_values s)(i \<mapsto> v)" "snd (oc_set i v ttl now s) = [OSet i v]"
  by (auto simp: oc_set_def queue_of_def fresh_values_def Let_def)

lemma removeEntry_facts [simp]:
  "queue_of j (removeEntry e s) = (if j = oe_invoiceId e then without e (queue_of j s) else queue_of j s)"
  "oc_settled (removeEntry e s) = oc_settled s" "oc_versions (removeEntry e s) = oc_versions s"
  "oc_revalidations (removeEntry e s) = oc_revalidations s" "fresh_values (removeEntry e s) = fresh_values s"
  by (auto simp: removeEntry_def queue_of_def fresh_values_def without_def split: option.split)

lemma settle_facts [simp]:
  "queue_of j (settle e s) = queue_of j s" "oc_settled (settle e s) = entry_id e # oc_settled s"
  "oc_versions (settle e s) = oc_versions s" "oc_revalidations (settle e s) = oc_revalidations s"
  "fresh_values (settle e s) = fresh_values s"
  by (simp_all add: settle_def queue_of_def fresh_values_def fun_eq_iff)

lemma oc_invalidate_facts [simp]:
  "queue_of j (fst (oc_invalidate i s)) = (if j = i then [] else queue_of j s)" "oc_settled (fst (oc_invalidate i s)) = oc_settled s"
  "oc_versions (fst (oc_invalidate i s)) = oc_versions s" "oc_revalidations (fst (oc_invalidate i s)) = oc_revalidations s"
  "fresh_values (fst (oc_invalidate i s)) = fresh_values s" "snd (oc_invalidate i s) = [OInvalidate i]"
  by (simp_all add: oc_invalidate_def queue_of_def fresh_values_def fun_eq_iff)

lemma oc_get_facts [simp]:
  "queue_of j (fst (snd (oc_get i now s))) = queue_of j s" "oc_settled (fst (snd (oc_get i now s))) = oc_settled s"
  "oc_versions (fst (snd (oc_get i now s))) = oc_versions s" "oc_revalidations (fst (snd (oc_get i now s))) = oc_revalidations s"
  "fresh_values (fst (snd (oc_get i now s))) = fresh_values s" "writes (snd (snd (oc_get i now s))) = []"
  by (auto simp: oc_get_def Let_def queue_of_def fresh_values_def split: prod.split option.split)

lemma invalidate_fold:
  "queue_of j (fst (foldl invalidate_more r ks)) = (if j \<in> set ks then [] else queue_of j (fst r))"
  "oc_settled (fst (foldl invalidate_more r ks)) = oc_settled (fst r)"
  "oc_versions (fst (foldl invalidate_more r ks)) = oc_versions (fst r)"
  "oc_revalidations (fst (foldl invalidate_more r ks)) = oc_revalidations (fst r)"
  "fresh_values (fst (foldl invalidate_more r ks)) = fresh_values (fst r)"
  "writes (snd (foldl invalidate_more r ks)) = writes (snd r)"
  by (induction ks arbitrary: r) (auto simp: split_paired_all)

lemma revalidations_facts [simp]:
  "queue_of j (s\<lparr>oc_revalidations := x\<rparr>) = queue_of j s" "fresh_values (s\<lparr>oc_revalidations := x\<rparr>) = fresh_values s"
  by (simp_all add: queue_of_def fresh_values_def fun_eq_iff)

lemma queue_pending: "j \<notin> fst ` set (oc_pending s) \<Longrightarrow> queue_of j s = []"
  by (simp add: queue_of_def map_of_eq_None_iff [THEN iffD2])

lemma set_add_fold: "set (foldl (\<lambda>ks k. set_add k ks) acc xs) = set acc \<union> set xs"
  by (induction xs arbitrary: acc) auto

lemma oc_invalidateAll_facts [simp]:
  "queue_of j (fst (oc_invalidateAll s)) = []" "oc_settled (fst (oc_invalidateAll s)) = oc_settled s"
  "oc_versions (fst (oc_invalidateAll s)) = oc_versions s" "oc_revalidations (fst (oc_invalidateAll s)) = oc_revalidations s"
  "fresh_values (fst (oc_invalidateAll s)) = fresh_values s" "writes (snd (oc_invalidateAll s)) = []"
  using queue_pending [of j s] by (auto simp: oc_invalidateAll_def invalidate_fold set_add_fold)

section \<open>The invariant\<close>

definition oc_inv :: "'v oc_trace \<Rightarrow> bool" where
  "oc_inv tr \<longleftrightarrow> (\<forall>i. queue_of i (ot_cache tr) = live i tr) \<and>
     (\<forall>k. fresh_values (ot_cache tr) k = last_write k (ot_events tr)) \<and>
     (\<forall>e \<in> set (ot_issued tr). \<exists>n. map_of (oc_versions (ot_cache tr)) (oe_invoiceId e) = Some n \<and> oe_version e \<le> n) \<and>
     set (ot_dropped tr) \<union> set (oc_settled (ot_cache tr)) \<subseteq> entry_id ` set (ot_issued tr) \<and>
     distinct (oc_revalidations (ot_cache tr))"

text \<open>Steps that settle and drop nothing.\<close>

lemma oc_inv_quiet:
  assumes "oc_inv tr" "\<And>j. queue_of j s = queue_of j (ot_cache tr)" "oc_settled s = oc_settled (ot_cache tr)"
    "oc_versions s = oc_versions (ot_cache tr)" "distinct (oc_revalidations s)"
    "\<And>k. fresh_values s k = last_write k (ot_events tr @ ev)"
  shows "oc_inv (record_step tr (s, ev))"
  using assms by (simp add: oc_inv_def record_step_def live_def)

lemma last_write_none: "writes ev = [] \<Longrightarrow> last_write k (evs @ ev) = last_write k evs"
  by (simp add: last_write_def)

lemma last_write_set: "writes ev = [(i, v)] \<Longrightarrow> last_write k (evs @ ev) = (if k = i then Some v else last_write k evs)"
  by (simp add: last_write_def)

lemma oc_inv_set:
  assumes "oc_inv tr"
  shows "oc_inv (record_step tr (oc_set i v ttl t (ot_cache tr)))"
proof -
  have "oc_inv (record_step tr (fst (oc_set i v ttl t (ot_cache tr)), snd (oc_set i v ttl t (ot_cache tr))))"
    using assms by (intro oc_inv_quiet) (auto simp: oc_inv_def last_write_set)
  then show ?thesis by (simp only: prod.collapse)
qed

text \<open>Settling an issued entry takes it out of the queue; the write that may go with it is recorded.\<close>

lemma oc_inv_settle:
  assumes "oc_inv tr" "e \<in> set (ot_issued tr)" "\<And>j. queue_of j s = (if j = oe_invoiceId e then without e (queue_of j (ot_cache tr)) else queue_of j (ot_cache tr))"
    "oc_settled s = entry_id e # oc_settled (ot_cache tr)" "oc_versions s = oc_versions (ot_cache tr)"
    "oc_revalidations s = oc_revalidations (ot_cache tr)" "\<And>k. fresh_values s k = last_write k (ot_events tr @ ev)"
  shows "oc_inv (record_step tr (s, ev))"
proof -
  have "queue_of i s = live i (record_step tr (s, ev))" for i
    using assms(1,3,4) by (auto simp: oc_inv_def live_def record_step_def without_def entry_id_def intro!: filter_cong)
  with assms show ?thesis by (auto simp: oc_inv_def record_step_def)
qed

lemma oc_inv_commit:
  assumes "oc_inv tr" "e \<in> set (ot_issued tr)"
  shows "oc_inv (record_step tr (commit e t (ot_cache tr)))"
proof (cases "entry_id e \<in> set (oc_settled (ot_cache tr))")
  case True
  with assms(1) show ?thesis by (simp add: commit_def record_step_def)
next
  case False
  let ?r = "oc_set (oe_invoiceId e) (oe_predicted e) None t (settle e (ot_cache tr))"
  have "oc_inv (record_step tr (removeEntry e (fst ?r), snd ?r))"
    using assms by (intro oc_inv_settle) (auto simp: oc_inv_def last_write_set)
  with False show ?thesis by (simp add: commit_def split_beta)
qed

lemma oc_inv_rollback:
  assumes "oc_inv tr" "e \<in> set (ot_issued tr)"
  shows "oc_inv (record_step tr (rollback e t (ot_cache tr)))"
proof (cases "entry_id e \<in> set (oc_settled (ot_cache tr))")
  case True
  with assms(1) show ?thesis by (simp add: rollback_def record_step_def)
next
  case False
  let ?s1 = "removeEntry e (settle e (ot_cache tr))"
  show ?thesis
  proof (cases "queue_of (oe_invoiceId e) ?s1 = []")
    case True
    let ?r = "oc_set (oe_invoiceId e) (oe_rollback e) None t ?s1"
    have "oc_inv (record_step tr (fst ?r, snd ?r @ [ORollback (entry_key e) (oe_invoiceId e) (oe_rollback e)]))"
      using assms by (intro oc_inv_settle) (auto simp: oc_inv_def last_write_set)
    with False True show ?thesis by (simp add: rollback_def split_beta Let_def del: removeEntry_facts(1))
  next
    case rem: False
    let ?ev = "[ORollback (entry_key e) (oe_invoiceId e) (oe_predicted (last (queue_of (oe_invoiceId e) ?s1)))]"
    have "oc_inv (record_step tr (?s1, ?ev))"
      using assms by (intro oc_inv_settle) (auto simp: oc_inv_def last_write_none)
    with False rem show ?thesis by (simp add: rollback_def Let_def del: removeEntry_facts(1))
  qed
qed

lemma oc_inv_apply:
  assumes "oc_inv tr"
  shows "oc_inv (oc_advance tr (t, ApplyStep i p r))"
proof -
  obtain e s where a: "applyOptimistic i p r (ot_cache tr) = (e, s)" by (cases "applyOptimistic i p r (ot_cache tr)")
  let ?n = "case map_of (oc_versions (ot_cache tr)) i of Some n \<Rightarrow> n | None \<Rightarrow> 0"
  have e: "oe_invoiceId e = i" "oe_version e = Suc ?n" using a by (auto simp: applyOptimistic_def Let_def)
  have s: "oc_settled s = oc_settled (ot_cache tr)" "oc_revalidations s = oc_revalidations (ot_cache tr)" "fresh_values s = fresh_values (ot_cache tr)"
    "oc_versions s = AList.update i (Suc ?n) (oc_versions (ot_cache tr))" "\<And>j. queue_of j s = (if j = i then queue_of j (ot_cache tr) @ [e] else queue_of j (ot_cache tr))"
    using a by (auto simp: applyOptimistic_def Let_def fresh_values_def queue_of_def)
  have old: "oe_version x \<le> ?n" if "x \<in> set (ot_issued tr)" "oe_invoiceId x = i" for x
    using assms that by (force simp: oc_inv_def)
  then have "entry_id e \<notin> entry_id ` set (ot_issued tr)" using e by (force simp: entry_id_def)
  then have new: "entry_id e \<notin> set (oc_settled (ot_cache tr))" "entry_id e \<notin> set (ot_dropped tr)" using assms by (auto simp: oc_inv_def)
  let ?tr = "tr\<lparr>ot_issued := ot_issued tr @ [e], ot_cache := s\<rparr>"
  have "queue_of j s = live j ?tr" for j using assms new e by (simp add: s oc_inv_def live_def)
  moreover have "\<exists>n. map_of (oc_versions s) (oe_invoiceId x) = Some n \<and> oe_version x \<le> n" if "x \<in> set (ot_issued tr @ [e])" for x
    using assms that e old by (cases "oe_invoiceId x = i") (auto simp: s oc_inv_def le_Suc_eq)
  moreover have "set (ot_dropped tr) \<union> set (oc_settled s) \<subseteq> entry_id ` set (ot_issued tr @ [e])" using assms by (auto simp: s oc_inv_def)
  ultimately have "oc_inv ?tr" using assms by (simp add: oc_inv_def s)
  then show ?thesis by (simp add: a)
qed

lemma oc_advance_inv: "oc_inv tr \<Longrightarrow> oc_inv (oc_advance tr x)"
proof (induction tr x rule: oc_advance.induct)
  case (1 tr t i p r) then show ?case by (rule oc_inv_apply)
next
  case (2 tr t n) then show ?case by (simp add: oc_inv_commit)
next
  case (3 tr t n) then show ?case by (simp add: oc_inv_rollback)
next
  case (4 tr t i v ttl) then show ?case by (simp add: oc_inv_set)
next
  case (5 tr t i)
  then have "oc_inv (record_step tr (fst (snd (oc_get i t (ot_cache tr))), snd (snd (oc_get i t (ot_cache tr)))))"
    by (intro oc_inv_quiet) (auto simp: oc_inv_def last_write_none)
  then show ?case by (simp only: prod.collapse oc_advance.simps)
next
  case (6 tr t i)
  then have "queue_of j (fst (oc_invalidate i (ot_cache tr))) = live j (oc_advance tr (t, InvalidateStep i))" for j
    by (auto simp: oc_inv_def live_def record_step_def entry_id_def intro!: filter_cong filter_False [symmetric])
  with 6 show ?case by (auto simp: oc_inv_def record_step_def last_write_none)
next
  case (7 tr t)
  then have "queue_of j (fst (oc_invalidateAll (ot_cache tr))) = live j (oc_advance tr (t, InvalidateAllStep))" for j
    by (auto simp: live_def record_step_def intro!: filter_False [symmetric])
  with 7 show ?case by (auto simp: oc_inv_def record_step_def last_write_none)
next
  case (8 tr t k)
  then have "oc_inv (record_step tr (snd (read_start k t (ot_cache tr)), []))"
    by (intro oc_inv_quiet) (auto simp: oc_inv_def read_start_def split: option.split)
  then show ?case by (simp add: record_step_def)
next
  case (9 tr t k v ttl) then show ?case by (cases v) (simp_all add: fetch_resolved_def oc_inv_set, simp add: record_step_def)
next
  case (10 tr t k v ttl)
  let ?r = "revalidation_resolved k v ttl t (ot_cache tr)"
  from 10 have "oc_inv (record_step tr (fst ?r, snd ?r))"
    by (intro oc_inv_quiet)
      (auto simp: oc_inv_def revalidation_resolved_def split_beta last_write_set last_write_none distinct_removeAll
        split: option.split)
  then show ?case by (simp only: prod.collapse oc_advance.simps)
next
  case (11 tr t k)
  then have "oc_inv (record_step tr (fst (revalidation_failed k (ot_cache tr)), snd (revalidation_failed k (ot_cache tr))))"
    by (intro oc_inv_quiet) (auto simp: oc_inv_def revalidation_failed_def last_write_none distinct_removeAll)
  then show ?case by (simp only: prod.collapse oc_advance.simps)
qed

interpretation optimistic: machine oc_advance oc_inv
  by unfold_locales (rule oc_advance_inv)

lemma oc_run_inv: "oc_inv (foldl oc_advance (oc_start base ttl stale) es)"
  by (rule optimistic.run_inv)
    (simp add: oc_inv_def oc_start_def optimistic_cache_new_def Let_def live_def queue_of_def fresh_values_def last_write_def)

section \<open>Properties\<close>

text \<open>
  C10: However predictions are applied, committed, rolled back and invalidated, a reader of an
  invoice sees the newest prediction for it that is neither settled nor dropped, if there is one.
\<close>

theorem newest_prediction_visible:
  assumes "live i (foldl oc_advance (oc_start base ttl stale) es) \<noteq> []"
  shows "fst (oc_get i now (ot_cache (foldl oc_advance (oc_start base ttl stale) es))) =
         Some (oe_predicted (last (live i (foldl oc_advance (oc_start base ttl stale) es))))"
proof -
  have "queue_of i (ot_cache (foldl oc_advance (oc_start base ttl stale) es)) = live i (foldl oc_advance (oc_start base ttl stale) es)"
    using oc_run_inv [of base ttl stale es] by (simp add: oc_inv_def)
  with assms show ?thesis by (simp add: oc_get_def Let_def)
qed

definition sample_predictions :: "(int \<times> int oc_step) list" where
  "sample_predictions = [(0, SetStep ''inv'' 10 None), (1, ApplyStep ''inv'' 11 10), (2, ApplyStep ''inv'' 12 11), (3, RollbackStep 1)]"

theorem newest_prediction_visible_witness:
  "fst (oc_get ''inv'' 4 (ot_cache (foldl oc_advance (oc_start None None None) sample_predictions))) = Some 11"
proof -
  have "map oe_predicted (live ''inv'' (foldl oc_advance (oc_start None None None) sample_predictions)) = [11]" by code_simp
  then obtain e where "live ''inv'' (foldl oc_advance (oc_start None None None) sample_predictions) = [e]" "oe_predicted e = 11" by auto
  with newest_prediction_visible [of "''inv''" None None None sample_predictions 4] show ?thesis by simp
qed

text \<open>
  What a read serves from the cache, fresh or stale, is the value last written to the key by a
  set, a commit, a rollback or a fetch; and no key has two background revalidations in flight.
\<close>

theorem read_serves_last_write:
  assumes "fst (read_start k t (ot_cache tr)) = ServeFresh v \<or> fst (read_start k t (ot_cache tr)) = ServeStale v b"
    "tr = foldl oc_advance (oc_start base ttl stale) es"
  shows "last_write k (ot_events tr) = Some v \<and> distinct (oc_revalidations (snd (read_start k t (ot_cache tr))))"
proof -
  have i: "oc_inv tr" unfolding assms(2) by (rule oc_run_inv)
  from assms(1) obtain e where "map_of (oc_freshness (ot_cache tr)) k = Some e" "fe_value e = v"
    by (auto simp: read_start_def split: option.splits if_splits)
  then have "fresh_values (ot_cache tr) k = Some v" by (simp add: fresh_values_def)
  moreover have "distinct (oc_revalidations (snd (read_start k t (ot_cache tr))))"
    using i by (auto simp: oc_inv_def read_start_def split: option.split)
  ultimately show ?thesis using i by (simp add: oc_inv_def)
qed

theorem read_serves_last_write_witness:
  "last_write ''inv'' (ot_events (foldl oc_advance (oc_start None None None) sample_predictions)) = Some 10"
proof -
  have "fst (read_start ''inv'' 4 (ot_cache (foldl oc_advance (oc_start None None None) sample_predictions))) = ServeFresh 10"
    by code_simp
  with read_serves_last_write [OF _ refl, of "''inv''" 4 None None None sample_predictions 10 False] show ?thesis by simp
qed

text \<open>
  A rollback can undo a commit. Of two predictions for an invoice the later one is committed;
  rolling the earlier one back then writes the value from before both, so the committed value is
  gone from every read.
\<close>

theorem rollback_discards_later_commit:
  "let tr = foldl oc_advance (oc_start base None None)
      [(t, ApplyStep i p r), (t, ApplyStep i q p), (t, CommitStep 1), (t, RollbackStep 0)]
   in fst (read_start i t (ot_cache tr)) = ServeFresh r \<and> last_write i (ot_events tr) = Some r"
  by (simp add: oc_start_def optimistic_cache_new_def Let_def applyOptimistic_def record_step_def commit_def rollback_def
    entry_id_def settle_def queue_of_def removeEntry_def without_def oc_set_def read_start_def last_write_def)

text \<open>
  C72: Invalidating a key does not stop reads from serving it: \<open>get\<close> finds nothing any more, but
  \<open>read\<close> still serves the invalidated value as fresh, without calling the fetcher.
\<close>

theorem invalidated_value_still_read:
  "let s = fst (oc_invalidate k (fst (oc_set k v None t (optimistic_cache_new base None None))))
   in fst (oc_get k t s) = None \<and> fst (read_start k t s) = ServeFresh v"
proof -
  have gone: "fst (sc_get k now (fst (sc_delete k c))) = None" for now and c :: "'a simple_cache"
    by (auto simp: sc_get_def sc_delete_def sc_invalidate_def remove_keys_def map_of_eq_None_iff split: option.split dest!: map_of_SomeD)
  show ?thesis
    by (simp add: oc_set_def optimistic_cache_new_def Let_def oc_invalidate_def read_start_def)
      (simp add: oc_get_def queue_of_def oc_isExpired_def gone split_beta)
qed

text \<open>
  The run-length code of the cache restores every sequence of bytes, however long its runs.
\<close>

theorem byte_runs_roundtrip: "rleDecode (rleEncode bs) = bs"
proof (induction bs rule: rleEncode.induct)
  case (2 v bs)
  let ?n = "Suc (run_length v bs 254)"
  have "?n < 256" using run_length_bound [of v bs 254] by simp
  then have u: "unat (word_of_nat ?n :: 8 word) = ?n" by (simp add: unat_of_nat del: of_nat_Suc)
  have "v # bs = replicate ?n v @ drop ?n (v # bs)" using run_length_take [of bs v 254] by simp
  with 2 [OF refl] show ?case by (simp add: Let_def u del: of_nat_Suc)
qed simp

end
