(* ===== verification/Orchestrator.thy ===== *)
theory Orchestrator
  imports Prelude
begin

text \<open>
  \<open>paymentOrchestrator.ts\<close>: a queue of payments, processed one after the other with retries. A payment
  is an object that the queue, the batch of a \<open>process\<close> call, the lists of results and the listeners
  share, so the model keeps the objects in a store and everything else by index. \<open>process\<close> is cut
  where it waits: for the executor, for the delay before a retry, and after each payment; the calls in
  flight are part of the state and may overlap. What the executor answers is part of the step.
  Listeners run inside the calls and may throw: the argument \<open>thrown\<close> gives the error that the
  listeners of an event end with, if any.
\<close>

section \<open>Data\<close>

datatype payment_status = PayQueued | PayProcessing | PayCompleted | PayFailed

record queued_payment =
  qp_id :: string
  qp_invoiceId :: int
  qp_payer :: string
  qp_amount :: int
  qp_status :: payment_status
  qp_attempts :: nat
  qp_lastError :: "string option"
  qp_queuedAt :: int
  qp_updatedAt :: int

record payment_params =
  pp_invoiceId :: int
  pp_payer :: string
  pp_amount :: int
  pp_id :: "string option"

record orchestrator_status =
  os_queued :: nat
  os_processing :: nat
  os_completed :: nat
  os_failed :: nat
  os_total :: nat

text \<open>Payments stand by their index in the store.\<close>

datatype orch_event =
    EvQueued nat
  | EvProcessing nat nat
  | EvCompleted nat string
  | EvFailed nat string bool

text \<open>
  Where a call of \<open>process\<close> is: waiting for the executor, for the delay, between two payments, at its
  end, or ended by a listener's error, with what it had left.
\<close>

datatype process_phase =
    Executing nat "nat list"
  | Delaying nat "nat list" int
  | Between "nat list"
  | Finished
  | Thrown string nat "nat list"

record orch_options =
  oo_maxRetries :: int
  oo_baseRetryDelayMs :: int

definition orch_options_of :: "int option \<Rightarrow> int option \<Rightarrow> orch_options" where
  "orch_options_of retries delay =
     \<lparr>oo_maxRetries = (case retries of None \<Rightarrow> 3 | Some n \<Rightarrow> n),
      oo_baseRetryDelayMs = (case delay of None \<Rightarrow> 200 | Some d \<Rightarrow> d)\<rparr>"

text \<open>\<open>or_drained\<close> holds what \<open>drain\<close> has handed out.\<close>

record orchestrator =
  or_objects :: "queued_payment list"
  or_queue :: "nat list"
  or_completed :: "nat list"
  or_failed :: "nat list"
  or_processing :: "nat option"
  or_idCounter :: nat
  or_runs :: "process_phase list"
  or_drained :: "nat list"
  or_events :: "orch_event list"

definition orchestrator_new :: orchestrator where
  "orchestrator_new = \<lparr>or_objects = [], or_queue = [], or_completed = [], or_failed = [], or_processing = None,
     or_idCounter = 0, or_runs = [], or_drained = [], or_events = []\<rparr>"

section \<open>Operations\<close>

definition emit_orch :: "orch_event \<Rightarrow> orchestrator \<Rightarrow> orchestrator" where
  "emit_orch e s = s\<lparr>or_events := or_events s @ [e]\<rparr>"

definition generateId :: "int \<Rightarrow> nat \<Rightarrow> string" where
  "generateId now n = ''payment-'' @ show_int now @ ''-'' @ show_nat n"

text \<open>\<open>queue\<close>: the result is the identifier, or the error of a listener, which comes after the push.\<close>

definition queue_payment ::
  "(orch_event \<Rightarrow> string option) \<Rightarrow> payment_params \<Rightarrow> int \<Rightarrow> orchestrator \<Rightarrow> (string + string) \<times> orchestrator" where
  "queue_payment thrown p now s =
     (let n = or_idCounter s + 1;
          i = (case pp_id p of Some i \<Rightarrow> i | None \<Rightarrow> generateId now n);
          entry = \<lparr>qp_id = i, qp_invoiceId = pp_invoiceId p, qp_payer = pp_payer p, qp_amount = pp_amount p,
                   qp_status = PayQueued, qp_attempts = 0, qp_lastError = None, qp_queuedAt = now, qp_updatedAt = now\<rparr>;
          ob = length (or_objects s);
          s1 = s\<lparr>or_idCounter := (if pp_id p = None then n else or_idCounter s),
                 or_objects := or_objects s @ [entry], or_queue := or_queue s @ [ob]\<rparr>
      in ((case thrown (EvQueued ob) of None \<Rightarrow> Inr i | Some err \<Rightarrow> Inl err), emit_orch (EvQueued ob) s1))"

definition put_payment :: "nat \<Rightarrow> (queued_payment \<Rightarrow> queued_payment) \<Rightarrow> orchestrator \<Rightarrow> orchestrator" where
  "put_payment ob f s = s\<lparr>or_objects := (or_objects s)[ob := f (or_objects s ! ob)]\<rparr>"

definition set_run :: "nat \<Rightarrow> process_phase \<Rightarrow> orchestrator \<Rightarrow> orchestrator" where
  "set_run k ph s = s\<lparr>or_runs := (or_runs s)[k := ph]\<rparr>"

text \<open>One turn of the loop of \<open>_processOne\<close>, up to the executor's answer.\<close>

definition begin_attempt ::
  "(orch_event \<Rightarrow> string option) \<Rightarrow> nat \<Rightarrow> nat \<Rightarrow> nat list \<Rightarrow> int \<Rightarrow> orchestrator \<Rightarrow> orchestrator" where
  "begin_attempt thrown k ob rest now s =
     (let s1 = put_payment ob (\<lambda>p. p\<lparr>qp_status := PayProcessing, qp_updatedAt := now\<rparr>) s;
          e = EvProcessing ob (qp_attempts (or_objects s1 ! ob) + 1);
          s2 = emit_orch e s1
      in case thrown e of
        Some err \<Rightarrow> set_run k (Thrown err ob rest) s2
      | None \<Rightarrow> set_run k (Executing ob rest) (put_payment ob (\<lambda>p. p\<lparr>qp_attempts := qp_attempts p + 1\<rparr>) s2))"

text \<open>The loop of \<open>process\<close>: the next payment of the batch, or the end.\<close>

definition next_payment ::
  "(orch_event \<Rightarrow> string option) \<Rightarrow> nat \<Rightarrow> nat list \<Rightarrow> int \<Rightarrow> orchestrator \<Rightarrow> orchestrator" where
  "next_payment thrown k batch now s =
     (case batch of
        [] \<Rightarrow> set_run k Finished s
      | ob # rest \<Rightarrow> begin_attempt thrown k ob rest now (s\<lparr>or_processing := Some ob\<rparr>))"

definition process_payments ::
  "(orch_event \<Rightarrow> string option) \<Rightarrow> int \<Rightarrow> orchestrator \<Rightarrow> orchestrator" where
  "process_payments thrown now s =
     next_payment thrown (length (or_runs s)) (or_queue s) now
       (s\<lparr>or_queue := [], or_runs := or_runs s @ [Between (or_queue s)]\<rparr>)"

text \<open>The \<open>catch\<close> of \<open>_processOne\<close>.\<close>

definition attempt_failed ::
  "orch_options \<Rightarrow> (orch_event \<Rightarrow> string option) \<Rightarrow> nat \<Rightarrow> nat \<Rightarrow> nat list \<Rightarrow> string \<Rightarrow> int \<Rightarrow> orchestrator \<Rightarrow> orchestrator" where
  "attempt_failed opts thrown k ob rest err now s =
     (let s1 = put_payment ob (\<lambda>p. p\<lparr>qp_lastError := Some err, qp_updatedAt := now\<rparr>) s;
          attempts = qp_attempts (or_objects s1 ! ob);
          canRetry = int attempts < 1 + oo_maxRetries opts;
          e = EvFailed ob err canRetry;
          s2 = emit_orch e s1
      in case thrown e of
        Some err2 \<Rightarrow> set_run k (Thrown err2 ob rest) s2
      | None \<Rightarrow>
          if \<not> canRetry
          then set_run k (Between rest)
                 ((put_payment ob (\<lambda>p. p\<lparr>qp_status := PayFailed, qp_updatedAt := now\<rparr>) s2)
                    \<lparr>or_failed := or_failed s2 @ [ob], or_processing := None\<rparr>)
          else set_run k (Delaying ob rest (oo_baseRetryDelayMs opts * 2 ^ (attempts - 1))) s2)"

definition attempt_succeeded ::
  "orch_options \<Rightarrow> (orch_event \<Rightarrow> string option) \<Rightarrow> nat \<Rightarrow> nat \<Rightarrow> nat list \<Rightarrow> string \<Rightarrow> int \<Rightarrow> orchestrator \<Rightarrow> orchestrator" where
  "attempt_succeeded opts thrown k ob rest txHash now s =
     (let s1 = (put_payment ob (\<lambda>p. p\<lparr>qp_status := PayCompleted, qp_updatedAt := now\<rparr>) s)
                 \<lparr>or_completed := or_completed s @ [ob], or_processing := None\<rparr>;
          e = EvCompleted ob txHash;
          s2 = emit_orch e s1
      in case thrown e of
        Some err \<Rightarrow> attempt_failed opts thrown k ob rest err now s2
      | None \<Rightarrow> set_run k (Between rest) s2)"

definition getStatus :: "orchestrator \<Rightarrow> orchestrator_status" where
  "getStatus s =
     (let p = (if or_processing s = None then 0 else 1) in
      \<lparr>os_queued = length (or_queue s), os_processing = p, os_completed = length (or_completed s),
       os_failed = length (or_failed s),
       os_total = length (or_queue s) + p + length (or_completed s) + length (or_failed s)\<rparr>)"

definition drain_payments :: "orchestrator \<Rightarrow> nat list \<times> orchestrator" where
  "drain_payments s = (or_queue s, s\<lparr>or_queue := [], or_drained := or_drained s @ or_queue s\<rparr>)"

text \<open>What may happen: the calls, and for each call of \<open>process\<close> the end of what it waits for.\<close>

datatype orch_call =
    QueueCall payment_params int
  | ProcessCall int
  | DrainCall
  | ExecutorAnswers nat "string + string" int
  | DelayEnds nat int
  | Continue nat int

definition orch_step ::
  "orch_options \<Rightarrow> (orch_event \<Rightarrow> string option) \<Rightarrow> orchestrator \<Rightarrow> orch_call \<Rightarrow> orchestrator" where
  "orch_step opts thrown s c = (case c of
      QueueCall p now \<Rightarrow> snd (queue_payment thrown p now s)
    | ProcessCall now \<Rightarrow> process_payments thrown now s
    | DrainCall \<Rightarrow> snd (drain_payments s)
    | ExecutorAnswers k r now \<Rightarrow>
        (if k < length (or_runs s)
         then case or_runs s ! k of
             Executing ob rest \<Rightarrow>
               (case r of Inr h \<Rightarrow> attempt_succeeded opts thrown k ob rest h now s
                        | Inl e \<Rightarrow> attempt_failed opts thrown k ob rest e now s)
           | _ \<Rightarrow> s
         else s)
    | DelayEnds k now \<Rightarrow>
        (if k < length (or_runs s)
         then case or_runs s ! k of Delaying ob rest d \<Rightarrow> begin_attempt thrown k ob rest now s | _ \<Rightarrow> s
         else s)
    | Continue k now \<Rightarrow>
        (if k < length (or_runs s)
         then case or_runs s ! k of Between batch \<Rightarrow> next_payment thrown k batch now s | _ \<Rightarrow> s
         else s))"

section \<open>Where payments are\<close>

text \<open>Listeners that never throw.\<close>

abbreviation quiet :: "orch_event \<Rightarrow> string option" where
  "quiet \<equiv> \<lambda>_. None"

fun held_by :: "process_phase \<Rightarrow> nat list" where
  "held_by (Executing ob rest) = ob # rest"
| "held_by (Delaying ob rest d) = ob # rest"
| "held_by (Between batch) = batch"
| "held_by Finished = []"
| "held_by (Thrown err ob rest) = ob # rest"

definition in_flight :: "orchestrator \<Rightarrow> nat list" where
  "in_flight s = concat (map held_by (or_runs s))"

definition places :: "orchestrator \<Rightarrow> nat list" where
  "places s = or_queue s @ in_flight s @ or_completed s @ or_failed s @ or_drained s"

definition allowed :: "orch_options \<Rightarrow> int" where
  "allowed opts = max 1 (1 + oo_maxRetries opts)"

definition fresh :: "queued_payment \<Rightarrow> bool" where
  "fresh p \<longleftrightarrow> qp_status p = PayQueued \<and> qp_attempts p = 0"

definition tried :: "orch_options \<Rightarrow> queued_payment \<Rightarrow> bool" where
  "tried opts p \<longleftrightarrow> 1 \<le> qp_attempts p \<and> int (qp_attempts p) \<le> allowed opts"

fun phase_ok :: "orch_options \<Rightarrow> queued_payment list \<Rightarrow> process_phase \<Rightarrow> bool" where
  "phase_ok opts obs (Executing ob rest) \<longleftrightarrow>
     qp_status (obs ! ob) = PayProcessing \<and> tried opts (obs ! ob) \<and> (\<forall>r \<in> set rest. fresh (obs ! r))"
| "phase_ok opts obs (Delaying ob rest d) \<longleftrightarrow>
     qp_status (obs ! ob) = PayProcessing \<and> 1 \<le> qp_attempts (obs ! ob)
     \<and> int (qp_attempts (obs ! ob)) < allowed opts \<and> (\<forall>r \<in> set rest. fresh (obs ! r))"
| "phase_ok opts obs (Between batch) \<longleftrightarrow> (\<forall>r \<in> set batch. fresh (obs ! r))"
| "phase_ok opts obs Finished \<longleftrightarrow> True"
| "phase_ok opts obs (Thrown err ob rest) \<longleftrightarrow> False"

definition completed_ok :: "orch_options \<Rightarrow> queued_payment \<Rightarrow> bool" where
  "completed_ok opts p \<longleftrightarrow> qp_status p = PayCompleted \<and> tried opts p"

definition failed_ok :: "orch_options \<Rightarrow> queued_payment \<Rightarrow> bool" where
  "failed_ok opts p \<longleftrightarrow> qp_status p = PayFailed \<and> int (qp_attempts p) = allowed opts \<and> qp_lastError p \<noteq> None"

definition completions :: "orch_event list \<Rightarrow> nat list" where
  "completions es = List.map_filter (\<lambda>e. case e of EvCompleted ob h \<Rightarrow> Some ob | _ \<Rightarrow> None) es"

lemma completions_simps [simp]:
  "completions [] = []" "completions (es @ fs) = completions es @ completions fs"
  "completions [EvCompleted ob h] = [ob]" "completions [EvQueued ob] = []" "completions [EvProcessing ob n] = []"
  "completions [EvFailed ob err b] = []"
  by (simp_all add: completions_def List.map_filter_def)

definition orch_inv :: "orch_options \<Rightarrow> orchestrator \<Rightarrow> bool" where
  "orch_inv opts s \<longleftrightarrow>
     mset (places s) = mset [0..<length (or_objects s)]
     \<and> (\<forall>ph \<in> set (or_runs s). phase_ok opts (or_objects s) ph)
     \<and> (\<forall>ob \<in> set (or_queue s) \<union> set (or_drained s). fresh (or_objects s ! ob))
     \<and> (\<forall>ob \<in> set (or_completed s). completed_ok opts (or_objects s ! ob))
     \<and> (\<forall>ob \<in> set (or_failed s). failed_ok opts (or_objects s ! ob))
     \<and> completions (or_events s) = or_completed s"

lemma orch_invD:
  assumes "orch_inv opts s"
  shows "mset (places s) = mset [0..<length (or_objects s)]"
    and "ph \<in> set (or_runs s) \<Longrightarrow> phase_ok opts (or_objects s) ph"
    and "ob \<in> set (or_queue s) \<Longrightarrow> fresh (or_objects s ! ob)"
    and "ob \<in> set (or_drained s) \<Longrightarrow> fresh (or_objects s ! ob)"
    and "ob \<in> set (or_completed s) \<Longrightarrow> completed_ok opts (or_objects s ! ob)"
    and "ob \<in> set (or_failed s) \<Longrightarrow> failed_ok opts (or_objects s ! ob)"
    and "completions (or_events s) = or_completed s"
  using assms unfolding orch_inv_def by blast+

lemma places_once:
  assumes "orch_inv opts s"
  shows "distinct (places s)" "ob \<in> set (places s) \<longleftrightarrow> ob < length (or_objects s)"
proof -
  from orch_invD(1) [OF assms] show "distinct (places s)"
    by (metis distinct_upt mset_eq_imp_distinct_iff)
  from orch_invD(1) [OF assms] have "set (places s) = {0..<length (or_objects s)}"
    by (metis mset_eq_setD set_upt)
  then show "ob \<in> set (places s) \<longleftrightarrow> ob < length (or_objects s)" by simp
qed

text \<open>An object held by one call is nowhere else.\<close>

lemma held_elsewhere:
  assumes "orch_inv opts s" "k < length (or_runs s)" "ob \<in> set (held_by (or_runs s ! k))"
  shows "ob \<notin> set (or_queue s)" "ob \<notin> set (or_drained s)" "ob \<notin> set (or_completed s)" "ob \<notin> set (or_failed s)"
    "j < length (or_runs s) \<Longrightarrow> j \<noteq> k \<Longrightarrow> ob \<notin> set (held_by (or_runs s ! j))"
    "ob < length (or_objects s)" "distinct (held_by (or_runs s ! k))"
proof -
  have mem: "ob \<in> set (in_flight s)" using assms(2,3) by (auto simp: in_flight_def)
  note d = places_once(1) [OF assms(1)]
  from d mem show "ob \<notin> set (or_queue s)" "ob \<notin> set (or_drained s)" "ob \<notin> set (or_completed s)" "ob \<notin> set (or_failed s)"
    unfolding places_def by auto
  from mem show "ob < length (or_objects s)"
    using places_once(2) [OF assms(1), of ob] by (simp add: places_def)
  have df: "distinct (concat (map held_by (or_runs s)))" using d by (simp add: places_def in_flight_def)
  then show "distinct (held_by (or_runs s ! k))" using assms(2) by (auto simp: distinct_concat_iff)
  assume j: "j < length (or_runs s)" "j \<noteq> k"
  have "mset (concat (map held_by (or_runs s))) = mset (held_by (or_runs s ! k)) + mset (concat (map held_by ((or_runs s)[k := Finished])))"
    using mset_concat_update [OF assms(2), of held_by Finished] by (simp add: add.commute)
  with df have "distinct (held_by (or_runs s ! k) @ concat (map held_by ((or_runs s)[k := Finished])))"
    by (metis mset_append mset_eq_imp_distinct_iff)
  moreover have "or_runs s ! j \<in> set ((or_runs s)[k := Finished])"
    using j by (metis length_list_update nth_list_update_neq nth_mem)
  ultimately show "ob \<notin> set (held_by (or_runs s ! j))" using assms(3) by auto
qed

lemma phase_ok_other:
  "ob \<notin> set (held_by ph) \<Longrightarrow> phase_ok opts (obs[ob := p]) ph = phase_ok opts obs ph"
  by (cases ph) (auto simp: nth_update_if)

text \<open>A step of one call that changes the payment it is at and puts it where it belongs.\<close>

lemma move_inv:
  assumes inv: "orch_inv opts s" and k: "k < length (or_runs s)" and h: "held_by (or_runs s ! k) = ob # rest"
    and s': "or_objects s' = (or_objects s)[ob := p]" "or_runs s' = (or_runs s)[k := ph]" "or_queue s' = or_queue s"
      "or_drained s' = or_drained s" "or_completed s' = or_completed s @ cs" "or_failed s' = or_failed s @ fs"
      "completions (or_events s') = completions (or_events s) @ cs"
    and moved: "mset (held_by ph) + mset cs + mset fs = mset (ob # rest)" "set cs \<subseteq> {ob}" "set fs \<subseteq> {ob}"
    and ok: "phase_ok opts (or_objects s') ph" "ob \<in> set cs \<Longrightarrow> completed_ok opts p" "ob \<in> set fs \<Longrightarrow> failed_ok opts p"
  shows "orch_inv opts s'"
proof -
  have ob: "ob \<in> set (held_by (or_runs s ! k))" by (simp add: h)
  note e = held_elsewhere [OF inv k ob]
  have "mset (in_flight s') + mset cs + mset fs = mset (in_flight s)"
    using multiset_move [OF mset_concat_update [OF k, of held_by ph, unfolded h] moved(1)] by (simp add: in_flight_def s')
  then have "mset (in_flight s) = mset (in_flight s') + (mset cs + mset fs)" by (simp add: add.assoc)
  then have "mset (places s') = mset (places s)"
    by (simp add: places_def s' ac_simps)
  moreover have "phase_ok opts (or_objects s') ph'" if mem: "ph' \<in> set (or_runs s')" for ph'
  proof -
    from mem obtain j where j: "j < length (or_runs s)" "ph' = (or_runs s)[k := ph] ! j"
      by (auto simp: s' in_set_conv_nth)
    show ?thesis
    proof (cases "j = k")
      case True
      with j ok(1) show ?thesis by simp
    next
      case False
      with j have "ph' = or_runs s ! j" "ob \<notin> set (held_by (or_runs s ! j))" using e(5) by auto
      with j(1) orch_invD(2) [OF inv, of "or_runs s ! j"] show ?thesis by (simp add: s'(1) phase_ok_other)
    qed
  qed
  moreover have "or_objects s' ! q = or_objects s ! q" if "q \<noteq> ob" for q
    using that by (simp add: s')
  moreover have "or_objects s' ! ob = p" using e(6) by (simp add: s')
  moreover have "completed_ok opts (or_objects s' ! q)" if "q \<in> set (or_completed s')" for q
    using that orch_invD(5) [OF inv, of q] moved(2) ok(2) calculation(3,4) e(3) by (cases "q = ob") (auto simp: s'(5))
  moreover have "failed_ok opts (or_objects s' ! q)" if "q \<in> set (or_failed s')" for q
    using that orch_invD(6) [OF inv, of q] moved(3) ok(3) calculation(3,4) e(4) by (cases "q = ob") (auto simp: s'(6))
  moreover have "fresh (or_objects s' ! q)" if "q \<in> set (or_queue s') \<union> set (or_drained s')" for q
    using that orch_invD(3,4) [OF inv, of q] calculation(3) e(1,2) by (cases "q = ob") (auto simp: s'(3,4))
  ultimately show ?thesis
    using orch_invD(1,7) [OF inv] unfolding orch_inv_def by (simp add: s'(1,5,7))
qed

lemma quiet_attempt_objects:
  "or_objects (begin_attempt quiet k ob rest now s) =
     (or_objects s)[ob := (or_objects s ! ob)\<lparr>qp_status := PayProcessing, qp_updatedAt := now,
                           qp_attempts := qp_attempts (or_objects s ! ob) + 1\<rparr>]"
  unfolding begin_attempt_def put_payment_def emit_orch_def set_run_def Let_def
  by (cases "ob < length (or_objects s)") (simp_all add: list_update_beyond)

lemma quiet_attempt:
  "or_runs (begin_attempt quiet k ob rest now s) = (or_runs s)[k := Executing ob rest]"
  "or_queue (begin_attempt quiet k ob rest now s) = or_queue s"
  "or_drained (begin_attempt quiet k ob rest now s) = or_drained s"
  "or_completed (begin_attempt quiet k ob rest now s) = or_completed s"
  "or_failed (begin_attempt quiet k ob rest now s) = or_failed s"
  "completions (or_events (begin_attempt quiet k ob rest now s)) = completions (or_events s)"
  unfolding begin_attempt_def put_payment_def emit_orch_def set_run_def Let_def by simp_all

lemma begin_attempt_inv:
  assumes "orch_inv opts s" "k < length (or_runs s)"
    and "or_runs s ! k = Between (ob # rest) \<or> (\<exists>d. or_runs s ! k = Delaying ob rest d)"
  shows "orch_inv opts (begin_attempt quiet k ob rest now s)"
proof -
  have h: "held_by (or_runs s ! k) = ob # rest" using assms(3) by auto
  have ok: "phase_ok opts (or_objects s) (or_runs s ! k)" using orch_invD(2) [OF assms(1)] assms(2) by simp
  have lt: "ob < length (or_objects s)" "ob \<notin> set rest"
    using held_elsewhere(6,7) [OF assms(1,2), of ob] by (simp_all add: h)
  have new: "phase_ok opts (or_objects (begin_attempt quiet k ob rest now s)) (Executing ob rest)"
    using assms(3) ok lt by (auto simp: quiet_attempt_objects tried_def fresh_def allowed_def nth_update_if)
  show ?thesis
    by (rule move_inv [OF assms(1,2) h quiet_attempt_objects quiet_attempt(1-3), where cs = "[]" and fs = "[]"])
      (use new in \<open>simp_all add: quiet_attempt\<close>)
qed

lemma next_payment_inv:
  assumes "orch_inv opts s" "k < length (or_runs s)" "or_runs s ! k = Between batch"
  shows "orch_inv opts (next_payment quiet k batch now s)"
proof (cases batch)
  case Nil
  have "mset (in_flight (set_run k Finished s)) = mset (in_flight s)"
    using mset_concat_update [OF assms(2), of held_by Finished] by (simp add: in_flight_def set_run_def assms(3) Nil)
  moreover have "set (or_runs (set_run k Finished s)) \<subseteq> insert Finished (set (or_runs s))"
    by (simp add: set_run_def set_update_subset_insert)
  ultimately have "orch_inv opts (set_run k Finished s)"
    using assms(1) unfolding orch_inv_def places_def by (auto simp: set_run_def)
  then show ?thesis by (simp add: next_payment_def Nil)
next
  case (Cons ob rest)
  have "orch_inv opts (s\<lparr>or_processing := Some ob\<rparr>)"
    using assms(1) by (simp add: orch_inv_def places_def in_flight_def)
  from begin_attempt_inv [OF this, of k ob rest] assms(2,3) Cons show ?thesis by (simp add: next_payment_def)
qed

lemma attempt_failed_inv:
  assumes "orch_inv opts s" "k < length (or_runs s)" "or_runs s ! k = Executing ob rest"
  shows "orch_inv opts (attempt_failed opts quiet k ob rest err now s)"
proof -
  have h: "held_by (or_runs s ! k) = ob # rest" by (simp add: assms(3))
  have ok: "phase_ok opts (or_objects s) (Executing ob rest)"
    using orch_invD(2) [OF assms(1) nth_mem [OF assms(2)]] unfolding assms(3) .
  have lt: "ob < length (or_objects s)" "ob \<notin> set rest"
    using held_elsewhere(6,7) [OF assms(1,2), of ob] by (simp_all add: h)
  let ?p = "(or_objects s ! ob)\<lparr>qp_lastError := Some err, qp_updatedAt := now\<rparr>"
  show ?thesis
  proof (cases "int (qp_attempts (or_objects s ! ob)) < 1 + oo_maxRetries opts")
    case True
    have st: "attempt_failed opts quiet k ob rest err now s =
        s\<lparr>or_objects := (or_objects s)[ob := ?p], or_events := or_events s @ [EvFailed ob err True],
          or_runs := (or_runs s)[k := Delaying ob rest (oo_baseRetryDelayMs opts * 2 ^ (qp_attempts (or_objects s ! ob) - 1))]\<rparr>"
      using True lt by (simp add: attempt_failed_def put_payment_def emit_orch_def set_run_def Let_def)
    show ?thesis
      unfolding st by (rule move_inv [OF assms(1,2) h, where cs = "[]" and fs = "[]" and p = ?p])
        (use ok lt True in \<open>auto simp: tried_def allowed_def nth_update_if\<close>)
  next
    case False
    have st: "attempt_failed opts quiet k ob rest err now s =
        s\<lparr>or_objects := (or_objects s)[ob := ?p\<lparr>qp_status := PayFailed, qp_updatedAt := now\<rparr>],
          or_events := or_events s @ [EvFailed ob err False], or_failed := or_failed s @ [ob],
          or_processing := None, or_runs := (or_runs s)[k := Between rest]\<rparr>"
      using False lt by (simp add: attempt_failed_def put_payment_def emit_orch_def set_run_def Let_def)
    show ?thesis
      unfolding st by (rule move_inv [OF assms(1,2) h, where cs = "[]" and fs = "[ob]" and p = "?p\<lparr>qp_status := PayFailed, qp_updatedAt := now\<rparr>"])
        (use ok lt False in \<open>auto simp: tried_def allowed_def failed_ok_def nth_update_if\<close>)
  qed
qed

lemma attempt_succeeded_inv:
  assumes "orch_inv opts s" "k < length (or_runs s)" "or_runs s ! k = Executing ob rest"
  shows "orch_inv opts (attempt_succeeded opts quiet k ob rest h now s)"
proof -
  have h: "held_by (or_runs s ! k) = ob # rest" by (simp add: assms(3))
  have ok: "phase_ok opts (or_objects s) (Executing ob rest)"
    using orch_invD(2) [OF assms(1) nth_mem [OF assms(2)]] unfolding assms(3) .
  have lt: "ob < length (or_objects s)" "ob \<notin> set rest"
    using held_elsewhere(6,7) [OF assms(1,2), of ob] by (simp_all add: h)
  let ?p = "(or_objects s ! ob)\<lparr>qp_status := PayCompleted, qp_updatedAt := now\<rparr>"
  have st: "attempt_succeeded opts quiet k ob rest h now s =
      s\<lparr>or_objects := (or_objects s)[ob := ?p], or_completed := or_completed s @ [ob], or_processing := None,
        or_events := or_events s @ [EvCompleted ob h], or_runs := (or_runs s)[k := Between rest]\<rparr>"
    by (simp add: attempt_succeeded_def put_payment_def emit_orch_def set_run_def Let_def)
  show ?thesis
    unfolding st by (rule move_inv [OF assms(1,2) h, where cs = "[ob]" and fs = "[]" and p = ?p])
      (use ok lt in \<open>auto simp: completed_ok_def tried_def nth_update_if\<close>)
qed

lemma phase_ok_grown:
  "set (held_by ph) \<subseteq> {0..<length obs} \<Longrightarrow> phase_ok opts (obs @ [p]) ph = phase_ok opts obs ph"
  by (cases ph) (auto simp: nth_append subset_iff)

lemma queue_payment_inv:
  assumes "orch_inv opts s" shows "orch_inv opts (snd (queue_payment thrown p now s))"
proof -
  obtain q n where st: "snd (queue_payment thrown p now s) =
      s\<lparr>or_idCounter := n, or_objects := or_objects s @ [q], or_queue := or_queue s @ [length (or_objects s)],
        or_events := or_events s @ [EvQueued (length (or_objects s))]\<rparr>" and q: "fresh q"
    by (simp add: queue_payment_def emit_orch_def Let_def fresh_def)
  have lt: "ob < length (or_objects s)" if "ob \<in> set (places s)" for ob
    using places_once(2) [OF assms] that by blast
  have "set (held_by ph) \<subseteq> {0..<length (or_objects s)}" if "ph \<in> set (or_runs s)" for ph
  proof
    fix x assume "x \<in> set (held_by ph)"
    with that have "x \<in> set (places s)" by (auto simp: places_def in_flight_def)
    then show "x \<in> {0..<length (or_objects s)}" using lt by simp
  qed
  then show ?thesis
    using orch_invD [OF assms] q lt unfolding st orch_inv_def
    by (auto simp: places_def in_flight_def phase_ok_grown nth_append)
qed

lemma process_payments_inv:
  assumes "orch_inv opts s" shows "orch_inv opts (process_payments quiet now s)"
proof -
  have "orch_inv opts (s\<lparr>or_queue := [], or_runs := or_runs s @ [Between (or_queue s)]\<rparr>)"
    using orch_invD [OF assms] unfolding orch_inv_def by (auto simp: places_def in_flight_def ac_simps)
  from next_payment_inv [OF this] show ?thesis by (simp add: process_payments_def)
qed

lemma orch_step_inv: "orch_inv opts s \<Longrightarrow> orch_inv opts (orch_step opts quiet s c)"
  by (cases c)
    (auto simp: orch_step_def queue_payment_inv process_payments_inv attempt_failed_inv attempt_succeeded_inv
       begin_attempt_inv next_payment_inv split: process_phase.split sum.split,
     auto simp: drain_payments_def orch_inv_def places_def in_flight_def ac_simps)

interpretation orchestrated: machine "orch_step opts quiet" "orch_inv opts"
  by unfold_locales (rule orch_step_inv)

lemma orch_inv_new: "orch_inv opts orchestrator_new"
  by (simp add: orch_inv_def orchestrator_new_def places_def in_flight_def)

section \<open>What one call of process does\<close>

text \<open>
  A call of \<open>process\<close> that nothing overlaps, run to its end: \<open>ans ob a\<close> is what the executor answers to
  attempt \<open>a\<close> of payment \<open>ob\<close>.
\<close>

fun run_alone ::
  "orch_options \<Rightarrow> (nat \<Rightarrow> nat \<Rightarrow> string + string) \<Rightarrow> int \<Rightarrow> nat \<Rightarrow> nat \<Rightarrow> orchestrator \<Rightarrow> orchestrator" where
  "run_alone opts ans now k 0 s = s"
| "run_alone opts ans now k (Suc n) s =
     (case or_runs s ! k of
        Executing ob rest \<Rightarrow>
          run_alone opts ans now k n (orch_step opts quiet s (ExecutorAnswers k (ans ob (qp_attempts (or_objects s ! ob))) now))
      | Delaying ob rest d \<Rightarrow> run_alone opts ans now k n (orch_step opts quiet s (DelayEnds k now))
      | Between batch \<Rightarrow> run_alone opts ans now k n (orch_step opts quiet s (Continue k now))
      | _ \<Rightarrow> s)"

definition attempts_allowed :: "orch_options \<Rightarrow> nat" where
  "attempts_allowed opts = nat (allowed opts)"

definition succeeds_from :: "orch_options \<Rightarrow> (nat \<Rightarrow> nat \<Rightarrow> string + string) \<Rightarrow> nat \<Rightarrow> nat \<Rightarrow> bool" where
  "succeeds_from opts ans a ob \<longleftrightarrow> (\<exists>n \<in> {a..attempts_allowed opts}. \<not> isl (ans ob n))"

text \<open>The state between two payments, seen from the call \<open>k\<close>.\<close>

definition reached :: "nat \<Rightarrow> nat list \<Rightarrow> nat list \<Rightarrow> nat list \<Rightarrow> orchestrator \<Rightarrow> orchestrator \<Rightarrow> bool" where
  "reached k done1 fail1 touched s s' \<longleftrightarrow>
     length (or_runs s') = length (or_runs s) \<and> length (or_objects s') = length (or_objects s)
     \<and> or_queue s' = or_queue s \<and> or_completed s' = or_completed s @ done1 \<and> or_failed s' = or_failed s @ fail1
     \<and> (\<forall>ob. ob \<notin> set touched \<longrightarrow> or_objects s' ! ob = or_objects s ! ob)"

lemma reached_trans:
  "reached k d f t s s1 \<Longrightarrow> reached k d' f' t' s1 s2 \<Longrightarrow> reached k (d @ d') (f @ f') (t @ t') s s2"
  by (auto simp: reached_def)

lemma attempts_allowed_pos: "1 \<le> attempts_allowed opts"
  by (simp add: attempts_allowed_def allowed_def)

lemma may_retry_iff: "1 \<le> a \<Longrightarrow> int a < 1 + oo_maxRetries opts \<longleftrightarrow> a < attempts_allowed opts"
  by (auto simp: attempts_allowed_def allowed_def)

lemma one_payment:
  assumes "k < length (or_runs s)" "or_runs s ! k = Executing ob rest" "ob < length (or_objects s)"
    and "qp_attempts (or_objects s ! ob) = a" "1 \<le> a" "a \<le> attempts_allowed opts"
  shows "\<exists>n s'. n \<le> 2 * (attempts_allowed opts - a) + 1 \<and> or_runs s' ! k = Between rest
    \<and> reached k (if succeeds_from opts ans a ob then [ob] else []) (if succeeds_from opts ans a ob then [] else [ob]) [ob] s s'
    \<and> (\<forall>m. run_alone opts ans now k (n + m) s = run_alone opts ans now k m s')"
  using assms
proof (induction "attempts_allowed opts - a" arbitrary: a s)
  case (0 a s)
  let ?s' = "orch_step opts quiet s (ExecutorAnswers k (ans ob a) now)"
  have a: "a = attempts_allowed opts" using 0 by simp
  have "succeeds_from opts ans a ob \<longleftrightarrow> \<not> isl (ans ob a)" by (simp add: succeeds_from_def a)
  then have "or_runs ?s' ! k = Between rest
    \<and> reached k (if succeeds_from opts ans a ob then [ob] else []) (if succeeds_from opts ans a ob then [] else [ob]) [ob] s ?s'"
    using 0 a may_retry_iff [of a opts]
    by (cases "ans ob a")
      (simp_all add: orch_step_def attempt_failed_def attempt_succeeded_def put_payment_def emit_orch_def set_run_def Let_def reached_def)
  moreover have "run_alone opts ans now k (1 + m) s = run_alone opts ans now k m ?s'" for m
    using 0 by simp
  ultimately show ?case by (intro exI [of _ 1] exI [of _ ?s']) simp
next
  case (Suc d a s)
  let ?s1 = "orch_step opts quiet s (ExecutorAnswers k (ans ob a) now)"
  have one: "run_alone opts ans now k (1 + m) s = run_alone opts ans now k m ?s1" for m
    using Suc.prems by simp
  show ?case
  proof (cases "ans ob a")
    case (Inr h)
    then have "succeeds_from opts ans a ob" using Suc.prems by (force simp: succeeds_from_def)
    then have "or_runs ?s1 ! k = Between rest
      \<and> reached k (if succeeds_from opts ans a ob then [ob] else []) (if succeeds_from opts ans a ob then [] else [ob]) [ob] s ?s1"
      using Suc.prems Inr
      by (simp add: orch_step_def attempt_succeeded_def put_payment_def emit_orch_def set_run_def Let_def reached_def)
    with one show ?thesis by (intro exI [of _ 1] exI [of _ ?s1]) simp
  next
    case (Inl err)
    let ?s2 = "orch_step opts quiet ?s1 (DelayEnds k now)"
    have lt: "a < attempts_allowed opts" using Suc.hyps(2) by simp
    have s1: "or_runs ?s1 ! k = Delaying ob rest (oo_baseRetryDelayMs opts * 2 ^ (a - 1))" "reached k [] [] [ob] s ?s1"
        "qp_attempts (or_objects ?s1 ! ob) = a"
      using Suc.prems Inl lt may_retry_iff [of a opts]
      by (simp_all add: orch_step_def attempt_failed_def put_payment_def emit_orch_def set_run_def Let_def reached_def)
    then have s2: "or_runs ?s2 ! k = Executing ob rest" "reached k [] [] [ob] ?s1 ?s2" "qp_attempts (or_objects ?s2 ! ob) = Suc a"
      using Suc.prems
      by (simp_all add: orch_step_def [of opts quiet ?s1] quiet_attempt quiet_attempt_objects reached_def)
    have two: "run_alone opts ans now k (2 + m) s = run_alone opts ans now k m ?s2" for m
      using one [of "1 + m"] s1(1) by simp
    have "reached k [] [] [ob] s ?s2" using reached_trans [OF s1(2) s2(2)] by (auto simp: reached_def)
    note r = this
    have pre: "d = attempts_allowed opts - Suc a" "k < length (or_runs ?s2)" "ob < length (or_objects ?s2)" "1 \<le> Suc a"
      "Suc a \<le> attempts_allowed opts"
      using r Suc.prems Suc.hyps(2) lt by (simp_all add: reached_def)
    from Suc.hyps(1) [OF pre(1,2) s2(1) pre(3) s2(3) pre(4,5)]
    obtain n s' where n: "n \<le> 2 * (attempts_allowed opts - Suc a) + 1" "or_runs s' ! k = Between rest"
      "reached k (if succeeds_from opts ans (Suc a) ob then [ob] else []) (if succeeds_from opts ans (Suc a) ob then [] else [ob]) [ob] ?s2 s'"
      "\<And>m. run_alone opts ans now k (n + m) ?s2 = run_alone opts ans now k m s'"
      by blast
    have eq: "succeeds_from opts ans a ob = succeeds_from opts ans (Suc a) ob"
      using Inl atLeastAtMost_insertL [of a "attempts_allowed opts"] lt by (simp add: succeeds_from_def flip: atLeastAtMost_insertL)
    have "reached k (if succeeds_from opts ans a ob then [ob] else []) (if succeeds_from opts ans a ob then [] else [ob]) [ob] s s'"
      using reached_trans [OF r n(3)] unfolding eq by (auto simp: reached_def)
    moreover have "run_alone opts ans now k ((2 + n) + m) s = run_alone opts ans now k m s'" for m
      using two [of "n + m"] n(4) [of m] by (simp add: add.assoc)
    moreover have "2 + n \<le> 2 * (attempts_allowed opts - a) + 1" using n(1) lt by simp
    ultimately show ?thesis using n(2) by blast
  qed
qed

lemma whole_batch:
  assumes "k < length (or_runs s)" "or_runs s ! k = Between batch" "distinct batch"
    and "\<forall>ob \<in> set batch. ob < length (or_objects s) \<and> qp_attempts (or_objects s ! ob) = 0"
  shows "\<exists>n s'. n \<le> (2 * attempts_allowed opts) * length batch + 1 \<and> or_runs s' ! k = Finished
    \<and> reached k (filter (succeeds_from opts ans 1) batch) (filter (\<lambda>ob. \<not> succeeds_from opts ans 1 ob) batch) batch s s'
    \<and> (\<forall>m. run_alone opts ans now k (n + m) s = run_alone opts ans now k m s')"
  using assms
proof (induction batch arbitrary: s)
  case Nil
  let ?s' = "orch_step opts quiet s (Continue k now)"
  have "or_runs ?s' ! k = Finished" "reached k [] [] [] s ?s'"
    using Nil by (simp_all add: orch_step_def next_payment_def set_run_def reached_def)
  moreover have "run_alone opts ans now k (1 + m) s = run_alone opts ans now k m ?s'" for m using Nil by simp
  ultimately show ?case by (intro exI [of _ 1] exI [of _ ?s']) simp
next
  case (Cons ob rest)
  let ?s1 = "orch_step opts quiet s (Continue k now)"
  have s1: "or_runs ?s1 ! k = Executing ob rest" "reached k [] [] [ob] s ?s1" "qp_attempts (or_objects ?s1 ! ob) = 1"
    using Cons.prems
    by (simp_all add: orch_step_def next_payment_def quiet_attempt quiet_attempt_objects reached_def)
  have one: "run_alone opts ans now k (1 + m) s = run_alone opts ans now k m ?s1" for m using Cons.prems by simp
  have "k < length (or_runs ?s1)" "ob < length (or_objects ?s1)" using s1(2) Cons.prems by (simp_all add: reached_def)
  from one_payment [OF this(1) s1(1) this(2) s1(3) order_refl attempts_allowed_pos]
  obtain n s2 where n: "n \<le> 2 * (attempts_allowed opts - 1) + 1" "or_runs s2 ! k = Between rest"
    "reached k (if succeeds_from opts ans 1 ob then [ob] else []) (if succeeds_from opts ans 1 ob then [] else [ob]) [ob] ?s1 s2"
    "\<And>m. run_alone opts ans now k (n + m) ?s1 = run_alone opts ans now k m s2"
    by blast
  note r12 = reached_trans [OF s1(2) n(3)]
  have pre: "k < length (or_runs s2)" "distinct rest"
    "\<forall>ob \<in> set rest. ob < length (or_objects s2) \<and> qp_attempts (or_objects s2 ! ob) = 0"
    using r12 Cons.prems by (auto simp: reached_def)
  from Cons.IH [OF pre(1) n(2) pre(2,3)]
  obtain n' s3 where n': "n' \<le> 2 * attempts_allowed opts * length rest + 1" "or_runs s3 ! k = Finished"
    "reached k (filter (succeeds_from opts ans 1) rest) (filter (\<lambda>ob. \<not> succeeds_from opts ans 1 ob) rest) rest s2 s3"
    "\<And>m. run_alone opts ans now k (n' + m) s2 = run_alone opts ans now k m s3"
    by blast
  have "reached k (filter (succeeds_from opts ans 1) (ob # rest)) (filter (\<lambda>ob. \<not> succeeds_from opts ans 1 ob) (ob # rest)) (ob # rest) s s3"
    using reached_trans [OF r12 n'(3)] by (auto simp: reached_def)
  moreover have "run_alone opts ans now k ((1 + n + n') + m) s = run_alone opts ans now k m s3" for m
    using one [of "n + (n' + m)"] n(4) [of "n' + m"] n'(4) [of m] by (simp add: add.assoc)
  moreover have "1 + n + n' \<le> 2 * attempts_allowed opts * length (ob # rest) + 1"
    using n(1) n'(1) attempts_allowed_pos [of opts] by (simp add: algebra_simps)
  ultimately show ?case using n'(2) by blast
qed

lemma run_alone_finished: "or_runs s ! k = Finished \<Longrightarrow> run_alone opts ans now k m s = s"
  by (cases m) simp_all

lemma process_alone:
  fixes ans now
  assumes "orch_inv opts s" "2 * attempts_allowed opts * length (or_queue s) \<le> fuel"
  defines "s' \<equiv> run_alone opts ans now (length (or_runs s)) fuel (process_payments quiet now s)"
  shows "or_runs s' ! length (or_runs s) = Finished \<and> or_queue s' = []
    \<and> or_completed s' = or_completed s @ filter (succeeds_from opts ans 1) (or_queue s)
    \<and> or_failed s' = or_failed s @ filter (\<lambda>ob. \<not> succeeds_from opts ans 1 ob) (or_queue s)"
proof -
  let ?k = "length (or_runs s)" and ?s0 = "s\<lparr>or_queue := [], or_runs := or_runs s @ [Between (or_queue s)]\<rparr>"
  have k: "?k < length (or_runs ?s0)" "or_runs ?s0 ! ?k = Between (or_queue s)" by simp_all
  have "ob < length (or_objects s)" if "ob \<in> set (or_queue s)" for ob
    using places_once(2) [OF assms(1), of ob] that by (simp add: places_def)
  then have q: "distinct (or_queue s)" "\<forall>ob \<in> set (or_queue s). ob < length (or_objects ?s0) \<and> qp_attempts (or_objects ?s0 ! ob) = 0"
    using places_once(1) [OF assms(1)] orch_invD(3) [OF assms(1)] by (auto simp: places_def fresh_def)
  from whole_batch [OF k q, of opts ans now]
  obtain n s1 where n: "n \<le> 2 * attempts_allowed opts * length (or_queue s) + 1" "or_runs s1 ! ?k = Finished"
    "reached ?k (filter (succeeds_from opts ans 1) (or_queue s)) (filter (\<lambda>ob. \<not> succeeds_from opts ans 1 ob) (or_queue s)) (or_queue s) ?s0 s1"
    "\<And>m. run_alone opts ans now ?k (n + m) ?s0 = run_alone opts ans now ?k m s1"
    by blast
  obtain m where m: "Suc fuel = n + m" using n(1) assms(2) le_Suc_ex by (metis add.commute le_trans plus_1_eq_Suc Suc_le_mono)
  have "s' = run_alone opts ans now ?k (Suc fuel) ?s0"
    by (simp add: s'_def orch_step_def process_payments_def)
  then have "s' = s1" using n(4) [of m] run_alone_finished [OF n(2)] unfolding m by simp
  with n(2,3) show ?thesis by (simp add: reached_def)
qed

section \<open>Properties\<close>

text \<open>
  C21: With listeners that do not throw, and whatever calls of \<open>queue\<close>, \<open>process\<close> and \<open>drain\<close> overlap,
  every payment is at exactly one place: queued, held by a call of \<open>process\<close>, completed, failed or
  drained. A payment is announced as completed at most once and then never fails; a failed one has
  used all its attempts, and no payment is tried more often than allowed.
\<close>
theorem payments_at_one_place:
  assumes "s = foldl (orch_step opts quiet) orchestrator_new calls"
  shows "mset (or_queue s @ in_flight s @ or_completed s @ or_failed s @ or_drained s) = mset [0..<length (or_objects s)]
    \<and> completions (or_events s) = or_completed s \<and> distinct (or_completed s)
    \<and> (\<forall>ob \<in> set (or_completed s). ob \<notin> set (or_failed s) \<and> 1 \<le> qp_attempts (or_objects s ! ob)
          \<and> int (qp_attempts (or_objects s ! ob)) \<le> max 1 (1 + oo_maxRetries opts))
    \<and> (\<forall>ob \<in> set (or_failed s). int (qp_attempts (or_objects s ! ob)) = max 1 (1 + oo_maxRetries opts))"
proof -
  have inv: "orch_inv opts s" unfolding assms by (rule orchestrated.run_inv) (rule orch_inv_new)
  have "\<forall>ob \<in> set (or_completed s). ob \<notin> set (or_failed s) \<and> 1 \<le> qp_attempts (or_objects s ! ob)
      \<and> int (qp_attempts (or_objects s ! ob)) \<le> max 1 (1 + oo_maxRetries opts)"
    using places_once(1) [OF inv] orch_invD(5) [OF inv]
    by (auto simp: places_def completed_ok_def tried_def allowed_def)
  moreover have "\<forall>ob \<in> set (or_failed s). int (qp_attempts (or_objects s ! ob)) = max 1 (1 + oo_maxRetries opts)"
    using orch_invD(6) [OF inv] by (simp add: failed_ok_def allowed_def)
  ultimately show ?thesis
    using orch_invD(1,7) [OF inv] places_once(1) [OF inv] unfolding places_def by simp
qed

text \<open>
  C2: A call of \<open>process\<close> that nothing overlaps comes to its end, whatever the executor answers: after
  at most twice the allowed attempts per queued payment every one of them is completed, if one of
  its allowed attempts succeeds, or failed otherwise, in the order of the queue.
\<close>
theorem process_outcome:
  assumes "s = foldl (orch_step opts quiet) orchestrator_new calls"
    and "2 * attempts_allowed opts * length (or_queue s) \<le> fuel"
    and "s' = run_alone opts ans now (length (or_runs s)) fuel (process_payments quiet now s)"
  shows "or_runs s' ! length (or_runs s) = Finished \<and> or_queue s' = []
    \<and> or_completed s' = or_completed s @ filter (succeeds_from opts ans 1) (or_queue s)
    \<and> or_failed s' = or_failed s @ filter (\<lambda>ob. \<not> succeeds_from opts ans 1 ob) (or_queue s)"
  using process_alone [OF orchestrated.run_inv [OF orch_inv_new] assms(2) [unfolded assms(1)]]
  unfolding assms(1,3) .

section \<open>Examples\<close>

definition sample_params :: payment_params where
  "sample_params = \<lparr>pp_invoiceId = 1, pp_payer = ''GA'', pp_amount = 100, pp_id = None\<rparr>"

definition sample_opts :: orch_options where
  "sample_opts = orch_options_of (Some 1) None"

lemma payments_at_one_place_witness:
  "\<exists>s :: orchestrator. or_completed s = [0] \<and> or_failed s = [1] \<and> qp_attempts (or_objects s ! 0) \<le> 2 \<and> qp_attempts (or_objects s ! 1) = 2
     \<and> mset (or_queue s @ in_flight s @ or_completed s @ or_failed s @ or_drained s) = mset [0..<length (or_objects s)]"
proof -
  let ?calls = "[QueueCall sample_params 0, QueueCall sample_params 1, ProcessCall 2, ExecutorAnswers 0 (Inr ''h'') 3,
    Continue 0 4, ExecutorAnswers 0 (Inl ''e'') 5, DelayEnds 0 405, ExecutorAnswers 0 (Inl ''e'') 500, Continue 0 501]"
  define s where "s = foldl (orch_step sample_opts quiet) orchestrator_new ?calls"
  have r: "or_completed s = [0]" "or_failed s = [1]" unfolding s_def by code_simp+
  have m: "oo_maxRetries sample_opts = 1" by code_simp
  note t = payments_at_one_place [OF s_def]
  have "qp_attempts (or_objects s ! 0) \<le> 2" "qp_attempts (or_objects s ! 1) = 2"
    using t unfolding r m by simp_all
  with r t show ?thesis by blast
qed

lemma process_outcome_witness:
  "\<exists>s' :: orchestrator. or_completed s' = [1] \<and> or_failed s' = [0] \<and> or_queue s' = []"
proof -
  let ?calls = "[QueueCall sample_params 0, QueueCall sample_params 1]"
  let ?s = "foldl (orch_step sample_opts quiet) orchestrator_new ?calls"
  let ?ans = "\<lambda>ob a. if ob = 1 \<and> a = 2 then Inr ''h'' else Inl ''e''"
  define s where "s = ?s"
  have q: "or_queue s = [0, 1]" "or_completed s = []" "or_failed s = []" unfolding s_def by code_simp+
  have two: "attempts_allowed sample_opts = 2" by code_simp
  have f: "2 * attempts_allowed sample_opts * length (or_queue s) \<le> 8" by (simp add: q two)
  have suc: "succeeds_from sample_opts ?ans 1 ob \<longleftrightarrow> ob = 1" for ob by (auto simp: succeeds_from_def two)
  define s' where "s' = run_alone sample_opts ?ans 0 (length (or_runs s)) 8 (process_payments quiet 0 s)"
  show ?thesis using process_outcome [OF s_def f s'_def] unfolding q suc by (intro exI [of _ s']) simp
qed

text \<open>
  The listeners of \<open>payment:completed\<close> run inside the \<open>try\<close> of the executor. One that throws makes the
  orchestrator take a payment that went through for a failed attempt, and pay again.
\<close>

lemma throwing_listener_pays_twice:
  "let s = foldl (orch_step sample_opts (\<lambda>e. case e of EvCompleted ob h \<Rightarrow> Some ''boom'' | _ \<Rightarrow> None)) orchestrator_new
     [QueueCall sample_params 0, ProcessCall 1, ExecutorAnswers 0 (Inr ''h1'') 2, DelayEnds 0 3, ExecutorAnswers 0 (Inr ''h2'') 4]
   in completions (or_events s) = [0, 0] \<and> or_completed s = [0, 0] \<and> or_failed s = [0]"
  by code_simp

text \<open>The total of a status leaves out the payments of a running batch that wait for their turn.\<close>

lemma status_loses_waiting_payments:
  "let s = foldl (orch_step sample_opts quiet) orchestrator_new [QueueCall sample_params 0, QueueCall sample_params 0, ProcessCall 1]
   in length (or_objects s) = 2 \<and> os_total (getStatus s) = 1"
  by code_simp

text \<open>A listener of \<open>payment:processing\<close> that throws ends the call of \<open>process\<close> and loses the rest of the batch.\<close>

lemma throwing_listener_loses_batch:
  "let s = foldl (orch_step sample_opts (\<lambda>e. case e of EvProcessing ob n \<Rightarrow> Some ''boom'' | _ \<Rightarrow> None)) orchestrator_new
     [QueueCall sample_params 0, QueueCall sample_params 0, ProcessCall 1, ProcessCall 2]
   in or_queue s = [] \<and> or_runs s = [Thrown ''boom'' 0 [1], Finished]"
  by code_simp

end
