(* ===== verification/Payment_Graph.thy ===== *)
theory Payment_Graph
  imports Invoice_State
begin

text \<open>
  \<open>graph/PaymentGraphChecker.ts\<close>: whether every recipient of an invoice can be paid. The graphs it
  caches, the breadth-first search over them, the path that is returned and the verdict. What
  Horizon answers, the units it is asked in and the clock are arguments; the graph is the one the
  code builds of the answer.
\<close>

section \<open>Graphs\<close>

type_synonym account_graph = "(string \<times> string list) list"

definition succs :: "account_graph \<Rightarrow> string \<Rightarrow> string list" where
  "succs g a = (case map_of g a of None \<Rightarrow> [] | Some s \<Rightarrow> s)"

definition add_edge :: "string \<Rightarrow> string \<Rightarrow> account_graph \<Rightarrow> account_graph" where
  "add_edge a b g = AList.update a (set_add b (succs g a)) g"

record graph_edge =
  ge_from :: string
  ge_to :: string
  ge_weight :: rat

datatype graph_validation = GraphValid | NegativeWeight graph_edge

text \<open>\<open>checkGraph\<close>; the reason it gives prints the edge it found.\<close>

definition checkGraph :: "graph_edge list \<Rightarrow> graph_validation" where
  "checkGraph edges = (case List.find (\<lambda>e. ge_weight e < 0) edges of Some e \<Rightarrow> NegativeWeight e | None \<Rightarrow> GraphValid)"

text \<open>
  \<open>hasPath\<close>. The inner loop either meets the destination, which is \<open>None\<close> here, or extends the
  visited accounts and the queue.
\<close>

fun bfs_scan :: "string \<Rightarrow> string list \<Rightarrow> string list \<Rightarrow> string list \<Rightarrow> (string list \<times> string list) option" where
  "bfs_scan to visited queue [] = Some (visited, queue)"
| "bfs_scan to visited queue (n # ns) =
     (if n = to then None
      else if n \<notin> set visited then bfs_scan to (visited @ [n]) (queue @ [n]) ns
      else bfs_scan to visited queue ns)"

lemma bfs_scan_Some:
  "bfs_scan to visited queue ns = Some (v, q) \<Longrightarrow>
    \<exists>new. v = visited @ new \<and> q = queue @ new \<and> set new \<subseteq> set ns \<and> set new \<inter> set visited = {} \<and> set ns \<subseteq> set v \<and> to \<notin> set ns"
proof (induction ns arbitrary: visited queue)
  case (Cons n ns)
  show ?case
  proof (cases "n \<in> set visited")
    case True
    with Cons.prems have "bfs_scan to visited queue ns = Some (v, q)" "n \<noteq> to" by (auto split: if_splits)
    with Cons.IH [OF this(1)] True show ?thesis by auto
  next
    case False
    with Cons.prems have "bfs_scan to (visited @ [n]) (queue @ [n]) ns = Some (v, q)" "n \<noteq> to" by (auto split: if_splits)
    from Cons.IH [OF this(1)] obtain new where "v = (visited @ [n]) @ new" "q = (queue @ [n]) @ new" "set new \<subseteq> set ns"
      "set new \<inter> set (visited @ [n]) = {}" "set ns \<subseteq> set v" "to \<notin> set ns" by blast
    with \<open>n \<noteq> to\<close> False show ?thesis by (intro exI [of _ "n # new"]) auto
  qed
qed simp

lemma bfs_scan_None: "bfs_scan to visited queue ns = None \<longleftrightarrow> to \<in> set ns"
  by (induction to visited queue ns rule: bfs_scan.induct) auto

definition accounts :: "account_graph \<Rightarrow> string set" where
  "accounts g = \<Union> (set ` snd ` set g)"

lemma succs_accounts: "set (succs g a) \<subseteq> accounts g"
proof
  fix x assume "x \<in> set (succs g a)"
  then obtain s where "map_of g a = Some s" "x \<in> set s" by (cases "map_of g a") (auto simp: succs_def)
  then show "x \<in> accounts g" unfolding accounts_def by (force dest: map_of_SomeD)
qed

function bfs :: "account_graph \<Rightarrow> string \<Rightarrow> string list \<Rightarrow> string list \<Rightarrow> bool" where
  "bfs g to visited [] = False"
| "bfs g to visited (c # queue) =
     (case bfs_scan to visited queue (succs g c) of
        None \<Rightarrow> True
      | Some (v, q) \<Rightarrow> bfs g to v q)"
  by pat_completeness auto
termination
proof (relation "measures [\<lambda>(g, to, visited, queue). card (accounts g - set visited), \<lambda>(g, to, visited, queue). length queue]", goal_cases)
  case (2 g to visited c queue p v q)
  then have s: "bfs_scan to visited queue (succs g c) = Some (v, q)" by simp
  obtain new where new: "v = visited @ new" "q = queue @ new" "set new \<subseteq> set (succs g c)" "set new \<inter> set visited = {}"
    using bfs_scan_Some [OF s] by blast
  show ?case
  proof (cases "new = []")
    case True
    with new show ?thesis by simp
  next
    case False
    then obtain n where "n \<in> set new" by (cases new) auto
    with new succs_accounts [of g c] have "n \<in> accounts g - set visited" "n \<in> set v" by auto
    then have "accounts g - set v \<subset> accounts g - set visited" using new(1) by auto
    moreover have "finite (accounts g - set visited)" by (auto simp: accounts_def)
    ultimately show ?thesis by (simp add: psubset_card_mono)
  qed
qed simp

definition hasPath :: "account_graph \<Rightarrow> string \<Rightarrow> string \<Rightarrow> bool" where
  "hasPath g from to = (if from = to then True else bfs g to [from] [from])"

section \<open>Paths and the cache\<close>

record payment_path =
  pp_from :: string
  pp_to :: string
  pp_assetCode :: string
  pp_assetIssuer :: string

record path_entry =
  pe_graph :: account_graph
  pe_timestamp :: int

record path_checker =
  pc_cache :: "(string \<times> path_entry) list"
  pc_cacheTTL :: int

text \<open>\<open>options.cacheTTL || 60000\<close>.\<close>

definition path_checker_new :: "int option \<Rightarrow> path_checker" where
  "path_checker_new ttl = \<lparr>pc_cache = [], pc_cacheTTL = (case ttl of Some t \<Rightarrow> if t = 0 then 60000 else t | None \<Rightarrow> 60000)\<rparr>"

text \<open>\<open>a.split(":")\<close>, with the defaults of the two parts.\<close>

definition parseAsset :: "string \<Rightarrow> string \<times> string" where
  "parseAsset asset =
     (if take 6 asset = ''native'' then (''native'', '''')
      else let code = takeWhile (\<lambda>c. c \<noteq> CHR '':'') asset; rest = dropWhile (\<lambda>c. c \<noteq> CHR '':'') asset
           in (if code = '''' then ''XLM'' else code, takeWhile (\<lambda>c. c \<noteq> CHR '':'') (tl rest)))"

definition extractAssetFromInvoice :: "invoice \<Rightarrow> string" where
  "extractAssetFromInvoice i = ''native:''"

definition getCacheKey :: "string \<Rightarrow> string \<Rightarrow> string \<Rightarrow> string" where
  "getCacheKey sourceAsset sourceAccount targetAsset = sourceAsset @ '':'' @ sourceAccount @ '':'' @ targetAsset"

definition getFromCache :: "string \<Rightarrow> int \<Rightarrow> path_checker \<Rightarrow> path_entry option \<times> path_checker" where
  "getFromCache key now c =
     (case map_of (pc_cache c) key of
        None \<Rightarrow> (None, c)
      | Some e \<Rightarrow>
          if now - pe_timestamp e > pc_cacheTTL c then (None, c\<lparr>pc_cache := AList.delete key (pc_cache c)\<rparr>)
          else (Some e, c))"

definition saveToCache :: "string \<Rightarrow> account_graph \<Rightarrow> int \<Rightarrow> path_checker \<Rightarrow> path_checker" where
  "saveToCache key g now c = c\<lparr>pc_cache := AList.update key \<lparr>pe_graph = g, pe_timestamp = now\<rparr> (pc_cache c)\<rparr>"

text \<open>A record of Horizon's answer is its list of hops, of which the issuers are read.\<close>

fun add_hops :: "string \<Rightarrow> string \<Rightarrow> string option list \<Rightarrow> account_graph \<Rightarrow> account_graph" where
  "add_hops dest prev [] g = g"
| "add_hops dest prev (h # hs) g =
     (let hop = (case h of Some i \<Rightarrow> if i = '''' then dest else i | None \<Rightarrow> dest)
      in add_hops dest hop hs (add_edge prev hop g))"

definition buildGraphFromPaths :: "string option list list \<Rightarrow> string \<Rightarrow> string \<Rightarrow> account_graph" where
  "buildGraphFromPaths records source dest = foldl (\<lambda>g r. add_hops dest source r (add_edge source dest g)) [] records"

definition reconstructPath :: "account_graph \<Rightarrow> string \<Rightarrow> string \<Rightarrow> string \<Rightarrow> payment_path list" where
  "reconstructPath g from to asset =
     (if to \<in> set (succs g from)
      then [\<lparr>pp_from = from, pp_to = to, pp_assetCode = fst (parseAsset asset), pp_assetIssuer = snd (parseAsset asset)\<rparr>]
      else [])"

text \<open>
  What happens while one recipient is looked up: the time before the request, the answer, \<open>None\<close> for
  a failed request or one that throws, and the time after it. The request names the asset, the
  amount in units and the destination.
\<close>

record lookup_env =
  le_now :: int
  le_horizon :: "string \<times> string \<Rightarrow> int \<Rightarrow> string \<Rightarrow> string option list list option"
  le_later :: int

definition findPath ::
    "lookup_env \<Rightarrow> string \<Rightarrow> string \<Rightarrow> string \<Rightarrow> string \<Rightarrow> int \<Rightarrow> path_checker \<Rightarrow> payment_path list \<times> path_checker" where
  "findPath env source dest sourceAsset targetAsset amount c =
     (let key = getCacheKey sourceAsset source targetAsset;
          cached = getFromCache key (le_now env) c; c' = snd cached;
          ask = (case le_horizon env (parseAsset sourceAsset) amount dest of
                   None \<Rightarrow> ([], c')
                 | Some records \<Rightarrow>
                     if records = [] then ([], c')
                     else let g = buildGraphFromPaths records source dest
                          in (reconstructPath g source dest sourceAsset, saveToCache key g (le_later env) c'))
      in case fst cached of
           Some e \<Rightarrow> if hasPath (pe_graph e) source dest then (reconstructPath (pe_graph e) source dest sourceAsset, c') else ask
         | None \<Rightarrow> ask)"

section \<open>The verdict\<close>

record graph_check =
  gc_reachable :: "recipient list"
  gc_unreachable :: "recipient list"
  gc_paths :: "(string \<times> payment_path list) list"

datatype path_error = UnreachableRecipientError "string list" nat

fun check_recipients ::
    "string \<Rightarrow> string \<Rightarrow> (recipient \<times> lookup_env) list \<Rightarrow> graph_check \<Rightarrow> nat \<Rightarrow> path_checker \<Rightarrow> graph_check \<times> nat \<times> path_checker" where
  "check_recipients source asset [] r edges c = (r, edges, c)"
| "check_recipients source asset ((x, env) # xs) r edges c =
     (case findPath env source (rc_address x) asset asset (rc_amount x) c of
        (path, c') \<Rightarrow>
          if length path > 0 then
            check_recipients source asset xs
              (r\<lparr>gc_reachable := gc_reachable r @ [x], gc_paths := AList.update (rc_address x) path (gc_paths r)\<rparr>)
              (edges + length path) c'
          else check_recipients source asset xs (r\<lparr>gc_unreachable := gc_unreachable r @ [x]\<rparr>) edges c')"

text \<open>\<open>invoice.creator || invoice.payer || ""\<close>; the environments are those of the recipients in order.\<close>

definition check_invoice ::
    "invoice \<Rightarrow> string option \<Rightarrow> bool \<Rightarrow> lookup_env list \<Rightarrow> path_checker \<Rightarrow> (path_error + graph_check) \<times> path_checker" where
  "check_invoice i payer allowUnreachable envs c =
     (let source = (if inv_creator i \<noteq> '''' then inv_creator i else case payer of Some p \<Rightarrow> p | None \<Rightarrow> '''')
      in case check_recipients source (extractAssetFromInvoice i) (zip (inv_recipients i) envs)
                \<lparr>gc_reachable = [], gc_unreachable = [], gc_paths = []\<rparr> 0 c of
           (r, edges, c') \<Rightarrow>
             (if gc_unreachable r \<noteq> [] \<and> \<not> allowUnreachable
              then Inl (UnreachableRecipientError (map rc_address (gc_unreachable r)) edges) else Inr r, c'))"

section \<open>Reachability\<close>

definition payment_edges :: "account_graph \<Rightarrow> (string \<times> string) set" where
  "payment_edges g = {(a, b). b \<in> set (succs g a)}"

text \<open>The search has looked at everything it visited, but for the queue, and has not met the destination.\<close>

definition bfs_inv :: "account_graph \<Rightarrow> string \<Rightarrow> string list \<Rightarrow> string list \<Rightarrow> bool" where
  "bfs_inv g to visited queue \<longleftrightarrow> to \<notin> set visited \<and> set queue \<subseteq> set visited \<and>
     (\<forall>a \<in> set visited - set queue. set (succs g a) \<subseteq> set visited)"

lemma bfs_inv_scan:
  assumes "bfs_inv g to visited (c # queue)" "bfs_scan to visited queue (succs g c) = Some (v, q)"
  shows "bfs_inv g to v q" "set visited \<subseteq> set v" "set v \<subseteq> set visited \<union> set (succs g c)"
proof -
  obtain new where new: "v = visited @ new" "q = queue @ new" "set new \<subseteq> set (succs g c)" "set (succs g c) \<subseteq> set v" "to \<notin> set (succs g c)"
    using bfs_scan_Some [OF assms(2)] by blast
  show "bfs_inv g to v q" "set visited \<subseteq> set v" "set v \<subseteq> set visited \<union> set (succs g c)"
    using assms(1) new by (auto simp: bfs_inv_def)
qed

lemma bfs_reaches:
  "bfs_inv g to visited queue \<Longrightarrow> bfs g to visited queue \<longleftrightarrow> (\<exists>a \<in> set visited. (a, to) \<in> (payment_edges g)\<^sup>*)"
proof (induction g to visited queue rule: bfs.induct)
  case (1 g to visited)
  have "b \<in> set visited" if "(a, b) \<in> (payment_edges g)\<^sup>*" "a \<in> set visited" for a b
    using that by (induction) (use 1 in \<open>auto simp: bfs_inv_def payment_edges_def\<close>)
  with 1 show ?case by (auto simp: bfs_inv_def)
next
  case (2 g to visited c queue)
  have c: "c \<in> set visited" using 2(2) by (simp add: bfs_inv_def)
  show ?case
  proof (cases "bfs_scan to visited queue (succs g c)")
    case None
    then have "(c, to) \<in> payment_edges g" by (simp add: bfs_scan_None payment_edges_def)
    with c None show ?thesis by auto
  next
    case (Some vq)
    obtain v q where vq: "vq = (v, q)" by (cases vq)
    note i = bfs_inv_scan [OF 2(2) Some [unfolded vq]]
    have "(c, b) \<in> payment_edges g" if "b \<in> set (succs g c)" for b using that by (simp add: payment_edges_def)
    then have "(\<exists>a \<in> set v. (a, to) \<in> (payment_edges g)\<^sup>*) \<longleftrightarrow> (\<exists>a \<in> set visited. (a, to) \<in> (payment_edges g)\<^sup>*)"
      using i(2,3) c by (blast intro: converse_rtrancl_into_rtrancl)
    with 2(1) [OF Some vq [symmetric] i(1)] show ?thesis by (simp add: Some vq)
  qed
qed

lemma hasPath_reachable: "hasPath g a b \<longleftrightarrow> (a, b) \<in> (payment_edges g)\<^sup>*"
proof (cases "a = b")
  case False
  then have "bfs_inv g b [a] [a]" by (simp add: bfs_inv_def)
  from bfs_reaches [OF this] False show ?thesis by (simp add: hasPath_def)
qed (simp add: hasPath_def)

text \<open>
  The search of the cached graph always ends and answers whether the destination can be reached
  at all: it is true exactly when some sequence of edges leads from the source to the destination.
\<close>

theorem hasPath_iff_reachable: "hasPath g a b \<longleftrightarrow> (a, b) \<in> (payment_edges g)\<^sup>*"
  by (rule hasPath_reachable)

section \<open>The check\<close>

text \<open>A path that is returned is the one direct hop, so a recipient counts as reachable by an edge only.\<close>

lemma reconstructPath_cases:
  "reconstructPath g a b asset = [] \<and> b \<notin> set (succs g a) \<or>
   (\<exists>p. reconstructPath g a b asset = [p] \<and> pp_from p = a \<and> pp_to p = b \<and> b \<in> set (succs g a))"
  by (simp add: reconstructPath_def)

lemma findPath_hop:
  assumes "findPath env source dest sa ta amount c = (path, c')"
  shows "path = [] \<or> (\<exists>p. path = [p] \<and> pp_from p = source \<and> pp_to p = dest)"
proof -
  have "path = [] \<or> (\<exists>g. path = reconstructPath g source dest sa)"
    using assms by (auto simp: findPath_def Let_def split: option.splits if_splits)
  with reconstructPath_cases show ?thesis by metis
qed

definition paths_ok :: "string \<Rightarrow> graph_check \<Rightarrow> bool" where
  "paths_ok source r \<longleftrightarrow>
     (\<forall>x \<in> set (gc_reachable r). \<exists>p. map_of (gc_paths r) (rc_address x) = Some [p] \<and> pp_from p = source \<and> pp_to p = rc_address x)"

lemma check_recipients_parts:
  "check_recipients source asset xs r edges c = (r', edges', c') \<Longrightarrow> paths_ok source r \<Longrightarrow>
    mset (gc_reachable r') + mset (gc_unreachable r') = mset (gc_reachable r) + mset (gc_unreachable r) + mset (map fst xs) \<and> paths_ok source r'"
proof (induction source asset xs r edges c rule: check_recipients.induct)
  case (2 source asset x env xs r edges c)
  obtain path c1 where f: "findPath env source (rc_address x) asset asset (rc_amount x) c = (path, c1)" by fastforce
  from findPath_hop [OF f] show ?case
  proof
    assume e: "path = []"
    with 2(2) [OF f [symmetric]] 2(3,4) f show ?thesis by (simp add: paths_ok_def)
  next
    assume "\<exists>p. path = [p] \<and> pp_from p = source \<and> pp_to p = rc_address x"
    then obtain p where p: "path = [p]" "pp_from p = source" "pp_to p = rc_address x" by blast
    let ?r = "r\<lparr>gc_reachable := gc_reachable r @ [x], gc_paths := AList.update (rc_address x) path (gc_paths r)\<rparr>"
    have "paths_ok source ?r" using 2(4) p by (auto simp: paths_ok_def)
    with 2(1) [OF f [symmetric]] 2(3) f p(1) show ?thesis by simp
  qed
qed simp

text \<open>
  The verdict accounts for every recipient once. When the check returns, its reachable and
  unreachable recipients are together those of the invoice, nobody is unreachable unless the caller
  allows it, and each reachable one has a path that leads from the source account to it. It throws
  only when somebody is unreachable, and names recipients of the invoice.
\<close>

theorem check_accounts_for_recipients:
  fixes i :: invoice
  assumes "length envs = length (inv_recipients i)" "inv_creator i \<noteq> ''''"
  shows "case fst (check_invoice i payer allow envs c) of
      Inr r \<Rightarrow> mset (gc_reachable r) + mset (gc_unreachable r) = mset (inv_recipients i) \<and> (allow \<or> gc_unreachable r = []) \<and>
        (\<forall>x \<in> set (gc_reachable r). \<exists>p. map_of (gc_paths r) (rc_address x) = Some [p] \<and> pp_from p = inv_creator i \<and> pp_to p = rc_address x)
    | Inl (UnreachableRecipientError addresses n) \<Rightarrow> \<not> allow \<and> addresses \<noteq> [] \<and> set addresses \<subseteq> rc_address ` set (inv_recipients i)"
proof -
  obtain r edges c' where r: "check_recipients (inv_creator i) (extractAssetFromInvoice i) (zip (inv_recipients i) envs)
      \<lparr>gc_reachable = [], gc_unreachable = [], gc_paths = []\<rparr> 0 c = (r, edges, c')" by (metis prod_cases3)
  from check_recipients_parts [OF r] assms(1) have p: "mset (gc_reachable r) + mset (gc_unreachable r) = mset (inv_recipients i)" "paths_ok (inv_creator i) r"
    by (simp_all add: paths_ok_def)
  have "set (gc_unreachable r) \<subseteq> set (inv_recipients i)"
  proof
    fix x assume "x \<in> set (gc_unreachable r)"
    then have "x \<in># mset (gc_reachable r) + mset (gc_unreachable r)" by simp
    then show "x \<in> set (inv_recipients i)" unfolding p(1) by simp
  qed
  then have "rc_address ` set (gc_unreachable r) \<subseteq> rc_address ` set (inv_recipients i)" by (rule image_mono)
  moreover have "check_invoice i payer allow envs c =
      (if gc_unreachable r \<noteq> [] \<and> \<not> allow then Inl (UnreachableRecipientError (map rc_address (gc_unreachable r)) edges) else Inr r, c')"
    using assms(2) r by (simp add: check_invoice_def)
  ultimately show ?thesis using p by (simp add: paths_ok_def)
qed

definition sample_env :: lookup_env where
  "sample_env = \<lparr>le_now = 0, le_horizon = (\<lambda>asset amount dest. if amount \<le> 100 then Some [[Some ''I'', Some ''J'']] else None), le_later = 1\<rparr>"

definition sample_payees :: invoice where
  "sample_payees =
     \<lparr>inv_id = ''1'', inv_creator = ''S'', inv_recipients = [\<lparr>rc_address = ''A'', rc_amount = 100\<rparr>, \<lparr>rc_address = ''B'', rc_amount = 5000\<rparr>], inv_token = ''USDC'',
      inv_deadline = 0, inv_funded = 0, inv_status = Pending, inv_payments = [], inv_prerequisites = None,
      inv_prerequisite_id = None, inv_statusHistory = None\<rparr>"

theorem check_accounts_for_recipients_witness:
  "\<exists>addresses n. fst (check_invoice sample_payees None False [sample_env, sample_env] (path_checker_new None)) =
     Inl (UnreachableRecipientError addresses n) \<and> set addresses \<subseteq> {''A'', ''B''}"
proof -
  have "length [sample_env, sample_env] = length (inv_recipients sample_payees)" "inv_creator sample_payees \<noteq> ''''"
    by (simp_all add: sample_payees_def)
  note t = check_accounts_for_recipients [OF this, where payer = None and allow = False and c = "path_checker_new None"]
  have "case fst (check_invoice sample_payees None False [sample_env, sample_env] (path_checker_new None)) of Inl _ \<Rightarrow> True | Inr _ \<Rightarrow> False"
    by code_simp
  then obtain e where e: "fst (check_invoice sample_payees None False [sample_env, sample_env] (path_checker_new None)) = Inl e"
    by (auto split: sum.splits)
  moreover obtain a n where "e = UnreachableRecipientError a n" by (cases e)
  moreover have "rc_address ` set (inv_recipients sample_payees) = {''A'', ''B''}" by (simp add: sample_payees_def)
  ultimately show ?thesis using t by simp
qed

text \<open>
  A cached graph decides alone. While the entry of a source and asset is fresh and reaches the
  destination, the answer does not depend on the amount nor on Horizon, which is not asked: a path
  that was found for a small amount is returned for any amount, and a destination that the graph
  reaches in several hops only gets the empty path, so it is reported unreachable.
\<close>

theorem cached_graph_decides:
  assumes "map_of (pc_cache c) (getCacheKey sa source ta) = Some e" "le_now env - pe_timestamp e \<le> pc_cacheTTL c"
    and "(source, dest) \<in> (payment_edges (pe_graph e))\<^sup>*"
  shows "findPath env source dest sa ta amount c = (reconstructPath (pe_graph e) source dest sa, c) \<and>
    (dest \<notin> set (succs (pe_graph e) source) \<longrightarrow> fst (findPath env source dest sa ta amount c) = [])"
proof -
  have "getFromCache (getCacheKey sa source ta) (le_now env) c = (Some e, c)" using assms(1,2) by (simp add: getFromCache_def)
  moreover have "hasPath (pe_graph e) source dest" using assms(3) by (simp add: hasPath_reachable)
  ultimately show ?thesis by (simp add: findPath_def Let_def reconstructPath_def)
qed

text \<open>The cache after one recipient was paid: \<open>J\<close> is two hops away, and its lookup returns nothing.\<close>

theorem cached_graph_decides_witness:
  "\<exists>c. snd (check_invoice sample_payees None True [sample_env] (path_checker_new None)) = c \<and>
     (\<forall>amount. fst (findPath sample_env ''S'' ''J'' ''native:'' ''native:'' amount c) = [])"
proof -
  let ?g = "[(''S'', [''A'', ''I'']), (''I'', [''J''])]"
  let ?c = "\<lparr>pc_cache = [(''native::S:native:'', \<lparr>pe_graph = ?g, pe_timestamp = 1\<rparr>)], pc_cacheTTL = 60000\<rparr>"
  have c: "snd (check_invoice sample_payees None True [sample_env] (path_checker_new None)) = ?c" by code_simp
  have "(''S'', ''J'') \<in> (payment_edges ?g)\<^sup>*" unfolding hasPath_reachable [symmetric] by code_simp
  then have "fst (findPath sample_env ''S'' ''J'' ''native:'' ''native:'' amount ?c) = []" for amount
    using cached_graph_decides [of ?c "''native:''" "''S''" "''native:''" "\<lparr>pe_graph = ?g, pe_timestamp = 1\<rparr>" sample_env "''J''" amount]
    by (simp add: getCacheKey_def sample_env_def succs_def reconstructPath_def)
  with c show ?thesis by blast
qed

end
