(* ===== verification/Qr_Code.thy ===== *)
theory Qr_Code
  imports Prelude "HOL-Library.Word"
begin

unbundle bit_operations_syntax

text \<open>
  QR codes: the field arithmetic and Reed-Solomon code of \<open>qr/qrEcc.ts\<close>, the capacities of \<open>qr/qrData.ts\<close> and
  the matrix of \<open>qr/qrMatrix.ts\<close>. A value read outside a table is \<open>undefined\<close>, here \<open>None\<close>, which an
  exclusive or takes for zero. A string is the list of its code points. What \<open>Number.prototype.toString\<close>
  prints is the argument \<open>num_text\<close>.
\<close>

section \<open>Field arithmetic\<close>

definition PRIM :: int where "PRIM = 0x11d"

definition gf_shift :: "int \<Rightarrow> int" where
  "gf_shift x = (let y = push_bit 1 x in if y AND 0x100 \<noteq> 0 then y XOR PRIM else y)"

text \<open>The first loop of \<open>initTables\<close>, from index \<open>i\<close> for \<open>n\<close> more indices, and the second.\<close>

fun fill_tables :: "nat \<Rightarrow> nat \<Rightarrow> int \<Rightarrow> int list \<times> int list \<Rightarrow> int list \<times> int list" where
  "fill_tables 0 i x t = t"
| "fill_tables (Suc n) i x (e, l) = fill_tables n (Suc i) (gf_shift x) (e[i := x], l[nat x := int i])"

definition wrap_table :: "int list \<Rightarrow> int list" where
  "wrap_table e = foldl (\<lambda>e i. e[i := e ! (i - 255)]) e [255..<512]"

definition gf_tables :: "int list \<times> int list" where
  "gf_tables = (let (e, l) = fill_tables 255 0 1 (replicate 512 0, replicate 256 0) in (wrap_table e, l))"

definition EXP :: "int list" where "EXP = fst gf_tables"
definition LOG :: "int list" where "LOG = snd gf_tables"

definition read_at :: "int list \<Rightarrow> int \<Rightarrow> int option" where
  "read_at t i = (if 0 \<le> i \<and> i < int (length t) then Some (t ! nat i) else None)"

definition gfMul :: "int \<Rightarrow> int \<Rightarrow> int option" where
  "gfMul a b =
     (if a = 0 \<or> b = 0 then Some 0
      else case (read_at LOG a, read_at LOG b) of
        (Some la, Some lb) \<Rightarrow> read_at EXP (la + lb)
      | _ \<Rightarrow> None)"

definition gfPow :: "int \<Rightarrow> int \<Rightarrow> int option" where
  "gfPow a b = (if a = 0 then Some 0
     else case read_at LOG a of Some la \<Rightarrow> read_at EXP (la * b smod 255) | None \<Rightarrow> None)"

text \<open>\<open>x ^ y\<close> on 32 bits, \<open>undefined\<close> counting as zero.\<close>

definition to_int32 :: "int \<Rightarrow> int" where
  "to_int32 x = signed_take_bit 31 x"

definition js_xor :: "int \<Rightarrow> int option \<Rightarrow> int" where
  "js_xor x y = to_int32 x XOR to_int32 (case y of None \<Rightarrow> 0 | Some v \<Rightarrow> v)"

definition gf_mul_opt :: "int \<Rightarrow> int option \<Rightarrow> int option" where
  "gf_mul_opt a b = (case b of Some v \<Rightarrow> gfMul a v | None \<Rightarrow> if a = 0 then Some 0 else None)"

section \<open>The Reed-Solomon code\<close>

definition polyMul :: "int list \<Rightarrow> int list \<Rightarrow> int list" where
  "polyMul a b =
     foldl (\<lambda>res (i, j). res[i + j := js_xor (res ! (i + j)) (gfMul (a ! i) (b ! j))])
       (replicate (length a + length b - 1) 0) (List.product [0..<length a] [0..<length b])"

definition gfMakeGenerator :: "nat \<Rightarrow> int list" where
  "gfMakeGenerator numEcc =
     foldl (\<lambda>gen i. polyMul gen [to_int32 (push_bit (i mod 32) 0x111), 0x111]) [1] [0..<numEcc]"

text \<open>
  One round of the division loop, and the loop: each round drops the head. The divisor is not empty (with an
  empty one the loop of the code does not end).
\<close>

definition divide_round :: "int list \<Rightarrow> int list \<Rightarrow> int list" where
  "divide_round dv r =
     (let coeff = hd r
      in tl (if coeff \<noteq> 0
             then let ratio = gfMul coeff (hd dv)
                  in foldl (\<lambda>r i. r[i := js_xor (r ! i) (gf_mul_opt (dv ! i) ratio)]) r [0..<length dv]
             else r))"

lemma length_divide_round [simp]: "length (divide_round dv r) = length r - 1"
proof -
  have "length (foldl (\<lambda>r i. r[i := f r i]) r xs) = length r" for f xs and r :: "int list"
    by (induction xs arbitrary: r) simp_all
  then show ?thesis by (simp add: divide_round_def Let_def)
qed

function divide_loop :: "int list \<Rightarrow> int list \<Rightarrow> int list" where
  "divide_loop dv r = (if length r \<ge> length dv \<and> r \<noteq> [] then divide_loop dv (divide_round dv r) else r)"
  by auto
termination by (relation "measure (\<lambda>(dv, r). length r)") auto

declare divide_loop.simps [simp del]

definition gfPolyMod :: "int list \<Rightarrow> int list \<Rightarrow> int" where
  "gfPolyMod dividend divisor = (let r = divide_loop divisor dividend in if r \<noteq> [] then hd r else 0)"

definition rsEncode :: "int list \<Rightarrow> nat \<Rightarrow> int list" where
  "rsEncode message numEcc =
     (if numEcc = 0 then []
      else take numEcc (divide_loop (gfMakeGenerator numEcc) (message @ replicate numEcc 0)))"

text \<open>\<open>None\<close>: the decoder throws.\<close>

definition syndrome :: "int list \<Rightarrow> nat \<Rightarrow> int list" where
  "syndrome message n =
     map (\<lambda>j. foldl (\<lambda>acc i. js_xor acc (gf_mul_opt (message ! i) (gfPow 2 (int (i * (n - 1 - j)) smod 255))))
       0 [0..<length message]) [0..<n]"

definition rsDecode :: "int list \<Rightarrow> int list option" where
  "rsDecode message =
     (if length message < 2 then Some message
      else let s = rsEncode message 2
           in if list_all (\<lambda>v. v = 0) s then Some message
              else if \<not> list_all (\<lambda>v. v = 0) (syndrome message (length s)) then None else Some message)"

section \<open>Capacities\<close>

datatype ec_level = LevelL | LevelM | LevelQ | LevelH

fun QR_CAPACITY :: "ec_level \<Rightarrow> nat list" where
  "QR_CAPACITY LevelL = [0, 17, 32, 53, 78, 106, 136, 172, 206, 246, 290, 338, 390, 446, 506, 570, 638, 710, 786, 866, 950,
     1038, 1130, 1226, 1326, 1430, 1538, 1650, 1766, 1886, 2010, 2138, 2270, 2406, 2542, 2682, 2826, 2970, 3120, 3270, 3420]"
| "QR_CAPACITY LevelM = [0, 7, 14, 26, 38, 52, 68, 86, 106, 126, 148, 172, 200, 226, 256, 286, 320, 356, 396, 436, 480, 526,
     576, 626, 680, 736, 796, 856, 920, 986, 1056, 1126, 1196, 1270, 1346, 1426, 1506, 1590, 1674, 1760, 1846]"
| "QR_CAPACITY LevelQ = [0, 10, 22, 36, 52, 70, 90, 112, 136, 162, 190, 220, 250, 282, 316, 352, 390, 430, 472, 516, 564, 612,
     664, 716, 772, 830, 890, 952, 1016, 1082, 1150, 1220, 1292, 1366, 1442, 1520, 1598, 1680, 1762, 1846, 1930]"
| "QR_CAPACITY LevelH = [0, 13, 28, 44, 64, 84, 108, 132, 156, 184, 212, 242, 276, 312, 350, 390, 430, 476, 522, 572, 622, 676,
     732, 790, 850, 912, 976, 1042, 1110, 1180, 1252, 1326, 1402, 1480, 1560, 1642, 1726, 1812, 1900, 1990, 2080]"

record qr_capacity =
  qc_version :: nat
  qc_dataCodewords :: nat
  qc_eccCodewords :: nat
  qc_totalCodewords :: nat

definition computeVersion :: "nat \<Rightarrow> ec_level \<Rightarrow> nat option" where
  "computeVersion dataBytes ec = List.find (\<lambda>v. QR_CAPACITY ec ! (v - 1) \<ge> dataBytes) [1..<41]"

definition getCapacity :: "nat \<Rightarrow> ec_level \<Rightarrow> qr_capacity" where
  "getCapacity version ec =
     (let c = QR_CAPACITY ec ! (version - 1)
      in \<lparr>qc_version = version, qc_dataCodewords = c, qc_eccCodewords = nat \<lfloor>of_nat c / 4 + (1 / 2 :: rat)\<rfloor>,
          qc_totalCodewords = c\<rparr>)"

definition isErrorCorrectionLevel :: "string \<Rightarrow> bool" where
  "isErrorCorrectionLevel s \<longleftrightarrow> s \<in> set [''L'', ''M'', ''Q'', ''H'']"

definition level_of :: "string \<Rightarrow> ec_level" where
  "level_of s = (if s = ''L'' then LevelL else if s = ''M'' then LevelM else if s = ''Q'' then LevelQ else LevelH)"

text \<open>\<open>TextEncoder\<close>: UTF-8, a lone surrogate becoming the replacement character.\<close>

definition utf8 :: "nat \<Rightarrow> nat list" where
  "utf8 c =
     (if c < 0x80 then [c]
      else if c < 0x800 then [0xC0 + c div 0x40, 0x80 + c mod 0x40]
      else if 0xD800 \<le> c \<and> c \<le> 0xDFFF then [0xEF, 0xBF, 0xBD]
      else if c < 0x10000 then [0xE0 + c div 0x1000, 0x80 + c div 0x40 mod 0x40, 0x80 + c mod 0x40]
      else [0xF0 + c div 0x40000, 0x80 + c div 0x1000 mod 0x40, 0x80 + c div 0x40 mod 0x40, 0x80 + c mod 0x40])"

definition toByteArray :: "nat list \<Rightarrow> nat list" where
  "toByteArray s = concat (map utf8 s)"

section \<open>The matrix\<close>

type_synonym modules = "bool list list"

definition set_module :: "nat \<Rightarrow> nat \<Rightarrow> bool \<Rightarrow> modules \<Rightarrow> modules" where
  "set_module i j v m = m[i := (m ! i)[j := v]]"

definition pairs_below :: "nat \<Rightarrow> (nat \<times> nat) list" where
  "pairs_below n = List.product [0..<n] [0..<n]"

definition finderPattern :: "nat \<Rightarrow> modules" where
  "finderPattern n =
     map (\<lambda>i. map (\<lambda>j.
       let inOuter = (i \<ge> 1 \<and> int i \<le> int n - 2 \<and> j \<ge> 1 \<and> int j \<le> int n - 2);
           inInner2 = (i \<ge> 2 \<and> int i \<le> int n - 3 \<and> j \<ge> 2 \<and> int j \<le> int n - 3)
       in inOuter \<and> \<not> inInner2) [0..<n]) [0..<n]"

definition draw_finder :: "modules \<Rightarrow> nat \<times> nat \<Rightarrow> modules" where
  "draw_finder m c =
     (case c of (fx, fy) \<Rightarrow>
        foldl (\<lambda>m (i, j). set_module (fy + i) (fx + j)
            (i = 0 \<or> i = 6 \<or> j = 0 \<or> j = 6 \<or> (2 \<le> i \<and> i \<le> 4 \<and> 2 \<le> j \<and> j \<le> 4)) m) m (pairs_below 7))"

definition draw_timing :: "nat \<Rightarrow> modules \<Rightarrow> modules" where
  "draw_timing n m =
     foldl (\<lambda>m i. if i \<ge> 6 \<and> int i \<le> int n - 9 then m else set_module 6 i (i mod 2 = 0) (set_module i 6 (i mod 2 = 0) m))
       m [0..<n]"

definition buildBaseMatrix :: "nat \<Rightarrow> modules" where
  "buildBaseMatrix version =
     (let n = 17 + 4 * (version - 1);
          m = foldl draw_finder (replicate n (replicate n False)) [(0, 0), (n - 7, 0), (0, n - 7)]
      in draw_timing n m)"

definition moduleAt :: "modules \<Rightarrow> int \<Rightarrow> int \<Rightarrow> bool" where
  "moduleAt m i j =
     (0 \<le> i \<and> i < int (length m) \<and> 0 \<le> j \<and> j < int (length (m ! nat i)) \<and> m ! nat i ! nat j)"

definition evaluateMask :: "modules \<Rightarrow> nat \<Rightarrow> nat \<Rightarrow> int" where
  "evaluateMask m width mk =
     foldl (\<lambda>penalty (i, j).
       if \<not> moduleAt m (int i) (int j) then penalty
       else foldl (\<lambda>p (di, dj). if int i + di \<ge> 0 \<and> int j + dj \<ge> 0 \<and> moduleAt m (int i + di) (int j + dj) then p + 1 else p)
         penalty [(- 1, 0), (0, - 1), (- 1, - 1)]) 0 (pairs_below width) + int mk * 3"

text \<open>The best mask so far and its penalty, \<open>None\<close> for \<open>Infinity\<close>.\<close>

definition chooseMask :: "modules \<Rightarrow> nat \<Rightarrow> nat" where
  "chooseMask m width =
     fst (foldl (\<lambda>(best, bestPenalty) k.
       let penalty = evaluateMask m width k
       in if (case bestPenalty of None \<Rightarrow> True | Some p \<Rightarrow> penalty < p) then (k, Some penalty) else (best, bestPenalty))
       (0, None) [0..<8])"

definition mask_rule :: "nat \<Rightarrow> nat \<Rightarrow> nat \<Rightarrow> bool" where
  "mask_rule mk i j =
     (if mk = 0 then (i + j) mod 2 = 0
      else if mk = 1 then i mod 2 = 0
      else if mk = 2 then j mod 3 = 0
      else if mk = 3 then (i + j) mod 3 = 0
      else if mk = 4 then (i div 2 + j div 3) mod 2 = 0
      else if mk = 5 then (i * j) mod 2 + (i * j) mod 3 = 0
      else if mk = 6 then ((i * j) mod 2 + (i * j) mod 3) mod 2 = 0
      else (i div 3 + j div 2) mod 2 = 0)"

definition applyMask :: "nat \<Rightarrow> modules \<Rightarrow> modules" where
  "applyMask mk m =
     foldl (\<lambda>m (i, j). if \<not> m ! i ! j then m else set_module i j (mask_rule mk i j) m) m (pairs_below (length m))"

definition matrixToString :: "modules \<Rightarrow> string" where
  "matrixToString m =
     (case map (map (\<lambda>b. if b then CHR ''#'' else CHR ''.'')) m of
        [] \<Rightarrow> []
      | r # rs \<Rightarrow> r @ concat (map (\<lambda>r. CHR 0x0A # r) rs))"

definition attr :: "string \<Rightarrow> string \<Rightarrow> string" where
  "attr name v = '' '' @ name @ ''='' @ [CHR 0x22] @ v @ [CHR 0x22]"

definition escapeXml :: "string \<Rightarrow> string" where
  "escapeXml s = concat (map (\<lambda>c. if c = CHR ''<'' then ''&lt;'' else if c = CHR ''>'' then ''&gt;''
     else if c = CHR ''&'' then ''&amp;'' else if c = CHR 0x22 then ''&quot;'' else [c]) s)"

definition renderSvg :: "(rat \<Rightarrow> string) \<Rightarrow> bool \<Rightarrow> modules \<Rightarrow> rat \<Rightarrow> string option \<Rightarrow> string" where
  "renderSvg num_text has_document m scale label =
     (let n = of_nat (length m) :: rat; side = num_text (n * scale)
      in ''<svg'' @ attr ''xmlns'' ''http://www.w3.org/2000/svg'' @ attr ''width'' side @ attr ''height'' side
         @ attr ''viewBox'' (''0 0 '' @ num_text n @ '' '' @ num_text n) @ ''>''
         @ concat (map (\<lambda>(i, j). if m ! i ! j
             then ''<rect'' @ attr ''x'' (num_text (of_nat j * scale)) @ attr ''y'' (num_text (of_nat i * scale))
                  @ attr ''width'' (num_text scale) @ attr ''height'' (num_text scale) @ attr ''fill'' ''#000000'' @ '' />''
             else []) (pairs_below (length m)))
         @ (case label of
              None \<Rightarrow> []
            | Some l \<Rightarrow> if l = [] \<or> \<not> has_document then []
                else ''<text'' @ attr ''x'' (num_text (n / 2) @ ''px'') @ attr ''y'' (num_text (n * scale + 14) @ ''px'')
                     @ attr ''text-anchor'' ''middle'' @ attr ''font-size'' (num_text (scale * 3 / 2) @ ''px'')
                     @ attr ''fill'' ''#000000'' @ ''>'' @ escapeXml l @ ''</text>'')
         @ ''</svg>'')"

datatype qr_error = UnknownLevel string | DataTooLarge nat

record qr_code =
  qr_modules :: modules
  qr_width :: nat
  qr_ecCodewords :: nat
  qr_version :: nat
  qr_svg :: string

definition encode_qr ::
  "(rat \<Rightarrow> string) \<Rightarrow> bool \<Rightarrow> nat list \<Rightarrow> string \<Rightarrow> string option \<Rightarrow> rat option \<Rightarrow> qr_error + qr_code" where
  "encode_qr num_text has_document payload level label scale =
     (if \<not> isErrorCorrectionLevel level then Inl (UnknownLevel level)
      else let dataBytes = length (toByteArray payload)
           in case computeVersion dataBytes (level_of level) of
                None \<Rightarrow> Inl (DataTooLarge dataBytes)
              | Some version \<Rightarrow>
                  let base = buildBaseMatrix version;
                      m = applyMask (chooseMask base (length base)) base
                  in Inr \<lparr>qr_modules = m, qr_width = length m, qr_ecCodewords = 0, qr_version = version,
                          qr_svg = renderSvg num_text has_document m (case scale of None \<Rightarrow> 12 | Some s \<Rightarrow> s) label\<rparr>)"


section \<open>The tables\<close>

definition gf_exp :: "nat \<Rightarrow> int" where
  "gf_exp i = (gf_shift ^^ i) 1"

lemma gf_shift_alt: "gf_shift x = push_bit 1 x XOR (if bit x 7 then 0x11d else 0)"
proof -
  have "push_bit 1 x AND 2 ^ 8 = 0 \<longleftrightarrow> \<not> bit (push_bit 1 x) 8" by (rule and_exp_eq_0_iff_not_bit)
  also have "bit (push_bit 1 x) 8 \<longleftrightarrow> bit x 7" by (simp only: bit_push_bit_iff) simp
  finally have "push_bit 1 x AND 0x100 \<noteq> 0 \<longleftrightarrow> bit x 7" by simp
  then show ?thesis unfolding gf_shift_def PRIM_def Let_def by simp
qed

lemma gf_shift_xor: "gf_shift (a XOR b) = gf_shift a XOR gf_shift b"
  by (simp add: gf_shift_alt push_bit_xor bit_xor_iff xor.assoc xor.left_commute)

lemma gf_shift_pow_xor: "(gf_shift ^^ i) (a XOR b) = (gf_shift ^^ i) a XOR (gf_shift ^^ i) b"
  by (induction i) (simp_all add: gf_shift_xor)

lemma gf_shift_0 [simp]: "gf_shift 0 = 0" by (simp add: gf_shift_def PRIM_def)

lemma gf_shift_pow_0 [simp]: "(gf_shift ^^ i) 0 = 0" by (induction i) simp_all

fun orbit :: "nat \<Rightarrow> int \<Rightarrow> int list" where
  "orbit 0 x = []"
| "orbit (Suc n) x = x # orbit n (gf_shift x)"

lemma length_orbit [simp]: "length (orbit n x) = n"
  by (induction n arbitrary: x) simp_all

lemma orbit_nth: "i < n \<Longrightarrow> orbit n x ! i = (gf_shift ^^ i) x"
  by (induction n arbitrary: x i) (auto simp: nth_Cons funpow_swap1 split: nat.splits)

text \<open>The powers of two in the field: all 255 units, then one again.\<close>

lemma orbit_values:
  "orbit 256 1 =
    [1, 2, 4, 8, 16, 32, 64, 128, 29, 58, 116, 232, 205, 135, 19, 38, 76, 152, 45, 90, 180, 117, 234, 201,
     143, 3, 6, 12, 24, 48, 96, 192, 157, 39, 78, 156, 37, 74, 148, 53, 106, 212, 181, 119, 238, 193, 159, 35,
     70, 140, 5, 10, 20, 40, 80, 160, 93, 186, 105, 210, 185, 111, 222, 161, 95, 190, 97, 194, 153, 47, 94, 188,
     101, 202, 137, 15, 30, 60, 120, 240, 253, 231, 211, 187, 107, 214, 177, 127, 254, 225, 223, 163, 91, 182, 113, 226,
     217, 175, 67, 134, 17, 34, 68, 136, 13, 26, 52, 104, 208, 189, 103, 206, 129, 31, 62, 124, 248, 237, 199, 147,
     59, 118, 236, 197, 151, 51, 102, 204, 133, 23, 46, 92, 184, 109, 218, 169, 79, 158, 33, 66, 132, 21, 42, 84,
     168, 77, 154, 41, 82, 164, 85, 170, 73, 146, 57, 114, 228, 213, 183, 115, 230, 209, 191, 99, 198, 145, 63, 126,
     252, 229, 215, 179, 123, 246, 241, 255, 227, 219, 171, 75, 150, 49, 98, 196, 149, 55, 110, 220, 165, 87, 174, 65,
     130, 25, 50, 100, 200, 141, 7, 14, 28, 56, 112, 224, 221, 167, 83, 166, 81, 162, 89, 178, 121, 242, 249, 239,
     195, 155, 43, 86, 172, 69, 138, 9, 18, 36, 72, 144, 61, 122, 244, 245, 247, 243, 251, 235, 203, 139, 11, 22,
     44, 88, 176, 125, 250, 233, 207, 131, 27, 54, 108, 216, 173, 71, 142, 1]"
  by (simp add: eval_nat_numeral gf_shift_def PRIM_def)

lemma period: "gf_exp 255 = 1"
  using orbit_nth [of 255 256 1] unfolding orbit_values gf_exp_def by simp

lemma orbit_distinct: "distinct (take 255 (orbit 256 1))"
  unfolding orbit_values by simp

lemma orbit_range: "\<forall>x \<in> set (orbit 256 1). 1 \<le> x \<and> x < 256"
  unfolding orbit_values by simp


lemma gf_exp_0 [simp]: "gf_exp 0 = 1" and gf_exp_Suc: "gf_exp (Suc i) = gf_shift (gf_exp i)"
  by (simp_all add: gf_exp_def)

lemma gf_exp_add: "(gf_shift ^^ i) (gf_exp j) = gf_exp (i + j)"
  by (simp add: gf_exp_def funpow_add)

lemma gf_exp_period: "gf_exp (i + 255) = gf_exp i"
  by (simp add: gf_exp_add [symmetric] period) (simp add: gf_exp_def)

lemma gf_exp_range: "i < 255 \<Longrightarrow> 1 \<le> gf_exp i \<and> gf_exp i < 256"
  using orbit_range orbit_nth [of i 256 1] nth_mem [of i "orbit 256 1"] by (simp add: gf_exp_def)

lemma gf_exp_inj:
  assumes "i < 255" "j < 255" "gf_exp i = gf_exp j" shows "i = j"
proof -
  have "take 255 (orbit 256 1) ! i = take 255 (orbit 256 1) ! j"
    using assms by (simp add: orbit_nth gf_exp_def)
  then show ?thesis using assms(1,2) orbit_distinct nth_eq_iff_index_eq [of "take 255 (orbit 256 1)" i j] by simp
qed

lemma gf_exp_onto: "1 \<le> x \<Longrightarrow> x < 256 \<Longrightarrow> \<exists>i < 255. gf_exp i = x"
proof -
  assume x: "1 \<le> x" "x < 256"
  have "inj_on gf_exp {..<255}" using gf_exp_inj by (auto simp: inj_on_def)
  then have "card (gf_exp ` {..<255}) = card {1 :: int..255}" by (simp add: card_image)
  moreover have "gf_exp ` {..<255} \<subseteq> {1..255}" using gf_exp_range by force
  ultimately have "gf_exp ` {..<255} = {1..255}" by (intro card_subset_eq) simp_all
  moreover have "x \<in> {1..255}" using x by simp
  ultimately show ?thesis by (metis imageE lessThan_iff)
qed

lemma fill_tables_spec:
  assumes "fill_tables n i (gf_exp i) (e, l) = (e', l')" "i + n \<le> 255" "length e = 512" "length l = 256"
    "\<And>k. k < i \<Longrightarrow> e ! k = gf_exp k \<and> l ! nat (gf_exp k) = int k"
  shows "length e' = 512 \<and> length l' = 256 \<and> (\<forall>k < i + n. e' ! k = gf_exp k \<and> l' ! nat (gf_exp k) = int k)"
  using assms
proof (induction n arbitrary: i e l)
  case (Suc n)
  have i: "i < 255" using Suc.prems(2) by simp
  have next_entries: "(e[i := gf_exp i]) ! k = gf_exp k \<and> (l[nat (gf_exp i) := int i]) ! nat (gf_exp k) = int k" if "k < Suc i" for k
  proof (cases "k = i")
    case True
    have "nat (gf_exp i) < length l" using gf_exp_range [OF i] Suc.prems(4) by linarith
    with True show ?thesis using Suc.prems(3) i by simp
  next
    case False
    then have "k < i" using that by simp
    moreover from this have "nat (gf_exp k) \<noteq> nat (gf_exp i)"
      using gf_exp_inj [of k i] gf_exp_range [of k] gf_exp_range [of i] i by (simp add: eq_nat_nat_iff) blast
    ultimately show ?thesis using Suc.prems(5) by simp
  qed
  have "fill_tables n (Suc i) (gf_exp (Suc i)) (e[i := gf_exp i], l[nat (gf_exp i) := int i]) = (e', l')"
    using Suc.prems(1) by (simp add: gf_exp_Suc)
  from Suc.IH [OF this _ _ _ next_entries] Suc.prems(2-4) show ?case by simp
qed simp

lemma wrap_table_spec:
  assumes "length e = 512" "\<And>k. k < 255 \<Longrightarrow> e ! k = gf_exp k"
  shows "length (wrap_table e) = 512 \<and> (\<forall>k < 512. wrap_table e ! k = gf_exp k)"
proof -
  define f where "f = (\<lambda>(e :: int list) i. e[i := e ! (i - 255)])"
  have "length (foldl f e [255..<255 + n]) = 512 \<and> (\<forall>k < 255 + n. foldl f e [255..<255 + n] ! k = gf_exp k)"
    if "n \<le> 257" for n
    using that
  proof (induction n)
    case (Suc n)
    define e' where "e' = foldl f e [255..<255 + n]"
    have IH: "length e' = 512" "\<And>k. k < 255 + n \<Longrightarrow> e' ! k = gf_exp k" using Suc by (auto simp: e'_def)
    have "e' ! n = gf_exp (255 + n)" using IH(2) [of n] gf_exp_period [of n] by (simp add: add.commute)
    then have "f e' (255 + n) ! k = gf_exp k" if "k < 255 + Suc n" for k
      using that IH Suc.prems by (cases "k = 255 + n") (auto simp: f_def)
    moreover have "foldl f e [255..<255 + Suc n] = f e' (255 + n)"
      unfolding add_Suc_right upt_Suc_append [OF le_add1] foldl_append foldl.simps e'_def ..
    ultimately show ?case using IH(1) by (simp add: f_def)
  qed (use assms in auto)
  note all = this [of 257]
  have m: "255 + 257 = (512 :: nat)" by simp
  show ?thesis using all unfolding wrap_table_def f_def m by blast
qed

lemma tables:
  shows length_EXP: "length EXP = 512" and length_LOG: "length LOG = 256"
    and EXP_nth: "k < 512 \<Longrightarrow> EXP ! k = gf_exp k" and LOG_nth: "k < 255 \<Longrightarrow> LOG ! nat (gf_exp k) = int k"
proof -
  obtain e l where fill: "fill_tables 255 0 1 (replicate 512 0, replicate 256 0) = (e, l)" by fastforce
  then have spec: "length e = 512 \<and> length l = 256 \<and> (\<forall>k < 255. e ! k = gf_exp k \<and> l ! nat (gf_exp k) = int k)"
    using fill_tables_spec [of 255 0 "replicate 512 0" "replicate 256 0" e l] by simp
  have t: "gf_tables = (wrap_table e, l)" unfolding gf_tables_def fill by simp
  show "length EXP = 512" "k < 512 \<Longrightarrow> EXP ! k = gf_exp k" using wrap_table_spec [of e] spec by (simp_all add: EXP_def t)
  show "length LOG = 256" "k < 255 \<Longrightarrow> LOG ! nat (gf_exp k) = int k" using spec by (simp_all add: LOG_def t)
qed

section \<open>Multiplication is multiplication of polynomials\<close>

text \<open>
  The reference: the polynomial \<open>b\<close> times \<open>x ^ i\<close> for every bit \<open>i\<close> of \<open>a\<close>, added without carry and reduced by
  the primitive polynomial at every shift.
\<close>

definition gf_times :: "int \<Rightarrow> int \<Rightarrow> int" where
  "gf_times a b = foldr (\<lambda>i acc. (if bit a i then (gf_shift ^^ i) b else 0) XOR acc) [0..<8] 0"

lemma gf_times_terms:
  "gf_times a b = (if bit a 0 then b else 0) XOR (if bit a 1 then gf_shift b else 0) XOR (if bit a 2 then (gf_shift ^^ 2) b else 0)
    XOR (if bit a 3 then (gf_shift ^^ 3) b else 0) XOR (if bit a 4 then (gf_shift ^^ 4) b else 0)
    XOR (if bit a 5 then (gf_shift ^^ 5) b else 0) XOR (if bit a 6 then (gf_shift ^^ 6) b else 0)
    XOR (if bit a 7 then (gf_shift ^^ 7) b else 0)"
proof -
  have "[0..<8] = [0, 1, 2, 3, 4, 5, 6, 7 :: nat]" by (simp add: upt_rec)
  then show ?thesis
    unfolding gf_times_def by (simp only: foldr.simps o_apply id_apply funpow_0 xor.right_neutral xor.assoc) simp
qed

text \<open>\<open>x ^ 8 = x ^ 4 + x ^ 3 + x ^ 2 + 1\<close>.\<close>

lemma gf_shift_8:
  "(gf_shift ^^ 8) (gf_exp k) =
    (gf_shift ^^ 4) (gf_exp k) XOR (gf_shift ^^ 3) (gf_exp k) XOR (gf_shift ^^ 2) (gf_exp k) XOR gf_exp k"
proof -
  have comm: "(gf_shift ^^ i) (gf_exp k) = (gf_shift ^^ k) ((gf_shift ^^ i) 1)" for i
    by (simp add: gf_exp_def funpow_add [symmetric, THEN fun_cong, unfolded o_def] add.commute)
  have "(gf_shift ^^ 8) 1 = (gf_shift ^^ 4) 1 XOR (gf_shift ^^ 3) 1 XOR (gf_shift ^^ 2) 1 XOR 1"
    by (simp add: eval_nat_numeral gf_shift_def PRIM_def)
  then show ?thesis unfolding comm by (simp add: gf_shift_pow_xor gf_exp_def)
qed

lemma gf_shift_bits:
  "bit (gf_shift a) 0 = bit a 7" "bit (gf_shift a) 1 = bit a 0" "bit (gf_shift a) 2 = (bit a 1 \<noteq> bit a 7)"
  "bit (gf_shift a) 3 = (bit a 2 \<noteq> bit a 7)" "bit (gf_shift a) 4 = (bit a 3 \<noteq> bit a 7)" "bit (gf_shift a) 5 = bit a 4"
  "bit (gf_shift a) 6 = bit a 5" "bit (gf_shift a) 7 = bit a 6"
  by (cases "bit a 7"; simp add: gf_shift_alt bit_xor_iff bit_double_iff mult.commute [of a 2])+

lemma shifted_sum:
  fixes p8 :: int
  assumes "p8 = p4 XOR p3 XOR p2 XOR p0"
  shows "(if b7 then p0 else 0) XOR t0 XOR (t1 XOR (if b7 then p2 else 0)) XOR (t2 XOR (if b7 then p3 else 0))
      XOR (t3 XOR (if b7 then p4 else 0)) XOR t4 XOR t5 XOR t6
    = t0 XOR t1 XOR t2 XOR t3 XOR t4 XOR t5 XOR t6 XOR (if b7 then p8 else 0)"
  by (cases b7) (simp_all only: assms if_True if_False xor.right_neutral xor.left_neutral ac_simps)

lemma gf_times_shift: "gf_times (gf_shift a) (gf_exp k) = gf_shift (gf_times a (gf_exp k))"
proof -
  have sel: "(if P \<noteq> Q then x else 0) = (if P then x else 0) XOR (if Q then x else 0)" for P Q and x :: int by simp
  have sh: "gf_shift (if P then x else 0) = (if P then gf_shift x else 0)" for P x by simp
  have step: "gf_shift (gf_shift x) = (gf_shift ^^ 2) x" "gf_shift ((gf_shift ^^ 2) x) = (gf_shift ^^ 3) x"
    "gf_shift ((gf_shift ^^ 3) x) = (gf_shift ^^ 4) x" "gf_shift ((gf_shift ^^ 4) x) = (gf_shift ^^ 5) x"
    "gf_shift ((gf_shift ^^ 5) x) = (gf_shift ^^ 6) x" "gf_shift ((gf_shift ^^ 6) x) = (gf_shift ^^ 7) x"
    "gf_shift ((gf_shift ^^ 7) x) = (gf_shift ^^ 8) x" for x
    by (simp_all add: eval_nat_numeral)
  show ?thesis
    unfolding gf_times_terms gf_shift_bits sel gf_shift_xor sh step
    by (rule shifted_sum [OF gf_shift_8])
qed

lemma gf_times_exp: "gf_times (gf_exp i) (gf_exp j) = gf_exp (i + j)"
proof (induction i)
  case 0
  then show ?case by (simp add: gf_times_terms)
next
  case (Suc i)
  then show ?case by (simp add: gf_exp_Suc gf_times_shift)
qed


lemma gf_times_zero [simp]: "gf_times 0 b = 0" "gf_times a 0 = 0"
  by (simp_all add: gf_times_terms)

lemma read_LOG: "i < 255 \<Longrightarrow> read_at LOG (gf_exp i) = Some (int i)"
  using gf_exp_range [of i] LOG_nth [of i] by (simp add: read_at_def length_LOG)

lemma read_EXP: "k < 512 \<Longrightarrow> read_at EXP (int k) = Some (gf_exp k)"
  by (simp add: read_at_def length_EXP EXP_nth)

lemma gfMul_exp: "i < 255 \<Longrightarrow> j < 255 \<Longrightarrow> gfMul (gf_exp i) (gf_exp j) = Some (gf_exp (i + j))"
  using gf_exp_range [of i] gf_exp_range [of j] read_EXP [of "i + j"] by (simp add: gfMul_def read_LOG)

text \<open>
  C19: C: the table lookup is multiplication in the field: for any two bytes \<open>gfMul\<close> returns their product as
  polynomials over one bit modulo the primitive polynomial, again a byte, and a product is zero only when a
  factor is.
\<close>

theorem field_multiplication:
  assumes "0 \<le> a" "a < 256" "0 \<le> b" "b < 256"
  shows "gfMul a b = Some (gf_times a b) \<and> 0 \<le> gf_times a b \<and> gf_times a b < 256 \<and>
    (gf_times a b = 0 \<longleftrightarrow> a = 0 \<or> b = 0)"
proof (cases "a = 0 \<or> b = 0")
  case True
  then show ?thesis by (auto simp: gfMul_def)
next
  case False
  then obtain i j where ij: "i < 255" "gf_exp i = a" "j < 255" "gf_exp j = b"
    using gf_exp_onto [of a] gf_exp_onto [of b] assms by auto
  have "gf_exp (i + j) = gf_exp (if i + j < 255 then i + j else i + j - 255)"
    using gf_exp_period [of "i + j - 255"] by auto
  moreover have "(if i + j < 255 then i + j else i + j - 255) < 255" using ij by auto
  ultimately have "1 \<le> gf_exp (i + j) \<and> gf_exp (i + j) < 256" using gf_exp_range by metis
  then show ?thesis using gfMul_exp [OF ij(1,3)] gf_times_exp [of i j] ij(2,4) False by auto
qed

theorem field_multiplication_witness: "gfMul 128 3 = Some (gf_times 128 3) \<and> gf_times 128 3 \<noteq> 0"
  using field_multiplication [of 128 3] by simp

section \<open>The generator polynomial\<close>

lemma to_int32_0 [simp]: "to_int32 0 = 0" by (simp add: to_int32_def)

lemma js_xor_0: "x = Some 0 \<or> x = None \<Longrightarrow> js_xor y x = to_int32 y"
  by (auto simp: js_xor_def)

lemma foldl_zeros:
  assumes "\<And>p. p \<in> set ps \<Longrightarrow> g p = Some 0 \<or> g p = None" "\<And>p. p \<in> set ps \<Longrightarrow> k p < N"
  shows "foldl (\<lambda>r p. r[k p := js_xor (r ! k p) (g p)]) (replicate N 0) ps = replicate N 0"
  using assms
proof (induction ps)
  case (Cons p ps)
  have "(replicate N 0)[k p := js_xor (replicate N 0 ! k p) (g p)] = replicate N 0"
    using Cons.prems by (simp add: js_xor_0 list_update_same_conv)
  with Cons show ?case by simp
qed simp

lemma polyMul_zero:
  assumes "a \<noteq> []" "b \<noteq> []" "\<And>x y. x \<in> set a \<Longrightarrow> y \<in> set b \<Longrightarrow> gfMul x y = Some 0 \<or> gfMul x y = None"
  shows "polyMul a b = replicate (length a + length b - 1) 0"
proof -
  have "foldl (\<lambda>r p. r[fst p + snd p := js_xor (r ! (fst p + snd p)) (gfMul (a ! fst p) (b ! snd p))])
      (replicate (length a + length b - 1) 0) (List.product [0..<length a] [0..<length b])
    = replicate (length a + length b - 1) 0"
  proof (rule foldl_zeros)
    fix p assume "p \<in> set (List.product [0..<length a] [0..<length b])"
    then have "fst p < length a" "snd p < length b" by auto
    then show "gfMul (a ! fst p) (b ! snd p) = Some 0 \<or> gfMul (a ! fst p) (b ! snd p) = None"
      "fst p + snd p < length a + length b - 1"
      using assms(3) [OF nth_mem nth_mem] by auto
  qed
  then show ?thesis by (simp add: polyMul_def case_prod_unfold)
qed

text \<open>The factors of the generator lie outside the tables, so its first product is already zero.\<close>

lemma generator_zero: "0 < n \<Longrightarrow> gfMakeGenerator n = replicate (Suc n) 0"
proof (induction n)
  case (Suc n)
  have outside: "gfMul 1 0x111 = None" by (simp add: gfMul_def read_at_def length_LOG split: option.splits)
  show ?case
  proof (cases n)
    case 0
    have "to_int32 0x111 = 0x111" by (simp add: to_int32_def)
    moreover have "polyMul [1] [0x111, 0x111] = [0, 0]"
      using polyMul_zero [of "[1]" "[0x111, 0x111]"] outside by simp
    ultimately show ?thesis using 0 by (simp add: gfMakeGenerator_def)
  next
    case (Suc m)
    have "polyMul (replicate (Suc n) 0) [x, y] = replicate (Suc (Suc n)) 0" for x y
    proof -
      have "gfMul u v = Some 0" if "u \<in> set (replicate (Suc n) 0)" for u v
      proof -
        have "u = 0" using that by auto
        then show ?thesis by (simp add: gfMul_def)
      qed
      then have "polyMul (replicate (Suc n) 0) [x, y] = replicate (length (replicate (Suc n) (0 :: int)) + length [x, y] - 1) 0"
        by (intro polyMul_zero) auto
      then show ?thesis by simp
    qed
    then show ?thesis using Suc.IH Suc by (simp add: gfMakeGenerator_def)
  qed
qed simp

section \<open>Parity symbols\<close>

text \<open>The last \<open>n\<close> entries are zero, which every round keeps.\<close>

definition zero_tail :: "nat \<Rightarrow> int list \<Rightarrow> bool" where
  "zero_tail n r \<longleftrightarrow> n \<le> length r \<and> (\<forall>k < length r. length r - n \<le> k \<longrightarrow> r ! k = 0)"

lemma zero_tail_update: "zero_tail n s \<Longrightarrow> zero_tail n (s[i := to_int32 (s ! i)])"
proof -
  assume s: "zero_tail n s"
  have "s[i := to_int32 (s ! i)] ! k = 0" if "k < length s" "length s - n \<le> k" for k
    using s that by (cases "k = i") (simp_all add: zero_tail_def)
  then show ?thesis using s by (simp add: zero_tail_def)
qed

lemma zero_tail_tl: "zero_tail n s \<Longrightarrow> n < length s \<Longrightarrow> zero_tail n (tl s)"
proof -
  assume s: "zero_tail n s" "n < length s"
  have "tl s ! k = 0" if "k < length (tl s)" "length (tl s) - n \<le> k" for k
  proof -
    have "Suc k < length s" "length s - n \<le> Suc k" using that by simp_all
    then show ?thesis using s(1) that(1) by (simp add: zero_tail_def nth_tl)
  qed
  then show ?thesis using s(2) by (simp add: zero_tail_def)
qed

text \<open>With a divisor of zeros a round only passes the entries through \<open>ToInt32\<close>.\<close>

lemma zero_ratio: "i < Suc n \<Longrightarrow> gf_mul_opt (replicate (Suc n) 0 ! i) (gfMul c (hd (replicate (Suc n) 0))) = Some 0"
  unfolding nth_replicate hd_replicate [OF Suc_not_Zero] by (simp add: gfMul_def gf_mul_opt_def)

lemma zero_tail_pass:
  assumes "\<And>i. i \<in> set xs \<Longrightarrow> g i = Some 0" "zero_tail n s"
  shows "zero_tail n (foldl (\<lambda>r i. r[i := js_xor (r ! i) (g i)]) s xs) \<and>
    length (foldl (\<lambda>r i. r[i := js_xor (r ! i) (g i)]) s xs) = length s"
  using assms
proof (induction xs arbitrary: s)
  case (Cons i xs)
  have "s[i := js_xor (s ! i) (g i)] = s[i := to_int32 (s ! i)]" using Cons.prems(1) [of i] by (simp add: js_xor_def)
  then show ?case using Cons.IH [OF Cons.prems(1) zero_tail_update [OF Cons.prems(2)]] by simp
qed simp

lemma zero_tail_round:
  assumes "zero_tail n r" "n < length r" shows "zero_tail n (divide_round (replicate (Suc n) 0) r)"
proof -
  have "gf_mul_opt (replicate (Suc n) 0 ! i) (gfMul (hd r) (hd (replicate (Suc n) 0))) = Some 0"
    if "i \<in> set [0..<length (replicate (Suc n) (0 :: int))]" for i
    using that by (intro zero_ratio) auto
  note pass = zero_tail_pass [of "[0..<length (replicate (Suc n) (0 :: int))]"
      "\<lambda>i. gf_mul_opt (replicate (Suc n) 0 ! i) (gfMul (hd r) (hd (replicate (Suc n) 0)))", OF this assms(1)]
  show ?thesis
    unfolding divide_round_def Let_def
    using zero_tail_tl [OF conjunct1 [OF pass]] conjunct2 [OF pass] zero_tail_tl [OF assms] assms(2) by presburger
qed

lemma divide_loop_zero:
  "zero_tail n r \<Longrightarrow> divide_loop (replicate (Suc n) 0) r = replicate n 0"
proof (induction "length r" arbitrary: r)
  case 0
  then show ?case by (subst divide_loop.simps) (simp add: zero_tail_def)
next
  case (Suc m)
  show ?case
  proof (cases "n < length r")
    case True
    then have "divide_loop (replicate (Suc n) 0) r = divide_loop (replicate (Suc n) 0) (divide_round (replicate (Suc n) 0) r)"
      by (subst divide_loop.simps) auto
    then show ?thesis using Suc.hyps True zero_tail_round [OF Suc.prems True] by simp
  next
    case False
    then have "length r = n" "r = replicate n 0"
      using Suc.prems by (auto simp: zero_tail_def intro: nth_equalityI)
    then show ?thesis by (subst divide_loop.simps) simp
  qed
qed

text \<open>Whatever the message, the parity is zero, and no corruption is noticed.\<close>

lemma parity_is_zero: "rsEncode message n = replicate n 0"
proof (cases n)
  case (Suc m)
  have "zero_tail n (message @ replicate n 0)" by (auto simp: zero_tail_def nth_append)
  then show ?thesis using divide_loop_zero [of n] Suc generator_zero [of n] by (simp add: rsEncode_def del: replicate.simps)
qed (simp add: rsEncode_def)

lemma nothing_is_rejected: "rsDecode message = Some message"
  by (simp add: rsDecode_def parity_is_zero numeral_2_eq_2)

section \<open>The code shown\<close>

lemma best_mask_is_first: "chooseMask m width = 0"
proof -
  define base where "base = evaluateMask m width 0"
  have "evaluateMask m width k = base + int k * 3" for k by (simp add: evaluateMask_def base_def)
  then show ?thesis by (simp add: chooseMask_def upt_rec)
qed

lemma content_is_not_encoded:
  "length (toByteArray p) = length (toByteArray q) \<Longrightarrow>
    encode_qr num_text doc p level label scale = encode_qr num_text doc q level label scale"
  by (simp add: encode_qr_def)

text \<open>Between the finders, where the timing pattern belongs, its loop draws nothing.\<close>

lemma set_module_other: "j \<noteq> k \<or> i \<noteq> r \<Longrightarrow> set_module i j v m ! r ! k = m ! r ! k"
  by (cases "r < length m"; cases "i = r") (auto simp: set_module_def list_update_beyond)

lemma timing_is_not_drawn: "7 \<le> k \<Longrightarrow> k + 9 \<le> n \<Longrightarrow> draw_timing n m ! 6 ! k = m ! 6 ! k"
proof -
  assume k: "7 \<le> k" "k + 9 \<le> n"
  define f where "f = (\<lambda>m i. if i \<ge> 6 \<and> int i \<le> int n - 9 then m else set_module 6 i (i mod 2 = 0) (set_module i 6 (i mod 2 = 0) m))"
  have step: "f m' i ! 6 ! k = m' ! 6 ! k" for m' i
    using k by (cases "i = k") (auto simp: f_def set_module_other)
  have "foldl f m xs ! 6 ! k = m ! 6 ! k" for xs
    by (induction xs arbitrary: m) (simp_all add: step)
  then show ?thesis by (simp add: draw_timing_def f_def)
qed

text \<open>
  C: the version chosen is the smallest of the forty whose entry holds the payload, and an error is returned
  exactly when none does; an unknown level is an error.
\<close>

theorem version_is_smallest:
  "(isErrorCorrectionLevel level \<longrightarrow>
     (case encode_qr num_text doc payload level label scale of
        Inl e \<Rightarrow> e = DataTooLarge (length (toByteArray payload)) \<and>
          (\<forall>v \<in> {1..40}. QR_CAPACITY (level_of level) ! (v - 1) < length (toByteArray payload))
      | Inr q \<Rightarrow> qr_version q \<in> {1..40} \<and> length (toByteArray payload) \<le> QR_CAPACITY (level_of level) ! (qr_version q - 1) \<and>
          (\<forall>v \<in> {1..<qr_version q}. QR_CAPACITY (level_of level) ! (v - 1) < length (toByteArray payload)))) \<and>
   (\<not> isErrorCorrectionLevel level \<longrightarrow> encode_qr num_text doc payload level label scale = Inl (UnknownLevel level))"
proof (intro conjI impI)
  assume ok: "isErrorCorrectionLevel level"
  let ?n = "length (toByteArray payload)" and ?cap = "QR_CAPACITY (level_of level)"
  show "case encode_qr num_text doc payload level label scale of
        Inl e \<Rightarrow> e = DataTooLarge ?n \<and> (\<forall>v \<in> {1..40}. ?cap ! (v - 1) < ?n)
      | Inr q \<Rightarrow> qr_version q \<in> {1..40} \<and> ?n \<le> ?cap ! (qr_version q - 1) \<and> (\<forall>v \<in> {1..<qr_version q}. ?cap ! (v - 1) < ?n)"
  proof (cases "computeVersion ?n (level_of level)")
    case None
    then have "\<forall>v \<in> set [1..<41]. \<not> ?cap ! (v - 1) \<ge> ?n" by (simp only: computeVersion_def find_None_iff) blast
    then show ?thesis using ok None by (auto simp: encode_qr_def not_le)
  next
    case (Some v)
    then obtain i where i: "i < length [1..<41 :: nat]" "?cap ! ([1..<41] ! i - 1) \<ge> ?n" "v = [1..<41] ! i"
      "\<forall>j < i. \<not> ?cap ! ([1..<41] ! j - 1) \<ge> ?n"
      unfolding computeVersion_def find_Some_iff by blast
    have v: "v = Suc i" "i < 40" using i(1,3) by (simp_all del: upt_Suc)
    have "?cap ! (w - 1) < ?n" if "w \<in> {1..<v}" for w
    proof -
      have "w - 1 < i" using that v(1) by auto
      then show ?thesis using i(4) v(2) by (simp add: not_le del: upt_Suc)
    qed
    then show ?thesis using ok Some v i(2,3) by (simp add: encode_qr_def Let_def)
  qed
qed (simp add: encode_qr_def)

theorem version_is_smallest_witness:
  "\<exists>q. encode_qr (\<lambda>_. []) False [72, 105] ''L'' None None = Inr q \<and> 2 \<le> QR_CAPACITY LevelL ! (qr_version q - 1)"
proof -
  have lv: "isErrorCorrectionLevel ''L''" "level_of ''L'' = LevelL" by (simp_all add: isErrorCorrectionLevel_def level_of_def)
  have n: "length (toByteArray [72, 105]) = 2" by (simp add: toByteArray_def utf8_def)
  note spec = conjunct1 [OF version_is_smallest [where level = "''L''" and num_text = "\<lambda>_. []" and doc = False
      and payload = "[72, 105]" and label = None and scale = None], rule_format, OF lv(1), unfolded lv(2) n]
  show ?thesis
  proof (cases "encode_qr (\<lambda>_. []) False [72, 105] ''L'' None None")
    case (Inl e)
    then have "\<forall>v \<in> {1..40}. QR_CAPACITY LevelL ! (v - 1) < 2" using spec by simp
    then have "QR_CAPACITY LevelL ! (2 - 1) < 2" by (rule bspec) simp
    then show ?thesis by simp
  next
    case (Inr q)
    then show ?thesis using spec by simp
  qed
qed

end
