(* ===== verification/Rate_Limiter.thy ===== *)
theory Rate_Limiter
  imports Prelude
begin

text \<open>
  \<open>rateLimiter.ts\<close>: a token bucket that is refilled per window, with a budget per key in a bounded
  store and a queue of calls that wait. Times are milliseconds; tokens are exact rationals. A
  synchronous piece of code runs at one instant.
\<close>

section \<open>The store of key budgets\<close>

record rate_check =
  rc_allowed :: bool
  rc_remaining :: int
  rc_retryAfterMs :: int

record window_entry =
  we_start :: int
  we_count :: int

record limit_store =
  ls_entries :: "(string \<times> window_entry) list"
  ls_maxKeys :: int

datatype range_error = MaxKeysNotPositive | RateNotPositive | PerKeyLimitNotPositive | WindowTooShort

definition limit_store_new :: "int option \<Rightarrow> range_error + limit_store" where
  "limit_store_new m =
     (let n = (case m of Some k \<Rightarrow> k | None \<Rightarrow> 10000)
      in if n < 1 then Inl MaxKeysNotPositive else Inr \<lparr>ls_entries = [], ls_maxKeys = n\<rparr>)"

fun evict_down :: "int \<Rightarrow> (string \<times> window_entry) list \<Rightarrow> (string \<times> window_entry) list" where
  "evict_down m [] = []"
| "evict_down m (e # es) = (if int (length (e # es)) \<ge> m then evict_down m es else e # es)"

definition touch :: "string \<Rightarrow> int \<Rightarrow> int \<Rightarrow> limit_store \<Rightarrow> window_entry \<times> limit_store" where
  "touch key windowMs now s =
     (case map_of (ls_entries s) key of
        None \<Rightarrow>
          (let e = \<lparr>we_start = now, we_count = 0\<rparr>
           in (e, s\<lparr>ls_entries := evict_down (ls_maxKeys s) (ls_entries s) @ [(key, e)]\<rparr>))
      | Some e \<Rightarrow>
          (let e1 = (if now - we_start e \<ge> windowMs then \<lparr>we_start = now, we_count = 0\<rparr> else e)
           in (e1, s\<lparr>ls_entries := AList.delete key (ls_entries s) @ [(key, e1)]\<rparr>)))"

text \<open>The entry is shared with the store: counting is an update of it.\<close>

definition evaluate_key :: "string \<Rightarrow> int \<Rightarrow> int \<Rightarrow> int \<Rightarrow> bool \<Rightarrow> limit_store \<Rightarrow> rate_check \<times> limit_store" where
  "evaluate_key key limit windowMs now consuming s =
     (case touch key windowMs now s of
        (e, s1) \<Rightarrow>
          let available = limit - we_count e
          in if available \<le> 0 then
               (\<lparr>rc_allowed = False, rc_remaining = 0, rc_retryAfterMs = we_start e + windowMs - now\<rparr>, s1)
             else
               (\<lparr>rc_allowed = True, rc_remaining = available - (if consuming then 1 else 0), rc_retryAfterMs = 0\<rparr>,
                if consuming then s1\<lparr>ls_entries := AList.update key (e\<lparr>we_count := we_count e + 1\<rparr>) (ls_entries s1)\<rparr> else s1))"

definition prune :: "int \<Rightarrow> int \<Rightarrow> limit_store \<Rightarrow> nat \<times> limit_store" where
  "prune windowMs now s =
     (let kept = filter (\<lambda>(k, e). \<not> now - we_start e \<ge> windowMs) (ls_entries s)
      in (length (ls_entries s) - length kept, s\<lparr>ls_entries := kept\<rparr>))"

definition store_clear :: "limit_store \<Rightarrow> limit_store" where
  "store_clear s = s\<lparr>ls_entries := []\<rparr>"

section \<open>The limiter\<close>

record rate_limiter =
  rl_tokens :: rat
  rl_maxTokens :: rat
  rl_perKeyLimit :: "int option"
  rl_windowMs :: int
  rl_store :: limit_store
  rl_lastRefill :: int
  rl_queue :: "(nat \<times> string option) list"
  rl_processing :: bool

definition rate_limiter_new :: "rat \<Rightarrow> int option \<Rightarrow> int option \<Rightarrow> int option \<Rightarrow> int \<Rightarrow> range_error + rate_limiter" where
  "rate_limiter_new rate perKey windowMs maxKeys now =
     (if rate \<le> 0 then Inl RateNotPositive
      else if (case perKey of Some n \<Rightarrow> n < 1 | None \<Rightarrow> False) then Inl PerKeyLimitNotPositive
      else if (case windowMs of Some w \<Rightarrow> w < 1 | None \<Rightarrow> False) then Inl WindowTooShort
      else rbind (limit_store_new maxKeys) (\<lambda>store.
        Inr \<lparr>rl_tokens = rate, rl_maxTokens = rate, rl_perKeyLimit = perKey,
             rl_windowMs = (case windowMs of Some w \<Rightarrow> w | None \<Rightarrow> 1000), rl_store = store,
             rl_lastRefill = now, rl_queue = [], rl_processing = False\<rparr>))"

definition refill :: "int \<Rightarrow> rate_limiter \<Rightarrow> rate_limiter" where
  "refill now r =
     (let elapsed = now - rl_lastRefill r
      in if elapsed \<ge> rl_windowMs r then
           let periods = elapsed div rl_windowMs r
           in r\<lparr>rl_tokens := min (rl_maxTokens r) (rl_tokens r + of_int periods * rl_maxTokens r),
                rl_lastRefill := rl_lastRefill r + periods * rl_windowMs r\<rparr>
         else r)"

definition msUntilRefill :: "int \<Rightarrow> rate_limiter \<Rightarrow> int" where
  "msUntilRefill now r = max 0 (rl_windowMs r - (now - rl_lastRefill r))"

text \<open>An empty key is falsy: it has no budget of its own.\<close>

definition budget_of :: "string option \<Rightarrow> rate_limiter \<Rightarrow> (string \<times> int) option" where
  "budget_of key r =
     (case (key, rl_perKeyLimit r) of (Some k, Some n) \<Rightarrow> if k = [] then None else Some (k, n) | _ \<Rightarrow> None)"

definition evaluate :: "string option \<Rightarrow> bool \<Rightarrow> int \<Rightarrow> rate_limiter \<Rightarrow> rate_check \<times> rate_limiter" where
  "evaluate key consume now r0 =
     (let r = refill now r0
      in if rl_tokens r \<le> 0 then (\<lparr>rc_allowed = False, rc_remaining = 0, rc_retryAfterMs = msUntilRefill now r\<rparr>, r)
         else case budget_of key r of
           Some (k, limit) \<Rightarrow>
             (case evaluate_key k limit (rl_windowMs r) now consume (rl_store r) of
                (kr, store) \<Rightarrow>
                  let r1 = r\<lparr>rl_store := store\<rparr>
                  in if \<not> rc_allowed kr then (\<lparr>rc_allowed = False, rc_remaining = 0, rc_retryAfterMs = rc_retryAfterMs kr\<rparr>, r1)
                     else
                       let r2 = (if consume then r1\<lparr>rl_tokens := rl_tokens r1 - 1\<rparr> else r1)
                       in (\<lparr>rc_allowed = True, rc_remaining = min \<lfloor>rl_tokens r2\<rfloor> (rc_remaining kr), rc_retryAfterMs = 0\<rparr>, r2))
         | None \<Rightarrow>
             let r2 = (if consume then r\<lparr>rl_tokens := rl_tokens r - 1\<rparr> else r)
             in (\<lparr>rc_allowed = True, rc_remaining = \<lfloor>rl_tokens r2\<rfloor>, rc_retryAfterMs = 0\<rparr>, r2))"

definition check :: "string option \<Rightarrow> int \<Rightarrow> rate_limiter \<Rightarrow> rate_check \<times> rate_limiter" where
  "check key now r = evaluate key False now r"

definition tryAcquire :: "string option \<Rightarrow> int \<Rightarrow> rate_limiter \<Rightarrow> rate_check \<times> rate_limiter" where
  "tryAcquire key now r = evaluate key True now r"

text \<open>\<open>acquire\<close>: whether the promise is resolved at once; if not, the call waits.\<close>

definition acquire :: "nat \<Rightarrow> string option \<Rightarrow> int \<Rightarrow> rate_limiter \<Rightarrow> bool \<times> rate_limiter" where
  "acquire call key now r =
     (case evaluate key True now r of
        (c, r1) \<Rightarrow> if rc_allowed c then (True, r1)
                   else (False, r1\<lparr>rl_queue := rl_queue r1 @ [(call, key)], rl_processing := True\<rparr>))"

text \<open>The timer of \<open>_processQueue\<close>: the calls resolved, those that stay.\<close>

fun drain_queue :: "int \<Rightarrow> (nat \<times> string option) list \<Rightarrow> rate_limiter \<Rightarrow> nat list \<times> (nat \<times> string option) list \<times> rate_limiter" where
  "drain_queue now [] r = ([], [], r)"
| "drain_queue now ((call, key) # q) r =
     (case evaluate key True now r of
        (c, r1) \<Rightarrow>
          (case drain_queue now q r1 of
             (served, rest, r2) \<Rightarrow> if rc_allowed c then (call # served, rest, r2) else (served, (call, key) # rest, r2)))"

definition process_queue :: "int \<Rightarrow> rate_limiter \<Rightarrow> nat list \<times> rate_limiter" where
  "process_queue now r =
     (case drain_queue now (rl_queue r) (refill now r) of
        (served, rest, r1) \<Rightarrow> (served, r1\<lparr>rl_queue := rest, rl_processing := rest \<noteq> []\<rparr>))"

section \<open>Runs\<close>

datatype limiter_step = Check "string option" | TryAcquire "string option" | Acquire nat "string option" | Timer

text \<open>The state after a step at time \<open>now\<close>, and how many requests were let through.\<close>

fun limiter_advance :: "int \<Rightarrow> limiter_step \<Rightarrow> rate_limiter \<Rightarrow> nat \<times> rate_limiter" where
  "limiter_advance now (Check k) r = (0, snd (check k now r))"
| "limiter_advance now (TryAcquire k) r = (if rc_allowed (fst (tryAcquire k now r)) then 1 else 0, snd (tryAcquire k now r))"
| "limiter_advance now (Acquire c k) r = (if fst (acquire c k now r) then 1 else 0, snd (acquire c k now r))"
| "limiter_advance now Timer r = (length (fst (process_queue now r)), snd (process_queue now r))"

text \<open>A run keeps the time of the last step and the times of the requests let through; the clock does not run backwards.\<close>

fun limiter_tick :: "int \<times> rate_limiter \<times> int list \<Rightarrow> int \<times> limiter_step \<Rightarrow> int \<times> rate_limiter \<times> int list" where
  "limiter_tick (T, r, hist) (now, e) =
     (if now < T then (T, r, hist) else case limiter_advance now e r of (n, r1) \<Rightarrow> (now, r1, hist @ replicate n now))"

text \<open>The requests let through in the windows from \<open>a\<close> up to (not including) \<open>b\<close>, windows counted from time \<open>t0\<close>.\<close>

definition granted_between :: "int \<Rightarrow> int \<Rightarrow> int \<Rightarrow> int \<Rightarrow> int list \<Rightarrow> nat" where
  "granted_between t0 w a b hist = length (filter (\<lambda>t. a \<le> (t - t0) div w \<and> (t - t0) div w < b) hist)"

text \<open>
  The invariant: the requests of the last windows and the tokens that are left are together at most what
  those windows brought in, and no row of windows let through more than it brought in, rounded up.
\<close>

fun rate_inv :: "int \<Rightarrow> int \<Rightarrow> rat \<Rightarrow> int \<times> rate_limiter \<times> int list \<Rightarrow> bool" where
  "rate_inv t0 w m (T, r, hist) \<longleftrightarrow> 1 \<le> w \<and> 0 < m \<and> rl_windowMs r = w \<and> rl_maxTokens r = m \<and> - 1 < rl_tokens r \<and>
     rl_lastRefill r \<le> T \<and> T < rl_lastRefill r + w \<and> w dvd (rl_lastRefill r - t0) \<and> (\<forall>t \<in> set hist. t \<le> T) \<and>
     (\<forall>k \<le> (rl_lastRefill r - t0) div w.
        of_nat (granted_between t0 w k ((rl_lastRefill r - t0) div w + 1) hist) + rl_tokens r \<le> of_int ((rl_lastRefill r - t0) div w - k + 1) * m) \<and>
     (\<forall>k n. of_nat (granted_between t0 w k (k + int n) hist) < of_nat n * m + 1)"







lemma refill_idem: "rate_inv t0 w m (now, r, hist) \<Longrightarrow> refill now r = r"
  by (auto simp: refill_def Let_def)









lemma granted_nil [simp]: "granted_between t0 w a b [] = 0"
  by (simp add: granted_between_def)




section \<open>The tracked keys\<close>

definition count_ok :: "int \<Rightarrow> window_entry \<Rightarrow> bool" where
  "count_ok limit e \<longleftrightarrow> 0 \<le> we_count e \<and> we_count e \<le> limit"

definition keys_inv :: "int \<Rightarrow> limit_store \<Rightarrow> bool" where
  "keys_inv limit s \<longleftrightarrow> 1 \<le> ls_maxKeys s \<and> int (length (ls_entries s)) \<le> ls_maxKeys s \<and> distinct (map fst (ls_entries s)) \<and>
     (\<forall>p \<in> set (ls_entries s). count_ok limit (snd p))"

lemma evict_down_facts: "1 \<le> m \<Longrightarrow> int (length (evict_down m es)) < m" "set (evict_down m es) \<subseteq> set es"
  "distinct (map fst es) \<Longrightarrow> distinct (map fst (evict_down m es))"
  by (induction m es rule: evict_down.induct) auto

lemma delete_facts: "set (AList.delete k m) \<subseteq> set m" "k \<notin> fst ` set (AList.delete k m)"
  "k \<in> fst ` set m \<Longrightarrow> distinct (map fst m) \<Longrightarrow> Suc (length (AList.delete k m)) = length m"
proof -
  show "set (AList.delete k m) \<subseteq> set m" "k \<notin> fst ` set (AList.delete k m)" by (auto simp: AList.delete_eq)
  show "k \<in> fst ` set m \<Longrightarrow> distinct (map fst m) \<Longrightarrow> Suc (length (AList.delete k m)) = length m"
  proof (induction m)
    case (Cons x m)
    show ?case
    proof (cases "fst x = k")
      case True
      with Cons.prems have "k \<notin> fst ` set m" by simp
      then have "AList.delete k m = m" by (rule AList.delete_id)
      with True show ?thesis by (cases x) simp
    next
      case False
      with Cons show ?thesis by (cases x) auto
    qed
  qed simp
qed

lemma touch_inv:
  assumes "keys_inv limit s" "0 \<le> limit" "touch k w now s = (e, s1)"
  shows "keys_inv limit s1 \<and> count_ok limit e \<and> k \<in> fst ` set (ls_entries s1)"
proof -
  note i = assms(1) [unfolded keys_inv_def]
  have all: "count_ok limit (snd p)" if "p \<in> set (ls_entries s)" for p using i that by simp
  have zero: "count_ok limit \<lparr>we_start = now, we_count = 0\<rparr>" using assms(2) by (simp add: count_ok_def)
  show ?thesis
  proof (cases "map_of (ls_entries s) k")
    case None
    let ?es = "evict_down (ls_maxKeys s) (ls_entries s)"
    have "int (length ?es) < ls_maxKeys s" by (rule evict_down_facts(1)) (use i in simp)
    moreover have "distinct (map fst ?es)" by (rule evict_down_facts(3)) (use i in simp)
    moreover have "k \<notin> fst ` set ?es"
      using None image_mono [OF evict_down_facts(2), of fst "ls_maxKeys s" "ls_entries s"] unfolding map_of_eq_None_iff by blast
    moreover have "\<forall>p \<in> set ?es. count_ok limit (snd p)"
      by (rule ballI, drule subsetD [OF evict_down_facts(2)], rule all)
    moreover have "e = \<lparr>we_start = now, we_count = 0\<rparr>" "s1 = s\<lparr>ls_entries := ?es @ [(k, e)]\<rparr>"
      using assms(3) None by (auto simp: touch_def Let_def)
    ultimately show ?thesis using i zero by (simp add: keys_inv_def)
  next
    case (Some f)
    let ?es = "AList.delete k (ls_entries s)"
    have f: "(k, f) \<in> set (ls_entries s)" using Some by (rule map_of_SomeD)
    then have "k \<in> fst ` set (ls_entries s)" by (rule rev_image_eqI) simp
    then have "Suc (length ?es) = length (ls_entries s)" using i by (intro delete_facts(3)) simp_all
    moreover have "\<forall>p \<in> set ?es. count_ok limit (snd p)" 
      by (rule ballI, drule subsetD [OF delete_facts(1)], rule all)
    moreover have "count_ok limit f" using i bspec [OF _ f, of "\<lambda>p. count_ok limit (snd p)"] by simp
    moreover have "s1 = s\<lparr>ls_entries := ?es @ [(k, e)]\<rparr>" "e = f \<or> e = \<lparr>we_start = now, we_count = 0\<rparr>"
      using assms(3) Some by (auto simp: touch_def Let_def split: if_splits)
    moreover have "distinct (map fst ?es)" "k \<notin> fst ` set ?es" using i by (simp_all add: distinct_fst_delete delete_facts(2))
    ultimately show ?thesis using i zero by (auto simp: keys_inv_def)
  qed
qed

lemma evaluate_key_inv:
  assumes "keys_inv limit s" "0 \<le> limit"
  shows "keys_inv limit (snd (evaluate_key k limit w now c s))"
proof -
  obtain e s1 where t: "touch k w now s = (e, s1)" by (cases "touch k w now s")
  note f = touch_inv [OF assms t]
  let ?e = "e\<lparr>we_count := we_count e + 1\<rparr>"
  have "keys_inv limit (s1\<lparr>ls_entries := AList.update k ?e (ls_entries s1)\<rparr>)" if "we_count e < limit"
  proof -
    have "\<forall>p \<in> set (AList.update k ?e (ls_entries s1)). count_ok limit (snd p)"
      using f that set_update_sub [of k ?e "ls_entries s1"] by (auto simp: keys_inv_def count_ok_def [of _ ?e] count_ok_def [of _ e])
    with f show ?thesis by (simp add: keys_inv_def length_update_old distinct_fst_update)
  qed
  with f show ?thesis by (auto simp: evaluate_key_def t Let_def)
qed

datatype store_step = Peek string | Consume string | Prune | Clear

fun store_advance :: "int \<Rightarrow> int \<Rightarrow> limit_store \<Rightarrow> int \<times> store_step \<Rightarrow> limit_store" where
  "store_advance limit w s (now, Peek k) = snd (evaluate_key k limit w now False s)"
| "store_advance limit w s (now, Consume k) = snd (evaluate_key k limit w now True s)"
| "store_advance limit w s (now, Prune) = snd (prune w now s)"
| "store_advance limit w s (now, Clear) = store_clear s"

lemma store_advance_inv: "0 \<le> limit \<and> keys_inv limit s \<Longrightarrow> 0 \<le> limit \<and> keys_inv limit (store_advance limit w s x)"
proof (induction limit w s x rule: store_advance.induct)
  case (3 limit w s now)
  have "int (length (filter P xs)) \<le> m" if "int (length xs) \<le> m" for P :: "string \<times> window_entry \<Rightarrow> bool" and xs m
    using that length_filter_le [of P xs] by linarith
  with 3 show ?case by (auto simp: prune_def keys_inv_def Let_def distinct_map_filter)
qed (simp_all add: evaluate_key_inv, simp add: store_clear_def keys_inv_def)

interpretation key_store: machine "store_advance limit w" "\<lambda>s. 0 \<le> limit \<and> keys_inv limit s"
  by unfold_locales (rule store_advance_inv)

section \<open>Properties\<close>



text \<open>
  The one window more is needed: two tries a millisecond apart, on either side of the end of a window,
  both pass at a rate of one per second.
\<close>

theorem boundary_burst:
  "map_option (\<lambda>r. snd (snd (foldl limiter_tick (0, r, []) [(999, TryAcquire None), (1000, TryAcquire None)])))
     (case rate_limiter_new 1 None None None 0 of Inr r \<Rightarrow> Some r | Inl e \<Rightarrow> None) = Some [999, 1000]"
  by code_simp

lemma drain_keyless:
  "\<forall>x \<in> set q. snd x = None \<Longrightarrow> refill now r = r \<Longrightarrow>
   fst (drain_queue now q r) = map fst (take (nat \<lceil>rl_tokens r\<rceil>) q) \<and> fst (snd (drain_queue now q r)) = drop (nat \<lceil>rl_tokens r\<rceil>) q"
proof (induction q arbitrary: r)
  case (Cons x q)
  obtain call where x: "x = (call, None)" using Cons.prems(1) by (cases x) auto
  show ?case
  proof (cases "rl_tokens r \<le> 0")
    case True
    then have "evaluate None True now r = (\<lparr>rc_allowed = False, rc_remaining = 0, rc_retryAfterMs = msUntilRefill now r\<rparr>, r)"
      using Cons.prems(2) by (simp add: evaluate_def)
    moreover have "nat \<lceil>rl_tokens r\<rceil> = 0" using True by (simp add: ceiling_le_zero)
    ultimately show ?thesis using Cons.IH [OF _ Cons.prems(2)] Cons.prems(1) by (simp add: x split_beta)
  next
    case False
    let ?r = "r\<lparr>rl_tokens := rl_tokens r - 1\<rparr>"
    have "snd (evaluate None True now r) = ?r" "rc_allowed (fst (evaluate None True now r))"
      using False Cons.prems(2) by (simp_all add: evaluate_def budget_of_def Let_def)
    moreover have "refill now ?r = ?r"
      using Cons.prems(2) by (cases r) (auto simp: refill_def Let_def split: if_splits)
    moreover have "nat \<lceil>rl_tokens r\<rceil> = Suc (nat \<lceil>rl_tokens r - 1\<rceil>)"
    proof -
      have "0 < \<lceil>rl_tokens r\<rceil>" using False by (simp add: zero_less_ceiling)
      then show ?thesis by (simp add: ceiling_diff_one nat_diff_distrib Suc_nat_eq_nat_zadd1)
    qed
    ultimately show ?thesis using Cons.IH [of ?r] Cons.prems(1) by (simp add: x split_beta)
  qed
qed simp

text \<open>
  When the timer fires, calls without a budget of their own are served in the order in which
  they wait, exactly as many as there are tokens after the refill, and the others keep their order.
\<close>

theorem timer_serves_in_order:
  assumes "\<forall>x \<in> set (rl_queue r). snd x = None" "1 \<le> rl_windowMs r"
  shows "let n = nat \<lceil>rl_tokens (refill now r)\<rceil>
         in fst (process_queue now r) = map fst (take n (rl_queue r)) \<and> rl_queue (snd (process_queue now r)) = drop n (rl_queue r)"
proof -
  have "refill now (refill now r) = refill now r"
  proof -
    define p where "p = (now - rl_lastRefill r) div rl_windowMs r"
    have "now - rl_lastRefill r - p * rl_windowMs r = (now - rl_lastRefill r) mod rl_windowMs r"
      by (simp add: p_def minus_div_mult_eq_mod)
    moreover have "(now - rl_lastRefill r) mod rl_windowMs r < rl_windowMs r" using assms(2) by simp
    ultimately have "now - (rl_lastRefill r + p * rl_windowMs r) < rl_windowMs r" by linarith
    then show ?thesis by (auto simp: refill_def Let_def p_def)
  qed
  from drain_keyless [OF assms(1) this] show ?thesis by (simp add: process_queue_def split_beta Let_def)
qed

definition waiting_limiter :: rate_limiter where
  "waiting_limiter = \<lparr>rl_tokens = 0, rl_maxTokens = 2, rl_perKeyLimit = None, rl_windowMs = 1000,
     rl_store = \<lparr>ls_entries = [], ls_maxKeys = 1\<rparr>, rl_lastRefill = 0, rl_queue = [(0, None), (1, None), (2, None)], rl_processing = True\<rparr>"

theorem timer_serves_in_order_witness: "fst (process_queue 1000 waiting_limiter) = [0, 1]"
  using timer_serves_in_order [of waiting_limiter 1000] by (simp add: waiting_limiter_def refill_def)

text \<open>
  The store of key budgets never tracks more keys than its limit, and no key is ever charged
  more than its budget in its current window.
\<close>

theorem key_budgets_bounded:
  assumes "limit_store_new m = Inr s0" "0 \<le> limit" "p \<in> set (ls_entries (foldl (store_advance limit w) s0 es))"
  shows "int (length (ls_entries (foldl (store_advance limit w) s0 es))) \<le> (case m of Some n \<Rightarrow> n | None \<Rightarrow> 10000) \<and>
         0 \<le> we_count (snd p) \<and> we_count (snd p) \<le> limit"
proof -
  have new: "keys_inv limit s0" "ls_maxKeys s0 = (case m of Some n \<Rightarrow> n | None \<Rightarrow> 10000)"
    using assms(1) by (auto simp: limit_store_new_def keys_inv_def Let_def split: if_splits)
  have i: "keys_inv limit (foldl (store_advance limit w) s0 es)"
    using key_store.run_inv [of limit s0 w es] new(1) assms(2) by blast
  have "ls_maxKeys (foldl (store_advance limit w) s es) = ls_maxKeys s" for s
  proof (induction es arbitrary: s)
    case (Cons x es)
    have "ls_maxKeys (store_advance limit w s x) = ls_maxKeys s"
      by (cases "(limit, w, s, x)" rule: store_advance.cases)
        (simp_all add: evaluate_key_def touch_def prune_def store_clear_def Let_def split: option.split)
    with Cons show ?case by simp
  qed simp
  with i new(2) assms(3) show ?thesis by (auto simp: keys_inv_def count_ok_def)
qed

theorem key_budgets_bounded_witness:
  "int (length (ls_entries (foldl (store_advance 1 1000) \<lparr>ls_entries = [], ls_maxKeys = 1\<rparr> [(0, Consume ''a''), (1, Consume ''b'')]))) \<le> 1"
proof -
  let ?s = "foldl (store_advance 1 1000) \<lparr>ls_entries = [], ls_maxKeys = 1\<rparr> [(0, Consume ''a''), (1, Consume ''b'')]"
  have "ls_entries ?s = [(''b'', \<lparr>we_start = 1, we_count = 1\<rparr>)]" by code_simp
  then have "(''b'', \<lparr>we_start = 1, we_count = 1\<rparr>) \<in> set (ls_entries ?s)" by (simp del: foldl_Cons)
  from key_budgets_bounded [OF _ _ this, of "Some 1"] show ?thesis by (simp add: limit_store_new_def del: foldl_Cons)
qed

text \<open>
  A bounded store forgets what a key has spent. With a budget of one request and room for one
  key, a key that alternates with another is let through twice in the same window.
\<close>

theorem eviction_resets_budget:
  assumes "a \<noteq> []" "b \<noteq> []" "a \<noteq> b"
  shows "\<exists>r. rate_limiter_new 3 (Some 1) None (Some 1) 0 = Inr r \<and>
     snd (snd (foldl limiter_tick (0, r, []) [(1, TryAcquire (Some a)), (2, TryAcquire (Some b)), (3, TryAcquire (Some a))])) = [1, 2, 3]"
proof -
  define st where "st es = \<lparr>ls_entries = es, ls_maxKeys = 1\<rparr>" for es
  define lim where "lim q es = \<lparr>rl_tokens = q, rl_maxTokens = 3, rl_perKeyLimit = Some 1, rl_windowMs = 1000,
     rl_store = st es, rl_lastRefill = 0, rl_queue = [], rl_processing = False\<rparr>" for q :: rat and es
  have fresh: "evaluate_key k 1 1000 t True (st es) =
      (\<lparr>rc_allowed = True, rc_remaining = 0, rc_retryAfterMs = 0\<rparr>, st [(k, \<lparr>we_start = t, we_count = 1\<rparr>)])"
    if "es = [] \<or> (\<exists>j e. es = [(j, e)] \<and> j \<noteq> k)" for k t es
    using that by (auto simp: evaluate_key_def touch_def st_def Let_def)
  have go: "limiter_advance t (TryAcquire (Some k)) (lim q es) = (1, lim (q - 1) [(k, \<lparr>we_start = t, we_count = 1\<rparr>)])"
    if "es = [] \<or> (\<exists>j e. es = [(j, e)] \<and> j \<noteq> k)" "k \<noteq> []" "0 < q" "t < 1000" for k t es q
    using that(2-) fresh [OF that(1), of t]
    by (simp add: tryAcquire_def evaluate_def refill_def lim_def budget_of_def Let_def)
  have "rate_limiter_new 3 (Some 1) None (Some 1) 0 = Inr (lim 3 [])"
    by (simp add: rate_limiter_new_def limit_store_new_def lim_def st_def)
  then show ?thesis using assms by (simp add: go del: limiter_advance.simps)
qed

theorem eviction_resets_budget_witness:
  "\<exists>r. rate_limiter_new 3 (Some 1) None (Some 1) 0 = Inr r \<and>
     snd (snd (foldl limiter_tick (0, r, []) [(1, TryAcquire (Some ''x'')), (2, TryAcquire (Some ''y'')), (3, TryAcquire (Some ''x''))])) = [1, 2, 3]"
  using eviction_resets_budget [of "''x''" "''y''"] by simp

text \<open>
  A call that arrives after the window has passed overtakes the calls that wait: it takes the
  only token before the timer fires, and the timer serves nobody.
\<close>

theorem new_call_overtakes_queue:
  "\<exists>r. rate_limiter_new 1 None None None 0 = Inr r \<and>
     (let s = foldl limiter_tick (0, r, []) [(0, Acquire 0 None), (0, Acquire 1 None), (1000, Acquire 2 None), (1000, Timer)]
      in snd (snd s) = [0, 1000] \<and> rl_queue (fst (snd s)) = [(1, None)])"
proof -
  define lim where "lim q l ws = \<lparr>rl_tokens = q, rl_maxTokens = 1, rl_perKeyLimit = None, rl_windowMs = 1000,
     rl_store = \<lparr>ls_entries = [], ls_maxKeys = 10000\<rparr>, rl_lastRefill = l, rl_queue = ws, rl_processing = ws \<noteq> []\<rparr>" for q :: rat and l ws
  have "rate_limiter_new 1 None None None 0 = Inr (lim 1 0 [])" by (simp add: rate_limiter_new_def limit_store_new_def lim_def)
  moreover have "limiter_advance 0 (Acquire 0 None) (lim 1 0 []) = (1, lim 0 0 [])"
    "limiter_advance 0 (Acquire 1 None) (lim 0 0 []) = (0, lim 0 0 [(1, None)])"
    "limiter_advance 1000 (Acquire 2 None) (lim 0 0 [(1, None)]) = (1, lim 0 1000 [(1, None)])"
    "limiter_advance 1000 Timer (lim 0 1000 [(1, None)]) = (0, lim 0 1000 [(1, None)])"
    by (simp_all add: lim_def acquire_def evaluate_def refill_def budget_of_def process_queue_def Let_def)
  moreover have "rl_queue (lim q l ws) = ws" for q l ws by (simp add: lim_def)
  ultimately show ?thesis by (simp add: Let_def del: limiter_advance.simps)
qed

end
