(* ===== verification/Rounding.thy ===== *)
theory Rounding
  imports Prelude
begin

text \<open>
  Splitting an invoice total by ratios: \<open>src/invoice/rounding.ts\<close> (the largest-remainder
  auditor) and \<open>src/invoice/calculator.ts\<close> (its entry points and the fee helpers).

  The product \<open>Number(tot) * line.ratio\<close> is a floating-point operation. It is the argument
  \<open>share\<close> of the definitions, any function to the rationals: every finite double is a rational,
  and nothing below depends on how the product was rounded. Ratios themselves are of any type
  \<open>'r\<close>. The code's \<open>BigInt(NaN)\<close> and \<open>BigInt(Infinity)\<close> exceptions are outside the model.
\<close>

section \<open>Data\<close>

record 'r split_line =
  sl_recipientId :: string
  sl_ratio :: 'r

record split_entry =
  se_recipientId :: string
  se_floor :: int
  se_frac :: rat

type_synonym adjustment = "string \<times> int"

record audited_split =
  as_amounts :: "(string \<times> int) list"
  as_adjustments :: "adjustment list"
  as_total :: int

text \<open>\<open>RoundingOverflowError(totalAdjustmentStroops, thresholdStroops, splitCount)\<close>\<close>

datatype rounding_error = RoundingOverflowError int int nat

section \<open>Operations\<close>

definition entry_of :: "(int \<Rightarrow> 'r \<Rightarrow> rat) \<Rightarrow> int \<Rightarrow> 'r split_line \<Rightarrow> split_entry" where
  "entry_of share tot line =
     (let exactShare = share tot (sl_ratio line); floorInt = \<lfloor>exactShare\<rfloor>
      in \<lparr>se_recipientId = sl_recipientId line, se_floor = floorInt, se_frac = exactShare - of_int floorInt\<rparr>)"

definition entry_cmp :: "split_entry \<times> nat \<Rightarrow> split_entry \<times> nat \<Rightarrow> rat" where
  "entry_cmp a b =
     (if se_frac (fst b) \<noteq> se_frac (fst a) then se_frac (fst b) - se_frac (fst a)
      else of_nat (snd a) - of_nat (snd b))"

definition rank_entries :: "split_entry list \<Rightarrow> split_entry list" where
  "rank_entries entries = map fst (js_sort entry_cmp (zip entries [0..<length entries]))"

fun init_amounts :: "(string \<times> int) list \<Rightarrow> split_entry list \<Rightarrow> (string \<times> int) list" where
  "init_amounts am [] = am"
| "init_amounts am (e # es) = init_amounts (AList.update (se_recipientId e) (se_floor e) am) es"

text \<open>The loop over \<open>sorted[0], sorted[1], \<dots>\<close>, with its \<open>break\<close> at the end of the list.\<close>

fun distribute ::
    "int \<Rightarrow> nat \<Rightarrow> split_entry list \<Rightarrow> (string \<times> int) list \<Rightarrow> adjustment list
      \<Rightarrow> (string \<times> int) list \<times> adjustment list" where
  "distribute d 0 es am adj = (am, adj)"
| "distribute d (Suc k) [] am adj = (am, adj)"
| "distribute d (Suc k) (e # es) am adj =
     distribute d k es
       (AList.update (se_recipientId e)
          ((case map_of am (se_recipientId e) of None \<Rightarrow> 0 | Some v \<Rightarrow> v) + d) am)
       (adj @ [(se_recipientId e, d)])"

definition auditSplitRounding ::
    "(int \<Rightarrow> 'r \<Rightarrow> rat) \<Rightarrow> int \<Rightarrow> 'r split_line list \<Rightarrow> rounding_error + audited_split" where
  "auditSplitRounding share tot splits =
     (if splits = [] then Inr \<lparr>as_amounts = [], as_adjustments = [], as_total = tot\<rparr>
      else
        let entries = map (entry_of share tot) splits;
            floorSum = foldl (\<lambda>acc e. acc + se_floor e) 0 entries;
            remainder = tot - floorSum;
            threshold = int ((length splits + 1) div 2);
            absRemainder = (if remainder < 0 then - remainder else remainder)
        in if absRemainder > threshold
           then Inl (RoundingOverflowError absRemainder threshold (length splits))
           else
             let sorted = rank_entries entries;
                 am = init_amounts [] entries;
                 (amounts, adjustments) =
                   (if remainder > 0 then distribute 1 (nat remainder) sorted am []
                    else if remainder < 0 then distribute (-1) (nat (- remainder)) sorted am []
                    else (am, []))
             in Inr \<lparr>as_amounts = amounts, as_adjustments = adjustments, as_total = tot\<rparr>)"

text \<open>\<open>calculator.ts\<close>\<close>

definition calculateSplitAmounts ::
    "(int \<Rightarrow> 'r \<Rightarrow> rat) \<Rightarrow> int \<Rightarrow> 'r split_line list \<Rightarrow> rounding_error + audited_split" where
  "calculateSplitAmounts share tot splits = auditSplitRounding share tot splits"

definition computeAmounts ::
    "(int \<Rightarrow> 'r \<Rightarrow> rat) \<Rightarrow> int \<Rightarrow> 'r split_line list \<Rightarrow> rounding_error + (string \<times> int) list" where
  "computeAmounts share tot splits =
     rbind (calculateSplitAmounts share tot splits) (\<lambda>r. Inr (as_amounts r))"

definition calculateInvoiceSubtotal :: "int list \<Rightarrow> int" where
  "calculateInvoiceSubtotal amounts = foldl (\<lambda>acc v. acc + v) 0 amounts"

record invoice_breakdown =
  ib_subtotal :: int
  ib_fee :: int
  ib_total :: int

definition calculateInvoiceBreakdown :: "int \<Rightarrow> int \<Rightarrow> invoice_breakdown" where
  "calculateInvoiceBreakdown subtotal feeBps =
     (let fee = (subtotal * feeBps) sdiv 10000
      in \<lparr>ib_subtotal = subtotal, ib_fee = fee, ib_total = subtotal + fee\<rparr>)"

text \<open>
  \<open>formatSplitPercentage\<close>; \<open>padStart\<close> with the character zero, and the two errors with the value
  they report.
\<close>

datatype format_error = DecimalsRangeError rat | BasisPointsError int

definition formatSplitPercentage :: "int \<Rightarrow> rat option \<Rightarrow> format_error + string" where
  "formatSplitPercentage basisPoints opt_decimals =
     (let decimals = (case opt_decimals of None \<Rightarrow> 2 | Some d \<Rightarrow> d)
      in if decimals < 0 \<or> decimals > 4 \<or> of_int \<lfloor>decimals\<rfloor> \<noteq> decimals then Inl (DecimalsRangeError decimals)
      else if basisPoints < 0 \<or> basisPoints > 10000 then Inl (BasisPointsError basisPoints)
      else
        let scale = 10 ^ nat \<lfloor>decimals\<rfloor>;
            numerator = basisPoints * scale;
            quotient = numerator sdiv 100;
            remainder = numerator smod 100;
            rounded = (if remainder \<ge> 50 then quotient + 1 else quotient)
        in if decimals = 0 then Inr (show_int rounded @ ''%'')
           else
             let wholePart = rounded sdiv scale;
                 fracPart = rounded smod scale
             in Inr (show_int wholePart @ ''.'' @ pad_start (nat \<lfloor>decimals\<rfloor>) (show_int fracPart) @ ''%''))"

section \<open>Lemmas\<close>

lemma entry_cmp_le: "entry_cmp a b \<le> 0 \<longleftrightarrow>
   se_frac (fst b) < se_frac (fst a) \<or> se_frac (fst a) = se_frac (fst b) \<and> snd a \<le> snd b"
  by (auto simp: entry_cmp_def)

interpretation entry_order: comparator entry_cmp
  by unfold_locales (auto simp: entry_cmp_le)

lemma mset_rank_entries: "mset (rank_entries es) = mset es"
  by (simp add: rank_entries_def) (metis length_upt map_fst_zip minus_nat.diff_0 mset_map)

lemma set_rank_entries [simp]: "set (rank_entries es) = set es"
  using mset_rank_entries by (metis set_mset_mset)

lemma length_rank_entries [simp]: "length (rank_entries es) = length es"
  using mset_rank_entries by (metis size_mset)

lemma distinct_rank_entries: "distinct (map f (rank_entries es)) \<longleftrightarrow> distinct (map f es)"
  by (metis mset_map mset_rank_entries mset_eq_imp_distinct_iff)

lemma rank_entries_sorted: "sorted_wrt (\<lambda>a b. se_frac b \<le> se_frac a) (rank_entries es)"
  unfolding rank_entries_def sorted_wrt_map
  by (rule sorted_wrt_mono_rel [OF _ entry_order.sorted_js_sort]) (auto simp: entry_cmp_le)

lemma init_amounts_distinct:
  "distinct (map se_recipientId es) \<Longrightarrow> fst ` set am \<inter> se_recipientId ` set es = {} \<Longrightarrow>
     init_amounts am es = am @ map (\<lambda>e. (se_recipientId e, se_floor e)) es"
proof (induction es arbitrary: am)
  case (Cons e es)
  have "AList.update (se_recipientId e) (se_floor e) am = am @ [(se_recipientId e, se_floor e)]"
    using Cons.prems by (induction am) auto
  with Cons show ?case by auto
qed simp

lemma sum_snd_update:
  fixes am :: "('k \<times> int) list"
  shows "distinct (map fst am) \<Longrightarrow>
    sum_list (map snd (AList.update k v am)) =
      sum_list (map snd am) + v - (case map_of am k of None \<Rightarrow> 0 | Some w \<Rightarrow> w)"
proof (induction am)
  case (Cons a am)
  then have "fst a = k \<Longrightarrow> map_of am k = None" by (auto simp: map_of_eq_None_iff)
  with Cons show ?case by (auto split: option.splits)
qed simp

lemma distribute_sum:
  "distinct (map fst am) \<Longrightarrow>
     sum_list (map snd (fst (distribute d k es am adj))) =
       sum_list (map snd am) + d * int (min k (length es))"
  by (induction d k es am adj rule: distribute.induct)
    (auto simp: sum_snd_update distinct_update algebra_simps split: option.splits)

lemma distribute_adj:
  "snd (distribute d k es am adj) = adj @ map (\<lambda>e. (se_recipientId e, d)) (take k es)"
  by (induction d k es am adj rule: distribute.induct) simp_all

lemma distribute_map_of:
  "distinct (map se_recipientId es) \<Longrightarrow> se_recipientId ` set es \<subseteq> dom (map_of am) \<Longrightarrow>
     map_of (fst (distribute d k es am adj)) i =
       (if i \<in> se_recipientId ` set (take k es) then map_option (\<lambda>v. v + d) (map_of am i) else map_of am i)"
proof (induction d k es am adj rule: distribute.induct)
  case (3 d k e es am adj)
  from 3(3) obtain v where "map_of am (se_recipientId e) = Some v" by auto
  moreover have "se_recipientId e \<notin> se_recipientId ` set (take k es)"
    using 3(2) by (auto dest: in_set_takeD)
  moreover have sub: "se_recipientId ` set es \<subseteq> dom (map_of (AList.update (se_recipientId e)
      ((case map_of am (se_recipientId e) of None \<Rightarrow> 0 | Some v \<Rightarrow> v) + d) am))"
    using 3(3) by auto
  moreover have "distinct (map se_recipientId es)" using 3(2) by simp
  note 3(1) [OF this sub]
  ultimately show ?case using 3(2) by auto
qed simp_all

text \<open>The audit in one equation: floors, then \<open>k\<close> unit steps in direction \<open>d\<close> down the ranking.\<close>

lemma audit_Inr:
  assumes "auditSplitRounding share tot splits = Inr r" and "splits \<noteq> []"
    and "distinct (map sl_recipientId splits)"
  obtains d k where "as_amounts r = fst (distribute d k (rank_entries (map (entry_of share tot) splits))
        (map (\<lambda>l. (sl_recipientId l, \<lfloor>share tot (sl_ratio l)\<rfloor>)) splits) [])"
    and "as_adjustments r = snd (distribute d k (rank_entries (map (entry_of share tot) splits))
        (map (\<lambda>l. (sl_recipientId l, \<lfloor>share tot (sl_ratio l)\<rfloor>)) splits) [])"
    and "d * int k = tot - sum_list (map (\<lambda>l. \<lfloor>share tot (sl_ratio l)\<rfloor>) splits)"
    and "k \<le> length splits" and "d \<in> {-1, 1}"
proof -
  let ?es = "map (entry_of share tot) splits"
  let ?am = "map (\<lambda>l. (sl_recipientId l, \<lfloor>share tot (sl_ratio l)\<rfloor>)) splits"
  let ?rem = "tot - sum_list (map (\<lambda>l. \<lfloor>share tot (sl_ratio l)\<rfloor>) splits)"
  have fl: "foldl (\<lambda>acc e. acc + se_floor e) 0 ?es = sum_list (map (\<lambda>l. \<lfloor>share tot (sl_ratio l)\<rfloor>) splits)"
    by (simp add: foldl_sum o_def entry_of_def Let_def)
  have ini: "init_amounts [] ?es = ?am"
    using assms(3) by (simp add: init_amounts_distinct o_def entry_of_def Let_def)
  from assms(1,2) have bound: "\<bar>?rem\<bar> \<le> int ((length splits + 1) div 2)"
    and r: "r = (case (if ?rem > 0 then distribute 1 (nat ?rem) (rank_entries ?es) ?am []
         else if ?rem < 0 then distribute (-1) (nat (- ?rem)) (rank_entries ?es) ?am [] else (?am, []))
       of (a, b) \<Rightarrow> \<lparr>as_amounts = a, as_adjustments = b, as_total = tot\<rparr>)"
    unfolding auditSplitRounding_def fl ini Let_def by (auto split: if_splits prod.splits)
  have len: "(length splits + 1) div 2 \<le> length splits"
    using assms(2) by (cases splits) simp_all
  consider "?rem > 0" | "?rem < 0" | "?rem = 0" by linarith
  then show ?thesis
  proof cases
    case 1
    with r bound len show ?thesis by (intro that [of 1 "nat ?rem"]) (simp_all split: prod.splits)
  next
    case 2
    with r bound len show ?thesis by (intro that [of "-1" "nat (- ?rem)"]) (simp_all split: prod.splits)
  next
    case 3
    with r show ?thesis by (intro that [of 1 0]) simp_all
  qed
qed

lemma audit_Inl_iff:
  "auditSplitRounding share tot splits = Inl e \<longleftrightarrow>
     (let m = \<bar>tot - sum_list (map (\<lambda>l. \<lfloor>share tot (sl_ratio l)\<rfloor>) splits)\<bar>;
          th = int ((length splits + 1) div 2)
      in splits \<noteq> [] \<and> m > th \<and> e = RoundingOverflowError m th (length splits))"
proof -
  have "foldl (\<lambda>acc e. acc + se_floor e) 0 (map (entry_of share tot) splits) =
      sum_list (map (\<lambda>l. \<lfloor>share tot (sl_ratio l)\<rfloor>) splits)"
    by (simp add: foldl_sum o_def entry_of_def Let_def)
  then show ?thesis
    by (auto simp: auditSplitRounding_def Let_def abs_if split: prod.splits)
qed

section \<open>Properties\<close>

text \<open>
  Whenever the auditor returns for at least one recipient, with pairwise different
  recipients, the corrected amounts add up to the invoice total exactly, whatever the ratios are
  and however the floating-point products were rounded.
\<close>

theorem audited_amounts_sum_to_total:
  assumes "auditSplitRounding share tot splits = Inr r" and "splits \<noteq> []"
    and "distinct (map sl_recipientId splits)"
  shows "sum_list (map snd (as_amounts r)) = tot"
proof -
  let ?es = "map (entry_of share tot) splits"
  let ?rk = "rank_entries ?es"
  let ?am = "map (\<lambda>l. (sl_recipientId l, \<lfloor>share tot (sl_ratio l)\<rfloor>)) splits"
  obtain d k where
    am: "as_amounts r = fst (distribute d k ?rk ?am [])"
    and ad: "as_adjustments r = snd (distribute d k ?rk ?am [])"
    and dk: "d * int k = tot - sum_list (map (\<lambda>l. \<lfloor>share tot (sl_ratio l)\<rfloor>) splits)"
    and k: "k \<le> length splits" and d: "d \<in> {-1, 1}"
    by (rule audit_Inr [OF assms])
  from assms(3) k dk show ?thesis by (simp add: am distribute_sum o_def min_absorb1)
qed

definition thirds :: "rat split_line list" where
  "thirds = map (\<lambda>i. \<lparr>sl_recipientId = i, sl_ratio = 1 / 3\<rparr>) [''A'', ''B'', ''C'']"

definition exact_share :: "int \<Rightarrow> rat \<Rightarrow> rat" where
  "exact_share tot ratio = of_int tot * ratio"

lemma thirds_audit: "auditSplitRounding exact_share 10 thirds =
    Inr \<lparr>as_amounts = [(''A'', 4), (''B'', 3), (''C'', 3)], as_adjustments = [(''A'', 1)], as_total = 10\<rparr>"
  by code_simp

theorem audited_amounts_sum_to_total_witness:
  "sum_list (map snd [(''A'', 4::int), (''B'', 3), (''C'', 3)]) = 10"
  using audited_amounts_sum_to_total [OF thirds_audit] by (simp add: thirds_def)

text \<open>
  C28: The correction is the largest-remainder method: every recipient gets the floor of its share
  or that floor corrected by one stroop, all corrections go the same way, and no recipient that
  was left alone has a larger fractional remainder than one that was corrected.
\<close>

theorem audited_amounts_largest_remainder:
  assumes "auditSplitRounding share tot splits = Inr r" and "splits \<noteq> []"
    and "distinct (map sl_recipientId splits)"
  shows "\<exists>d \<in> {-1, 1}.
    (\<forall>l \<in> set splits. map_of (as_amounts r) (sl_recipientId l) =
       Some (\<lfloor>share tot (sl_ratio l)\<rfloor> + (if (sl_recipientId l, d) \<in> set (as_adjustments r) then d else 0))) \<and>
    (\<forall>l \<in> set splits. \<forall>l' \<in> set splits.
       (sl_recipientId l, d) \<in> set (as_adjustments r) \<and> (sl_recipientId l', d) \<notin> set (as_adjustments r) \<longrightarrow>
       frac (share tot (sl_ratio l')) \<le> frac (share tot (sl_ratio l)))"
proof -
  let ?es = "map (entry_of share tot) splits" and ?id = se_recipientId
  let ?rk = "rank_entries ?es"
  let ?am = "map (\<lambda>l. (sl_recipientId l, \<lfloor>share tot (sl_ratio l)\<rfloor>)) splits"
  obtain d k where
    am: "as_amounts r = fst (distribute d k ?rk ?am [])"
    and ad: "as_adjustments r = snd (distribute d k ?rk ?am [])"
    and dk: "d * int k = tot - sum_list (map (\<lambda>l. \<lfloor>share tot (sl_ratio l)\<rfloor>) splits)"
    and k: "k \<le> length splits" and d: "d \<in> {-1, 1}"
    by (rule audit_Inr [OF assms])
  have id: "?id (entry_of share tot l) = sl_recipientId l" for l by (simp add: entry_of_def Let_def)
  have dist: "distinct (map ?id ?rk)" using assms(3) by (simp add: distinct_rank_entries o_def id)
  have sub: "?id ` set ?rk \<subseteq> dom (map_of ?am)" by (auto simp: id dom_map_of_conv_image_fst image_image)
  have adj: "(i, d) \<in> set (as_adjustments r) \<longleftrightarrow> i \<in> ?id ` set (take k ?rk)" for i
    by (auto simp: ad distribute_adj)
  have val: "map_of ?am (sl_recipientId l) = Some \<lfloor>share tot (sl_ratio l)\<rfloor>" if "l \<in> set splits" for l
    using that assms(3) by (intro map_of_is_SomeI) (auto simp: o_def)
  have fr: "se_frac (entry_of share tot l') \<le> se_frac (entry_of share tot l)"
    if l: "l \<in> set splits" "sl_recipientId l \<in> ?id ` set (take k ?rk)"
      and l': "l' \<in> set splits" "sl_recipientId l' \<notin> ?id ` set (take k ?rk)" for l l'
  proof -
    have inj: "inj_on ?id (set ?rk)" using dist by (simp add: distinct_map)
    have "entry_of share tot l \<in> set (take k ?rk)"
    proof -
      from l(2) obtain e where e: "e \<in> set (take k ?rk)" "?id e = ?id (entry_of share tot l)" by (auto simp: id)
      then have "e = entry_of share tot l"
        using inj l(1) by (intro inj_onD [OF inj]) (auto dest: in_set_takeD)
      with e show ?thesis by simp
    qed
    moreover have "entry_of share tot l' \<in> set (drop k ?rk)"
    proof -
      have "entry_of share tot l' \<in> set (take k ?rk @ drop k ?rk)" using l'(1) by simp
      moreover have "entry_of share tot l' \<notin> set (take k ?rk)" using l'(2) by (metis id imageI)
      ultimately show ?thesis by (metis Un_iff set_append)
    qed
    moreover have "sorted_wrt (\<lambda>a b. se_frac b \<le> se_frac a) (take k ?rk @ drop k ?rk)"
      using rank_entries_sorted by simp
    ultimately show ?thesis unfolding sorted_wrt_append by blast
  qed
  have frc: "se_frac (entry_of share tot l) = frac (share tot (sl_ratio l))" for l
    by (simp add: entry_of_def Let_def frac_def)
  show ?thesis
  proof (intro bexI [of _ d] conjI ballI impI)
    fix l assume "l \<in> set splits"
    then show "map_of (as_amounts r) (sl_recipientId l) =
        Some (\<lfloor>share tot (sl_ratio l)\<rfloor> + (if (sl_recipientId l, d) \<in> set (as_adjustments r) then d else 0))"
      by (simp add: adj am distribute_map_of [OF dist sub] val)
  next
    fix l l' assume "l \<in> set splits" "l' \<in> set splits"
      and "(sl_recipientId l, d) \<in> set (as_adjustments r) \<and> (sl_recipientId l', d) \<notin> set (as_adjustments r)"
    then show "frac (share tot (sl_ratio l')) \<le> frac (share tot (sl_ratio l))"
      using fr by (simp add: adj frc)
  qed (rule d)
qed

theorem audited_amounts_largest_remainder_witness:
  "\<exists>d. map_of [(''A'', 4::int), (''B'', 3), (''C'', 3)] ''A'' =
     Some (\<lfloor>exact_share 10 (1 / 3)\<rfloor> + (if (''A'', d) \<in> {(''A'', 1::int)} then d else 0))"
  using audited_amounts_largest_remainder [OF thirds_audit] by (auto simp: thirds_def)

text \<open>
  The overflow error is raised exactly when the floors of the shares miss the total by more
  than half the number of recipients, rounded up, and it reports that distance and that bound.
\<close>

theorem rounding_overflow_iff:
  "auditSplitRounding share tot splits = Inl e \<longleftrightarrow>
     splits \<noteq> [] \<and>
     \<bar>tot - sum_list (map (\<lambda>l. \<lfloor>share tot (sl_ratio l)\<rfloor>) splits)\<bar> > int ((length splits + 1) div 2) \<and>
     e = RoundingOverflowError \<bar>tot - sum_list (map (\<lambda>l. \<lfloor>share tot (sl_ratio l)\<rfloor>) splits)\<bar>
           (int ((length splits + 1) div 2)) (length splits)"
  by (simp add: audit_Inl_iff Let_def)

text \<open>
  When a recipient is listed twice the entries share one key of the result and the earlier
  one is overwritten: two halves of 10 stroops for the same recipient come back as 5 stroops, with
  no adjustment and no error, so half of the total is lost.
\<close>

theorem duplicate_recipient_loses_money:
  "auditSplitRounding exact_share 10
     [\<lparr>sl_recipientId = ''A'', sl_ratio = 1 / 2\<rparr>, \<lparr>sl_recipientId = ''A'', sl_ratio = 1 / 2\<rparr>] =
   Inr \<lparr>as_amounts = [(''A'', 5)], as_adjustments = [], as_total = 10\<rparr>"
  by code_simp

end
