(* ===== verification/Sequence_Cache.thy ===== *)
theory Sequence_Cache
  imports Cache
begin

text \<open>
  \<open>sequenceCache.ts\<close>: the sequence numbers of accounts, fetched once and counted up locally. The
  entries are objects that a call keeps across its \<open>await\<close>, so the model has an explicit store of
  objects; the cache of \<open>Cache\<close> holds their indices. A call is cut at its \<open>await\<close>: \<open>get_start\<close> up to the
  request, \<open>fetch_done\<close> or \<open>fetch_failed\<close> when Horizon answers, \<open>take_number\<close> after it. What the account
  request returns is an argument.
\<close>

section \<open>Entries\<close>

datatype entry_state = Valid | Invalidated | Refreshing

datatype sequence_error =
    StateTransitionError entry_state entry_state
  | SequenceCacheError string \<comment> \<open>the account\<close>

record seq_entry =
  sq_base :: int
  sq_offset :: int
  sq_fetchedAt :: int
  sq_state :: entry_state

definition transition_entry :: "entry_state \<Rightarrow> seq_entry \<Rightarrow> sequence_error + seq_entry" where
  "transition_entry new e =
     (if sq_state e = Valid \<and> new = Refreshing then Inl (StateTransitionError (sq_state e) new)
      else if sq_state e = Invalidated \<and> new = Valid then Inl (StateTransitionError (sq_state e) new)
      else Inr (e\<lparr>sq_state := new\<rparr>))"

record seq_cache =
  ss_cache :: "nat simple_cache"
  ss_objs :: "seq_entry list"

definition seq_cache_new :: "int option \<Rightarrow> int option \<Rightarrow> seq_cache" where
  "seq_cache_new ttl m =
     \<lparr>ss_cache = simple_cache_new (Some \<lparr>cfg_enabled = Some True, cfg_ttl = None,
         cfg_ttlMs = Some (case ttl of Some t \<Rightarrow> t | None \<Rightarrow> 30000),
         cfg_maxEntries = Some (case m of Some n \<Rightarrow> n | None \<Rightarrow> 10000)\<rparr>),
      ss_objs = []\<rparr>"

definition seq_key :: "string \<Rightarrow> string" where
  "seq_key account = ''seq:'' @ account"

definition cached_entry :: "string \<Rightarrow> int \<Rightarrow> seq_cache \<Rightarrow> nat option \<times> seq_cache" where
  "cached_entry account now s =
     (case sc_get (seq_key account) now (ss_cache s) of (r, c, ev) \<Rightarrow> (r, s\<lparr>ss_cache := c\<rparr>))"

definition set_entry :: "string \<Rightarrow> nat \<Rightarrow> int \<Rightarrow> seq_cache \<Rightarrow> seq_cache" where
  "set_entry account n now s = s\<lparr>ss_cache := fst (sc_set (seq_key account) n now (ss_cache s))\<rparr>"

text \<open>An assignment to an object; a transition that would throw is not reached from the callers below.\<close>

definition change_state :: "entry_state \<Rightarrow> nat \<Rightarrow> seq_cache \<Rightarrow> seq_cache" where
  "change_state new n s =
     (case transition_entry new (ss_objs s ! n) of
        Inl _ \<Rightarrow> s
      | Inr e \<Rightarrow> s\<lparr>ss_objs := (ss_objs s)[n := e]\<rparr>)"

section \<open>The segments of the calls\<close>

text \<open>\<open>fetchAndCache\<close> before its \<open>await\<close>\<close>

definition fetch_start :: "nat option \<Rightarrow> seq_cache \<Rightarrow> seq_cache" where
  "fetch_start existing s =
     (case existing of
        None \<Rightarrow> s
      | Some n \<Rightarrow>
          let s1 = (if sq_state (ss_objs s ! n) = Valid then change_state Invalidated n s else s)
          in if sq_state (ss_objs s1 ! n) = Invalidated then change_state Refreshing n s1 else s1)"

text \<open>\<open>fetchAndCache\<close> when the request resolves: a new object, which is returned and cached.\<close>

definition fetch_done :: "string \<Rightarrow> int \<Rightarrow> int \<Rightarrow> seq_cache \<Rightarrow> nat \<times> seq_cache" where
  "fetch_done account base now s =
     (let n = length (ss_objs s)
      in (n, set_entry account n now
               (s\<lparr>ss_objs := ss_objs s @ [\<lparr>sq_base = base, sq_offset = 1, sq_fetchedAt = now, sq_state = Valid\<rparr>]\<rparr>)))"

text \<open>\<open>fetchAndCache\<close> when it rejects\<close>

definition fetch_failed :: "string \<Rightarrow> nat option \<Rightarrow> seq_cache \<Rightarrow> sequence_error \<times> seq_cache" where
  "fetch_failed account existing s =
     (SequenceCacheError account,
      case existing of
        None \<Rightarrow> s
      | Some n \<Rightarrow> if sq_state (ss_objs s ! n) = Refreshing then change_state Invalidated n s else s)"

text \<open>\<open>getSequence\<close> up to its \<open>await\<close>: the entry that will be used, or the one to refresh.\<close>

datatype seq_lookup = UseEntry nat | FetchFor "nat option"

definition get_start :: "string \<Rightarrow> int \<Rightarrow> seq_cache \<Rightarrow> seq_lookup \<times> seq_cache" where
  "get_start account now s =
     (case cached_entry account now s of
        (None, s1) \<Rightarrow> (FetchFor None, fetch_start None s1)
      | (Some n, s1) \<Rightarrow>
          if sq_state (ss_objs s1 ! n) = Invalidated then (FetchFor (Some n), fetch_start (Some n) s1) else (UseEntry n, s1))"

text \<open>\<open>getSequence\<close> after it\<close>

definition take_number :: "string \<Rightarrow> nat \<Rightarrow> int \<Rightarrow> seq_cache \<Rightarrow> int \<times> seq_cache" where
  "take_number account n now s =
     (let e = ss_objs s ! n
      in (sq_base e + sq_offset e, set_entry account n now (s\<lparr>ss_objs := (ss_objs s)[n := e\<lparr>sq_offset := sq_offset e + 1\<rparr>]\<rparr>)))"

definition peekSequence :: "string \<Rightarrow> int \<Rightarrow> seq_cache \<Rightarrow> int option \<times> seq_cache" where
  "peekSequence account now s =
     (case cached_entry account now s of
        (None, s1) \<Rightarrow> (None, s1)
      | (Some n, s1) \<Rightarrow>
          (if sq_state (ss_objs s1 ! n) = Invalidated then None else Some (sq_base (ss_objs s1 ! n) + sq_offset (ss_objs s1 ! n)), s1))"

text \<open>\<open>invalidate\<close> and \<open>refresh\<close> up to their \<open>await\<close>; both then end with \<open>fetch_done\<close> or \<open>fetch_failed\<close>.\<close>

definition invalidate_start :: "string \<Rightarrow> int \<Rightarrow> seq_cache \<Rightarrow> nat option \<times> seq_cache" where
  "invalidate_start account now s =
     (case cached_entry account now s of
        (None, s1) \<Rightarrow> (None, fetch_start None s1)
      | (Some n, s1) \<Rightarrow>
          (Some n, fetch_start (Some n) (if sq_state (ss_objs s1 ! n) = Valid then change_state Invalidated n s1 else s1)))"

definition refresh_start :: "string \<Rightarrow> int \<Rightarrow> seq_cache \<Rightarrow> nat option \<times> seq_cache" where
  "refresh_start account now s =
     (case cached_entry account now s of
        (r, s1) \<Rightarrow>
          (r, fetch_start r (case r of Some n \<Rightarrow> if sq_state (ss_objs s1 ! n) = Valid then change_state Invalidated n s1 else s1
                                     | None \<Rightarrow> s1)))"

definition seq_clear :: "seq_cache \<Rightarrow> seq_cache" where
  "seq_clear s = s\<lparr>ss_cache := sc_clear (ss_cache s)\<rparr>"

definition seq_size :: "int \<Rightarrow> seq_cache \<Rightarrow> nat \<times> seq_cache" where
  "seq_size now s = (case sc_getStats now (ss_cache s) of (st, c, ev) \<Rightarrow> (cs_size st, s\<lparr>ss_cache := c\<rparr>))"

definition lower_char :: "char \<Rightarrow> char" where
  "lower_char c = (let n = of_char c :: nat in if 65 \<le> n \<and> n \<le> 90 then char_of (n + 32) else c)"

definition isSequenceTooOld :: "string \<Rightarrow> bool" where
  "isSequenceTooOld msg =
     (let lower = map lower_char msg
      in str_includes ''sequence_number_too_old'' lower \<or> str_includes ''tx_bad_seq'' lower \<or> str_includes ''bad sequence'' lower)"

section \<open>Interleavings\<close>

text \<open>
  Any order of the segments of any number of calls. A call that continues is one that has an entry:
  the one it found, or the one its request made.
\<close>

datatype seq_step =
    StartGet string int
  | TakeNumber string nat int
  | FetchDone string int int
  | FetchFailed string "nat option"
  | StartInvalidate string int
  | StartRefresh string int
  | Peek string int
  | ClearAll

text \<open>The numbers handed out, each with the object it was counted on.\<close>

fun seq_advance :: "seq_step \<Rightarrow> seq_cache \<Rightarrow> (nat \<times> int) list \<times> seq_cache" where
  "seq_advance (StartGet a t) s =
     (case get_start a t s of
        (UseEntry n, s1) \<Rightarrow> (case take_number a n t s1 of (x, s2) \<Rightarrow> ([(n, x)], s2))
      | (FetchFor e, s1) \<Rightarrow> ([], s1))"
| "seq_advance (TakeNumber a n t) s =
     (if n < length (ss_objs s) then (case take_number a n t s of (x, s1) \<Rightarrow> ([(n, x)], s1)) else ([], s))"
| "seq_advance (FetchDone a base t) s = ([], snd (fetch_done a base t s))"
| "seq_advance (FetchFailed a e) s = ([], snd (fetch_failed a e s))"
| "seq_advance (StartInvalidate a t) s = ([], snd (invalidate_start a t s))"
| "seq_advance (StartRefresh a t) s = ([], snd (refresh_start a t s))"
| "seq_advance (Peek a t) s = ([], snd (peekSequence a t s))"
| "seq_advance ClearAll s = ([], seq_clear s)"

fun seq_run :: "seq_step list \<Rightarrow> seq_cache \<Rightarrow> (nat \<times> int) list \<times> seq_cache" where
  "seq_run [] s = ([], s)"
| "seq_run (c # cs) s = (case seq_advance c s of (xs, s1) \<Rightarrow> (case seq_run cs s1 of (ys, s2) \<Rightarrow> (xs @ ys, s2)))"

section \<open>What an object counts\<close>

text \<open>Apart from its state, an object is only changed by taking a number.\<close>

definition same_counts :: "seq_entry list \<Rightarrow> seq_entry list \<Rightarrow> bool" where
  "same_counts xs ys \<longleftrightarrow> map (\<lambda>e. (sq_base e, sq_offset e)) xs = map (\<lambda>e. (sq_base e, sq_offset e)) ys"

lemma same_counts_refl [simp]: "same_counts xs xs"
  by (simp add: same_counts_def)

lemma same_counts_trans: "same_counts xs ys \<Longrightarrow> same_counts ys zs \<Longrightarrow> same_counts xs zs"
  by (simp add: same_counts_def)

lemma change_state_counts: "same_counts (ss_objs (change_state new n s)) (ss_objs s)"
proof (cases "n < length (ss_objs s)")
  case True
  then show ?thesis
    by (auto simp: same_counts_def change_state_def transition_entry_def map_update intro!: list_update_id [symmetric] nth_equalityI
      split: sum.split) (auto simp: nth_list_update)
next
  case False
  then show ?thesis by (simp add: change_state_def list_update_beyond split: sum.split)
qed

lemma fetch_start_counts: "same_counts (ss_objs (fetch_start e s)) (ss_objs s)"
  by (auto simp: fetch_start_def Let_def split: option.split intro: change_state_counts same_counts_trans [OF change_state_counts change_state_counts])

definition held :: "nat simple_cache \<Rightarrow> nat set" where
  "held c = me_value ` snd ` set (sc_store c)"

definition kept :: "(string \<times> nat method_entry) list \<Rightarrow> nat set" where
  "kept m = me_value ` snd ` set m"

lemma kept_delete: "kept (AList.delete k m) \<subseteq> kept m"
  unfolding kept_def AList.delete_eq by (intro image_mono) simp

lemma kept_update: "kept (AList.update k e m) \<subseteq> insert (me_value e) (kept m)"
  using image_mono [OF image_mono [OF set_update_sub [of k e m]], of me_value snd] by (simp add: kept_def)

lemma held_kept: "held c = kept (sc_store c)"
  by (simp add: held_def kept_def)

lemma held_get: "held (fst (snd (sc_get k t c))) \<subseteq> held c" "fst (sc_get k t c) = Some n \<Longrightarrow> n \<in> held c"
proof -
  have val: "me_value e \<in> kept (sc_store c)" if "map_of (sc_store c) k = Some e" for e
    using imageI [OF imageI [OF map_of_SomeD [OF that]], of me_value snd] by (simp add: kept_def)
  show "held (fst (snd (sc_get k t c))) \<subseteq> held c"
  proof (cases "map_of (sc_store c) k")
    case (Some e)
    have "kept (AList.update k e (AList.delete k (sc_store c))) \<subseteq> kept (sc_store c)"
      using kept_update [of k e "AList.delete k (sc_store c)"] kept_delete [of k "sc_store c"] val [OF Some] by blast
    then show ?thesis by (simp add: Some held_kept sc_get_def kept_delete)
  qed (simp add: held_kept sc_get_def)
  show "fst (sc_get k t c) = Some n \<Longrightarrow> n \<in> held c"
    using val by (auto simp: sc_seek_Some held_kept)
qed

lemma kept_room: "kept (fst (make_room n k m)) \<subseteq> kept m"
  by (auto simp: make_room_def kept_def AList.delete_eq split: list.split)

lemma held_set: "held (fst (sc_set k v t c)) \<subseteq> insert v (held c)"
proof -
  obtain s ev where m: "make_room (sc_maxEntries c) k (sc_store c) = (s, ev)" by (cases "make_room (sc_maxEntries c) k (sc_store c)")
  with kept_room [of "sc_maxEntries c" k "sc_store c"] have "kept s \<subseteq> kept (sc_store c)" by simp
  with kept_update [of k "\<lparr>me_value = v, me_expiresAt = expiry t (ttl_for (sc_ttlConfig c) k)\<rparr>" s]
  show ?thesis by (auto simp: sc_set_def Let_def m held_kept)
qed

lemma held_cleared: "held (sc_clear c) = {}"
  by (simp add: held_def sc_clear_def)

text \<open>Of every object, the numbers taken so far are the next ones after its base, each once and in order.\<close>

definition numbers :: "nat \<Rightarrow> (nat \<times> int) list \<Rightarrow> int list" where
  "numbers n hist = map snd (filter (\<lambda>(m, x). m = n) hist)"

definition counted :: "seq_entry \<Rightarrow> int list" where
  "counted e = map (\<lambda>i. sq_base e + 1 + int i) [0..<nat (sq_offset e - 1)]"

definition seq_inv :: "(nat \<times> int) list \<Rightarrow> seq_cache \<Rightarrow> bool" where
  "seq_inv hist s \<longleftrightarrow> (\<forall>n. numbers n hist = (if n < length (ss_objs s) then counted (ss_objs s ! n) else [])) \<and>
     (\<forall>e \<in> set (ss_objs s). 1 \<le> sq_offset e) \<and> held (ss_cache s) \<subseteq> {..<length (ss_objs s)}"

lemma numbers_append [simp]: "numbers n (xs @ ys) = numbers n xs @ numbers n ys" "numbers n [] = []"
  by (simp_all add: numbers_def)

lemma seq_inv_same:
  assumes "seq_inv hist s" "same_counts (ss_objs s') (ss_objs s)" "held (ss_cache s') \<subseteq> held (ss_cache s)"
  shows "seq_inv hist s'"
proof -
  have len: "length (ss_objs s') = length (ss_objs s)" using assms(2) by (auto simp: same_counts_def dest: map_eq_imp_length_eq)
  have nth: "sq_base (ss_objs s' ! n) = sq_base (ss_objs s ! n) \<and> sq_offset (ss_objs s' ! n) = sq_offset (ss_objs s ! n)"
    if "n < length (ss_objs s)" for n
    using assms(2) that len by (auto simp: same_counts_def list_eq_iff_nth_eq)
  have "\<forall>e \<in> set (ss_objs s'). 1 \<le> sq_offset e"
    using assms(1) nth len nth_mem [of _ "ss_objs s"] by (metis seq_inv_def in_set_conv_nth)
  with assms(1,3) nth len show ?thesis by (auto simp: seq_inv_def counted_def)
qed

lemma cached_entry_facts:
  assumes "cached_entry a t s = (r, s1)"
  shows "ss_objs s1 = ss_objs s" "held (ss_cache s1) \<subseteq> held (ss_cache s)" "r = Some n \<Longrightarrow> n \<in> held (ss_cache s)"
  using assms held_get [of "seq_key a" t "ss_cache s"]
  by (auto simp: cached_entry_def split: prod.splits)

lemma change_state_cache [simp]: "ss_cache (change_state new n s) = ss_cache s"
  by (simp add: change_state_def split: sum.split)

lemma fetch_start_cache [simp]: "ss_cache (fetch_start e s) = ss_cache s"
  by (simp add: fetch_start_def Let_def split: option.split)

lemma set_entry_objs [simp]: "ss_objs (set_entry a n t s) = ss_objs s"
  by (simp add: set_entry_def)

lemma take_number_inv:
  assumes "seq_inv hist s" "n < length (ss_objs s)" "take_number a n t s = (x, s1)"
  shows "seq_inv (hist @ [(n, x)]) s1"
proof -
  let ?e = "ss_objs s ! n"
  have o: "1 \<le> sq_offset ?e" using assms(1,2) by (auto simp: seq_inv_def)
  then have "nat (sq_offset ?e + 1 - 1) = Suc (nat (sq_offset ?e - 1))" by simp
  then have c: "counted (?e\<lparr>sq_offset := sq_offset ?e + 1\<rparr>) = counted ?e @ [sq_base ?e + sq_offset ?e]"
    using o by (simp add: counted_def)
  have s1: "ss_objs s1 = (ss_objs s)[n := ?e\<lparr>sq_offset := sq_offset ?e + 1\<rparr>]" "x = sq_base ?e + sq_offset ?e"
    using assms(3) by (auto simp: take_number_def Let_def)
  have "held (ss_cache s1) \<subseteq> insert n (held (ss_cache s))"
    using assms(3) held_set [of "seq_key a" n t "ss_cache s"] by (auto simp: take_number_def set_entry_def Let_def)
  then have h: "held (ss_cache s1) \<subseteq> {..<length (ss_objs s1)}" using assms(1,2) s1 by (auto simp: seq_inv_def)
  have "\<forall>e \<in> set (ss_objs s1). 1 \<le> sq_offset e"
  proof
    fix e assume "e \<in> set (ss_objs s1)"
    then have "e \<in> insert (?e\<lparr>sq_offset := sq_offset ?e + 1\<rparr>) (set (ss_objs s))"
      using set_update_subset_insert [of "ss_objs s" n "?e\<lparr>sq_offset := sq_offset ?e + 1\<rparr>"] unfolding s1(1) by blast
    with assms(1) o show "1 \<le> sq_offset e" by (auto simp: seq_inv_def)
  qed
  moreover have "numbers k (hist @ [(n, x)]) = (if k < length (ss_objs s1) then counted (ss_objs s1 ! k) else [])" for k
    using assms(1,2) c s1 by (cases "k = n") (simp_all add: seq_inv_def numbers_def)
  ultimately show ?thesis using h by (simp add: seq_inv_def)
qed

lemma fetch_done_inv: "seq_inv hist s \<Longrightarrow> seq_inv hist (snd (fetch_done a base t s))"
proof -
  assume i: "seq_inv hist s"
  let ?e = "\<lparr>sq_base = base, sq_offset = 1, sq_fetchedAt = t, sq_state = Valid\<rparr>"
  have "counted ?e = []" by (simp add: counted_def)
  moreover have "held (ss_cache (snd (fetch_done a base t s))) \<subseteq> insert (length (ss_objs s)) (held (ss_cache s))"
    using held_set by (simp add: fetch_done_def set_entry_def Let_def)
  ultimately show ?thesis using i
    by (auto simp: seq_inv_def fetch_done_def Let_def nth_append less_Suc_eq dest!: subsetD)
qed

lemma seq_advance_inv:
  assumes "seq_inv hist s" "seq_advance c s = (xs, s1)"
  shows "seq_inv (hist @ xs) s1"
proof (cases c)
  case (StartGet a t)
  obtain r s2 where r: "cached_entry a t s = (r, s2)" by (cases "cached_entry a t s")
  note f = cached_entry_facts [OF r]
  have i: "seq_inv hist s2" by (rule seq_inv_same [OF assms(1)]) (use f in simp_all)
  consider "r = None" | n where "r = Some n" "sq_state (ss_objs s2 ! n) = Invalidated" | n where "r = Some n" "sq_state (ss_objs s2 ! n) \<noteq> Invalidated"
    by (cases r) auto
  then show ?thesis
  proof cases
    case 1 with assms(2) i show ?thesis by (simp add: StartGet get_start_def r fetch_start_def)
  next
    case (2 n)
    have "seq_inv hist (fetch_start (Some n) s2)" by (rule seq_inv_same [OF i fetch_start_counts]) simp
    with 2 assms(2) show ?thesis by (simp add: StartGet get_start_def r)
  next
    case (3 n)
    then have "n < length (ss_objs s2)" using f(1,3) assms(1) by (auto simp: seq_inv_def)
    with 3 assms(2) take_number_inv [OF i this] show ?thesis by (auto simp: StartGet get_start_def r split: prod.splits)
  qed
next
  case (TakeNumber a n t)
  with assms take_number_inv [OF assms(1), of n a t] show ?thesis by (auto split: if_splits prod.splits)
next
  case (FetchDone a base t)
  with assms fetch_done_inv show ?thesis by auto
next
  case (FetchFailed a e)
  have "same_counts (ss_objs (snd (fetch_failed a e s))) (ss_objs s)"
    by (auto simp: fetch_failed_def intro: change_state_counts split: option.split)
  moreover have "ss_cache (snd (fetch_failed a e s)) = ss_cache s" by (simp add: fetch_failed_def split: option.split)
  ultimately show ?thesis using assms(2) seq_inv_same [OF assms(1)] FetchFailed by auto
next
  case (StartInvalidate a t)
  obtain r s2 where r: "cached_entry a t s = (r, s2)" by (cases "cached_entry a t s")
  note f = cached_entry_facts [OF r]
  have "same_counts (ss_objs (snd (invalidate_start a t s))) (ss_objs s)"
    unfolding f(1) [symmetric] by (auto simp: invalidate_start_def r intro: fetch_start_counts same_counts_trans [OF fetch_start_counts change_state_counts] split: option.split)
  moreover have "held (ss_cache (snd (invalidate_start a t s))) \<subseteq> held (ss_cache s)" using f(2) by (simp add: invalidate_start_def r split: option.split)
  ultimately show ?thesis using assms(2) seq_inv_same [OF assms(1)] StartInvalidate by auto
next
  case (StartRefresh a t)
  obtain r s2 where r: "cached_entry a t s = (r, s2)" by (cases "cached_entry a t s")
  note f = cached_entry_facts [OF r]
  have "same_counts (ss_objs (snd (refresh_start a t s))) (ss_objs s)"
    unfolding f(1) [symmetric] by (auto simp: refresh_start_def r intro: fetch_start_counts same_counts_trans [OF fetch_start_counts change_state_counts] split: option.split)
  moreover have "held (ss_cache (snd (refresh_start a t s))) \<subseteq> held (ss_cache s)" using f(2) by (simp add: refresh_start_def r split: option.split)
  ultimately show ?thesis using assms(2) seq_inv_same [OF assms(1)] StartRefresh by auto
next
  case (Peek a t)
  obtain r s2 where r: "cached_entry a t s = (r, s2)" by (cases "cached_entry a t s")
  note f = cached_entry_facts [OF r]
  have "snd (peekSequence a t s) = s2" by (simp add: peekSequence_def r split: option.split)
  with assms(2) f seq_inv_same [OF assms(1), of s2] Peek show ?thesis by auto
next
  case ClearAll
  with assms seq_inv_same [OF assms(1), of "seq_clear s"] show ?thesis by (auto simp: seq_clear_def held_cleared)
qed

lemma seq_run_inv: "seq_inv hist s \<Longrightarrow> seq_run cs s = (xs, s') \<Longrightarrow> seq_inv (hist @ xs) s'"
proof (induction cs arbitrary: hist s xs)
  case (Cons c cs)
  then obtain ys s1 zs where "seq_advance c s = (ys, s1)" "seq_run cs s1 = (zs, s')" "xs = ys @ zs"
    by (auto split: prod.splits)
  with Cons.IH [OF seq_advance_inv [OF Cons.prems(1)]] show ?case by fastforce
qed simp

text \<open>
  C14: However calls to get, peek, invalidate, refresh and clear interleave at their awaits, and
  whatever Horizon answers, each fetched entry hands out the numbers after its base exactly once
  each and in order, without a gap: as many as its offset says.
\<close>

theorem sequence_numbers_consecutive:
  assumes "seq_run cs (seq_cache_new ttl m) = (hist, s)" "n < length (ss_objs s)"
  shows "numbers n hist = map (\<lambda>i. sq_base (ss_objs s ! n) + 1 + int i) [0..<nat (sq_offset (ss_objs s ! n) - 1)]"
proof -
  have "seq_inv [] (seq_cache_new ttl m)"
    by (simp add: seq_inv_def seq_cache_new_def simple_cache_new_def held_def)
  from seq_run_inv [OF this assms(1)] assms(2) show ?thesis by (simp add: seq_inv_def counted_def)
qed

definition sample_steps :: "seq_step list" where
  "sample_steps = [StartGet ''G'' 0, FetchDone ''G'' 100 1, TakeNumber ''G'' 0 1, StartGet ''G'' 2, StartInvalidate ''G'' 3, StartGet ''G'' 4]"

theorem sequence_numbers_consecutive_witness:
  "numbers 0 (fst (seq_run sample_steps (seq_cache_new None None))) = [101, 102, 103]"
proof -
  obtain hist s where r: "seq_run sample_steps (seq_cache_new None None) = (hist, s)" by (cases "seq_run sample_steps (seq_cache_new None None)")
  have "map (\<lambda>e. (sq_base e, sq_offset e)) (ss_objs (snd (seq_run sample_steps (seq_cache_new None None)))) = [(100, 4)]" by code_simp
  then obtain e where "ss_objs s = [e]" "sq_base e = 100" "sq_offset e = 4" by (auto simp: r)
  with sequence_numbers_consecutive [OF r, of 0] show ?thesis by (simp add: r upt_rec)
qed

text \<open>
  The first two calls for an account that overlap get the same number: both miss the cache and
  ask Horizon, each answer makes an entry of its own, and each entry hands out the number after the
  same base.
\<close>

theorem overlapping_first_calls_collide:
  "fst (seq_run [StartGet a 0, StartGet a 0, FetchDone a base 1, TakeNumber a 0 1, FetchDone a base 2, TakeNumber a 1 2] (seq_cache_new ttl m)) =
     [(0, base + 1), (1, base + 1)]"
proof -
  have miss: "cached_entry a 0 s = (None, s\<lparr>ss_cache := (ss_cache s)\<lparr>sc_misses := sc_misses (ss_cache s) + 1\<rparr>\<rparr>)"
    if "sc_store (ss_cache s) = []" "sc_enabled (ss_cache s)" for s
    using that by (simp add: cached_entry_def sc_get_def)
  have "sc_store (ss_cache (seq_cache_new ttl m)) = []" "sc_enabled (ss_cache (seq_cache_new ttl m))" "ss_objs (seq_cache_new ttl m) = []"
    by (simp_all add: seq_cache_new_def simple_cache_new_def)
  then show ?thesis
    by (simp add: get_start_def miss fetch_start_def fetch_done_def take_number_def set_entry_def Let_def)
qed

end
