(* ===== verification/Settlement.thy ===== *)
theory Settlement
  imports Prelude
begin

text \<open>
  \<open>crossChainSettlement.ts\<close>: settlements over chain adapters. A settlement is an object that the
  store, the call that made it and every status query share, so the model keeps it in the store
  under its identifier. \<open>initiateSettlement\<close> and \<open>getSettlementStatus\<close> wait for an adapter; they are
  cut there, and the waiting calls are part of the state. What an adapter answers is part of the
  event that ends the wait. Times are milliseconds.
\<close>

section \<open>Data\<close>

record settlement_params =
  sp_sourceChain :: string
  sp_targetChain :: string
  sp_amount :: int
  sp_recipient :: string
  sp_token :: string

datatype settlement_status = SPending | SSubmitted | SConfirmed | SFailed | SUnknown

record settlement =
  se_id :: string
  se_params :: settlement_params
  se_status :: settlement_status
  se_txId :: "string option"
  se_createdAt :: int
  se_updatedAt :: int
  se_error :: "string option"

datatype settlement_error =
    EmptyChainId
  | EmptySourceChain
  | EmptyTargetChain
  | SameChains
  | AmountNotPositive
  | EmptyRecipient
  | EmptyToken
  | UnregisteredChain string
  | SettlementNotFound string

datatype settlement_event = InitiatedEv settlement | ConfirmedEv settlement | FailedEv settlement

text \<open>\<open>toString(36)\<close>.\<close>

definition digit36 :: "nat \<Rightarrow> char" where
  "digit36 d = (if d < 10 then char_of (48 + d) else char_of (87 + d))"

fun show36 :: "nat \<Rightarrow> string" where
  "show36 n = (if n < 36 then [digit36 n] else show36 (n div 36) @ [digit36 (n mod 36)])"

definition generateSettlementId :: "nat \<Rightarrow> nat \<Rightarrow> string" where
  "generateSettlementId ts seq = ''settle-'' @ show36 ts @ ''-'' @ pad_start 4 (show36 seq)"

section \<open>The service\<close>

record service =
  sv_adapters :: "(string \<times> nat) list"
  sv_settlements :: "(string \<times> settlement) list"
  sv_counter :: nat
  sv_events :: "settlement_event list"
  sv_submits :: "string list"
  sv_polls :: "(nat \<times> string) list"

definition service_new :: service where
  "service_new = \<lparr>sv_adapters = [], sv_settlements = [], sv_counter = 0, sv_events = [], sv_submits = [], sv_polls = []\<rparr>"

definition registerChain :: "string \<Rightarrow> nat \<Rightarrow> service \<Rightarrow> (settlement_error + unit) \<times> service" where
  "registerChain chain adapter sv =
     (if chain = '''' then (Inl EmptyChainId, sv)
      else (Inr (), sv\<lparr>sv_adapters := AList.update chain adapter (sv_adapters sv)\<rparr>))"

definition getAdapter :: "string \<Rightarrow> service \<Rightarrow> nat option" where
  "getAdapter chain sv = map_of (sv_adapters sv) chain"

definition registeredChains :: "service \<Rightarrow> string list" where
  "registeredChains sv = map fst (sv_adapters sv)"

definition validateParams :: "settlement_params \<Rightarrow> settlement_error + unit" where
  "validateParams p =
     (if sp_sourceChain p = '''' then Inl EmptySourceChain
      else if sp_targetChain p = '''' then Inl EmptyTargetChain
      else if sp_sourceChain p = sp_targetChain p then Inl SameChains
      else if sp_amount p \<le> 0 then Inl AmountNotPositive
      else if sp_recipient p = '''' then Inl EmptyRecipient
      else if sp_token p = '''' then Inl EmptyToken
      else Inr ())"

text \<open>The record behind a reference that a call holds, and a change of it.\<close>

definition put_settlement :: "settlement \<Rightarrow> service \<Rightarrow> service" where
  "put_settlement s sv = sv\<lparr>sv_settlements := AList.update (se_id s) s (sv_settlements sv)\<rparr>"

definition emit_settlement :: "settlement_event \<Rightarrow> service \<Rightarrow> service" where
  "emit_settlement e sv = sv\<lparr>sv_events := sv_events sv @ [e]\<rparr>"

text \<open>\<open>initiateSettlement\<close> up to its wait.\<close>

definition initiate_start :: "settlement_params \<Rightarrow> nat \<Rightarrow> service \<Rightarrow> (settlement_error + string) \<times> service" where
  "initiate_start p now sv =
     (case validateParams p of
        Inl e \<Rightarrow> (Inl e, sv)
      | Inr _ \<Rightarrow>
          (case map_of (sv_adapters sv) (sp_targetChain p) of
             None \<Rightarrow> (Inl (UnregisteredChain (sp_targetChain p)), sv)
           | Some _ \<Rightarrow>
               let seq = sv_counter sv + 1;
                   i = generateSettlementId now seq;
                   s = \<lparr>se_id = i, se_params = p, se_status = SPending, se_txId = None,
                        se_createdAt = int now, se_updatedAt = int now, se_error = None\<rparr>
               in (Inr i, (emit_settlement (InitiatedEv s) (put_settlement s (sv\<lparr>sv_counter := seq\<rparr>)))
                            \<lparr>sv_submits := i # sv_submits sv\<rparr>)))"

text \<open>What happens when \<open>adapter.submit\<close> answers with a transaction, or throws.\<close>

definition initiate_finish ::
  "string \<Rightarrow> string + string \<times> settlement_status \<Rightarrow> nat \<Rightarrow> service \<Rightarrow> settlement option \<times> service" where
  "initiate_finish i reply now sv0 =
     (if i \<notin> set (sv_submits sv0) then (None, sv0)
      else let sv = sv0\<lparr>sv_submits := removeAll i (sv_submits sv0)\<rparr>
      in case map_of (sv_settlements sv) i of
        None \<Rightarrow> (None, sv)
      | Some s \<Rightarrow>
          (case reply of
             Inr (tx, status) \<Rightarrow>
               let s' = s\<lparr>se_txId := Some tx,
                          se_status := (if status = SConfirmed then SConfirmed else SSubmitted),
                          se_updatedAt := int now\<rparr>
               in (Some s', (if se_status s' = SConfirmed then emit_settlement (ConfirmedEv s') else id) (put_settlement s' sv))
           | Inl message \<Rightarrow>
               let s' = s\<lparr>se_status := SFailed, se_error := Some message, se_updatedAt := int now\<rparr>
               in (Some s', emit_settlement (FailedEv s') (put_settlement s' sv))))"

definition terminal :: "settlement \<Rightarrow> bool" where
  "terminal s \<longleftrightarrow> se_status s = SConfirmed \<or> se_status s = SFailed"

text \<open>
  \<open>getSettlementStatus\<close> up to its wait: an outcome, or \<open>None\<close> when the adapter is asked. An empty
  transaction identifier is falsy.
\<close>

definition poll_start :: "nat \<Rightarrow> string \<Rightarrow> service \<Rightarrow> (settlement_error + settlement) option \<times> service" where
  "poll_start n i sv =
     (case map_of (sv_settlements sv) i of
        None \<Rightarrow> (Some (Inl (SettlementNotFound i)), sv)
      | Some s \<Rightarrow>
          if terminal s then (Some (Inr s), sv)
          else if se_txId s = None \<or> se_txId s = Some '''' then (Some (Inr s), sv)
          else (case map_of (sv_adapters sv) (sp_targetChain (se_params s)) of
                  None \<Rightarrow> (Some (Inl (UnregisteredChain (sp_targetChain (se_params s)))), sv)
                | Some _ \<Rightarrow> (None, sv\<lparr>sv_polls := (n, i) # sv_polls sv\<rparr>)))"

text \<open>What happens when \<open>adapter.getStatus\<close> answers, or throws.\<close>

definition poll_finish ::
  "nat \<Rightarrow> (settlement_status \<times> string option) option \<Rightarrow> nat \<Rightarrow> service \<Rightarrow> settlement option \<times> service" where
  "poll_finish n reply now sv0 =
     (case map_of (sv_polls sv0) n of
        None \<Rightarrow> (None, sv0)
      | Some i \<Rightarrow>
          let sv = sv0\<lparr>sv_polls := AList.delete n (sv_polls sv0)\<rparr>
          in case map_of (sv_settlements sv) i of
            None \<Rightarrow> (None, sv)
          | Some s \<Rightarrow>
              (case reply of
                 None \<Rightarrow>
                   let s' = s\<lparr>se_status := SUnknown, se_updatedAt := int now\<rparr> in (Some s', put_settlement s' sv)
               | Some (status, err) \<Rightarrow>
                   let s1 = s\<lparr>se_status := status,
                              se_error := (case err of Some m \<Rightarrow> if m \<noteq> '''' then Some m else se_error s | None \<Rightarrow> se_error s),
                              se_updatedAt := int now\<rparr>
                   in if se_status s \<noteq> SConfirmed \<and> status = SConfirmed then
                        (Some s1, emit_settlement (ConfirmedEv s1) (put_settlement s1 sv))
                      else if se_status s \<noteq> SFailed \<and> status = SFailed then
                        let s2 = s1\<lparr>se_error := (case se_error s1 of None \<Rightarrow> Some ''Unknown failure'' | Some m \<Rightarrow> Some m)\<rparr>
                        in (Some s2, emit_settlement (FailedEv s2) (put_settlement s2 sv))
                      else (Some s1, put_settlement s1 sv)))"

definition created_cmp :: "settlement \<Rightarrow> settlement \<Rightarrow> rat" where
  "created_cmp a b = of_int (se_createdAt a - se_createdAt b)"

definition listSettlements :: "service \<Rightarrow> settlement list" where
  "listSettlements sv = js_sort created_cmp (map snd (sv_settlements sv))"

text \<open>\<open>estimateFee\<close> validates and then asks the adapter, here an argument.\<close>

definition estimateSettlementFee :: "(nat \<Rightarrow> settlement_params \<Rightarrow> 'f) \<Rightarrow> settlement_params \<Rightarrow> service \<Rightarrow> settlement_error + 'f" where
  "estimateSettlementFee estimate p sv =
     (case validateParams p of
        Inl e \<Rightarrow> Inl e
      | Inr _ \<Rightarrow>
          (case map_of (sv_adapters sv) (sp_targetChain p) of
             None \<Rightarrow> Inl (UnregisteredChain (sp_targetChain p))
           | Some a \<Rightarrow> Inr (estimate a p)))"

section \<open>Listeners\<close>

type_synonym listener_table = "(string \<times> nat list) list"

definition listener_on :: "string \<Rightarrow> nat \<Rightarrow> listener_table \<Rightarrow> listener_table" where
  "listener_on ev l t = AList.update ev (set_add l (case map_of t ev of None \<Rightarrow> [] | Some ls \<Rightarrow> ls)) t"

definition listener_off :: "string \<Rightarrow> nat \<Rightarrow> listener_table \<Rightarrow> listener_table" where
  "listener_off ev l t =
     (case map_of t ev of None \<Rightarrow> t | Some ls \<Rightarrow> AList.update ev (removeAll l ls) t)"

definition removeAllListeners :: "string option \<Rightarrow> listener_table \<Rightarrow> listener_table" where
  "removeAllListeners ev t = (case ev of None \<Rightarrow> [] | Some e \<Rightarrow> AList.delete e t)"

definition listenerCount :: "string \<Rightarrow> listener_table \<Rightarrow> nat" where
  "listenerCount ev t = (case map_of t ev of None \<Rightarrow> 0 | Some ls \<Rightarrow> length ls)"

section \<open>Runs\<close>

datatype service_step =
    RegisterStep string nat
  | InitiateStep settlement_params nat
  | SubmitReply string "string + string \<times> settlement_status" nat
  | PollStep nat string
  | PollReply nat "(settlement_status \<times> string option) option" nat

fun service_advance :: "service \<Rightarrow> service_step \<Rightarrow> service" where
  "service_advance sv (RegisterStep chain a) = snd (registerChain chain a sv)"
| "service_advance sv (InitiateStep p now) = snd (initiate_start p now sv)"
| "service_advance sv (SubmitReply i reply now) = snd (initiate_finish i reply now sv)"
| "service_advance sv (PollStep n i) = snd (poll_start n i sv)"
| "service_advance sv (PollReply n reply now) = snd (poll_finish n reply now sv)"

section \<open>Identifiers are fresh\<close>

declare show36.simps [simp del]

definition undigit36 :: "char \<Rightarrow> nat" where
  "undigit36 c = (if of_char c < (58 :: nat) then of_char c - 48 else of_char c - 87)"

definition value36 :: "string \<Rightarrow> nat" where
  "value36 s = foldl (\<lambda>a c. 36 * a + undigit36 c) 0 s"

lemma undigit36_digit36 [simp]: "d < 36 \<Longrightarrow> undigit36 (digit36 d) = d"
  by (auto simp: undigit36_def digit36_def)

lemma value36_show36 [simp]: "value36 (show36 n) = n"
proof (induction n rule: show36.induct)
  case (1 n)
  then show ?case by (subst show36.simps) (simp add: value36_def)
qed

lemma value36_zeros [simp]: "value36 (pad_start k s) = value36 s"
proof -
  have "foldl (\<lambda>a c. 36 * a + undigit36 c) 0 (replicate m CHR ''0'') = 0" for m
    by (induction m) (simp_all add: undigit36_def)
  then show ?thesis by (simp add: value36_def pad_start_def)
qed

lemma dash_not_digit36: "CHR ''-'' \<notin> set (show36 n)"
proof (induction n rule: show36.induct)
  case (1 n)
  have "digit36 d \<noteq> CHR ''-''" if "d < 36" for d
  proof
    assume "digit36 d = CHR ''-''"
    then have "(of_char (digit36 d) :: nat) = of_char CHR ''-''" by simp
    with that show False by (auto simp: digit36_def split: if_splits)
  qed
  with 1 show ?case by (subst show36.simps) (simp, metis mod_less_divisor zero_less_numeral)
qed

lemma settlement_id_inj:
  assumes "generateSettlementId ts n = generateSettlementId ts' n'"
  shows "n = n'"
proof -
  have *: "show36 ts @ ''-'' @ pad_start 4 (show36 n) = show36 ts' @ ''-'' @ pad_start 4 (show36 n')"
    using assms by (simp add: generateSettlementId_def)
  have "dropWhile (\<lambda>c. c \<noteq> CHR ''-'') (show36 t @ ''-'' @ r) = ''-'' @ r" for t r
    using dash_not_digit36 [of t] by (auto simp: dropWhile_append)
  with * have "pad_start 4 (show36 n) = pad_start 4 (show36 n')" by (metis append_Cons append_Nil list.inject)
  then show ?thesis by (metis value36_show36 value36_zeros)
qed

section \<open>One status query at a time\<close>

text \<open>
  Runs in which no two status queries for one settlement overlap, and each query in flight has its own
  number.
\<close>

fun calm_step :: "service \<Rightarrow> service_step \<Rightarrow> bool" where
  "calm_step sv (PollStep n i) \<longleftrightarrow> i \<notin> snd ` set (sv_polls sv) \<and> n \<notin> fst ` set (sv_polls sv)"
| "calm_step sv _ \<longleftrightarrow> True"

inductive calm :: "service \<Rightarrow> service \<Rightarrow> bool" where
  start: "calm sv sv"
| step: "calm sv sv' \<Longrightarrow> calm_step sv' st \<Longrightarrow> calm sv (service_advance sv' st)"

fun completes :: "string \<Rightarrow> settlement_event \<Rightarrow> bool" where
  "completes i (InitiatedEv s) = False"
| "completes i (ConfirmedEv s) = (se_id s = i)"
| "completes i (FailedEv s) = (se_id s = i)"

definition completion_of :: "settlement option \<Rightarrow> settlement_event list" where
  "completion_of so =
     (case so of
        None \<Rightarrow> []
      | Some s \<Rightarrow> if se_status s = SConfirmed then [ConfirmedEv s] else if se_status s = SFailed then [FailedEv s] else [])"

definition service_inv :: "service \<Rightarrow> bool" where
  "service_inv sv \<longleftrightarrow>
     (\<forall>i s. map_of (sv_settlements sv) i = Some s \<longrightarrow> se_id s = i
        \<and> (\<exists>ts n. i = generateSettlementId ts n \<and> n \<le> sv_counter sv))
     \<and> (\<forall>i. filter (completes i) (sv_events sv) = completion_of (map_of (sv_settlements sv) i))
     \<and> distinct (map snd (sv_polls sv)) \<and> distinct (map fst (sv_polls sv))
     \<and> (\<forall>(n, i) \<in> set (sv_polls sv). \<exists>s. map_of (sv_settlements sv) i = Some s \<and> \<not> terminal s \<and> se_txId s \<noteq> None)
     \<and> (\<forall>i \<in> set (sv_submits sv). \<exists>s. map_of (sv_settlements sv) i = Some s \<and> se_status s = SPending \<and> se_txId s = None)"

lemma service_invD:
  assumes "service_inv sv"
  shows "map_of (sv_settlements sv) i = Some s \<Longrightarrow>
      se_id s = i \<and> (\<exists>ts n. i = generateSettlementId ts n \<and> n \<le> sv_counter sv)"
    and "filter (completes i) (sv_events sv) = completion_of (map_of (sv_settlements sv) i)"
    and "distinct (map snd (sv_polls sv))" and "distinct (map fst (sv_polls sv))"
    and "(n, i) \<in> set (sv_polls sv) \<Longrightarrow>
      \<exists>s. map_of (sv_settlements sv) i = Some s \<and> \<not> terminal s \<and> se_txId s \<noteq> None"
    and "i \<in> set (sv_submits sv) \<Longrightarrow>
      \<exists>s. map_of (sv_settlements sv) i = Some s \<and> se_status s = SPending \<and> se_txId s = None"
  using assms unfolding service_inv_def by blast+

lemma completes_append: "filter (completes i) (es @ [e]) = filter (completes i) es @ (if completes i e then [e] else [])"
  by simp

lemma service_new_inv: "service_inv service_new"
  by (simp add: service_inv_def service_new_def completion_of_def)

lemma fresh_id: "service_inv sv \<Longrightarrow> map_of (sv_settlements sv) (generateSettlementId ts (sv_counter sv + 1)) = None"
proof (rule ccontr)
  assume inv: "service_inv sv" and "map_of (sv_settlements sv) (generateSettlementId ts (sv_counter sv + 1)) \<noteq> None"
  then obtain ts' n where "generateSettlementId ts (sv_counter sv + 1) = generateSettlementId ts' n" "n \<le> sv_counter sv"
    unfolding service_inv_def by blast
  then show False using settlement_id_inj by fastforce
qed

text \<open>A change of one settlement that is not terminal, with the event that goes with the change.\<close>

definition finish_with :: "settlement \<Rightarrow> service \<Rightarrow> service" where
  "finish_with s sv = (let sv' = put_settlement s sv in sv'\<lparr>sv_events := sv_events sv' @ completion_of (Some s)\<rparr>)"

lemma finish_with_simps [simp]:
  "sv_settlements (finish_with s sv) = AList.update (se_id s) s (sv_settlements sv)"
  "sv_events (finish_with s sv) = sv_events sv @ completion_of (Some s)"
  "sv_counter (finish_with s sv) = sv_counter sv" "sv_polls (finish_with s sv) = sv_polls sv"
  "sv_submits (finish_with s sv) = sv_submits sv" "sv_adapters (finish_with s sv) = sv_adapters sv"
  by (simp_all add: finish_with_def put_settlement_def Let_def)

lemma finish_with_inv:
  assumes "service_inv sv" "map_of (sv_settlements sv) (se_id s) = Some s0" "\<not> terminal s0"
    and "se_id s \<notin> snd ` set (sv_polls sv)" "se_id s \<notin> set (sv_submits sv)"
  shows "service_inv (finish_with s sv)"
proof -
  let ?m = "map_of (sv_settlements sv)" and ?m' = "map_of (sv_settlements (finish_with s sv))"
  have m': "?m' = ?m(se_id s \<mapsto> s)" by simp
  have c0: "completion_of (?m (se_id s)) = []" using assms(2,3) by (simp add: completion_of_def terminal_def)
  have cs: "filter (completes i) (completion_of (Some s)) = (if i = se_id s then completion_of (Some s) else [])" for i
    by (auto simp: completion_of_def)
  note inv = service_invD [OF assms(1)]
  have ids: "se_id t = i \<and> (\<exists>ts n. i = generateSettlementId ts n \<and> n \<le> sv_counter sv)" if "?m' i = Some t" for i t
  proof (cases "i = se_id s")
    case True
    then show ?thesis using that inv(1) [OF assms(2)] by (simp add: m')
  next
    case False
    then show ?thesis using that inv(1) [of i t] by (simp add: m')
  qed
  have evs: "filter (completes i) (sv_events (finish_with s sv)) = completion_of (?m' i)" for i
    using inv(2) [of i] c0 by (simp add: cs)
  have polls: "\<exists>t. ?m' i = Some t \<and> \<not> terminal t \<and> se_txId t \<noteq> None" if "(n, i) \<in> set (sv_polls sv)" for n i
  proof -
    have "i \<noteq> se_id s" using assms(4) that by force
    then show ?thesis using inv(5) [OF that] by (simp add: m')
  qed
  have subs: "\<exists>t. ?m' i = Some t \<and> se_status t = SPending \<and> se_txId t = None" if "i \<in> set (sv_submits sv)" for i
  proof -
    have "i \<noteq> se_id s" using assms(5) that by blast
    then show ?thesis using inv(6) [OF that] by (simp add: m')
  qed
  show ?thesis
    unfolding service_inv_def
    by (intro conjI allI impI ballI)
      (use ids evs polls subs inv(3,4) in \<open>auto simp del: finish_with_simps(1) fun_upd_apply\<close>)
qed

lemma submit_finishes:
  assumes "service_inv sv" "i \<in> set (sv_submits sv)"
  shows "\<exists>s' s0. snd (initiate_finish i reply now sv) = finish_with s' (sv\<lparr>sv_submits := removeAll i (sv_submits sv)\<rparr>)
    \<and> se_id s' = i \<and> map_of (sv_settlements sv) i = Some s0 \<and> se_status s0 = SPending \<and> se_txId s0 = None"
proof -
  obtain s0 where s0: "map_of (sv_settlements sv) i = Some s0" "se_status s0 = SPending" "se_txId s0 = None" "se_id s0 = i"
    using service_invD(6) [OF assms] service_invD(1) [OF assms(1)] by blast
  show ?thesis
  proof (cases reply)
    case (Inl message)
    then show ?thesis using assms(2) s0
      by (auto simp: initiate_finish_def Let_def finish_with_def put_settlement_def emit_settlement_def completion_of_def
          intro!: exI [of _ "s0\<lparr>se_status := SFailed, se_error := Some message, se_updatedAt := int now\<rparr>"])
  next
    case (Inr r)
    then show ?thesis using assms(2) s0
      by (cases r) (auto simp: initiate_finish_def Let_def finish_with_def put_settlement_def emit_settlement_def completion_of_def
          intro!: exI [of _ "s0\<lparr>se_txId := Some (fst r),
             se_status := (if snd r = SConfirmed then SConfirmed else SSubmitted), se_updatedAt := int now\<rparr>"])
  qed
qed

definition polled :: "settlement \<Rightarrow> (settlement_status \<times> string option) option \<Rightarrow> nat \<Rightarrow> settlement" where
  "polled s reply now =
     (case reply of
        None \<Rightarrow> s\<lparr>se_status := SUnknown, se_updatedAt := int now\<rparr>
      | Some (status, err) \<Rightarrow>
          let e = (case err of Some m \<Rightarrow> if m \<noteq> '''' then Some m else se_error s | None \<Rightarrow> se_error s)
          in s\<lparr>se_status := status,
               se_error := (if status = SFailed \<and> e = None then Some ''Unknown failure'' else e),
               se_updatedAt := int now\<rparr>)"

lemma polled_id [simp]: "se_id (polled s reply now) = se_id s"
  by (simp add: polled_def Let_def split: option.split prod.split)

lemma poll_finish_active:
  assumes "map_of (sv_polls sv) n = Some i" "map_of (sv_settlements sv) i = Some s0" "\<not> terminal s0"
  shows "snd (poll_finish n reply now sv) = finish_with (polled s0 reply now) (sv\<lparr>sv_polls := AList.delete n (sv_polls sv)\<rparr>)"
proof (cases reply)
  case None
  then show ?thesis using assms
    by (simp add: poll_finish_def Let_def finish_with_def put_settlement_def completion_of_def polled_def)
next
  case (Some r)
  obtain status err where r: "r = (status, err)" by fastforce
  show ?thesis using assms Some r
    by (cases status; cases err; cases s0)
      (auto simp: poll_finish_def Let_def finish_with_def put_settlement_def emit_settlement_def completion_of_def polled_def terminal_def
        split: option.splits)
qed

lemma poll_finishes:
  assumes "service_inv sv" "map_of (sv_polls sv) n = Some i"
  shows "\<exists>s' s0. snd (poll_finish n reply now sv) = finish_with s' (sv\<lparr>sv_polls := AList.delete n (sv_polls sv)\<rparr>)
    \<and> se_id s' = i \<and> map_of (sv_settlements sv) i = Some s0 \<and> \<not> terminal s0 \<and> se_txId s0 \<noteq> None"
proof -
  obtain s0 where s0: "map_of (sv_settlements sv) i = Some s0" "\<not> terminal s0" "se_txId s0 \<noteq> None" "se_id s0 = i"
    using service_invD(5) [OF assms(1) map_of_SomeD [OF assms(2)]] service_invD(1) [OF assms(1)] by blast
  from poll_finish_active [OF assms(2) s0(1,2)] s0 show ?thesis by (metis polled_id)
qed

lemma initiate_inv:
  assumes "service_inv sv"
  shows "service_inv (snd (initiate_start p now sv))"
proof -
  let ?i = "generateSettlementId now (Suc (sv_counter sv))"
  define s where "s = \<lparr>se_id = ?i, se_params = p, se_status = SPending, se_txId = None,
      se_createdAt = int now, se_updatedAt = int now, se_error = None\<rparr>"
  define sv' where "sv' = sv\<lparr>sv_counter := Suc (sv_counter sv), sv_settlements := AList.update ?i s (sv_settlements sv),
      sv_events := sv_events sv @ [InitiatedEv s], sv_submits := ?i # sv_submits sv\<rparr>"
  have fresh: "map_of (sv_settlements sv) ?i = None" using fresh_id [OF assms] by simp
  note inv = service_invD [OF assms]
  have "service_inv sv'"
    unfolding service_inv_def
  proof (intro conjI allI impI ballI)
    fix i t assume t: "map_of (sv_settlements sv') i = Some t"
    show "se_id t = i"
      using t inv(1) [of i t] by (cases "i = ?i") (auto simp: sv'_def s_def)
    show "\<exists>ts n. i = generateSettlementId ts n \<and> n \<le> sv_counter sv'"
    proof (cases "i = ?i")
      case True
      then show ?thesis by (auto simp: sv'_def)
    next
      case False
      then show ?thesis using t inv(1) [of i t] by (auto simp: sv'_def intro: le_SucI)
    qed
  next
    fix i
    show "filter (completes i) (sv_events sv') = completion_of (map_of (sv_settlements sv') i)"
      using inv(2) [of i] fresh by (simp add: sv'_def completion_of_def s_def split: if_splits)
  next
    fix x assume "x \<in> set (sv_polls sv')"
    moreover have "sv_polls sv' = sv_polls sv" by (simp add: sv'_def)
    moreover obtain n i where "x = (n, i)" by fastforce
    ultimately have x: "x = (n, i)" "(n, i) \<in> set (sv_polls sv)" by simp_all
    from inv(5) [OF x(2)] fresh show "case x of (n, i) \<Rightarrow> \<exists>s. map_of (sv_settlements sv') i = Some s \<and> \<not> terminal s \<and> se_txId s \<noteq> None"
      by (auto simp: x sv'_def)
  next
    fix i assume "i \<in> set (sv_submits sv')"
    then show "\<exists>s. map_of (sv_settlements sv') i = Some s \<and> se_status s = SPending \<and> se_txId s = None"
      using inv(6) [of i] fresh by (auto simp: sv'_def s_def)
  qed (use inv(3,4) in \<open>simp_all add: sv'_def\<close>)
  moreover have "snd (initiate_start p now sv) = sv \<or> snd (initiate_start p now sv) = sv'"
    by (simp add: initiate_start_def sv'_def s_def Let_def put_settlement_def emit_settlement_def split: sum.split option.split)
  ultimately show ?thesis using assms by metis
qed

lemma poll_start_inv:
  assumes "service_inv sv" "calm_step sv (PollStep n i)"
  shows "service_inv (snd (poll_start n i sv))"
proof -
  have "service_inv (sv\<lparr>sv_polls := (n, i) # sv_polls sv\<rparr>)"
    if "map_of (sv_settlements sv) i = Some s" "\<not> terminal s" "se_txId s \<noteq> None" for s
    using assms that unfolding service_inv_def by simp
  then show ?thesis using assms(1)
    by (auto simp: poll_start_def split: option.split)
qed

lemma service_inv_submits:
  "service_inv sv \<Longrightarrow> set subs \<subseteq> set (sv_submits sv) \<Longrightarrow> service_inv (sv\<lparr>sv_submits := subs\<rparr>)"
  unfolding service_inv_def by (simp, blast)

lemma service_inv_polls:
  "service_inv sv \<Longrightarrow> service_inv (sv\<lparr>sv_polls := AList.delete n (sv_polls sv)\<rparr>)"
  unfolding service_inv_def by (auto simp: AList.delete_eq distinct_map_filter)

lemma step_inv:
  assumes "service_inv sv" "calm_step sv st"
  shows "service_inv (service_advance sv st)"
proof (cases st)
  case (RegisterStep c a)
  then show ?thesis using assms(1) by (simp add: registerChain_def service_inv_def)
next
  case (InitiateStep p now)
  then show ?thesis using initiate_inv [OF assms(1)] by simp
next
  case (SubmitReply i reply now)
  then show ?thesis
  proof (cases "i \<in> set (sv_submits sv)")
    case True
    from submit_finishes [OF assms(1) True, of reply now] obtain s' s0 where
      eq: "snd (initiate_finish i reply now sv) = finish_with s' (sv\<lparr>sv_submits := removeAll i (sv_submits sv)\<rparr>)"
      and s: "se_id s' = i" "map_of (sv_settlements sv) i = Some s0" "se_status s0 = SPending" "se_txId s0 = None" by blast
    have "i \<notin> snd ` set (sv_polls sv)" using service_invD(5) [OF assms(1)] s by force
    then show ?thesis using s SubmitReply eq
      by (simp add: finish_with_inv [of _ s' s0] service_inv_submits [OF assms(1)] terminal_def subset_iff)
  qed (use assms SubmitReply in \<open>simp add: initiate_finish_def\<close>)
next
  case (PollStep n i)
  then show ?thesis using poll_start_inv assms by simp
next
  case (PollReply n reply now)
  then show ?thesis
  proof (cases "map_of (sv_polls sv) n")
    case (Some i)
    from poll_finishes [OF assms(1) Some, of reply now] obtain s' s0 where
      eq: "snd (poll_finish n reply now sv) = finish_with s' (sv\<lparr>sv_polls := AList.delete n (sv_polls sv)\<rparr>)"
      and s: "se_id s' = i" "map_of (sv_settlements sv) i = Some s0" "\<not> terminal s0" "se_txId s0 \<noteq> None" by blast
    have "i \<notin> set (sv_submits sv)" using service_invD(6) [OF assms(1)] s by force
    moreover have "i \<notin> snd ` set (AList.delete n (sv_polls sv))"
    proof
      assume "i \<in> snd ` set (AList.delete n (sv_polls sv))"
      then obtain a where a: "(a, i) \<in> set (sv_polls sv)" "a \<noteq> n" by (auto simp: AList.delete_eq)
      have "inj_on snd (set (sv_polls sv))" using service_invD(3) [OF assms(1)] by (simp add: distinct_map)
      from inj_onD [OF this _ a(1) map_of_SomeD [OF Some]] a(2) show False by simp
    qed
    ultimately show ?thesis using s PollReply eq
      by (simp add: finish_with_inv [of _ s' s0] service_inv_polls [OF assms(1)])
  qed (use assms PollReply in \<open>simp add: poll_finish_def\<close>)
qed

section \<open>Completion\<close>

lemma calm_inv: "calm sv sv' \<Longrightarrow> service_inv sv \<Longrightarrow> service_inv sv'"
  by (induction rule: calm.induct) (simp_all add: step_inv)

lemma step_keeps_terminal:
  assumes "service_inv sv" "map_of (sv_settlements sv) i = Some s" "terminal s"
  shows "map_of (sv_settlements (service_advance sv st)) i = Some s"
proof (cases st)
  case (RegisterStep c a)
  then show ?thesis using assms by (simp add: registerChain_def)
next
  case (InitiateStep p now)
  have "generateSettlementId now (Suc (sv_counter sv)) \<noteq> i" using fresh_id [OF assms(1), of now] assms(2) by auto
  then show ?thesis using InitiateStep assms(2)
    by (simp add: initiate_start_def Let_def put_settlement_def emit_settlement_def split: sum.split option.split)
next
  case (SubmitReply j reply now)
  show ?thesis
  proof (cases "j \<in> set (sv_submits sv)")
    case True
    then show ?thesis using submit_finishes [OF assms(1) True, of reply now] assms SubmitReply
      by (auto simp: terminal_def)
  qed (use assms SubmitReply in \<open>simp add: initiate_finish_def\<close>)
next
  case (PollStep n j)
  then show ?thesis using assms by (auto simp: poll_start_def split: option.split)
next
  case (PollReply n reply now)
  show ?thesis
  proof (cases "map_of (sv_polls sv) n")
    case (Some j)
    then show ?thesis using poll_finishes [OF assms(1) Some, of reply now] assms PollReply by auto
  qed (use assms PollReply in \<open>simp add: poll_finish_def\<close>)
qed

text \<open>
  C11: As long as the status queries of a settlement do not overlap, a settlement completes at most once:
  its events hold one completion, carrying the record as it is stored, exactly if its status is
  confirmed or failed; and from then on no step of any call changes the record.
\<close>
theorem settlement_completes_once:
  assumes "calm service_new sv" "calm sv sv'"
  shows "filter (completes i) (sv_events sv) = completion_of (map_of (sv_settlements sv) i)
    \<and> (\<forall>s. map_of (sv_settlements sv) i = Some s \<and> terminal s \<longrightarrow> map_of (sv_settlements sv') i = Some s)"
proof -
  have inv: "service_inv sv" using calm_inv [OF assms(1) service_new_inv] .
  have "map_of (sv_settlements sv') i = Some s" if "map_of (sv_settlements sv) i = Some s" "terminal s" for s
    using assms(2) inv that
  proof (induction rule: calm.induct)
    case (step sv sv' st)
    then show ?case using step_keeps_terminal [of sv' i s st] calm_inv [of sv sv'] by simp
  qed
  with service_invD(2) [OF inv] show ?thesis by blast
qed

section \<open>Examples\<close>

definition sample_transfer :: settlement_params where
  "sample_transfer = \<lparr>sp_sourceChain = ''stellar'', sp_targetChain = ''eth'', sp_amount = 5, sp_recipient = ''0x1'', sp_token = ''USDC''\<rparr>"

definition sample_id :: string where
  "sample_id = generateSettlementId 36 1"

definition sample_steps :: "service_step list" where
  "sample_steps = [RegisterStep ''eth'' 0, InitiateStep sample_transfer 36, SubmitReply sample_id (Inr (''tx1'', SSubmitted)) 40,
                   PollStep 1 sample_id]"

definition status_of :: "string \<Rightarrow> service \<Rightarrow> settlement_status option" where
  "status_of i sv = map_option se_status (map_of (sv_settlements sv) i)"

lemma calm_run:
  "(\<forall>k < length sts. calm_step (foldl service_advance sv (take k sts)) (sts ! k)) \<Longrightarrow> calm sv (foldl service_advance sv sts)"
proof (induction sts rule: rev_induct)
  case (snoc st sts)
  have "calm_step (foldl service_advance sv (take k sts)) (sts ! k)" if "k < length sts" for k
    using snoc.prems [rule_format, of k] that by (simp add: nth_append)
  moreover have "calm_step (foldl service_advance sv sts) st" using snoc.prems [rule_format, of "length sts"] by simp
  ultimately show ?case using snoc.IH by (simp add: calm.step)
qed (simp add: calm.start)

lemma sample_calm: "calm service_new (foldl service_advance service_new (sample_steps @ [PollReply 1 (Some (SConfirmed, None)) 50]))"
  "status_of sample_id (foldl service_advance service_new (sample_steps @ [PollReply 1 (Some (SConfirmed, None)) 50])) = Some SConfirmed"
proof -
  have "list_all (\<lambda>k. calm_step (foldl service_advance service_new (take k (sample_steps @ [PollReply 1 (Some (SConfirmed, None)) 50])))
      ((sample_steps @ [PollReply 1 (Some (SConfirmed, None)) 50]) ! k)) [0..<5]"
    by code_simp
  then show "calm service_new (foldl service_advance service_new (sample_steps @ [PollReply 1 (Some (SConfirmed, None)) 50]))"
    by (intro calm_run) (simp add: list_all_iff sample_steps_def del: foldl.simps)
  show "status_of sample_id (foldl service_advance service_new (sample_steps @ [PollReply 1 (Some (SConfirmed, None)) 50])) = Some SConfirmed"
    by code_simp
qed

lemma settlement_completes_once_witness:
  "\<exists>s. filter (completes sample_id) (sv_events (foldl service_advance service_new (sample_steps @ [PollReply 1 (Some (SConfirmed, None)) 50])))
     = [ConfirmedEv s] \<and> se_status s = SConfirmed"
  using settlement_completes_once [OF sample_calm(1) calm.start, of sample_id] sample_calm(2)
  by (auto simp: status_of_def completion_of_def)

text \<open>
  Two overlapping queries: the first finds the settlement confirmed, the late answer of the second puts
  it back to submitted, and the next query announces the confirmation again.
\<close>
lemma overlapping_queries_lose_confirmation:
  "map (status_of sample_id) [foldl service_advance service_new (sample_steps @ [PollStep 2 sample_id, PollReply 1 (Some (SConfirmed, None)) 50]),
      foldl service_advance service_new (sample_steps @ [PollStep 2 sample_id, PollReply 1 (Some (SConfirmed, None)) 50,
        PollReply 2 (Some (SSubmitted, None)) 51])] = [Some SConfirmed, Some SSubmitted]
   \<and> length (filter (completes sample_id) (sv_events (foldl service_advance service_new (sample_steps @ [PollStep 2 sample_id,
        PollReply 1 (Some (SConfirmed, None)) 50, PollReply 2 (Some (SSubmitted, None)) 51, PollStep 3 sample_id,
        PollReply 3 (Some (SConfirmed, None)) 60])))) = 2"
  by code_simp

text \<open>An adapter that reports a failed submission leaves the settlement submitted, without an event.\<close>

lemma failed_submission_is_submitted:
  "status_of sample_id (foldl service_advance service_new [RegisterStep ''eth'' 0, InitiateStep sample_transfer 36,
     SubmitReply sample_id (Inr (''tx1'', SFailed)) 40]) = Some SSubmitted"
  by code_simp

end
