(* ===== verification/Settlement_Plan.thy ===== *)
theory Settlement_Plan
  imports Amounts
begin

text \<open>
  Planning and checking settlements: \<open>paymentSettlementOptimizer.ts\<close> (batches per recipient),
  \<open>batchPaymentOptimizer.ts\<close> and \<open>batchOptimizationEnhancements.ts\<close> (merging operations) and
  \<open>reconciliationEngine.ts\<close> (the ledger against what Horizon reports). A \<open>Map\<close> from keys to groups is an
  association list in insertion order. Callbacks do not change the list of callbacks while it is walked.
\<close>

section \<open>Grouping and merging by a key\<close>

definition push_group :: "('a \<Rightarrow> 'k) \<Rightarrow> ('k \<times> 'a list) list \<Rightarrow> 'a \<Rightarrow> ('k \<times> 'a list) list" where
  "push_group key m x =
     (case map_of m (key x) of
        Some xs \<Rightarrow> AList.update (key x) (xs @ [x]) m
      | None \<Rightarrow> AList.update (key x) [x] m)"

definition group_by :: "('a \<Rightarrow> 'k) \<Rightarrow> 'a list \<Rightarrow> ('k \<times> 'a list) list" where
  "group_by key xs = foldl (push_group key) [] xs"

definition merge_into :: "('a \<Rightarrow> 'k) \<Rightarrow> ('a \<Rightarrow> 'a \<Rightarrow> 'a) \<Rightarrow> ('k \<times> 'a) list \<Rightarrow> 'a \<Rightarrow> ('k \<times> 'a) list" where
  "merge_into key combine m x =
     (case map_of m (key x) of
        Some y \<Rightarrow> AList.update (key x) (combine y x) m
      | None \<Rightarrow> AList.update (key x) x m)"

definition merge_by :: "('a \<Rightarrow> 'k) \<Rightarrow> ('a \<Rightarrow> 'a \<Rightarrow> 'a) \<Rightarrow> 'a list \<Rightarrow> ('k \<times> 'a) list" where
  "merge_by key combine xs = foldl (merge_into key combine) [] xs"

section \<open>The settlement optimizer\<close>

datatype optimization_strategy = MinimizeFees | MaximizeThroughput | Balanced

record pending_payment =
  pp_id :: string
  pp_from :: string
  pp_to :: string
  pp_amount :: int
  pp_priority :: "int option"
  pp_maxFeeStroops :: "int option"

record settlement_batch =
  sb_batchId :: string
  sb_payments :: "pending_payment list"
  sb_totalAmount :: int
  sb_estimatedFeeStroops :: int
  sb_recipients :: "string list"

record settlement_plan =
  sp_batches :: "settlement_batch list"
  sp_totalPayments :: int
  sp_totalAmount :: int
  sp_totalEstimatedFeeStroops :: int
  sp_operationsSaved :: int
  sp_strategy :: optimization_strategy

definition estimateBatchFee :: "int \<Rightarrow> int" where
  "estimateBatchFee operationCount =
     (if operationCount \<le> 0 then 0 else 100 + max 0 (operationCount - 1) * 50)"

text \<open>\<open>a > b ? -1 : a < b ? 1 : 0\<close>\<close>

definition descending :: "int \<Rightarrow> int \<Rightarrow> rat" where
  "descending a b = (if a > b then - 1 else if a < b then 1 else 0)"

definition settle_cmp :: "pending_payment \<Rightarrow> pending_payment \<Rightarrow> rat" where
  "settle_cmp a b =
     (let pa = opt_or (pp_priority a) 0; pb = opt_or (pp_priority b) 0
      in if pb \<noteq> pa then of_int (pb - pa) else descending (pp_amount a) (pp_amount b))"

definition reorderForOptimalSettlement :: "pending_payment list \<Rightarrow> pending_payment list" where
  "reorderForOptimalSettlement payments = js_sort settle_cmp payments"

text \<open>\<open>nextBatchId\<close> with the module's counter.\<close>

definition nextSettlementBatchId :: "nat \<Rightarrow> nat \<times> string" where
  "nextSettlementBatchId counter = (counter + 1, ''batch-'' @ show_nat (counter + 1))"

definition settlement_batch_of :: "string \<Rightarrow> string \<times> pending_payment list \<Rightarrow> settlement_batch" where
  "settlement_batch_of bid g =
     (let sorted = reorderForOptimalSettlement (snd g)
      in \<lparr>sb_batchId = bid, sb_payments = sorted, sb_totalAmount = foldl (\<lambda>s p. s + pp_amount p) 0 sorted,
          sb_estimatedFeeStroops = estimateBatchFee (int (length sorted)), sb_recipients = [fst g]\<rparr>)"

fun raw_batches :: "nat \<Rightarrow> (string \<times> pending_payment list) list \<Rightarrow> nat \<times> settlement_batch list" where
  "raw_batches counter [] = (counter, [])"
| "raw_batches counter (g # gs) =
     (let (c, bid) = nextSettlementBatchId counter; (c', bs) = raw_batches c gs
      in (c', settlement_batch_of bid g # bs))"

definition strategy_cmp :: "optimization_strategy \<Rightarrow> settlement_batch \<Rightarrow> settlement_batch \<Rightarrow> rat" where
  "strategy_cmp s a b =
     (case s of
        MinimizeFees \<Rightarrow> of_int (sb_estimatedFeeStroops a - sb_estimatedFeeStroops b)
      | MaximizeThroughput \<Rightarrow> of_int (int (length (sb_payments b)) - int (length (sb_payments a)))
      | Balanced \<Rightarrow> descending (sb_totalAmount a) (sb_totalAmount b))"

definition applyStrategy :: "settlement_batch list \<Rightarrow> optimization_strategy \<Rightarrow> settlement_batch list" where
  "applyStrategy batches s = js_sort (strategy_cmp s) batches"

definition plan_of :: "settlement_batch list \<Rightarrow> optimization_strategy \<Rightarrow> settlement_plan" where
  "plan_of batches s =
     (let payments = foldl (\<lambda>s b. s + int (length (sb_payments b))) 0 batches
      in \<lparr>sp_batches = batches, sp_totalPayments = payments,
          sp_totalAmount = foldl (\<lambda>s b. s + sb_totalAmount b) 0 batches,
          sp_totalEstimatedFeeStroops = foldl (\<lambda>s b. s + sb_estimatedFeeStroops b) 0 batches,
          sp_operationsSaved = payments - int (length batches), sp_strategy = s\<rparr>)"

definition optimize_settlement ::
  "nat \<Rightarrow> pending_payment list \<Rightarrow> optimization_strategy option \<Rightarrow> nat \<times> settlement_plan" where
  "optimize_settlement counter payments strategy =
     (let s = opt_or strategy Balanced
      in if payments = []
         then (counter, \<lparr>sp_batches = [], sp_totalPayments = 0, sp_totalAmount = 0, sp_totalEstimatedFeeStroops = 0,
                         sp_operationsSaved = 0, sp_strategy = s\<rparr>)
         else let (counter', raw) = raw_batches counter (group_by pp_to payments)
              in (counter', plan_of (applyStrategy raw s) s))"

text \<open>The registered callbacks, and the calls a plan makes.\<close>

definition onSettlementReady :: "'c \<Rightarrow> 'c list \<Rightarrow> 'c list" where
  "onSettlementReady cb cbs = cbs @ [cb]"

definition unsubscribeSettlement :: "'c \<Rightarrow> 'c list \<Rightarrow> 'c list" where
  "unsubscribeSettlement cb cbs = remove1 cb cbs"

definition emit_plan :: "'c list \<Rightarrow> settlement_plan \<Rightarrow> ('c \<times> settlement_plan) list" where
  "emit_plan cbs plan = map (\<lambda>cb. (cb, plan)) cbs"

section \<open>Merging operations\<close>

record payment_operation =
  op_id :: string
  op_source :: string
  op_destination :: string
  op_amount :: int
  op_currency :: string

record optimized_batch =
  ob_operations :: "payment_operation list"
  ob_totalAmount :: int
  ob_currency :: string
  ob_savings :: int

datatype optimizer_event = OptStart nat | OptProgress nat nat | OptComplete "optimized_batch list" nat nat

definition operation_key :: "payment_operation \<Rightarrow> string" where
  "operation_key p = op_source p @ ''|'' @ op_destination p @ ''|'' @ op_currency p"

definition add_operation :: "payment_operation \<Rightarrow> payment_operation \<Rightarrow> payment_operation" where
  "add_operation e p = e\<lparr>op_amount := op_amount e + op_amount p\<rparr>"

definition mergeOperations :: "payment_operation list \<Rightarrow> payment_operation list \<times> optimizer_event list" where
  "mergeOperations ops =
     (map snd (merge_by operation_key add_operation ops), map (\<lambda>i. OptProgress (i + 1) (length ops)) [0..<length ops])"

definition groupIntoBatches :: "int \<Rightarrow> payment_operation list \<Rightarrow> optimized_batch list" where
  "groupIntoBatches minBatchSize ops =
     concat (map (\<lambda>(currency, g).
       if int (length g) < minBatchSize then []
       else [\<lparr>ob_operations = g, ob_totalAmount = foldl (\<lambda>s p. s + op_amount p) 0 g, ob_currency = currency,
              ob_savings = (if length g > 1 then int (length g) - 1 else 0)\<rparr>]) (group_by op_currency ops))"

definition optimize_operations ::
  "int option \<Rightarrow> bool option \<Rightarrow> payment_operation list \<Rightarrow> optimized_batch list \<times> optimizer_event list" where
  "optimize_operations minBatchSize mergeDuplicates ops =
     (let (merged, progress) = (if opt_or mergeDuplicates True then mergeOperations ops else (ops, []));
          batches = groupIntoBatches (opt_or minBatchSize 1) merged
      in (batches, OptStart (length ops) # progress @
           [OptComplete batches (length ops) (foldl (\<lambda>s b. s + length (ob_operations b)) 0 batches)]))"

section \<open>Batch enhancements\<close>

record batch_op =
  bo_id :: string
  bo_destination :: string
  bo_amount :: int
  bo_currency :: string
  bo_source :: "string option"
  bo_metadata :: "(string \<times> string) list option"

datatype op_status = Fulfilled nat | Rejected string

record op_result =
  or_id :: string
  or_status :: op_status
  or_durationMs :: int

definition groupByRecipient :: "batch_op list \<Rightarrow> (string \<times> batch_op list) list" where
  "groupByRecipient ops = group_by bo_destination ops"

definition batch_op_key :: "batch_op \<Rightarrow> string" where
  "batch_op_key p = bo_destination p @ '':'' @ bo_currency p @ '':'' @ opt_or (bo_source p) []"

text \<open>\<open>{ ...existing.metadata, ...op.metadata }\<close>\<close>

definition spread_metadata :: "(string \<times> string) list option \<Rightarrow> (string \<times> string) list option \<Rightarrow> (string \<times> string) list" where
  "spread_metadata a b = foldl (\<lambda>m (k, v). AList.update k v m) (opt_or a []) (opt_or b [])"

definition add_batch_op :: "batch_op \<Rightarrow> batch_op \<Rightarrow> batch_op" where
  "add_batch_op e p =
     e\<lparr>bo_amount := bo_amount e + bo_amount p, bo_metadata := Some (spread_metadata (bo_metadata e) (bo_metadata p))\<rparr>"

definition deduplicateOps :: "batch_op list \<Rightarrow> batch_op list" where
  "deduplicateOps ops = map snd (merge_by batch_op_key add_batch_op ops)"

definition prioritizeOps :: "batch_op list \<Rightarrow> bool \<Rightarrow> batch_op list" where
  "prioritizeOps ops desc =
     js_sort (\<lambda>a b. of_int (if desc then bo_amount b - bo_amount a else bo_amount a - bo_amount b)) ops"

text \<open>
  \<open>executeInParallel\<close>: chunks of \<open>concurrency\<close> operations (at least one; with none the loop does not end). What
  the executor answers and how long it takes is the argument \<open>executor\<close>.
\<close>

definition op_outcome :: "(batch_op \<Rightarrow> op_status \<times> int) \<Rightarrow> batch_op \<Rightarrow> op_result" where
  "op_outcome executor p =
     (case executor p of
        (Fulfilled v, ms) \<Rightarrow> \<lparr>or_id = bo_id p, or_status = Fulfilled v, or_durationMs = ms\<rparr>
      | (Rejected e, ms) \<Rightarrow> \<lparr>or_id = bo_id p, or_status = Rejected e, or_durationMs = 0\<rparr>)"

function execute_from :: "(batch_op \<Rightarrow> op_status \<times> int) \<Rightarrow> nat \<Rightarrow> batch_op list \<Rightarrow> nat \<Rightarrow> op_result list" where
  "execute_from executor concurrency ops i =
     (if i < length ops \<and> 0 < concurrency
      then map (op_outcome executor) (take concurrency (drop i ops)) @ execute_from executor concurrency ops (i + concurrency)
      else [])"
  by auto
termination by (relation "measure (\<lambda>(e, c, ops, i). length ops - i)") auto

declare execute_from.simps [simp del]

definition executeInParallel :: "(batch_op \<Rightarrow> op_status \<times> int) \<Rightarrow> nat option \<Rightarrow> batch_op list \<Rightarrow> op_result list" where
  "executeInParallel executor concurrency ops = execute_from executor (opt_or concurrency 10) ops 0"

definition optimize_batch_ops :: "(batch_op \<Rightarrow> op_status \<times> int) \<Rightarrow> nat option \<Rightarrow> bool option \<Rightarrow> batch_op list \<Rightarrow> op_result list" where
  "optimize_batch_ops executor concurrency descOrder ops =
     executeInParallel executor concurrency (prioritizeOps (deduplicateOps ops) (opt_or descOrder True))"

section \<open>Reconciliation\<close>

record ledger_payment =
  lp_payer :: string
  lp_amount :: int
  lp_timestamp :: "int option"

datatype severity = Info | Warning | Critical

record recon_finding =
  rf_expectedDelta :: int
  rf_actualDelta :: int
  rf_discrepancy :: int
  rf_severity :: severity
  rf_unmatched :: bool

record recon_report =
  rr_findings :: "recon_finding list"
  rr_isBalanced :: bool

record horizon_record =
  hr_type :: string
  hr_from :: string
  hr_asset_type :: string
  hr_asset_code :: "string option"
  hr_created_at :: int
  hr_amount :: string

record recon_engine =
  re_payments :: "ledger_payment list"
  re_feeToleranceStroops :: int
  re_warningThresholdStroops :: int

definition recon_new :: "ledger_payment list \<Rightarrow> int option \<Rightarrow> int option \<Rightarrow> recon_engine" where
  "recon_new payments tol warn =
     \<lparr>re_payments = payments, re_feeToleranceStroops = opt_or tol 100,
      re_warningThresholdStroops = opt_or warn (opt_or tol 100 * 10)\<rparr>"

definition withinRange :: "int option \<Rightarrow> int \<times> int \<Rightarrow> bool" where
  "withinRange ts rng = (case ts of None \<Rightarrow> False | Some t \<Rightarrow> fst rng \<le> t \<and> t \<le> snd rng)"

definition classify :: "recon_engine \<Rightarrow> int \<Rightarrow> severity" where
  "classify e discrepancy =
     (let a = (if discrepancy < 0 then - discrepancy else discrepancy)
      in if a = 0 \<or> a \<le> re_feeToleranceStroops e then Info
         else if a \<le> re_warningThresholdStroops e then Warning else Critical)"

definition consumeMatch :: "int list \<Rightarrow> int \<Rightarrow> int list \<times> int" where
  "consumeMatch pool amount = (if amount \<in> set pool then (remove1 amount pool, amount) else (pool, 0))"

definition matchesAsset :: "horizon_record \<Rightarrow> string \<Rightarrow> bool" where
  "matchesAsset r assetCode =
     (if assetCode = ''native'' then hr_asset_type r = ''native''
      else hr_asset_type r \<noteq> ''native'' \<and> hr_asset_code r = Some assetCode)"

text \<open>\<open>None\<close>: \<open>BigInt\<close> throws.\<close>

definition xlmStringToStroops :: "string \<Rightarrow> int option" where
  "xlmStringToStroops v =
     (let parts = split_at (CHR ''.'') v; fpart = (case tl parts of [] \<Rightarrow> [] | f # fs \<Rightarrow> f)
      in case (big_int_of (hd parts), big_int_of (seven_digits fpart)) of
           (Some w, Some f) \<Rightarrow> Some (w * 10000000 + f)
         | _ \<Rightarrow> None)"

text \<open>\<open>Array.map\<close> with a function that may throw.\<close>

fun map_throwing :: "('a \<Rightarrow> 'b option) \<Rightarrow> 'a list \<Rightarrow> 'b list option" where
  "map_throwing f [] = Some []"
| "map_throwing f (x # xs) =
     (case f x of None \<Rightarrow> None | Some y \<Rightarrow> (case map_throwing f xs of None \<Rightarrow> None | Some ys \<Rightarrow> Some (y # ys)))"

definition fetchActualOutgoingAmounts ::
  "horizon_record list \<Rightarrow> string \<Rightarrow> string \<Rightarrow> int \<times> int \<Rightarrow> int list option" where
  "fetchActualOutgoingAmounts page accountId assetCode rng =
     map_throwing (\<lambda>r. xlmStringToStroops (hr_amount r))
       (filter (\<lambda>r. withinRange (Some (hr_created_at r)) rng)
         (filter (\<lambda>r. matchesAsset r assetCode)
           (filter (\<lambda>r. hr_from r = accountId) (filter (\<lambda>r. hr_type r = ''payment'') page))))"

fun match_payments :: "recon_engine \<Rightarrow> int list \<Rightarrow> ledger_payment list \<Rightarrow> recon_finding list" where
  "match_payments e pool [] = []"
| "match_payments e pool (p # ps) =
     (let (pool', matched) = consumeMatch pool (lp_amount p); discrepancy = lp_amount p - matched
      in \<lparr>rf_expectedDelta = lp_amount p, rf_actualDelta = matched, rf_discrepancy = discrepancy,
          rf_severity = classify e discrepancy, rf_unmatched = (matched = 0)\<rparr> # match_payments e pool' ps)"

definition expected_payments :: "recon_engine \<Rightarrow> string \<Rightarrow> int \<times> int \<Rightarrow> ledger_payment list" where
  "expected_payments e accountId rng =
     filter (\<lambda>p. lp_payer p = accountId \<and> withinRange (lp_timestamp p) rng) (re_payments e)"

text \<open>\<open>page\<close> is the page of at most 200 records Horizon returned; \<open>None\<close>: an amount cannot be parsed.\<close>

definition reconcile ::
  "recon_engine \<Rightarrow> horizon_record list \<Rightarrow> string \<Rightarrow> string \<Rightarrow> int \<times> int \<Rightarrow> recon_report option" where
  "reconcile e page accountId assetCode rng =
     (case fetchActualOutgoingAmounts page accountId assetCode rng of
        None \<Rightarrow> None
      | Some actual \<Rightarrow>
          let findings = match_payments e actual (expected_payments e accountId rng)
          in Some \<lparr>rr_findings = findings, rr_isBalanced = list_all (\<lambda>f. rf_discrepancy f = 0) findings\<rparr>)"


section \<open>Facts about groups\<close>

lemma group_by_snoc: "group_by key (xs @ [x]) = push_group key (group_by key xs) x"
  by (simp add: group_by_def)

lemma group_by_lookup:
  "map_of (group_by key xs) k = (if k \<in> key ` set xs then Some (filter (\<lambda>x. key x = k) xs) else None)"
proof (induction xs arbitrary: k rule: rev_induct)
  case Nil
  then show ?case by (simp add: group_by_def)
next
  case (snoc x xs)
  show ?case
    by (cases "key x \<in> key ` set xs"; cases "k = key x")
      (auto simp: group_by_snoc push_group_def snoc.IH filter_empty_conv image_iff split: option.splits)
qed

lemma group_by_distinct: "distinct (map fst (group_by key xs))"
  by (induction xs rule: rev_induct)
    (auto simp: group_by_def push_group_def distinct_fst_update split: option.splits)

lemma group_by_keys: "fst ` set (group_by key xs) = key ` set xs"
  by (induction xs rule: rev_induct) (auto simp: group_by_def push_group_def split: option.splits)

lemma group_by_member:
  assumes "(k, g) \<in> set (group_by key xs)" shows "g = filter (\<lambda>x. key x = k) xs \<and> k \<in> key ` set xs \<and> g \<noteq> []"
proof -
  have "map_of (group_by key xs) k = Some g" using assms by (intro map_of_is_SomeI group_by_distinct)
  then show ?thesis by (auto simp: group_by_lookup filter_empty_conv split: if_splits)
qed

lemma mset_push_group:
  fixes m :: "('k \<times> 'a list) list"
  assumes "distinct (map fst m)"
  shows "mset (concat (map snd (push_group key m x))) = add_mset x (mset (concat (map snd m)))"
proof -
  have upd: "mset (concat (map snd (AList.update k (ys @ [x]) m))) = add_mset x (mset (concat (map snd m)))"
    if "map_of m k = Some ys" "distinct (map fst m)" for k ys and m :: "('k \<times> 'a list) list"
    using that by (induction m) (auto split: if_splits)
  have new: "AList.update k v m = m @ [(k, v)]" if "map_of m k = None" for k v and m :: "('k \<times> 'a list) list"
    using that by (induction m) (auto split: if_splits)
  show ?thesis using upd assms new by (auto simp: push_group_def split: option.splits)
qed

lemma mset_group_by: "mset (concat (map snd (group_by key xs))) = mset xs"
proof (induction xs rule: rev_induct)
  case Nil
  then show ?case by (simp add: group_by_def)
next
  case (snoc x xs)
  then show ?case by (simp add: group_by_snoc mset_push_group group_by_distinct)
qed

lemma length_group_by: "length (group_by key xs) = card (key ` set xs)"
  using distinct_card [OF group_by_distinct [of key xs]] group_by_keys [of key xs] by simp

lemma merge_by_snoc: "merge_by key combine (xs @ [x]) = merge_into key combine (merge_by key combine xs) x"
  by (simp add: merge_by_def)

lemma merge_by_distinct: "distinct (map fst (merge_by key combine xs))"
  by (induction xs rule: rev_induct)
    (auto simp: merge_by_def merge_into_def distinct_fst_update split: option.splits)

lemma merge_by_keys: "fst ` set (merge_by key combine xs) = key ` set xs"
  by (induction xs rule: rev_induct) (auto simp: merge_by_def merge_into_def split: option.splits)

text \<open>The value kept under a key is the sum of those merged into it, when \<open>combine\<close> adds values and keeps the key.\<close>

lemma merge_by_value:
  fixes v :: "'a \<Rightarrow> int"
  assumes "\<And>x y. v (combine x y) = v x + v y" "\<And>x y. key (combine x y) = key x"
  shows "(k, y) \<in> set (merge_by key combine xs) \<Longrightarrow>
    key y = k \<and> v y = sum_list (map v (filter (\<lambda>x. key x = k) xs))"
proof (induction xs arbitrary: k y rule: rev_induct)
  case (snoc x xs)
  have look: "map_of (merge_by key combine xs) k' = Some z \<Longrightarrow> (k', z) \<in> set (merge_by key combine xs)" for k' z
    by (rule map_of_SomeD)
  have none: "filter (\<lambda>z. key z = k') xs = []" if "map_of (merge_by key combine xs) k' = None" for k'
    using that merge_by_keys [of key combine xs] by (auto simp: map_of_eq_None_iff filter_empty_conv)
  have dist: "distinct (map fst (merge_by key combine (xs @ [x])))" by (rule merge_by_distinct)
  have "map_of (merge_by key combine (xs @ [x])) k = Some y" using snoc.prems dist by simp
  then show ?case
    using snoc.IH look none assms
    by (cases "map_of (merge_by key combine xs) (key x)"; cases "k = key x")
      (auto simp: merge_by_snoc merge_into_def)
qed (simp add: merge_by_def)

section \<open>A plan holds every payment once\<close>

lemma fst_raw_batches: "fst (raw_batches c gs) = c + length gs"
  by (induction gs arbitrary: c) (simp_all add: nextSettlementBatchId_def case_prod_unfold Let_def)

lemma raw_batches_list:
  "snd (raw_batches c gs) = map (\<lambda>(i, g). settlement_batch_of (''batch-'' @ show_nat (c + i + 1)) g) (enumerate 0 gs)"
proof (induction gs arbitrary: c)
  case (Cons g gs)
  have "enumerate 1 gs = map (\<lambda>(i, g). (Suc i, g)) (enumerate 0 gs)"
    by (rule nth_equalityI) (auto simp: nth_enumerate_eq)
  then show ?case using Cons.IH [of "Suc c"]
    by (auto simp: nextSettlementBatchId_def split: prod.splits)
qed simp

lemma batch_fields:
  "sb_recipients (settlement_batch_of b g) = [fst g]" "mset (sb_payments (settlement_batch_of b g)) = mset (snd g)"
  "sb_totalAmount (settlement_batch_of b g) = sum_list (map pp_amount (snd g))"
  "length (sb_payments (settlement_batch_of b g)) = length (snd g)" "sb_batchId (settlement_batch_of b g) = b"
  by (simp_all add: settlement_batch_of_def reorderForOptimalSettlement_def Let_def foldl_sum sum_list_map_js_sort)

interpretation settle_order: comparator settle_cmp
  by unfold_locales (auto simp: settle_cmp_def descending_def Let_def split: if_splits)

interpretation strategy_order: comparator "strategy_cmp s" for s
  by unfold_locales (cases s; auto simp: strategy_cmp_def descending_def split: if_splits)+


definition raw_plan :: "nat \<Rightarrow> pending_payment list \<Rightarrow> settlement_batch list" where
  "raw_plan c payments =
     map (\<lambda>(i, g). settlement_batch_of (''batch-'' @ show_nat (c + i + 1)) g) (enumerate 0 (group_by pp_to payments))"

lemma map_enumerated: "(\<And>i g. f (h i g) = k g) \<Longrightarrow> map f (map (\<lambda>(i, g). h i g) (enumerate n xs)) = map k xs"
  by (rule nth_equalityI) (auto simp: nth_enumerate_eq)

lemma map_raw_plan:
  assumes "\<And>b g. f (settlement_batch_of b g) = k g"
  shows "map f (raw_plan c payments) = map k (group_by pp_to payments)"
  unfolding raw_plan_def by (rule map_enumerated) (rule assms)

lemma plan_is_raw:
  "payments \<noteq> [] \<Longrightarrow> snd (optimize_settlement c payments strategy) =
    plan_of (applyStrategy (raw_plan c payments) (opt_or strategy Balanced)) (opt_or strategy Balanced)"
  using raw_batches_list [of c "group_by pp_to payments"]
  by (simp add: optimize_settlement_def raw_plan_def Let_def case_prod_unfold)

lemma raw_plan_ids: "distinct (map sb_batchId (raw_plan c payments))"
  unfolding raw_plan_def
  by (auto simp: distinct_conv_nth nth_enumerate_eq batch_fields(5) show_nat_inj case_prod_unfold)

lemma raw_plan_member:
  assumes "b \<in> set (raw_plan c payments)"
  shows "\<exists>r. sb_recipients b = [r] \<and> r \<in> pp_to ` set payments \<and>
    mset (sb_payments b) = mset (filter (\<lambda>p. pp_to p = r) payments)"
proof -
  have "(sb_recipients b, mset (sb_payments b)) \<in>
      set (map (\<lambda>b. (sb_recipients b, mset (sb_payments b))) (raw_plan c payments))" using assms by simp
  also have "map (\<lambda>b. (sb_recipients b, mset (sb_payments b))) (raw_plan c payments) =
      map (\<lambda>g. ([fst g], mset (snd g))) (group_by pp_to payments)"
    by (rule map_raw_plan) (simp add: batch_fields)
  finally obtain g where g: "g \<in> set (group_by pp_to payments)" "sb_recipients b = [fst g]" "mset (sb_payments b) = mset (snd g)"
    by auto
  then show ?thesis using group_by_member [of "fst g" "snd g" pp_to payments] by auto
qed

lemma raw_plan_payments: "mset (concat (map sb_payments (raw_plan c payments))) = mset payments"
proof -
  have "map (\<lambda>b. mset (sb_payments b)) (raw_plan c payments) = map (\<lambda>g. mset (snd g)) (group_by pp_to payments)"
    by (rule map_raw_plan) (rule batch_fields(2))
  then have "sum_list (map (\<lambda>b. mset (sb_payments b)) (raw_plan c payments)) = sum_list (map (\<lambda>g. mset (snd g)) (group_by pp_to payments))"
    by (rule arg_cong)
  then show ?thesis using mset_group_by [of pp_to payments] by (simp add: mset_concat o_def)
qed

lemma raw_plan_total: "sum_list (map sb_totalAmount (raw_plan c payments)) = sum_list (map pp_amount payments)"
proof -
  have "map sb_totalAmount (raw_plan c payments) = map (\<lambda>g. sum_list (map pp_amount (snd g))) (group_by pp_to payments)"
    by (rule map_raw_plan) (rule batch_fields(3))
  moreover have "sum_list (map (\<lambda>g. sum_list (map pp_amount (snd g))) gs) = sum_list (map pp_amount (concat (map snd gs)))"
    for gs :: "(string \<times> pending_payment list) list" by (induction gs) simp_all
  ultimately have "sum_list (map sb_totalAmount (raw_plan c payments)) = sum_list (map pp_amount (concat (map snd (group_by pp_to payments))))"
    by simp
  also have "\<dots> = sum_list (map pp_amount payments)"
    using mset_group_by [of pp_to payments] by (metis mset_map sum_mset_sum_list)
  finally show ?thesis .
qed

lemma raw_plan_length: "length (raw_plan c payments) = card (pp_to ` set payments)"
  by (simp add: raw_plan_def length_group_by)

lemma plan_of_fields:
  "sp_batches (plan_of bs s) = bs" "sp_totalAmount (plan_of bs s) = sum_list (map sb_totalAmount bs)"
  "sp_totalPayments (plan_of bs s) = int (length (concat (map sb_payments bs)))"
  "sp_operationsSaved (plan_of bs s) = int (length (concat (map sb_payments bs))) - int (length bs)"
proof -
  have "foldl (\<lambda>s b. s + int (length (sb_payments b))) 0 bs = int (length (concat (map sb_payments bs)))"
    unfolding foldl_sum by (induction bs) simp_all
  then show "sp_totalPayments (plan_of bs s) = int (length (concat (map sb_payments bs)))"
    "sp_operationsSaved (plan_of bs s) = int (length (concat (map sb_payments bs))) - int (length bs)"
    by (simp_all add: plan_of_def Let_def)
qed (simp_all add: plan_of_def Let_def foldl_sum)

text \<open>
  C24: C: a settlement plan holds every payment exactly once: its batches hold the payments given, one batch per
  recipient with all payments to that recipient, no two with the same identifier; the totals are those of
  the payments; as many operations are counted as saved as payments repeat a recipient; and the batches
  stand in the order of the strategy.
\<close>

theorem settlement_plan_complete:
  assumes "payments \<noteq> []"
  shows "(let plan = snd (optimize_settlement c payments strategy)
    in mset (concat (map sb_payments (sp_batches plan))) = mset payments \<and>
      sp_totalPayments plan = int (length payments) \<and> sp_totalAmount plan = sum_list (map pp_amount payments) \<and>
      sp_operationsSaved plan = int (length payments) - int (card (pp_to ` set payments)) \<and>
      distinct (map sb_batchId (sp_batches plan)) \<and>
      (\<forall>b \<in> set (sp_batches plan). \<exists>r. sb_recipients b = [r] \<and> r \<in> pp_to ` set payments \<and>
        mset (sb_payments b) = mset (filter (\<lambda>p. pp_to p = r) payments)) \<and>
      sorted_wrt (\<lambda>a b. strategy_cmp (opt_or strategy Balanced) a b \<le> 0) (sp_batches plan))"
proof -
  define s bs where "s = opt_or strategy Balanced" and "bs = js_sort (strategy_cmp s) (raw_plan c payments)"
  have plan: "snd (optimize_settlement c payments strategy) = plan_of bs s"
    using plan_is_raw [OF assms] by (simp add: applyStrategy_def bs_def s_def)
  have ms: "mset (concat (map sb_payments bs)) = mset payments"
    using raw_plan_payments [of c payments] unfolding bs_def by (simp add: mset_concat o_def sum_list_map_js_sort)
  have len: "length (concat (map sb_payments bs)) = length payments" using ms by (metis size_mset)
  show ?thesis
    unfolding Let_def plan plan_of_fields len
    using ms raw_plan_member [of _ c payments] raw_plan_total [of c payments] raw_plan_length [of c payments]
      raw_plan_ids [of c payments] strategy_order.sorted_js_sort [of s "raw_plan c payments"]
    by (auto simp: bs_def s_def sum_list_map_js_sort distinct_map_js_sort)
qed

theorem settlement_plan_complete_witness:
  "sp_operationsSaved (snd (optimize_settlement 0
     [\<lparr>pp_id = ''a'', pp_from = ''p'', pp_to = ''q'', pp_amount = 3, pp_priority = None, pp_maxFeeStroops = None\<rparr>,
      \<lparr>pp_id = ''b'', pp_from = ''p'', pp_to = ''q'', pp_amount = 4, pp_priority = None, pp_maxFeeStroops = None\<rparr>] None)) = 1"
proof -
  define ps where "ps = [\<lparr>pp_id = ''a'', pp_from = ''p'', pp_to = ''q'', pp_amount = 3, pp_priority = None, pp_maxFeeStroops = None\<rparr>,
      \<lparr>pp_id = ''b'', pp_from = ''p'', pp_to = ''q'', pp_amount = 4, pp_priority = None, pp_maxFeeStroops = None\<rparr>]"
  have ne: "ps \<noteq> []" by (simp add: ps_def)
  have "sp_operationsSaved (snd (optimize_settlement 0 ps None)) = int (length ps) - int (card (pp_to ` set ps))"
    using settlement_plan_complete [OF ne, of 0 None] by (simp add: Let_def)
  then show ?thesis by (simp add: ps_def)
qed

section \<open>Merging keeps every payer's payments\<close>

lemma key_add: "operation_key (add_operation x y) = operation_key x" "op_amount (add_operation x y) = op_amount x + op_amount y"
  by (simp_all add: operation_key_def add_operation_def)

text \<open>
  C: merging operations keeps the value paid: under every key of source, destination and currency stands one
  operation that pays the sum of the operations with that key, and no key appears or disappears.
\<close>

theorem merge_keeps_value:
  "distinct (map operation_key (fst (mergeOperations ops))) \<and>
    operation_key ` set (fst (mergeOperations ops)) = operation_key ` set ops \<and>
    (\<forall>p \<in> set (fst (mergeOperations ops)).
      op_amount p = sum_list (map op_amount (filter (\<lambda>q. operation_key q = operation_key p) ops)))"
proof -
  define m where "m = merge_by operation_key add_operation ops"
  have val: "operation_key (snd e) = fst e \<and> op_amount (snd e) = sum_list (map op_amount (filter (\<lambda>q. operation_key q = fst e) ops))"
    if "e \<in> set m" for e
    using merge_by_value [where v = op_amount and key = operation_key and combine = add_operation, of "fst e" "snd e" ops] that
    by (simp add: m_def key_add)
  then have keys: "map (operation_key \<circ> snd) m = map fst m" by simp
  have "operation_key ` snd ` set m = fst ` set m" using keys by (metis image_comp image_set)
  then show ?thesis
    using val merge_by_distinct [of operation_key add_operation ops] merge_by_keys [of operation_key add_operation ops]
    by (auto simp: mergeOperations_def m_def [symmetric] keys)
qed

theorem merge_keeps_value_witness:
  "\<exists>p \<in> set (fst (mergeOperations
    [\<lparr>op_id = ''1'', op_source = ''a'', op_destination = ''b'', op_amount = 2, op_currency = ''X''\<rparr>,
     \<lparr>op_id = ''2'', op_source = ''a'', op_destination = ''b'', op_amount = 5, op_currency = ''X''\<rparr>])). op_amount p = 7"
proof -
  define ops where "ops = [\<lparr>op_id = ''1'', op_source = ''a'', op_destination = ''b'', op_amount = 2, op_currency = ''X''\<rparr>,
     \<lparr>op_id = ''2'', op_source = ''a'', op_destination = ''b'', op_amount = 5, op_currency = ''X''\<rparr>]"
  have key: "operation_key q = ''a|b|X''" if "q \<in> set ops" for q using that by (auto simp: ops_def operation_key_def)
  then have "''a|b|X'' \<in> operation_key ` set (fst (mergeOperations ops))"
    using merge_keeps_value [of ops] by (simp add: ops_def image_iff operation_key_def)
  then obtain p where p: "p \<in> set (fst (mergeOperations ops))" "operation_key p = ''a|b|X''" by auto
  have "op_amount p = sum_list (map op_amount (filter (\<lambda>q. operation_key q = operation_key p) ops))"
    using merge_keeps_value [of ops] p(1) by blast
  also have "filter (\<lambda>q. operation_key q = operation_key p) ops = ops" using key p(2) by simp
  finally have "op_amount p = 7" by (simp add: ops_def)
  then show ?thesis using p(1) unfolding ops_def by blast
qed

section \<open>Reconciliation\<close>

lemma subset_diff_zero: "0 \<notin># A \<Longrightarrow> A \<subseteq># B - {#0#} \<longleftrightarrow> A \<subseteq># (B :: int multiset)"
proof -
  assume z: "0 \<notin># A"
  then have "count A 0 = 0" by (simp add: not_in_iff)
  then have "count A x \<le> count (B - {#0#}) x \<longleftrightarrow> count A x \<le> count B x" for x by (cases "x = 0") simp_all
  then show ?thesis by (simp add: subseteq_mset_def)
qed

lemma matched_iff:
  "list_all (\<lambda>f. rf_discrepancy f = 0) (match_payments e pool ps) \<longleftrightarrow>
    mset (filter (\<lambda>a. a \<noteq> 0) (map lp_amount ps)) \<subseteq># mset pool"
proof (induction ps arbitrary: pool)
  case (Cons p ps)
  have z: "0 \<notin># mset (filter (\<lambda>a. a \<noteq> 0) (map lp_amount ps))" by simp
  show ?case
    using Cons.IH [of "remove1 (lp_amount p) pool"] Cons.IH [of pool] subset_diff_zero [OF z, of "mset pool"]
    by (cases "lp_amount p = 0"; cases "lp_amount p \<in> set pool") (simp_all add: consumeMatch_def insert_subset_eq_iff Let_def)
qed simp

lemma matched_once: "mset (filter (\<lambda>a. a \<noteq> 0) (map rf_actualDelta (match_payments e pool ps))) \<subseteq># mset pool"
proof (induction ps arbitrary: pool)
  case (Cons p ps)
  show ?case
  proof (cases "lp_amount p \<in> set pool")
    case True
    have IH: "mset (filter (\<lambda>a. a \<noteq> 0) (map rf_actualDelta (match_payments e (remove1 (lp_amount p) pool) ps))) \<subseteq># mset pool - {#lp_amount p#}"
      using Cons.IH [of "remove1 (lp_amount p) pool"] by simp
    then show ?thesis using True subset_mset.trans [OF IH diff_subset_eq_self]
      by (cases "lp_amount p = 0") (simp_all add: consumeMatch_def insert_subset_eq_iff)
  qed (use Cons.IH [of pool] in \<open>simp add: consumeMatch_def Let_def\<close>)
qed simp

text \<open>
  C26: C: a report is balanced exactly when the amounts the ledger expects, zero ones aside, occur among the
  amounts found on chain at least as often; there is one finding per expected payment, and no amount found
  on chain is matched to two of them.
\<close>

theorem reconciliation_exact:
  assumes "fetchActualOutgoingAmounts page accountId assetCode rng = Some actual"
    "reconcile e page accountId assetCode rng = Some r"
  shows "(rr_isBalanced r \<longleftrightarrow>
      mset (filter (\<lambda>a. a \<noteq> 0) (map lp_amount (expected_payments e accountId rng))) \<subseteq># mset actual) \<and>
    map rf_expectedDelta (rr_findings r) = map lp_amount (expected_payments e accountId rng) \<and>
    mset (filter (\<lambda>a. a \<noteq> 0) (map rf_actualDelta (rr_findings r))) \<subseteq># mset actual"
proof -
  have "map rf_expectedDelta (match_payments e pool ps) = map lp_amount ps" for pool ps
    by (induction ps arbitrary: pool) (auto simp: Let_def split: prod.splits)
  then show ?thesis
    using assms matched_iff [of e actual] matched_once [of e actual] by (auto simp: reconcile_def Let_def)
qed

theorem reconciliation_exact_witness:
  "\<exists>r. reconcile (recon_new [\<lparr>lp_payer = ''A'', lp_amount = 5, lp_timestamp = Some 7\<rparr>] None None) [] ''A'' ''native'' (0, 9) = Some r \<and>
    \<not> rr_isBalanced r"
proof -
  define e where "e = recon_new [\<lparr>lp_payer = ''A'', lp_amount = 5, lp_timestamp = Some 7\<rparr>] None None"
  have f: "fetchActualOutgoingAmounts [] ''A'' ''native'' (0, 9) = Some []" by (simp add: fetchActualOutgoingAmounts_def)
  then obtain r where r: "reconcile e [] ''A'' ''native'' (0, 9) = Some r" by (auto simp: reconcile_def Let_def)
  have "lp_amount ` set (expected_payments e ''A'' (0, 9)) = {5}"
    by (auto simp: e_def recon_new_def expected_payments_def withinRange_def)
  then have "\<not> rr_isBalanced r" using reconciliation_exact [OF f r] by (auto simp: e_def recon_new_def expected_payments_def withinRange_def)
  with r show ?thesis unfolding e_def by blast
qed

section \<open>Behaviour worth knowing\<close>

text \<open>Groups below the smallest batch are left out of the result: their payments are in no batch.\<close>

lemma small_groups_are_lost: "fst (optimize_operations (Some 2) None [p]) = []"
  by (simp add: optimize_operations_def mergeOperations_def merge_by_def merge_into_def groupIntoBatches_def group_by_def
      push_group_def opt_or_def Let_def)

lemma separator_merges_different_payments:
  "fst (mergeOperations [\<lparr>op_id = ''1'', op_source = ''a|b'', op_destination = ''c'', op_amount = 1, op_currency = ''X''\<rparr>,
     \<lparr>op_id = ''2'', op_source = ''a'', op_destination = ''b|c'', op_amount = 1, op_currency = ''X''\<rparr>]) =
   [\<lparr>op_id = ''1'', op_source = ''a|b'', op_destination = ''c'', op_amount = 2, op_currency = ''X''\<rparr>]"
  by (simp add: mergeOperations_def merge_by_def merge_into_def operation_key_def add_operation_def)

lemma unexpected_payments_pass: "reconcile (recon_new [] None None) page a c rng = Some r \<Longrightarrow> rr_isBalanced r"
  by (auto simp: reconcile_def recon_new_def expected_payments_def Let_def split: option.splits)

end
