(* ===== verification/Signer_Weights.thy ===== *)
theory Signer_Weights
  imports Prelude
begin

text \<open>
  \<open>accounts/AccountSignerWeightCalculator.ts\<close>: the weight of a set of signing keys on an account, the
  custody view of an account and the builder of multi-signature transactions. What Horizon returns
  for an account is an argument.
\<close>

section \<open>Accounts\<close>

datatype threshold_level = Low | Medium | High

record signer =
  sg_key :: string
  sg_weight :: int

record thresholds =
  th_low :: int
  th_medium :: int
  th_high :: int

record account_record =
  ar_signers :: "signer list"
  ar_thresholds :: thresholds

record weight_result =
  wr_totalWeight :: int
  wr_requiredThreshold :: int
  wr_sufficient :: bool
  wr_missingWeight :: int

definition resolveThreshold :: "thresholds \<Rightarrow> threshold_level \<Rightarrow> int" where
  "resolveThreshold t level = (case level of Low \<Rightarrow> th_low t | Medium \<Rightarrow> th_medium t | High \<Rightarrow> th_high t)"

definition compute_weight :: "account_record \<Rightarrow> string list \<Rightarrow> threshold_level \<Rightarrow> weight_result" where
  "compute_weight account keys level =
     (let total = foldl (\<lambda>w s. if sg_key s \<in> set keys then w + sg_weight s else w) 0 (ar_signers account);
          required = resolveThreshold (ar_thresholds account) level;
          ok = total \<ge> required
      in \<lparr>wr_totalWeight = total, wr_requiredThreshold = required, wr_sufficient = ok,
          wr_missingWeight = (if ok then 0 else required - total)\<rparr>)"

section \<open>The calculator and its cache\<close>

datatype weight_error = InsufficientSignerWeight "string list" int int | AccountLoadFailed string

record cached_account =
  ca_record :: account_record
  ca_expiresAt :: int

record calculator =
  wc_ttlMs :: int
  wc_cache :: "(string \<times> cached_account) list"

definition calculator_new :: "int option \<Rightarrow> calculator" where
  "calculator_new ttl = \<lparr>wc_ttlMs = (case ttl of Some t \<Rightarrow> t | None \<Rightarrow> 30000), wc_cache = []\<rparr>"

definition loadAccount :: "string \<Rightarrow> int \<Rightarrow> account_record option \<Rightarrow> calculator \<Rightarrow> weight_error + (account_record \<times> calculator)" where
  "loadAccount accountId now answer c =
     (case map_of (wc_cache c) accountId of
        Some e \<Rightarrow> if ca_expiresAt e > now then Inr (ca_record e, c) else
          (case answer of None \<Rightarrow> Inl (AccountLoadFailed accountId)
           | Some r \<Rightarrow> Inr (r, c\<lparr>wc_cache := AList.update accountId \<lparr>ca_record = r, ca_expiresAt = now + wc_ttlMs c\<rparr> (wc_cache c)\<rparr>))
      | None \<Rightarrow>
          (case answer of None \<Rightarrow> Inl (AccountLoadFailed accountId)
           | Some r \<Rightarrow> Inr (r, c\<lparr>wc_cache := AList.update accountId \<lparr>ca_record = r, ca_expiresAt = now + wc_ttlMs c\<rparr> (wc_cache c)\<rparr>)))"

definition calculateWeight ::
  "string \<Rightarrow> string list \<Rightarrow> threshold_level \<Rightarrow> int \<Rightarrow> account_record option \<Rightarrow> calculator \<Rightarrow> weight_error + (weight_result \<times> calculator)" where
  "calculateWeight accountId keys level now answer c =
     rbind (loadAccount accountId now answer c) (\<lambda>(account, c1). Inr (compute_weight account keys level, c1))"

definition assertSufficientWeight ::
  "string \<Rightarrow> string list \<Rightarrow> threshold_level \<Rightarrow> int \<Rightarrow> account_record option \<Rightarrow> calculator \<Rightarrow> weight_error + calculator" where
  "assertSufficientWeight accountId keys level now answer c =
     rbind (calculateWeight accountId keys level now answer c)
       (\<lambda>(r, c1). if \<not> wr_sufficient r then Inl (InsufficientSignerWeight keys (wr_totalWeight r) (wr_requiredThreshold r)) else Inr c1)"

definition meetsThreshold ::
  "string \<Rightarrow> string list \<Rightarrow> threshold_level \<Rightarrow> int \<Rightarrow> account_record option \<Rightarrow> calculator \<Rightarrow> weight_error + (bool \<times> calculator)" where
  "meetsThreshold accountId keys level now answer c =
     rbind (calculateWeight accountId keys level now answer c) (\<lambda>(r, c1). Inr (wr_sufficient r, c1))"

definition evict :: "string \<Rightarrow> calculator \<Rightarrow> calculator" where
  "evict accountId c = c\<lparr>wc_cache := AList.delete accountId (wc_cache c)\<rparr>"

section \<open>Custody accounts\<close>

record custody_account =
  cu_accountId :: string
  cu_signers :: "signer list"
  cu_thresholds :: thresholds

datatype custody_event =
    SignerAdded signer | SignerRemoved signer | SignerUpdated signer int
  | ThresholdUpdated threshold_level int int | AccountLoaded

definition toCustodyAccount :: "string \<Rightarrow> account_record \<Rightarrow> custody_account" where
  "toCustodyAccount accountId r = \<lparr>cu_accountId = accountId, cu_signers = ar_signers r, cu_thresholds = ar_thresholds r\<rparr>"

definition loadCustodyAccount ::
  "string \<Rightarrow> int \<Rightarrow> account_record option \<Rightarrow> calculator \<Rightarrow> weight_error + (custody_account \<times> calculator \<times> custody_event list)" where
  "loadCustodyAccount accountId now answer c =
     rbind (loadAccount accountId now answer c) (\<lambda>(r, c1). Inr (toCustodyAccount accountId r, c1, [AccountLoaded]))"

definition addSigner :: "custody_account \<Rightarrow> signer \<Rightarrow> custody_account \<times> custody_event list" where
  "addSigner a s =
     (case List.find (\<lambda>x. sg_key x = sg_key s) (cu_signers a) of
        Some existing \<Rightarrow>
          (a\<lparr>cu_signers := map (\<lambda>x. if sg_key x = sg_key s then s else x) (cu_signers a)\<rparr>, [SignerUpdated s (sg_weight existing)])
      | None \<Rightarrow> (a\<lparr>cu_signers := cu_signers a @ [s]\<rparr>, [SignerAdded s]))"

definition removeSigner :: "custody_account \<Rightarrow> string \<Rightarrow> custody_account \<times> custody_event list" where
  "removeSigner a k =
     (case List.find (\<lambda>x. sg_key x = k) (cu_signers a) of
        None \<Rightarrow> (a, [])
      | Some existing \<Rightarrow> (a\<lparr>cu_signers := filter (\<lambda>x. sg_key x \<noteq> k) (cu_signers a)\<rparr>, [SignerRemoved existing]))"

definition set_threshold :: "threshold_level \<Rightarrow> int \<Rightarrow> thresholds \<Rightarrow> thresholds" where
  "set_threshold level v t = (case level of Low \<Rightarrow> t\<lparr>th_low := v\<rparr> | Medium \<Rightarrow> t\<lparr>th_medium := v\<rparr> | High \<Rightarrow> t\<lparr>th_high := v\<rparr>)"

definition updateThreshold :: "custody_account \<Rightarrow> threshold_level \<Rightarrow> int \<Rightarrow> custody_account \<times> custody_event list" where
  "updateThreshold a level v =
     (let previous = resolveThreshold (cu_thresholds a) level
      in if previous = v then (a, [])
         else (a\<lparr>cu_thresholds := set_threshold level v (cu_thresholds a)\<rparr>, [ThresholdUpdated level previous v]))"

section \<open>The transaction builder\<close>

record multisig_builder =
  mb_accountId :: string
  mb_signers :: "(string \<times> signer) list"
  mb_threshold :: threshold_level

record multisig_transaction =
  mt_accountId :: string
  mt_threshold :: threshold_level
  mt_signers :: "signer list"
  mt_totalWeight :: int
  mt_requiredThreshold :: int
  mt_sufficient :: bool

datatype builder_event = BuilderSignerAdded signer | BuilderSignerRemoved string | ThresholdSet threshold_level | Built multisig_transaction

definition builder_new :: "string \<Rightarrow> multisig_builder" where
  "builder_new accountId = \<lparr>mb_accountId = accountId, mb_signers = [], mb_threshold = Medium\<rparr>"

definition builder_addSigner :: "string \<Rightarrow> int \<Rightarrow> multisig_builder \<Rightarrow> multisig_builder \<times> builder_event list" where
  "builder_addSigner k w b =
     (let s = \<lparr>sg_key = k, sg_weight = w\<rparr> in (b\<lparr>mb_signers := AList.update k s (mb_signers b)\<rparr>, [BuilderSignerAdded s]))"

definition builder_removeSigner :: "string \<Rightarrow> multisig_builder \<Rightarrow> multisig_builder \<times> builder_event list" where
  "builder_removeSigner k b =
     (if map_of (mb_signers b) k \<noteq> None then (b\<lparr>mb_signers := AList.delete k (mb_signers b)\<rparr>, [BuilderSignerRemoved k]) else (b, []))"

definition builder_setThreshold :: "threshold_level \<Rightarrow> multisig_builder \<Rightarrow> multisig_builder \<times> builder_event list" where
  "builder_setThreshold level b = (b\<lparr>mb_threshold := level\<rparr>, [ThresholdSet level])"

definition builder_getSigners :: "multisig_builder \<Rightarrow> signer list" where
  "builder_getSigners b = map snd (mb_signers b)"

definition builder_build ::
  "int \<Rightarrow> account_record option \<Rightarrow> calculator \<Rightarrow> multisig_builder \<Rightarrow> weight_error + (multisig_transaction \<times> calculator \<times> builder_event list)" where
  "builder_build now answer c b =
     (let signers = builder_getSigners b;
          keys = map sg_key signers
      in rbind (calculateWeight (mb_accountId b) keys (mb_threshold b) now answer c)
           (\<lambda>(r, c1).
              if \<not> wr_sufficient r then Inl (InsufficientSignerWeight keys (wr_totalWeight r) (wr_requiredThreshold r))
              else
                let tx = \<lparr>mt_accountId = mb_accountId b, mt_threshold = mb_threshold b, mt_signers = signers,
                          mt_totalWeight = wr_totalWeight r, mt_requiredThreshold = wr_requiredThreshold r, mt_sufficient = wr_sufficient r\<rparr>
                in Inr (tx, c1, [Built tx])))"

section \<open>What the weight means\<close>

definition weight_on :: "account_record \<Rightarrow> string \<Rightarrow> int" where
  "weight_on account k = (case map_of (map (\<lambda>s. (sg_key s, sg_weight s)) (ar_signers account)) k of Some w \<Rightarrow> w | None \<Rightarrow> 0)"

definition signers_ok :: "signer list \<Rightarrow> bool" where
  "signers_ok ss \<longleftrightarrow> distinct (map sg_key ss)"

definition weights_of :: "signer list \<Rightarrow> string \<rightharpoonup> int" where
  "weights_of ss = map_of (map (\<lambda>s. (sg_key s, sg_weight s)) ss)"

lemma weight_fold: "foldl (\<lambda>w s. if sg_key s \<in> K then w + sg_weight s else w) a ss = a + sum_list (map sg_weight (filter (\<lambda>s. sg_key s \<in> K) ss))"
  by (induction ss arbitrary: a) auto

lemma total_weight: "wr_totalWeight (compute_weight account keys level) = sum_list (map sg_weight (filter (\<lambda>s. sg_key s \<in> set keys) (ar_signers account)))"
  by (simp add: compute_weight_def Let_def weight_fold)

lemma sum_filter_keys:
  assumes "distinct (map sg_key ss)" "finite K"
  shows "sum_list (map sg_weight (filter (\<lambda>s. sg_key s \<in> K) ss)) =
    (\<Sum>k\<in>K. case map_of (map (\<lambda>s. (sg_key s, sg_weight s)) ss) k of Some w \<Rightarrow> w | None \<Rightarrow> 0)"
  using assms(1)
proof (induction ss)
  case (Cons s ss)
  let ?f = "\<lambda>k. case map_of (map (\<lambda>s. (sg_key s, sg_weight s)) ss) k of Some w \<Rightarrow> w | None \<Rightarrow> 0"
  let ?g = "\<lambda>k. case map_of (map (\<lambda>s. (sg_key s, sg_weight s)) (s # ss)) k of Some w \<Rightarrow> w | None \<Rightarrow> 0"
  have none: "?f (sg_key s) = 0" using Cons.prems by (auto simp: map_of_eq_None_iff image_image split: option.split dest!: map_of_SomeD)
  show ?case
  proof (cases "sg_key s \<in> K")
    case True
    then have "sum ?g K = ?g (sg_key s) + sum ?g (K - {sg_key s})" using assms(2) by (simp add: sum.remove)
    moreover have "sum ?f K = ?f (sg_key s) + sum ?f (K - {sg_key s})" using True assms(2) by (simp add: sum.remove)
    moreover have "sum ?g (K - {sg_key s}) = sum ?f (K - {sg_key s})" by (rule sum.cong) auto
    ultimately show ?thesis using True Cons none by simp
  next
    case False
    then have "sum ?g K = sum ?f K" by (intro sum.cong) auto
    with False Cons show ?thesis by simp
  qed
qed simp

lemma weights_upd_map:
  "\<exists>x \<in> set ss. sg_key x = sg_key s \<Longrightarrow> weights_of (map (\<lambda>x. if sg_key x = sg_key s then s else x) ss) = (weights_of ss)(sg_key s \<mapsto> sg_weight s)"
proof (induction ss)
  case (Cons x ss)
  show ?case
  proof (cases "\<exists>y \<in> set ss. sg_key y = sg_key s")
    case True
    with Cons show ?thesis by (auto simp: weights_of_def fun_eq_iff)
  next
    case False
    then have "map (\<lambda>x. if sg_key x = sg_key s then s else x) ss = ss" by (auto intro: map_idI)
    with False Cons.prems show ?thesis by (auto simp: weights_of_def)
  qed
qed simp

lemma weights_of_append: "sg_key s \<notin> sg_key ` set ss \<Longrightarrow> weights_of (ss @ [s]) = (weights_of ss)(sg_key s \<mapsto> sg_weight s)"
  by (induction ss) (auto simp: weights_of_def fun_upd_twist)

lemma weights_of_filter: "weights_of (filter (\<lambda>x. sg_key x \<noteq> k) ss) = (weights_of ss)(k := None)"
  by (induction ss) (auto simp: weights_of_def)

lemma find_signer:
  "List.find (\<lambda>x. sg_key x = k) ss = None \<longleftrightarrow> k \<notin> sg_key ` set ss"
  "List.find (\<lambda>x. sg_key x = k) ss = Some y \<Longrightarrow> k \<in> sg_key ` set ss"
  by (auto simp: find_None_iff find_Some_iff)

section \<open>Properties\<close>

text \<open>
  C16: For an account whose signers are different keys, the weight computed is the sum over the
  different keys provided of their weight on the account: a key provided twice counts once, a key
  that is no signer counts nothing, and what is missing is exactly the gap to the threshold.
\<close>

theorem weight_counts_each_key_once:
  assumes "signers_ok (ar_signers account)"
  shows "wr_totalWeight (compute_weight account keys level) = (\<Sum>k\<in>set keys. weight_on account k) \<and>
         wr_sufficient (compute_weight account keys level) =
           (resolveThreshold (ar_thresholds account) level \<le> (\<Sum>k\<in>set keys. weight_on account k)) \<and>
         wr_missingWeight (compute_weight account keys level) =
           max 0 (resolveThreshold (ar_thresholds account) level - (\<Sum>k\<in>set keys. weight_on account k))"
proof -
  have t: "wr_totalWeight (compute_weight account keys level) = (\<Sum>k\<in>set keys. weight_on account k)"
    using sum_filter_keys [of "ar_signers account" "set keys"] assms by (simp add: total_weight weight_on_def signers_ok_def)
  moreover have "wr_sufficient (compute_weight account keys level) =
      (resolveThreshold (ar_thresholds account) level \<le> wr_totalWeight (compute_weight account keys level))"
    "wr_missingWeight (compute_weight account keys level) =
      max 0 (resolveThreshold (ar_thresholds account) level - wr_totalWeight (compute_weight account keys level))"
    by (simp_all add: compute_weight_def Let_def)
  ultimately show ?thesis by (simp only:)
qed

definition sample_account :: account_record where
  "sample_account = \<lparr>ar_signers = [\<lparr>sg_key = ''GA'', sg_weight = 1\<rparr>, \<lparr>sg_key = ''GB'', sg_weight = 2\<rparr>],
     ar_thresholds = \<lparr>th_low = 1, th_medium = 2, th_high = 3\<rparr>\<rparr>"

theorem weight_counts_each_key_once_witness:
  "wr_totalWeight (compute_weight sample_account [''GB'', ''GB'', ''GZ''] High) = 2 \<and>
   wr_missingWeight (compute_weight sample_account [''GB'', ''GB'', ''GZ''] High) = 1"
proof -
  have "signers_ok (ar_signers sample_account)" by (simp add: signers_ok_def sample_account_def)
  from weight_counts_each_key_once [OF this, of "[''GB'', ''GB'', ''GZ'']" High]
  show ?thesis by (simp add: sample_account_def weight_on_def resolveThreshold_def)
qed

text \<open>
  The custody operations refine a finite map from keys to weights: adding a signer is an update
  of the map, removing one deletes its key, and both keep the keys different; setting a threshold
  changes the level named and no other.
\<close>

theorem custody_refines_map:
  assumes "signers_ok (cu_signers a)"
  shows "signers_ok (cu_signers (fst (addSigner a s))) \<and>
         weights_of (cu_signers (fst (addSigner a s))) = (weights_of (cu_signers a))(sg_key s \<mapsto> sg_weight s) \<and>
         signers_ok (cu_signers (fst (removeSigner a k))) \<and>
         weights_of (cu_signers (fst (removeSigner a k))) = (weights_of (cu_signers a))(k := None) \<and>
         resolveThreshold (cu_thresholds (fst (updateThreshold a level v))) l =
           (if l = level then v else resolveThreshold (cu_thresholds a) l)"
proof (intro conjI)
  have keys: "map sg_key (map (\<lambda>x. if sg_key x = sg_key s then s else x) ss) = map sg_key ss" for ss by simp
  show "signers_ok (cu_signers (fst (addSigner a s)))"
    using assms unfolding signers_ok_def addSigner_def
    by (auto simp: find_signer(1) comp_def if_distrib [of sg_key] split: option.split cong: if_cong)
  show "weights_of (cu_signers (fst (addSigner a s))) = (weights_of (cu_signers a))(sg_key s \<mapsto> sg_weight s)"
  proof (cases "List.find (\<lambda>x. sg_key x = sg_key s) (cu_signers a)")
    case None
    then show ?thesis using find_signer(1) [of "sg_key s" "cu_signers a"] by (simp add: addSigner_def weights_of_append del: find_None_iff)
  next
    case (Some y)
    from find_signer(2) [OF Some] have "\<exists>x \<in> set (cu_signers a). sg_key x = sg_key s" by auto
    with Some show ?thesis by (simp add: addSigner_def weights_upd_map)
  qed
  show "signers_ok (cu_signers (fst (removeSigner a k)))"
    using assms by (auto simp: signers_ok_def removeSigner_def distinct_map_filter split: option.split)
  have same: "weights_of ss = (weights_of ss)(k := None)" if "k \<notin> sg_key ` set ss" for ss
    using that by (auto simp: weights_of_def fun_eq_iff map_of_eq_None_iff)
  show "weights_of (cu_signers (fst (removeSigner a k))) = (weights_of (cu_signers a))(k := None)"
  proof (cases "List.find (\<lambda>x. sg_key x = k) (cu_signers a)")
    case None
    with same [of "cu_signers a"] find_signer(1) [of k "cu_signers a"] show ?thesis unfolding removeSigner_def None by simp
  qed (simp add: removeSigner_def weights_of_filter)
  show "resolveThreshold (cu_thresholds (fst (updateThreshold a level v))) l = (if l = level then v else resolveThreshold (cu_thresholds a) l)"
    by (cases level; cases l) (auto simp: updateThreshold_def Let_def resolveThreshold_def set_threshold_def)
qed

theorem custody_refines_map_witness:
  "weights_of (cu_signers (fst (addSigner (toCustodyAccount ''G'' sample_account) \<lparr>sg_key = ''GA'', sg_weight = 7\<rparr>))) ''GA'' = Some 7"
proof -
  have "signers_ok (cu_signers (toCustodyAccount ''G'' sample_account))"
    by (simp add: signers_ok_def sample_account_def toCustodyAccount_def)
  from custody_refines_map [OF this, of "\<lparr>sg_key = ''GA'', sg_weight = 7\<rparr>" "[]" Low 0 Low] show ?thesis by simp
qed

text \<open>
  Whether a transaction can be built depends on the keys added and on the account, not on the
  weights declared to the builder: with the same keys the builder succeeds or fails in the same
  way, with the same total.
\<close>

theorem declared_weights_ignored:
  assumes "map sg_key (builder_getSigners b) = map sg_key (builder_getSigners b')"
    "mb_accountId b = mb_accountId b'" "mb_threshold b = mb_threshold b'"
  shows "(case builder_build now answer c b of Inl e \<Rightarrow> Inl e | Inr (tx, c1, ev) \<Rightarrow> Inr (mt_totalWeight tx, c1)) =
         (case builder_build now answer c b' of Inl e \<Rightarrow> Inl e | Inr (tx, c1, ev) \<Rightarrow> Inr (mt_totalWeight tx, c1))"
  by (cases "calculateWeight (mb_accountId b') (map sg_key (builder_getSigners b')) (mb_threshold b') now answer c")
    (auto simp: builder_build_def Let_def assms rbind_def)

theorem declared_weights_ignored_witness:
  "\<exists>e. (case builder_build 0 (Some sample_account) (calculator_new None) (fst (builder_addSigner ''GA'' 255 (builder_new ''G'')))
      of Inl e \<Rightarrow> Inl e | Inr (tx, c1, ev) \<Rightarrow> Inr (mt_totalWeight tx, c1)) = Inl (e :: weight_error)"
proof -
  have keys: "map sg_key (builder_getSigners (fst (builder_addSigner ''GA'' 255 (builder_new ''G'')))) =
      map sg_key (builder_getSigners (fst (builder_addSigner ''GA'' 1 (builder_new ''G''))))"
    "mb_accountId (fst (builder_addSigner ''GA'' 255 (builder_new ''G''))) = mb_accountId (fst (builder_addSigner ''GA'' 1 (builder_new ''G'')))"
    "mb_threshold (fst (builder_addSigner ''GA'' 255 (builder_new ''G''))) = mb_threshold (fst (builder_addSigner ''GA'' 1 (builder_new ''G'')))"
    by (simp_all add: builder_addSigner_def builder_new_def builder_getSigners_def Let_def)
  show ?thesis
    unfolding declared_weights_ignored [OF keys]
    by (simp add: builder_addSigner_def builder_new_def builder_getSigners_def Let_def builder_build_def calculateWeight_def
      loadAccount_def calculator_new_def compute_weight_def sample_account_def resolveThreshold_def)
qed

section \<open>How old an account record can be\<close>

definition asks :: "string \<Rightarrow> int \<Rightarrow> calculator \<Rightarrow> bool" where
  "asks k t c = (case map_of (wc_cache c) k of Some e \<Rightarrow> ca_expiresAt e \<le> t | None \<Rightarrow> True)"

text \<open>A run of lookups; the log has what Horizon answered, to whom and when.\<close>

fun lookup_step :: "calculator \<times> (int \<times> string \<times> account_record) list \<Rightarrow> int \<times> string \<times> account_record option \<Rightarrow>
    calculator \<times> (int \<times> string \<times> account_record) list" where
  "lookup_step (c, hist) (t, k, answer) =
     (case loadAccount k t answer c of
        Inl _ \<Rightarrow> (c, hist)
      | Inr (r, c1) \<Rightarrow> (c1, if asks k t c then (case answer of Some q \<Rightarrow> hist @ [(t, k, q)] | None \<Rightarrow> hist) else hist))"

fun calculator_inv :: "int \<Rightarrow> calculator \<times> (int \<times> string \<times> account_record) list \<Rightarrow> bool" where
  "calculator_inv ttl (c, hist) \<longleftrightarrow> wc_ttlMs c = ttl \<and>
     (\<forall>(k, e) \<in> set (wc_cache c). \<exists>t. (t, k, ca_record e) \<in> set hist \<and> ca_expiresAt e = t + ttl)"

lemma lookup_step_inv: "calculator_inv ttl s \<Longrightarrow> calculator_inv ttl (lookup_step s x)"
proof (cases s; cases x)
  fix c hist t k answer
  assume s: "s = (c, hist)" "x = (t, k, answer)" and i: "calculator_inv ttl s"
  have grow: "\<exists>t. (t, j, ca_record e) \<in> set (hist @ new) \<and> ca_expiresAt e = t + ttl" if "(j, e) \<in> set (wc_cache c)" for j e new
    using i that by (fastforce simp: s)
  have upd: "calculator_inv ttl (c\<lparr>wc_cache := AList.update k \<lparr>ca_record = q, ca_expiresAt = t + wc_ttlMs c\<rparr> (wc_cache c)\<rparr>, hist @ [(t, k, q)])" for q
    using i grow set_update_sub [of k "\<lparr>ca_record = q, ca_expiresAt = t + wc_ttlMs c\<rparr>" "wc_cache c"] by (fastforce simp: s)
  have same: "calculator_inv ttl (c, hist @ new)" for new using i grow by (fastforce simp: s)
  show ?thesis using i upd same same [of "[]"]
    by (auto simp: s loadAccount_def asks_def split: option.split)
qed

interpretation lookups: machine lookup_step "calculator_inv ttl"
  by unfold_locales (rule lookup_step_inv)

text \<open>
  The account a weight is computed from is what Horizon answers now or what it answered less
  than the cache lifetime ago: no older signer list or threshold is ever used.
\<close>

theorem account_record_recent:
  assumes "foldl lookup_step (calculator_new ttl, []) es = (c, hist)" "loadAccount k now answer c = Inr (r, c1)"
  shows "answer = Some r \<or> (\<exists>t. (t, k, r) \<in> set hist \<and> now < t + (case ttl of Some x \<Rightarrow> x | None \<Rightarrow> 30000))"
proof -
  let ?ttl = "case ttl of Some x \<Rightarrow> x | None \<Rightarrow> 30000"
  have "calculator_inv ?ttl (foldl lookup_step (calculator_new ttl, []) es)"
    by (rule lookups.run_inv) (simp add: calculator_new_def)
  then have i: "calculator_inv ?ttl (c, hist)" by (simp only: assms(1))
  show ?thesis
  proof (cases "map_of (wc_cache c) k")
    case (Some e)
    then have "(k, e) \<in> set (wc_cache c)" by (rule map_of_SomeD)
    then have "\<exists>t. (t, k, ca_record e) \<in> set hist \<and> ca_expiresAt e = t + ?ttl" using i by fastforce
    with Some assms(2) show ?thesis by (auto simp: loadAccount_def split: if_splits option.splits)
  qed (use assms(2) in \<open>auto simp: loadAccount_def split: option.splits\<close>)
qed

theorem account_record_recent_witness:
  "\<exists>t. (t, ''G'', sample_account) \<in> set (snd (foldl lookup_step (calculator_new None, []) [(5, ''G'', Some sample_account)])) \<and> 6 < t + 30000"
proof -
  let ?p = "foldl lookup_step (calculator_new None, []) [(5, ''G'', Some sample_account)]"
  have "foldl lookup_step (calculator_new None, []) [(5, ''G'', Some sample_account)] = (fst ?p, snd ?p)" by simp
  moreover have "loadAccount ''G'' 6 None (fst ?p) = Inr (sample_account, fst ?p)" by (simp add: loadAccount_def calculator_new_def asks_def)
  ultimately show ?thesis using account_record_recent by fastforce
qed

end
