(* ===== verification/Stream_Dedup.thy ===== *)
theory Stream_Dedup
  imports Prelude
begin

text \<open>
  \<open>streamDeduplicator.ts\<close>, with the in-memory token store of \<open>snapshot.ts\<close>: a window of the paging
  tokens seen last, in a circular buffer, saved now and then and loaded again at a restart. The
  window holds at least one token.
\<close>

section \<open>The deduplicator\<close>

record stream_dedup =
  sd_windowSize :: nat
  sd_flushInterval :: int
  sd_namespace :: string
  sd_seen :: "string list"
  sd_buffer :: "string list"
  sd_writeIndex :: nat
  sd_newTokens :: int

type_synonym token_store = "(string \<times> string list) list"

definition saveDedupTokens :: "string \<Rightarrow> string list \<Rightarrow> token_store \<Rightarrow> token_store" where
  "saveDedupTokens ns tokens store = AList.update ns tokens store"

definition loadDedupTokens :: "string \<Rightarrow> token_store \<Rightarrow> string list option" where
  "loadDedupTokens ns store = map_of store ns"

definition stream_dedup_new :: "nat option \<Rightarrow> int option \<Rightarrow> string option \<Rightarrow> stream_dedup" where
  "stream_dedup_new window flush ns =
     \<lparr>sd_windowSize = (case window of None \<Rightarrow> 1000 | Some w \<Rightarrow> w),
      sd_flushInterval = (case flush of None \<Rightarrow> 100 | Some f \<Rightarrow> f),
      sd_namespace = (case ns of None \<Rightarrow> ''default'' | Some n \<Rightarrow> n),
      sd_seen = [], sd_buffer = [], sd_writeIndex = 0, sd_newTokens = 0\<rparr>"

definition record_token :: "string \<Rightarrow> stream_dedup \<times> token_store \<Rightarrow> stream_dedup \<times> token_store" where
  "record_token token st =
     (case st of (d, store) \<Rightarrow>
        let d1 = (if length (sd_buffer d) \<ge> sd_windowSize d
                  then d\<lparr>sd_seen := (if sd_writeIndex d < length (sd_buffer d)
                                   then removeAll (sd_buffer d ! sd_writeIndex d) (sd_seen d) else sd_seen d),
                         sd_buffer := (sd_buffer d)[sd_writeIndex d := token]\<rparr>
                  else d\<lparr>sd_buffer := sd_buffer d @ [token]\<rparr>);
            d2 = d1\<lparr>sd_writeIndex := (sd_writeIndex d1 + 1) mod sd_windowSize d1,
                    sd_seen := set_add token (sd_seen d1),
                    sd_newTokens := sd_newTokens d1 + 1\<rparr>
        in if sd_newTokens d2 \<ge> sd_flushInterval d2
           then (d2\<lparr>sd_newTokens := 0\<rparr>, saveDedupTokens (sd_namespace d2) (sd_buffer d2) store)
           else (d2, store))"

text \<open>\<open>filter\<close>: whether the record is new. A duplicate is reported by an event, and changes nothing.\<close>

definition sd_filter :: "string \<Rightarrow> stream_dedup \<times> token_store \<Rightarrow> bool \<times> stream_dedup \<times> token_store" where
  "sd_filter token st =
     (if token \<in> set (sd_seen (fst st)) then (False, st) else (True, record_token token st))"

definition tracked_tokens :: "stream_dedup \<Rightarrow> nat" where
  "tracked_tokens d = length (sd_seen d)"

definition restore_token :: "stream_dedup \<Rightarrow> string \<Rightarrow> stream_dedup" where
  "restore_token d token =
     (if token \<in> set (sd_seen d) then d
      else d\<lparr>sd_seen := set_add token (sd_seen d), sd_buffer := sd_buffer d @ [token]\<rparr>)"

definition restore :: "token_store \<Rightarrow> stream_dedup \<Rightarrow> stream_dedup" where
  "restore store d =
     (case loadDedupTokens (sd_namespace d) store of
        None \<Rightarrow> d
      | Some tokens \<Rightarrow>
          let d1 = foldl restore_token d (drop (length tokens - sd_windowSize d) tokens)
          in d1\<lparr>sd_writeIndex := length (sd_buffer d1) mod sd_windowSize d1\<rparr>)"

section \<open>The window, oldest token first\<close>

definition last_of :: "nat \<Rightarrow> 'a list \<Rightarrow> 'a list" where
  "last_of n xs = drop (length xs - n) xs"

text \<open>The specification: the last \<open>w\<close> tokens that were accepted.\<close>

definition see :: "nat \<Rightarrow> string list \<Rightarrow> string \<Rightarrow> string list" where
  "see w recent token = (if token \<in> set recent then recent else last_of w (recent @ [token]))"

definition window_of :: "stream_dedup \<Rightarrow> string list" where
  "window_of d = rotate (sd_writeIndex d) (sd_buffer d)"

definition sd_inv :: "nat \<Rightarrow> stream_dedup \<Rightarrow> bool" where
  "sd_inv w d \<longleftrightarrow>
     sd_windowSize d = w \<and> 0 < w \<and> distinct (sd_buffer d) \<and> set (sd_seen d) = set (sd_buffer d) \<and> distinct (sd_seen d)
     \<and> length (sd_buffer d) \<le> w
     \<and> (if length (sd_buffer d) < w then sd_writeIndex d = length (sd_buffer d) else sd_writeIndex d < w)"

lemma length_last_of [simp]: "length (last_of n xs) = min n (length xs)"
  by (simp add: last_of_def)

lemma rotate_overwrite:
  assumes "k < length xs"
  shows "rotate (Suc k mod length xs) (xs[k := x]) = tl (rotate k xs) @ [x]"
proof -
  have "rotate k xs = drop k xs @ take k xs" using assms by (simp add: rotate_drop_take)
  moreover have "drop k xs = xs ! k # drop (Suc k) xs" using assms by (simp add: Cons_nth_drop_Suc)
  ultimately have r: "tl (rotate k xs) = drop (Suc k) xs @ take k xs" by simp
  show ?thesis
  proof (cases "Suc k = length xs")
    case True
    have "xs[k := x] = take k xs @ [x]" using True by (simp add: upd_conv_take_nth_drop)
    with True r show ?thesis by simp
  next
    case False
    then have "Suc k mod length xs = Suc k" using assms by simp
    moreover have "rotate (Suc k) (xs[k := x]) = drop (Suc k) (xs[k := x]) @ take (Suc k) (xs[k := x])"
      using False assms by (simp add: rotate_drop_take)
    moreover have "take (Suc k) (xs[k := x]) = take k xs @ [x]" using assms by (simp add: take_Suc_conv_app_nth)
    ultimately show ?thesis by (simp add: r)
  qed
qed

lemma record_step:
  assumes "sd_inv w d" "token \<notin> set (sd_seen d)"
  shows "sd_inv w (fst (record_token token (d, store)))
    \<and> window_of (fst (record_token token (d, store))) = last_of w (window_of d @ [token])"
proof (cases "length (sd_buffer d) < w")
  case True
  have wi: "sd_writeIndex d = length (sd_buffer d)" using assms(1) True by (simp add: sd_inv_def)
  then have win: "window_of d = sd_buffer d" by (simp add: window_of_def rotate_drop_take)
  have r: "rotate (Suc (length (sd_buffer d)) mod w) (sd_buffer d @ [token]) = sd_buffer d @ [token]"
  proof (cases "Suc (length (sd_buffer d)) = w")
    case False
    then have "Suc (length (sd_buffer d)) mod w = length (sd_buffer d @ [token])" using True by simp
    then show ?thesis by (simp add: rotate_drop_take)
  qed simp
  have "Suc (length (sd_buffer d)) = w \<or> Suc (length (sd_buffer d)) < w" using True by linarith
  with assms True wi win r show ?thesis
    by (auto simp: record_token_def Let_def sd_inv_def window_of_def last_of_def)
next
  case False
  then have len: "length (sd_buffer d) = w" "sd_writeIndex d < w" using assms(1) by (simp_all add: sd_inv_def)
  let ?k = "sd_writeIndex d"
  have buf: "distinct (sd_buffer d)" "set (sd_seen d) = set (sd_buffer d)" "distinct (sd_seen d)" "sd_windowSize d = w" "0 < w"
    using assms(1) by (simp_all add: sd_inv_def)
  have new: "token \<notin> set (sd_buffer d)" using assms(2) buf by simp
  have set': "set ((sd_buffer d)[?k := token]) = insert token (set (sd_buffer d) - {sd_buffer d ! ?k})"
    using buf len by (simp add: set_update_distinct)
  have "window_of (fst (record_token token (d, store))) = tl (window_of d) @ [token]"
    using rotate_overwrite [of ?k "sd_buffer d" token] len buf
    by (simp add: record_token_def Let_def window_of_def)
  moreover have "last_of w (window_of d @ [token]) = tl (window_of d) @ [token]"
    using len buf by (simp add: last_of_def window_of_def drop_Suc Suc_diff_le) 
  moreover have "sd_inv w (fst (record_token token (d, store)))"
    using len buf new set' by (auto simp: record_token_def Let_def sd_inv_def distinct_list_update distinct_removeAll)
  ultimately show ?thesis by simp
qed

lemma window_set: "sd_inv w d \<Longrightarrow> set (window_of d) = set (sd_seen d)"
  by (simp add: window_of_def sd_inv_def)

lemma filter_step:
  assumes "sd_inv w d"
  shows "sd_inv w (fst (snd (sd_filter token (d, store))))
    \<and> window_of (fst (snd (sd_filter token (d, store)))) = see w (window_of d) token
    \<and> (fst (sd_filter token (d, store)) \<longleftrightarrow> token \<notin> set (window_of d))"
  using assms record_step [OF assms, of token store] by (simp add: sd_filter_def see_def window_set)

definition sd_run :: "stream_dedup \<times> token_store \<Rightarrow> string list \<Rightarrow> stream_dedup \<times> token_store" where
  "sd_run st tokens = foldl (\<lambda>st token. snd (sd_filter token st)) st tokens"

lemma run_window:
  "sd_inv w (fst st) \<Longrightarrow> sd_inv w (fst (sd_run st tokens))
     \<and> window_of (fst (sd_run st tokens)) = foldl (see w) (window_of (fst st)) tokens"
proof (induction tokens arbitrary: st)
  case (Cons t ts)
  obtain d store where st: "st = (d, store)" by fastforce
  from filter_step [of w d t store] Cons st
  have "sd_inv w (fst (snd (sd_filter t st)))" "window_of (fst (snd (sd_filter t st))) = see w (window_of (fst st)) t" by simp_all
  with Cons.IH [of "snd (sd_filter t st)"] show ?case by (simp add: sd_run_def)
qed (simp add: sd_run_def)

lemma dedup_new_inv: "0 < w \<Longrightarrow> sd_inv w (stream_dedup_new (Some w) flush ns)"
  by (simp add: sd_inv_def stream_dedup_new_def)

text \<open>
  C25: The circular buffer implements the plain window: after any stream of tokens a token is let through
  exactly if it is not among the last \<open>w\<close> that were let through, and never more than \<open>w\<close> are kept.
\<close>
theorem dedup_refines_window:
  fixes flush ns store tokens
  assumes "0 < w"
  defines "st \<equiv> sd_run (stream_dedup_new (Some w) flush ns, store) tokens"
  shows "(fst (sd_filter token st) \<longleftrightarrow> token \<notin> set (foldl (see w) [] tokens)) \<and> tracked_tokens (fst st) \<le> w"
proof -
  have w0: "window_of (stream_dedup_new (Some w) flush ns) = []" by (simp add: window_of_def stream_dedup_new_def)
  from run_window [of w "(stream_dedup_new (Some w) flush ns, store)" tokens] dedup_new_inv [OF assms(1)] w0
  have inv: "sd_inv w (fst st)" and win: "window_of (fst st) = foldl (see w) [] tokens" by (simp_all add: st_def)
  have "length (sd_seen (fst st)) = length (sd_buffer (fst st))"
    using inv unfolding sd_inv_def by (metis distinct_card)
  then have "tracked_tokens (fst st) \<le> w" using inv by (simp add: tracked_tokens_def sd_inv_def)
  moreover have "fst (sd_filter token st) \<longleftrightarrow> token \<notin> set (window_of (fst st))"
    using filter_step [OF inv, of token "snd st"] by simp
  ultimately show ?thesis by (simp add: win)
qed

lemma dedup_refines_window_witness:
  "map (\<lambda>t. fst (sd_filter t (sd_run (stream_dedup_new (Some 2) None None, []) [''a'', ''b'', ''a'', ''c'']))) [''a'', ''b'', ''c''] = [True, False, False]"
  using dedup_refines_window [where w = 2 and flush = None and ns = None and store = "[]" and tokens = "[''a'', ''b'', ''a'', ''c'']"] by (simp add: see_def last_of_def)

section \<open>Restarts\<close>

lemma restore_tokens:
  assumes "distinct tokens" "set tokens \<inter> set (sd_seen d) = {}" "set (sd_seen d) = set (sd_buffer d)"
  shows "sd_buffer (foldl restore_token d tokens) = sd_buffer d @ tokens
    \<and> set (sd_seen (foldl restore_token d tokens)) = set (sd_seen d) \<union> set tokens
    \<and> sd_windowSize (foldl restore_token d tokens) = sd_windowSize d"
  using assms
proof (induction tokens arbitrary: d)
  case (Cons t ts)
  have "restore_token d t = d\<lparr>sd_seen := set_add t (sd_seen d), sd_buffer := sd_buffer d @ [t]\<rparr>"
    using Cons.prems by (simp add: restore_token_def)
  with Cons.IH [of "restore_token d t"] Cons.prems show ?case by auto
qed simp

text \<open>A restart that finds saved tokens remembers the last of them, as many as the window holds.\<close>

lemma restore_remembers:
  assumes "loadDedupTokens (case ns of None \<Rightarrow> ''default'' | Some n \<Rightarrow> n) store = Some tokens" "distinct tokens"
  shows "set (sd_seen (restore store (stream_dedup_new (Some w) flush ns))) = set (last_of w tokens)"
  using assms restore_tokens [of "last_of w tokens" "stream_dedup_new (Some w) flush ns"]
  by (simp add: restore_def last_of_def stream_dedup_new_def)

text \<open>
  The buffer is saved as it lies in memory, not from its oldest token on: after it has wrapped, a
  restart gives the newest token away first, and a repetition of it is let through while an older
  token is still remembered.
\<close>
lemma restart_forgets_newest:
  "let st = sd_run (stream_dedup_new (Some 3) (Some 1) None, []) [''a'', ''b'', ''c'', ''d''];
       restarted = (restore (snd st) (stream_dedup_new (Some 3) (Some 1) None), snd st);
       later = sd_run restarted [''e'']
   in fst (sd_filter ''d'' later) \<and> \<not> fst (sd_filter ''b'' later)"
  by code_simp

end
