(* ===== verification/Throttle.thy ===== *)
theory Throttle
  imports Amounts
begin

text \<open>
  The token bucket sized from response headers: \<open>throttle/AdaptiveThrottle.ts\<close> and
  \<open>throttle/RateLimitParser.ts\<close>. \<open>Infinity\<close> is \<open>None\<close>; fractions of tokens are exact. A waiting call
  is the number of its promise. \<open>Number\<close>, \<open>parseFloat\<close>, \<open>Date.parse\<close> and \<open>String\<close> of a number are arguments.
\<close>

section \<open>Headers\<close>

record rate_info =
  ri_limit :: "rat option"
  ri_remaining :: "rat option"
  ri_resetAt :: rat

definition getHeader :: "(string \<times> string) list \<Rightarrow> string \<Rightarrow> string option" where
  "getHeader headers name =
     (case List.find (\<lambda>(k, v). map latin_lower k = map latin_lower name) headers of
        Some (k, v) \<Rightarrow> Some v
      | None \<Rightarrow> None)"

text \<open>\<open>num_of\<close> is \<open>Number\<close>, \<open>None\<close> where that is not finite.\<close>

definition parseNumberHeader :: "(string \<Rightarrow> rat option) \<Rightarrow> (string \<times> string) list \<Rightarrow> string \<Rightarrow> rat option" where
  "parseNumberHeader num_of headers name =
     (case getHeader headers name of None \<Rightarrow> None | Some raw \<Rightarrow> num_of raw)"

definition parseRateLimitHeaders :: "(string \<Rightarrow> rat option) \<Rightarrow> (string \<times> string) list \<Rightarrow> rate_info" where
  "parseRateLimitHeaders num_of headers =
     \<lparr>ri_limit = parseNumberHeader num_of headers ''X-RateLimit-Limit'',
      ri_remaining = parseNumberHeader num_of headers ''X-RateLimit-Remaining'',
      ri_resetAt = (case parseNumberHeader num_of headers ''X-RateLimit-Reset'' of Some s \<Rightarrow> s * 1000 | None \<Rightarrow> 0)\<rparr>"

definition parseRetryAfter ::
  "(string \<Rightarrow> rat option) \<Rightarrow> (rat \<Rightarrow> string) \<Rightarrow> (string \<Rightarrow> rat option) \<Rightarrow> rat \<Rightarrow> string \<Rightarrow> int option" where
  "parseRetryAfter parse_float num_text date_parse nowMs v =
     (if v = [] \<or> trim v = [] then None
      else let t = trim v
           in case parse_float t of
                Some n \<Rightarrow>
                  if t = num_text n \<or> list_all (\<lambda>c. is_digit c \<or> c = CHR ''.'') t then Some (max 0 (js_round (n * 1000)))
                  else map_option (\<lambda>ms. max 0 (js_round (ms - nowMs))) (date_parse t)
              | None \<Rightarrow> map_option (\<lambda>ms. max 0 (js_round (ms - nowMs))) (date_parse t))"

section \<open>The bucket\<close>

record throttle =
  th_limit :: "rat option"
  th_tokens :: "rat option"
  th_baseRate :: "rat option"
  th_penalized :: bool
  th_penaltyTimer :: "rat option"
  th_lastRefillAt :: rat
  th_queue :: "nat list"
  th_drainTimer :: "rat option"
  th_breaches :: nat
  th_penaltyStart :: rat

record throttle_config =
  tc_penaltyDurationMs :: rat
  tc_maxBackoffMs :: rat

definition throttle_config_of :: "rat option \<Rightarrow> rat option \<Rightarrow> throttle_config" where
  "throttle_config_of penaltyMs maxMs =
     \<lparr>tc_penaltyDurationMs = opt_or penaltyMs 5000, tc_maxBackoffMs = opt_or maxMs 60000\<rparr>"

definition throttle_new :: "rat \<Rightarrow> throttle" where
  "throttle_new t =
     \<lparr>th_limit = None, th_tokens = None, th_baseRate = None, th_penalized = False, th_penaltyTimer = None,
      th_lastRefillAt = t, th_queue = [], th_drainTimer = None, th_breaches = 0, th_penaltyStart = 0\<rparr>"

definition effectiveRefillRate :: "throttle \<Rightarrow> rat option" where
  "effectiveRefillRate s = (if th_penalized s then map_option (\<lambda>r. r / 2) (th_baseRate s) else th_baseRate s)"

definition backoff_ms :: "throttle_config \<Rightarrow> nat \<Rightarrow> rat" where
  "backoff_ms c breaches = min (tc_penaltyDurationMs c * 2 ^ (breaches - 1)) (tc_maxBackoffMs c)"

definition effectiveBackoffMs :: "throttle_config \<Rightarrow> throttle \<Rightarrow> rat" where
  "effectiveBackoffMs c s = (if th_breaches s = 0 then tc_penaltyDurationMs c else backoff_ms c (th_breaches s))"

definition getBackoffMultiplier :: "throttle_config \<Rightarrow> throttle \<Rightarrow> rat" where
  "getBackoffMultiplier c s =
     (if th_breaches s = 0 then 1
      else min (2 ^ (th_breaches s - 1)) (tc_maxBackoffMs c / tc_penaltyDurationMs c))"

text \<open>\<open>Math.min\<close> where \<open>None\<close> is \<open>Infinity\<close>.\<close>

definition min_inf :: "rat option \<Rightarrow> rat option \<Rightarrow> rat option" where
  "min_inf a b = (case (a, b) of (Some x, Some y) \<Rightarrow> Some (min x y) | (None, _) \<Rightarrow> b | _ \<Rightarrow> a)"

definition th_refill :: "rat \<Rightarrow> throttle \<Rightarrow> throttle" where
  "th_refill t s =
     (case effectiveRefillRate s of
        None \<Rightarrow> s\<lparr>th_lastRefillAt := t\<rparr>
      | Some rate \<Rightarrow>
          s\<lparr>th_tokens := min_inf (th_limit s) (map_option (\<lambda>k. k + max 0 (t - th_lastRefillAt s) * rate) (th_tokens s)),
            th_lastRefillAt := t\<rparr>)"

definition update_throttle :: "throttle_config \<Rightarrow> rate_info \<Rightarrow> rat \<Rightarrow> throttle \<Rightarrow> throttle" where
  "update_throttle c info t s =
     (let s1 = th_refill t s;
          s2 = (if \<not> th_penalized s1 \<and> th_breaches s1 > 0 \<and> t - th_penaltyStart s1 \<ge> effectiveBackoffMs c s1
                then s1\<lparr>th_breaches := 0\<rparr> else s1)
      in case ri_limit info of
           None \<Rightarrow> s2\<lparr>th_limit := None, th_tokens := None, th_baseRate := None\<rparr>
         | Some l \<Rightarrow>
             s2\<lparr>th_limit := Some l, th_tokens := min_inf (ri_remaining info) (Some l),
                th_baseRate := Some (l / max 1 (ri_resetAt info - t))\<rparr>)"

definition token_ready :: "rat option \<Rightarrow> bool" where
  "token_ready k = (case k of None \<Rightarrow> True | Some x \<Rightarrow> x \<ge> 1)"

definition use_token :: "rat option \<Rightarrow> rat option" where
  "use_token k = map_option (\<lambda>x. x - 1) k"

definition scheduleDrain :: "throttle \<Rightarrow> throttle" where
  "scheduleDrain s =
     (if th_drainTimer s \<noteq> None \<or> th_penalized s then s
      else s\<lparr>th_drainTimer := Some (case effectiveRefillRate s of
               None \<Rightarrow> 50
             | Some rate \<Rightarrow> if rate > 0 then (case th_tokens s of None \<Rightarrow> 0 | Some k \<Rightarrow> max 0 ((1 - k) / rate)) else 50)\<rparr>)"

definition recordRateLimited :: "throttle_config \<Rightarrow> rat \<Rightarrow> throttle \<Rightarrow> throttle" where
  "recordRateLimited c t s =
     (let s1 = th_refill t s; n = th_breaches s1 + 1
      in s1\<lparr>th_penalized := True, th_breaches := n, th_penaltyStart := t, th_penaltyTimer := Some (backoff_ms c n)\<rparr>)"

definition penalty_fires :: "throttle \<Rightarrow> throttle" where
  "penalty_fires s =
     (let s1 = s\<lparr>th_penaltyTimer := None, th_penalized := False\<rparr>
      in if th_queue s1 \<noteq> [] then scheduleDrain s1 else s1)"

text \<open>\<open>acquire\<close>: whether the promise of call \<open>w\<close> is resolved at once.\<close>

definition acquire_token :: "nat \<Rightarrow> rat \<Rightarrow> throttle \<Rightarrow> throttle \<times> bool" where
  "acquire_token w t s =
     (let s1 = th_refill t s
      in if \<not> th_penalized s1 \<and> token_ready (th_tokens s1) then (s1\<lparr>th_tokens := use_token (th_tokens s1)\<rparr>, True)
         else (scheduleDrain (s1\<lparr>th_queue := th_queue s1 @ [w]\<rparr>), False))"

text \<open>The loop of \<open>_drainQueue\<close>: the tokens left, the calls resolved and those still waiting.\<close>

fun drain_loop :: "rat option \<Rightarrow> nat list \<Rightarrow> rat option \<times> nat list \<times> nat list" where
  "drain_loop k [] = (k, [], [])"
| "drain_loop k (w # ws) =
     (if token_ready k then let (k', done', rest) = drain_loop (use_token k) ws in (k', w # done', rest)
      else (k, [], w # ws))"

definition drainQueue :: "rat \<Rightarrow> throttle \<Rightarrow> throttle \<times> nat list" where
  "drainQueue t s =
     (if th_penalized s then (s, [])
      else let s1 = th_refill t s; (k, released, rest) = drain_loop (th_tokens s1) (th_queue s1);
               s2 = s1\<lparr>th_tokens := k, th_queue := rest\<rparr>
           in (if rest \<noteq> [] then scheduleDrain s2 else s2, released))"

definition drain_fires :: "rat \<Rightarrow> throttle \<Rightarrow> throttle \<times> nat list" where
  "drain_fires t s = drainQueue t (s\<lparr>th_drainTimer := None\<rparr>)"

text \<open>What \<open>throttledFetch\<close> does with a response.\<close>

definition response_arrives ::
  "(string \<Rightarrow> rat option) \<Rightarrow> throttle_config \<Rightarrow> (string \<times> string) list \<Rightarrow> nat \<Rightarrow> rat \<Rightarrow> throttle \<Rightarrow> throttle" where
  "response_arrives num_of c headers status t s =
     (let s1 = update_throttle c (parseRateLimitHeaders num_of headers) t s
      in if status = 429 then recordRateLimited c t s1 else s1)"

record throttle_stats =
  ts_tokenCount :: "rat option"
  ts_refillRate :: "rat option"
  ts_penalized :: bool
  ts_pendingQueueDepth :: nat

definition throttle_getStats :: "throttle \<Rightarrow> throttle_stats" where
  "throttle_getStats s =
     \<lparr>ts_tokenCount = th_tokens s, ts_refillRate = effectiveRefillRate s, ts_penalized = th_penalized s,
      ts_pendingQueueDepth = length (th_queue s)\<rparr>"

section \<open>Runs\<close>

datatype throttle_event =
    Acquire nat
  | RateLimited
  | Update rate_info
  | PenaltyTimer
  | DrainTimer

text \<open>An event at a time; beside the state, the calls admitted so far. Timers fire only when set.\<close>

fun throttle_step :: "throttle_config \<Rightarrow> throttle \<times> nat list \<Rightarrow> rat \<times> throttle_event \<Rightarrow> throttle \<times> nat list" where
  "throttle_step c (s, out) (t, Acquire w) = (let (s', now) = acquire_token w t s in (s', if now then out @ [w] else out))"
| "throttle_step c (s, out) (t, RateLimited) = (recordRateLimited c t s, out)"
| "throttle_step c (s, out) (t, Update info) = (update_throttle c info t s, out)"
| "throttle_step c (s, out) (t, PenaltyTimer) = (if th_penaltyTimer s = None then (s, out) else (penalty_fires s, out))"
| "throttle_step c (s, out) (t, DrainTimer) =
     (if th_drainTimer s = None then (s, out) else let (s', released) = drain_fires t s in (s', out @ released))"

definition throttle_run :: "throttle_config \<Rightarrow> throttle \<times> nat list \<Rightarrow> (rat \<times> throttle_event) list \<Rightarrow> throttle \<times> nat list" where
  "throttle_run c st evs = foldl (throttle_step c) st evs"

definition asked :: "(rat \<times> throttle_event) list \<Rightarrow> nat list" where
  "asked evs = concat (map (\<lambda>(t, e). case e of Acquire w \<Rightarrow> [w] | _ \<Rightarrow> []) evs)"


section \<open>Waiting calls\<close>

definition throttle_ok :: "throttle \<Rightarrow> bool" where
  "throttle_ok s \<longleftrightarrow>
     (th_penalized s \<longleftrightarrow> th_penaltyTimer s \<noteq> None) \<and>
     (th_queue s \<noteq> [] \<longrightarrow> th_drainTimer s \<noteq> None \<or> th_penalized s) \<and>
     (case th_limit s of
        None \<Rightarrow> th_tokens s = None \<and> th_baseRate s = None
      | Some l \<Rightarrow> th_baseRate s \<noteq> None \<and> (\<exists>k \<le> l. th_tokens s = Some k))"

lemma refill_frame [simp]:
  "th_penalized (th_refill t s) = th_penalized s" "th_penaltyTimer (th_refill t s) = th_penaltyTimer s"
  "th_queue (th_refill t s) = th_queue s" "th_drainTimer (th_refill t s) = th_drainTimer s"
  "th_limit (th_refill t s) = th_limit s" "th_baseRate (th_refill t s) = th_baseRate s"
  "th_lastRefillAt (th_refill t s) = t" "th_breaches (th_refill t s) = th_breaches s"
  by (simp_all add: th_refill_def split: option.splits)

lemma refill_tokens:
  "th_tokens (th_refill t s) =
    (case effectiveRefillRate s of None \<Rightarrow> th_tokens s
     | Some rate \<Rightarrow> min_inf (th_limit s) (map_option (\<lambda>k. k + max 0 (t - th_lastRefillAt s) * rate) (th_tokens s)))"
  by (simp add: th_refill_def split: option.splits)

lemma refill_ok: "throttle_ok s \<Longrightarrow> throttle_ok (th_refill t s)"
  by (auto simp: throttle_ok_def refill_tokens effectiveRefillRate_def min_inf_def split: option.splits if_splits)

lemma scheduleDrain_frame [simp]:
  "th_penalized (scheduleDrain s) = th_penalized s" "th_penaltyTimer (scheduleDrain s) = th_penaltyTimer s"
  "th_queue (scheduleDrain s) = th_queue s" "th_tokens (scheduleDrain s) = th_tokens s"
  "th_limit (scheduleDrain s) = th_limit s" "th_baseRate (scheduleDrain s) = th_baseRate s"
  "th_lastRefillAt (scheduleDrain s) = th_lastRefillAt s"
  by (simp_all add: scheduleDrain_def)

lemma scheduleDrain_wakes: "th_drainTimer (scheduleDrain s) \<noteq> None \<or> th_penalized s"
  by (simp add: scheduleDrain_def)

lemma drain_loop_spec:
  "drain_loop k ws = (k', released, rest) \<Longrightarrow>
    released @ rest = ws \<and> k' = map_option (\<lambda>x. x - of_nat (length released)) k \<and> (k = None \<longrightarrow> rest = []) \<and>
    (\<forall>x. k = Some x \<and> 0 \<le> x \<longrightarrow> (\<exists>x'. k' = Some x' \<and> 0 \<le> x'))"
proof (induction ws arbitrary: k k' released rest)
  case (Cons w ws)
  show ?case
  proof (cases "token_ready k")
    case True
    obtain k1 d r where d: "drain_loop (use_token k) ws = (k1, d, r)" by (metis prod_cases3)
    from Cons.IH [OF d] show ?thesis using Cons.prems True d
      by (cases k) (auto simp: use_token_def token_ready_def)
  qed (use Cons.prems in \<open>auto simp: token_ready_def option.map_id0 split: option.splits\<close>)
qed (auto simp: option.map_ident)

lemma acquire_ok: "throttle_ok s \<Longrightarrow> throttle_ok (fst (acquire_token w t s))"
  using refill_ok [of s t] scheduleDrain_wakes [of "th_refill t s\<lparr>th_queue := th_queue s @ [w]\<rparr>"]
  by (auto simp: acquire_token_def Let_def throttle_ok_def use_token_def split: option.splits)

lemma drain_ok: "throttle_ok s \<Longrightarrow> throttle_ok (fst (drain_fires t s))"
proof -
  assume ok: "throttle_ok s"
  let ?s = "s\<lparr>th_drainTimer := None\<rparr>"
  obtain k d r where d: "drain_loop (th_tokens (th_refill t ?s)) (th_queue s) = (k, d, r)" by (metis prod_cases3)
  have spec: "k = map_option (\<lambda>x. x - of_nat (length d)) (th_tokens (th_refill t ?s))" using drain_loop_spec [OF d] by blast
  have tok: "case th_limit s of None \<Rightarrow> th_tokens (th_refill t ?s) = None \<and> th_baseRate s = None
      | Some l \<Rightarrow> th_baseRate s \<noteq> None \<and> (\<exists>k \<le> l. th_tokens (th_refill t ?s) = Some k)"
    using ok by (auto simp: throttle_ok_def refill_tokens effectiveRefillRate_def min_inf_def split: option.splits if_splits)
  have k: "\<exists>k' \<le> l. k = Some k'" if "th_tokens (th_refill t ?s) = Some x" "x \<le> l" for x l
    using spec that by (simp add: add_increasing2 diff_le_eq)
  show ?thesis
    using ok tok k spec d scheduleDrain_wakes [of "(th_refill t ?s)\<lparr>th_tokens := k, th_queue := r\<rparr>"]
    by (auto simp: drain_fires_def drainQueue_def Let_def throttle_ok_def split: option.splits)
qed

lemma update_frame:
  "th_penalized (update_throttle c i t s) = th_penalized s" "th_penaltyTimer (update_throttle c i t s) = th_penaltyTimer s"
  "th_queue (update_throttle c i t s) = th_queue s" "th_drainTimer (update_throttle c i t s) = th_drainTimer s"
  by (simp_all add: update_throttle_def Let_def split: option.splits)

lemma update_ok: "throttle_ok s \<Longrightarrow> throttle_ok (update_throttle c i t s)"
  by (auto simp: throttle_ok_def update_frame)
    (auto simp: update_throttle_def Let_def min_inf_def split: option.splits)

definition run_ok :: "throttle \<times> nat list \<Rightarrow> bool" where
  "run_ok st \<longleftrightarrow> throttle_ok (fst st)"

lemma step_ok: "throttle_ok s \<Longrightarrow> throttle_ok (fst (throttle_step c (s, out) (t, e)))"
proof (cases e)
  case (Acquire w)
  then show "throttle_ok s \<Longrightarrow> ?thesis" using acquire_ok [of s w t] by (simp add: case_prod_unfold Let_def)
next
  case RateLimited
  then show "throttle_ok s \<Longrightarrow> ?thesis"
    using refill_ok [of s t] by (auto simp: recordRateLimited_def Let_def throttle_ok_def split: option.splits)
next
  case (Update i)
  then show "throttle_ok s \<Longrightarrow> ?thesis" by (simp add: update_ok)
next
  case PenaltyTimer
  then show "throttle_ok s \<Longrightarrow> ?thesis"
    using scheduleDrain_wakes [of "s\<lparr>th_penaltyTimer := None, th_penalized := False\<rparr>"]
    by (auto simp: penalty_fires_def Let_def throttle_ok_def split: option.splits)
next
  case DrainTimer
  then show "throttle_ok s \<Longrightarrow> ?thesis" using drain_ok [of s t] by (simp add: case_prod_unfold Let_def)
qed

interpretation throttle_machine: machine "throttle_step c" run_ok for c
  by unfold_locales (metis run_ok_def step_ok surj_pair fst_conv)

lemma step_calls:
  "throttle_step c (s, out) (t, e) = (s', out') \<Longrightarrow>
    mset out' + mset (th_queue s') = mset out + mset (th_queue s) + mset (asked [(t, e)])"
proof (cases e)
  case (Acquire w)
  then show "throttle_step c (s, out) (t, e) = (s', out') \<Longrightarrow> ?thesis"
    by (auto simp: asked_def acquire_token_def Let_def split: if_splits)
next
  case DrainTimer
  obtain k d r where d: "drain_loop (th_tokens (th_refill t (s\<lparr>th_drainTimer := None\<rparr>))) (th_queue s) = (k, d, r)" by (metis prod_cases3)
  have "d @ r = th_queue s" using drain_loop_spec [OF d] by blast
  then have ms: "mset (th_queue s) = mset d + mset r" by (metis mset_append)
  from DrainTimer show "throttle_step c (s, out) (t, e) = (s', out') \<Longrightarrow> ?thesis"
    using ms by (auto simp: asked_def drain_fires_def drainQueue_def Let_def d split: if_splits)
qed (auto simp: asked_def recordRateLimited_def update_frame penalty_fires_def Let_def split: if_splits)

lemma run_calls:
  "throttle_run c (s, out) evs = (s', out') \<Longrightarrow>
    mset out' + mset (th_queue s') = mset out + mset (th_queue s) + mset (asked evs)"
proof (induction evs arbitrary: s out)
  case Nil
  then show ?case by (simp add: throttle_run_def asked_def)
next
  case (Cons ev evs)
  obtain t e where ev: "ev = (t, e)" by (cases ev)
  obtain s1 out1 where 1: "throttle_step c (s, out) (t, e) = (s1, out1)" by (metis surj_pair)
  have "throttle_run c (s1, out1) evs = (s', out')" using Cons.prems 1 by (simp add: throttle_run_def ev)
  then have "mset out' + mset (th_queue s') = mset out1 + mset (th_queue s1) + mset (asked evs)" by (rule Cons.IH)
  moreover have "asked (ev # evs) = asked [(t, e)] @ asked evs" by (simp add: asked_def ev)
  ultimately show ?case using step_calls [OF 1] by (simp add: ac_simps)
qed

text \<open>
  C: no call is lost or admitted twice: after any sequence of calls, responses and timers every call that
  asked for a token has either been let through once or is waiting, and while one is waiting a timer is set
  that will look at the queue again. The tokens never exceed the limit the server gave.
\<close>

theorem throttle_loses_no_call:
  assumes "throttle_run c (throttle_new t0, []) evs = (s, out)"
  shows "mset out + mset (th_queue s) = mset (asked evs) \<and>
    (th_queue s \<noteq> [] \<longrightarrow> th_drainTimer s \<noteq> None \<or> th_penaltyTimer s \<noteq> None) \<and>
    (\<forall>l. th_limit s = Some l \<longrightarrow> (\<exists>k \<le> l. th_tokens s = Some k))"
proof -
  have "run_ok (throttle_new t0, [])" by (simp add: run_ok_def throttle_ok_def throttle_new_def)
  then have "run_ok (throttle_run c (throttle_new t0, []) evs)" unfolding throttle_run_def by (rule throttle_machine.run_inv)
  then have "throttle_ok s" using assms by (simp add: run_ok_def)
  then show ?thesis using run_calls [OF assms] by (auto simp: throttle_ok_def throttle_new_def)
qed

theorem throttle_loses_no_call_witness:
  "\<exists>s out. throttle_run (throttle_config_of None None) (throttle_new 0, []) [(1, RateLimited), (2, Acquire 7)] = (s, out) \<and>
    mset out + mset (th_queue s) = {#7#}"
proof -
  obtain s out where r: "throttle_run (throttle_config_of None None) (throttle_new 0, []) [(1, RateLimited), (2, Acquire 7)] = (s, out)"
    by (metis surj_pair)
  then show ?thesis using throttle_loses_no_call [OF r] by (intro exI [of _ s] exI [of _ out]) (simp add: asked_def)
qed

section \<open>The rate is kept\<close>

definition bucket :: "rat \<Rightarrow> rat \<Rightarrow> throttle \<Rightarrow> rat \<Rightarrow> bool" where
  "bucket l r s k \<longleftrightarrow> th_limit s = Some l \<and> th_baseRate s = Some r \<and> th_tokens s = Some k \<and> 0 \<le> k \<and> 0 \<le> l \<and> 0 \<le> r"

lemma bucket_refill:
  assumes "bucket l r s k" "th_lastRefillAt s \<le> t"
  shows "\<exists>k'. bucket l r (th_refill t s) k' \<and> k' \<le> k + r * (t - th_lastRefillAt s)"
proof -
  define rate where "rate = (if th_penalized s then r / 2 else r)"
  have rate: "0 \<le> rate" "rate \<le> r" "effectiveRefillRate s = Some rate"
    using assms(1) by (auto simp: bucket_def rate_def effectiveRefillRate_def)
  have el: "max 0 (t - th_lastRefillAt s) = t - th_lastRefillAt s" using assms(2) by simp
  have le: "(t - th_lastRefillAt s) * rate \<le> r * (t - th_lastRefillAt s)"
    using mult_left_mono [OF rate(2), of "t - th_lastRefillAt s"] assms(2) by (simp add: mult.commute)
  have nn: "0 \<le> (t - th_lastRefillAt s) * rate" using rate(1) assms(2) by simp
  have tok: "th_tokens (th_refill t s) = Some (min l (k + (t - th_lastRefillAt s) * rate))"
    using assms(1) rate(3) by (simp add: refill_tokens bucket_def min_inf_def el)
  have "bucket l r (th_refill t s) (min l (k + (t - th_lastRefillAt s) * rate))"
    using assms(1) tok nn by (auto simp: bucket_def)
  moreover have "min l (k + (t - th_lastRefillAt s) * rate) \<le> k + r * (t - th_lastRefillAt s)" using le by linarith
  ultimately show ?thesis by blast
qed

lemma bucket_step:
  assumes "throttle_step c (s, out) (t, e) = (s', out')" "bucket l r s k" "th_lastRefillAt s \<le> t" "\<And>i. e \<noteq> Update i"
  shows "\<exists>k'. bucket l r s' k' \<and> th_lastRefillAt s \<le> th_lastRefillAt s' \<and> th_lastRefillAt s' \<le> t \<and>
    of_nat (length out') + k' \<le> of_nat (length out) + k + r * (th_lastRefillAt s' - th_lastRefillAt s)"
proof (cases e)
  case (Acquire w)
  obtain k1 where k1: "bucket l r (th_refill t s) k1" "k1 \<le> k + r * (t - th_lastRefillAt s)" using bucket_refill [OF assms(2,3)] by blast
  show ?thesis
  proof (cases "\<not> th_penalized s \<and> 1 \<le> k1")
    case True
    then have "bucket l r s' (k1 - 1) \<and> out' = out @ [w] \<and> th_lastRefillAt s' = t"
      using assms(1) k1(1) Acquire by (auto simp: acquire_token_def Let_def bucket_def token_ready_def use_token_def)
    then show ?thesis using k1(2) assms(3) by (intro exI [of _ "k1 - 1"]) auto
  next
    case False
    then have "bucket l r s' k1 \<and> out' = out \<and> th_lastRefillAt s' = t"
      using assms(1) k1(1) Acquire by (auto simp: acquire_token_def Let_def bucket_def token_ready_def)
    then show ?thesis using k1(2) assms(3) by (intro exI [of _ k1]) auto
  qed
next
  case RateLimited
  obtain k1 where k1: "bucket l r (th_refill t s) k1" "k1 \<le> k + r * (t - th_lastRefillAt s)" using bucket_refill [OF assms(2,3)] by blast
  then have "bucket l r s' k1 \<and> out' = out \<and> th_lastRefillAt s' = t"
    using assms(1) RateLimited by (auto simp: recordRateLimited_def Let_def bucket_def)
  then show ?thesis using k1(2) assms(3) by (intro exI [of _ k1]) auto
next
  case PenaltyTimer
  then have "bucket l r s' k \<and> out' = out \<and> th_lastRefillAt s' = th_lastRefillAt s"
    using assms(1,2) by (auto simp: penalty_fires_def Let_def bucket_def split: if_splits)
  then show ?thesis using assms(3) by (intro exI [of _ k]) auto
next
  case DrainTimer
  show ?thesis
  proof (cases "th_drainTimer s = None \<or> th_penalized s")
    case True
    then have "bucket l r s' k \<and> out' = out \<and> th_lastRefillAt s' = th_lastRefillAt s"
      using assms(1,2) DrainTimer by (auto simp: drain_fires_def drainQueue_def bucket_def split: if_splits)
    then show ?thesis using assms(3) by (intro exI [of _ k]) auto
  next
    case False
    let ?s = "s\<lparr>th_drainTimer := None\<rparr>"
    have "bucket l r ?s k" "th_lastRefillAt ?s \<le> t" using assms(2,3) by (simp_all add: bucket_def)
    then obtain k1 where k1: "bucket l r (th_refill t ?s) k1" "k1 \<le> k + r * (t - th_lastRefillAt s)" using bucket_refill by force
    obtain k' d q where d: "drain_loop (Some k1) (th_queue s) = (k', d, q)" by (metis prod_cases3)
    have kd: "k' = Some (k1 - of_nat (length d))" "0 \<le> k1 - of_nat (length d)"
      using drain_loop_spec [OF d] k1(1) by (auto simp: bucket_def)
    have "th_tokens (th_refill t ?s) = Some k1" using k1(1) by (simp add: bucket_def)
    then have "bucket l r s' (k1 - of_nat (length d)) \<and> out' = out @ d \<and> th_lastRefillAt s' = t"
      using assms(1) DrainTimer False k1(1) kd d
      by (auto simp: drain_fires_def drainQueue_def Let_def bucket_def split: if_splits)
    then show ?thesis using k1(2) assms(3) by (intro exI [of _ "k1 - of_nat (length d)"]) auto
  qed
qed (use assms(4) in auto)

lemma bucket_run:
  assumes "throttle_run c (s, out) evs = (s', out')" "bucket l r s k"
    "sorted (th_lastRefillAt s # map fst evs)" "\<And>t i. (t, Update i) \<notin> set evs"
  shows "of_nat (length out') \<le> of_nat (length out) + k + r * (last (th_lastRefillAt s # map fst evs) - th_lastRefillAt s)"
  using assms
proof (induction evs arbitrary: s out k)
  case Nil
  then show ?case by (simp add: throttle_run_def bucket_def)
next
  case (Cons ev evs)
  obtain t e where ev: "ev = (t, e)" by (cases ev)
  obtain s1 out1 where 1: "throttle_step c (s, out) (t, e) = (s1, out1)" by (metis surj_pair)
  have le: "th_lastRefillAt s \<le> t" using Cons.prems(3) by (simp add: ev)
  obtain k1 where k1: "bucket l r s1 k1" "th_lastRefillAt s \<le> th_lastRefillAt s1" "th_lastRefillAt s1 \<le> t"
    "of_nat (length out1) + k1 \<le> of_nat (length out) + k + r * (th_lastRefillAt s1 - th_lastRefillAt s)"
    using bucket_step [OF 1 Cons.prems(2) le] Cons.prems(4) by (auto simp: ev)
  have run1: "throttle_run c (s1, out1) evs = (s', out')" using Cons.prems(1) 1 by (simp add: throttle_run_def ev)
  have srt: "sorted (th_lastRefillAt s1 # map fst evs)" using Cons.prems(3) k1(3) by (auto simp: ev)
  define fin where "fin = last (t # map fst evs)"
  have last: "last (th_lastRefillAt s1 # map fst evs) \<le> fin" using k1(3) by (simp add: fin_def)
  have "of_nat (length out') \<le> of_nat (length out1) + k1 + r * (last (th_lastRefillAt s1 # map fst evs) - th_lastRefillAt s1)"
    using Cons.IH [OF run1 k1(1) srt] Cons.prems(4) by auto
  also have "\<dots> \<le> of_nat (length out1) + k1 + r * (fin - th_lastRefillAt s1)"
    using last k1(1) by (intro add_left_mono mult_left_mono) (auto simp: bucket_def)
  also have "\<dots> \<le> of_nat (length out) + k + r * (th_lastRefillAt s1 - th_lastRefillAt s) + r * (fin - th_lastRefillAt s1)"
    using k1(4) by simp
  also have "\<dots> = of_nat (length out) + k + r * (fin - th_lastRefillAt s)" by (simp add: algebra_simps)
  finally show ?case by (simp add: fin_def ev)
qed

text \<open>
  C34: C: the bucket keeps the server's rate: between two answers of the server, however calls, breaches and
  timers interleave, no more calls are admitted than the tokens there were plus what the rate yields in the
  time that passed.
\<close>

theorem throttle_keeps_rate:
  assumes "throttle_run c (s, []) evs = (s', out)"
    "th_limit s = Some l" "th_baseRate s = Some r" "th_tokens s = Some k" "0 \<le> k" "0 \<le> l" "0 \<le> r"
    "sorted (th_lastRefillAt s # map fst evs)" "\<forall>(t, e) \<in> set evs. \<forall>i. e \<noteq> Update i"
  shows "of_nat (length out) \<le> k + r * (last (th_lastRefillAt s # map fst evs) - th_lastRefillAt s)"
  using bucket_run [OF assms(1), of l r k] assms(2-9) by (fastforce simp: bucket_def)

theorem throttle_keeps_rate_witness:
  "\<exists>s out. throttle_run (throttle_config_of None None)
      ((throttle_new 0)\<lparr>th_limit := Some 10, th_tokens := Some 1, th_baseRate := Some (1 / 100)\<rparr>, [])
      [(0, Acquire 1), (50, Acquire 2), (100, DrainTimer)] = (s, out) \<and> of_nat (length out) \<le> (2 :: rat)"
proof -
  obtain s out where r: "throttle_run (throttle_config_of None None)
      ((throttle_new 0)\<lparr>th_limit := Some 10, th_tokens := Some 1, th_baseRate := Some (1 / 100)\<rparr>, [])
      [(0, Acquire 1), (50, Acquire 2), (100, DrainTimer)] = (s, out)"
    by (metis surj_pair)
  have "of_nat (length out) \<le> (2 :: rat)"
    using throttle_keeps_rate [OF r, of 10 "1 / 100" 1] by (simp add: throttle_new_def)
  with r show ?thesis by blast
qed

section \<open>Backing off\<close>

lemma backoff_bounded: "backoff_ms c n \<le> tc_maxBackoffMs c"
  by (simp add: backoff_ms_def)

lemma backoff_doubles:
  "0 < n \<Longrightarrow> tc_penaltyDurationMs c * 2 ^ n \<le> tc_maxBackoffMs c \<Longrightarrow> 0 \<le> tc_penaltyDurationMs c \<Longrightarrow> backoff_ms c (n + 1) = 2 * backoff_ms c n"
proof (cases n)
  case (Suc m)
  assume a: "tc_penaltyDurationMs c * 2 ^ n \<le> tc_maxBackoffMs c" "0 \<le> tc_penaltyDurationMs c"
  then have "0 \<le> tc_penaltyDurationMs c * 2 ^ m" by simp
  then have "tc_penaltyDurationMs c * 2 ^ m \<le> tc_maxBackoffMs c" using a(1) Suc by simp
  then show ?thesis using a(1) Suc by (simp add: backoff_ms_def min_def)
qed simp

section \<open>Behaviour worth knowing\<close>

text \<open>The penalty timer does not th_refill: the whole pause is credited at the full rate afterwards.\<close>

lemma penalty_is_not_charged:
  "th_tokens (th_refill 5000 (penalty_fires ((throttle_new 0)\<lparr>th_limit := Some 100, th_tokens := Some 0,
     th_baseRate := Some (1 / 100), th_penalized := True, th_penaltyTimer := Some 5000\<rparr>))) = Some 50"
  by (simp add: penalty_fires_def refill_tokens effectiveRefillRate_def min_inf_def throttle_new_def Let_def)

text \<open>Without a reset header the bucket is full again after a millisecond.\<close>

lemma no_reset_no_throttle:
  "t \<ge> 0 \<Longrightarrow> th_baseRate (update_throttle c \<lparr>ri_limit = Some l, ri_remaining = Some 0, ri_resetAt = 0\<rparr> t s) = Some l"
  by (simp add: update_throttle_def Let_def max_def)

text \<open>A call arriving when a token is ready overtakes the calls that wait.\<close>

lemma newcomer_overtakes:
  "throttle_run c ((throttle_new 0)\<lparr>th_limit := Some 5, th_tokens := Some 0, th_baseRate := Some 1\<rparr>, [])
     [(0, Acquire 1), (1, Acquire 2)] = (s, out) \<Longrightarrow> out = [2]"
  by (auto simp: throttle_run_def acquire_token_def refill_tokens effectiveRefillRate_def min_inf_def throttle_new_def
      token_ready_def use_token_def scheduleDrain_def Let_def)

end
