(* ===== verification/Token_Gate.thy ===== *)
theory Token_Gate
  imports Cache
begin

text \<open>
  \<open>tokenGateController.ts\<close>: access for the holders of an asset. \<open>verify\<close> looks into the cache of
  \<open>Cache\<close> and otherwise waits for Horizon, so it is cut at that wait; the calls that wait are part of
  the state. Horizon's accounts are arguments. \<open>fl\<close> rounds a decimal to a double.
\<close>

section \<open>Policies and balances\<close>

record gate_policy =
  gp_asset :: string
  gp_minBalance :: string
  gp_strict :: "bool option"
  gp_validFrom :: "int option"
  gp_validUntil :: "int option"

record verify_result =
  vr_allowed :: bool
  vr_actualBalance :: string
  vr_requiredBalance :: string
  vr_cached :: bool

datatype gate_error = AccessDenied string string string string | LoadAccountFailed

text \<open>
  \<open>parseFloat\<close> on a plain decimal: an optional sign, digits, and digits behind a point; what follows is
  ignored, and without a digit the result is \<open>NaN\<close>.
\<close>

definition parse_unsigned :: "string \<Rightarrow> rat option" where
  "parse_unsigned s =
     (let whole = takeWhile is_digit s; rest = dropWhile is_digit s;
          frac = (case rest of c # cs \<Rightarrow> if c = CHR ''.'' then takeWhile is_digit cs else [] | [] \<Rightarrow> [])
      in if whole = [] \<and> frac = [] then None
         else Some (of_nat (parse_digits (whole @ frac)) / 10 ^ length frac))"

definition parseBalance :: "(rat \<Rightarrow> rat) \<Rightarrow> string \<Rightarrow> rat option" where
  "parseBalance fl b =
     (case b of
        c # cs \<Rightarrow>
          if c = CHR ''-'' then map_option (\<lambda>x. fl (- x)) (parse_unsigned cs)
          else if c = CHR ''+'' then map_option fl (parse_unsigned cs)
          else map_option fl (parse_unsigned b)
      | [] \<Rightarrow> None)"

definition at_least :: "rat option \<Rightarrow> rat option \<Rightarrow> bool" where
  "at_least x y = (case (x, y) of (Some a, Some b) \<Rightarrow> a \<ge> b | _ \<Rightarrow> False)"

definition gate_key :: "string \<Rightarrow> gate_policy \<Rightarrow> string" where
  "gate_key caller policy = ''token-gate:'' @ caller @ '':'' @ gp_asset policy"

record balance_line =
  bl_type :: string
  bl_code :: "string option"
  bl_issuer :: "string option"
  bl_balance :: string

definition zero_balance :: string where
  "zero_balance = ''0.0000000''"

definition fetchBalance :: "string \<Rightarrow> balance_line list \<Rightarrow> string" where
  "fetchBalance asset lines =
     (let found =
        (if asset = ''native'' \<or> map upper_char asset = ''XLM'' then find (\<lambda>b. bl_type b = ''native'') lines
         else let parts = split_at CHR '':'' asset;
                  issuer = (if length parts > 1 then Some (parts ! 1) else None)
              in find (\<lambda>b. (bl_type b = ''credit_alphanum4'' \<or> bl_type b = ''credit_alphanum12'')
                   \<and> bl_code b = Some (hd parts) \<and> bl_issuer b = issuer) lines)
      in case found of None \<Rightarrow> zero_balance | Some b \<Rightarrow> bl_balance b)"

section \<open>The controller\<close>

record gate =
  g_cache :: "verify_result simple_cache"
  g_waiting :: "(nat \<times> string \<times> gate_policy) list"

definition gate_new :: "int option \<Rightarrow> gate" where
  "gate_new cacheTtlMs =
     \<lparr>g_cache = simple_cache_new (Some \<lparr>cfg_enabled = Some True, cfg_ttl = None,
        cfg_ttlMs = Some (case cacheTtlMs of None \<Rightarrow> 15000 | Some m \<Rightarrow> m), cfg_maxEntries = None\<rparr>),
      g_waiting = []\<rparr>"

definition strict :: "gate_policy \<Rightarrow> bool" where
  "strict p \<longleftrightarrow> gp_strict p \<noteq> Some False"

definition asset_code :: "gate_policy \<Rightarrow> string" where
  "asset_code p = hd (split_at CHR '':'' (gp_asset p))"

definition deny :: "string \<Rightarrow> gate_policy \<Rightarrow> string \<Rightarrow> gate_error" where
  "deny caller p actual = AccessDenied caller (asset_code p) (gp_minBalance p) actual"

definition outside_window :: "gate_policy \<Rightarrow> int \<Rightarrow> bool" where
  "outside_window p now \<longleftrightarrow>
     (case gp_validFrom p of Some f \<Rightarrow> now < f | None \<Rightarrow> False)
     \<or> (case gp_validUntil p of Some u \<Rightarrow> now > u | None \<Rightarrow> False)"

text \<open>\<open>verify\<close> up to its wait: an outcome, or \<open>None\<close> when the balance is needed.\<close>

definition verify_start ::
  "string \<Rightarrow> gate_policy \<Rightarrow> int \<Rightarrow> verify_result simple_cache \<Rightarrow> (gate_error + verify_result) option \<times> verify_result simple_cache" where
  "verify_start caller p now c =
     (if outside_window p now then
        let r = \<lparr>vr_allowed = False, vr_actualBalance = zero_balance, vr_requiredBalance = gp_minBalance p, vr_cached = False\<rparr>
        in (Some (if strict p then Inl (deny caller p (vr_actualBalance r)) else Inr r), c)
      else case sc_get (gate_key caller p) now c of
        (Some cached, c', _) \<Rightarrow>
          (Some (if \<not> vr_allowed cached \<and> strict p then Inl (deny caller p (vr_actualBalance cached))
                 else Inr (cached\<lparr>vr_cached := True\<rparr>)), c')
      | (None, c', _) \<Rightarrow> (None, c'))"

definition balance_result :: "(rat \<Rightarrow> rat) \<Rightarrow> gate_policy \<Rightarrow> string \<Rightarrow> verify_result" where
  "balance_result fl p balance =
     \<lparr>vr_allowed = at_least (parseBalance fl balance) (parseBalance fl (gp_minBalance p)),
      vr_actualBalance = balance, vr_requiredBalance = gp_minBalance p, vr_cached = False\<rparr>"

definition verify_finish ::
  "(rat \<Rightarrow> rat) \<Rightarrow> string \<Rightarrow> gate_policy \<Rightarrow> balance_line list \<Rightarrow> int \<Rightarrow> verify_result simple_cache
     \<Rightarrow> (gate_error + verify_result) \<times> verify_result simple_cache" where
  "verify_finish fl caller p lines now c =
     (let balance = fetchBalance (gp_asset p) lines;
          r = balance_result fl p balance;
          c' = fst (sc_set (gate_key caller p) r now c)
      in (if \<not> vr_allowed r \<and> strict p then Inl (deny caller p balance) else Inr r, c'))"

definition gate_invalidate :: "string \<Rightarrow> gate_policy \<Rightarrow> verify_result simple_cache \<Rightarrow> verify_result simple_cache" where
  "gate_invalidate caller p c = fst (sc_invalidate (Some (gate_key caller p)) None c)"

section \<open>Calls that overlap\<close>

datatype gate_event =
    VerifyEv nat string gate_policy int
  | AccountEv nat "balance_line list" int
  | AccountFailedEv nat
  | InvalidateEv string gate_policy
  | ClearCacheEv

text \<open>The outcome that an event gives to a call, and the next state.\<close>

fun gate_respond :: "(rat \<Rightarrow> rat) \<Rightarrow> gate \<Rightarrow> gate_event \<Rightarrow> (nat \<times> (gate_error + verify_result)) option \<times> gate" where
  "gate_respond fl g (VerifyEv n caller p now) =
     (case verify_start caller p now (g_cache g) of
        (Some r, c) \<Rightarrow> (Some (n, r), g\<lparr>g_cache := c\<rparr>)
      | (None, c) \<Rightarrow> (None, g\<lparr>g_cache := c, g_waiting := (n, caller, p) # g_waiting g\<rparr>))"
| "gate_respond fl g (AccountEv n lines now) =
     (case map_of (g_waiting g) n of
        None \<Rightarrow> (None, g)
      | Some (caller, p) \<Rightarrow>
          (case verify_finish fl caller p lines now (g_cache g) of
             (r, c) \<Rightarrow> (Some (n, r), g\<lparr>g_cache := c, g_waiting := AList.delete n (g_waiting g)\<rparr>)))"
| "gate_respond fl g (AccountFailedEv n) =
     (case map_of (g_waiting g) n of
        None \<Rightarrow> (None, g)
      | Some _ \<Rightarrow> (Some (n, Inl LoadAccountFailed), g\<lparr>g_waiting := AList.delete n (g_waiting g)\<rparr>))"
| "gate_respond fl g (InvalidateEv caller p) = (None, g\<lparr>g_cache := gate_invalidate caller p (g_cache g)\<rparr>)"
| "gate_respond fl g ClearCacheEv = (None, g\<lparr>g_cache := sc_clear (g_cache g)\<rparr>)"

definition gate_step :: "(rat \<Rightarrow> rat) \<Rightarrow> gate \<Rightarrow> gate_event \<Rightarrow> gate" where
  "gate_step fl g e = snd (gate_respond fl g e)"

section \<open>The cache of the gate is a cache\<close>

fun cache_op :: "(rat \<Rightarrow> rat) \<Rightarrow> gate \<Rightarrow> gate_event \<Rightarrow> (int \<times> (simple_op + string \<times> verify_result)) list" where
  "cache_op fl g (VerifyEv n caller p now) = (if outside_window p now then [] else [(now, Inl (GetOp (gate_key caller p)))])"
| "cache_op fl g (AccountEv n lines now) =
     (case map_of (g_waiting g) n of
        None \<Rightarrow> []
      | Some (caller, p) \<Rightarrow> [(now, Inr (gate_key caller p, balance_result fl p (fetchBalance (gp_asset p) lines)))])"
| "cache_op fl g (AccountFailedEv n) = []"
| "cache_op fl g (InvalidateEv caller p) = [(0, Inl (InvalidateOp (Some (gate_key caller p)) None))]"
| "cache_op fl g ClearCacheEv = [(0, Inl ClearOp)]"

primrec cache_ops :: "(rat \<Rightarrow> rat) \<Rightarrow> gate \<Rightarrow> gate_event list \<Rightarrow> (int \<times> (simple_op + string \<times> verify_result)) list" where
  "cache_ops fl g [] = []"
| "cache_ops fl g (e # es) = cache_op fl g e @ cache_ops fl (gate_step fl g e) es"

lemma simple_run_Nil [simp]: "simple_run [] c = c" and simple_run_append: "simple_run (h1 @ h2) c = simple_run h2 (simple_run h1 c)"
  by (simp_all add: simple_run_def)

lemma step_cache: "g_cache (gate_step fl g e) = simple_run (cache_op fl g e) (g_cache g)"
proof (cases e)
  case (VerifyEv n caller p now)
  then show ?thesis
    by (cases "sc_get (gate_key caller p) now (g_cache g)" rule: prod_cases3)
      (auto simp: gate_step_def verify_start_def simple_run_def simple_act_def Let_def split: option.splits)
next
  case (AccountEv n lines now)
  then show ?thesis
    by (auto simp: gate_step_def verify_finish_def simple_run_def simple_act_def Let_def split: option.splits)
qed (auto simp: gate_step_def simple_run_def simple_act_def gate_invalidate_def split: option.splits)

lemma run_cache: "g_cache (foldl (gate_step fl) g es) = simple_run (cache_ops fl g es) (g_cache g)"
  by (induction es arbitrary: g) (simp_all add: step_cache simple_run_append)

lemma step_waiting:
  "w \<in> set (g_waiting (gate_step fl g e)) \<Longrightarrow>
     w \<in> set (g_waiting g) \<or> (\<exists>now. e = VerifyEv (fst w) (fst (snd w)) (snd (snd w)) now)"
  by (cases e) (auto simp: gate_step_def verify_start_def Let_def AList.delete_eq split: option.splits prod.splits if_splits)

lemma run_waiting:
  "w \<in> set (g_waiting (foldl (gate_step fl) g es)) \<Longrightarrow>
     w \<in> set (g_waiting g) \<or> (\<exists>now. VerifyEv (fst w) (fst (snd w)) (snd (snd w)) now \<in> set es)"
proof (induction es arbitrary: g)
  case (Cons e es)
  from Cons.prems have "w \<in> set (g_waiting (foldl (gate_step fl) (gate_step fl g e) es))" by simp
  from Cons.IH [OF this] step_waiting [of w fl g e] show ?case by auto
qed simp

lemma writes_answer_calls:
  assumes "(t, Inr (k, v)) \<in> set (cache_ops fl g es)"
  shows "\<exists>n lines caller p. AccountEv n lines t \<in> set es \<and> k = gate_key caller p
    \<and> v = balance_result fl p (fetchBalance (gp_asset p) lines)
    \<and> ((n, caller, p) \<in> set (g_waiting g) \<or> (\<exists>t0. VerifyEv n caller p t0 \<in> set es))"
  using assms
proof (induction es arbitrary: g)
  case (Cons e es)
  show ?case
  proof (cases "(t, Inr (k, v)) \<in> set (cache_op fl g e)")
    case True
    then obtain n lines caller p where "e = AccountEv n lines t" "map_of (g_waiting g) n = Some (caller, p)"
      "k = gate_key caller p" "v = balance_result fl p (fetchBalance (gp_asset p) lines)"
      by (cases e) (auto split: option.splits if_splits, metis)
    with map_of_SomeD [OF this(2)] show ?thesis by fastforce
  next
    case False
    then have "(t, Inr (k, v)) \<in> set (cache_ops fl (gate_step fl g e) es)" using Cons.prems by simp
    from Cons.IH [OF this] obtain n lines caller p where
      *: "AccountEv n lines t \<in> set es" "k = gate_key caller p" "v = balance_result fl p (fetchBalance (gp_asset p) lines)"
        "(n, caller, p) \<in> set (g_waiting (gate_step fl g e)) \<or> (\<exists>t0. VerifyEv n caller p t0 \<in> set es)" by blast
    from *(4) step_waiting [of "(n, caller, p)" fl g e]
    have "(n, caller, p) \<in> set (g_waiting g) \<or> (\<exists>t0. VerifyEv n caller p t0 \<in> set (e # es))" by auto
    moreover have "AccountEv n lines t \<in> set (e # es)" using *(1) by simp
    ultimately show ?thesis using *(2,3) by blast
  qed
qed simp

section \<open>Access is backed by a balance\<close>

lemma gate_key_inj:
  assumes "gate_key a p = gate_key b q" "CHR '':'' \<notin> set a" "CHR '':'' \<notin> set b"
  shows "a = b \<and> gp_asset p = gp_asset q"
proof -
  have *: "a @ '':'' @ gp_asset p = b @ '':'' @ gp_asset q" using assms(1) by (simp add: gate_key_def)
  have "takeWhile (\<lambda>c. c \<noteq> CHR '':'') (a @ '':'' @ gp_asset p) = a" "takeWhile (\<lambda>c. c \<noteq> CHR '':'') (b @ '':'' @ gp_asset q) = b"
    using assms(2,3) by (auto simp: takeWhile_append)
  with * have "a = b" by metis
  with * show ?thesis by simp
qed

definition gate_ttl :: "int option \<Rightarrow> int" where
  "gate_ttl m = (case m of None \<Rightarrow> 15000 | Some t \<Rightarrow> t)"

lemma gate_ttl_for: "ttl_for (sc_ttlConfig (g_cache (gate_new m))) (gate_key caller p) = Some (gate_ttl m)"
proof -
  have "method_of (gate_key caller p) = ''token-gate''" by (simp add: method_of_def gate_key_def Let_def)
  moreover have "''token-gate'' \<notin> set inherited_names" by (simp add: inherited_names_def)
  ultimately show ?thesis by (simp add: ttl_for_def gate_new_def simple_cache_new_def Let_def gate_ttl_def)
qed

definition suffices :: "(rat \<Rightarrow> rat) \<Rightarrow> gate_policy \<Rightarrow> balance_line list \<Rightarrow> bool" where
  "suffices fl p lines \<longleftrightarrow> at_least (parseBalance fl (fetchBalance (gp_asset p) lines)) (parseBalance fl (gp_minBalance p))"

text \<open>
  C13: Whoever is let in had enough. An access granted at once is within the time window of its policy
  and rests on an answer of Horizon, at most the cache's lifetime old, to a call for the same caller
  and asset whose own threshold that balance met; an access granted after waiting rests on the
  answer itself. A strict policy never lets a call pass that is not allowed.
\<close>
theorem access_backed_by_balance:
  assumes run: "g = foldl (gate_step fl) (gate_new m) es"
    and answer: "gate_respond fl g e = (Some (n, Inr r), g')" and allowed: "vr_allowed r"
    and plain: "\<forall>k caller p t. VerifyEv k caller p t \<in> set (e # es) \<longrightarrow> CHR '':'' \<notin> set caller"
  shows "case e of
      VerifyEv k caller p now \<Rightarrow> \<not> outside_window p now \<and>
        (\<exists>j p' t0 lines t. VerifyEv j caller p' t0 \<in> set es \<and> gp_asset p' = gp_asset p
           \<and> AccountEv j lines t \<in> set es \<and> suffices fl p' lines \<and> now \<le> t + gate_ttl m)
    | AccountEv k lines now \<Rightarrow>
        (\<exists>caller p t0. VerifyEv k caller p t0 \<in> set es \<and> suffices fl p lines)
    | _ \<Rightarrow> False"
proof (cases e)
  case (VerifyEv k caller p now)
  then have inside: "\<not> outside_window p now"
    using answer allowed by (auto simp: verify_start_def Let_def split: if_splits)
  obtain v c' ev where hit: "sc_get (gate_key caller p) now (g_cache g) = (Some v, c', ev)" and v: "r = v\<lparr>vr_cached := True\<rparr>"
    using VerifyEv answer inside
    by (cases "sc_get (gate_key caller p) now (g_cache g)" rule: prod_cases3)
      (auto simp: verify_start_def split: option.splits if_splits)
  define cfg where "cfg = Some \<lparr>cfg_enabled = Some True, cfg_ttl = None,
      cfg_ttlMs = Some (case m of None \<Rightarrow> 15000 | Some m \<Rightarrow> m), cfg_maxEntries = None\<rparr>"
  have c0: "g_cache (gate_new m) = simple_cache_new cfg" by (simp add: gate_new_def cfg_def)
  have "fst (sc_get (gate_key caller p) now (simple_run (cache_ops fl (gate_new m) es) (simple_cache_new cfg))) = Some v"
    using hit run by (simp add: run_cache c0)
  from simple_hit_is_last_write [OF this] obtain t h1 h2 where
    "cache_ops fl (gate_new m) es = h1 @ (t, Inr (gate_key caller p, v)) # h2" and t: "now \<le> t + gate_ttl m"
    using gate_ttl_for [of m caller p] by (auto simp: c0)
  then have w: "(t, Inr (gate_key caller p, v)) \<in> set (cache_ops fl (gate_new m) es)" by simp
  from writes_answer_calls [OF w] obtain j lines caller' p' t0 where
    *: "AccountEv j lines t \<in> set es" "gate_key caller p = gate_key caller' p'"
      "v = balance_result fl p' (fetchBalance (gp_asset p') lines)" "VerifyEv j caller' p' t0 \<in> set es"
    by (auto simp: gate_new_def)
  with plain VerifyEv have same: "caller = caller' \<and> gp_asset p = gp_asset p'"
    by (intro gate_key_inj) auto
  moreover have "suffices fl p' lines" using allowed v *(3) by (simp add: balance_result_def suffices_def)
  ultimately show ?thesis using VerifyEv inside t * by fastforce
next
  case (AccountEv k lines now)
  then obtain caller p where w: "map_of (g_waiting g) k = Some (caller, p)" and r: "r = balance_result fl p (fetchBalance (gp_asset p) lines)"
    using answer by (auto simp: verify_finish_def Let_def split: option.splits if_splits)
  from map_of_SomeD [OF w] run_waiting [of "(k, caller, p)" fl "gate_new m" es] run
  obtain t0 where "VerifyEv k caller p t0 \<in> set es" by (auto simp: gate_new_def)
  with AccountEv r allowed show ?thesis by (auto simp: balance_result_def suffices_def)
qed (use answer in \<open>auto split: option.splits\<close>)

lemma strict_lets_only_allowed:
  assumes "gate_respond fl g (VerifyEv n caller p now) = (Some (n, Inr r), g')" "strict p"
  shows "vr_allowed r"
  using assms
  by (cases "sc_get (gate_key caller p) now (g_cache g)" rule: prod_cases3)
    (auto simp: verify_start_def Let_def split: option.splits if_splits)

section \<open>Examples\<close>

definition ten_coins :: gate_policy where
  "ten_coins = \<lparr>gp_asset = ''native'', gp_minBalance = ''10'', gp_strict = None, gp_validFrom = None, gp_validUntil = None\<rparr>"

definition thousand_coins :: gate_policy where
  "thousand_coins = ten_coins\<lparr>gp_minBalance := ''1000''\<rparr>"

definition sample_account :: "balance_line list" where
  "sample_account = [\<lparr>bl_type = ''native'', bl_code = None, bl_issuer = None, bl_balance = ''12.5''\<rparr>]"

definition sample_gate :: gate where
  "sample_gate = foldl (gate_step id) (gate_new None) [VerifyEv 1 ''GA'' ten_coins 0, AccountEv 1 sample_account 5]"

text \<open>
  The key of a cached result names the caller and the asset, not the threshold: after a check against
  ten coins, a caller with twelve and a half passes a strict policy that asks for a thousand.
\<close>
lemma lower_threshold_opens_higher:
  "map_option (map_prod id (map_sum id vr_allowed)) (fst (gate_respond id sample_gate (VerifyEv 2 ''GA'' thousand_coins 10))) = Some (2, Inr True)
    \<and> \<not> suffices id thousand_coins sample_account \<and> strict thousand_coins"
  by code_simp

lemma sample_grant:
  "\<exists>r g'. gate_respond id sample_gate (VerifyEv 2 ''GA'' ten_coins 10) = (Some (2, Inr r), g') \<and> vr_allowed r"
proof -
  have run: "map_option (map_prod id (map_sum id vr_allowed)) (fst (gate_respond id sample_gate (VerifyEv 2 ''GA'' ten_coins 10))) = Some (2, Inr True)"
    by code_simp
  obtain a g' where eq: "gate_respond id sample_gate (VerifyEv 2 ''GA'' ten_coins 10) = (a, g')" by fastforce
  from run have "map_option (map_prod id (map_sum id vr_allowed)) a = Some (2, Inr True)" unfolding eq fst_conv .
  then obtain x where a: "a = Some (2, x)" "map_sum id vr_allowed x = Inr True" by (cases a) auto
  from a(2) obtain r where "x = Inr r" "vr_allowed r" by (cases x) auto
  with eq a(1) show ?thesis by blast
qed

lemma access_backed_by_balance_witness:
  "\<exists>t. (10 :: int) \<le> t + 15000 \<and> (\<exists>j lines. AccountEv j lines t \<in> set [VerifyEv 1 ''GA'' ten_coins 0, AccountEv 1 sample_account 5])"
proof -
  obtain r g' where *: "gate_respond id sample_gate (VerifyEv 2 ''GA'' ten_coins 10) = (Some (2, Inr r), g')" "vr_allowed r"
    using sample_grant by blast
  from access_backed_by_balance [OF sample_gate_def *] show ?thesis
    by (auto simp: gate_ttl_def)
qed

end
