(* ===== verification/Tx_Queue.thy ===== *)
theory Tx_Queue
  imports Request_Queue
begin

text \<open>
  \<open>queue.ts\<close>: \<open>TxQueue\<close>, which submits transactions one after the other, by priority. The waiting items
  are a list that binary insertion keeps sorted; it is a second provider of the contract
  \<open>service_order\<close> of \<open>Request_Queue\<close>. An operation and its promise are named by the sequence number of
  the item. A drain loop is cut where it waits for the account and the operation; since \<open>clear\<close> lets a
  second loop start while one waits, the state holds every loop. The outcome of an operation is part
  of the step that ends the wait.
\<close>

section \<open>Data\<close>

record queue_item =
  tx_priority :: int
  tx_seq :: nat

datatype tx_outcome = TxResolved string | TxRejected string | TxQueueFailed

text \<open>\<open>tq_loops\<close>: what each drain loop waits for, \<open>None\<close> when it has ended. \<open>tq_settled\<close>: promises in the order of settling.\<close>

record tx_queue =
  tq_failed :: bool
  tq_items :: "queue_item list"
  tq_seq :: nat
  tq_draining :: bool
  tq_loops :: "queue_item option list"
  tq_settled :: "(nat \<times> tx_outcome) list"

definition tx_queue_new :: tx_queue where
  "tx_queue_new = \<lparr>tq_failed = False, tq_items = [], tq_seq = 0, tq_draining = False, tq_loops = [], tq_settled = []\<rparr>"

section \<open>Operations\<close>

function insert_position :: "queue_item \<Rightarrow> queue_item list \<Rightarrow> nat \<Rightarrow> nat \<Rightarrow> nat" where
  "insert_position item items lo hi =
     (if lo < hi
      then let mid = (lo + hi) div 2; cand = items ! mid
           in if tx_priority cand > tx_priority item \<or> (tx_priority cand = tx_priority item \<and> tx_seq cand < tx_seq item)
              then insert_position item items (mid + 1) hi
              else insert_position item items lo mid
      else lo)"
  by pat_completeness auto
termination by (relation "measure (\<lambda>(item, items, lo, hi). hi - lo)") auto

declare insert_position.simps [simp del]

definition tx_insert :: "queue_item \<Rightarrow> queue_item list \<Rightarrow> queue_item list" where
  "tx_insert item items =
     (let lo = insert_position item items 0 (length items) in take lo items @ item # drop lo items)"

text \<open>The head of the loop \<open>k\<close>: take the first item and wait for it, or end.\<close>

definition loop_head :: "nat \<Rightarrow> tx_queue \<Rightarrow> tx_queue" where
  "loop_head k q =
     (if tq_items q \<noteq> [] \<and> \<not> tq_failed q
      then q\<lparr>tq_items := tl (tq_items q), tq_loops := (tq_loops q)[k := Some (hd (tq_items q))]\<rparr>
      else q\<lparr>tq_draining := False, tq_loops := (tq_loops q)[k := None]\<rparr>)"

definition drain_tx :: "tx_queue \<Rightarrow> tx_queue" where
  "drain_tx q =
     (if tq_draining q then q
      else loop_head (length (tq_loops q)) (q\<lparr>tq_draining := True, tq_loops := tq_loops q @ [None]\<rparr>))"

text \<open>\<open>enqueue\<close> throws on a failed queue; otherwise the sequence number names the promise it returns.\<close>

definition enqueue_tx :: "int \<Rightarrow> tx_queue \<Rightarrow> (tx_outcome + nat) \<times> tx_queue" where
  "enqueue_tx priority q =
     (if tq_failed q then (Inl TxQueueFailed, q)
      else let item = \<lparr>tx_priority = priority, tx_seq = tq_seq q\<rparr>
           in (Inr (tq_seq q), drain_tx (q\<lparr>tq_seq := tq_seq q + 1, tq_items := tx_insert item (tq_items q)\<rparr>)))"

definition peek_tx :: "tx_queue \<Rightarrow> int option" where
  "peek_tx q = (case tq_items q of [] \<Rightarrow> None | x # xs \<Rightarrow> Some (tx_priority x))"

definition reject_waiting :: "tx_queue \<Rightarrow> tx_queue" where
  "reject_waiting q =
     q\<lparr>tq_items := [], tq_settled := tq_settled q @ map (\<lambda>x. (tx_seq x, TxQueueFailed)) (tq_items q)\<rparr>"

definition clear_tx :: "tx_queue \<Rightarrow> tx_queue" where
  "clear_tx q = (reject_waiting q)\<lparr>tq_failed := False, tq_draining := False\<rparr>"

text \<open>The operation of an item ends: with a transaction hash, or with the error of the account request or the operation.\<close>

definition settle_operation :: "queue_item \<Rightarrow> string + string \<Rightarrow> tx_queue \<Rightarrow> tx_queue" where
  "settle_operation x r q =
     (case r of
        Inr h \<Rightarrow> q\<lparr>tq_settled := tq_settled q @ [(tx_seq x, TxResolved h)]\<rparr>
      | Inl e \<Rightarrow> reject_waiting (q\<lparr>tq_failed := True, tq_settled := tq_settled q @ [(tx_seq x, TxRejected e)]\<rparr>))"

definition operation_done :: "nat \<Rightarrow> string + string \<Rightarrow> tx_queue \<Rightarrow> tx_queue" where
  "operation_done k r q =
     (if k < length (tq_loops q)
      then case tq_loops q ! k of None \<Rightarrow> q | Some x \<Rightarrow> loop_head k (settle_operation x r q)
      else q)"

datatype tx_call = EnqueueTx int | ClearTx | OperationDone nat "string + string"

fun tx_step :: "tx_queue \<Rightarrow> tx_call \<Rightarrow> tx_queue" where
  "tx_step q (EnqueueTx p) = snd (enqueue_tx p q)"
| "tx_step q ClearTx = clear_tx q"
| "tx_step q (OperationDone k r) = operation_done k r q"

section \<open>Binary insertion\<close>

definition tx_key :: "queue_item \<Rightarrow> int \<times> nat" where
  "tx_key x = (- tx_priority x, tx_seq x)"

definition tx_sorted :: "queue_item list \<Rightarrow> bool" where
  "tx_sorted xs \<longleftrightarrow> sorted (map tx_key xs)"

lemma before_iff:
  "tx_priority c > tx_priority x \<or> (tx_priority c = tx_priority x \<and> tx_seq c < tx_seq x) \<longleftrightarrow> tx_key c < tx_key x"
  by (auto simp: tx_key_def)

lemma insert_position_splits:
  assumes "tx_sorted xs" "lo \<le> hi" "hi \<le> length xs"
    and "\<forall>i < lo. tx_key (xs ! i) < tx_key x" "\<forall>i. hi \<le> i \<and> i < length xs \<longrightarrow> tx_key x \<le> tx_key (xs ! i)"
  defines "p \<equiv> insert_position x xs lo hi"
  shows "p \<le> length xs \<and> (\<forall>i < p. tx_key (xs ! i) < tx_key x) \<and> (\<forall>i. p \<le> i \<and> i < length xs \<longrightarrow> tx_key x \<le> tx_key (xs ! i))"
  using assms(1-5) unfolding p_def
proof (induction x xs lo hi rule: insert_position.induct)
  case (1 x xs lo hi)
  let ?m = "(lo + hi) div 2"
  note prems = 1(3-7) and IH = 1(1,2)
  have mono: "tx_key (xs ! i) \<le> tx_key (xs ! j)" if "i \<le> j" "j < length xs" for i j
    using prems(1) that sorted_nth_mono [of "map tx_key xs" i j] by (simp add: tx_sorted_def)
  show ?case
  proof (cases "lo < hi")
    case False
    then have "insert_position x xs lo hi = lo" by (subst insert_position.simps) simp
    with False prems show ?thesis by simp
  next
    case True
    then have m: "?m < length xs" "lo \<le> ?m" "?m < hi" using prems by auto
    show ?thesis
    proof (cases "tx_key (xs ! ?m) < tx_key x")
      case lt: True
      have eq: "insert_position x xs lo hi = insert_position x xs (?m + 1) hi"
        using True lt by (subst insert_position.simps) (simp add: before_iff Let_def)
      have "\<forall>i < ?m + 1. tx_key (xs ! i) < tx_key x"
        using mono m(1) lt by (metis Suc_eq_plus1 le_less_trans less_Suc_eq_le)
      then show ?thesis unfolding eq
        using IH(1) [OF True refl refl lt [folded before_iff] prems(1) _ prems(3)] m(3) prems(5) by simp
    next
      case ge: False
      have eq: "insert_position x xs lo hi = insert_position x xs lo ?m"
        using True ge by (subst insert_position.simps) (simp add: before_iff Let_def)
      have "\<forall>i. ?m \<le> i \<and> i < length xs \<longrightarrow> tx_key x \<le> tx_key (xs ! i)"
        using mono ge by (metis linorder_not_less order_trans)
      then show ?thesis unfolding eq
        using IH(2) [OF True refl refl ge [folded before_iff] prems(1) m(2) _ prems(4)] m(1) by simp
    qed
  qed
qed

lemma tx_insert_ok:
  assumes "tx_sorted xs" shows "tx_sorted (tx_insert x xs)" "mset (tx_insert x xs) = add_mset x (mset xs)"
proof -
  define p where "p = insert_position x xs 0 (length xs)"
  have p: "p \<le> length xs" "\<And>i. i < p \<Longrightarrow> tx_key (xs ! i) < tx_key x"
      "\<And>i. p \<le> i \<Longrightarrow> i < length xs \<Longrightarrow> tx_key x \<le> tx_key (xs ! i)"
    using insert_position_splits [OF assms le0 order_refl, of x, folded p_def] by (fastforce, fastforce, fastforce)
  have t: "tx_insert x xs = take p xs @ x # drop p xs" by (simp add: tx_insert_def p_def Let_def)
  have tk: "tx_key y \<le> tx_key x" if "y \<in> set (take p xs)" for y
    using that p(1,2) by (force simp: in_set_conv_nth intro: less_imp_le)
  have dr: "tx_key x \<le> tx_key y" if "y \<in> set (drop p xs)" for y
    using that p(1,3) by (force simp: in_set_conv_nth)
  have "sorted (map tx_key (take p xs))" "sorted (map tx_key (drop p xs))"
    using assms by (simp_all add: tx_sorted_def take_map [symmetric] drop_map [symmetric] sorted_wrt_take sorted_wrt_drop)
  with tk dr show "tx_sorted (tx_insert x xs)"
    by (force simp: t tx_sorted_def sorted_append intro: order_trans)
  have "mset xs = mset (take p xs) + mset (drop p xs)" by (metis append_take_drop_id mset_append)
  then show "mset (tx_insert x xs) = add_mset x (mset xs)" by (simp add: t)
qed

definition take_first :: "'a list \<Rightarrow> ('a \<times> 'a list) option" where
  "take_first xs = (case xs of [] \<Rightarrow> None | x # r \<Rightarrow> Some (x, r))"

interpretation tx_line: service_order tx_sorted "\<lambda>xs. xs" tx_key tx_insert take_first
  by unfold_locales (auto simp: tx_insert_ok, auto simp: take_first_def tx_sorted_def split: list.splits)

section \<open>Invariants\<close>

definition option_list :: "'a option \<Rightarrow> 'a list" where
  "option_list x = (case x of None \<Rightarrow> [] | Some y \<Rightarrow> [y])"

lemma option_list_simps [simp]: "option_list None = []" "option_list (Some y) = [y]"
  by (simp_all add: option_list_def)

definition running :: "tx_queue \<Rightarrow> queue_item list" where
  "running q = concat (map option_list (tq_loops q))"

text \<open>Every sequence number given out is waiting, running or settled, once.\<close>

definition accounted :: "tx_queue \<Rightarrow> bool" where
  "accounted q \<longleftrightarrow>
     mset (map tx_seq (tq_items q)) + mset (map tx_seq (running q)) + mset (map fst (tq_settled q)) = mset [0..<tq_seq q]"

definition tx_inv :: "tx_queue \<Rightarrow> bool" where
  "tx_inv q \<longleftrightarrow> tx_sorted (tq_items q) \<and> accounted q \<and> (tq_failed q \<longrightarrow> tq_items q = [])
     \<and> (tq_items q \<noteq> [] \<longrightarrow> tq_draining q) \<and> (tq_draining q \<longrightarrow> running q \<noteq> [])"

lemma running_update:
  assumes "k < length (tq_loops q)"
  shows "mset (running (q\<lparr>tq_loops := (tq_loops q)[k := x]\<rparr>)) + mset (option_list (tq_loops q ! k)) = mset (running q) + mset (option_list x)"
  using mset_concat_update [OF assms, of option_list x] by (simp add: running_def)

lemma running_idle_update:
  assumes "k < length (tq_loops q)" "tq_loops q ! k = None"
  shows "mset (concat (map option_list ((tq_loops q)[k := x]))) = mset (running q) + mset (option_list x)"
  using mset_concat_update [OF assms(1), of option_list x] assms(2) by (simp add: running_def)

text \<open>A loop that waits for nothing arrives at its head.\<close>

lemma loop_head_inv:
  assumes "tx_sorted (tq_items q)" "accounted q" "tq_failed q \<longrightarrow> tq_items q = []" "tq_items q \<noteq> [] \<longrightarrow> tq_draining q"
    and k: "k < length (tq_loops q)" "tq_loops q ! k = None"
  shows "tx_inv (loop_head k q)"
proof (cases "tq_items q \<noteq> [] \<and> \<not> tq_failed q")
  case True
  then obtain x xs where items: "tq_items q = x # xs" by (cases "tq_items q") auto
  let ?q = "loop_head k q"
  have q: "?q = q\<lparr>tq_items := xs, tq_loops := (tq_loops q)[k := Some x]\<rparr>" using True by (simp add: loop_head_def items)
  have r: "mset (running ?q) = add_mset x (mset (running q))"
    using running_idle_update [OF k, of "Some x"] by (simp add: running_def q)
  then have "mset (map tx_seq (running ?q)) = add_mset (tx_seq x) (mset (map tx_seq (running q)))" by simp
  then have "accounted ?q" using assms(2) by (simp add: accounted_def q items)
  moreover from r have "running ?q \<noteq> []" by auto
  moreover have "tx_sorted xs" using assms(1) by (simp add: items tx_sorted_def)
  ultimately show ?thesis using assms(3,4) by (auto simp: tx_inv_def q items)
next
  case False
  let ?q = "loop_head k q"
  have q: "?q = q\<lparr>tq_draining := False, tq_loops := (tq_loops q)[k := None]\<rparr>" using False by (auto simp: loop_head_def)
  have "mset (running ?q) = mset (running q)"
    using running_idle_update [OF k, of None] by (simp add: running_def q)
  then have "mset (map tx_seq (running ?q)) = mset (map tx_seq (running q))" by simp
  then show ?thesis using assms False by (auto simp: tx_inv_def accounted_def q)
qed

lemma loop_head_idle: "loop_head k (q\<lparr>tq_loops := (tq_loops q)[k := None]\<rparr>) = loop_head k q"
  by (simp add: loop_head_def)

lemma settle_operation:
  "tq_loops (settle_operation x r q) = tq_loops q" "tq_draining (settle_operation x r q) = tq_draining q"
  "tq_seq (settle_operation x r q) = tq_seq q"
  "mset (map tx_seq (tq_items (settle_operation x r q))) + mset (map fst (tq_settled (settle_operation x r q)))
     = mset (map tx_seq (tq_items q)) + mset (map fst (tq_settled q)) + {#tx_seq x#}"
  "tx_inv q \<Longrightarrow> tx_sorted (tq_items (settle_operation x r q)) \<and>
     (tq_failed (settle_operation x r q) \<longrightarrow> tq_items (settle_operation x r q) = []) \<and>
     (tq_items (settle_operation x r q) \<noteq> [] \<longrightarrow> tq_draining q)"
  by (cases r; simp add: settle_operation_def reject_waiting_def comp_def image_mset.compositionality tx_inv_def tx_sorted_def)+

lemma settled_one_more:
  assumes "I' + S' = I + S + {#x#}" "R = add_mset x R'" "I + R + S = T"
  shows "I' + R' + S' = (T :: 'a multiset)"
proof -
  have "I' + R' + S' = (I' + S') + R'" by (simp add: ac_simps)
  also have "\<dots> = I + R + S" unfolding assms(1,2) by (simp add: ac_simps)
  finally show ?thesis using assms(3) by simp
qed

lemma operation_done_inv:
  assumes "tx_inv q" shows "tx_inv (operation_done k r q)"
proof (cases "k < length (tq_loops q) \<and> tq_loops q ! k \<noteq> None")
  case True
  then obtain x where k: "k < length (tq_loops q)" and x: "tq_loops q ! k = Some x" by auto
  define a where "a = settle_operation x r q"
  define b where "b = a\<lparr>tq_loops := (tq_loops a)[k := None]\<rparr>"
  note a = settle_operation [where x = x and r = r and q = q, folded a_def]
  have "mset (running q) = add_mset x (mset (running b))"
    using mset_concat_update [OF k, of option_list None] by (simp add: running_def b_def a(1) x)
  then have "mset (map tx_seq (running q)) = add_mset (tx_seq x) (mset (map tx_seq (running b)))" by simp
  moreover have "accounted q" using assms by (simp add: tx_inv_def)
  ultimately have "accounted b"
    using settled_one_more [OF a(4)] a(3) by (simp add: accounted_def b_def)
  then have "tx_inv (loop_head k b)"
    using a(5) [OF assms] k by (intro loop_head_inv) (simp_all add: b_def a(1,2))
  then show ?thesis using k x by (simp add: operation_done_def b_def loop_head_idle a_def)
next
  case False
  then show ?thesis using assms by (auto simp: operation_done_def)
qed

lemma enqueue_tx_inv:
  assumes "tx_inv q" shows "tx_inv (snd (enqueue_tx p q))"
proof (cases "tq_failed q")
  case True
  then show ?thesis using assms by (simp add: enqueue_tx_def)
next
  case False
  let ?x = "\<lparr>tx_priority = p, tx_seq = tq_seq q\<rparr>"
  let ?q = "q\<lparr>tq_seq := tq_seq q + 1, tq_items := tx_insert ?x (tq_items q)\<rparr>"
  have s: "tx_sorted (tq_items q)" "accounted q" "tq_items q \<noteq> [] \<longrightarrow> tq_draining q" "tq_draining q \<longrightarrow> running q \<noteq> []"
    using assms by (simp_all add: tx_inv_def)
  note i = tx_insert_ok [OF s(1), of ?x]
  have "mset (map tx_seq (tx_insert ?x (tq_items q))) = add_mset (tq_seq q) (mset (map tx_seq (tq_items q)))"
    using i(2) by simp
  then have acc: "accounted ?q" using s(2) by (simp add: accounted_def running_def)
  show ?thesis
  proof (cases "tq_draining q")
    case True
    then show ?thesis using False s acc i(1) by (simp add: enqueue_tx_def drain_tx_def tx_inv_def running_def)
  next
    case idle: False
    let ?d = "?q\<lparr>tq_draining := True, tq_loops := tq_loops q @ [None]\<rparr>"
    have "running ?d = running ?q" by (simp add: running_def)
    then have "accounted ?d" using acc by (simp add: accounted_def)
    then have "tx_inv (loop_head (length (tq_loops q)) ?d)"
      using i(1) False by (intro loop_head_inv) simp_all
    then show ?thesis using False idle by (simp add: enqueue_tx_def drain_tx_def)
  qed
qed

lemma clear_tx_inv:
  assumes "tx_inv q" shows "tx_inv (clear_tx q)"
proof -
  have "mset (map fst (tq_settled (clear_tx q))) = mset (map fst (tq_settled q)) + mset (map tx_seq (tq_items q))"
    by (simp add: clear_tx_def reject_waiting_def comp_def)
  then have "accounted (clear_tx q)"
    using assms by (simp add: tx_inv_def accounted_def clear_tx_def reject_waiting_def running_def ac_simps)
  then show ?thesis by (simp add: tx_inv_def clear_tx_def reject_waiting_def tx_sorted_def)
qed

lemma tx_step_inv: "tx_inv q \<Longrightarrow> tx_inv (tx_step q c)"
  by (cases c) (simp_all add: enqueue_tx_inv clear_tx_inv operation_done_inv)

interpretation transactions: machine tx_step tx_inv
  by unfold_locales (rule tx_step_inv)

lemma tx_inv_new: "tx_inv tx_queue_new"
  by (simp add: tx_inv_def tx_queue_new_def accounted_def running_def tx_sorted_def)

text \<open>Without \<open>clear\<close> there is one loop at most, and the flag says whether it waits.\<close>

definition serial :: "tx_queue \<Rightarrow> bool" where
  "serial q \<longleftrightarrow> length (running q) \<le> 1 \<and> (tq_draining q \<longleftrightarrow> running q \<noteq> [])"

lemma loop_head_serial:
  assumes "k < length (tq_loops q)" "tq_loops q ! k = None" "running q = []" "tq_draining q"
  shows "serial (loop_head k q)"
proof -
  have "mset (concat (map option_list ((tq_loops q)[k := x]))) = mset (option_list x)" for x
    using running_idle_update [OF assms(1,2), of x] assms(3) by simp
  from this [of None] this [of "Some (hd (tq_items q))"] show ?thesis
    using assms(4) by (simp add: serial_def loop_head_def running_def del: concat_eq_Nil_conv)
qed

lemma tx_step_serial:
  assumes "serial q" "c \<noteq> ClearTx" shows "serial (tx_step q c)"
proof (cases c)
  case (EnqueueTx p)
  have "serial (loop_head (length (tq_loops q)) (r\<lparr>tq_draining := True, tq_loops := tq_loops q @ [None]\<rparr>))"
    if "\<not> tq_draining q" "tq_loops r = tq_loops q" for r
    using assms(1) that by (intro loop_head_serial) (auto simp: serial_def running_def)
  then show ?thesis using assms(1) by (simp add: EnqueueTx enqueue_tx_def drain_tx_def serial_def running_def Let_def)
next
  case (OperationDone k r)
  show ?thesis
  proof (cases "k < length (tq_loops q) \<and> tq_loops q ! k \<noteq> None")
    case True
    then obtain x where k: "k < length (tq_loops q)" and x: "tq_loops q ! k = Some x" by auto
    have "mset (concat (map option_list ((tq_loops q)[k := None]))) + {#x#} = mset (running q)"
      using mset_concat_update [OF k, of option_list None] by (simp add: running_def x)
    then have one: "length (concat (map option_list ((tq_loops q)[k := None]))) + 1 = length (running q)"
      by (metis size_mset size_union size_single)
    then have "concat (map option_list ((tq_loops q)[k := None])) = []" "tq_draining q"
      using assms(1) unfolding serial_def by (cases "running q"; force)+
    then have "serial (loop_head k (a\<lparr>tq_loops := (tq_loops a)[k := None]\<rparr>))"
      if "tq_loops a = tq_loops q" "tq_draining a = tq_draining q" for a
      using that k by (intro loop_head_serial) (simp_all add: running_def)
    then show ?thesis using k x
      by (simp add: OperationDone operation_done_def) (metis loop_head_idle settle_operation(1,2))
  qed (use assms(1) in \<open>auto simp: OperationDone operation_done_def\<close>)
qed (use assms(2) in simp)

definition goes_before :: "queue_item \<Rightarrow> queue_item \<Rightarrow> bool" where
  "goes_before x y \<longleftrightarrow> tx_priority y < tx_priority x \<or> (tx_priority y = tx_priority x \<and> tx_seq x < tx_seq y)"

lemma loop_head_first:
  assumes "tx_sorted (tq_items q)" "distinct (map tx_seq (tq_items q))"
    and "x \<in> set (running (loop_head k q))" "x \<notin> set (running q)" "y \<in> set (tq_items (loop_head k q))"
  shows "goes_before x y"
proof -
  have sub: "set (running (q\<lparr>tq_loops := (tq_loops q)[k := z]\<rparr>)) \<subseteq> set (running q) \<union> set (option_list z)" for z
    using set_update_subset_insert [of "tq_loops q" k z] by (auto simp: running_def)
  show ?thesis
  proof (cases "tq_items q")
    case Nil
    with assms(5) show ?thesis by (simp add: loop_head_def split: if_splits)
  next
    case (Cons z zs)
    show ?thesis
    proof (cases "tq_failed q")
      case True
      with sub [of None] assms(3,4) show ?thesis by (auto simp: loop_head_def running_def)
    next
      case False
      with Cons sub [of "Some z"] assms(3-5) have "x = z" "y \<in> set zs" by (auto simp: loop_head_def running_def)
      moreover from this have "tx_key z \<le> tx_key y" "tx_seq z \<noteq> tx_seq y"
        using tx_line.take_least [OF assms(1), of z zs y] assms(2) by (auto simp: take_first_def Cons)
      ultimately show ?thesis by (auto simp: goes_before_def tx_key_def)
    qed
  qed
qed

lemma tx_inv_distinct:
  assumes "tx_inv q"
  shows "distinct (map tx_seq (tq_items q) @ map tx_seq (running q) @ map fst (tq_settled q))"
    and "set (map tx_seq (tq_items q)) \<union> set (map tx_seq (running q)) \<union> set (map fst (tq_settled q)) = {..<tq_seq q}"
proof -
  have m: "mset (map tx_seq (tq_items q) @ map tx_seq (running q) @ map fst (tq_settled q)) = mset [0..<tq_seq q]"
    using assms by (simp add: tx_inv_def accounted_def add.assoc)
  then show "distinct (map tx_seq (tq_items q) @ map tx_seq (running q) @ map fst (tq_settled q))"
    using mset_eq_imp_distinct_iff distinct_upt by blast
  show "set (map tx_seq (tq_items q)) \<union> set (map tx_seq (running q)) \<union> set (map fst (tq_settled q)) = {..<tq_seq q}"
    using mset_eq_setD [OF m] by (simp add: lessThan_atLeast0 Un_assoc)
qed

lemma tx_step_first:
  assumes "tx_inv q" "x \<in> set (running (tx_step q c))" "x \<notin> set (running q)" "y \<in> set (tq_items (tx_step q c))"
  shows "goes_before x y"
proof (cases c)
  case (EnqueueTx p)
  let ?x = "\<lparr>tx_priority = p, tx_seq = tq_seq q\<rparr>"
  let ?q = "q\<lparr>tq_seq := tq_seq q + 1, tq_items := tx_insert ?x (tq_items q), tq_draining := True, tq_loops := tq_loops q @ [None]\<rparr>"
  have s: "tx_sorted (tq_items q)" using assms(1) by (simp add: tx_inv_def)
  note i = tx_insert_ok [OF s, of ?x]
  have "mset (map tx_seq (tx_insert ?x (tq_items q))) = mset (tq_seq q # map tx_seq (tq_items q))" using i(2) by simp
  moreover have "distinct (tq_seq q # map tx_seq (tq_items q))"
    using tx_inv_distinct [OF assms(1)] by auto
  ultimately have "distinct (map tx_seq (tx_insert ?x (tq_items q)))"
    by (metis mset_eq_imp_distinct_iff)
  then have "distinct (map tx_seq (tq_items ?q))" by simp
  moreover have "tq_failed q = False" "tq_draining q = False"
    using assms(2,3) by (auto simp: EnqueueTx enqueue_tx_def drain_tx_def running_def Let_def split: if_splits)
  ultimately show ?thesis
    using loop_head_first [of ?q x "length (tq_loops q)" y] i(1) assms(2-4)
    by (simp add: EnqueueTx enqueue_tx_def drain_tx_def running_def)
next
  case ClearTx
  with assms(2,3) show ?thesis by (simp add: clear_tx_def reject_waiting_def running_def)
next
  case (OperationDone k r)
  then obtain z where z: "k < length (tq_loops q)" "tq_loops q ! k = Some z"
    using assms(2,3) by (auto simp: operation_done_def split: if_splits option.splits)
  let ?a = "settle_operation z r q"
  have "distinct (map tx_seq (tq_items ?a))" "tx_sorted (tq_items ?a)"
    using tx_inv_distinct(1) [OF assms(1)] settle_operation(5) [OF assms(1)]
    by (auto simp: settle_operation_def reject_waiting_def split: sum.split)
  moreover have "running ?a = running q" by (simp add: running_def settle_operation(1))
  ultimately show ?thesis
    using loop_head_first [of ?a x k y] z assms(2-4) by (simp add: OperationDone operation_done_def)
qed

section \<open>Properties\<close>

text \<open>
  After any calls, each accepted operation has been settled at most once; and as soon as no
  operation runs none is waiting, and every one accepted has been resolved or rejected.
\<close>
theorem tx_queue_settles:
  assumes "q = foldl tx_step tx_queue_new calls"
  shows "distinct (map fst (tq_settled q)) \<and> fst ` set (tq_settled q) \<subseteq> {..<tq_seq q}
    \<and> (running q = [] \<longrightarrow> tq_items q = [] \<and> fst ` set (tq_settled q) = {..<tq_seq q})"
proof -
  have inv: "tx_inv q" unfolding assms by (rule transactions.run_inv) (rule tx_inv_new)
  have "tq_items q = []" if "running q = []" using inv that by (auto simp: tx_inv_def)
  with tx_inv_distinct [OF inv] show ?thesis by auto
qed

text \<open>
  C37: An operation is started only when it goes before all that wait then: it has a higher priority, or the
  same and came earlier. As long as nobody calls \<open>clear\<close> at most one operation runs at a time.
\<close>
theorem tx_queue_serial:
  assumes "q = foldl tx_step tx_queue_new calls"
  shows "(\<forall>x \<in> set (running (tx_step q c)) - set (running q). \<forall>y \<in> set (tq_items (tx_step q c)). goes_before x y)
    \<and> (ClearTx \<notin> set calls \<longrightarrow> length (running q) \<le> 1)"
proof -
  have inv: "tx_inv q" unfolding assms by (rule transactions.run_inv) (rule tx_inv_new)
  have "serial (foldl tx_step s cs)" if "serial s" "ClearTx \<notin> set cs" for s cs
    using that by (induction cs arbitrary: s) (auto simp: tx_step_serial)
  moreover have "serial tx_queue_new" by (simp add: serial_def tx_queue_new_def running_def)
  ultimately have "ClearTx \<notin> set calls \<longrightarrow> length (running q) \<le> 1" unfolding assms serial_def by blast
  with tx_step_first [OF inv] show ?thesis by blast
qed

section \<open>Examples\<close>

lemma tx_queue_settles_witness:
  "let q = foldl tx_step tx_queue_new [EnqueueTx 0, EnqueueTx 1, OperationDone 0 (Inl ''e'')]
   in tq_settled q = [(0, TxRejected ''e''), (1, TxQueueFailed)] \<and> distinct (map fst (tq_settled q)) \<and> tq_items q = []"
proof -
  define q where "q = foldl tx_step tx_queue_new [EnqueueTx 0, EnqueueTx 1, OperationDone 0 (Inl ''e'')]"
  have "tq_settled q = [(0, TxRejected ''e''), (1, TxQueueFailed)]" "running q = []" unfolding q_def by code_simp+
  with tx_queue_settles [OF q_def] show ?thesis unfolding q_def [symmetric] Let_def by simp
qed

lemma tx_queue_serial_witness:
  "let q = foldl tx_step tx_queue_new [EnqueueTx 0, EnqueueTx 1, EnqueueTx 2]
   in length (running q) \<le> 1 \<and> map tx_priority (running (tx_step q (OperationDone 0 (Inr ''h'')))) = [2]"
proof -
  define q where "q = foldl tx_step tx_queue_new [EnqueueTx 0, EnqueueTx 1, EnqueueTx 2]"
  have "map tx_priority (running (tx_step q (OperationDone 0 (Inr ''h'')))) = [2]" unfolding q_def by code_simp
  with tx_queue_serial [OF q_def] show ?thesis unfolding q_def [symmetric] Let_def by simp
qed

text \<open>
  \<open>clear\<close> resets the flag of a loop that still waits. The next operation then runs beside the old
  one, with the same account; and when the old one fails, the cleared queue fails with it.
\<close>

lemma clear_lets_two_run:
  "length (running (foldl tx_step tx_queue_new [EnqueueTx 0, ClearTx, EnqueueTx 0])) = 2"
  "tq_failed (foldl tx_step tx_queue_new [EnqueueTx 0, ClearTx, EnqueueTx 0, OperationDone 0 (Inl ''e'')])"
  by code_simp+

end
