(* ===== verification/Version_Tracker.thy ===== *)
theory Version_Tracker
  imports Invoice_Diff
begin

text \<open>
  \<open>invoiceVersionTracker.ts\<close>: the versions of invoices, their change summaries and rollbacks.
  \<open>record\<close> reads the latest version, waits, and appends; the model cuts it there. The other calls are
  taken to run to their end. SHA-256 is an argument, the clock is \<open>now\<close>. The arrow of the summaries
  stands as its UTF-8 bytes.
\<close>

section \<open>Versions and their store\<close>

record invoice_version =
  iv_version :: int
  iv_snapshot :: invoice_obj
  iv_changedBy :: string
  iv_changedAt :: int
  iv_changeSummary :: string
  iv_isRollback :: "bool option"
  iv_rolledBackFromVersion :: "int option"
  iv_checksum :: "string option"
  iv_metadata :: "js_val option"

type_synonym version_store = "(string \<times> invoice_version list) list"

definition getAll :: "string \<Rightarrow> version_store \<Rightarrow> invoice_version list" where
  "getAll i s = (case map_of s i of None \<Rightarrow> [] | Some vs \<Rightarrow> vs)"

definition vs_append :: "string \<Rightarrow> invoice_version \<Rightarrow> version_store \<Rightarrow> version_store" where
  "vs_append i v s = AList.update i (getAll i s @ [v]) s"

definition getLatest :: "string \<Rightarrow> version_store \<Rightarrow> invoice_version option" where
  "getLatest i s = (case getAll i s of [] \<Rightarrow> None | v # vs \<Rightarrow> Some (last (v # vs)))"

definition getVersion :: "string \<Rightarrow> int \<Rightarrow> version_store \<Rightarrow> invoice_version option" where
  "getVersion i n s = find (\<lambda>v. iv_version v = n) (getAll i s)"

text \<open>An empty identifier is falsy, and clears everything.\<close>

definition vs_clear :: "string option \<Rightarrow> version_store \<Rightarrow> version_store" where
  "vs_clear i s = (case i of Some k \<Rightarrow> if k \<noteq> '''' then AList.delete k s else [] | None \<Rightarrow> [])"

section \<open>Summaries\<close>

definition arrow :: string where
  "arrow = [char_of (226::nat), char_of (134::nat), char_of (146::nat)]"

fun formatValue :: "js_val \<Rightarrow> string" where
  "formatValue VUndef = ''(none)''"
| "formatValue VNull = ''(none)''"
| "formatValue (VBig n) = show_int n"
| "formatValue (VArr xs) = ''['' @ show_nat (length xs) @ '' items]''"
| "formatValue (VObj f) = ''[object]''"
| "formatValue (VBool b) = (if b then ''true'' else ''false'')"
| "formatValue (VNum n) = show_int n"
| "formatValue (VStr s) = s"

definition summary_part :: "diff_entry \<Rightarrow> string" where
  "summary_part e = de_field e @ '': '' @ formatValue (de_before e) @ '' '' @ arrow @ '' '' @ formatValue (de_after e)"

fun join_with :: "string \<Rightarrow> string list \<Rightarrow> string" where
  "join_with sep [] = ''''"
| "join_with sep [p] = p"
| "join_with sep (p # ps) = p @ sep @ join_with sep ps"

definition buildChangeSummary :: "diff_entry list \<Rightarrow> string" where
  "buildChangeSummary d =
     (if d = [] then ''No fields changed.'' else join_with ''; '' (map summary_part d))"

section \<open>The typed fields that a summary reads\<close>

text \<open>\<open>None\<close> stands for a value that the type of the field does not allow.\<close>

definition recipient_of :: "js_val \<Rightarrow> recipient option" where
  "recipient_of v =
     (case v of
        VObj f \<Rightarrow>
          (case (own f ''address'', own f ''amount'') of
             (VStr a, VBig n) \<Rightarrow> Some \<lparr>rc_address = a, rc_amount = n\<rparr>
           | _ \<Rightarrow> None)
      | _ \<Rightarrow> None)"

definition tier_of :: "js_val \<Rightarrow> split_tier option" where
  "tier_of v =
     (case v of
        VObj f \<Rightarrow>
          (case (own f ''upTo'', own f ''bps'') of
             (VBig u, VNum b) \<Rightarrow> Some \<lparr>st_upTo = u, st_bps = of_int b\<rparr>
           | _ \<Rightarrow> None)
      | _ \<Rightarrow> None)"

fun all_some :: "'a option list \<Rightarrow> 'a list option" where
  "all_some [] = Some []"
| "all_some (x # xs) = (case (x, all_some xs) of (Some y, Some ys) \<Rightarrow> Some (y # ys) | _ \<Rightarrow> None)"

definition rule_of :: "js_val \<Rightarrow> split_rule option" where
  "rule_of v =
     (case v of
        VObj f \<Rightarrow>
          (case own f ''recipient'' of
             VStr who \<Rightarrow>
               (if own f ''kind'' = VStr ''Fixed''
                then (case own f ''amount'' of VBig n \<Rightarrow> Some (FixedRule who n) | _ \<Rightarrow> None)
                else if own f ''kind'' = VStr ''Percentage''
                then (case own f ''bps'' of VNum b \<Rightarrow> Some (PercentageRule who (of_int b)) | _ \<Rightarrow> None)
                else if own f ''kind'' = VStr ''Tiered''
                then (case own f ''tiers'' of VArr ts \<Rightarrow> map_option (TieredRule who) (all_some (map tier_of ts)) | _ \<Rightarrow> None)
                else None)
           | _ \<Rightarrow> None)
      | _ \<Rightarrow> None)"

definition split_rules_of :: "invoice_obj \<Rightarrow> split_rule list option option" where
  "split_rules_of i =
     (case own i ''split_rules'' of
        VArr xs \<Rightarrow> map_option Some (all_some (map rule_of xs))
      | VUndef \<Rightarrow> Some None
      | VNull \<Rightarrow> Some None
      | _ \<Rightarrow> None)"

definition recipients_of :: "invoice_obj \<Rightarrow> recipient list option" where
  "recipients_of i = (case own i ''recipients'' of VArr xs \<Rightarrow> all_some (map recipient_of xs) | _ \<Rightarrow> None)"

definition funded_of :: "invoice_obj \<Rightarrow> int" where
  "funded_of i = (case own i ''funded'' of VBig n \<Rightarrow> n | _ \<Rightarrow> 0)"

definition split_lines :: "invoice_obj \<Rightarrow> string option" where
  "split_lines i =
     (case (split_rules_of i, recipients_of i) of
        (Some rules, Some rs) \<Rightarrow>
          Some (join_with '', '' (map (\<lambda>(who, n). who @ '': '' @ show_int n @ '' stroops'') (previewSplitRules rules rs (funded_of i))))
      | _ \<Rightarrow> None)"

section \<open>Checksums\<close>

fun json_of :: "js_val \<Rightarrow> json"
and json_items :: "js_val list \<Rightarrow> json list"
and json_fields :: "(string \<times> js_val) list \<Rightarrow> (string \<times> json) list" where
  "json_of VUndef = JNull"
| "json_of VNull = JNull"
| "json_of (VBool b) = JBool b"
| "json_of (VNum n) = JNum n"
| "json_of (VBig n) = JStr (show_int n)"
| "json_of (VStr s) = JStr s"
| "json_of (VArr xs) = JArr (json_items xs)"
| "json_of (VObj f) = JObj (json_fields f)"
| "json_items [] = []"
| "json_items (x # xs) = json_of x # json_items xs"
| "json_fields [] = []"
| "json_fields ((k, x) # f) = (if x = VUndef then json_fields f else (k, json_of x) # json_fields f)"

definition computeChecksum :: "(string \<Rightarrow> string) \<Rightarrow> invoice_obj \<Rightarrow> string" where
  "computeChecksum sha i = sha (stringify (json_of (VObj i)))"

section \<open>Recording\<close>

datatype version_error =
    IllTyped
  | VersionNotFound int
  | InvalidVersionError int
  | InvoiceVersionNotFoundError string int
  | UnsafeRollbackError string int

definition change_summary :: "invoice_version option \<Rightarrow> invoice_obj \<Rightarrow> string option" where
  "change_summary latest snap =
     (case latest of
        None \<Rightarrow> Some ''Initial version.''
      | Some l \<Rightarrow>
          let d = diffInvoices (iv_snapshot l) snap; base = buildChangeSummary d
          in if list_ex (\<lambda>e. de_field e = ''split_rules'') d
             then map_option (\<lambda>t. base @ '' | Split preview: ['' @ t @ '']'') (split_lines snap)
             else Some base)"

definition next_number :: "invoice_version option \<Rightarrow> int" where
  "next_number latest = (case latest of Some l \<Rightarrow> iv_version l + 1 | None \<Rightarrow> 1)"

text \<open>What \<open>record\<close> does after its wait, with the version it read before.\<close>

definition record_finish ::
  "(string \<Rightarrow> string) \<Rightarrow> string \<Rightarrow> invoice_obj \<Rightarrow> string \<Rightarrow> int \<Rightarrow> invoice_version option \<Rightarrow> version_store
     \<Rightarrow> (version_error + invoice_version) \<times> version_store" where
  "record_finish sha i snap by' now latest s =
     (case change_summary latest snap of
        None \<Rightarrow> (Inl IllTyped, s)
      | Some summary \<Rightarrow>
          let v = \<lparr>iv_version = next_number latest, iv_snapshot = snap, iv_changedBy = by', iv_changedAt = now,
                   iv_changeSummary = summary, iv_isRollback = None, iv_rolledBackFromVersion = None,
                   iv_checksum = Some (computeChecksum sha snap), iv_metadata = None\<rparr>
          in (Inr v, vs_append i v s))"

definition record_version ::
  "(string \<Rightarrow> string) \<Rightarrow> string \<Rightarrow> invoice_obj \<Rightarrow> string \<Rightarrow> int \<Rightarrow> version_store
     \<Rightarrow> (version_error + invoice_version) \<times> version_store" where
  "record_version sha i snap by' now s = record_finish sha i snap by' now (getLatest i s) s"

record version_diff =
  vd_from :: int
  vd_to :: int
  vd_changes :: "diff_entry list"
  vd_hasChanges :: bool

definition version_diff_of :: "string \<Rightarrow> int \<Rightarrow> int \<Rightarrow> version_store \<Rightarrow> version_error + version_diff" where
  "version_diff_of i m n s =
     (case find (\<lambda>v. iv_version v = m) (getAll i s) of
        None \<Rightarrow> Inl (VersionNotFound m)
      | Some from' \<Rightarrow>
          (case find (\<lambda>v. iv_version v = n) (getAll i s) of
             None \<Rightarrow> Inl (VersionNotFound n)
           | Some to' \<Rightarrow>
               let changes = diffInvoices (iv_snapshot from') (iv_snapshot to')
               in Inr \<lparr>vd_from = m, vd_to = n, vd_changes = changes, vd_hasChanges = length changes > 0\<rparr>))"

section \<open>Rolling back\<close>

record rollback_options =
  ro_changedBy :: "string option"
  ro_reason :: "string option"
  ro_allowTerminal :: bool
  ro_preservePayments :: "bool option"
  ro_metadata :: "js_val option"

datatype unsafe_reason = NotPositive | NoHistory | AlreadyCurrent | ExceedsCurrent | TargetMissing | TerminalState

definition is_terminal :: "invoice_obj \<Rightarrow> bool" where
  "is_terminal i \<longleftrightarrow> own i ''status'' = VStr ''Released'' \<or> own i ''status'' = VStr ''Refunded''"

definition isRollbackSafe :: "string \<Rightarrow> int \<Rightarrow> rollback_options \<Rightarrow> version_store \<Rightarrow> unsafe_reason option" where
  "isRollbackSafe i target opts s =
     (if target \<le> 0 then Some NotPositive
      else case getLatest i s of
        None \<Rightarrow> Some NoHistory
      | Some latest \<Rightarrow>
          if target = iv_version latest then Some AlreadyCurrent
          else if target > iv_version latest then Some ExceedsCurrent
          else if getVersion i target s = None then Some TargetMissing
          else if is_terminal (iv_snapshot latest) \<and> \<not> ro_allowTerminal opts then Some TerminalState
          else None)"

definition rollback_error :: "string \<Rightarrow> int \<Rightarrow> version_store \<Rightarrow> version_error" where
  "rollback_error i target s =
     (case getLatest i s of
        None \<Rightarrow> InvalidVersionError target
      | Some latest \<Rightarrow>
          if target \<le> 0 \<or> target > iv_version latest then InvalidVersionError target
          else if getVersion i target s = None then InvoiceVersionNotFoundError i target
          else UnsafeRollbackError i target)"

definition restored_snapshot :: "invoice_version \<Rightarrow> invoice_version \<Rightarrow> rollback_options \<Rightarrow> invoice_obj" where
  "restored_snapshot latest target opts =
     (let base = AList.update ''recipients'' (own (iv_snapshot target) ''recipients'') (iv_snapshot target)
      in if (case ro_preservePayments opts of None \<Rightarrow> True | Some b \<Rightarrow> b)
         then AList.update ''funded'' (own (iv_snapshot latest) ''funded'')
                (AList.update ''payments'' (own (iv_snapshot latest) ''payments'') base)
         else base)"

record rollback_result =
  rr_invoiceId :: string
  rr_targetVersion :: int
  rr_newVersionNumber :: int
  rr_restoredInvoice :: invoice_obj
  rr_version :: invoice_version

definition rollback_summary :: "invoice_version \<Rightarrow> int \<Rightarrow> rollback_options \<Rightarrow> invoice_obj \<Rightarrow> string" where
  "rollback_summary latest target opts restored =
     ''Rolled back to version '' @ show_int target @ '' from v'' @ show_int (iv_version latest)
       @ (case ro_reason opts of Some r \<Rightarrow> if r \<noteq> '''' then '': '' @ r else '''' | None \<Rightarrow> '''')
       @ ''. Changes: '' @ buildChangeSummary (diffInvoices (iv_snapshot latest) restored)"

definition rollback_version ::
  "(string \<Rightarrow> string) \<Rightarrow> string \<Rightarrow> int \<Rightarrow> rollback_options \<Rightarrow> int \<Rightarrow> version_store
     \<Rightarrow> (version_error + rollback_result) \<times> version_store" where
  "rollback_version sha i target opts now s =
     (if isRollbackSafe i target opts s \<noteq> None then (Inl (rollback_error i target s), s)
      else case (getLatest i s, getVersion i target s) of
        (Some latest, Some tv) \<Rightarrow>
          let restored = restored_snapshot latest tv opts;
              v = \<lparr>iv_version = iv_version latest + 1, iv_snapshot = restored,
                   iv_changedBy = (case ro_changedBy opts of Some c \<Rightarrow> c | None \<Rightarrow> iv_changedBy tv), iv_changedAt = now,
                   iv_changeSummary = rollback_summary latest target opts restored,
                   iv_isRollback = Some True, iv_rolledBackFromVersion = Some target,
                   iv_checksum = Some (computeChecksum sha restored), iv_metadata = ro_metadata opts\<rparr>
          in (Inr \<lparr>rr_invoiceId = i, rr_targetVersion = target, rr_newVersionNumber = iv_version latest + 1,
                   rr_restoredInvoice = restored, rr_version = v\<rparr>, vs_append i v s)
      | _ \<Rightarrow> (Inl IllTyped, s))"

section \<open>The change log and import\<close>

text \<open>\<open>split("; ")\<close>.\<close>

fun split_semicolons :: "string \<Rightarrow> string list" where
  "split_semicolons [] = [[]]"
| "split_semicolons [c] = [[c]]"
| "split_semicolons (c # c' # cs) =
     (if c = CHR '';'' \<and> c' = CHR '' '' then [] # split_semicolons cs
      else case split_semicolons (c' # cs) of [] \<Rightarrow> [[c]] | w # ws \<Rightarrow> (c # w) # ws)"

definition part_field :: "string \<Rightarrow> string list" where
  "part_field part =
     (let before = takeWhile (\<lambda>c. c \<noteq> CHR '':'') part
      in if before \<noteq> part \<and> before \<noteq> [] then [trim before] else [])"

definition changed_fields :: "string \<Rightarrow> string list" where
  "changed_fields summary =
     (if summary \<noteq> '''' \<and> summary \<noteq> ''Initial version.'' \<and> summary \<noteq> ''No fields changed.''
      then concat (map part_field (split_semicolons summary)) else [])"

record change_log_entry =
  cl_version :: int
  cl_changedBy :: string
  cl_changedAt :: int
  cl_changeSummary :: string
  cl_isRollback :: bool
  cl_rolledBackFromVersion :: "int option"
  cl_changedFields :: "string list"

definition getChangeLog :: "string \<Rightarrow> version_store \<Rightarrow> change_log_entry list" where
  "getChangeLog i s =
     map (\<lambda>v. \<lparr>cl_version = iv_version v, cl_changedBy = iv_changedBy v, cl_changedAt = iv_changedAt v,
               cl_changeSummary = iv_changeSummary v, cl_isRollback = (iv_isRollback v = Some True),
               cl_rolledBackFromVersion = iv_rolledBackFromVersion v,
               cl_changedFields = changed_fields (iv_changeSummary v)\<rparr>) (getAll i s)"

text \<open>The versions an import appends, already read from the text.\<close>

definition import_versions :: "string \<Rightarrow> invoice_version list \<Rightarrow> version_store \<Rightarrow> nat \<times> version_store" where
  "import_versions i vs s = (length vs, foldl (\<lambda>s v. vs_append i v s) s vs)"

section \<open>A history of calls\<close>

datatype tracker_call =
    RecordCall string invoice_obj string int
  | RollbackCall string int rollback_options int
  | ClearCall "string option"

fun tracker_step :: "(string \<Rightarrow> string) \<Rightarrow> version_store \<Rightarrow> tracker_call \<Rightarrow> version_store" where
  "tracker_step sha s (RecordCall i snap by' now) = snd (record_version sha i snap by' now s)"
| "tracker_step sha s (RollbackCall i target opts now) = snd (rollback_version sha i target opts now s)"
| "tracker_step sha s (ClearCall i) = vs_clear i s"

definition well_recorded :: "(string \<Rightarrow> string) \<Rightarrow> invoice_version \<Rightarrow> bool" where
  "well_recorded sha v \<longleftrightarrow>
     iv_checksum v = Some (computeChecksum sha (iv_snapshot v))
     \<and> (case iv_rolledBackFromVersion v of None \<Rightarrow> iv_isRollback v = None
        | Some t \<Rightarrow> iv_isRollback v = Some True \<and> 1 \<le> t \<and> t < iv_version v)"

definition history_ok :: "(string \<Rightarrow> string) \<Rightarrow> version_store \<Rightarrow> bool" where
  "history_ok sha s \<longleftrightarrow>
     (\<forall>i. map iv_version (getAll i s) = map int [1..<Suc (length (getAll i s))]
        \<and> (\<forall>v \<in> set (getAll i s). well_recorded sha v))"

lemma getAll_append: "getAll j (vs_append i v s) = (if j = i then getAll i s @ [v] else getAll j s)"
  by (simp add: getAll_def vs_append_def)

lemma getAll_clear: "getAll j (vs_clear i s) = [] \<or> getAll j (vs_clear i s) = getAll j s"
  by (auto simp: getAll_def vs_clear_def split: option.splits)

lemma version_nth: "history_ok sha s \<Longrightarrow> k < length (getAll i s) \<Longrightarrow> iv_version (getAll i s ! k) = int k + 1"
proof -
  assume "history_ok sha s" and k: "k < length (getAll i s)"
  then have "map iv_version (getAll i s) ! k = map int [1..<Suc (length (getAll i s))] ! k"
    by (simp only: history_ok_def)
  with k show ?thesis by (simp del: upt_Suc)
qed

lemma getLatest_iff: "getLatest i s = (if getAll i s = [] then None else Some (last (getAll i s)))"
  by (simp add: getLatest_def split: list.splits)

lemma latest_version:
  "history_ok sha s \<Longrightarrow> getLatest i s = Some v \<Longrightarrow>
     iv_version v = int (length (getAll i s)) \<and> v = getAll i s ! (length (getAll i s) - 1) \<and> getAll i s \<noteq> []"
proof -
  assume ok: "history_ok sha s" and l: "getLatest i s = Some v"
  then have vs: "getAll i s \<noteq> []" "v = last (getAll i s)" by (auto simp: getLatest_iff split: if_splits)
  then have "length (getAll i s) - 1 < length (getAll i s)" by simp
  from version_nth [OF ok this] vs show ?thesis by (simp add: last_conv_nth of_nat_diff Suc_leI)
qed

lemma next_number_length: "history_ok sha s \<Longrightarrow> next_number (getLatest i s) = int (length (getAll i s)) + 1"
  using latest_version [of sha s i] by (auto simp: next_number_def getLatest_iff split: option.splits)

lemma getVersion_nth:
  assumes "history_ok sha s"
  shows "getVersion i n s =
     (if 1 \<le> n \<and> n \<le> int (length (getAll i s)) then Some (getAll i s ! nat (n - 1)) else None)"
proof (cases "1 \<le> n \<and> n \<le> int (length (getAll i s))")
  case True
  then have k: "nat (n - 1) < length (getAll i s)" by linarith
  have "find (\<lambda>v. iv_version v = n) (getAll i s) = Some (getAll i s ! nat (n - 1))"
    unfolding find_Some_iff using True k version_nth [OF assms, of _ i]
    by (intro exI [of _ "nat (n - 1)"]) auto
  with True show ?thesis by (simp add: getVersion_def)
next
  case False
  have "iv_version v \<noteq> n" if "v \<in> set (getAll i s)" for v
    using that False version_nth [OF assms, of _ i] by (fastforce simp: in_set_conv_nth)
  then have "getVersion i n s = None" by (auto simp: getVersion_def find_None_iff)
  with False show ?thesis by (simp only: if_not_P if_False)
qed

lemma append_ok:
  assumes "history_ok sha s" "iv_version v = int (length (getAll i s)) + 1" "well_recorded sha v"
  shows "history_ok sha (vs_append i v s)"
  using assms by (auto simp: history_ok_def getAll_append)

lemma record_ok: "history_ok sha s \<Longrightarrow> history_ok sha (snd (record_version sha i snap by' now s))"
  unfolding record_version_def record_finish_def
  by (cases "change_summary (getLatest i s) snap")
    (auto simp: Let_def next_number_length well_recorded_def intro!: append_ok)

lemma safe_targets:
  assumes "history_ok sha s"
  shows "isRollbackSafe i target opts s = None \<longleftrightarrow>
     1 \<le> target \<and> target < int (length (getAll i s))
     \<and> (is_terminal (iv_snapshot (last (getAll i s))) \<longrightarrow> ro_allowTerminal opts)"
proof (cases "getAll i s = []")
  case True
  then show ?thesis by (simp add: isRollbackSafe_def getLatest_iff)
next
  case False
  then have "getLatest i s = Some (last (getAll i s))" by (simp add: getLatest_iff)
  with latest_version [OF assms this] show ?thesis
    by (auto simp: isRollbackSafe_def getVersion_nth [OF assms])
qed

lemma rollback_success:
  assumes "history_ok sha s" "isRollbackSafe i target opts s = None"
  defines "latest \<equiv> last (getAll i s)" and "tv \<equiv> getAll i s ! nat (target - 1)"
  shows "\<exists>res. rollback_version sha i target opts now s = (Inr res, vs_append i (rr_version res) s)
    \<and> rr_newVersionNumber res = int (length (getAll i s)) + 1
    \<and> iv_version (rr_version res) = int (length (getAll i s)) + 1
    \<and> rr_restoredInvoice res = restored_snapshot latest tv opts
    \<and> iv_snapshot (rr_version res) = restored_snapshot latest tv opts
    \<and> iv_rolledBackFromVersion (rr_version res) = Some target \<and> well_recorded sha (rr_version res)"
proof -
  have t: "1 \<le> target" "target < int (length (getAll i s))" using assms(2) safe_targets [OF assms(1)] by auto
  then have "getLatest i s = Some latest" by (auto simp: getLatest_iff latest_def)
  moreover from this have "iv_version latest = int (length (getAll i s))" using latest_version [OF assms(1)] by blast
  moreover have "getVersion i target s = Some tv" using t by (simp add: getVersion_nth [OF assms(1)] tv_def)
  moreover define r where "r = restored_snapshot latest tv opts"
  moreover define v where "v = \<lparr>iv_version = int (length (getAll i s)) + 1, iv_snapshot = r,
      iv_changedBy = (case ro_changedBy opts of Some c \<Rightarrow> c | None \<Rightarrow> iv_changedBy tv), iv_changedAt = now,
      iv_changeSummary = rollback_summary latest target opts r,
      iv_isRollback = Some True, iv_rolledBackFromVersion = Some target,
      iv_checksum = Some (computeChecksum sha r), iv_metadata = ro_metadata opts\<rparr>"
  ultimately have "rollback_version sha i target opts now s =
      (Inr \<lparr>rr_invoiceId = i, rr_targetVersion = target, rr_newVersionNumber = int (length (getAll i s)) + 1,
            rr_restoredInvoice = r, rr_version = v\<rparr>, vs_append i v s)"
    using assms(2) by (simp add: rollback_version_def Let_def)
  then show ?thesis using t by (simp add: v_def r_def well_recorded_def)
qed

lemma rollback_ok: "history_ok sha s \<Longrightarrow> history_ok sha (snd (rollback_version sha i target opts now s))"
proof (cases "isRollbackSafe i target opts s = None")
  case True
  assume ok: "history_ok sha s"
  obtain res where
    "rollback_version sha i target opts now s = (Inr res, vs_append i (rr_version res) s)"
    "iv_version (rr_version res) = int (length (getAll i s)) + 1" "well_recorded sha (rr_version res)"
    using rollback_success [OF ok True] by metis
  with append_ok [OF ok] show ?thesis by simp
qed (simp add: rollback_version_def)

interpretation tracker: machine "tracker_step sha" "history_ok sha"
proof
  fix s c assume ok: "history_ok sha s"
  show "history_ok sha (tracker_step sha s c)"
  proof (cases c)
    case (ClearCall i)
    have "map iv_version (getAll j (vs_clear i s)) = map int [1..<Suc (length (getAll j (vs_clear i s)))]
        \<and> (\<forall>v \<in> set (getAll j (vs_clear i s)). well_recorded sha v)" for j
      using getAll_clear [of j i s] ok unfolding history_ok_def by (elim disjE) simp_all
    then show ?thesis by (simp add: ClearCall history_ok_def)
  qed (simp_all add: record_ok rollback_ok ok)
qed

lemma tracked: "history_ok sha (foldl (tracker_step sha) [] cs)"
  by (rule tracker.run_inv) (simp add: history_ok_def getAll_def)

section \<open>What a history promises\<close>

text \<open>
  After any sequence of completed calls the versions of an invoice are numbered from 1 without gap,
  each carries the checksum of its own snapshot, and a rollback names an earlier version.
\<close>
theorem versions_numbered:
  fixes sha cs i
  defines "vs \<equiv> getAll i (foldl (tracker_step sha) [] cs)"
  shows "map iv_version vs = map int [1..<Suc (length vs)]
    \<and> (\<forall>v \<in> set vs. iv_checksum v = Some (computeChecksum sha (iv_snapshot v))
         \<and> (\<forall>t. iv_rolledBackFromVersion v = Some t \<longrightarrow> 1 \<le> t \<and> t < iv_version v))"
  using tracked [of sha cs] unfolding vs_def history_ok_def well_recorded_def by force

lemma step_append_only:
  assumes "\<And>k. c = ClearCall k \<Longrightarrow> k \<noteq> None \<and> k \<noteq> Some '''' \<and> k \<noteq> Some i"
  shows "\<exists>new. getAll i (tracker_step sha s c) = getAll i s @ new"
proof (cases c)
  case (RecordCall j snap by' now)
  then show ?thesis
    by (auto simp: record_version_def record_finish_def Let_def getAll_append split: option.splits)
next
  case (RollbackCall j t opts now)
  then show ?thesis
    by (auto simp: rollback_version_def Let_def getAll_append split: option.splits)
next
  case (ClearCall k)
  with assms show ?thesis by (auto simp: vs_clear_def getAll_def split: option.splits)
qed

text \<open>History is append-only: until it is cleared, no call changes or drops a version already recorded.\<close>
theorem history_append_only:
  assumes "\<forall>k. ClearCall k \<in> set cs \<longrightarrow> k \<noteq> None \<and> k \<noteq> Some '''' \<and> k \<noteq> Some i"
  shows "\<exists>new. getAll i (foldl (tracker_step sha) s cs) = getAll i s @ new"
  using assms
proof (induction cs arbitrary: s)
  case (Cons c cs)
  obtain n1 where "getAll i (tracker_step sha s c) = getAll i s @ n1"
    using step_append_only [of c i sha s] Cons.prems by auto
  moreover obtain n2 where "getAll i (foldl (tracker_step sha) (tracker_step sha s c) cs) = getAll i (tracker_step sha s c) @ n2"
    using Cons.IH [of "tracker_step sha s c"] Cons.prems by auto
  ultimately show ?case by simp
qed simp

text \<open>
  A rollback to an earlier version of a live invoice (or of a finished one, when that is allowed)
  succeeds and appends one version: the target's fields, except that the payments and the funded
  total are those of the latest version unless the caller asks otherwise. Every other rollback is
  refused with the error its cause calls for and changes nothing.
\<close>
theorem rollback_outcome:
  fixes sha cs i target opts now
  defines "s \<equiv> foldl (tracker_step sha) [] cs"
  defines "vs \<equiv> getAll i s"
  defines "allowed \<equiv> (is_terminal (iv_snapshot (last vs)) \<longrightarrow> ro_allowTerminal opts)"
  shows "if 1 \<le> target \<and> target < int (length vs) \<and> allowed
    then \<exists>res. rollback_version sha i target opts now s = (Inr res, vs_append i (rr_version res) s)
      \<and> iv_version (rr_version res) = int (length vs) + 1
      \<and> iv_snapshot (rr_version res) = rr_restoredInvoice res
      \<and> (\<forall>k. own (rr_restoredInvoice res) k =
            (if k \<in> {''payments'', ''funded''} \<and> ro_preservePayments opts \<noteq> Some False
             then own (iv_snapshot (last vs)) k else own (iv_snapshot (vs ! nat (target - 1))) k))
    else rollback_version sha i target opts now s =
      (Inl (if vs = [] \<or> target \<le> 0 \<or> target > int (length vs) then InvalidVersionError target
            else UnsafeRollbackError i target), s)"
proof -
  have ok: "history_ok sha s" unfolding s_def by (rule tracked)
  note safe = safe_targets [OF ok, of i target opts]
  show ?thesis
  proof (cases "isRollbackSafe i target opts s = None")
    case True
    have "own (restored_snapshot l t opts) k =
        (if k \<in> {''payments'', ''funded''} \<and> ro_preservePayments opts \<noteq> Some False
         then own (iv_snapshot l) k else own (iv_snapshot t) k)" for l t k
      by (auto simp: restored_snapshot_def Let_def own_update split: option.splits)
    with rollback_success [OF ok True, of now] True safe show ?thesis
      by (auto simp: vs_def allowed_def)
  next
    case False
    have "rollback_error i target s =
        (if vs = [] \<or> target \<le> 0 \<or> target > int (length vs) then InvalidVersionError target else UnsafeRollbackError i target)"
    proof (cases "vs = []")
      case nonempty: False
      then have "getLatest i s = Some (last vs)" by (simp add: getLatest_iff vs_def)
      with latest_version [OF ok this] nonempty show ?thesis
        by (auto simp: rollback_error_def getVersion_nth [OF ok] vs_def [symmetric])
    qed (simp add: rollback_error_def getLatest_iff vs_def)
    with False safe show ?thesis by (auto simp: rollback_version_def vs_def allowed_def)
  qed
qed

section \<open>The change log\<close>

lemma split_semicolons_append:
  "split_semicolons p = [p] \<Longrightarrow> split_semicolons (p @ '';'' @ '' '' @ q) = p # split_semicolons q"
proof (induction p rule: split_semicolons.induct)
  case (3 c c' cs)
  from 3(3) have nsep: "\<not> (c = CHR '';'' \<and> c' = CHR '' '')"
    and "split_semicolons (c' # cs) = [c' # cs]"
    by (auto split: if_splits list.splits)
  with 3(2) show ?case by simp
qed auto

lemma split_join:
  "ps \<noteq> [] \<Longrightarrow> \<forall>p \<in> set ps. split_semicolons p = [p] \<Longrightarrow> split_semicolons (join_with ''; '' ps) = ps"
proof (induction "''; ''" ps rule: join_with.induct)
  case (3 p p' ps)
  then show ?case using split_semicolons_append [of p "join_with ''; '' (p' # ps)"] by simp
qed simp_all

lemma tracked_field_part:
  assumes "k \<in> set INVOICE_FIELDS"
  shows "part_field (k @ CHR '':'' # rest) = [k]"
proof -
  have "CHR '':'' \<notin> set k \<and> k \<noteq> [] \<and> trim k = k"
    using assms by (auto simp: INVOICE_FIELDS_def trim_def is_space_def)
  then show ?thesis by (auto simp: part_field_def Let_def takeWhile_append)
qed

text \<open>
  The change log recovers from the text of a summary the fields that changed, as long as no value
  in it contains the separator.
\<close>
theorem change_log_recovers_fields:
  assumes "\<forall>e \<in> set (diffInvoices a b). split_semicolons (summary_part e) = [summary_part e]"
  shows "changed_fields (buildChangeSummary (diffInvoices a b)) = map de_field (diffInvoices a b)"
proof (cases "diffInvoices a b = []")
  case True
  then show ?thesis by (simp add: buildChangeSummary_def changed_fields_def)
next
  case False
  let ?d = "diffInvoices a b"
  have parts: "concat (map part_field (map summary_part es)) = map de_field es"
    if "set es \<subseteq> set ?d" for es
  proof -
    have "de_field e \<in> set INVOICE_FIELDS" if "e \<in> set ?d" for e
    proof -
      have "e \<in> set (diff_fields a b ks) \<Longrightarrow> de_field e \<in> set ks" for ks
        by (induction ks) (auto simp: Let_def split: if_splits)
      with that show ?thesis by (simp add: diffInvoices_def)
    qed
    with that show ?thesis by (induction es) (auto simp: summary_part_def tracked_field_part)
  qed
  have s: "buildChangeSummary ?d = join_with ''; '' (map summary_part ?d)" using False by (simp add: buildChangeSummary_def)
  have split: "split_semicolons (buildChangeSummary ?d) = map summary_part ?d"
    unfolding s using False assms by (intro split_join) auto
  have "buildChangeSummary ?d \<noteq> x" if "split_semicolons x = [x]" "CHR '':'' \<notin> set x" for x
  proof
    assume "buildChangeSummary ?d = x"
    with split that(1) have "map summary_part ?d = [x]" by simp
    then have "CHR '':'' \<in> set x" by (auto simp: summary_part_def)
    with that(2) show False by simp
  qed
  from this [of "''''"] this [of "''Initial version.''"] this [of "''No fields changed.''"]
  show ?thesis using parts [of ?d] by (simp add: changed_fields_def split)
qed

section \<open>Examples\<close>

definition sample_options :: rollback_options where
  "sample_options = \<lparr>ro_changedBy = None, ro_reason = None, ro_allowTerminal = False, ro_preservePayments = None, ro_metadata = None\<rparr>"

definition sample_v1 :: invoice_obj where
  "sample_v1 = [(''id'', VStr ''7''), (''recipients'', VArr []), (''funded'', VBig 0), (''memo'', VStr ''rent''), (''payments'', VArr []), (''status'', VStr ''Pending'')]"

definition sample_v2 :: invoice_obj where
  "sample_v2 = [(''id'', VStr ''7''), (''recipients'', VArr []), (''funded'', VBig 5), (''memo'', VStr ''hire''), (''payments'', VArr [VNull]), (''status'', VStr ''Pending'')]"

definition sample_calls :: "tracker_call list" where
  "sample_calls = [RecordCall ''7'' sample_v1 ''ann'' 10, RecordCall ''7'' sample_v2 ''bob'' 20]"

lemma sample_history:
  "map (\<lambda>v. (iv_version v, iv_snapshot v)) (getAll ''7'' (foldl (tracker_step sha) [] sample_calls)) = [(1, sample_v1), (2, sample_v2)]"
  by (simp add: sample_calls_def record_version_def record_finish_def getLatest_def getAll_def vs_append_def change_summary_def Let_def
      next_number_def diffInvoices_def INVOICE_FIELDS_def sample_v1_def sample_v2_def own_def)

lemma sample_versions:
  obtains a b where "getAll ''7'' (foldl (tracker_step sha) [] sample_calls) = [a, b]"
    "iv_snapshot a = sample_v1" "iv_snapshot b = sample_v2"
  using sample_history [of sha] by auto

text \<open>The rolled-back invoice has the old memo and the new payments.\<close>

lemma rollback_outcome_example:
  "\<exists>res s'. rollback_version id ''7'' 1 sample_options 30 (foldl (tracker_step id) [] sample_calls) = (Inr res, s')
     \<and> own (rr_restoredInvoice res) ''memo'' = VStr ''rent'' \<and> own (rr_restoredInvoice res) ''funded'' = VBig 5"
proof -
  obtain a b where vs: "getAll ''7'' (foldl (tracker_step id) [] sample_calls) = [a, b]"
    "iv_snapshot a = sample_v1" "iv_snapshot b = sample_v2" by (rule sample_versions)
  let ?s = "foldl (tracker_step id) [] sample_calls"
  have safe: "isRollbackSafe ''7'' 1 sample_options ?s = None"
    using safe_targets [OF tracked, where i = "''7''" and target = 1 and opts = sample_options] vs
    by (simp add: is_terminal_def own_def sample_v2_def)
  from rollback_success [OF tracked this, of 30] obtain res where
    "rollback_version id ''7'' 1 sample_options 30 ?s = (Inr res, vs_append ''7'' (rr_version res) ?s)"
    "rr_restoredInvoice res = restored_snapshot b a sample_options" by (auto simp: vs)
  then show ?thesis
    using vs by (auto simp: restored_snapshot_def sample_options_def own_update)
      (simp_all add: own_def sample_v1_def sample_v2_def)
qed

lemma rollback_outcome_witness:
  "fst (rollback_version id ''7'' 2 sample_options 30 (foldl (tracker_step id) [] sample_calls)) = Inl (UnsafeRollbackError ''7'' 2)"
proof -
  obtain a b where "getAll ''7'' (foldl (tracker_step id) [] sample_calls) = [a, b]"
    by (rule sample_versions)
  then show ?thesis using rollback_outcome [where i = "''7''" and sha = id and cs = sample_calls and target = 2 and opts = sample_options and now = 30] by simp
qed

lemma history_append_only_witness:
  "\<exists>new. getAll ''7'' (foldl (tracker_step id) [] (sample_calls @ [ClearCall (Some ''8'')])) = getAll ''7'' [] @ new"
  using history_append_only [of "sample_calls @ [ClearCall (Some ''8'')]" "''7''" id "[]"] by (simp add: sample_calls_def)

lemma sample_diff:
  "diffInvoices sample_v1 sample_v2 =
     [\<lparr>de_field = ''funded'', de_before = VBig 0, de_after = VBig 5\<rparr>,
      \<lparr>de_field = ''payments'', de_before = VArr [], de_after = VArr [VNull]\<rparr>,
      \<lparr>de_field = ''memo'', de_before = VStr ''rent'', de_after = VStr ''hire''\<rparr>]"
  by (simp add: diffInvoices_def INVOICE_FIELDS_def Let_def own_def sample_v1_def sample_v2_def)

lemma sample_parts:
  "split_semicolons (summary_part \<lparr>de_field = ''funded'', de_before = VBig 0, de_after = VBig 5\<rparr>) =
     [summary_part \<lparr>de_field = ''funded'', de_before = VBig 0, de_after = VBig 5\<rparr>]"
  "split_semicolons (summary_part \<lparr>de_field = ''payments'', de_before = VArr [], de_after = VArr [VNull]\<rparr>) =
     [summary_part \<lparr>de_field = ''payments'', de_before = VArr [], de_after = VArr [VNull]\<rparr>]"
  "split_semicolons (summary_part \<lparr>de_field = ''memo'', de_before = VStr ''rent'', de_after = VStr ''hire''\<rparr>) =
     [summary_part \<lparr>de_field = ''memo'', de_before = VStr ''rent'', de_after = VStr ''hire''\<rparr>]"
  by code_simp+

lemma change_log_recovers_fields_witness:
  "changed_fields (buildChangeSummary (diffInvoices sample_v1 sample_v2)) = [''funded'', ''payments'', ''memo'']"
  using change_log_recovers_fields [of sample_v1 sample_v2] by (simp add: sample_diff sample_parts)

text \<open>
  Two overlapping calls of \<open>record\<close> read the same latest version and give their versions the same
  number; looking that number up finds only the first.
\<close>
lemma overlapping_records_share_number:
  assumes "getLatest i s = None"
  shows "\<exists>v w s1 s2. record_finish sha i a by1 t1 (getLatest i s) s = (Inr v, s1)
    \<and> record_finish sha i b by2 t2 (getLatest i s) s1 = (Inr w, s2)
    \<and> getAll i s2 = [v, w] \<and> iv_version v = 1 \<and> iv_version w = 1 \<and> getVersion i 1 s2 = Some v"
  using assms
  by (auto simp: record_finish_def change_summary_def next_number_def getAll_append getVersion_def getLatest_iff Let_def
      split: if_splits)

text \<open>For a rollback the change log names a sentence as the first changed field.\<close>

lemma rollback_log_garbled:
  "changed_fields (rollback_summary \<lparr>iv_version = 2, iv_snapshot = sample_v2, iv_changedBy = ''bob'', iv_changedAt = 20,
      iv_changeSummary = '''', iv_isRollback = None, iv_rolledBackFromVersion = None, iv_checksum = None, iv_metadata = None\<rparr>
      1 sample_options sample_v1)
    = [''Rolled back to version 1 from v2. Changes'', ''payments'', ''memo'']"
  by code_simp

end
