(* ===== verification/Waterfall.thy ===== *)
theory Waterfall
  imports Invoice_State
begin

text \<open>
  The waterfall payout: \<open>src/routing/WaterfallRouter.ts\<close> with the types of
  \<open>src/types/routing.ts\<close>. Tiers are tried in the order of their score, and once a tier's minimum
  does not fit into what is left, that tier and all after it get nothing. Planning refuses negative amounts.
\<close>

section \<open>Data\<close>

record waterfall_tier =
  wt_recipient :: string
  wt_minimumAmount :: int
  wt_asset :: "string option"
  wt_score :: "rat option"

record waterfall_config =
  wc_tiers :: "waterfall_tier list"
  wc_allowPartial :: "bool option"

record waterfall_step =
  ws_recipient :: string
  ws_amount :: int
  ws_asset :: string
  ws_minimumAmount :: int
  ws_satisfied :: bool

record waterfall_plan =
  wp_steps :: "waterfall_step list"
  wp_fullySatisfied :: bool
  wp_totalAllocated :: int
  wp_remaining :: int
  wp_allowPartial :: "bool option"

datatype waterfall_error = NegativeAvailable int | NegativeMinimum string int

section \<open>Operations\<close>

definition tier_score :: "waterfall_tier \<Rightarrow> rat" where
  "tier_score t = (case wt_score t of None \<Rightarrow> 0 | Some s \<Rightarrow> s)"

text \<open>\<open>(b.score ?? 0) - (a.score ?? 0) || a.index - b.index\<close>\<close>

definition tier_cmp :: "waterfall_tier \<times> nat \<Rightarrow> waterfall_tier \<times> nat \<Rightarrow> rat" where
  "tier_cmp a b =
     (let d = tier_score (fst b) - tier_score (fst a)
      in if d \<noteq> 0 then d else of_nat (snd a) - of_nat (snd b))"

definition sortTiersByScore :: "waterfall_tier list \<Rightarrow> waterfall_tier list" where
  "sortTiersByScore tiers = map fst (js_sort tier_cmp (zip tiers [0..<length tiers]))"

fun check_tiers :: "waterfall_tier list \<Rightarrow> waterfall_error + unit" where
  "check_tiers [] = Inr ()"
| "check_tiers (t # ts) =
     (if wt_minimumAmount t < 0 then Inl (NegativeMinimum (wt_recipient t) (wt_minimumAmount t))
      else check_tiers ts)"

definition step_of :: "string \<Rightarrow> waterfall_tier \<Rightarrow> int \<Rightarrow> bool \<Rightarrow> waterfall_step" where
  "step_of token t amt ok =
     \<lparr>ws_recipient = wt_recipient t, ws_amount = amt,
      ws_asset = (case wt_asset t of None \<Rightarrow> token | Some a \<Rightarrow> a),
      ws_minimumAmount = wt_minimumAmount t, ws_satisfied = ok\<rparr>"

text \<open>The loop over the sorted tiers, with its variables \<open>remaining\<close> and \<open>blocked\<close>.\<close>

fun fill_tiers :: "string \<Rightarrow> waterfall_tier list \<Rightarrow> int \<Rightarrow> bool \<Rightarrow> waterfall_step list \<times> int" where
  "fill_tiers token [] remaining blocked = ([], remaining)"
| "fill_tiers token (t # ts) remaining blocked =
     (if blocked \<or> wt_minimumAmount t > remaining then
        (let (steps, r) = fill_tiers token ts remaining True in (step_of token t 0 False # steps, r))
      else
        (let (steps, r) = fill_tiers token ts (remaining - wt_minimumAmount t) False
         in (step_of token t (wt_minimumAmount t) True # steps, r)))"

definition plan :: "invoice \<Rightarrow> int \<Rightarrow> waterfall_config \<Rightarrow> waterfall_error + waterfall_plan" where
  "plan iv availableAmount config =
     (if availableAmount < 0 then Inl (NegativeAvailable availableAmount)
      else rbind (check_tiers (wc_tiers config)) (\<lambda>_.
        let tiers = sortTiersByScore (wc_tiers config);
            (steps, remaining) = fill_tiers (inv_token iv) tiers availableAmount False
        in Inr \<lparr>wp_steps = steps,
                wp_fullySatisfied = (\<forall>s \<in> set steps. ws_satisfied s),
                wp_totalAllocated = foldl (\<lambda>acc s. acc + ws_amount s) 0 steps,
                wp_remaining = remaining,
                wp_allowPartial = wc_allowPartial config\<rparr>))"

section \<open>Lemmas\<close>

lemma tier_cmp_le: "tier_cmp a b \<le> 0 \<longleftrightarrow>
   tier_score (fst b) < tier_score (fst a) \<or> tier_score (fst a) = tier_score (fst b) \<and> snd a \<le> snd b"
  by (auto simp: tier_cmp_def Let_def)

interpretation tier_order: comparator tier_cmp
  by unfold_locales (auto simp: tier_cmp_le)

lemma check_tiers_Inr: "check_tiers ts = Inr u \<longleftrightarrow> (\<forall>t \<in> set ts. 0 \<le> wt_minimumAmount t)"
  by (induction ts) auto

lemma length_sortTiers [simp]: "length (sortTiersByScore ts) = length ts"
  by (simp add: sortTiersByScore_def)

lemma mset_sortTiers: "mset (sortTiersByScore ts) = mset ts"
  by (simp add: sortTiersByScore_def) (metis length_upt map_fst_zip minus_nat.diff_0 mset_map)

lemma set_sortTiers [simp]: "set (sortTiersByScore ts) = set ts"
  using mset_sortTiers by (metis set_mset_mset)

lemma step_of_simps [simp]:
  "ws_amount (step_of k t a ok) = a" "ws_satisfied (step_of k t a ok) = ok"
  "ws_minimumAmount (step_of k t a ok) = wt_minimumAmount t"
  "ws_recipient (step_of k t a ok) = wt_recipient t"
  by (simp_all add: step_of_def)

text \<open>A blocked loop pays nobody and keeps what is left.\<close>

lemma fill_blocked: "fill_tiers k ts r True = (map (\<lambda>t. step_of k t 0 False) ts, r)"
  by (induction ts) simp_all

text \<open>
  What the loop computes: the longest prefix of the tiers whose minimums add up to at most what
  is available is paid in full, and everything after it gets nothing.
\<close>

definition paid_prefix ::
    "string \<Rightarrow> waterfall_tier list \<Rightarrow> int \<Rightarrow> nat \<Rightarrow> waterfall_step list \<Rightarrow> int \<Rightarrow> bool" where
  "paid_prefix k ts r n steps r' \<longleftrightarrow>
     n \<le> length ts \<and>
     steps = map (\<lambda>t. step_of k t (wt_minimumAmount t) True) (take n ts) @
             map (\<lambda>t. step_of k t 0 False) (drop n ts) \<and>
     r' = r - sum_list (map wt_minimumAmount (take n ts)) \<and> 0 \<le> r' \<and>
     (n < length ts \<longrightarrow> r' < wt_minimumAmount (ts ! n))"

lemma paid_prefix_0: "0 \<le> r \<Longrightarrow> ts = [] \<or> r < wt_minimumAmount (hd ts) \<Longrightarrow>
    paid_prefix k ts r 0 (map (\<lambda>t. step_of k t 0 False) ts) r"
  by (cases ts) (auto simp: paid_prefix_def)

lemma paid_prefix_Suc: "paid_prefix k ts (r - wt_minimumAmount t) n ss r' \<Longrightarrow>
    paid_prefix k (t # ts) r (Suc n) (step_of k t (wt_minimumAmount t) True # ss) r'"
  by (auto simp: paid_prefix_def)

lemma fill_prefix:
  "fill_tiers k ts r False = (steps, r') \<Longrightarrow> 0 \<le> r \<Longrightarrow> \<exists>n. paid_prefix k ts r n steps r'"
proof (induction ts arbitrary: r steps)
  case Nil
  then have "paid_prefix k [] r 0 steps r'" by (simp add: paid_prefix_def)
  then show ?case ..
next
  case (Cons t ts)
  show ?case
  proof (cases "wt_minimumAmount t > r")
    case True
    with Cons.prems(1) have st: "steps = map (\<lambda>t. step_of k t 0 False) (t # ts)" "r' = r"
      by (auto simp: fill_blocked)
    have "paid_prefix k (t # ts) r 0 steps r'"
      unfolding st by (rule paid_prefix_0) (simp_all add: True Cons.prems(2))
    then show ?thesis ..
  next
    case False
    with Cons.prems(1) obtain ss where ss: "fill_tiers k ts (r - wt_minimumAmount t) False = (ss, r')"
      and st: "steps = step_of k t (wt_minimumAmount t) True # ss"
      by (auto split: prod.splits)
    from False have "0 \<le> r - wt_minimumAmount t" by simp
    from Cons.IH [OF ss this] obtain n where "paid_prefix k ts (r - wt_minimumAmount t) n ss r'" ..
    from paid_prefix_Suc [OF this] show ?thesis unfolding st ..
  qed
qed

lemma plan_prefix:
  assumes "plan iv a c = Inr p"
  shows "\<exists>n. paid_prefix (inv_token iv) (sortTiersByScore (wc_tiers c)) a n (wp_steps p) (wp_remaining p)"
    and "\<forall>t \<in> set (wc_tiers c). 0 \<le> wt_minimumAmount t"
    and "wp_totalAllocated p = sum_list (map ws_amount (wp_steps p))"
    and "wp_fullySatisfied p \<longleftrightarrow> (\<forall>s \<in> set (wp_steps p). ws_satisfied s)"
proof -
  let ?ts = "sortTiersByScore (wc_tiers c)"
  obtain steps r where f: "fill_tiers (inv_token iv) ?ts a False = (steps, r)"
    by (cases "fill_tiers (inv_token iv) ?ts a False")
  from assms f have a: "0 \<le> a" and m: "\<forall>t \<in> set (wc_tiers c). 0 \<le> wt_minimumAmount t"
    and p: "p = \<lparr>wp_steps = steps, wp_fullySatisfied = (\<forall>s \<in> set steps. ws_satisfied s),
      wp_totalAllocated = foldl (\<lambda>acc s. acc + ws_amount s) 0 steps, wp_remaining = r, wp_allowPartial = wc_allowPartial c\<rparr>"
    by (auto simp: plan_def rbind_Inr_iff check_tiers_Inr Let_def split: if_splits)
  from fill_prefix [OF f a]
  show "\<exists>n. paid_prefix (inv_token iv) ?ts a n (wp_steps p) (wp_remaining p)" by (simp add: p)
  show "\<forall>t \<in> set (wc_tiers c). 0 \<le> wt_minimumAmount t" by (rule m)
  show "wp_totalAllocated p = sum_list (map ws_amount (wp_steps p))" by (simp add: p foldl_sum)
  show "wp_fullySatisfied p \<longleftrightarrow> (\<forall>s \<in> set (wp_steps p). ws_satisfied s)" by (simp add: p)
qed

lemma sum_min_take_le:
  "\<forall>t \<in> set ts. 0 \<le> wt_minimumAmount t \<Longrightarrow>
     sum_list (map wt_minimumAmount (take n ts)) \<le> sum_list (map wt_minimumAmount ts)"
proof -
  assume nn: "\<forall>t \<in> set ts. 0 \<le> wt_minimumAmount t"
  have "sum_list (map wt_minimumAmount ts) =
      sum_list (map wt_minimumAmount (take n ts)) + sum_list (map wt_minimumAmount (drop n ts))"
    by (metis append_take_drop_id map_append sum_list_append)
  moreover have "0 \<le> sum_list (map wt_minimumAmount (drop n ts))"
    using nn by (intro sum_list_nonneg) (auto dest: in_set_dropD)
  ultimately show ?thesis by simp
qed

lemma sum_min_sorted:
  "sum_list (map wt_minimumAmount (sortTiersByScore ts)) = sum_list (map wt_minimumAmount ts)"
  by (metis mset_map mset_sortTiers sum_mset_sum_list)

text \<open>The sorted tiers with the index at which each was declared: by falling score, ties as declared.\<close>

definition ranked_tiers :: "waterfall_tier list \<Rightarrow> (waterfall_tier \<times> nat) list" where
  "ranked_tiers ts = js_sort tier_cmp (zip ts [0..<length ts])"

lemma sorted_ranked: "sortTiersByScore ts = map fst (ranked_tiers ts)"
  by (simp add: sortTiersByScore_def ranked_tiers_def)

lemma mset_ranked: "mset (ranked_tiers ts) = mset (zip ts [0..<length ts])"
  by (simp add: ranked_tiers_def)

lemma length_ranked [simp]: "length (ranked_tiers ts) = length ts"
  by (simp add: ranked_tiers_def)

lemma ranked_order:
  assumes "i < j" "j < length ts"
  shows "tier_score (fst (ranked_tiers ts ! j)) < tier_score (fst (ranked_tiers ts ! i)) \<or>
    tier_score (fst (ranked_tiers ts ! i)) = tier_score (fst (ranked_tiers ts ! j)) \<and>
    snd (ranked_tiers ts ! i) < snd (ranked_tiers ts ! j)"
proof -
  have "mset (map snd (ranked_tiers ts)) = mset [0..<length ts]"
    using mset_ranked [of ts] by (metis length_map length_upt map_nth map_snd_zip mset_map)
  then have "distinct (map snd (ranked_tiers ts))" by (metis distinct_upt mset_eq_imp_distinct_iff)
  with assms have "snd (ranked_tiers ts ! i) \<noteq> snd (ranked_tiers ts ! j)" by (force simp: distinct_conv_nth)
  then show ?thesis
    using tier_order.js_sort_nth [OF assms(1), of "zip ts [0..<length ts]"] assms(2)
    by (auto simp: ranked_tiers_def tier_cmp_le)
qed

lemma check_tiers_Inl:
  "check_tiers ts = Inl e \<Longrightarrow> \<exists>t \<in> set ts. e = NegativeMinimum (wt_recipient t) (wt_minimumAmount t) \<and> wt_minimumAmount t < 0"
  by (induction ts) (auto split: if_splits)

lemma plan_Inl:
  "plan iv a c = Inl e \<longleftrightarrow> (if a < 0 then e = NegativeAvailable a else check_tiers (wc_tiers c) = Inl e)"
  by (cases "check_tiers (wc_tiers c)") (auto simp: plan_def Let_def split: prod.split)

section \<open>Properties\<close>

text \<open>
  C17: A plan neither creates nor loses money. Planning fails exactly when the available amount or
  some tier's minimum is negative, and names it. Otherwise the amounts of the steps and the reported
  remainder add up to the available amount, the reported total is the sum of the steps, neither the
  remainder nor any step is negative, and each step pays either its tier's full minimum (when
  satisfied) or nothing.
\<close>

theorem waterfall_conserves_funds:
  "case plan iv available config of
     Inl (NegativeAvailable a) \<Rightarrow> a = available \<and> available < 0
   | Inl (NegativeMinimum who m) \<Rightarrow> 0 \<le> available \<and> m < 0 \<and> (\<exists>t \<in> set (wc_tiers config). wt_recipient t = who \<and> wt_minimumAmount t = m)
   | Inr p \<Rightarrow> 0 \<le> available \<and> (\<forall>t \<in> set (wc_tiers config). 0 \<le> wt_minimumAmount t) \<and>
       sum_list (map ws_amount (wp_steps p)) + wp_remaining p = available \<and>
       wp_totalAllocated p = sum_list (map ws_amount (wp_steps p)) \<and> 0 \<le> wp_remaining p \<and>
       (\<forall>s \<in> set (wp_steps p). 0 \<le> ws_amount s \<and> ws_amount s = (if ws_satisfied s then ws_minimumAmount s else 0))"
proof (cases "plan iv available config")
  case (Inl e)
  from Inl have "(available < 0 \<and> e = NegativeAvailable available) \<or>
      (0 \<le> available \<and> (\<exists>t \<in> set (wc_tiers config). e = NegativeMinimum (wt_recipient t) (wt_minimumAmount t) \<and> wt_minimumAmount t < 0))"
    unfolding plan_Inl using check_tiers_Inl [of "wc_tiers config" e] by (auto split: if_splits)
  then show ?thesis unfolding Inl by auto
next
  case (Inr p)
  from plan_prefix(1) [OF Inr] obtain n where
    pp: "paid_prefix (inv_token iv) (sortTiersByScore (wc_tiers config)) available n (wp_steps p) (wp_remaining p)" ..
  have nn: "\<forall>t \<in> set (sortTiersByScore (wc_tiers config)). 0 \<le> wt_minimumAmount t" using plan_prefix(2) [OF Inr] by simp
  have "0 \<le> available" using Inr by (auto simp: plan_def split: if_splits)
  moreover have "sum_list (map ws_amount (wp_steps p)) + wp_remaining p = available" "0 \<le> wp_remaining p"
    using pp by (auto simp: paid_prefix_def o_def)
  moreover have "\<forall>s \<in> set (wp_steps p). 0 \<le> ws_amount s \<and> ws_amount s = (if ws_satisfied s then ws_minimumAmount s else 0)"
    using pp nn by (auto simp: paid_prefix_def dest: in_set_takeD)
  ultimately show ?thesis unfolding Inr sum.case using plan_prefix(2,3) [OF Inr] by blast
qed

definition sample_config :: waterfall_config where
  "sample_config = \<lparr>wc_tiers =
     [\<lparr>wt_recipient = ''fee'', wt_minimumAmount = 10, wt_asset = None, wt_score = None\<rparr>,
      \<lparr>wt_recipient = ''tax'', wt_minimumAmount = 50, wt_asset = None, wt_score = None\<rparr>,
      \<lparr>wt_recipient = ''own'', wt_minimumAmount = 20, wt_asset = Some ''X'', wt_score = Some 1\<rparr>],
     wc_allowPartial = None\<rparr>"

definition sample_plan :: waterfall_plan where
  "sample_plan = \<lparr>wp_steps =
     [\<lparr>ws_recipient = ''own'', ws_amount = 20, ws_asset = ''X'', ws_minimumAmount = 20, ws_satisfied = True\<rparr>,
      \<lparr>ws_recipient = ''fee'', ws_amount = 10, ws_asset = ''T'', ws_minimumAmount = 10, ws_satisfied = True\<rparr>,
      \<lparr>ws_recipient = ''tax'', ws_amount = 0, ws_asset = ''T'', ws_minimumAmount = 50, ws_satisfied = False\<rparr>],
     wp_fullySatisfied = False, wp_totalAllocated = 30, wp_remaining = 15, wp_allowPartial = None\<rparr>"

lemma sample_plan_eq: "plan sample_invoice 45 sample_config = Inr sample_plan"
  by (simp add: plan_def sample_config_def sample_plan_def sample_invoice_def sortTiersByScore_def
      js_sort_def tier_cmp_def tier_score_def step_of_def upt_rec numeral_2_eq_2)

theorem waterfall_conserves_funds_witness:
  "sum_list (map ws_amount (wp_steps sample_plan)) + wp_remaining sample_plan = 45 \<and> 0 \<le> wp_remaining sample_plan"
  using waterfall_conserves_funds [where iv = sample_invoice and available = 45 and config = sample_config] unfolding sample_plan_eq sum.case by blast

text \<open>
  A plan is fully satisfied exactly when the minimums of all the tiers together fit into the
  available amount, whatever the order the scores put the tiers in.
\<close>

theorem waterfall_full_iff_affordable:
  assumes "plan iv available config = Inr p"
  shows "wp_fullySatisfied p \<longleftrightarrow> sum_list (map wt_minimumAmount (wc_tiers config)) \<le> available"
proof -
  let ?ts = "sortTiersByScore (wc_tiers config)"
  from plan_prefix(1) [OF assms] obtain n where
    pp: "paid_prefix (inv_token iv) ?ts available n (wp_steps p) (wp_remaining p)" ..
  note full = plan_prefix(4) [OF assms] and nn = plan_prefix(2) [OF assms]
  have n: "n \<le> length (wc_tiers config)" using pp by (simp add: paid_prefix_def)
  show ?thesis
  proof (cases "n < length (wc_tiers config)")
    case True
    then have "sum_list (map wt_minimumAmount (take (Suc n) ?ts)) =
        sum_list (map wt_minimumAmount (take n ?ts)) + wt_minimumAmount (?ts ! n)"
      by (simp add: take_Suc_conv_app_nth)
    with True pp have "available < sum_list (map wt_minimumAmount (take (Suc n) ?ts))"
      by (simp add: paid_prefix_def)
    also have "\<dots> \<le> sum_list (map wt_minimumAmount ?ts)"
      by (rule sum_min_take_le) (simp add: nn)
    finally have "\<not> sum_list (map wt_minimumAmount (wc_tiers config)) \<le> available"
      by (simp add: sum_min_sorted)
    moreover have "drop n ?ts = ?ts ! n # drop (Suc n) ?ts"
      using True by (simp add: Cons_nth_drop_Suc)
    with pp have "step_of (inv_token iv) (?ts ! n) 0 False \<in> set (wp_steps p)"
      by (simp add: paid_prefix_def)
    moreover have "\<not> ws_satisfied (step_of (inv_token iv) (?ts ! n) 0 False)" by simp
    ultimately show ?thesis using full by blast
  next
    case False
    with pp show ?thesis by (auto simp: full paid_prefix_def sum_min_sorted)
  qed
qed

theorem waterfall_full_iff_affordable_witness:
  "\<not> wp_fullySatisfied sample_plan \<and> \<not> sum_list (map wt_minimumAmount (wc_tiers sample_config)) \<le> 45"
  using waterfall_full_iff_affordable [OF sample_plan_eq] by (simp add: sample_config_def)

text \<open>
  C18: Priority is respected. The steps of a plan are the configured tiers, each once with its
  recipient, minimum and asset, ordered by falling score and, among equal scores, as they were
  declared. The paid steps come first, and the first step that is not paid asks for more than what
  remained after paying those before it.
\<close>

theorem waterfall_respects_priority:
  assumes "plan iv available config = Inr p"
  shows "\<exists>ranked. mset ranked = mset (zip (wc_tiers config) [0..<length (wc_tiers config)]) \<and>
    (\<forall>i j. i < j \<and> j < length ranked \<longrightarrow>
       tier_score (fst (ranked ! j)) < tier_score (fst (ranked ! i)) \<or>
       tier_score (fst (ranked ! i)) = tier_score (fst (ranked ! j)) \<and> snd (ranked ! i) < snd (ranked ! j)) \<and>
    map (\<lambda>s. (ws_recipient s, ws_minimumAmount s, ws_asset s)) (wp_steps p) =
      map (\<lambda>(t, index). (wt_recipient t, wt_minimumAmount t, case wt_asset t of None \<Rightarrow> inv_token iv | Some a \<Rightarrow> a)) ranked \<and>
    (\<exists>n \<le> length (wp_steps p). map ws_satisfied (wp_steps p) = replicate n True @ replicate (length (wp_steps p) - n) False \<and>
       (n < length (wp_steps p) \<longrightarrow> wp_remaining p < ws_minimumAmount (wp_steps p ! n)))"
proof -
  let ?r = "ranked_tiers (wc_tiers config)"
  from plan_prefix(1) [OF assms(1)] obtain n where
    pp: "paid_prefix (inv_token iv) (map fst ?r) available n (wp_steps p) (wp_remaining p)"
    unfolding sorted_ranked ..
  then have n: "n \<le> length (wc_tiers config)"
    and st: "wp_steps p = map (\<lambda>t. step_of (inv_token iv) t (wt_minimumAmount t) True) (take n (map fst ?r))
           @ map (\<lambda>t. step_of (inv_token iv) t 0 False) (drop n (map fst ?r))"
    and rest: "n < length (wc_tiers config) \<Longrightarrow> wp_remaining p < wt_minimumAmount (fst (?r ! n))"
    by (simp_all add: paid_prefix_def)
  have len: "length (wp_steps p) = length (wc_tiers config)" using n by (simp add: st)
  have fields: "map (\<lambda>s. (ws_recipient s, ws_minimumAmount s, ws_asset s)) (wp_steps p) =
      map (\<lambda>t. (wt_recipient t, wt_minimumAmount t, case wt_asset t of None \<Rightarrow> inv_token iv | Some a \<Rightarrow> a)) (map fst ?r)"
    unfolding st by (subst append_take_drop_id [of n "map fst ?r", symmetric]) (simp add: o_def step_of_def del: append_take_drop_id)
  have sat: "map ws_satisfied (wp_steps p) = replicate n True @ replicate (length (wp_steps p) - n) False"
    using n unfolding len by (simp add: st o_def map_replicate_const)
  have "n < length (wp_steps p) \<Longrightarrow> wp_remaining p < ws_minimumAmount (wp_steps p ! n)"
    using rest n by (simp add: len) (simp add: st nth_append)
  with sat n len fields mset_ranked ranked_order show ?thesis
    by (intro exI [of _ ?r] conjI exI [of _ n]) (auto simp: o_def split_beta)
qed

theorem waterfall_respects_priority_witness:
  "\<exists>ranked. mset ranked = mset (zip (wc_tiers sample_config) [0..<length (wc_tiers sample_config)]) \<and>
     map ws_recipient (wp_steps sample_plan) = map (\<lambda>(t, index). wt_recipient t) ranked"
proof -
  have fields: "map ws_recipient (wp_steps sample_plan) = map (\<lambda>(t, index). wt_recipient t) ranked"
    if "map (\<lambda>s. (ws_recipient s, ws_minimumAmount s, ws_asset s)) (wp_steps sample_plan) =
      map (\<lambda>(t, index). (wt_recipient t, wt_minimumAmount t, case wt_asset t of None \<Rightarrow> inv_token sample_invoice | Some a \<Rightarrow> a)) ranked"
    for ranked :: "(waterfall_tier \<times> nat) list"
    using arg_cong [OF that, of "map fst"] by (simp add: o_def split_beta)
  show ?thesis
    by (rule ex_forward [OF waterfall_respects_priority [OF sample_plan_eq]]) (elim conjE, intro conjI, assumption, erule fields)
qed

end
