(* ===== verification/Spec2Isabelle.thy ===== *)
theory Spec2Isabelle
  imports Access_Control Allocation Amm Amounts Batch_Scheduler Cache Channel_Pool
    Circuit_Breaker Circular_Buffer Collaboration Compressor Dao_Governance Deadlines
    Dependency_Graph Escrow_Vault Fee_Trend Hash_Chain Idempotency Invoice_Diff Invoice_State
    Json Lane_Queue Merkle Multi_Sig Nonce_Manager Optimistic_Cache Orchestrator Payment_Graph
    Prelude Qr_Code Rate_Limiter Request_Queue Rounding Sequence_Cache Settlement
    Settlement_Plan Signer_Weights Split_Preview Stream_Dedup Throttle Token_Gate Tx_Queue
    Version_Tracker Waterfall
begin

text \<open>
  A verification library for the StellarSplit SDK: definitions translated from the TypeScript
  sources under \<open>src/src/\<close> (file names below are relative to that directory) and the theorems that
  make them correct. This theory only imports the others.

  \<^bold>\<open>The program.\<close> The SDK is a client of a Soroban contract that splits an invoice over recipients. A
  facade (\<open>client.ts\<close>) builds transactions with the Stellar SDK and sends them to servers; around it
  stand self-contained parts that decide, count, cache, order, retry and record. Those parts are what
  is modelled. They meet at few places: caches and ring buffers are used by the sequence numbers,
  the token gate, the fee analyser and the stream deduplicator; the idempotency store by the chunker;
  the JSON text of a record by everything that hashes.

  \<^bold>\<open>How the code is read.\<close>
  \<^item> Numbers: a \<open>bigint\<close> is an \<open>int\<close> whose division truncates; a \<open>number\<close> holding a count, a time or
    an amount in whole units is an \<open>int\<close> (far below \<open>2 ^ 53\<close>); a fraction is a \<open>rat\<close>. Where the
    rounding of a floating-point operation can matter, it is an argument \<open>fl\<close> (or \<open>share\<close>) of the
    definition and the theorems hold for every such function, or for every monotone one that fixes
    the integers.
  \<^item> Data: an interface is a \<open>record\<close>, a union or an enumeration a \<open>datatype\<close>; a \<open>Map\<close> is an
    association list in insertion order, a \<open>Set\<close> a list without repetition; an optional field is an
    \<open>option\<close>. Objects that several calls share live in an explicit store under an identifier or index
    (\<open>Sequence_Cache\<close>, \<open>Escrow_Vault\<close>, \<open>Settlement\<close>).
  \<^item> Errors: a call that may throw returns a sum, \<open>Inl\<close> for the error. If it changed the state
    before, the state comes beside the result.
  \<^item> Asynchrony: JavaScript runs a call without interruption up to an \<open>await\<close>. A call that awaits is
    cut there into definitions; the calls waiting are part of the state, and a step function resumes
    any of them in any order. Invariants over all interleavings are proved by induction on the steps.
  \<^item> The environment: what Horizon, a wallet or a caller's function answers, SHA-256, random numbers and
    the clock are arguments. Of the hash the theorems assume at most that its outputs are not empty or
    have a fixed length; collisions are an alternative in the conclusion. Events handed to listeners are
    results, or a log in the state.

  \<^bold>\<open>Theories, the code they model and what they show.\<close>

  \<^item> \<open>Prelude\<close>: results that may throw, the JavaScript operations on numbers, strings and arrays (rounding,
    stable sorting, decimal printing and parsing), maps, and two interfaces shared by several
    components: \<open>machine\<close> (an invariant kept by every step holds in every run) and \<open>keyed_store\<close> in
    \<open>Cache\<close>.
  \<^item> \<open>Json\<close>: \<open>JSON.stringify\<close> on plain data; the text determines the value.

  Money:
  \<^item> \<open>Rounding\<close> (\<open>invoice/rounding.ts\<close>, \<open>invoice/calculator.ts\<close>): the largest-remainder correction; every
    amount is its floor or one stroop off it and the corrected ones have the largest fractional parts.
  \<^item> \<open>Waterfall\<close> (\<open>routing/WaterfallRouter.ts\<close>): the steps are the tiers by score, they
    and the remainder add up to what is available.
  \<^item> \<open>Allocation\<close> (\<open>paymentAllocation.ts\<close>): a budget over invoices by water-filling in at most 1024
    passes. Each pass before the last removes an invoice or leaves less than one stroop each, so two
    passes per invoice are enough; for up to 512 invoices the sum is exact.
  \<^item> \<open>Split_Preview\<close> (\<open>validators/recipientDeduplicator.ts\<close>, \<open>splitPreview.ts\<close>,
    \<open>validators/splitRatioValidator.ts\<close>, \<open>vesting.ts\<close>): merging equals grouping by account; a
    difference applied to the old configuration gives the new one; vesting is monotone.
  \<^item> \<open>Amm\<close> (\<open>ammCalculator.ts\<close>): swap estimates, pool shares and routes on decimal strings.
  \<^item> \<open>Circular_Buffer\<close> (\<open>utils/circularBuffer.ts\<close>), \<open>Fee_Trend\<close> (\<open>utils/stats.ts\<close>, \<open>fees/trend.ts\<close>): the ring
    buffer refines the list of its last elements; recommendations lie between the samples.

  Invoices:
  \<^item> \<open>Invoice_State\<close> (\<open>state/InvoiceStateMachine.ts\<close>, \<open>stateMachineValidator.ts\<close>): the recorded history is a
    walk of the transition graph; terminal states are final.
  \<^item> \<open>Dependency_Graph\<close> (\<open>dependencyGraphValidator.ts\<close>, \<open>prerequisiteChain.ts\<close>): a cycle is reported
    exactly when there is one. The search is recursive on the nodes not yet visited; the walk
    along prerequisites ends after at most 20 steps, the limit of the code, for every client.
  \<^item> \<open>Invoice_Diff\<close> (\<open>diff.ts\<close>, \<open>conflictResolver.ts\<close>), \<open>Version_Tracker\<close> (\<open>invoiceVersionTracker.ts\<close>):
    equality, three-way merge, version history and rollback.
  \<^item> \<open>Collaboration\<close> (\<open>invoiceCollaboration.ts\<close>): comment threads and approval requests with a quorum.
  \<^item> \<open>Escrow_Vault\<close> (\<open>escrowVaultManager.ts\<close>): release only after the hold time, under every interleaving.
  \<^item> \<open>Settlement\<close> (\<open>crossChainSettlement.ts\<close>): one completion per settlement while queries do not overlap,
    and what overlapping queries lose.

  Who may act:
  \<^item> \<open>Access_Control\<close> (\<open>accessControl.ts\<close>): grants, the caching manager, custody withdrawals with a quorum.
    The turns of \<open>approve\<close> and \<open>reject\<close> interleave at the awaited access check: what holds under every
    interleaving, and what the code loses there (one address counted twice, a second execution).
  \<^item> \<open>Multi_Sig\<close> (\<open>multiSignature.ts\<close>, \<open>approvalWorkflowSequencer.ts\<close>): thresholds of distinct signers.
  \<^item> \<open>Signer_Weights\<close> (\<open>accounts/AccountSignerWeightCalculator.ts\<close>): every key counts once.
  \<^item> \<open>Dao_Governance\<close> (\<open>governance/daoGovernance.ts\<close>): tallies match voters, the treasury is conserved.
  \<^item> \<open>Token_Gate\<close> (\<open>tokenGateController.ts\<close>): a grant rests on a recent answer about the same caller and
    asset.

  Submitting:
  \<^item> \<open>Nonce_Manager\<close> (\<open>nonceManager.ts\<close>), \<open>Sequence_Cache\<close> (\<open>sequenceCache.ts\<close>): numbers handed out once and in
    order.
  \<^item> \<open>Idempotency\<close> (\<open>idempotency.ts\<close>, \<open>operationChunker.ts\<close>, \<open>dedup.ts\<close>): a repeated batch resumes
    while its keys live.
  \<^item> \<open>Channel_Pool\<close> (\<open>submission/ChannelAccountManager.ts\<close>): open assignments never share an account.
  \<^item> \<open>Request_Queue\<close> (\<open>priorityQueue.ts\<close>): the heap refines one line per priority.
  \<^item> \<open>Rate_Limiter\<close> (\<open>rateLimiter.ts\<close>), \<open>Circuit_Breaker\<close> (\<open>resilience/CircuitBreaker.ts\<close>): the rate
    over every stretch of windows; when calls are let through.
  \<^item> \<open>Payment_Graph\<close> (\<open>graph/PaymentGraphChecker.ts\<close>): a recipient is reachable exactly when the search says
    so; the queue of the search is bounded by the vertices, each is entered once.

  Remembering:
  \<^item> \<open>Cache\<close>, \<open>Compressor\<close> (\<open>cache.ts\<close>), \<open>Optimistic_Cache\<close> (\<open>cache/OptimisticCache.ts\<close>): a hit is the last write
    or the newest prediction; when compression loses nothing. Lifetimes are looked up in a plain object,
    with the members it inherits.
  \<^item> \<open>Stream_Dedup\<close> (\<open>streamDeduplicator.ts\<close>, \<open>snapshot.ts\<close>): the window of tokens, at least one.
  \<^item> \<open>Merkle\<close> (\<open>merkle.ts\<close>), \<open>Hash_Chain\<close> (\<open>receipts/ReceiptChain.ts\<close>, \<open>audit/AuditTrailHasher.ts\<close>): proofs are
    complete, and sound up to collisions; chains are tamper evident.

  Running, pacing and checking payments:
  \<^item> \<open>Orchestrator\<close> (\<open>paymentOrchestrator.ts\<close>), \<open>Batch_Scheduler\<close> (\<open>paymentBatchScheduler.ts\<close>): every payment
    is at one place until it is settled; a batch is executed once and not early.
  \<^item> \<open>Tx_Queue\<close> (\<open>queue.ts\<close>), \<open>Lane_Queue\<close> (\<open>requestQueue.ts\<close>, \<open>operationQueue.ts\<close>): the transaction queue runs
    one entry at a time, the lanes stay work conserving; both provide the interface \<open>service_order\<close> beside
    \<open>Request_Queue\<close>.
  \<^item> \<open>Amounts\<close> (\<open>utils.ts\<close>, \<open>validators/amountValidator.ts\<close>): printing, parsing and validation of amounts, and
    late penalties.
  \<^item> \<open>Settlement_Plan\<close> (\<open>paymentSettlementOptimizer.ts\<close>, \<open>batchPaymentOptimizer.ts\<close>,
    \<open>batchOptimizationEnhancements.ts\<close>, \<open>reconciliationEngine.ts\<close>): a plan holds every payment once, merging
    keeps what is paid under each key, and a report is balanced exactly when the ledger occurs on chain.
  \<^item> \<open>Throttle\<close> (\<open>throttle/AdaptiveThrottle.ts\<close>, \<open>throttle/RateLimitParser.ts\<close>): the token bucket keeps the
    server's rate between two answers and loses no waiting call.
  \<^item> \<open>Qr_Code\<close> (\<open>qr/qrEcc.ts\<close>, \<open>qr/qrData.ts\<close>, \<open>qr/qrMatrix.ts\<close>): the table lookup is multiplication in the field;
    the parity and the picture do not depend on the content.
  \<^item> \<open>Deadlines\<close> (\<open>validators/deadlineValidator.ts\<close>, \<open>deadline.ts\<close>, \<open>deadlineEngine.ts\<close>): accepted deadlines fit
    the contract's field and the bounds asked for; callbacks are called once and not early. Time zones are
    arguments.

  \<^bold>\<open>Interfaces.\<close> Each locale fixes the operations a client calls and assumes what their provider
  promises; its interpretations on the model's definitions stand in the provider's theory, and the
  properties rest on the interpreted facts. Properties carry an identifier \<open>C\<close> with a number; the lemmas
  whose names say that something is lost, stuck or not enforced record where the code does not do what
  it means to.

  \<^bold>\<open>Not modelled.\<close> The client facade and everything that builds, simulates, decodes or signs
  transactions (the structures belong to the Stellar SDK), HTTP and streaming clients, wallets and key
  stores, the anchor protocols, webhooks, telemetry, user interface, file formats, and statistics in
  floating point without a contract. Error classes and types are mapped where a modelled component uses
  them. In the audit trail the methods on
  a field the class does not declare are left out, and in the cache the registration of listeners.
\<close>

end
